(* ===== verification/Prelude.thy ===== *)
theory Prelude
  imports Main "HOL-Library.Word" "HOL-Library.Sublist"
begin

unbundle bit_operations_syntax

text \<open>
  Shared vocabulary of the development: the machine integers of the C code, byte
  strings, big-endian numbers, and the generic facts on words and lists that the
  component theories use. The collection \<open>byte_simps\<close> gathers the equations that turn
  word-level code (shifts, masks, casts) into arithmetic on \<open>nat\<close>.
\<close>

named_theorems byte_simps

type_synonym u8 = "8 word"
type_synonym u16 = "16 word"
type_synonym u32 = "32 word"
type_synonym u64 = "64 word"
type_synonym bytes = "8 word list"

text \<open>\<open>size_t\<close> is 64 bits wide on the platforms the library is built for; its sums wrap.\<close>

definition size_add :: "nat \<Rightarrow> nat \<Rightarrow> nat" where
  "size_add a b = (a + b) mod 2 ^ 64"

text \<open>\<open>INT_MAX\<close>, the largest \<open>int\<close>.\<close>

definition INT_MAX :: nat where "INT_MAX = 2147483647"

lemma size_add_small: "a + b < 2 ^ 64 \<Longrightarrow> size_add a b = a + b"
  by (simp add: size_add_def)

lemma size_add_overflow_iff:
  assumes "a < 2 ^ 64" "b < 2 ^ 64"
  shows "size_add a b < a \<longleftrightarrow> 2 ^ 64 \<le> a + b"
proof (cases "a + b < 2 ^ 64")
  case True
  then show ?thesis by (simp add: size_add_def)
next
  case False
  with assms have "(a + b) mod 2 ^ 64 = a + b - 2 ^ 64"
    by (simp add: le_mod_geq)
  with False assms show ?thesis by (simp add: size_add_def)
qed

section \<open>Words as numbers\<close>

lemma unat_or_disjoint: "(x :: 'a::len word) AND y = 0 \<Longrightarrow> unat (x OR y) = unat x + unat y"
proof -
  assume a: "x AND y = 0"
  have "unat x AND unat y = unat (x AND y)" by (simp add: unsigned_and_eq)
  with a have "unat x AND unat y = 0" by simp
  then have "unat x + unat y = unat x OR unat y" by (simp add: disjunctive_add_eq_or)
  then show ?thesis by (simp add: unsigned_or_eq)
qed

lemma unat_push_bit:
  "unat (x :: 'a::len word) * 2 ^ n < 2 ^ LENGTH('a) \<Longrightarrow> unat (push_bit n x) = unat x * 2 ^ n"
  unfolding unsigned_push_bit_eq by (simp add: take_bit_eq_mod push_bit_eq_mult)

lemma unat_drop_bit [byte_simps]: "unat (drop_bit n (x :: 'a::len word)) = unat x div 2 ^ n"
  unfolding unat_drop_bit_eq by (simp add: drop_bit_eq_div)

lemma unat_take_bit [byte_simps]: "unat (take_bit n (x :: 'a::len word)) = unat x mod 2 ^ n"
  unfolding unsigned_take_bit_eq by (simp add: take_bit_eq_mod)

lemma unat_and_mask:
  assumes "m = mask n"
  shows "unat ((x :: 'a::len word) AND m) = unat x mod 2 ^ n"
  unfolding assms by (simp only: flip: take_bit_eq_mask) (simp only: unat_take_bit)

lemma unat_and_not_mask:
  assumes "m = NOT (mask n)"
  shows "unat ((x :: 'a::len word) AND m) = unat x div 2 ^ n * 2 ^ n"
proof -
  have "(x AND NOT (mask n)) AND (x AND mask n) = 0"
    by (simp add: bit_eq_iff bit_simps)
  moreover have "(x AND NOT (mask n)) OR (x AND mask n) = x"
    by (rule bit_eqI) (auto simp: bit_simps)
  ultimately have "unat (x AND NOT (mask n)) + unat (x AND mask n) = unat x"
    by (metis unat_or_disjoint)
  then show ?thesis
    unfolding assms using div_mult_mod_eq [of "unat x" "2 ^ n"] by (simp add: unat_and_mask)
qed

lemma unat_ucast [byte_simps]:
  "unat (ucast (x :: 'a::len word) :: 'b::len word) = unat x mod 2 ^ LENGTH('b)"
  by (simp add: unsigned_ucast_eq take_bit_eq_mod)

lemma unat_ucast_up [simp]:
  "LENGTH('a::len) \<le> LENGTH('b::len) \<Longrightarrow> unat (ucast (x :: 'a word) :: 'b word) = unat x"
  by (simp add: unat_ucast) (rule mod_less, rule less_le_trans [OF unsigned_less], simp)

lemma take_bit_id: "unat (y :: 'a::len word) < 2 ^ n \<Longrightarrow> take_bit n y = y"
  by (metis take_bit_nat_eq_self_iff unsigned_take_bit_eq unsigned_word_eqI)

lemma push_and_small:
  assumes "unat (y :: 'a::len word) < 2 ^ n"
  shows "push_bit n x AND y = 0"
proof (rule bit_eqI)
  fix k
  have "take_bit n y = y" using assms by (rule take_bit_id)
  then show "bit (push_bit n x AND y) k = bit 0 k"
    by (metis bit_0_eq bit_and_iff bit_push_bit_iff bit_take_bit_iff linorder_not_le
        bot_apply bot_bool_def)
qed

text \<open>The recurring step of every big-endian reader: shift left, then \<open>OR\<close> the next digit in.\<close>

lemma unat_shift_or:
  assumes "unat (x :: 'a::len word) * 2 ^ n < 2 ^ LENGTH('a)" "unat y < 2 ^ n"
  shows "unat (push_bit n x OR y) = unat x * 2 ^ n + unat y"
  using assms by (simp add: unat_or_disjoint push_and_small unat_push_bit)

lemma word_eq_of_nat: "unat (x :: 'a::len word) = n \<Longrightarrow> x = of_nat n"
  by auto

lemma word_eqI_unat: "unat (x :: 'a::len word) = unat y \<Longrightarrow> x = y"
  by (rule word_unat_eq_iff [THEN iffD2])

lemma unat_less_256 [simp]: "unat (b :: u8) < 256"
  using unsigned_less [of b] by simp

lemma unat_le_255 [simp]: "unat (b :: u8) \<le> 255"
  using unat_less_256 [of b] by linarith

lemma byte_masks [byte_simps]:
  fixes b :: u8
  shows "unat (b AND 0x1f) = unat b mod 32" "unat (b AND 0x7f) = unat b mod 128"
    "unat (b AND 0xe0) = unat b div 32 * 32" "unat (b AND 0x80) = unat b div 128 * 128"
  by (simp_all add: unat_and_mask [where n = 5] unat_and_mask [where n = 7]
      unat_and_not_mask [where n = 5] unat_and_not_mask [where n = 7] mask_eq_exp_minus_1)

lemma high_bit_clear: "(b :: u8) AND 0x80 = 0 \<longleftrightarrow> unat b < 128"
proof -
  have "b AND 0x80 = 0 \<longleftrightarrow> unat (b AND 0x80) = 0" by (simp add: unat_eq_0)
  then show ?thesis by (auto simp: byte_masks div_eq_0_iff)
qed

lemma unat_u16_less [simp]: "unat (x :: u16) < 65536"
  using unsigned_less [of x] by simp

lemma unat_u32_less [simp]: "unat (x :: u32) < 4294967296"
  using unsigned_less [of x] by simp

lemma unat_u64_less [simp]: "unat (x :: u64) < 18446744073709551616"
  using unsigned_less [of x] by simp

lemma u8_of_nat_unat [simp]: "n < 256 \<Longrightarrow> unat (of_nat n :: u8) = n"
  by (simp add: unat_of_nat)

lemma mod_less_twice: "k \<le> n \<Longrightarrow> n < 2 * k \<Longrightarrow> n mod k = n - (k :: nat)"
  by (simp add: le_mod_geq)

lemma mod_horner: "((a mod m) * k + c) mod m = (a * k + c) mod (m :: nat)"
  by (metis mod_add_left_eq mod_mult_left_eq)

section \<open>Big-endian numbers\<close>

definition be_val :: "bytes \<Rightarrow> nat" where
  "be_val bs = foldl (\<lambda>v b. v * 256 + unat b) 0 bs"

fun be_bytes :: "nat \<Rightarrow> nat \<Rightarrow> bytes" where
  "be_bytes 0 v = []"
| "be_bytes (Suc n) v = be_bytes n (v div 256) @ [of_nat (v mod 256)]"

lemma be_val_Nil [simp]: "be_val [] = 0"
  by (simp add: be_val_def)

lemma be_val_snoc [simp]: "be_val (bs @ [b]) = be_val bs * 256 + unat b"
  by (simp add: be_val_def)

lemma be_val_append: "be_val (as @ bs) = be_val as * 256 ^ length bs + be_val bs"
  by (induction bs rule: rev_induct) (simp_all add: algebra_simps flip: append_assoc)

lemma be_val_single [simp]: "be_val [b] = unat b"
  by (simp add: be_val_def)

lemma be_val_Cons: "be_val (b # bs) = unat b * 256 ^ length bs + be_val bs"
  using be_val_append [of "[b]" bs] by simp

lemma be_val_less: "be_val bs < 256 ^ length bs"
proof (induction bs rule: rev_induct)
  case (snoc b bs)
  have "be_val bs * 256 + unat b < (be_val bs + 1) * 256" by simp
  also have "\<dots> \<le> 256 ^ length bs * 256" using snoc by (intro mult_le_mono1) simp
  finally show ?case by (simp add: mult.commute)
qed simp

lemma length_be_bytes [simp]: "length (be_bytes n v) = n"
  by (induction n arbitrary: v) simp_all

lemma be_val_be_bytes: "be_val (be_bytes n v) = v mod 256 ^ n"
proof (induction n arbitrary: v)
  case (Suc n)
  have "v mod 256 ^ Suc n = (v div 256) mod 256 ^ n * 256 + v mod 256"
    by (simp add: mod_mult2_eq)
  with Suc show ?case by (simp add: be_val_snoc)
qed simp

lemma be_bytes_be_val: "be_bytes (length bs) (be_val bs) = bs"
  by (induction bs rule: rev_induct) (simp_all add: div_add1_eq)

lemma be_val_inj: "length as = length bs \<Longrightarrow> be_val as = be_val bs \<Longrightarrow> as = bs"
  by (metis be_bytes_be_val)

lemma be_bytes_inj: "be_bytes n v = be_bytes n w \<Longrightarrow> v < 256 ^ n \<Longrightarrow> w < 256 ^ n \<Longrightarrow> v = w"
  by (metis be_val_be_bytes mod_less)

section \<open>Lists\<close>

lemma suffix_drop_trans: "suffix c' (drop n c) \<Longrightarrow> suffix c' c"
  by (meson suffix_drop suffix_order.trans)

lemma suffix_length_less: "suffix c' c \<Longrightarrow> length c' \<le> length c"
  by (rule suffix_length_le)

lemma suffix_take: "suffix s c \<Longrightarrow> take (length c - length s) c @ s = c"
  by (auto simp: suffix_def)

lemma append_eq_drop: "c = a @ b \<Longrightarrow> b = drop (length a) c"
  by simp

section \<open>Memory areas\<close>

text \<open>Overwriting memory from an offset on, as \<open>memcpy\<close> and \<open>memmove\<close> do.\<close>

definition write_at :: "nat \<Rightarrow> bytes \<Rightarrow> bytes \<Rightarrow> bytes" where
  "write_at off data buf = take off buf @ data @ drop (off + length data) buf"

lemma length_write_at [simp]: "off + length d \<le> length b \<Longrightarrow> length (write_at off d b) = length b"
  by (simp add: write_at_def)

lemma take_write_at: "off + length d \<le> length b \<Longrightarrow> take (off + length d) (write_at off d b) = take off b @ d"
  by (simp add: write_at_def)

end
