(* ===== verification/Interfaces.thy ===== *)
theory Interfaces
  imports Prelude
begin

text \<open>
  The contracts the components rely on, as locales. A reader takes a byte string and
  returns a value (or \<open>None\<close>) with the rest of the input, as every \<open>CBS_get_*\<close> function
  does: \<open>byte_reader\<close> says that it only ever moves forward, \<open>strict_reader\<close> that a success
  consumes something. \<open>prefix_code\<close> is the contract between a writer and a reader of one
  format, \<open>canonical_code\<close> the stronger one that the reader accepts nothing but what the
  writer produces, as DER demands. The loop \<open>read_all\<close> is the client of these contracts.
\<close>

section \<open>The reading loop\<close>

text \<open>
  \<open>while (CBS_len(cbs) != 0) { if (!rd(cbs, &x)) return 0; ... }\<close>. The test that the
  reader has consumed something makes the recursion well-founded; a \<open>strict_reader\<close>
  always passes it, so for these readers it is the C loop.
\<close>

function read_all :: "(bytes \<Rightarrow> 'a option \<times> bytes) \<Rightarrow> bytes \<Rightarrow> 'a list option" where
  "read_all rd c =
     (if c = [] then Some []
      else case rd c of
        (None, c') \<Rightarrow> None
      | (Some v, c') \<Rightarrow>
          if length c' < length c then map_option (Cons v) (read_all rd c') else None)"
  by pat_completeness auto
termination
  by (relation "measure (\<lambda>(rd, c). length c)") auto

declare read_all.simps [simp del]

lemma read_all_Nil [simp]: "read_all rd [] = Some []"
  by (simp add: read_all.simps)

lemma read_all_fail: "c \<noteq> [] \<Longrightarrow> rd c = (None, c') \<Longrightarrow> read_all rd c = None"
  by (subst read_all.simps) simp

lemma read_all_step:
  "rd c = (Some v, c') \<Longrightarrow> length c' < length c \<Longrightarrow>
   read_all rd c = map_option (Cons v) (read_all rd c')"
  by (subst read_all.simps) auto

lemma read_all_SomeE:
  assumes "read_all rd c = Some xs"
  obtains "c = []" "xs = []"
  | v c' ys where "c \<noteq> []" "rd c = (Some v, c')" "length c' < length c"
      "read_all rd c' = Some ys" "xs = v # ys"
  using assms by (subst (asm) read_all.simps) (auto split: if_splits prod.splits option.splits)

section \<open>Readers\<close>

locale byte_reader =
  fixes rd :: "bytes \<Rightarrow> 'a option \<times> bytes"
  assumes rd_suffix: "suffix (snd (rd c)) c"
begin

lemma rd_drop: "\<exists>n \<le> length c. snd (rd c) = drop n c"
proof -
  from rd_suffix [of c] obtain p where "c = p @ snd (rd c)" by (auto simp: suffix_def)
  then have "snd (rd c) = drop (length p) c" "length p \<le> length c"
    by (metis append_eq_conv_conj, metis le_add1 length_append)
  then show ?thesis by blast
qed

lemma rd_length: "length (snd (rd c)) \<le> length c"
  using rd_suffix by (rule suffix_length_le)

lemma rd_consumed: "take (length c - length (snd (rd c))) c @ snd (rd c) = c"
  using rd_suffix by (rule suffix_take)

end

locale strict_reader = byte_reader rd
  for rd :: "bytes \<Rightarrow> 'a option \<times> bytes" +
  assumes rd_strict: "rd c = (Some v, c') \<Longrightarrow> length c' < length c"
begin

text \<open>The loop takes the branch the C code takes: the progress test never fails.\<close>

lemma read_all_unfold:
  "read_all rd c =
     (if c = [] then Some []
      else case rd c of (None, c') \<Rightarrow> None
           | (Some v, c') \<Rightarrow> map_option (Cons v) (read_all rd c'))"
  by (subst read_all.simps) (auto split: prod.splits option.splits dest: rd_strict)

lemma read_all_bound: "read_all rd c = Some xs \<Longrightarrow> length xs \<le> length c"
proof (induction c arbitrary: xs rule: length_induct)
  case (1 c)
  from "1.prems" show ?case
  proof (cases rule: read_all_SomeE)
    case (2 v c' ys)
    with "1.IH" have "length ys \<le> length c'" by blast
    with 2 show ?thesis by simp
  qed simp
qed

end

section \<open>Codes\<close>

locale prefix_code =
  fixes enc :: "'a \<Rightarrow> bytes"
    and dec :: "bytes \<Rightarrow> 'a option \<times> bytes"
    and valid :: "'a \<Rightarrow> bool"
  assumes dec_enc: "valid x \<Longrightarrow> dec (enc x @ rest) = (Some x, rest)"
begin

lemma dec_enc_exact: "valid x \<Longrightarrow> dec (enc x) = (Some x, [])"
  using dec_enc [of x "[]"] by simp

lemma enc_append_inj:
  assumes "valid x" "valid y" "enc x @ r = enc y @ s"
  shows "x = y \<and> r = s"
proof -
  from dec_enc [OF assms(1), of r] dec_enc [OF assms(2), of s] assms(3)
  have "(Some x, r) = (Some y, s)" by metis
  then show ?thesis by simp
qed

lemma enc_inj: "valid x \<Longrightarrow> valid y \<Longrightarrow> enc x = enc y \<Longrightarrow> x = y"
  using enc_append_inj [of x y "[]" "[]"] by simp

text \<open>No encoding is a proper prefix of another one.\<close>

lemma prefix_free: "valid x \<Longrightarrow> valid y \<Longrightarrow> prefix (enc x) (enc y) \<Longrightarrow> x = y"
  by (metis append_Nil2 enc_append_inj prefix_def)

end

locale canonical_code = prefix_code enc dec valid
  for enc :: "'a \<Rightarrow> bytes" and dec valid +
  assumes enc_dec: "dec c = (Some x, c') \<Longrightarrow> valid x \<and> c = enc x @ c'"
    and enc_nonempty: "valid x \<Longrightarrow> enc x \<noteq> []"
begin

lemma dec_iff: "dec c = (Some x, c') \<longleftrightarrow> valid x \<and> c = enc x @ c'"
  using dec_enc enc_dec by blast

lemma dec_strict: "dec c = (Some x, c') \<Longrightarrow> length c' < length c"
  by (auto dest!: enc_dec simp: enc_nonempty)

text \<open>Decoding is a function of the consumed bytes only: what follows cannot change it.\<close>

lemma dec_append: "dec c = (Some x, c') \<Longrightarrow> dec (c @ r) = (Some x, c' @ r)"
  by (simp add: dec_iff)

lemma read_all_enc: "list_all valid xs \<Longrightarrow> read_all dec (concat (map enc xs)) = Some xs"
proof (induction xs)
  case (Cons x xs)
  then have "dec (concat (map enc (x # xs))) = (Some x, concat (map enc xs))"
    by (simp add: dec_enc)
  with Cons show ?case
    by (simp add: read_all_step enc_nonempty)
qed simp

lemma read_all_dec: "read_all dec c = Some xs \<Longrightarrow> list_all valid xs \<and> c = concat (map enc xs)"
proof (induction c arbitrary: xs rule: length_induct)
  case (1 c)
  from "1.prems" show ?case
  proof (cases rule: read_all_SomeE)
    case (2 v c' ys)
    from 2(2) have "valid v \<and> c = enc v @ c'" by (rule enc_dec)
    moreover from 2 "1.IH" have "list_all valid ys \<and> c' = concat (map enc ys)" by blast
    ultimately show ?thesis using 2 by simp
  qed simp
qed

lemma read_all_iff: "read_all dec c = Some xs \<longleftrightarrow> list_all valid xs \<and> c = concat (map enc xs)"
  using read_all_enc read_all_dec by blast

end

end
