(* ===== verification/Mem.thy ===== *)
theory Mem
  imports Prelude
begin

text \<open>
  \<open>crypto/mem.c\<close>: the allocation wrappers and the locale-independent string helpers
  every other part of the library uses. The C library's \<open>malloc\<close> is a parameter
  \<open>m :: nat \<Rightarrow> bytes option\<close>: the bytes (of arbitrary content) of the block that a request
  of the given size returns, or \<open>None\<close> for a null pointer. A pointer to a block is modelled
  by the bytes it points to; a C string is a byte list that is read up to its first NUL, and
  a read past the end of the list is \<open>None\<close>.
\<close>

section \<open>Allocation\<close>

type_synonym malloc = "nat \<Rightarrow> bytes option"

definition malloc_ok :: "malloc \<Rightarrow> bool" where
  "malloc_ok m \<longleftrightarrow> (\<forall>n b. m n = Some b \<longrightarrow> length b = n)"

text \<open>
  \<open>OPENSSL_malloc\<close>, in a build without the \<open>OPENSSL_memory_alloc\<close> hook: eight bytes in
  front of the block hold its size, and the sum must not wrap.
\<close>

definition OPENSSL_MALLOC_PREFIX :: nat where
  "OPENSSL_MALLOC_PREFIX = 8"

definition OPENSSL_malloc :: "malloc \<Rightarrow> nat \<Rightarrow> bytes option" where
  "OPENSSL_malloc m sz =
     (if size_add sz OPENSSL_MALLOC_PREFIX < sz then None
      else case m (size_add sz OPENSSL_MALLOC_PREFIX) of
        None \<Rightarrow> None
      | Some ptr \<Rightarrow> Some (drop OPENSSL_MALLOC_PREFIX ptr))"

definition OPENSSL_zalloc :: "malloc \<Rightarrow> nat \<Rightarrow> bytes option" where
  "OPENSSL_zalloc m sz =
     (case OPENSSL_malloc m sz of None \<Rightarrow> None | Some ret \<Rightarrow> Some (replicate sz 0))"

definition OPENSSL_calloc :: "malloc \<Rightarrow> nat \<Rightarrow> nat \<Rightarrow> bytes option" where
  "OPENSSL_calloc m num sz =
     (if sz \<noteq> 0 \<and> num > (2 ^ 64 - 1) div sz then None
      else OPENSSL_zalloc m ((num * sz) mod 2 ^ 64))"

text \<open>\<open>None\<close> for \<open>orig_ptr\<close> is a null pointer; the old size is the length of the block.\<close>

definition OPENSSL_realloc ::
  "malloc \<Rightarrow> bytes option \<Rightarrow> nat \<Rightarrow> bytes option" where
  "OPENSSL_realloc m orig_ptr new_size =
     (case orig_ptr of
        None \<Rightarrow> OPENSSL_malloc m new_size
      | Some old \<Rightarrow>
          (case OPENSSL_malloc m new_size of
             None \<Rightarrow> None
           | Some ret \<Rightarrow>
               (let to_copy = (if length old < new_size then length old else new_size)
                in Some (take to_copy old @ drop to_copy ret))))"

definition OPENSSL_memdup :: "malloc \<Rightarrow> bytes \<Rightarrow> bytes option" where
  "OPENSSL_memdup m data =
     (if length data = 0 then None
      else case OPENSSL_malloc m (length data) of
        None \<Rightarrow> None
      | Some ret \<Rightarrow> Some (data @ drop (length data) ret))"

definition OPENSSL_cleanse :: "bytes \<Rightarrow> nat \<Rightarrow> bytes" where
  "OPENSSL_cleanse ptr len = replicate len 0 @ drop len ptr"

lemma OPENSSL_malloc_length:
  assumes "malloc_ok m" "OPENSSL_malloc m n = Some b" "n < 2 ^ 64"
  shows "length b = n"
proof -
  from assms(2) obtain p where p: "\<not> size_add n 8 < n" "m (size_add n 8) = Some p" "b = drop 8 p"
    by (auto simp: OPENSSL_malloc_def OPENSSL_MALLOC_PREFIX_def split: if_splits option.splits)
  with assms(3) have "size_add n 8 = n + 8"
    using size_add_overflow_iff [of n 8] by (simp add: size_add_small)
  with p assms(1) have "length p = n + 8" by (auto simp: malloc_ok_def)
  with p show ?thesis by simp
qed

text \<open>An allocator that always succeeds, for examples.\<close>

definition zero_malloc :: malloc where
  "zero_malloc n = Some (replicate n 0)"

lemma zero_malloc_ok [simp]: "malloc_ok zero_malloc"
  by (simp add: malloc_ok_def zero_malloc_def)

lemma zero_malloc_block [simp]: "n < 2 ^ 63 \<Longrightarrow> OPENSSL_malloc zero_malloc n = Some (replicate n 0)"
  by (simp add: OPENSSL_malloc_def OPENSSL_MALLOC_PREFIX_def zero_malloc_def size_add_def)

lemma OPENSSL_memdup_eq:
  "malloc_ok m \<Longrightarrow> length d < 2 ^ 64 \<Longrightarrow> OPENSSL_memdup m d = Some b \<Longrightarrow> b = d"
  by (auto simp: OPENSSL_memdup_def split: if_splits option.splits dest!: OPENSSL_malloc_length)

lemma OPENSSL_realloc_prefix:
  assumes "malloc_ok m" "n < 2 ^ 64" "OPENSSL_realloc m (Some old) n = Some b"
  shows "length b = n \<and> take (min (length old) n) b = take (min (length old) n) old"
proof -
  from assms(3) obtain ret where r: "OPENSSL_malloc m n = Some ret"
    "b = take (min (length old) n) old @ drop (min (length old) n) ret"
    by (auto simp: OPENSSL_realloc_def Let_def min_def split: option.splits if_splits)
  with assms(1,2) have "length ret = n" by (blast intro: OPENSSL_malloc_length)
  with r show ?thesis by simp
qed

section \<open>Comparison and hashing\<close>

fun crypto_memcmp_loop :: "u8 \<Rightarrow> bytes \<Rightarrow> bytes \<Rightarrow> u8" where
  "crypto_memcmp_loop x (a # as) (b # bs) = crypto_memcmp_loop (x OR (a XOR b)) as bs"
| "crypto_memcmp_loop x _ _ = x"

definition CRYPTO_memcmp :: "bytes \<Rightarrow> bytes \<Rightarrow> nat \<Rightarrow> u8" where
  "CRYPTO_memcmp in_a in_b len = crypto_memcmp_loop 0 (take len in_a) (take len in_b)"

definition OPENSSL_hash32 :: "bytes \<Rightarrow> u32" where
  "OPENSSL_hash32 data =
     foldl (\<lambda>h b. (h XOR ucast b) * 16777619) 2166136261 data"

lemma crypto_memcmp_loop_zero:
  "length as = length bs \<Longrightarrow> crypto_memcmp_loop x as bs = 0 \<longleftrightarrow> x = 0 \<and> as = bs"
proof (induction x as bs rule: crypto_memcmp_loop.induct)
  case (1 x a as b bs)
  have "x OR (a XOR b) = 0 \<longleftrightarrow> x = 0 \<and> a = b"
    by (metis or_eq_0_iff xor_self_eq xor.right_neutral xor.left_commute)
  with 1 show ?case by auto
qed auto

section \<open>Characters and C strings\<close>

definition OPENSSL_isalpha :: "int \<Rightarrow> bool" where
  "OPENSSL_isalpha c \<longleftrightarrow> (c \<ge> 97 \<and> c \<le> 122) \<or> (c \<ge> 65 \<and> c \<le> 90)"

definition OPENSSL_isdigit :: "int \<Rightarrow> bool" where
  "OPENSSL_isdigit c \<longleftrightarrow> c \<ge> 48 \<and> c \<le> 57"

definition OPENSSL_isxdigit :: "int \<Rightarrow> bool" where
  "OPENSSL_isxdigit c \<longleftrightarrow>
     OPENSSL_isdigit c \<or> (c \<ge> 97 \<and> c \<le> 102) \<or> (c \<ge> 65 \<and> c \<le> 70)"

definition OPENSSL_fromxdigit :: "int \<Rightarrow> u8 option" where
  "OPENSSL_fromxdigit c =
     (if OPENSSL_isdigit c then Some (of_int (c - 48))
      else if 97 \<le> c \<and> c \<le> 102 then Some (of_int (c - 97 + 10))
      else if 65 \<le> c \<and> c \<le> 70 then Some (of_int (c - 65 + 10))
      else None)"

definition OPENSSL_isalnum :: "int \<Rightarrow> bool" where
  "OPENSSL_isalnum c \<longleftrightarrow> OPENSSL_isalpha c \<or> OPENSSL_isdigit c"

definition OPENSSL_tolower :: "int \<Rightarrow> int" where
  "OPENSSL_tolower c = (if c \<ge> 65 \<and> c \<le> 90 then c + (97 - 65) else c)"

definition OPENSSL_isspace :: "int \<Rightarrow> bool" where
  "OPENSSL_isspace c \<longleftrightarrow> c = 9 \<or> c = 10 \<or> c = 11 \<or> c = 12 \<or> c = 13 \<or> c = 32"

text \<open>\<open>char\<close> is signed here, so its promotion to \<open>int\<close> is \<open>sint\<close>.\<close>

fun OPENSSL_strcasecmp :: "bytes \<Rightarrow> bytes \<Rightarrow> int option" where
  "OPENSSL_strcasecmp (a # as) (b # bs) =
     (let aa = OPENSSL_tolower (sint a); bb = OPENSSL_tolower (sint b)
      in if aa < bb then Some (-1)
         else if aa > bb then Some 1
         else if aa = 0 then Some 0
         else OPENSSL_strcasecmp as bs)"
| "OPENSSL_strcasecmp _ _ = None"

fun OPENSSL_strncasecmp :: "bytes \<Rightarrow> bytes \<Rightarrow> nat \<Rightarrow> int option" where
  "OPENSSL_strncasecmp as bs 0 = Some 0"
| "OPENSSL_strncasecmp (a # as) (b # bs) (Suc n) =
     (let aa = OPENSSL_tolower (sint a); bb = OPENSSL_tolower (sint b)
      in if aa < bb then Some (-1)
         else if aa > bb then Some 1
         else if aa = 0 then Some 0
         else OPENSSL_strncasecmp as bs n)"
| "OPENSSL_strncasecmp _ _ (Suc n) = None"

text \<open>The C library's \<open>strlen\<close>: \<open>None\<close> when no NUL ends the string.\<close>

fun strlen :: "bytes \<Rightarrow> nat option" where
  "strlen [] = None"
| "strlen (c # cs) = (if c = 0 then Some 0 else map_option Suc (strlen cs))"

fun OPENSSL_strnlen :: "bytes \<Rightarrow> nat \<Rightarrow> nat option" where
  "OPENSSL_strnlen s 0 = Some 0"
| "OPENSSL_strnlen [] (Suc len) = None"
| "OPENSSL_strnlen (c # cs) (Suc len) =
     (if c = 0 then Some 0 else map_option Suc (OPENSSL_strnlen cs len))"

definition OPENSSL_strhash :: "bytes \<Rightarrow> u32 option" where
  "OPENSSL_strhash s = map_option (\<lambda>n. OPENSSL_hash32 (take n s)) (strlen s)"

definition OPENSSL_strdup :: "malloc \<Rightarrow> bytes option \<Rightarrow> bytes option" where
  "OPENSSL_strdup m s =
     (case s of
        None \<Rightarrow> None
      | Some s \<Rightarrow>
          (case strlen s of None \<Rightarrow> None | Some n \<Rightarrow> OPENSSL_memdup m (take (n + 1) s)))"

definition OPENSSL_strndup :: "malloc \<Rightarrow> bytes \<Rightarrow> nat \<Rightarrow> bytes option" where
  "OPENSSL_strndup m str sz =
     (case OPENSSL_strnlen str sz of
        None \<Rightarrow> None
      | Some sz \<Rightarrow>
          (let alloc_size = size_add sz 1
           in if alloc_size < sz then None
              else case OPENSSL_malloc m alloc_size of
                None \<Rightarrow> None
              | Some ret \<Rightarrow> Some ((take sz str @ drop sz ret)[sz := 0])))"

text \<open>
  \<open>OPENSSL_strlcpy\<close> on the destination memory \<open>dst\<close>: the loop copies while room for the
  terminator is left. The result is the memory after the call and the returned length.
\<close>

fun OPENSSL_strlcpy :: "bytes \<Rightarrow> bytes \<Rightarrow> nat \<Rightarrow> (bytes \<times> nat) option" where
  "OPENSSL_strlcpy dst [] dst_size = None"
| "OPENSSL_strlcpy dst (s # src) dst_size =
     (if dst_size > 1 \<and> s \<noteq> 0 then
        (case dst of
           [] \<Rightarrow> None
         | d # dst' \<Rightarrow>
             map_option (\<lambda>(out, l). (s # out, Suc l)) (OPENSSL_strlcpy dst' src (dst_size - 1)))
      else case strlen (s # src) of
        None \<Rightarrow> None
      | Some n \<Rightarrow>
          if dst_size = 0 then Some (dst, n)
          else case dst of [] \<Rightarrow> None | d # dst' \<Rightarrow> Some (0 # dst', n))"

fun OPENSSL_strlcat :: "bytes \<Rightarrow> bytes \<Rightarrow> nat \<Rightarrow> (bytes \<times> nat) option" where
  "OPENSSL_strlcat dst src 0 = OPENSSL_strlcpy dst src 0"
| "OPENSSL_strlcat [] src (Suc n) = None"
| "OPENSSL_strlcat (d # dst) src (Suc n) =
     (if d \<noteq> 0 then map_option (\<lambda>(out, l). (d # out, Suc l)) (OPENSSL_strlcat dst src n)
      else OPENSSL_strlcpy (d # dst) src (Suc n))"

lemma strlen_Some: "strlen s = Some n \<longleftrightarrow> (\<exists>r. s = take n s @ 0 # r) \<and> n < length s \<and> 0 \<notin> set (take n s)"
proof (induction s arbitrary: n)
  case (Cons c s)
  then show ?case by (cases n) auto
qed simp

lemma strlen_append [simp]: "0 \<notin> set s \<Longrightarrow> strlen (s @ 0 # r) = Some (length s)"
  by (induction s) auto

lemma strnlen_append [simp]: "0 \<notin> set s \<Longrightarrow> length s < n \<Longrightarrow> OPENSSL_strnlen (s @ 0 # r) n = Some (length s)"
proof (induction s arbitrary: n)
  case Nil
  then show ?case by (cases n) auto
next
  case (Cons c s)
  then show ?case by (cases n) auto
qed

lemma strnlen_full: "0 \<notin> set s \<Longrightarrow> OPENSSL_strnlen s (length s) = Some (length s)"
  by (induction s) auto

end
