(* ===== verification/CBS.thy ===== *)
theory CBS
  imports Interfaces Mem
begin

text \<open>
  \<open>crypto/bytestring/cbs.c\<close>, first part: the byte-string reader. A \<open>CBS\<close> is a pointer and
  a length into memory that the parser never writes; it is modelled by the bytes it still
  has to read. A function that may fail returns an option (\<open>None\<close> where the C function
  returns 0) together with the \<open>CBS\<close> it leaves behind, which may have moved even on failure.
\<close>

type_synonym cbs = bytes

section \<open>Taking bytes\<close>

definition cbs_get :: "cbs \<Rightarrow> nat \<Rightarrow> bytes option \<times> cbs" where
  "cbs_get cbs n =
     (if length cbs < n then (None, cbs) else (Some (take n cbs), drop n cbs))"

definition CBS_skip :: "cbs \<Rightarrow> nat \<Rightarrow> bool \<times> cbs" where
  "CBS_skip cbs len =
     (case cbs_get cbs len of (None, cbs) \<Rightarrow> (False, cbs) | (Some _, cbs) \<Rightarrow> (True, cbs))"

text \<open>\<open>CBS_stow\<close> and \<open>CBS_strdup\<close> set their out pointer to a fresh copy (\<open>None\<close> for NULL).\<close>

definition CBS_stow :: "(nat \<Rightarrow> bytes option) \<Rightarrow> cbs \<Rightarrow> bool \<times> bytes option \<times> nat" where
  "CBS_stow m cbs =
     (if length cbs = 0 then (True, None, 0)
      else case OPENSSL_memdup m cbs of
        None \<Rightarrow> (False, None, 0)
      | Some out \<Rightarrow> (True, Some out, length cbs))"

definition CBS_strdup :: "(nat \<Rightarrow> bytes option) \<Rightarrow> cbs \<Rightarrow> bool \<times> bytes option" where
  "CBS_strdup m cbs =
     (let out = OPENSSL_strndup m cbs (length cbs) in (out \<noteq> None, out))"

text \<open>\<open>OPENSSL_memchr\<close>: the offset of the first occurrence.\<close>

fun OPENSSL_memchr :: "bytes \<Rightarrow> u8 \<Rightarrow> nat option" where
  "OPENSSL_memchr [] c = None"
| "OPENSSL_memchr (b # bs) c = (if b = c then Some 0 else map_option Suc (OPENSSL_memchr bs c))"

definition CBS_contains_zero_byte :: "cbs \<Rightarrow> bool" where
  "CBS_contains_zero_byte cbs \<longleftrightarrow> OPENSSL_memchr cbs 0 \<noteq> None"

definition CBS_mem_equal :: "cbs \<Rightarrow> bytes \<Rightarrow> bool" where
  "CBS_mem_equal cbs data =
     (if length data \<noteq> length cbs then False
      else CRYPTO_memcmp cbs data (length data) = 0)"

section \<open>Integers\<close>

fun cbs_get_u_loop :: "u64 \<Rightarrow> bytes \<Rightarrow> u64" where
  "cbs_get_u_loop result [] = result"
| "cbs_get_u_loop result (b # bs) = cbs_get_u_loop (push_bit 8 result OR ucast b) bs"

definition cbs_get_u :: "cbs \<Rightarrow> nat \<Rightarrow> u64 option \<times> cbs" where
  "cbs_get_u cbs len =
     (case cbs_get cbs len of
        (None, cbs) \<Rightarrow> (None, cbs)
      | (Some data, cbs) \<Rightarrow> (Some (cbs_get_u_loop 0 data), cbs))"

definition CBS_get_u8 :: "cbs \<Rightarrow> u8 option \<times> cbs" where
  "CBS_get_u8 cbs =
     (case cbs_get cbs 1 of (None, cbs) \<Rightarrow> (None, cbs) | (Some v, cbs) \<Rightarrow> (Some (hd v), cbs))"

definition CBS_get_u16 :: "cbs \<Rightarrow> u16 option \<times> cbs" where
  "CBS_get_u16 cbs =
     (case cbs_get_u cbs 2 of (None, cbs) \<Rightarrow> (None, cbs) | (Some v, cbs) \<Rightarrow> (Some (ucast v), cbs))"

definition CRYPTO_bswap2 :: "u16 \<Rightarrow> u16" where
  "CRYPTO_bswap2 x = drop_bit 8 x OR push_bit 8 x"

definition CRYPTO_bswap4 :: "u32 \<Rightarrow> u32" where
  "CRYPTO_bswap4 x =
     (let x = drop_bit 16 x OR push_bit 16 x
      in drop_bit 8 (x AND 0xff00ff00) OR push_bit 8 (x AND 0x00ff00ff))"

definition CRYPTO_bswap8 :: "u64 \<Rightarrow> u64" where
  "CRYPTO_bswap8 x =
     ucast (CRYPTO_bswap4 (ucast (drop_bit 32 x))) OR
     push_bit 32 (ucast (CRYPTO_bswap4 (ucast x)))"

definition CBS_get_u16le :: "cbs \<Rightarrow> u16 option \<times> cbs" where
  "CBS_get_u16le cbs =
     (case CBS_get_u16 cbs of
        (None, cbs) \<Rightarrow> (None, cbs) | (Some out, cbs) \<Rightarrow> (Some (CRYPTO_bswap2 out), cbs))"

definition CBS_get_u24 :: "cbs \<Rightarrow> u32 option \<times> cbs" where
  "CBS_get_u24 cbs =
     (case cbs_get_u cbs 3 of (None, cbs) \<Rightarrow> (None, cbs) | (Some v, cbs) \<Rightarrow> (Some (ucast v), cbs))"

definition CBS_get_u32 :: "cbs \<Rightarrow> u32 option \<times> cbs" where
  "CBS_get_u32 cbs =
     (case cbs_get_u cbs 4 of (None, cbs) \<Rightarrow> (None, cbs) | (Some v, cbs) \<Rightarrow> (Some (ucast v), cbs))"

definition CBS_get_u32le :: "cbs \<Rightarrow> u32 option \<times> cbs" where
  "CBS_get_u32le cbs =
     (case CBS_get_u32 cbs of
        (None, cbs) \<Rightarrow> (None, cbs) | (Some out, cbs) \<Rightarrow> (Some (CRYPTO_bswap4 out), cbs))"

definition CBS_get_u64 :: "cbs \<Rightarrow> u64 option \<times> cbs" where
  "CBS_get_u64 cbs = cbs_get_u cbs 8"

definition CBS_get_u64le :: "cbs \<Rightarrow> u64 option \<times> cbs" where
  "CBS_get_u64le cbs =
     (case cbs_get_u cbs 8 of
        (None, cbs) \<Rightarrow> (None, cbs) | (Some out, cbs) \<Rightarrow> (Some (CRYPTO_bswap8 out), cbs))"

definition CBS_get_last_u8 :: "cbs \<Rightarrow> u8 option \<times> cbs" where
  "CBS_get_last_u8 cbs =
     (if length cbs = 0 then (None, cbs)
      else (Some (cbs ! (length cbs - 1)), take (length cbs - 1) cbs))"

section \<open>Sub-strings\<close>

definition CBS_get_bytes :: "cbs \<Rightarrow> nat \<Rightarrow> cbs option \<times> cbs" where
  "CBS_get_bytes cbs len =
     (case cbs_get cbs len of (None, cbs) \<Rightarrow> (None, cbs) | (Some v, cbs) \<Rightarrow> (Some v, cbs))"

text \<open>\<open>CBS_copy_bytes\<close> overwrites the first \<open>len\<close> bytes of the destination memory.\<close>

definition CBS_copy_bytes :: "cbs \<Rightarrow> bytes \<Rightarrow> nat \<Rightarrow> bytes option \<times> cbs" where
  "CBS_copy_bytes cbs out len =
     (case cbs_get cbs len of
        (None, cbs) \<Rightarrow> (None, cbs) | (Some v, cbs) \<Rightarrow> (Some (v @ drop len out), cbs))"

definition cbs_get_length_prefixed :: "cbs \<Rightarrow> nat \<Rightarrow> cbs option \<times> cbs" where
  "cbs_get_length_prefixed cbs len_len =
     (case cbs_get_u cbs len_len of
        (None, cbs) \<Rightarrow> (None, cbs) | (Some len, cbs) \<Rightarrow> CBS_get_bytes cbs (unat len))"

definition CBS_get_u8_length_prefixed :: "cbs \<Rightarrow> cbs option \<times> cbs" where
  "CBS_get_u8_length_prefixed cbs = cbs_get_length_prefixed cbs 1"

definition CBS_get_u16_length_prefixed :: "cbs \<Rightarrow> cbs option \<times> cbs" where
  "CBS_get_u16_length_prefixed cbs = cbs_get_length_prefixed cbs 2"

definition CBS_get_u24_length_prefixed :: "cbs \<Rightarrow> cbs option \<times> cbs" where
  "CBS_get_u24_length_prefixed cbs = cbs_get_length_prefixed cbs 3"

definition CBS_get_until_first :: "cbs \<Rightarrow> u8 \<Rightarrow> cbs option \<times> cbs" where
  "CBS_get_until_first cbs c =
     (case OPENSSL_memchr cbs c of
        None \<Rightarrow> (None, cbs) | Some split \<Rightarrow> CBS_get_bytes cbs split)"

definition UINT64_MAX :: u64 where
  "UINT64_MAX = 0xffffffffffffffff"

text \<open>
  \<open>CBS_get_u64_decimal\<close>: the digit is consumed before the leading-zero and overflow checks.
\<close>

fun CBS_get_u64_decimal_loop :: "cbs \<Rightarrow> u64 \<Rightarrow> bool \<Rightarrow> u64 option \<times> cbs" where
  "CBS_get_u64_decimal_loop [] v seen_digit = ((if seen_digit then Some v else None), [])"
| "CBS_get_u64_decimal_loop (c # cbs) v seen_digit =
     (if \<not> OPENSSL_isdigit (uint c) then ((if seen_digit then Some v else None), c # cbs)
      else if (v = 0 \<and> seen_digit) \<or> v > UINT64_MAX div 10 \<or>
              v * 10 > UINT64_MAX - (ucast c - 48)
        then (None, cbs)
      else CBS_get_u64_decimal_loop cbs (v * 10 + (ucast c - 48)) True)"

definition CBS_get_u64_decimal :: "cbs \<Rightarrow> u64 option \<times> cbs" where
  "CBS_get_u64_decimal cbs = CBS_get_u64_decimal_loop cbs 0 False"

section \<open>What the readers consume\<close>

lemmas cbs_get_simps = cbs_get_def CBS_get_bytes_def CBS_skip_def

lemma cbs_get_iff: "cbs_get c n = (Some d, c') \<longleftrightarrow> c = d @ c' \<and> length d = n"
  by (auto simp: cbs_get_def)

lemma cbs_get_append [simp]: "length d = n \<Longrightarrow> cbs_get (d @ r) n = (Some d, r)"
  by (simp add: cbs_get_iff)

lemma CBS_get_bytes_eq [simp]: "CBS_get_bytes c n = cbs_get c n"
  by (simp add: CBS_get_bytes_def split: prod.splits option.splits)

lemma CBS_skip_iff: "CBS_skip c n = (True, c') \<longleftrightarrow> n \<le> length c \<and> c' = drop n c"
  by (auto simp: CBS_skip_def cbs_get_def)

lemma cbs_get_fail: "cbs_get c n = (None, c') \<longleftrightarrow> length c < n \<and> c' = c"
  by (auto simp: cbs_get_def)

lemma cbs_get_u_loop_val:
  "unat (cbs_get_u_loop r bs) = (unat r * 256 ^ length bs + be_val bs) mod 2 ^ 64"
proof (induction r bs rule: cbs_get_u_loop.induct)
  case (1 r)
  then show ?case by simp
next
  case (2 r b bs)
  have b: "unat (ucast b :: u64) = unat b"
    by simp
  have "unat (push_bit 8 r OR (ucast b :: u64)) = unat (push_bit 8 r) + unat b"
    by (simp add: unat_or_disjoint push_and_small b)
  also have "unat (push_bit 8 r) = (unat r * 256) mod 2 ^ 64"
    unfolding unsigned_push_bit_eq by (simp add: take_bit_eq_mod push_bit_eq_mult)
  finally have "unat (push_bit 8 r OR (ucast b :: u64)) = (unat r * 256) mod 2 ^ 64 + unat b" .
  with 2 have "unat (cbs_get_u_loop r (b # bs)) =
      (((unat r * 256) mod 2 ^ 64) * 256 ^ length bs + (unat b * 256 ^ length bs + be_val bs)) mod 2 ^ 64"
    by (simp add: algebra_simps)
  then show ?case by (simp only: mod_horner) (simp add: be_val_Cons algebra_simps)
qed

lemma cbs_get_u_loop_be_val:
  "length bs \<le> 8 \<Longrightarrow> unat (cbs_get_u_loop 0 bs) = be_val bs"
proof -
  assume "length bs \<le> 8"
  then have "(256::nat) ^ length bs \<le> 256 ^ 8" by (intro power_increasing) auto
  with be_val_less [of bs] have "be_val bs < 2 ^ 64" by simp
  then show ?thesis by (simp add: cbs_get_u_loop_val)
qed

lemma cbs_get_u_iff:
  assumes "n \<le> 8"
  shows "cbs_get_u c n = (Some v, c') \<longleftrightarrow> unat v < 256 ^ n \<and> c = be_bytes n (unat v) @ c'"
proof
  assume "cbs_get_u c n = (Some v, c')"
  then obtain d where d: "c = d @ c'" "length d = n" "v = cbs_get_u_loop 0 d"
    by (auto simp: cbs_get_u_def cbs_get_iff split: prod.splits option.splits)
  with assms have "unat v = be_val d" by (simp add: cbs_get_u_loop_be_val)
  with d show "unat v < 256 ^ n \<and> c = be_bytes n (unat v) @ c'"
    using be_val_less [of d] be_bytes_be_val [of d] by simp
next
  assume a: "unat v < 256 ^ n \<and> c = be_bytes n (unat v) @ c'"
  then have "unat (cbs_get_u_loop 0 (be_bytes n (unat v))) = unat v"
    using assms by (simp add: cbs_get_u_loop_be_val be_val_be_bytes)
  then have "cbs_get_u_loop 0 (be_bytes n (unat v)) = v" by (rule word_unat_eq_iff [THEN iffD2])
  with a show "cbs_get_u c n = (Some v, c')" by (simp add: cbs_get_u_def)
qed

lemma cbs_get_u_fail: "cbs_get_u c n = (None, c') \<longleftrightarrow> length c < n \<and> c' = c"
  by (auto simp: cbs_get_u_def cbs_get_def)

lemma cbs_get_u_suffix: "suffix (snd (cbs_get_u c n)) c"
  by (auto simp: cbs_get_u_def cbs_get_def suffix_drop)

lemma CBS_get_u8_Cons [simp]: "CBS_get_u8 (b # c) = (Some b, c)"
  by (simp add: CBS_get_u8_def cbs_get_def)

lemma CBS_get_u8_Nil [simp]: "CBS_get_u8 [] = (None, [])"
  by (simp add: CBS_get_u8_def cbs_get_def)

lemma CBS_get_u8_iff: "CBS_get_u8 c = (Some b, c') \<longleftrightarrow> c = b # c'"
  by (cases c) auto

lemma ucast_code:
  assumes "n \<le> 8" "256 ^ n = (2::nat) ^ LENGTH('a::len)"
  shows "(\<exists>v :: u64. cbs_get_u c n = (Some v, c') \<and> x = ucast v) \<longleftrightarrow>
         c = be_bytes n (unat (x :: 'a word)) @ c'"
proof
  assume "\<exists>v :: u64. cbs_get_u c n = (Some v, c') \<and> x = ucast v"
  then obtain v :: u64 where v: "unat v < 256 ^ n" "c = be_bytes n (unat v) @ c'" "x = ucast v"
    using assms(1) by (auto simp: cbs_get_u_iff)
  then have "unat x = unat v" using assms by (simp add: unat_ucast)
  with v show "c = be_bytes n (unat x) @ c'" by simp
next
  assume c: "c = be_bytes n (unat x) @ c'"
  have lt: "unat x < 256 ^ n" using assms(2) unsigned_less [of x] by simp
  have "(256::nat) ^ n \<le> 256 ^ 8" using assms(1) by (intro power_increasing) auto
  with lt have ux: "unat (ucast x :: u64) = unat x" by (simp add: unat_ucast)
  have "ucast (ucast x :: u64) = x"
    using ux assms by (intro word_unat_eq_iff [THEN iffD2]) (simp add: unat_ucast lt)
  with c lt ux assms(1) show "\<exists>v :: u64. cbs_get_u c n = (Some v, c') \<and> x = ucast v"
    by (intro exI [of _ "ucast x"]) (simp add: cbs_get_u_iff)
qed

section \<open>The integer formats as codes\<close>

lemma CBS_get_u16_iff: "CBS_get_u16 c = (Some x, c') \<longleftrightarrow> c = be_bytes 2 (unat x) @ c'"
proof -
  have "CBS_get_u16 c = (Some x, c') \<longleftrightarrow> (\<exists>v :: u64. cbs_get_u c 2 = (Some v, c') \<and> x = ucast v)"
    by (auto simp: CBS_get_u16_def split: prod.splits option.splits)
  then show ?thesis by (simp add: ucast_code)
qed

lemma CBS_get_u32_iff: "CBS_get_u32 c = (Some x, c') \<longleftrightarrow> c = be_bytes 4 (unat x) @ c'"
proof -
  have "CBS_get_u32 c = (Some x, c') \<longleftrightarrow> (\<exists>v :: u64. cbs_get_u c 4 = (Some v, c') \<and> x = ucast v)"
    by (auto simp: CBS_get_u32_def split: prod.splits option.splits)
  then show ?thesis by (simp add: ucast_code)
qed

lemma CBS_get_u24_iff:
  "CBS_get_u24 c = (Some x, c') \<longleftrightarrow> unat x < 2 ^ 24 \<and> c = be_bytes 3 (unat x) @ c'"
proof -
  have "CBS_get_u24 c = (Some x, c') \<longleftrightarrow> (\<exists>v :: u64. cbs_get_u c 3 = (Some v, c') \<and> x = ucast v)"
    by (auto simp: CBS_get_u24_def split: prod.splits option.splits)
  also have "\<dots> \<longleftrightarrow> unat x < 2 ^ 24 \<and> c = be_bytes 3 (unat x) @ c'"
  proof
    assume "\<exists>v :: u64. cbs_get_u c 3 = (Some v, c') \<and> x = ucast v"
    then obtain v :: u64 where "unat v < 2 ^ 24" "c = be_bytes 3 (unat v) @ c'" "x = ucast v"
      by (auto simp: cbs_get_u_iff)
    then show "unat x < 2 ^ 24 \<and> c = be_bytes 3 (unat x) @ c'" by (simp add: unat_ucast)
  next
    assume a: "unat x < 2 ^ 24 \<and> c = be_bytes 3 (unat x) @ c'"
    then have "unat (ucast x :: u64) = unat x" by (simp add: unat_ucast)
    moreover from this have "ucast (ucast x :: u64) = x"
      by (intro word_unat_eq_iff [THEN iffD2]) (simp add: unat_ucast)
    ultimately show "\<exists>v :: u64. cbs_get_u c 3 = (Some v, c') \<and> x = ucast v"
      using a by (intro exI [of _ "ucast x"]) (simp add: cbs_get_u_iff)
  qed
  finally show ?thesis .
qed

lemma CBS_get_u64_iff: "CBS_get_u64 c = (Some x, c') \<longleftrightarrow> c = be_bytes 8 (unat x) @ c'"
  by (simp add: CBS_get_u64_def cbs_get_u_iff)

interpretation u8_code: canonical_code "\<lambda>x. [x]" CBS_get_u8 "\<lambda>_. True"
  by unfold_locales (auto simp: CBS_get_u8_iff)

interpretation u16_code: canonical_code "\<lambda>x. be_bytes 2 (unat x)" CBS_get_u16 "\<lambda>_. True"
  by unfold_locales (auto simp: CBS_get_u16_iff simp flip: length_greater_0_conv)

interpretation u24_code: canonical_code "\<lambda>x. be_bytes 3 (unat x)" CBS_get_u24 "\<lambda>x. unat x < 2 ^ 24"
  by unfold_locales (auto simp: CBS_get_u24_iff simp flip: length_greater_0_conv)

interpretation u32_code: canonical_code "\<lambda>x. be_bytes 4 (unat x)" CBS_get_u32 "\<lambda>_. True"
  by unfold_locales (auto simp: CBS_get_u32_iff simp flip: length_greater_0_conv)

interpretation u64_code: canonical_code "\<lambda>x. be_bytes 8 (unat x)" CBS_get_u64 "\<lambda>_. True"
  by unfold_locales (auto simp: CBS_get_u64_iff simp flip: length_greater_0_conv)

text \<open>A length prefix of \<open>n\<close> bytes frames any body that its number can count.\<close>

lemma cbs_get_length_prefixed_iff:
  assumes "n \<le> 3"
  shows "cbs_get_length_prefixed c n = (Some d, c') \<longleftrightarrow>
         length d < 256 ^ n \<and> c = be_bytes n (length d) @ d @ c'"
proof
  assume "cbs_get_length_prefixed c n = (Some d, c')"
  then obtain v c1 where v: "cbs_get_u c n = (Some v, c1)" "cbs_get c1 (unat v) = (Some d, c')"
    by (auto simp: cbs_get_length_prefixed_def split: prod.splits option.splits)
  with assms show "length d < 256 ^ n \<and> c = be_bytes n (length d) @ d @ c'"
    by (auto simp: cbs_get_u_iff cbs_get_iff)
next
  assume a: "length d < 256 ^ n \<and> c = be_bytes n (length d) @ d @ c'"
  have "(256::nat) ^ n \<le> 256 ^ 3" using assms by (intro power_increasing) auto
  with a have "unat (of_nat (length d) :: u64) = length d" by (simp add: unat_of_nat)
  with a assms have "cbs_get_u c n = (Some (of_nat (length d)), d @ c')"
    by (simp add: cbs_get_u_iff)
  with \<open>unat (of_nat (length d) :: u64) = length d\<close>
  show "cbs_get_length_prefixed c n = (Some d, c')"
    by (simp add: cbs_get_length_prefixed_def)
qed

lemma be_bytes_nonempty [simp]: "0 < n \<Longrightarrow> be_bytes n v \<noteq> []"
  by (metis length_be_bytes length_greater_0_conv)

interpretation lp8_code: canonical_code "\<lambda>d. be_bytes 1 (length d) @ d" CBS_get_u8_length_prefixed
    "\<lambda>d. length d < 256 ^ 1"
  by unfold_locales (auto simp: CBS_get_u8_length_prefixed_def cbs_get_length_prefixed_iff)

interpretation lp16_code: canonical_code "\<lambda>d. be_bytes 2 (length d) @ d" CBS_get_u16_length_prefixed
    "\<lambda>d. length d < 256 ^ 2"
  by unfold_locales (auto simp: CBS_get_u16_length_prefixed_def cbs_get_length_prefixed_iff)

interpretation lp24_code: canonical_code "\<lambda>d. be_bytes 3 (length d) @ d" CBS_get_u24_length_prefixed
    "\<lambda>d. length d < 256 ^ 3"
  by unfold_locales (auto simp: CBS_get_u24_length_prefixed_def cbs_get_length_prefixed_iff)

lemma cbs_get_suffix: "suffix (snd (cbs_get c n)) c"
  by (simp add: cbs_get_def suffix_drop)

interpretation bytes_reader: byte_reader "\<lambda>c. CBS_get_bytes c n" for n
  by unfold_locales (simp add: cbs_get_suffix)

interpretation u8_reader: strict_reader CBS_get_u8
  by unfold_locales (simp add: CBS_get_u8_def cbs_get_def suffix_drop, simp add: CBS_get_u8_iff)

interpretation until_reader: byte_reader "\<lambda>c. CBS_get_until_first c x" for x
  by unfold_locales (simp add: CBS_get_until_first_def cbs_get_suffix split: option.splits)

end
