(* ===== verification/CBS_ASN1.thy ===== *)
theory CBS_ASN1
  imports CBS
begin

text \<open>
  \<open>crypto/bytestring/cbs.c\<close>, second part: tags, lengths and elements of DER and BER, and
  the typed readers built on them. An element reader returns the contents it found, the tag,
  the length of the header and, for BER, the two flags of its out-parameters.
\<close>

section \<open>Tags\<close>

type_synonym tag = u32

definition CBS_ASN1_TAG_SHIFT :: nat where "CBS_ASN1_TAG_SHIFT = 24"
definition CBS_ASN1_CONSTRUCTED :: tag where "CBS_ASN1_CONSTRUCTED = push_bit CBS_ASN1_TAG_SHIFT 0x20"
definition CBS_ASN1_TAG_NUMBER_MASK :: tag where
  "CBS_ASN1_TAG_NUMBER_MASK = push_bit (5 + CBS_ASN1_TAG_SHIFT) 1 - 1"

definition CBS_ASN1_BOOLEAN :: tag where "CBS_ASN1_BOOLEAN = 0x1"
definition CBS_ASN1_INTEGER :: tag where "CBS_ASN1_INTEGER = 0x2"
definition CBS_ASN1_OCTETSTRING :: tag where "CBS_ASN1_OCTETSTRING = 0x4"

lemmas tag_consts = CBS_ASN1_TAG_SHIFT_def CBS_ASN1_CONSTRUCTED_def CBS_ASN1_TAG_NUMBER_MASK_def
  CBS_ASN1_BOOLEAN_def CBS_ASN1_INTEGER_def CBS_ASN1_OCTETSTRING_def

fun parse_base128_loop :: "cbs \<Rightarrow> u64 \<Rightarrow> u64 option \<times> cbs" where
  "parse_base128_loop [] v = (None, [])"
| "parse_base128_loop (b # cbs) v =
     (if drop_bit (64 - 7) v \<noteq> 0 then (None, cbs)
      else if v = 0 \<and> b = 0x80 then (None, cbs)
      else let v = push_bit 7 v OR ucast (b AND 0x7f)
           in if b AND 0x80 \<noteq> 0 then parse_base128_loop cbs v else (Some v, cbs))"

definition parse_base128_integer :: "cbs \<Rightarrow> u64 option \<times> cbs" where
  "parse_base128_integer cbs = parse_base128_loop cbs 0"

definition parse_asn1_tag :: "cbs \<Rightarrow> tag option \<times> cbs" where
  "parse_asn1_tag cbs =
     (case CBS_get_u8 cbs of
        (None, cbs) \<Rightarrow> (None, cbs)
      | (Some tag_byte, cbs) \<Rightarrow>
          (let tag = push_bit CBS_ASN1_TAG_SHIFT (ucast tag_byte AND 0xe0);
               tag_number = ucast tag_byte AND 0x1f;
               (num, cbs) =
                 (if tag_number = 0x1f then
                    (case parse_base128_integer cbs of
                       (None, cbs) \<Rightarrow> (None, cbs)
                     | (Some v, cbs) \<Rightarrow>
                         (if v > ucast CBS_ASN1_TAG_NUMBER_MASK \<or> v < 0x1f then None
                          else Some (ucast v), cbs))
                  else (Some tag_number, cbs))
           in case num of
                None \<Rightarrow> (None, cbs)
              | Some tag_number \<Rightarrow>
                  (let tag = tag OR tag_number
                   in if tag AND NOT CBS_ASN1_CONSTRUCTED = 0 then (None, cbs)
                      else (Some tag, cbs))))"

section \<open>Elements\<close>

record element =
  contents :: cbs
  elt_tag :: tag
  header_len :: nat
  ber_found :: bool
  indefinite :: bool

definition cbs_get_any_asn1_element :: "cbs \<Rightarrow> bool \<Rightarrow> element option \<times> cbs" where
  "cbs_get_any_asn1_element cbs ber_ok =
     (case parse_asn1_tag cbs of
        (None, _) \<Rightarrow> (None, cbs)
      | (Some tag, header) \<Rightarrow>
     (case CBS_get_u8 header of
        (None, _) \<Rightarrow> (None, cbs)
      | (Some length_byte, header) \<Rightarrow>
     (let hlen = length cbs - length header in
      if length_byte AND 0x80 = 0 then
        (case CBS_get_bytes cbs (unat length_byte + hlen) of
           (None, cbs) \<Rightarrow> (None, cbs)
         | (Some out, cbs) \<Rightarrow>
             (Some \<lparr>contents = out, elt_tag = tag, header_len = hlen,
                    ber_found = False, indefinite = False\<rparr>, cbs))
      else
        (let num_bytes = unat (length_byte AND 0x7f) in
         if ber_ok \<and> tag AND CBS_ASN1_CONSTRUCTED \<noteq> 0 \<and> num_bytes = 0 then
           (case CBS_get_bytes cbs hlen of
              (None, cbs) \<Rightarrow> (None, cbs)
            | (Some out, cbs) \<Rightarrow>
                (Some \<lparr>contents = out, elt_tag = tag, header_len = hlen,
                       ber_found = True, indefinite = True\<rparr>, cbs))
         else if num_bytes = 0 \<or> num_bytes > 4 then (None, cbs)
         else (case cbs_get_u header num_bytes of
                 (None, _) \<Rightarrow> (None, cbs)
               | (Some len64, _) \<Rightarrow>
                   if len64 < 128 \<and> \<not> ber_ok then (None, cbs)
                   else if drop_bit ((num_bytes - 1) * 8) len64 = 0 \<and> \<not> ber_ok then (None, cbs)
                   else if len64 + of_nat hlen + of_nat num_bytes < len64 then (None, cbs)
                   else
                     (let len = len64 + (of_nat hlen + of_nat num_bytes) in
                      case CBS_get_bytes cbs (unat len) of
                        (None, cbs) \<Rightarrow> (None, cbs)
                      | (Some out, cbs) \<Rightarrow>
                          (Some \<lparr>contents = out, elt_tag = tag, header_len = hlen + num_bytes,
                                 ber_found = (len64 < 128 \<or> drop_bit ((num_bytes - 1) * 8) len64 = 0),
                                 indefinite = False\<rparr>, cbs)))))))"

definition CBS_get_any_asn1_element :: "cbs \<Rightarrow> element option \<times> cbs" where
  "CBS_get_any_asn1_element cbs = cbs_get_any_asn1_element cbs False"

definition CBS_get_any_ber_asn1_element :: "cbs \<Rightarrow> element option \<times> cbs" where
  "CBS_get_any_ber_asn1_element cbs = cbs_get_any_asn1_element cbs True"

definition CBS_get_any_asn1 :: "cbs \<Rightarrow> (cbs \<times> tag) option \<times> cbs" where
  "CBS_get_any_asn1 cbs =
     (case CBS_get_any_asn1_element cbs of
        (None, cbs) \<Rightarrow> (None, cbs)
      | (Some e, cbs) \<Rightarrow>
          (case CBS_skip (contents e) (header_len e) of
             (False, out) \<Rightarrow> (None, cbs)
           | (True, out) \<Rightarrow> (Some (out, elt_tag e), cbs)))"

definition cbs_get_asn1 :: "cbs \<Rightarrow> tag \<Rightarrow> bool \<Rightarrow> cbs option \<times> cbs" where
  "cbs_get_asn1 cbs tag_value skip_header =
     (case CBS_get_any_asn1_element cbs of
        (None, cbs) \<Rightarrow> (None, cbs)
      | (Some e, cbs) \<Rightarrow>
          (if elt_tag e \<noteq> tag_value then (None, cbs)
           else if skip_header then
             (case CBS_skip (contents e) (header_len e) of
                (False, out) \<Rightarrow> (None, cbs)
              | (True, out) \<Rightarrow> (Some out, cbs))
           else (Some (contents e), cbs)))"

definition CBS_get_asn1 :: "cbs \<Rightarrow> tag \<Rightarrow> cbs option \<times> cbs" where
  "CBS_get_asn1 cbs tag_value = cbs_get_asn1 cbs tag_value True"

definition CBS_get_asn1_element :: "cbs \<Rightarrow> tag \<Rightarrow> cbs option \<times> cbs" where
  "CBS_get_asn1_element cbs tag_value = cbs_get_asn1 cbs tag_value False"

definition CBS_peek_asn1_tag :: "cbs \<Rightarrow> tag \<Rightarrow> bool" where
  "CBS_peek_asn1_tag cbs tag_value =
     (case parse_asn1_tag cbs of
        (None, _) \<Rightarrow> False | (Some actual_tag, _) \<Rightarrow> tag_value = actual_tag)"

section \<open>Integers, booleans, bit strings, object identifiers\<close>

definition CBS_is_valid_asn1_integer :: "cbs \<Rightarrow> bool option" where
  \<comment> \<open>\<open>None\<close> for an invalid INTEGER, otherwise the value of \<open>out_is_negative\<close>\<close>
  "CBS_is_valid_asn1_integer cbs =
     (case CBS_get_u8 cbs of
        (None, _) \<Rightarrow> None
      | (Some first_byte, copy) \<Rightarrow>
          (let is_negative = (first_byte AND 0x80 \<noteq> 0)
           in case CBS_get_u8 copy of
                (None, _) \<Rightarrow> Some is_negative
              | (Some second_byte, _) \<Rightarrow>
                  (if (first_byte = 0x00 \<and> second_byte AND 0x80 = 0) \<or>
                      (first_byte = 0xff \<and> second_byte AND 0x80 \<noteq> 0)
                   then None else Some is_negative)))"

definition CBS_is_unsigned_asn1_integer :: "cbs \<Rightarrow> bool" where
  "CBS_is_unsigned_asn1_integer cbs =
     (case CBS_is_valid_asn1_integer cbs of None \<Rightarrow> False | Some is_negative \<Rightarrow> \<not> is_negative)"

fun get_asn1_uint64_loop :: "u64 \<Rightarrow> bytes \<Rightarrow> u64 option" where
  "get_asn1_uint64_loop out [] = Some out"
| "get_asn1_uint64_loop out (b # bs) =
     (if drop_bit 56 out \<noteq> 0 then None
      else get_asn1_uint64_loop (push_bit 8 out OR ucast b) bs)"

definition CBS_get_asn1_uint64 :: "cbs \<Rightarrow> u64 option \<times> cbs" where
  "CBS_get_asn1_uint64 cbs =
     (case CBS_get_asn1 cbs CBS_ASN1_INTEGER of
        (None, cbs) \<Rightarrow> (None, cbs)
      | (Some bs, cbs) \<Rightarrow>
          (if \<not> CBS_is_unsigned_asn1_integer bs then (None, cbs)
           else (get_asn1_uint64_loop 0 bs, cbs)))"

definition CRYPTO_load_u64_be :: "bytes \<Rightarrow> u64" where
  "CRYPTO_load_u64_be b = cbs_get_u_loop 0 (take 8 b)"

text \<open>The result is the bit pattern of the \<open>int64_t\<close>; \<open>sint\<close> reads it as a signed number.\<close>

definition CBS_get_asn1_int64 :: "cbs \<Rightarrow> u64 option \<times> cbs" where
  "CBS_get_asn1_int64 cbs =
     (case CBS_get_asn1 cbs CBS_ASN1_INTEGER of
        (None, cbs) \<Rightarrow> (None, cbs)
      | (Some bs, cbs) \<Rightarrow>
          (case CBS_is_valid_asn1_integer bs of
             None \<Rightarrow> (None, cbs)
           | Some is_negative \<Rightarrow>
               (if length bs > 8 then (None, cbs)
                else let sign_extend = replicate 8 (if is_negative then 0xff else 0);
                         sign_extend = take (8 - length bs) sign_extend @ bs
                     in (Some (CRYPTO_load_u64_be sign_extend), cbs))))"

definition CBS_get_asn1_bool :: "cbs \<Rightarrow> bool option \<times> cbs" where
  "CBS_get_asn1_bool cbs =
     (case CBS_get_asn1 cbs CBS_ASN1_BOOLEAN of
        (None, cbs) \<Rightarrow> (None, cbs)
      | (Some bs, cbs) \<Rightarrow>
          (if length bs \<noteq> 1 then (None, cbs)
           else let v = hd bs
                in if v \<noteq> 0 \<and> v \<noteq> 0xff then (None, cbs) else (Some (v \<noteq> 0), cbs)))"

definition CBS_get_optional_asn1 :: "cbs \<Rightarrow> tag \<Rightarrow> cbs option option \<times> cbs" where
  \<comment> \<open>\<open>Some None\<close>: success with \<open>*out_present = 0\<close>\<close>
  "CBS_get_optional_asn1 cbs tag =
     (if CBS_peek_asn1_tag cbs tag then
        (case CBS_get_asn1 cbs tag of
           (None, cbs) \<Rightarrow> (None, cbs) | (Some out, cbs) \<Rightarrow> (Some (Some out), cbs))
      else (Some None, cbs))"

definition CBS_get_optional_asn1_octet_string :: "cbs \<Rightarrow> tag \<Rightarrow> (cbs \<times> bool) option \<times> cbs" where
  "CBS_get_optional_asn1_octet_string cbs tag =
     (case CBS_get_optional_asn1 cbs tag of
        (None, cbs) \<Rightarrow> (None, cbs)
      | (Some (Some child), cbs) \<Rightarrow>
          (case CBS_get_asn1 child CBS_ASN1_OCTETSTRING of
             (None, child) \<Rightarrow> (None, cbs)
           | (Some out, child) \<Rightarrow>
               (if length child \<noteq> 0 then (None, cbs) else (Some (out, True), cbs)))
      | (Some None, cbs) \<Rightarrow> (Some ([], False), cbs))"

definition CBS_get_optional_asn1_uint64 :: "cbs \<Rightarrow> tag \<Rightarrow> u64 \<Rightarrow> u64 option \<times> cbs" where
  "CBS_get_optional_asn1_uint64 cbs tag default_value =
     (case CBS_get_optional_asn1 cbs tag of
        (None, cbs) \<Rightarrow> (None, cbs)
      | (Some (Some child), cbs) \<Rightarrow>
          (case CBS_get_asn1_uint64 child of
             (None, child) \<Rightarrow> (None, cbs)
           | (Some out, child) \<Rightarrow> (if length child \<noteq> 0 then None else Some out, cbs))
      | (Some None, cbs) \<Rightarrow> (Some default_value, cbs))"

definition CBS_get_optional_asn1_bool :: "cbs \<Rightarrow> tag \<Rightarrow> int \<Rightarrow> int option \<times> cbs" where
  "CBS_get_optional_asn1_bool cbs tag default_value =
     (case CBS_get_optional_asn1 cbs tag of
        (None, cbs) \<Rightarrow> (None, cbs)
      | (Some (Some child), cbs) \<Rightarrow>
          (case CBS_get_asn1 child CBS_ASN1_BOOLEAN of
             (None, child) \<Rightarrow> (None, cbs)
           | (Some child2, child) \<Rightarrow>
               (if length child2 \<noteq> 1 \<or> length child \<noteq> 0 then (None, cbs)
                else let boolean = child2 ! 0
                     in if boolean = 0 then (Some 0, cbs)
                        else if boolean = 0xff then (Some 1, cbs)
                        else (None, cbs)))
      | (Some None, cbs) \<Rightarrow> (Some default_value, cbs))"

definition CBS_is_valid_asn1_bitstring :: "cbs \<Rightarrow> bool" where
  "CBS_is_valid_asn1_bitstring cbs =
     (case CBS_get_u8 cbs of
        (None, _) \<Rightarrow> False
      | (Some num_unused_bits, inp) \<Rightarrow>
          (if num_unused_bits > 7 then False
           else if num_unused_bits = 0 then True
           else (case CBS_get_last_u8 inp of
                   (None, _) \<Rightarrow> False
                 | (Some last_byte, _) \<Rightarrow>
                     last_byte AND (push_bit (unat num_unused_bits) 1 - 1) = 0)))"

definition CBS_asn1_bitstring_has_bit :: "cbs \<Rightarrow> u32 \<Rightarrow> bool" where
  "CBS_asn1_bitstring_has_bit cbs n =
     (if \<not> CBS_is_valid_asn1_bitstring cbs then False
      else let byte_num = drop_bit 3 n + 1;
               bit_num = 7 - (n AND 7)
           in unat byte_num < length cbs \<and>
              (cbs ! unat byte_num) AND (push_bit (unat bit_num) 1) \<noteq> 0)"

fun is_valid_asn1_oid_loop :: "cbs \<Rightarrow> u8 \<Rightarrow> bool" where
  "is_valid_asn1_oid_loop [] prev = (prev AND 0x80 = 0)"
| "is_valid_asn1_oid_loop (v # copy) prev =
     (if prev AND 0x80 = 0 \<and> v = 0x80 then False else is_valid_asn1_oid_loop copy v)"

definition CBS_is_valid_asn1_oid :: "cbs \<Rightarrow> bool" where
  "CBS_is_valid_asn1_oid cbs =
     (if length cbs = 0 then False else is_valid_asn1_oid_loop cbs 0)"

end
