(* ===== verification/DER.thy ===== *)
theory DER
  imports CBS_ASN1
begin

text \<open>
  The distinguished encoding the parser and the builder of \<open>crypto/bytestring\<close> agree on,
  as functions from values to bytes, and the theorems that the parser of \<open>cbs.c\<close> accepts
  exactly these encodings: base-128 numbers, tags, lengths and whole elements.
\<close>

section \<open>Base-128 numbers\<close>

text \<open>\<open>base128_hi n\<close> is the encoding of \<open>n\<close> with the continuation bit set in every byte.\<close>

fun base128_hi :: "nat \<Rightarrow> bytes" where
  "base128_hi n = (if n = 0 then [] else base128_hi (n div 128) @ [of_nat (128 + n mod 128)])"

declare base128_hi.simps [simp del]

definition base128 :: "nat \<Rightarrow> bytes" where
  "base128 n = base128_hi (n div 128) @ [of_nat (n mod 128)]"

lemma base128_hi_0 [simp]: "base128_hi 0 = []"
  by (simp add: base128_hi.simps)

lemma base128_hi_step:
  assumes "0 < v * 128 + unat b - 128" "128 \<le> unat b"
  shows "base128_hi (v * 128 + (unat b - 128)) = base128_hi v @ [b]"
proof -
  have "unat b - 128 < 128" using unat_less_256 [of b] assms(2) by linarith
  then have "(v * 128 + (unat b - 128)) div 128 = v" "(v * 128 + (unat b - 128)) mod 128 = unat b - 128"
    by simp_all
  moreover have "(of_nat (128 + (unat b - 128)) :: u8) = b" using assms(2) by simp
  ultimately show ?thesis using assms by (subst base128_hi.simps) simp
qed

lemma base128_last:
  assumes "unat b < 128"
  shows "base128 (v * 128 + unat b) = base128_hi v @ [b]"
  using assms by (simp add: base128_def)

text \<open>One round of the loop, on numbers.\<close>

lemma base128_shift:
  fixes v :: u64
  assumes "drop_bit 57 v = 0"
  shows "unat (push_bit 7 v OR ucast ((b :: u8) AND 0x7f)) = unat v * 128 + unat b mod 128"
proof -
  have "unat v div 2 ^ 57 = 0" using assms by (metis unat_0 unat_drop_bit)
  then have "unat v < 2 ^ 57" by (simp add: div_eq_0_iff)
  then show ?thesis
    by (subst unat_shift_or) (simp_all add: byte_masks)
qed

lemma drop_57_zero: "drop_bit 57 (v :: u64) = 0 \<longleftrightarrow> unat v < 2 ^ 57"
proof -
  have "drop_bit 57 v = 0 \<longleftrightarrow> unat (drop_bit 57 v) = 0" by (simp only: unat_eq_0)
  then show ?thesis by (simp only: unat_drop_bit) (simp add: div_eq_0_iff)
qed

lemma parse_base128_loop_sound:
  "parse_base128_loop c v = (Some w, c') \<Longrightarrow>
   \<exists>e. c = e @ c' \<and> base128 (unat w) = base128_hi (unat v) @ e \<and> e \<noteq> []"
proof (induction c v rule: parse_base128_loop.induct)
  case (1 v)
  then show ?case by simp
next
  case (2 b cbs v)
  let ?v = "push_bit 7 v OR ucast (b AND 0x7f)"
  from "2.prems" have v57: "drop_bit 57 v = 0" and nz: "\<not> (v = 0 \<and> b = 0x80)"
    by (auto split: if_splits)
  note sh = base128_shift [OF v57, of b]
  show ?case
  proof (cases "b AND 0x80 = 0")
    case True
    then have "unat b < 128" by (simp add: high_bit_clear)
    moreover from True "2.prems" v57 nz have "?v = w" "cbs = c'" by auto
    ultimately show ?thesis using sh by (intro exI [of _ "[b]"]) (auto simp: base128_last)
  next
    case False
    then have b: "128 \<le> unat b" by (simp add: high_bit_clear)
    then have m: "unat b mod 128 = unat b - 128" by (intro mod_less_twice) simp_all
    from False "2.prems" v57 nz have "parse_base128_loop cbs ?v = (Some w, c')" by (simp add: Let_def)
    with "2.IH" v57 nz False obtain e where
      e: "cbs = e @ c'" "base128 (unat w) = base128_hi (unat ?v) @ e" by auto
    have "0 < unat v * 128 + unat b - 128"
    proof (rule ccontr)
      assume "\<not> ?thesis"
      with b have "unat v = 0" "unat b = 128" by auto
      then have "v = 0" "b = 0x80" by (auto dest: word_eq_of_nat)
      with nz show False by simp
    qed
    from base128_hi_step [OF this b] have "base128_hi (unat ?v) = base128_hi (unat v) @ [b]"
      using sh m by simp
    with e show ?thesis by (intro exI [of _ "b # e"]) simp
  qed
qed

lemma parse_base128_loop_hi:
  "n < 2 ^ 64 \<Longrightarrow> parse_base128_loop (base128_hi n @ r) 0 = parse_base128_loop r (of_nat n)"
proof (induction n arbitrary: r rule: base128_hi.induct)
  case (1 n)
  show ?case
  proof (cases "n = 0")
    case False
    let ?b = "of_nat (128 + n mod 128) :: u8" and ?v = "of_nat (n div 128) :: u64"
    have ub: "unat ?b = 128 + n mod 128" by (intro u8_of_nat_unat) simp
    have uv: "unat ?v = n div 128" using "1.prems" by (simp add: unat_of_nat)
    have v57: "drop_bit 57 ?v = 0" using "1.prems" by (simp only: drop_57_zero uv) simp
    have hi: "?b AND 0x80 \<noteq> 0" unfolding high_bit_clear ub by simp
    have nz: "\<not> (?v = 0 \<and> ?b = 0x80)"
    proof
      assume "?v = 0 \<and> ?b = 0x80"
      then have "unat ?v = 0" "unat ?b = 128" by (simp_all only: unat_0, simp)
      with uv ub False show False by (metis add_cancel_left_right div_mult_mod_eq mult_zero_left plus_nat.add_0)
    qed
    have "unat (push_bit 7 ?v OR ucast (?b AND 0x7f)) = n"
      by (simp only: base128_shift [OF v57] uv ub) simp
    then have sh: "push_bit 7 ?v OR ucast (?b AND 0x7f) = of_nat n" by (rule word_eq_of_nat)
    have "parse_base128_loop (base128_hi n @ r) 0 = parse_base128_loop (base128_hi (n div 128) @ ?b # r) 0"
      using False by (subst base128_hi.simps) simp
    also have "\<dots> = parse_base128_loop (?b # r) ?v" using 1 False by simp
    also have "\<dots> = parse_base128_loop r (of_nat n)"
      using v57 nz hi sh by (simp only: parse_base128_loop.simps Let_def) simp
    finally show ?thesis .
  qed simp
qed

lemma parse_base128_iff:
  "parse_base128_integer c = (Some v, c') \<longleftrightarrow> c = base128 (unat v) @ c'"
proof
  assume "parse_base128_integer c = (Some v, c')"
  from parse_base128_loop_sound [OF this [unfolded parse_base128_integer_def]]
  show "c = base128 (unat v) @ c'" by auto
next
  assume c: "c = base128 (unat v) @ c'"
  let ?n = "unat v" let ?b = "of_nat (?n mod 128) :: u8" let ?w = "of_nat (?n div 128) :: u64"
  have ub: "unat ?b = ?n mod 128" by (intro u8_of_nat_unat) (simp add: mod_less_divisor less_trans)
  have nd: "?n div 128 < 2 ^ 57" using unat_u64_less [of v] by (simp add: div_less_iff_less_mult)
  then have uw: "unat ?w = ?n div 128" by (simp add: unat_of_nat)
  have v57: "drop_bit 57 ?w = 0" using nd by (simp only: drop_57_zero uw)
  have "unat (push_bit 7 ?w OR ucast (?b AND 0x7f)) = ?n"
    by (simp only: base128_shift [OF v57] uw ub) simp
  then have sh: "push_bit 7 ?w OR ucast (?b AND 0x7f) = v" by (rule word_unat_eq_iff [THEN iffD2])
  have lo: "?b AND 0x80 = 0" unfolding high_bit_clear ub by simp
  then have nz: "?b \<noteq> 0x80" by auto
  have "parse_base128_integer c = parse_base128_loop (?b # c') ?w"
    unfolding c parse_base128_integer_def base128_def
    using parse_base128_loop_hi [of "?n div 128" "?b # c'"] nd by simp
  also have "\<dots> = (Some v, c')" using v57 nz lo sh by (simp only: parse_base128_loop.simps Let_def) simp
  finally show "parse_base128_integer c = (Some v, c')" .
qed

lemma base128_nonempty [simp]: "base128 n \<noteq> []"
  by (simp add: base128_def)

interpretation base128_code: canonical_code "\<lambda>v. base128 (unat v)" parse_base128_integer "\<lambda>_. True"
  by unfold_locales (auto simp: parse_base128_iff)

lemma length_base128_hi: "n < 128 ^ k \<Longrightarrow> length (base128_hi n) \<le> k"
proof (induction k arbitrary: n)
  case (Suc k)
  show ?case
  proof (cases "n = 0")
    case False
    have "n div 128 < 128 ^ k" using Suc.prems by (simp add: div_less_iff_less_mult mult.commute)
    with Suc.IH have "length (base128_hi (n div 128)) \<le> k" by blast
    with False show ?thesis by (subst base128_hi.simps) simp
  qed simp
qed simp

lemma length_base128: "n < 128 ^ Suc k \<Longrightarrow> length (base128 n) \<le> Suc k"
  using length_base128_hi [of "n div 128" k]
  by (simp add: base128_def div_less_iff_less_mult mult.commute)

section \<open>Tags\<close>

definition valid_tag :: "tag \<Rightarrow> bool" where
  "valid_tag t \<longleftrightarrow> t AND NOT CBS_ASN1_CONSTRUCTED \<noteq> 0"

definition constructed :: "tag \<Rightarrow> bool" where
  "constructed t \<longleftrightarrow> t AND CBS_ASN1_CONSTRUCTED \<noteq> 0"

definition tag_bytes :: "tag \<Rightarrow> bytes" where
  "tag_bytes t =
     (let flags = unat t div 2 ^ 29; num = unat t mod 2 ^ 29
      in if num < 31 then [of_nat (flags * 32 + num)]
         else of_nat (flags * 32 + 31) # base128 num)"

lemma tag_flags: "unat (t :: tag) div 2 ^ 29 < 8"
  using unat_u32_less [of t] by (simp add: div_less_iff_less_mult)

lemma tag_byte_shift:
  "unat (push_bit CBS_ASN1_TAG_SHIFT (ucast (b :: u8) AND 0xe0) :: tag) = unat b div 32 * 2 ^ 29"
proof -
  have "unat (ucast b AND 0xe0 :: tag) = unat b AND 0xe0" "unat (b AND 0xe0) = unat b AND 0xe0"
    by (simp_all add: unsigned_and_eq)
  then have "unat (ucast b AND 0xe0 :: tag) = unat b div 32 * 32" by (simp add: byte_masks)
  moreover have "unat b div 32 < 8" by (simp add: div_less_iff_less_mult)
  ultimately show ?thesis
    by (subst unat_push_bit) (simp_all add: CBS_ASN1_TAG_SHIFT_def)
qed

lemma tag_byte_num: "unat (ucast (b :: u8) AND 0x1f :: tag) = unat b mod 32"
  by (subst unat_and_mask [where n = 5]) (simp_all add: mask_eq_exp_minus_1)

lemma tag_assemble:
  assumes "unat n < 2 ^ 29"
  shows "unat (push_bit CBS_ASN1_TAG_SHIFT (ucast (b :: u8) AND 0xe0) OR n :: tag)
       = unat b div 32 * 2 ^ 29 + unat n"
proof -
  define f where "f = (of_nat (unat b div 32) :: tag)"
  have l: "unat b div 32 < 8" by (simp add: div_less_iff_less_mult)
  then have "unat f = unat b div 32" by (simp add: f_def unat_of_nat)
  with l have pf: "unat (push_bit 29 f) = unat b div 32 * 2 ^ 29" by (subst unat_push_bit) simp_all
  then have "push_bit CBS_ASN1_TAG_SHIFT (ucast b AND 0xe0) = push_bit 29 f"
    by (intro word_eqI_unat) (simp only: tag_byte_shift)
  with push_and_small [OF assms, of f] pf show ?thesis by (simp only: unat_or_disjoint)
qed

lemma tag_number_mask: "unat (ucast CBS_ASN1_TAG_NUMBER_MASK :: u64) = 2 ^ 29 - 1"
  by (simp add: tag_consts)

lemma parse_asn1_tag_iff:
  "parse_asn1_tag c = (Some t, c') \<longleftrightarrow> valid_tag t \<and> c = tag_bytes t @ c'"
proof
  assume a: "parse_asn1_tag c = (Some t, c')"
  then obtain b r where c: "c = b # r" by (cases c) (auto simp: parse_asn1_tag_def)
  define hi where "hi = (push_bit CBS_ASN1_TAG_SHIFT (ucast b AND 0xe0) :: tag)"
  have bm: "of_nat (unat b div 32 * 32 + unat b mod 32) = b" by (simp only: div_mult_mod_eq) simp
  note defs = parse_asn1_tag_def Let_def valid_tag_def hi_def [symmetric]
  show "valid_tag t \<and> c = tag_bytes t @ c'"
  proof (cases "ucast b AND 0x1f = (0x1f :: tag)")
    case True
    then have m: "unat b mod 32 = 31" using tag_byte_num [of b] by simp
    from a True obtain v where v: "parse_base128_integer r = (Some v, c')"
      "\<not> v > ucast CBS_ASN1_TAG_NUMBER_MASK" "\<not> v < 0x1f" "t = hi OR ucast v" "valid_tag t"
      by (auto simp: c defs simp del: push_bit_and split: option.splits prod.splits if_splits)
    then have vb: "31 \<le> unat v" "unat v < 2 ^ 29"
      using tag_number_mask by (auto simp: word_less_nat_alt)
    then have "unat (ucast v :: tag) = unat v" by (simp add: unat_ucast)
    with vb tag_assemble [of "ucast v" b] v(4) have "unat t = unat b div 32 * 2 ^ 29 + unat v"
      by (simp add: hi_def)
    with vb have "unat t div 2 ^ 29 = unat b div 32" "unat t mod 2 ^ 29 = unat v" by simp_all
    with vb v bm m show ?thesis by (simp add: tag_bytes_def parse_base128_iff c)
  next
    case False
    define n where "n = (ucast b AND 0x1f :: tag)"
    from a False have t: "t = hi OR n" "c' = r" "valid_tag t"
      by (auto simp: c defs n_def [symmetric] simp del: push_bit_and split: if_splits)
    have un: "unat n = unat b mod 32" using tag_byte_num [of b] by (simp add: n_def)
    have "unat b mod 32 \<noteq> 31"
      using False un by (auto simp: n_def [symmetric] dest: word_eq_of_nat)
    then have m: "unat b mod 32 < 31" using mod_less_divisor [of 32 "unat b"] by linarith
    with tag_assemble [of n b] t(1) un have "unat t = unat b div 32 * 2 ^ 29 + unat b mod 32"
      by (simp add: hi_def)
    with m have "unat t div 2 ^ 29 = unat b div 32" "unat t mod 2 ^ 29 = unat b mod 32" by simp_all
    with m bm t show ?thesis by (simp add: tag_bytes_def c del: of_nat_add of_nat_mult)
  qed
next
  assume a: "valid_tag t \<and> c = tag_bytes t @ c'"
  define f where "f = unat t div 2 ^ 29"
  define k where "k = unat t mod 2 ^ 29"
  have f8: "f < 8" using tag_flags by (simp add: f_def)
  have k29: "k < 2 ^ 29" by (simp add: k_def)
  have t: "unat t = f * 2 ^ 29 + k" unfolding f_def k_def by (rule div_mult_mod_eq [symmetric])
  have v: "t AND NOT CBS_ASN1_CONSTRUCTED \<noteq> 0" using a by (simp add: valid_tag_def)
  show "parse_asn1_tag c = (Some t, c')"
  proof (cases "k < 31")
    case True
    define b where "b = (of_nat (f * 32 + k) :: u8)"
    have b: "unat b = f * 32 + k" unfolding b_def using f8 True by (intro u8_of_nat_unat) simp
    have c: "c = b # c'" using a True by (simp add: tag_bytes_def Let_def b_def f_def k_def)
    define n where "n = (ucast b AND 0x1f :: tag)"
    have un: "unat n = k" using tag_byte_num [of b] b True by (simp add: n_def)
    then have n31: "n \<noteq> 0x1f" using True by auto
    have "unat (push_bit CBS_ASN1_TAG_SHIFT (ucast b AND 0xe0) OR n) = unat t"
      using tag_assemble [of n b] un k29 b t True by simp
    then have "push_bit CBS_ASN1_TAG_SHIFT (ucast b AND 0xe0) OR n = t" by (rule word_eqI_unat)
    with n31 v show ?thesis
      by (simp add: c parse_asn1_tag_def Let_def n_def [symmetric] del: push_bit_and)
  next
    case False
    define b where "b = (of_nat (f * 32 + 31) :: u8)"
    have b: "unat b = f * 32 + 31" unfolding b_def using f8 by (intro u8_of_nat_unat) simp
    have c: "c = b # base128 k @ c'" using a False by (simp add: tag_bytes_def Let_def b_def f_def k_def)
    have n31: "ucast b AND 0x1f = (0x1f :: tag)"
      by (rule word_eqI_unat) (simp only: tag_byte_num b, simp)
    define w where "w = (of_nat k :: u64)"
    have w: "unat w = k" using k29 by (simp add: w_def unat_of_nat)
    then have p: "parse_base128_integer (base128 k @ c') = (Some w, c')" by (simp add: parse_base128_iff)
    have w1: "\<not> w > ucast CBS_ASN1_TAG_NUMBER_MASK" "\<not> w < 0x1f"
      using w k29 False by (simp_all add: word_less_nat_alt tag_number_mask)
    have "unat (ucast w :: tag) = k" using w k29 by (simp add: unat_ucast)
    then have "unat (push_bit CBS_ASN1_TAG_SHIFT (ucast b AND 0xe0) OR (ucast w :: tag)) = unat t"
      using tag_assemble [of "ucast w" b] k29 b t by simp
    then have "push_bit CBS_ASN1_TAG_SHIFT (ucast b AND 0xe0) OR (ucast w :: tag) = t"
      by (rule word_eqI_unat)
    with n31 v p w1 show ?thesis
      by (simp add: c parse_asn1_tag_def Let_def del: push_bit_and)
  qed
qed

lemma tag_bytes_nonempty [simp]: "tag_bytes t \<noteq> []"
  by (simp add: tag_bytes_def Let_def)

lemma length_tag_bytes: "length (tag_bytes t) \<le> 6"
proof -
  have "unat t mod 2 ^ 29 < 128 ^ Suc 4" by (rule less_trans [of _ "2 ^ 29"]) simp_all
  from length_base128 [OF this] show ?thesis by (simp add: tag_bytes_def Let_def)
qed

interpretation tag_code: canonical_code tag_bytes parse_asn1_tag valid_tag
  by unfold_locales (auto simp: parse_asn1_tag_iff)

lemma peek_iff: "CBS_peek_asn1_tag c t \<longleftrightarrow> valid_tag t \<and> prefix (tag_bytes t) c"
proof
  assume "CBS_peek_asn1_tag c t"
  then obtain c' where "parse_asn1_tag c = (Some t, c')"
    by (auto simp: CBS_peek_asn1_tag_def split: option.splits prod.splits)
  then show "valid_tag t \<and> prefix (tag_bytes t) c" by (simp add: parse_asn1_tag_iff)
next
  assume "valid_tag t \<and> prefix (tag_bytes t) c"
  then obtain r where "parse_asn1_tag c = (Some t, r)"
    by (auto simp: prefix_def tag_code.dec_enc)
  then show "CBS_peek_asn1_tag c t" by (simp add: CBS_peek_asn1_tag_def)
qed

section \<open>Lengths\<close>

text \<open>
  \<open>ber_len ber t lb n bf ind\<close>: the octets \<open>lb\<close> are a length field the parser accepts (in BER
  mode if \<open>ber\<close>) for a body of \<open>n\<close> bytes after tag \<open>t\<close>, with \<open>bf\<close> and \<open>ind\<close> the two flags.
\<close>

definition ber_len :: "bool \<Rightarrow> tag \<Rightarrow> bytes \<Rightarrow> nat \<Rightarrow> bool \<Rightarrow> bool \<Rightarrow> bool" where
  "ber_len ber t lb n bf ind \<longleftrightarrow>
     (n < 128 \<and> lb = [of_nat n] \<and> \<not> bf \<and> \<not> ind) \<or>
     (ber \<and> constructed t \<and> lb = [0x80] \<and> n = 0 \<and> bf \<and> ind) \<or>
     (\<exists>k \<in> {1..4}. lb = of_nat (128 + k) # be_bytes k n \<and> n < 256 ^ k \<and>
        bf = (n < 128 \<or> n < 256 ^ (k - 1)) \<and> (bf \<longrightarrow> ber) \<and> \<not> ind)"

definition der_len :: "nat \<Rightarrow> bytes" where
  "der_len n =
     (if n < 128 then [of_nat n]
      else if n < 256 then 0x81 # be_bytes 1 n
      else if n < 256 ^ 2 then 0x82 # be_bytes 2 n
      else if n < 256 ^ 3 then 0x83 # be_bytes 3 n
      else 0x84 # be_bytes 4 n)"

definition element_at :: "bool \<Rightarrow> bytes \<Rightarrow> element \<Rightarrow> bytes \<Rightarrow> bool" where
  "element_at ber c e c' \<longleftrightarrow>
     (\<exists>lb body. valid_tag (elt_tag e) \<and>
        ber_len ber (elt_tag e) lb (length body) (ber_found e) (indefinite e) \<and>
        contents e = tag_bytes (elt_tag e) @ lb @ body \<and>
        header_len e = length (tag_bytes (elt_tag e) @ lb) \<and> c = contents e @ c')"

lemma unat_len_sum:
  fixes l :: u64
  assumes "unat l < 2 ^ 32" "h < 100" "k \<le> 4"
  shows "\<not> l + of_nat h + of_nat k < l" "unat (l + (of_nat h + of_nat k)) = unat l + h + k"
proof -
  have *: "unat (l + (of_nat h + of_nat k)) = unat l + h + k"
    using assms by (simp add: unat_word_ariths unat_of_nat)
  then show "unat (l + (of_nat h + of_nat k)) = unat l + h + k" .
  have "unat (l + of_nat h + of_nat k) = unat l + h + k" using * by (simp add: add.assoc)
  then show "\<not> l + of_nat h + of_nat k < l" by (simp add: word_less_nat_alt)
qed

lemma drop_len_zero:
  fixes l :: u64
  assumes "k \<in> {1..4}"
  shows "drop_bit ((k - 1) * 8) l = 0 \<longleftrightarrow> unat l < 256 ^ (k - 1)"
proof -
  have "(256::nat) ^ (k - 1) = (2 ^ 8) ^ (k - 1)" by simp
  then have "(256::nat) ^ (k - 1) = 2 ^ ((k - 1) * 8)" by (simp only: power_mult [symmetric] mult.commute)
  moreover have "drop_bit ((k - 1) * 8) l = 0 \<longleftrightarrow> unat (drop_bit ((k - 1) * 8) l) = 0"
    by (simp only: unat_eq_0)
  ultimately show ?thesis by (simp only: unat_drop_bit) (simp add: div_eq_0_iff)
qed

lemma long_length_byte:
  assumes "lb AND 0x80 \<noteq> 0"
  shows "unat (lb AND 0x7f) = unat lb - 128" "128 \<le> unat (lb :: u8)"
proof -
  from assms show b: "128 \<le> unat lb" by (simp add: high_bit_clear)
  then have "unat lb mod 128 = unat lb - 128" by (intro mod_less_twice) simp_all
  then show "unat (lb AND 0x7f) = unat lb - 128" by (simp add: byte_masks)
qed

lemma get_element_sound:
  assumes "cbs_get_any_asn1_element c ber = (Some e, c')"
  shows "element_at ber c e c'"
proof -
  from assms obtain t h lb h2 where p: "parse_asn1_tag c = (Some t, h)" and h: "h = lb # h2"
    by (auto simp: cbs_get_any_asn1_element_def CBS_get_u8_iff split: option.splits prod.splits)
  from p h have v: "valid_tag t" and c: "c = tag_bytes t @ lb # h2" by (auto simp: parse_asn1_tag_iff)
  define H where "H = length c - length h2"
  have H: "H = length (tag_bytes t) + 1" by (simp add: H_def c)
  have H100: "H < 100" using length_tag_bytes [of t] by (simp add: H)
  note unf = assms [unfolded cbs_get_any_asn1_element_def p h, simplified, folded H_def]
  show ?thesis
  proof (cases "lb AND 0x80 = 0")
    case True
    then have s: "unat lb < 128" by (simp add: high_bit_clear)
    from True unf have r: "cbs_get c (unat lb + H) = (Some (contents e), c')" "elt_tag e = t"
      "header_len e = H" "\<not> ber_found e" "\<not> indefinite e"
      by (auto split: if_splits option.splits prod.splits)
    let ?body = "take (unat lb) h2"
    from r(1) have g: "c = contents e @ c'" "length (contents e) = unat lb + H"
      by (simp_all add: cbs_get_iff)
    then have "contents e = take (unat lb + H) c" by simp
    also have "\<dots> = tag_bytes t @ [lb] @ ?body" unfolding c by (simp add: H)
    finally have ce: "contents e = tag_bytes t @ [lb] @ ?body" .
    with g(2) have lbody: "length ?body = unat lb" by (simp add: H)
    have "ber_len ber t [lb] (length ?body) (ber_found e) (indefinite e)"
      unfolding ber_len_def lbody using s r by simp
    with v ce r g show ?thesis
      unfolding element_at_def r(2) by (intro exI [of _ "[lb]"] exI [of _ ?body]) (simp add: H)
  next
    case False
    define k where "k = unat (lb AND 0x7f)"
    have k: "k = unat lb - 128" "128 \<le> unat lb" using long_length_byte [OF False] by (simp_all add: k_def)
    note unf = unf [folded k_def]
    show ?thesis
    proof (cases "ber \<and> t AND CBS_ASN1_CONSTRUCTED \<noteq> 0 \<and> k = 0")
      case ind: True
      with k have "lb = 0x80" by (intro word_eqI_unat) simp
      from False ind unf have r: "cbs_get c H = (Some (contents e), c')" "elt_tag e = t"
        "header_len e = H" "ber_found e" "indefinite e"
        by (auto split: if_splits option.splits prod.splits)
      from r(1) have g: "c = contents e @ c'" "length (contents e) = H" by (simp_all add: cbs_get_iff)
      then have "contents e = take H c" by simp
      also have "\<dots> = tag_bytes t @ [lb] @ []" unfolding c by (simp add: H)
      finally have ce: "contents e = tag_bytes t @ [lb] @ []" .
      have "ber_len ber t [lb] (length ([] :: bytes)) (ber_found e) (indefinite e)"
        unfolding ber_len_def using r ind \<open>lb = 0x80\<close> by (simp add: constructed_def)
      with v ce r g show ?thesis
        unfolding element_at_def r(2) by (intro exI [of _ "[lb]"] exI [of _ "[]"]) (simp add: H)
    next
      case noind: False
      with False unf obtain l h3 where l: "cbs_get_u h2 k = (Some l, h3)" and k4: "k \<in> {1..4}"
        by (auto simp: Let_def split: if_splits option.splits prod.splits)
      then have lk: "unat l < 256 ^ k" "h2 = be_bytes k (unat l) @ h3" by (auto simp: cbs_get_u_iff)
      have "(256::nat) ^ k \<le> 256 ^ 4" using k4 by (intro power_increasing) auto
      with lk have l32: "unat l < 2 ^ 32" by simp
      note sums = unat_len_sum [OF l32 H100, of k] drop_len_zero [OF k4, of l]
      have l128: "l < 128 \<longleftrightarrow> unat l < 128" by (simp add: word_less_nat_alt)
      from False noind unf l k4 sums l128 have r: "unat l < 128 \<or> unat l < 256 ^ (k - 1) \<longrightarrow> ber"
        "cbs_get c (unat l + H + k) = (Some (contents e), c')" "elt_tag e = t" "header_len e = H + k"
        "ber_found e = (unat l < 128 \<or> unat l < 256 ^ (k - 1))" "\<not> indefinite e"
        by (auto simp: Let_def split: if_splits option.splits prod.splits)
      let ?lb = "lb # be_bytes k (unat l)" and ?body = "take (unat l) h3"
      from r(2) have g: "c = contents e @ c'" "length (contents e) = unat l + H + k"
        by (simp_all add: cbs_get_iff)
      then have "contents e = take (unat l + H + k) c" by simp
      also have "\<dots> = tag_bytes t @ ?lb @ ?body" unfolding c lk(2) by (simp add: H)
      finally have ce: "contents e = tag_bytes t @ ?lb @ ?body" .
      with g(2) have lbody: "length ?body = unat l" by (simp add: H)
      have "lb = of_nat (128 + k)" using k by (intro word_eq_of_nat) simp
      with k4 lk r lbody have "ber_len ber t ?lb (length ?body) (ber_found e) (indefinite e)"
        unfolding ber_len_def lbody by blast
      with v ce r g show ?thesis
        unfolding element_at_def r(3) by (intro exI [of _ ?lb] exI [of _ ?body]) (simp add: H)
    qed
  qed
qed

lemma get_element_complete:
  assumes "element_at ber c e c'"
  shows "cbs_get_any_asn1_element c ber = (Some e, c')"
proof -
  define t where "t = elt_tag e"
  from assms obtain lb body where v: "valid_tag t"
    and bl: "ber_len ber t lb (length body) (ber_found e) (indefinite e)"
    and ce: "contents e = tag_bytes t @ lb @ body"
    and hl: "header_len e = length (tag_bytes t @ lb)" and c: "c = tag_bytes t @ lb @ body @ c'"
    by (auto simp: element_at_def t_def)
  have p: "parse_asn1_tag c = (Some t, lb @ body @ c')" using v c by (simp add: tag_code.dec_enc)
  have H100: "length (tag_bytes t) + 1 < 100" using length_tag_bytes [of t] by simp
  have get: "cbs_get c (length (contents e)) = (Some (contents e), c')"
    using c ce by (simp add: cbs_get_iff)
  note unf = cbs_get_any_asn1_element_def p
  from bl [unfolded ber_len_def] show ?thesis
  proof (elim disjE)
    assume a: "length body < 128 \<and> lb = [of_nat (length body)] \<and> \<not> ber_found e \<and> \<not> indefinite e"
    define b where "b = (of_nat (length body) :: u8)"
    have b: "unat b = length body" unfolding b_def using a by (intro u8_of_nat_unat) simp
    then have b0: "b AND 0x80 = 0" using a by (simp add: high_bit_clear)
    from c a have c1: "c = tag_bytes t @ b # body @ c'" by (simp add: b_def)
    have p1: "parse_asn1_tag c = (Some t, b # body @ c')" using p a by (simp add: b_def)
    have H: "length c - length (body @ c') = length (tag_bytes t) + 1" by (simp add: c1)
    have g: "CBS_get_bytes c (unat b + (length (tag_bytes t) + 1)) = (Some (contents e), c')"
      using get ce a b by (simp add: CBS_get_bytes_def add.commute)
    have hl': "header_len e = length (tag_bytes t) + 1" using hl a by simp
    show ?thesis
      unfolding cbs_get_any_asn1_element_def p1
      using a hl' ce b0 g by (cases e) (simp add: H t_def del: length_append)
  next
    assume a: "ber \<and> constructed t \<and> lb = [0x80] \<and> length body = 0 \<and> ber_found e \<and> indefinite e"
    have p1: "parse_asn1_tag c = (Some t, 0x80 # c')" using p a by simp
    have H: "length c - length c' = length (tag_bytes t) + 1" using c a by simp
    have g: "CBS_get_bytes c (length (tag_bytes t) + 1) = (Some (contents e), c')"
      using get ce a by (simp add: CBS_get_bytes_def)
    have hl': "header_len e = length (tag_bytes t) + 1" using hl a by simp
    show ?thesis
      unfolding cbs_get_any_asn1_element_def p1
      using a hl' ce g by (cases e) (simp add: H t_def constructed_def del: length_append)
  next
    assume "\<exists>k \<in> {1..4}. lb = of_nat (128 + k) # be_bytes k (length body) \<and> length body < 256 ^ k \<and>
        ber_found e = (length body < 128 \<or> length body < 256 ^ (k - 1)) \<and> (ber_found e \<longrightarrow> ber) \<and> \<not> indefinite e"
    then obtain k where k: "k \<in> {1..4}" and lb: "lb = of_nat (128 + k) # be_bytes k (length body)"
      and n: "length body < 256 ^ k" and bf: "ber_found e = (length body < 128 \<or> length body < 256 ^ (k - 1))"
        "ber_found e \<longrightarrow> ber" "\<not> indefinite e" by blast
    define b where "b = (of_nat (128 + k) :: u8)"
    have b: "unat b = 128 + k" unfolding b_def using k by (intro u8_of_nat_unat) simp
    then have b0: "b AND 0x80 \<noteq> 0" by (simp add: high_bit_clear)
    have nb: "unat (b AND 0x7f) = k" using long_length_byte [OF b0] b by simp
    define l where "l = (of_nat (length body) :: u64)"
    have "(256::nat) ^ k \<le> 256 ^ 4" using k by (intro power_increasing) auto
    with n have n32: "length body < 2 ^ 32" by simp
    then have l: "unat l = length body" by (simp add: l_def unat_of_nat)
    let ?h2 = "be_bytes k (length body) @ body @ c'"
    have p1: "parse_asn1_tag c = (Some t, b # ?h2)" using p lb by (simp add: b_def)
    define H where "H = length (tag_bytes t) + 1"
    have H: "length c - length ?h2 = H" by (simp add: c lb H_def)
    have u: "cbs_get_u ?h2 k = (Some l, body @ c')" using n l k by (simp add: cbs_get_u_iff)
    have "H < 100" using H100 by (simp add: H_def)
    from unat_len_sum [of l H k] this n32 l k
    have sums: "\<not> l + of_nat H + of_nat k < l" "unat (l + (of_nat H + of_nat k)) = length body + H + k"
      by auto
    have d: "drop_bit ((k - 1) * 8) l = 0 \<longleftrightarrow> length body < 256 ^ (k - 1)"
      using drop_len_zero [OF k, of l] l by simp
    have l128: "l < 128 \<longleftrightarrow> length body < 128" using l by (simp add: word_less_nat_alt)
    have g: "CBS_get_bytes c (length body + H + k) = (Some (contents e), c')"
      using get ce lb by (simp add: CBS_get_bytes_def H_def ac_simps)
    have hl': "header_len e = H + k" using hl lb by (simp add: H_def)
    have k': "\<not> (k = 0 \<or> 4 < k)" "k \<noteq> 0" using k by auto
    show ?thesis
      unfolding cbs_get_any_asn1_element_def p1
      using bf b0 k' u sums d l128 g hl' by (cases e) (simp add: H nb t_def Let_def del: length_append)
  qed
qed

lemma get_element_iff: "cbs_get_any_asn1_element c ber = (Some e, c') \<longleftrightarrow> element_at ber c e c'"
  using get_element_sound get_element_complete by blast

section \<open>DER elements\<close>

definition der_element :: "tag \<Rightarrow> bytes \<Rightarrow> bytes" where
  "der_element t body = tag_bytes t @ der_len (length body) @ body"

definition valid_element :: "bytes \<times> tag \<Rightarrow> bool" where
  "valid_element x \<longleftrightarrow> valid_tag (snd x) \<and> length (fst x) < 2 ^ 32"

lemma bex_1_4: "(\<exists>k \<in> {1..4}. P k) \<longleftrightarrow> P 1 \<or> P 2 \<or> P 3 \<or> P (4 :: nat)"
proof -
  have "{1..4} = {1, 2, 3, 4 :: nat}" by auto
  then show ?thesis by simp
qed

lemma ber_len_strict:
  "ber_len False t lb n bf ind \<longleftrightarrow> n < 2 ^ 32 \<and> lb = der_len n \<and> \<not> bf \<and> \<not> ind"
proof -
  consider "n < 128" | "128 \<le> n" "n < 256" | "256 \<le> n" "n < 256 ^ 2" | "256 ^ 2 \<le> n" "n < 256 ^ 3"
    | "256 ^ 3 \<le> n" "n < 256 ^ 4" | "256 ^ 4 \<le> n" by linarith
  then show ?thesis
    unfolding ber_len_def bex_1_4 by cases (simp_all add: der_len_def del: be_bytes.simps, auto)
qed

lemma length_der_len: "length (der_len n) \<le> 5" "0 < length (der_len n)"
  by (auto simp: der_len_def)

lemma get_any_element_iff:
  "CBS_get_any_asn1_element c = (Some e, c') \<longleftrightarrow>
   (\<exists>body. valid_element (body, elt_tag e) \<and> contents e = der_element (elt_tag e) body \<and>
      header_len e = length (der_element (elt_tag e) body) - length body \<and>
      \<not> ber_found e \<and> \<not> indefinite e \<and> c = der_element (elt_tag e) body @ c')"
  unfolding CBS_get_any_asn1_element_def get_element_iff element_at_def ber_len_strict
    valid_element_def der_element_def
  by (auto simp: add.commute)

lemma get_any_asn1_iff:
  "CBS_get_any_asn1 c = (Some (body, t), c') \<longleftrightarrow>
   valid_element (body, t) \<and> c = der_element t body @ c'"
proof
  assume "CBS_get_any_asn1 c = (Some (body, t), c')"
  then obtain e where e: "CBS_get_any_asn1_element c = (Some e, c')" "elt_tag e = t"
    "CBS_skip (contents e) (header_len e) = (True, body)"
    by (auto simp: CBS_get_any_asn1_def split: prod.splits option.splits bool.splits)
  from e(1) [unfolded get_any_element_iff] obtain b where b: "valid_element (b, elt_tag e)"
    "contents e = der_element (elt_tag e) b" "c = der_element (elt_tag e) b @ c'"
    "header_len e = length (der_element (elt_tag e) b) - length b" by blast
  then have "body = b" using e(3)
    by (auto simp: CBS_skip_def cbs_get_def der_element_def split: if_splits)
  with b e(2) show "valid_element (body, t) \<and> c = der_element t body @ c'" by simp
next
  assume a: "valid_element (body, t) \<and> c = der_element t body @ c'"
  let ?e = "\<lparr>contents = der_element t body, elt_tag = t,
     header_len = length (der_element t body) - length body, ber_found = False, indefinite = False\<rparr>"
  have "CBS_get_any_asn1_element c = (Some ?e, c')"
    unfolding get_any_element_iff using a by auto
  moreover have "CBS_skip (contents ?e) (header_len ?e) = (True, body)"
    by (simp add: CBS_skip_def cbs_get_def der_element_def)
  ultimately show "CBS_get_any_asn1 c = (Some (body, t), c')"
    by (simp add: CBS_get_any_asn1_def del: element.simps) simp
qed

interpretation der: canonical_code "\<lambda>(body, t). der_element t body" CBS_get_any_asn1 valid_element
  by unfold_locales (auto simp: get_any_asn1_iff der_element_def)

lemma get_asn1_any: "CBS_get_asn1 c t = (Some body, c') \<longleftrightarrow> CBS_get_any_asn1 c = (Some (body, t), c')"
proof -
  obtain r c1 where r: "CBS_get_any_asn1_element c = (r, c1)" by force
  show ?thesis
  proof (cases r)
    case (Some e)
    obtain b out where "CBS_skip (contents e) (header_len e) = (b, out)" by force
    then show ?thesis using r Some
      by (cases b) (auto simp: CBS_get_asn1_def cbs_get_asn1_def CBS_get_any_asn1_def)
  qed (simp add: CBS_get_asn1_def cbs_get_asn1_def CBS_get_any_asn1_def r)
qed

lemma get_asn1_iff:
  "CBS_get_asn1 c t = (Some body, c') \<longleftrightarrow> valid_element (body, t) \<and> c = der_element t body @ c'"
  by (simp only: get_asn1_any get_any_asn1_iff)

lemma get_any_element_der:
  assumes "valid_element (body, t)"
  shows "CBS_get_any_asn1_element (der_element t body @ c') =
    (Some \<lparr>contents = der_element t body, elt_tag = t,
       header_len = length (der_element t body) - length body, ber_found = False, indefinite = False\<rparr>, c')"
  unfolding get_any_element_iff using assms by auto

lemma get_asn1_element_iff:
  "CBS_get_asn1_element c t = (Some whole, c') \<longleftrightarrow>
   (\<exists>body. valid_element (body, t) \<and> whole = der_element t body \<and> c = whole @ c')" (is "?L \<longleftrightarrow> ?R")
proof
  assume ?L
  then obtain e where "CBS_get_any_asn1_element c = (Some e, c')" "elt_tag e = t" "contents e = whole"
    by (auto simp: CBS_get_asn1_element_def cbs_get_asn1_def split: prod.splits option.splits if_splits)
  then show ?R unfolding get_any_element_iff by metis
next
  assume ?R
  then show ?L
    by (auto simp: CBS_get_asn1_element_def cbs_get_asn1_def get_any_element_der)
qed

section \<open>INTEGER contents\<close>

text \<open>The two's complement value of a byte string, and its shortest representation.\<close>

definition tc_val :: "bytes \<Rightarrow> int" where
  "tc_val bs = foldl (\<lambda>v b. v * 256 + uint b) (sint (hd bs)) (tl bs)"

function der_int :: "int \<Rightarrow> bytes" where
  "der_int i = (if -128 \<le> i \<and> i < 128 then [word_of_int i]
                else der_int (i div 256) @ [word_of_int (i mod 256)])"
  by pat_completeness auto
termination
  by (relation "measure (\<lambda>i. nat \<bar>i\<bar>)") auto

declare der_int.simps [simp del]

definition minimal_int :: "bytes \<Rightarrow> bool" where
  "minimal_int bs \<longleftrightarrow> CBS_is_valid_asn1_integer bs \<noteq> None"

lemma tc_val_single [simp]: "tc_val [b] = sint b"
  by (simp add: tc_val_def)

lemma tc_val_snoc: "bs \<noteq> [] \<Longrightarrow> tc_val (bs @ [b]) = tc_val bs * 256 + uint b"
  by (cases bs) (simp_all add: tc_val_def)

lemma u8_uint [simp]: "uint (b :: u8) < 256"
  using uint_bounded [of b] by simp

lemma u8_uint_128: "unat (b :: u8) < 128 \<longleftrightarrow> uint b < 128" "128 \<le> unat b \<longleftrightarrow> 128 \<le> uint b"
proof -
  have "int (unat b) = uint b" by simp
  then show "unat b < 128 \<longleftrightarrow> uint b < 128" "128 \<le> unat b \<longleftrightarrow> 128 \<le> uint b" by linarith+
qed

lemma sint_u8: "sint (b :: u8) = (if uint b < 128 then uint b else uint b - 256)"
proof -
  have s: "sint b = (uint b + 128) mod 256 - 128"
    unfolding sint_uint by (simp add: signed_take_bit_eq_take_bit_shift take_bit_eq_mod)
  show ?thesis
  proof (cases "uint b < 128")
    case False
    have "(uint b + 128) mod 256 = ((uint b - 128) + 256) mod 256" by (simp add: algebra_simps)
    also have "\<dots> = (uint b - 128) mod 256" by (rule mod_add_self2)
    also have "\<dots> = uint b - 128" using False u8_uint [of b] by (intro mod_pos_pos_trivial) linarith+
    finally show ?thesis using s False by simp
  qed (simp add: s)
qed

lemma get_u8_simps [simp]: "CBS_get_u8 [] = (None, [])" "CBS_get_u8 (b # bs) = (Some b, bs)"
  by (simp_all add: CBS_get_u8_def cbs_get_def)

lemma valid_integer_simps:
  "CBS_is_valid_asn1_integer [] = None"
  "CBS_is_valid_asn1_integer [a] = Some (128 \<le> uint a)"
  "CBS_is_valid_asn1_integer (a # b # bs) =
     (if a = 0 \<and> uint b < 128 \<or> a = 0xff \<and> 128 \<le> uint b then None else Some (128 \<le> uint a))"
  by (simp_all add: CBS_is_valid_asn1_integer_def high_bit_clear u8_uint_128 not_less Let_def)

lemma valid_integer_snoc:
  "2 \<le> length bs \<Longrightarrow> CBS_is_valid_asn1_integer (bs @ [b]) = CBS_is_valid_asn1_integer bs"
  by (cases bs; cases "tl bs") (auto simp: valid_integer_simps)

lemma minimal_snoc: "2 \<le> length bs \<Longrightarrow> minimal_int (bs @ [b]) \<longleftrightarrow> minimal_int bs"
  by (simp add: minimal_int_def valid_integer_snoc)

lemma minimal_pair: "minimal_int [a, b] \<longleftrightarrow> \<not> (-128 \<le> tc_val [a, b] \<and> tc_val [a, b] < 128)"
proof -
  have v: "tc_val [a, b] = sint a * 256 + uint b" by (simp add: tc_val_def)
  have a0: "a = 0 \<longleftrightarrow> uint a = 0" by (simp add: uint_0_iff)
  have a1: "a = 0xff \<longleftrightarrow> uint a = 255" by (auto simp: word_uint_eq_iff)
  define x where "x = uint a"
  define y where "y = uint b"
  have "0 \<le> x" "x < 256" "0 \<le> y" "y < 256" by (simp_all add: x_def y_def)
  then show ?thesis
    unfolding minimal_int_def valid_integer_simps v sint_u8 a0 a1 x_def [symmetric] y_def [symmetric]
    by (simp split: if_splits) arith
qed

lemma minimal_large: "minimal_int bs \<Longrightarrow> 2 \<le> length bs \<Longrightarrow> \<not> (-128 \<le> tc_val bs \<and> tc_val bs < 128)"
proof (induction bs rule: rev_induct)
  case (snoc b bs)
  have ub: "0 \<le> uint b" "uint b < 256" by simp_all
  show ?case
  proof (cases "length bs = 1")
    case True
    then obtain a where "bs = [a]" by (cases bs) auto
    with snoc.prems(1) show ?thesis by (simp add: minimal_pair del: of_nat_add)
  next
    case False
    with snoc have l: "2 \<le> length bs" by simp
    with snoc have "\<not> (-128 \<le> tc_val bs \<and> tc_val bs < 128)" by (simp add: minimal_snoc)
    moreover have "tc_val (bs @ [b]) = tc_val bs * 256 + uint b" using l by (intro tc_val_snoc) auto
    ultimately show ?thesis using ub by linarith
  qed
qed simp

lemma word_of_int_u8: "uint (word_of_int (i mod 256) :: u8) = i mod 256"
  by (simp add: uint_word_of_int)

lemma der_int_tc_val: "minimal_int bs \<Longrightarrow> der_int (tc_val bs) = bs"
proof (induction bs rule: rev_induct)
  case Nil
  then show ?case by (simp add: minimal_int_def valid_integer_simps)
next
  case (snoc b bs)
  have ub: "0 \<le> uint b" "uint b < 256" by simp_all
  show ?case
  proof (cases "bs = []")
    case True
    have "-128 \<le> sint b \<and> sint b < 128" using sint_ge [of b] sint_lt [of b] by simp
    with True show ?thesis by (simp add: der_int.simps)
  next
    case False
    have v: "tc_val (bs @ [b]) = tc_val bs * 256 + uint b" using False by (rule tc_val_snoc)
    then have d: "tc_val (bs @ [b]) div 256 = tc_val bs" "tc_val (bs @ [b]) mod 256 = uint b"
      using ub by simp_all
    have m: "minimal_int bs"
    proof (cases "2 \<le> length bs")
      case False
      with \<open>bs \<noteq> []\<close> obtain a where "bs = [a]" by (cases bs; cases "tl bs") auto
      then show ?thesis by (simp add: minimal_int_def valid_integer_simps)
    qed (use snoc.prems minimal_snoc in blast)
    have "2 \<le> length (bs @ [b])" using False by (cases bs) auto
    from minimal_large [OF snoc.prems this]
    have "der_int (tc_val (bs @ [b])) = der_int (tc_val bs) @ [word_of_int (uint b)]"
      by (subst der_int.simps) (simp only: d if_False)
    with snoc.IH [OF m] show ?thesis by simp
  qed
qed

lemma der_int_nonempty [simp]: "der_int i \<noteq> []"
  by (subst der_int.simps) simp

lemma der_int_minimal: "minimal_int (der_int i) \<and> tc_val (der_int i) = i"
proof (induction i rule: der_int.induct)
  case (1 i)
  show ?case
  proof (cases "-128 \<le> i \<and> i < 128")
    case True
    then have "der_int i = [word_of_int i]" by (simp add: der_int.simps)
    moreover have "sint (word_of_int i :: u8) = i" using True by (simp add: sint_sbintrunc' signed_take_bit_int_eq_self)
    ultimately show ?thesis by (simp add: minimal_int_def valid_integer_simps)
  next
    case False
    let ?q = "i div 256" let ?b = "word_of_int (i mod 256) :: u8"
    have d: "der_int i = der_int ?q @ [?b]" by (subst der_int.simps) (simp only: False if_False)
    from 1 [OF False] have IH: "minimal_int (der_int ?q)" "tc_val (der_int ?q) = ?q" by auto
    have v: "tc_val (der_int i) = i" unfolding d by (simp add: tc_val_snoc IH word_of_int_u8)
    have "minimal_int (der_int i)"
    proof (cases "2 \<le> length (der_int ?q)")
      case True
      then show ?thesis unfolding d using IH by (simp add: minimal_snoc)
    next
      case l: False
      with der_int_nonempty [of ?q] obtain a where "der_int ?q = [a]" by (cases "der_int ?q"; cases "tl (der_int ?q)") auto
      with d have ab: "der_int i = [a, ?b]" by simp
      have "\<not> (-128 \<le> tc_val (der_int i) \<and> tc_val (der_int i) < 128)" using v False by simp
      then show ?thesis unfolding ab minimal_pair .
    qed
    with v show ?thesis by simp
  qed
qed

lemma minimal_int_iff: "minimal_int bs \<longleftrightarrow> bs = der_int (tc_val bs)"
  using der_int_tc_val der_int_minimal by metis

lemma minimal_value_iff: "minimal_int bs \<and> tc_val bs = i \<longleftrightarrow> bs = der_int i"
  using der_int_tc_val der_int_minimal by metis

end
