(* ===== verification/DER_Values.thy ===== *)
theory DER_Values
  imports DER
begin

text \<open>
  The typed readers of \<open>cbs.c\<close> against the DER values they stand for: \<open>uint64_t\<close>,
  \<open>int64_t\<close> and \<open>bool\<close>, each one the inverse of a function from values to bytes.
\<close>

section \<open>Two's complement and big-endian values\<close>

lemma tc_val_be:
  "bs \<noteq> [] \<Longrightarrow>
   tc_val bs = int (be_val bs) - (if 128 \<le> uint (hd bs) then 256 ^ length bs else 0)"
proof (induction bs rule: rev_induct)
  case (snoc b bs)
  show ?case
  proof (cases "bs = []")
    case True
    then show ?thesis by (simp add: sint_u8)
  next
    case False
    with snoc show ?thesis
      by (cases "128 \<le> uint (hd bs)") (simp_all add: tc_val_snoc algebra_simps)
  qed
qed simp

lemma valid_integer_sign:
  "CBS_is_valid_asn1_integer bs = Some n \<longleftrightarrow> minimal_int bs \<and> n = (128 \<le> uint (hd bs))"
  by (cases bs; cases "tl bs") (auto simp: minimal_int_def valid_integer_simps split: if_splits)

lemma minimal_nonempty: "minimal_int bs \<Longrightarrow> bs \<noteq> []"
  by (auto simp: minimal_int_def valid_integer_simps)

lemma unsigned_integer_iff:
  "CBS_is_unsigned_asn1_integer bs \<longleftrightarrow> minimal_int bs \<and> uint (hd bs) < 128"
proof (cases "CBS_is_valid_asn1_integer bs")
  case (Some n)
  moreover from Some have "minimal_int bs \<and> n = (128 \<le> uint (hd bs))" by (simp only: valid_integer_sign)
  ultimately show ?thesis by (auto simp: CBS_is_unsigned_asn1_integer_def)
qed (simp add: CBS_is_unsigned_asn1_integer_def minimal_int_def)

lemma uint64_loop:
  "get_asn1_uint64_loop out bs =
   (if unat out * 256 ^ length bs + be_val bs < 2 ^ 64
    then Some (of_nat (unat out * 256 ^ length bs + be_val bs)) else None)"
proof (induction out bs rule: get_asn1_uint64_loop.induct)
  case (2 out b bs)
  have d: "drop_bit 56 out = 0 \<longleftrightarrow> unat out < 2 ^ 56"
  proof -
    have "drop_bit 56 out = 0 \<longleftrightarrow> unat (drop_bit 56 out) = 0" by (simp only: unat_eq_0)
    then show ?thesis by (simp only: unat_drop_bit) (simp add: div_eq_0_iff)
  qed
  have horner: "(unat out * 256 + unat b) * 256 ^ length bs + be_val bs
      = unat out * 256 ^ length (b # bs) + be_val (b # bs)"
    by (simp add: be_val_Cons algebra_simps)
  show ?case
  proof (cases "drop_bit 56 out = 0")
    case True
    then have "unat (push_bit 8 out OR ucast b) = unat out * 256 + unat b"
      using d by (subst unat_shift_or) simp_all
    with 2 True show ?thesis by (simp add: horner)
  next
    case False
    then have "2 ^ 56 * 256 \<le> unat out * 256" using d by simp
    also have "\<dots> \<le> unat out * 256 ^ length (b # bs)" by (intro mult_le_mono2) simp
    finally have "\<not> unat out * 256 ^ length (b # bs) + be_val (b # bs) < 2 ^ 64" by simp
    with False show ?thesis by simp
  qed
qed simp

lemma uint64_contents:
  "CBS_is_unsigned_asn1_integer bs \<and> get_asn1_uint64_loop 0 bs = Some v \<longleftrightarrow> bs = der_int (uint v)"
proof -
  have *: "CBS_is_unsigned_asn1_integer bs \<and> get_asn1_uint64_loop 0 bs = Some v \<longleftrightarrow>
     minimal_int bs \<and> uint (hd bs) < 128 \<and> be_val bs < 2 ^ 64 \<and> of_nat (be_val bs) = v"
    by (auto simp: unsigned_integer_iff uint64_loop)
  also have "\<dots> \<longleftrightarrow> minimal_int bs \<and> tc_val bs = uint v"
  proof (intro conj_cong refl)
    assume m: "minimal_int bs"
    note tc = tc_val_be [OF minimal_nonempty [OF m]]
    have b: "be_val bs < 256 ^ length bs" by (rule be_val_less)
    have v: "uint v = int (unat v)" by simp
    show "uint (hd bs) < 128 \<and> be_val bs < 2 ^ 64 \<and> of_nat (be_val bs) = v \<longleftrightarrow> tc_val bs = uint v"
    proof (cases "uint (hd bs) < 128")
      case True
      then have t: "tc_val bs = int (be_val bs)" using tc by simp
      have "be_val bs < 2 ^ 64 \<and> of_nat (be_val bs) = v \<longleftrightarrow> be_val bs = unat v"
        using unat_u64_less [of v] by (auto simp: unat_of_nat)
      also have "\<dots> \<longleftrightarrow> tc_val bs = uint v" unfolding t v by (simp only: of_nat_eq_iff)
      finally show ?thesis using True by simp
    next
      case False
      have "int (be_val bs) < int (256 ^ length bs)" using b by (simp only: of_nat_less_iff)
      then have "tc_val bs < 0" using tc False by simp
      then show ?thesis using False uint_ge_0 [of v] by linarith
    qed
  qed
  finally show ?thesis by (simp only: minimal_value_iff)
qed

lemma length_der_int:
  "- (128 * 256 ^ n) \<le> i \<Longrightarrow> i < 128 * 256 ^ n \<Longrightarrow> length (der_int i) \<le> Suc n"
proof (induction n arbitrary: i)
  case 0
  then show ?case by (simp add: der_int.simps)
next
  case (Suc n)
  show ?case
  proof (cases "-128 \<le> i \<and> i < 128")
    case False
    have "- (128 * 256 ^ n) \<le> i div 256" "i div 256 < 128 * 256 ^ n"
      using Suc.prems by simp_all
    then have "length (der_int (i div 256)) \<le> Suc n" by (rule Suc.IH)
    moreover have "der_int i = der_int (i div 256) @ [word_of_int (i mod 256)]"
      by (subst der_int.simps) (simp only: False if_False)
    ultimately show ?thesis by simp
  qed (simp add: der_int.simps)
qed

lemma valid_integer_element: "valid_tag t \<Longrightarrow> - (2 ^ 63) \<le> i \<Longrightarrow> i < 2 ^ 64 \<Longrightarrow> valid_element (der_int i, t)"
  using length_der_int [of 8 i] by (simp add: valid_element_def)

lemma valid_integer_tag: "valid_tag CBS_ASN1_INTEGER" "valid_tag CBS_ASN1_BOOLEAN"
    "valid_tag CBS_ASN1_OCTETSTRING"
  by (simp_all add: valid_tag_def tag_consts)

lemma get_uint64_iff:
  "CBS_get_asn1_uint64 c = (Some v, c') \<longleftrightarrow> c = der_element CBS_ASN1_INTEGER (der_int (uint v)) @ c'"
proof -
  have "CBS_get_asn1_uint64 c = (Some v, c') \<longleftrightarrow>
     (\<exists>bs. CBS_get_asn1 c CBS_ASN1_INTEGER = (Some bs, c') \<and>
        CBS_is_unsigned_asn1_integer bs \<and> get_asn1_uint64_loop 0 bs = Some v)"
    by (auto simp: CBS_get_asn1_uint64_def split: prod.splits option.splits)
  also have "\<dots> \<longleftrightarrow> CBS_get_asn1 c CBS_ASN1_INTEGER = (Some (der_int (uint v)), c')"
    by (simp only: uint64_contents) blast
  also have "\<dots> \<longleftrightarrow> c = der_element CBS_ASN1_INTEGER (der_int (uint v)) @ c'"
  proof -
    have "- (2 ^ 63) \<le> uint v" by (rule order_trans [OF _ uint_ge_0]) simp
    then have "valid_element (der_int (uint v), CBS_ASN1_INTEGER)"
      using valid_integer_element [OF valid_integer_tag(1)] uint_bounded [of v] by simp
    then show ?thesis by (simp add: get_asn1_iff)
  qed
  finally show ?thesis .
qed

lemma tc_val_sign_extend:
  "bs \<noteq> [] \<Longrightarrow> s = (if 128 \<le> uint (hd bs) then 0xff else 0) \<Longrightarrow> tc_val (replicate k s @ bs) = tc_val bs"
proof (induction k)
  case (Suc k)
  have "tc_val (s # c # cs) = tc_val (c # cs)" if "s = (if 128 \<le> uint c then 0xff else 0)" for c cs
    using that by (simp add: tc_val_def sint_u8)
  moreover obtain c cs where "replicate k s @ bs = c # cs" "s = (if 128 \<le> uint c then 0xff else 0)"
    using Suc.prems by (cases k; cases bs) auto
  ultimately show ?case using Suc by simp
qed simp

lemma sint_u64: "sint (w :: u64) = (if 2 ^ 63 \<le> uint w then uint w - 2 ^ 64 else uint w)"
proof -
  define u where "u = uint w"
  have u: "0 \<le> u" "u < 2 ^ 64" using uint_bounded [of w] by (simp_all add: u_def)
  have s: "sint w = (u + 2 ^ 63) mod 2 ^ 64 - 2 ^ 63"
    unfolding sint_uint u_def by (simp add: signed_take_bit_eq_take_bit_shift take_bit_eq_mod)
  show ?thesis
  proof (cases "2 ^ 63 \<le> u")
    case True
    have "(u + 2 ^ 63) mod 2 ^ 64 = ((u - 2 ^ 63) + 2 ^ 64) mod 2 ^ 64" by (simp add: algebra_simps)
    also have "\<dots> = (u - 2 ^ 63) mod 2 ^ 64" by (rule mod_add_self2)
    also have "\<dots> = u - 2 ^ 63" using True u by (intro mod_pos_pos_trivial) simp_all
    finally show ?thesis using s True by (simp add: u_def)
  next
    case False
    then have "(u + 2 ^ 63) mod 2 ^ 64 = u + 2 ^ 63" using u by (intro mod_pos_pos_trivial) simp_all
    then show ?thesis using s False by (simp add: u_def)
  qed
qed

lemma sint_be:
  assumes "length bs = 8"
  shows "sint (CRYPTO_load_u64_be bs) = tc_val bs"
proof -
  define w where "w = CRYPTO_load_u64_be bs"
  have w: "unat w = be_val bs" using assms by (simp add: w_def CRYPTO_load_u64_be_def cbs_get_u_loop_be_val)
  have ne: "bs \<noteq> []" using assms by auto
  obtain b r where br: "bs = b # r" "length r = 7" using assms by (cases bs) auto
  have u: "uint w = int (be_val bs)" using w by (metis int_nat_eq uint_ge_0 unat_eq_nat_uint)
  have r: "be_val r < 256 ^ 7" using be_val_less [of r] br by simp
  have bv: "be_val bs = unat b * 256 ^ 7 + be_val r" using br be_val_Cons [of b r] by simp
  have "128 \<le> uint b \<longleftrightarrow> 2 ^ 63 \<le> be_val bs"
    unfolding bv u8_uint_128(2) [symmetric] using r by auto
  then have h: "128 \<le> uint (hd bs) \<longleftrightarrow> 2 ^ 63 \<le> be_val bs" by (simp add: br)
  have lt: "be_val bs < 2 ^ 64" using be_val_less [of bs] assms by simp
  have "sint w = (if 2 ^ 63 \<le> uint w then uint w - 2 ^ 64 else uint w)"
    by (rule sint_u64)
  then show ?thesis unfolding w_def [symmetric] tc_val_be [OF ne] h u assms by simp
qed

lemma int64_contents:
  "(\<exists>neg. CBS_is_valid_asn1_integer bs = Some neg \<and> length bs \<le> 8 \<and>
     CRYPTO_load_u64_be (take (8 - length bs) (replicate 8 (if neg then 0xff else 0)) @ bs) = v)
   \<longleftrightarrow> bs = der_int (sint v)" (is "?L \<longleftrightarrow> _")
proof -
  have ext: "sint (CRYPTO_load_u64_be (take (8 - length bs) (replicate 8 (if 128 \<le> uint (hd bs) then 0xff else 0)) @ bs))
    = tc_val bs" if "minimal_int bs" "length bs \<le> 8"
  proof -
    have "sint (CRYPTO_load_u64_be (take (8 - length bs) (replicate 8 (if 128 \<le> uint (hd bs) then 0xff else 0)) @ bs))
      = tc_val (replicate (8 - length bs) (if 128 \<le> uint (hd bs) then 0xff else 0) @ bs)"
      using that(2) by (subst sint_be) simp_all
    also have "\<dots> = tc_val bs" using minimal_nonempty [OF that(1)] by (rule tc_val_sign_extend) simp
    finally show ?thesis .
  qed
  have len: "length (der_int (sint v)) \<le> 8"
    using sint_ge [of v] sint_lt [of v] by (intro length_der_int [of 7, simplified]) simp_all
  have "?L \<longleftrightarrow> minimal_int bs \<and> length bs \<le> 8 \<and>
     CRYPTO_load_u64_be (take (8 - length bs) (replicate 8 (if 128 \<le> uint (hd bs) then 0xff else 0)) @ bs) = v"
    unfolding valid_integer_sign by blast
  also have "\<dots> \<longleftrightarrow> minimal_int bs \<and> length bs \<le> 8 \<and> tc_val bs = sint v"
    using ext by (metis signed_word_eqI)
  also have "\<dots> \<longleftrightarrow> bs = der_int (sint v)"
    using minimal_value_iff [of bs "sint v"] len by auto
  finally show ?thesis .
qed

lemma get_int64_iff:
  "CBS_get_asn1_int64 c = (Some v, c') \<longleftrightarrow> c = der_element CBS_ASN1_INTEGER (der_int (sint v)) @ c'"
proof -
  have "CBS_get_asn1_int64 c = (Some v, c') \<longleftrightarrow>
     (\<exists>bs. CBS_get_asn1 c CBS_ASN1_INTEGER = (Some bs, c') \<and>
       (\<exists>neg. CBS_is_valid_asn1_integer bs = Some neg \<and> length bs \<le> 8 \<and>
     CRYPTO_load_u64_be (take (8 - length bs) (replicate 8 (if neg then 0xff else 0)) @ bs) = v))"
    by (auto simp: CBS_get_asn1_int64_def Let_def split: prod.splits option.splits if_splits)
  also have "\<dots> \<longleftrightarrow> CBS_get_asn1 c CBS_ASN1_INTEGER = (Some (der_int (sint v)), c')"
    by (simp only: int64_contents) blast
  also have "\<dots> \<longleftrightarrow> c = der_element CBS_ASN1_INTEGER (der_int (sint v)) @ c'"
    using valid_integer_element [OF valid_integer_tag(1), of "sint v"] sint_ge [of v] sint_lt [of v]
    by (simp add: get_asn1_iff)
  finally show ?thesis .
qed

section \<open>Booleans and optional values\<close>

definition der_bool :: "bool \<Rightarrow> bytes" where
  "der_bool b = [if b then 0xff else 0]"

lemma get_bool_iff:
  "CBS_get_asn1_bool c = (Some b, c') \<longleftrightarrow> c = der_element CBS_ASN1_BOOLEAN (der_bool b) @ c'"
proof -
  have *: "(length bs = 1 \<and> (hd bs = 0 \<or> hd bs = 0xff) \<and> b = (hd bs \<noteq> 0)) \<longleftrightarrow> bs = der_bool b" for bs
    by (cases bs; cases "tl bs") (auto simp: der_bool_def)
  have "CBS_get_asn1_bool c = (Some b, c') \<longleftrightarrow>
     (\<exists>bs. CBS_get_asn1 c CBS_ASN1_BOOLEAN = (Some bs, c') \<and>
        length bs = 1 \<and> (hd bs = 0 \<or> hd bs = 0xff) \<and> b = (hd bs \<noteq> 0))"
    by (auto simp: CBS_get_asn1_bool_def Let_def split: prod.splits option.splits if_splits)
  also have "\<dots> \<longleftrightarrow> CBS_get_asn1 c CBS_ASN1_BOOLEAN = (Some (der_bool b), c')"
    by (simp only: *) blast
  also have "\<dots> \<longleftrightarrow> c = der_element CBS_ASN1_BOOLEAN (der_bool b) @ c'"
    by (simp add: get_asn1_iff valid_element_def valid_integer_tag der_bool_def)
  finally show ?thesis .
qed

interpretation uint64_code:
  canonical_code "\<lambda>v. der_element CBS_ASN1_INTEGER (der_int (uint v))" CBS_get_asn1_uint64 "\<lambda>_. True"
  by unfold_locales (auto simp: get_uint64_iff der_element_def)

interpretation int64_code:
  canonical_code "\<lambda>v. der_element CBS_ASN1_INTEGER (der_int (sint v))" CBS_get_asn1_int64 "\<lambda>_. True"
  by unfold_locales (auto simp: get_int64_iff der_element_def)

interpretation bool_code:
  canonical_code "\<lambda>v. der_element CBS_ASN1_BOOLEAN (der_bool v)" CBS_get_asn1_bool "\<lambda>_. True"
  by unfold_locales (auto simp: get_bool_iff der_element_def)

text \<open>
  An optional element with tag \<open>t\<close> is present exactly when the input starts with the
  octets of \<open>t\<close>; then what follows must be an element.
\<close>

lemma get_optional_iff:
  "CBS_get_optional_asn1 c t = (Some p, c') \<longleftrightarrow>
   (case p of
      None \<Rightarrow> \<not> (valid_tag t \<and> prefix (tag_bytes t) c) \<and> c' = c
    | Some body \<Rightarrow> valid_element (body, t) \<and> c = der_element t body @ c')"
proof (cases "CBS_peek_asn1_tag c t")
  case True
  then have "valid_tag t \<and> prefix (tag_bytes t) c" by (simp add: peek_iff)
  moreover from True have "CBS_get_optional_asn1 c t = (Some p, c') \<longleftrightarrow>
    (\<exists>body. p = Some body \<and> CBS_get_asn1 c t = (Some body, c'))"
    by (auto simp: CBS_get_optional_asn1_def split: prod.splits option.splits)
  ultimately show ?thesis by (cases p) (simp_all add: get_asn1_iff)
next
  case False
  have "\<not> (valid_element (body, t) \<and> c = der_element t body @ c')" for body
    using False by (auto simp: peek_iff valid_element_def der_element_def)
  with False show ?thesis
    by (cases p) (auto simp: CBS_get_optional_asn1_def peek_iff)
qed

text \<open>\<open>CBS_get_optional_asn1_uint64\<close>: the value inside the tag, or the default.\<close>

lemma get_optional_uint64_iff:
  "CBS_get_optional_asn1_uint64 c t d = (Some v, c') \<longleftrightarrow>
   (if valid_tag t \<and> prefix (tag_bytes t) c
    then c = der_element t (der_element CBS_ASN1_INTEGER (der_int (uint v))) @ c' \<and>
      length (der_element CBS_ASN1_INTEGER (der_int (uint v))) < 2 ^ 32
    else v = d \<and> c' = c)"
proof -
  let ?e = "der_element CBS_ASN1_INTEGER (der_int (uint v))"
  have *: "CBS_get_optional_asn1_uint64 c t d = (Some v, c') \<longleftrightarrow>
     (CBS_get_optional_asn1 c t = (Some None, c') \<and> v = d) \<or>
     (\<exists>child. CBS_get_optional_asn1 c t = (Some (Some child), c') \<and> CBS_get_asn1_uint64 child = (Some v, []))"
    by (auto simp: CBS_get_optional_asn1_uint64_def split: prod.splits option.splits if_splits)
  show ?thesis
    unfolding * get_uint64_iff get_optional_iff
    by (auto simp: valid_element_def der_element_def)
qed

end
