(* ===== verification/CBS_Decimal.thy ===== *)
theory CBS_Decimal
  imports CBS
begin

text \<open>
  Decimal numbers in \<open>cbs.c\<close>: the reader \<open>CBS_get_u64_decimal\<close> accepts exactly the
  strings that \<open>snprintf\<close> with \<open>PRIu64\<close> produces, and rejects every value above 2^64 - 1.
\<close>

text \<open>What \<open>snprintf(buf, sizeof(buf), "%" PRIu64, v)\<close> writes, as \<open>add_decimal\<close> uses it.\<close>

fun decimal :: "nat \<Rightarrow> bytes" where
  "decimal n = (if n < 10 then [of_nat (48 + n)] else decimal (n div 10) @ [of_nat (48 + n mod 10)])"

declare decimal.simps [simp del]

definition digit :: "u8 \<Rightarrow> bool" where
  "digit c \<longleftrightarrow> OPENSSL_isdigit (uint c)"

lemma digit_iff: "digit c \<longleftrightarrow> 48 \<le> unat c \<and> unat c \<le> 57"
proof -
  have u: "uint c = int (unat c)" by simp
  show ?thesis unfolding digit_def OPENSSL_isdigit_def u by arith
qed

definition dval :: "nat \<Rightarrow> bytes \<Rightarrow> nat" where
  "dval v ds = foldl (\<lambda>v d. v * 10 + (unat d - 48)) v ds"

lemma dval_simps [simp]: "dval v [] = v" "dval v (d # ds) = dval (v * 10 + (unat d - 48)) ds"
  by (simp_all add: dval_def)

lemma dval_append: "dval v (ds @ es) = dval (dval v ds) es"
  by (simp add: dval_def)

lemma dval_ge: "v \<le> dval v ds"
proof (induction ds arbitrary: v)
  case (Cons d ds)
  have "v \<le> v * 10 + (unat d - 48)" by simp
  also have "\<dots> \<le> dval v (d # ds)" using Cons by simp
  finally show ?case .
qed simp

lemma of_nat_digit: "digit d \<Longrightarrow> (of_nat (48 + (unat d - 48)) :: u8) = d"
  by (simp add: digit_iff)

lemma decimal_dval: "0 < v \<Longrightarrow> \<forall>d \<in> set ds. digit d \<Longrightarrow> decimal (dval v ds) = decimal v @ ds"
proof (induction ds arbitrary: v)
  case (Cons d ds)
  define k where "k = unat d - 48"
  with Cons.prems(2) have k: "k < 10" "of_nat (48 + k) = d"
    using of_nat_digit [of d] by (auto simp: digit_iff)
  have "decimal (v * 10 + k) = decimal v @ [d]"
    using Cons.prems(1) k by (subst decimal.simps) auto
  then have "decimal (v * 10 + (unat d - 48)) = decimal v @ [d]" by (simp add: k_def)
  with Cons show ?case by simp
qed simp

section \<open>The loop\<close>

definition no_digit :: "bytes \<Rightarrow> bool" where
  "no_digit c \<longleftrightarrow> (c = [] \<or> \<not> digit (hd c))"

text \<open>The value the C expression \<open>v * 10 + (c - '0')\<close> has after its two overflow tests.\<close>

lemma digit_value: "digit b \<Longrightarrow> unat (ucast b - 48 :: u64) = unat b - 48"
  by (simp add: digit_iff unat_sub word_le_nat_alt)

lemma digit_value_le: "digit b \<Longrightarrow> unat b - 48 \<le> 9"
  unfolding digit_iff by arith

lemma unat_max_minus_digit:
  assumes "digit c"
  shows "unat (UINT64_MAX - (ucast c - 48)) = 2 ^ 64 - 1 - (unat c - 48)"
proof -
  have "unat (ucast c - 48 :: u64) \<le> unat UINT64_MAX"
    using digit_value [OF assms] digit_value_le [OF assms] by (simp add: UINT64_MAX_def)
  then show ?thesis
    by (simp add: unat_sub word_le_nat_alt digit_value [OF assms]) (simp add: UINT64_MAX_def)
qed

lemma decimal_step:
  fixes v :: u64
  assumes "digit c" "\<not> v > UINT64_MAX div 10" "\<not> v * 10 > UINT64_MAX - (ucast c - 48)"
  shows "unat (v * 10 + (ucast c - 48)) = unat v * 10 + (unat c - 48)"
proof -
  note c = digit_value [OF assms(1)]
  have "unat v \<le> unat (UINT64_MAX div 10)"
    using assms(2) by (simp add: word_le_nat_alt word_less_nat_alt)
  then have "unat v * 10 < 2 ^ 64" by (simp add: UINT64_MAX_def unat_div)
  then have v10: "unat (v * 10) = unat v * 10" by (simp add: unat_word_ariths)
  with assms(3) unat_max_minus_digit [OF assms(1)] have "unat v * 10 \<le> 2 ^ 64 - 1 - (unat c - 48)"
    by (simp add: word_less_nat_alt v10)
  moreover note digit_value_le [OF assms(1)]
  ultimately have "unat v * 10 + (unat c - 48) < 2 ^ 64" by simp
  then show ?thesis by (simp add: unat_word_ariths v10 c)
qed

lemma decimal_step_ok:
  fixes v :: u64
  assumes "digit c" "unat v * 10 + (unat c - 48) < 2 ^ 64"
  shows "\<not> v > UINT64_MAX div 10 \<and> \<not> v * 10 > UINT64_MAX - (ucast c - 48)"
proof -
  note c = digit_value [OF assms(1)]
  have v10: "unat (v * 10) = unat v * 10" using assms(2) by (simp add: unat_word_ariths)
  have "\<not> v > UINT64_MAX div 10"
    using assms(2) by (simp add: word_less_nat_alt UINT64_MAX_def unat_div)
  moreover have "\<not> v * 10 > UINT64_MAX - (ucast c - 48)"
    using assms(2) unat_max_minus_digit [OF assms(1)] by (simp add: word_less_nat_alt v10)
  ultimately show ?thesis by blast
qed

lemma loop_sound:
  "CBS_get_u64_decimal_loop c v True = (Some w, c') \<Longrightarrow>
   \<exists>ds. c = ds @ c' \<and> (\<forall>d \<in> set ds. digit d) \<and> (v = 0 \<longrightarrow> ds = []) \<and> no_digit c' \<and>
        unat w = dval (unat v) ds"
proof (induction c v True rule: CBS_get_u64_decimal_loop.induct)
  case (1 v)
  then show ?case by (auto simp: no_digit_def)
next
  case (2 b c v)
  show ?case
  proof (cases "digit b")
    case False
    with 2 show ?thesis by (auto simp: no_digit_def digit_def)
  next
    case True
    with 2(2) have ok: "v \<noteq> 0" "\<not> v > UINT64_MAX div 10" "\<not> v * 10 > UINT64_MAX - (ucast b - 48)"
      by (auto simp: digit_def split: if_splits)
    with True 2 obtain ds where "c = ds @ c'" "\<forall>d \<in> set ds. digit d" "no_digit c'"
        "unat w = dval (unat (v * 10 + (ucast b - 48))) ds"
      by (auto simp: digit_def)
    with decimal_step [OF True ok(2,3)] True ok(1) show ?thesis
      by (intro exI [of _ "b # ds"]) auto
  qed
qed

lemma loop_complete:
  "\<forall>d \<in> set ds. digit d \<Longrightarrow> dval (unat v) ds < 2 ^ 64 \<Longrightarrow> v \<noteq> 0 \<or> ds = [] \<Longrightarrow> no_digit c' \<Longrightarrow>
   CBS_get_u64_decimal_loop (ds @ c') v True = (Some (of_nat (dval (unat v) ds)), c')"
proof (induction ds arbitrary: v)
  case Nil
  then show ?case by (cases c') (auto simp: no_digit_def digit_def)
next
  case (Cons d ds)
  let ?v = "v * 10 + (ucast d - 48) :: u64"
  from Cons.prems have d: "digit d" and v: "v \<noteq> 0" by auto
  have "unat v * 10 + (unat d - 48) \<le> dval (unat v) (d # ds)"
    using dval_ge [of "unat v * 10 + (unat d - 48)" ds] by simp
  with Cons.prems(2) have lt: "unat v * 10 + (unat d - 48) < 2 ^ 64" by linarith
  from decimal_step_ok [OF d lt] have ok: "\<not> v > UINT64_MAX div 10" "\<not> v * 10 > UINT64_MAX - (ucast d - 48)" by auto
  from decimal_step [OF d ok] have u: "unat ?v = unat v * 10 + (unat d - 48)" .
  have "unat v > 0" using v by (simp add: unat_gt_0)
  then have "?v \<noteq> 0" using u by (metis add_is_0 mult_is_0 unat_0 unat_eq_zero zero_neq_numeral less_numeral_extra(3))
  with Cons u have "CBS_get_u64_decimal_loop (ds @ c') ?v True = (Some (of_nat (dval (unat ?v) ds)), c')"
    by simp
  with d ok v u show ?case by (simp add: digit_def)
qed

lemma CBS_get_u64_decimal_Cons:
  "CBS_get_u64_decimal (b # c) =
     (if digit b then CBS_get_u64_decimal_loop c (ucast b - 48) True else (None, b # c))"
proof (cases "digit b")
  case True
  have "\<not> (0::u64) * 10 > UINT64_MAX - (ucast b - 48)" by simp
  with True show ?thesis by (simp add: CBS_get_u64_decimal_def digit_def UINT64_MAX_def)
next
  case False
  then show ?thesis by (simp add: CBS_get_u64_decimal_def digit_def)
qed

lemma decimal_digit: "digit b \<Longrightarrow> decimal (unat b - 48) = [b]"
  using of_nat_digit [of b] by (subst decimal.simps) (auto simp: digit_iff)

lemma decimal_Cons:
  "\<exists>b ds. decimal n = b # ds \<and> digit b \<and> (\<forall>d \<in> set ds. digit d) \<and> n = dval (unat b - 48) ds \<and>
          (unat b = 48 \<longrightarrow> ds = [])"
proof (induction n rule: decimal.induct)
  case (1 n)
  show ?case
  proof (cases "n < 10")
    case True
    then have "unat (of_nat (48 + n) :: u8) = 48 + n" by (intro u8_of_nat_unat) simp
    with True show ?thesis by (subst decimal.simps) (simp add: digit_iff del: of_nat_add)
  next
    case False
    with 1 obtain b ds where *: "decimal (n div 10) = b # ds" "digit b" "\<forall>d \<in> set ds. digit d"
        "n div 10 = dval (unat b - 48) ds" "unat b = 48 \<longrightarrow> ds = []" by blast
    let ?d = "of_nat (48 + n mod 10) :: u8"
    have d: "unat ?d = 48 + n mod 10" by (intro u8_of_nat_unat) simp
    have "unat b \<noteq> 48"
      using * False by (auto simp: div_eq_0_iff)
    moreover have "decimal n = b # (ds @ [?d])" using False * by (subst decimal.simps) simp
    moreover have "n = dval (unat b - 48) (ds @ [?d])"
      using d by (simp add: dval_append flip: *(4))
    moreover have "digit ?d" using d by (simp add: digit_iff)
    ultimately show ?thesis using * by auto
  qed
qed

text \<open>The reader accepts exactly the decimal numerals, up to the first character that is no digit.\<close>

lemma CBS_get_u64_decimal_iff:
  "CBS_get_u64_decimal c = (Some v, c') \<longleftrightarrow> c = decimal (unat v) @ c' \<and> no_digit c'"
proof
  assume a: "CBS_get_u64_decimal c = (Some v, c')"
  then obtain b cs where c: "c = b # cs" by (cases c) (auto simp: CBS_get_u64_decimal_def)
  with a have b: "digit b" and l: "CBS_get_u64_decimal_loop cs (ucast b - 48) True = (Some v, c')"
    by (auto simp: CBS_get_u64_decimal_Cons split: if_splits)
  from loop_sound [OF l] obtain ds where ds: "cs = ds @ c'" "\<forall>d \<in> set ds. digit d"
    "(ucast b - 48 :: u64) = 0 \<longrightarrow> ds = []" "no_digit c'" "unat v = dval (unat b - 48) ds"
    by (auto simp: digit_value [OF b])
  have "decimal (unat v) = b # ds"
  proof (cases "unat b = 48")
    case True
    then have "(ucast b - 48 :: u64) = 0" using digit_value [OF b] by (simp flip: unat_eq_0)
    with ds decimal_digit [OF b] show ?thesis by simp
  next
    case False
    with b have "0 < unat b - 48" by (simp add: digit_iff)
    with decimal_dval [OF this ds(2)] ds(5) decimal_digit [OF b] show ?thesis by simp
  qed
  with c ds show "c = decimal (unat v) @ c' \<and> no_digit c'" by simp
next
  assume a: "c = decimal (unat v) @ c' \<and> no_digit c'"
  from decimal_Cons [of "unat v"] obtain b ds where *: "decimal (unat v) = b # ds" "digit b"
    "\<forall>d \<in> set ds. digit d" "unat v = dval (unat b - 48) ds" "unat b = 48 \<longrightarrow> ds = []" by blast
  have "(ucast b - 48 :: u64) \<noteq> 0 \<or> ds = []"
    using *(2,5) digit_value [OF *(2)] by (metis digit_iff diff_is_0_eq le_antisym unat_0)
  moreover have dv: "dval (unat (ucast b - 48 :: u64)) ds = unat v"
    using *(4) digit_value [OF *(2)] by simp
  ultimately have "CBS_get_u64_decimal_loop (ds @ c') (ucast b - 48) True = (Some v, c')"
    using loop_complete [OF *(3), of "ucast b - 48" c'] a unfolding dv by simp
  with a * show "CBS_get_u64_decimal c = (Some v, c')" by (simp add: CBS_get_u64_decimal_Cons)
qed

end
