(* ===== verification/Reader_Props.thy ===== *)
theory Reader_Props
  imports DER_Values CBS_Decimal Mem
begin

text \<open>
  The properties of the memory helpers, of the integer and decimal readers and of the DER and BER
  reader (theories \<open>Mem\<close>, \<open>CBS\<close>, \<open>CBS_Decimal\<close>, \<open>CBS_ASN1\<close>), from the lemmas of \<open>DER\<close> and
  \<open>DER_Values\<close>.
\<close>

section \<open>DER and BER\<close>

text \<open>C5. A loop of \<open>CBS_get_any_asn1\<close> over a whole input succeeds exactly on the
  concatenations of DER encodings, and returns the elements that were encoded: the parser
  accepts every DER sequence, rejects every other byte string (all BER-only forms, non-minimal
  lengths and tags included), and never confuses two sequences.\<close>

theorem der_sequence_parse:
  "read_all CBS_get_any_asn1 c = Some xs \<longleftrightarrow>
   list_all valid_element xs \<and> c = concat (map (\<lambda>(body, t). der_element t body) xs)"
  by (rule der.read_all_iff)

text \<open>No DER encoding is a proper prefix of another one, the fact that the sorting of
  SET OF contents in \<open>cbb.c\<close> relies on.\<close>

theorem der_prefix_free:
  "valid_element (b1, t1) \<Longrightarrow> valid_element (b2, t2) \<Longrightarrow>
   prefix (der_element t1 b1) (der_element t2 b2) \<Longrightarrow> b1 = b2 \<and> t1 = t2"
  using der.prefix_free [of "(b1, t1)" "(b2, t2)"] by simp

theorem der_prefix_free_witness:
  "\<not> prefix (der_element 0x4 [7]) (der_element 0x4 [7, 8])"
  using der_prefix_free [of "[7]" "0x4" "[7, 8]" "0x4"] by (auto simp: valid_element_def valid_tag_def tag_consts)

text \<open>DER is BER without the leniencies: the DER reader succeeds exactly when the BER reader
  does and reports that nothing but DER was found.\<close>

theorem ber_extends_der:
  "CBS_get_any_asn1_element c = (Some e, c') \<longleftrightarrow>
   CBS_get_any_ber_asn1_element c = (Some e, c') \<and> \<not> ber_found e"
proof -
  have "ber_len False t lb n bf ind \<longleftrightarrow> ber_len True t lb n bf ind \<and> \<not> bf" for t lb n bf ind
    unfolding ber_len_def by blast
  then show ?thesis
    unfolding CBS_get_any_asn1_element_def CBS_get_any_ber_asn1_element_def get_element_iff element_at_def
    by blast
qed

section \<open>Values\<close>

text \<open>\<open>CBS_get_asn1_int64\<close> accepts exactly one encoding of each \<open>int64_t\<close>, the shortest
  two's complement one.\<close>

theorem int64_reader:
  "CBS_get_asn1_int64 c = (Some v, c') \<longleftrightarrow> c = der_element CBS_ASN1_INTEGER (der_int (sint v)) @ c'"
  by (rule get_int64_iff)

text \<open>\<open>CBS_get_asn1_uint64\<close> accepts exactly the shortest encoding of each \<open>uint64_t\<close>; no
  negative and no larger number is ever read as one.\<close>

theorem uint64_reader:
  "CBS_get_asn1_uint64 c = (Some v, c') \<longleftrightarrow> c = der_element CBS_ASN1_INTEGER (der_int (uint v)) @ c'"
  by (rule get_uint64_iff)

text \<open>The decimal reader takes the canonical decimal numeral of a 64-bit number: no leading
  zero, no overflow, and the numeral ends where a byte that is not a digit follows.\<close>

theorem decimal_reader:
  "CBS_get_u64_decimal c = (Some v, c') \<longleftrightarrow> c = decimal (unat v) @ c' \<and> no_digit c'"
  by (rule CBS_get_u64_decimal_iff)

text \<open>An absent optional INTEGER gives the default and consumes nothing; a present one is the
  explicit tag around one canonical INTEGER and nothing else.\<close>

theorem optional_uint64:
  "CBS_get_optional_asn1_uint64 c tag dflt = (Some v, c') \<longleftrightarrow>
    (if CBS_peek_asn1_tag c tag
     then c = der_element tag (der_element CBS_ASN1_INTEGER (der_int (uint v))) @ c'
     else v = dflt \<and> c' = c)"
proof -
  have "uint v < 128 * 256 ^ 8" using uint_bounded [of v] by simp
  moreover have "- (128 * 256 ^ 8) \<le> uint v" by (rule order_trans [of _ 0]) simp_all
  ultimately have "length (der_int (uint v)) \<le> Suc 8" by (intro length_der_int)
  then have "length (der_element CBS_ASN1_INTEGER (der_int (uint v))) < 2 ^ 32"
    using length_der_len(1) [of "length (der_int (uint v))"]
    by (simp add: der_element_def tag_bytes_def tag_consts)
  then show ?thesis by (simp add: get_optional_uint64_iff peek_iff)
qed

section \<open>Memory\<close>

text \<open>\<open>CRYPTO_memcmp\<close> returns zero exactly when the two areas are equal.\<close>

theorem memcmp_equal:
  assumes "n \<le> length a" "n \<le> length b"
  shows "CRYPTO_memcmp a b n = 0 \<longleftrightarrow> take n a = take n b"
  using assms by (simp add: CRYPTO_memcmp_def crypto_memcmp_loop_zero)

theorem memcmp_equal_witness: "CRYPTO_memcmp [1, 2, 3] [1, 2, 4] 2 = 0 \<and> CRYPTO_memcmp [1, 2, 3] [1, 2, 4] 3 \<noteq> 0"
  using memcmp_equal [of 2 "[1, 2, 3]" "[1, 2, 4]"] memcmp_equal [of 3 "[1, 2, 3]" "[1, 2, 4]"]
  by (simp add: numeral_2_eq_2 numeral_3_eq_3)

text \<open>\<open>OPENSSL_strlcpy\<close> writes at most \<open>dst_size\<close> bytes, always ends the copy with a NUL, copies
  as much of the source as fits and returns the length of the whole source.\<close>

theorem strlcpy_spec:
  assumes "0 \<notin> set s" "0 < n" "n \<le> length dst"
  shows "OPENSSL_strlcpy dst (s @ 0 # r) n =
    Some (take (n - 1) s @ 0 # drop (min (n - 1) (length s) + 1) dst, length s)"
  using assms
proof (induction s arbitrary: dst n)
  case Nil
  then show ?case by (cases dst) auto
next
  case (Cons a s)
  show ?case
  proof (cases "n = 1")
    case True
    with Cons.prems show ?thesis by (cases dst) (auto simp: strlen_append)
  next
    case False
    with Cons.prems obtain k d dst' where n: "n = Suc (Suc k)" and dst: "dst = d # dst'"
      by (cases n; cases "n - 1"; cases dst) auto
    have "OPENSSL_strlcpy dst' (s @ 0 # r) (Suc k) =
      Some (take k s @ 0 # drop (min k (length s) + 1) dst', length s)"
      using Cons.IH [of "Suc k" dst'] Cons.prems by (simp add: n dst)
    then show ?thesis using Cons.prems by (simp add: n dst)
  qed
qed

theorem strlcpy_spec_witness: "OPENSSL_strlcpy [9, 9, 9, 9] [65, 66, 67, 0] 3 = Some ([65, 66, 0, 9], 3)"
  using strlcpy_spec [of "[65, 66, 67]" 3 "[9, 9, 9, 9]" "[]"] by (simp add: numeral_3_eq_3)

end
