(* ===== verification/CBB.thy ===== *)
theory CBB
  imports DER_Values
begin

text \<open>
  \<open>crypto/bytestring/cbb.c\<close>, the byte-string builder. A top-level \<open>CBB\<close> owns a growing
  buffer; a child \<open>CBB\<close> writes to the same buffer behind a length prefix that is filled in
  when the parent is used again. Since every \<open>CBB\<close> has at most one child, the \<open>CBB\<close>s of one
  buffer form a chain: the state is the buffer and the list of the open children, outermost
  first, and a \<open>CBB *\<close> is its depth \<open>d\<close> in the chain (0 for the top-level one, \<open>cbb->child\<close> of
  \<open>d\<close> is the element at index \<open>d\<close>). A handle that is deeper than the chain stands for a child
  whose \<open>base\<close> has been reset to NULL. The C library's \<open>malloc\<close> is the parameter \<open>m\<close> of
  theory \<open>Mem\<close>, the buffer after \<open>len\<close> is arbitrary memory, and a NULL \<open>buf\<close> is the empty list.
\<close>

section \<open>State\<close>

record cbb_buffer =
  cb_buf :: bytes
  cb_len :: nat
  cb_cap :: nat
  cb_can_resize :: bool
  cb_error :: bool

record cbb_child =
  ch_offset :: nat
  ch_pending_len_len :: nat
  ch_pending_is_asn1 :: bool

record cbb =
  base :: cbb_buffer
  chain :: "cbb_child list"

type_synonym cbb_op = "cbb \<Rightarrow> bool \<times> cbb"

text \<open>C's \<open>f(cbb) && g(cbb)\<close> for calls that change the state.\<close>

definition and_then :: "cbb_op \<Rightarrow> cbb_op \<Rightarrow> cbb_op" where
  "and_then f g c = (case f c of (ok, c') \<Rightarrow> if ok then g c' else (False, c'))"

section \<open>The buffer\<close>

definition cbb_init :: "bytes \<Rightarrow> nat \<Rightarrow> bool \<Rightarrow> cbb" where
  "cbb_init buf cap can_resize =
     \<lparr>base = \<lparr>cb_buf = buf, cb_len = 0, cb_cap = cap, cb_can_resize = can_resize, cb_error = False\<rparr>,
      chain = []\<rparr>"

definition CBB_init :: "malloc \<Rightarrow> nat \<Rightarrow> cbb option" where
  "CBB_init m initial_capacity =
     (let buf = OPENSSL_malloc m initial_capacity
      in if initial_capacity > 0 \<and> buf = None then None
         else Some (cbb_init (case buf of None \<Rightarrow> [] | Some b \<Rightarrow> b) initial_capacity True))"

definition CBB_init_fixed :: "bytes \<Rightarrow> nat \<Rightarrow> cbb" where
  "CBB_init_fixed buf len = cbb_init buf len False"

definition cbb_buffer_reserve :: "malloc \<Rightarrow> cbb_buffer \<Rightarrow> nat \<Rightarrow> bool \<times> cbb_buffer" where
  "cbb_buffer_reserve m b len =
     (let newlen = size_add (cb_len b) len
      in if newlen < cb_len b then (False, b\<lparr>cb_error := True\<rparr>)
         else if newlen > cb_cap b then
           (if \<not> cb_can_resize b then (False, b\<lparr>cb_error := True\<rparr>)
            else
              (let newcap = (cb_cap b * 2) mod 2 ^ 64;
                   newcap = (if newcap < cb_cap b \<or> newcap < newlen then newlen else newcap)
               in case OPENSSL_realloc m (Some (cb_buf b)) newcap of
                    None \<Rightarrow> (False, b\<lparr>cb_error := True\<rparr>)
                  | Some newbuf \<Rightarrow> (True, b\<lparr>cb_buf := newbuf, cb_cap := newcap\<rparr>)))
         else (True, b))"

definition cbb_buffer_add :: "malloc \<Rightarrow> cbb_buffer \<Rightarrow> nat \<Rightarrow> bool \<times> cbb_buffer" where
  "cbb_buffer_add m b len =
     (case cbb_buffer_reserve m b len of
        (False, b) \<Rightarrow> (False, b)
      | (True, b) \<Rightarrow> (True, b\<lparr>cb_len := cb_len b + len\<rparr>))"

section \<open>Flushing\<close>

definition cbb_on_error :: "cbb \<Rightarrow> nat \<Rightarrow> cbb" where
  "cbb_on_error c d = \<lparr>base = (base c)\<lparr>cb_error := True\<rparr>, chain = take d (chain c)\<rparr>"

text \<open>The loop that writes \<open>len\<close> big-endian into the \<open>n\<close> prefix bytes; what is left of \<open>len\<close>.\<close>

fun write_len :: "bytes \<Rightarrow> nat \<Rightarrow> nat \<Rightarrow> nat \<Rightarrow> bytes \<times> nat" where
  "write_len buf off 0 len = (buf, len)"
| "write_len buf off (Suc i) len = write_len (buf[off + i := of_nat len]) off i (len div 256)"

text \<open>The ASN.1 length form: number of length octets, initial octet, what remains to be written.\<close>

definition asn1_length_form :: "nat \<Rightarrow> (nat \<times> u8 \<times> nat) option" where
  "asn1_length_form len =
     (if len > 0xfffffffe then None
      else if len > 0xffffff then Some (5, 0x84, len)
      else if len > 0xffff then Some (4, 0x83, len)
      else if len > 0xff then Some (3, 0x82, len)
      else if len > 0x7f then Some (2, 0x81, len)
      else Some (1, of_nat len, 0))"

text \<open>The part of \<open>CBB_flush\<close> after the recursive call, for the child at index \<open>d\<close>.\<close>

definition cbb_flush_child :: "malloc \<Rightarrow> cbb \<Rightarrow> nat \<Rightarrow> cbb_child \<Rightarrow> bool \<times> cbb" where
  "cbb_flush_child m c d child =
     (let child_start = size_add (ch_offset child) (ch_pending_len_len child); b = base c
      in if child_start < ch_offset child \<or> cb_len b < child_start then (False, cbb_on_error c d)
      else
     (let len = cb_len b - child_start;
          prep =
            (if ch_pending_is_asn1 child then
               (case asn1_length_form len of
                  None \<Rightarrow> (False, b, 0, 0, 0)
                | Some (len_len, initial_length_byte, len) \<Rightarrow>
                    (let extra_bytes = len_len - 1;
                         (ok, b) =
                           (if len_len \<noteq> 1 then
                              (case cbb_buffer_add m b extra_bytes of
                                 (False, b) \<Rightarrow> (False, b)
                               | (True, b) \<Rightarrow>
                                   (True, b\<lparr>cb_buf := write_at (child_start + extra_bytes)
                                       (take len (drop child_start (cb_buf b))) (cb_buf b)\<rparr>))
                            else (True, b))
                     in (ok, b\<lparr>cb_buf := (if ok then (cb_buf b)[ch_offset child := initial_length_byte]
                                         else cb_buf b)\<rparr>,
                         ch_offset child + 1, len_len - 1, len)))
             else (True, b, ch_offset child, ch_pending_len_len child, len))
      in case prep of
           (False, b, _) \<Rightarrow> (False, cbb_on_error (c\<lparr>base := b\<rparr>) d)
         | (True, b, offset, pending_len_len, len) \<Rightarrow>
             (let (buf, rest) = write_len (cb_buf b) offset pending_len_len len;
                  c = c\<lparr>base := b\<lparr>cb_buf := buf\<rparr>\<rparr>
              in if rest \<noteq> 0 then (False, cbb_on_error c d)
                 else (True, c\<lparr>chain := take d (chain c)\<rparr>))))"

function CBB_flush :: "malloc \<Rightarrow> cbb \<Rightarrow> nat \<Rightarrow> bool \<times> cbb" where
  "CBB_flush m c d =
     (if length (chain c) < d \<or> cb_error (base c) then (False, c)
      else if length (chain c) = d then (True, c)
      else (case CBB_flush m c (Suc d) of
              (False, c') \<Rightarrow> (False, cbb_on_error c' d)
            | (True, c') \<Rightarrow> cbb_flush_child m c' d (chain c ! d)))"
  by pat_completeness auto
termination
  by (relation "measure (\<lambda>(m, c, d). length (chain c) - d)") auto

declare CBB_flush.simps [simp del]

text \<open>\<open>CBB_data\<close> and \<open>CBB_len\<close> assert that there is no child: \<open>None\<close> when the assertion fails.\<close>

definition cbb_start :: "cbb \<Rightarrow> nat \<Rightarrow> nat" where
  "cbb_start c d =
     (if d = 0 then 0
      else ch_offset (chain c ! (d - 1)) + ch_pending_len_len (chain c ! (d - 1)))"

definition CBB_len :: "cbb \<Rightarrow> nat \<Rightarrow> nat option" where
  "CBB_len c d =
     (if length (chain c) \<noteq> d \<or> cb_len (base c) < cbb_start c d then None
      else Some (cb_len (base c) - cbb_start c d))"

definition CBB_data :: "cbb \<Rightarrow> nat \<Rightarrow> bytes option" where
  "CBB_data c d =
     (if length (chain c) \<noteq> d then None
      else Some (drop (cbb_start c d) (cb_buf (base c))))"

section \<open>Writing\<close>

definition cbb_add_child :: "malloc \<Rightarrow> nat \<Rightarrow> bool \<Rightarrow> nat \<Rightarrow> cbb_op" where
  "cbb_add_child m len_len is_asn1 d c =
     (let offset = cb_len (base c)
      in case cbb_buffer_add m (base c) len_len of
           (False, b) \<Rightarrow> (False, c\<lparr>base := b\<rparr>)
         | (True, b) \<Rightarrow>
             (True, c\<lparr>base := b\<lparr>cb_buf := write_at offset (replicate len_len 0) (cb_buf b)\<rparr>,
                      chain := take d (chain c) @
                        [\<lparr>ch_offset = offset, ch_pending_len_len = len_len,
                          ch_pending_is_asn1 = is_asn1\<rparr>]\<rparr>))"

definition cbb_add_length_prefixed :: "malloc \<Rightarrow> nat \<Rightarrow> nat \<Rightarrow> cbb_op" where
  "cbb_add_length_prefixed m len_len d c =
     (case CBB_flush m c d of
        (False, c) \<Rightarrow> (False, c) | (True, c) \<Rightarrow> cbb_add_child m len_len False d c)"

definition CBB_add_u8_length_prefixed :: "malloc \<Rightarrow> nat \<Rightarrow> cbb_op" where
  "CBB_add_u8_length_prefixed m = cbb_add_length_prefixed m 1"

definition CBB_add_u16_length_prefixed :: "malloc \<Rightarrow> nat \<Rightarrow> cbb_op" where
  "CBB_add_u16_length_prefixed m = cbb_add_length_prefixed m 2"

definition CBB_add_u24_length_prefixed :: "malloc \<Rightarrow> nat \<Rightarrow> cbb_op" where
  "CBB_add_u24_length_prefixed m = cbb_add_length_prefixed m 3"

text \<open>\<open>CBB_add_space\<close> and \<open>CBB_reserve\<close> return the offset of the space in the buffer.\<close>

definition CBB_add_space :: "malloc \<Rightarrow> nat \<Rightarrow> nat \<Rightarrow> cbb \<Rightarrow> nat option \<times> cbb" where
  "CBB_add_space m len d c =
     (case CBB_flush m c d of
        (False, c) \<Rightarrow> (None, c)
      | (True, c) \<Rightarrow>
          (case cbb_buffer_add m (base c) len of
             (False, b) \<Rightarrow> (None, c\<lparr>base := b\<rparr>)
           | (True, b) \<Rightarrow> (Some (cb_len (base c)), c\<lparr>base := b\<rparr>)))"

definition CBB_reserve :: "malloc \<Rightarrow> nat \<Rightarrow> nat \<Rightarrow> cbb \<Rightarrow> nat option \<times> cbb" where
  "CBB_reserve m len d c =
     (case CBB_flush m c d of
        (False, c) \<Rightarrow> (None, c)
      | (True, c) \<Rightarrow>
          (case cbb_buffer_reserve m (base c) len of
             (False, b) \<Rightarrow> (None, c\<lparr>base := b\<rparr>)
           | (True, b) \<Rightarrow> (Some (cb_len (base c)), c\<lparr>base := b\<rparr>)))"

definition CBB_did_write :: "nat \<Rightarrow> nat \<Rightarrow> cbb_op" where
  "CBB_did_write len d c =
     (let newlen = size_add (cb_len (base c)) len
      in if length (chain c) \<noteq> d \<or> newlen < cb_len (base c) \<or> newlen > cb_cap (base c) then (False, c)
         else (True, c\<lparr>base := (base c)\<lparr>cb_len := newlen\<rparr>\<rparr>))"

definition put_bytes :: "nat \<Rightarrow> bytes \<Rightarrow> cbb \<Rightarrow> cbb" where
  "put_bytes off data c = c\<lparr>base := (base c)\<lparr>cb_buf := write_at off data (cb_buf (base c))\<rparr>\<rparr>"

definition CBB_add_bytes :: "malloc \<Rightarrow> bytes \<Rightarrow> nat \<Rightarrow> cbb_op" where
  "CBB_add_bytes m data d c =
     (case CBB_add_space m (length data) d c of
        (None, c) \<Rightarrow> (False, c) | (Some out, c) \<Rightarrow> (True, put_bytes out data c))"

definition CBB_add_zeros :: "malloc \<Rightarrow> nat \<Rightarrow> nat \<Rightarrow> cbb_op" where
  "CBB_add_zeros m len d c =
     (case CBB_add_space m len d c of
        (None, c) \<Rightarrow> (False, c) | (Some out, c) \<Rightarrow> (True, put_bytes out (replicate len 0) c))"

definition cbb_add_u :: "malloc \<Rightarrow> u64 \<Rightarrow> nat \<Rightarrow> nat \<Rightarrow> cbb_op" where
  "cbb_add_u m v len_len d c =
     (case CBB_add_space m len_len d c of
        (None, c) \<Rightarrow> (False, c)
      | (Some out, c) \<Rightarrow>
          (let (buf, v) = write_len (cb_buf (base c)) out len_len (unat v);
               c = c\<lparr>base := (base c)\<lparr>cb_buf := buf\<rparr>\<rparr>
           in if v \<noteq> 0 then (False, cbb_on_error c d) else (True, c)))"

definition CBB_add_u8 :: "malloc \<Rightarrow> u8 \<Rightarrow> nat \<Rightarrow> cbb_op" where
  "CBB_add_u8 m v = cbb_add_u m (ucast v) 1"
definition CBB_add_u16 :: "malloc \<Rightarrow> u16 \<Rightarrow> nat \<Rightarrow> cbb_op" where
  "CBB_add_u16 m v = cbb_add_u m (ucast v) 2"
definition CBB_add_u16le :: "malloc \<Rightarrow> u16 \<Rightarrow> nat \<Rightarrow> cbb_op" where
  "CBB_add_u16le m v = CBB_add_u16 m (CRYPTO_bswap2 v)"
definition CBB_add_u24 :: "malloc \<Rightarrow> u32 \<Rightarrow> nat \<Rightarrow> cbb_op" where
  "CBB_add_u24 m v = cbb_add_u m (ucast v) 3"
definition CBB_add_u32 :: "malloc \<Rightarrow> u32 \<Rightarrow> nat \<Rightarrow> cbb_op" where
  "CBB_add_u32 m v = cbb_add_u m (ucast v) 4"
definition CBB_add_u32le :: "malloc \<Rightarrow> u32 \<Rightarrow> nat \<Rightarrow> cbb_op" where
  "CBB_add_u32le m v = CBB_add_u32 m (CRYPTO_bswap4 v)"
definition CBB_add_u64 :: "malloc \<Rightarrow> u64 \<Rightarrow> nat \<Rightarrow> cbb_op" where
  "CBB_add_u64 m v = cbb_add_u m v 8"
definition CBB_add_u64le :: "malloc \<Rightarrow> u64 \<Rightarrow> nat \<Rightarrow> cbb_op" where
  "CBB_add_u64le m v = CBB_add_u64 m (CRYPTO_bswap8 v)"

definition CBB_discard_child :: "nat \<Rightarrow> cbb \<Rightarrow> cbb" where
  "CBB_discard_child d c =
     (if length (chain c) \<le> d then c
      else \<lparr>base = (base c)\<lparr>cb_len := ch_offset (chain c ! d)\<rparr>, chain = take d (chain c)\<rparr>)"

text \<open>\<open>CBB_finish\<close>: the buffer and its length; afterwards the \<open>CBB\<close> owns no buffer.\<close>

definition CBB_finish :: "malloc \<Rightarrow> bool \<Rightarrow> nat \<Rightarrow> cbb \<Rightarrow> (bytes \<times> nat) option \<times> cbb" where
  "CBB_finish m out_given d c =
     (if d \<noteq> 0 then (None, c)
      else case CBB_flush m c d of
        (False, c) \<Rightarrow> (None, c)
      | (True, c) \<Rightarrow>
          (if cb_can_resize (base c) \<and> \<not> out_given then (None, c)
           else (Some (cb_buf (base c), cb_len (base c)), c\<lparr>base := (base c)\<lparr>cb_buf := []\<rparr>\<rparr>)))"

end
