(* ===== verification/CBB_Refine.thy ===== *)
theory CBB_Refine
  imports CBB
begin

text \<open>
  What the builder of theory \<open>CBB\<close> promises, and the proof that the pointer-and-offset code
  keeps the promise. Abstractly a builder is the contents of the top-level \<open>CBB\<close> and of every
  open child; closing a child appends its sealed contents (length prefix and body) to its
  parent. The concrete buffer holds the same contents one after another, with zeros in
  place of the prefixes that are still to come.
\<close>

section \<open>The abstract builder\<close>

datatype kind = Asn1 | Prefixed nat

text \<open>Contents of the top level, and the open children with the innermost first.\<close>

type_synonym builder = "bytes \<times> (kind \<times> bytes) list"

fun plen :: "kind \<Rightarrow> nat" where
  "plen Asn1 = 1"
| "plen (Prefixed n) = n"

fun put :: "bytes \<Rightarrow> builder \<Rightarrow> builder" where
  "put e (b, []) = (b @ e, [])"
| "put e (b, (k, c) # r) = (b, (k, c @ e) # r)"

fun seal :: "kind \<Rightarrow> bytes \<Rightarrow> bytes option" where
  "seal Asn1 c = (if length c \<le> 0xfffffffe then Some (der_len (length c) @ c) else None)"
| "seal (Prefixed n) c = (if length c < 256 ^ n then Some (be_bytes n (length c) @ c) else None)"

fun close1 :: "builder \<Rightarrow> builder option" where
  "close1 (b, []) = None"
| "close1 (b, (k, c) # r) = map_option (\<lambda>e. put e (b, r)) (seal k c)"

text \<open>Close the children below depth \<open>d\<close>.\<close>

fun close_from :: "nat \<Rightarrow> bytes \<Rightarrow> (kind \<times> bytes) list \<Rightarrow> builder option" where
  "close_from 0 b st = Some (b, st)"
| "close_from (Suc n) b st = (case close_from n b st of None \<Rightarrow> None | Some s \<Rightarrow> close1 s)"

definition bflush :: "nat \<Rightarrow> builder \<Rightarrow> builder option" where
  "bflush d s = (if length (snd s) < d then None else close_from (length (snd s) - d) (fst s) (snd s))"

definition push :: "kind \<Rightarrow> builder \<Rightarrow> builder" where
  "push k s = (fst s, (k, []) # snd s)"

fun bimage :: "builder \<Rightarrow> bytes" where
  "bimage (b, []) = b"
| "bimage (b, (k, c) # r) = bimage (b, r) @ replicate (plen k) 0 @ c"

fun chain_of :: "builder \<Rightarrow> cbb_child list" where
  "chain_of (b, []) = []"
| "chain_of (b, (k, c) # r) =
     chain_of (b, r) @ [\<lparr>ch_offset = length (bimage (b, r)), ch_pending_len_len = plen k,
       ch_pending_is_asn1 = (k = Asn1)\<rparr>]"

lemma image_put [simp]: "bimage (put e s) = bimage s @ e"
  by (cases "(e, s)" rule: put.cases) simp_all

lemma chain_of_put [simp]: "chain_of (put e s) = chain_of s"
  by (cases "(e, s)" rule: put.cases) simp_all

lemma snd_put [simp]: "length (snd (put e s)) = length (snd s)"
  by (cases "(e, s)" rule: put.cases) simp_all

lemma put_put [simp]: "put e2 (put e1 s) = put (e1 @ e2) s"
  by (cases "(e1, s)" rule: put.cases) simp_all

lemma put_Nil [simp]: "put [] s = s"
  by (cases "([] :: bytes, s)" rule: put.cases) simp_all

lemma length_chain_of [simp]: "length (chain_of s) = length (snd s)"
  by (induction s rule: chain_of.induct) simp_all

lemma length_seal: "seal k c = Some e \<Longrightarrow> plen k + length c \<le> length e"
  using length_der_len(2) [of "length c"] by (cases k) (auto split: if_splits simp: Suc_le_eq)

lemma close1_Some:
  "close1 s = Some s' \<Longrightarrow> length (snd s) = Suc (length (snd s')) \<and> length (bimage s) \<le> length (bimage s')"
  by (cases s rule: close1.cases) (auto dest: length_seal)

lemma close_from_Some:
  "close_from n b st = Some s' \<Longrightarrow> n \<le> length st \<Longrightarrow>
   length (snd s') = length st - n \<and> length (bimage (b, st)) \<le> length (bimage s')"
proof (induction n arbitrary: s')
  case (Suc n)
  then obtain s where s: "close_from n b st = Some s" "close1 s = Some s'"
    by (auto split: option.splits)
  from Suc.IH [OF s(1)] Suc.prems(2) close1_Some [OF s(2)] show ?case by auto
qed simp

lemma bflush_Some:
  assumes "bflush d s = Some s'"
  shows "length (snd s') = d" "length (bimage s) \<le> length (bimage s')" "d \<le> length (snd s)"
  using assms close_from_Some [of "length (snd s) - d" "fst s" "snd s" s']
  by (auto simp: bflush_def split: if_splits)

lemma close1_chain: "close1 s = Some s' \<Longrightarrow> chain_of s' = take (length (snd s')) (chain_of s)"
  by (cases s rule: close1.cases) auto

lemma close_from_chain:
  "close_from n b st = Some s' \<Longrightarrow> n \<le> length st \<Longrightarrow> chain_of s' = take (length st - n) (chain_of (b, st))"
proof (induction n arbitrary: s')
  case (Suc n)
  then obtain s where s: "close_from n b st = Some s" "close1 s = Some s'"
    by (auto split: option.splits)
  from close_from_Some [OF s(1)] close1_Some [OF s(2)] Suc.prems(2)
  have "length (snd s') = length st - Suc n" by auto
  with Suc.IH [OF s(1)] close1_chain [OF s(2)] Suc.prems(2) show ?case by simp
qed simp

lemma bflush_chain: "bflush d s = Some s' \<Longrightarrow> chain_of s' = take d (chain_of s)"
  using close_from_chain [of "length (snd s) - d" "fst s" "snd s" s']
  by (auto simp: bflush_def split: if_splits)

lemma bflush_same [simp]: "length (snd s) = d \<Longrightarrow> bflush d s = Some s"
  by (simp add: bflush_def)

lemma bflush_step:
  assumes "d < length (snd s)"
  shows "bflush d s = (case bflush (Suc d) s of None \<Rightarrow> None | Some s' \<Rightarrow> close1 s')"
proof -
  have "length (snd s) - d = Suc (length (snd s) - Suc d)" using assms by simp
  then show ?thesis using assms by (simp add: bflush_def)
qed

lemma bflush_put_same: "length (snd s) = d \<Longrightarrow> bflush d (put e s) = Some (put e s)"
  by simp

section \<open>Representation\<close>

definition wf_buffer :: "cbb_buffer \<Rightarrow> bool" where
  "wf_buffer b \<longleftrightarrow> length (cb_buf b) = cb_cap b \<and> cb_cap b < 2 ^ 64 \<and> cb_len b \<le> cb_cap b"

definition repr :: "cbb \<Rightarrow> builder \<Rightarrow> bool" where
  "repr c s \<longleftrightarrow> wf_buffer (base c) \<and> \<not> cb_error (base c) \<and>
     take (cb_len (base c)) (cb_buf (base c)) = bimage s \<and> chain c = chain_of s"

text \<open>The buffer can grow to \<open>K\<close> bytes, provided that \<open>malloc\<close> never fails.\<close>

definition malloc_total :: "malloc \<Rightarrow> bool" where
  "malloc_total m \<longleftrightarrow> (\<forall>n < 2 ^ 64. m n \<noteq> None)"

definition roomy :: "nat \<Rightarrow> cbb_buffer \<Rightarrow> bool" where
  "roomy K b \<longleftrightarrow> K \<le> cb_cap b \<or> cb_can_resize b \<and> cb_cap b \<le> 2 ^ 63 \<and> K \<le> 2 ^ 62"

text \<open>
  The result \<open>r\<close> of an operation on \<open>c\<close> refines the abstract result \<open>want\<close>: a success is an
  abstract success with the same contents, a failure locks the builder, and with enough
  memory an abstract success is a success.
\<close>

definition refines :: "malloc \<Rightarrow> cbb \<Rightarrow> bool \<times> cbb \<Rightarrow> builder option \<Rightarrow> bool" where
  "refines m c r want \<longleftrightarrow>
     (fst r \<longrightarrow> (\<exists>s'. want = Some s' \<and> repr (snd r) s')) \<and>
     (\<not> fst r \<longrightarrow> cb_error (base (snd r))) \<and>
     (\<forall>K s'. want = Some s' \<and> malloc_total m \<and> roomy K (base c) \<and> length (bimage s') \<le> K \<longrightarrow>
        fst r \<and> roomy K (base (snd r)))"

lemma repr_len: "repr c s \<Longrightarrow> cb_len (base c) = length (bimage s)"
proof -
  assume r: "repr c s"
  then have e: "bimage s = take (cb_len (base c)) (cb_buf (base c))" by (simp add: repr_def)
  have "cb_len (base c) \<le> length (cb_buf (base c))" using r by (simp add: repr_def wf_buffer_def)
  then show ?thesis unfolding e by simp
qed

lemma repr_buf: "repr c s \<Longrightarrow> cb_buf (base c) = bimage s @ drop (cb_len (base c)) (cb_buf (base c))"
proof -
  assume "repr c s"
  then have "take (cb_len (base c)) (cb_buf (base c)) = bimage s" by (simp add: repr_def)
  then show ?thesis using append_take_drop_id [of "cb_len (base c)" "cb_buf (base c)"] by simp
qed

lemma repr_chain: "repr c s \<Longrightarrow> length (chain c) = length (snd s)"
  by (simp add: repr_def)

lemma malloc_total_OPENSSL: "malloc_total m \<Longrightarrow> n < 2 ^ 64 - 8 \<Longrightarrow> OPENSSL_malloc m n \<noteq> None"
proof -
  assume a: "malloc_total m" "n < 2 ^ 64 - 8"
  then have "size_add n 8 = n + 8" by (intro size_add_small) simp
  moreover from a have "m (n + 8) \<noteq> None" by (simp add: malloc_total_def)
  ultimately show ?thesis by (auto simp: OPENSSL_malloc_def OPENSSL_MALLOC_PREFIX_def)
qed

section \<open>The buffer\<close>

lemma reserve_False: "cbb_buffer_reserve m b n = (False, b') \<Longrightarrow> b' = b\<lparr>cb_error := True\<rparr>"
  by (auto simp: cbb_buffer_reserve_def Let_def split: if_splits option.splits)

lemma reserve_True:
  assumes "malloc_ok m" "wf_buffer b" "n < 2 ^ 64" "cbb_buffer_reserve m b n = (True, b')"
  shows "wf_buffer b'" "cb_len b' = cb_len b" "take (cb_len b) (cb_buf b') = take (cb_len b) (cb_buf b)"
    "cb_len b + n \<le> cb_cap b'" "cb_error b' = cb_error b" "cb_can_resize b' = cb_can_resize b"
proof -
  define newlen where "newlen = size_add (cb_len b) n"
  have "\<not> newlen < cb_len b"
    using assms(4) by (auto simp: cbb_buffer_reserve_def newlen_def Let_def split: if_splits)
  then have nl: "newlen = cb_len b + n"
    using assms size_add_overflow_iff [of "cb_len b" n] by (auto simp: newlen_def wf_buffer_def size_add_small)
  have lt: "newlen < 2 ^ 64" by (simp add: newlen_def size_add_def)
  have *: "wf_buffer b' \<and> cb_len b' = cb_len b \<and> take (cb_len b) (cb_buf b') = take (cb_len b) (cb_buf b)
    \<and> cb_len b + n \<le> cb_cap b' \<and> cb_error b' = cb_error b \<and> cb_can_resize b' = cb_can_resize b"
  proof (cases "newlen > cb_cap b")
    case False
    with assms nl \<open>\<not> newlen < cb_len b\<close> show ?thesis
      by (auto simp: cbb_buffer_reserve_def Let_def newlen_def)
  next
    case True
    define newcap where "newcap = (let newcap = (cb_cap b * 2) mod 2 ^ 64
      in if newcap < cb_cap b \<or> newcap < newlen then newlen else newcap)"
    from assms(4) True \<open>\<not> newlen < cb_len b\<close> obtain nb
      where nb: "OPENSSL_realloc m (Some (cb_buf b)) newcap = Some nb" "b' = b\<lparr>cb_buf := nb, cb_cap := newcap\<rparr>"
      by (auto simp: cbb_buffer_reserve_def newlen_def newcap_def Let_def split: if_splits option.splits)
    have nc: "newcap < 2 ^ 64" "newlen \<le> newcap" using lt by (auto simp: newcap_def Let_def)
    from OPENSSL_realloc_prefix [OF assms(1) nc(1) nb(1)]
    have r: "length nb = newcap" "take (min (length (cb_buf b)) newcap) nb = take (min (length (cb_buf b)) newcap) (cb_buf b)"
      by auto
    define k where "k = min (length (cb_buf b)) newcap"
    have "cb_len b \<le> k" using nc nl assms(2) by (simp add: wf_buffer_def k_def)
    moreover have "take (cb_len b) (take k nb) = take (cb_len b) (take k (cb_buf b))"
      using r(2) by (simp only: k_def)
    ultimately have "take (cb_len b) nb = take (cb_len b) (cb_buf b)" by (simp add: min.absorb1)
    with nb nc nl r show ?thesis by (simp add: wf_buffer_def)
  qed
  from * show "wf_buffer b'" "cb_len b' = cb_len b" "take (cb_len b) (cb_buf b') = take (cb_len b) (cb_buf b)"
    "cb_len b + n \<le> cb_cap b'" "cb_error b' = cb_error b" "cb_can_resize b' = cb_can_resize b" by auto
qed

lemma reserve_total:
  assumes "malloc_total m" "roomy K b" "wf_buffer b" "cb_len b + n \<le> K"
  shows "\<exists>b'. cbb_buffer_reserve m b n = (True, b') \<and> roomy K b'"
proof (cases "cb_len b + n \<le> cb_cap b")
  case True
  then have "size_add (cb_len b) n = cb_len b + n" using assms(3) by (intro size_add_small) (auto simp: wf_buffer_def)
  with True assms(2) show ?thesis by (simp add: cbb_buffer_reserve_def)
next
  case False
  with assms have r: "cb_can_resize b" "cb_cap b \<le> 2 ^ 63" "K \<le> 2 ^ 62" by (auto simp: roomy_def)
  with assms False have cap: "cb_cap b < 2 ^ 62" by simp
  have sum: "size_add (cb_len b) n = cb_len b + n" using assms r by (intro size_add_small) simp
  define newcap where "newcap = (if cb_cap b * 2 < cb_len b + n then cb_len b + n else cb_cap b * 2)"
  have nc: "newcap \<le> 2 ^ 63" using cap assms r by (auto simp: newcap_def)
  then have "OPENSSL_malloc m newcap \<noteq> None" using assms(1) by (intro malloc_total_OPENSSL) simp_all
  then obtain nb where nb: "OPENSSL_realloc m (Some (cb_buf b)) newcap = Some nb"
    by (auto simp: OPENSSL_realloc_def Let_def split: option.splits)
  have "(cb_cap b * 2) mod 2 ^ 64 = cb_cap b * 2" using cap by simp
  with False r sum nb have "cbb_buffer_reserve m b n = (True, b\<lparr>cb_buf := nb, cb_cap := newcap\<rparr>)"
    by (simp add: cbb_buffer_reserve_def Let_def newcap_def)
  with nc r show ?thesis by (auto simp: roomy_def)
qed

lemma buffer_add_False: "cbb_buffer_add m b n = (False, b') \<Longrightarrow> b' = b\<lparr>cb_error := True\<rparr>"
  by (auto simp: cbb_buffer_add_def split: prod.splits bool.splits dest: reserve_False)

lemma buffer_add_True:
  assumes "malloc_ok m" "wf_buffer b" "n < 2 ^ 64" "cbb_buffer_add m b n = (True, b')"
  shows "wf_buffer b'" "cb_len b' = cb_len b + n" "take (cb_len b) (cb_buf b') = take (cb_len b) (cb_buf b)"
    "cb_error b' = cb_error b" "cb_can_resize b' = cb_can_resize b"
proof -
  from assms(4) obtain b1 where b1: "cbb_buffer_reserve m b n = (True, b1)" "b' = b1\<lparr>cb_len := cb_len b1 + n\<rparr>"
    by (auto simp: cbb_buffer_add_def split: prod.splits bool.splits)
  note r = reserve_True [OF assms(1-3) b1(1)]
  from b1(2) r show "wf_buffer b'" "cb_len b' = cb_len b + n"
    "take (cb_len b) (cb_buf b') = take (cb_len b) (cb_buf b)"
    "cb_error b' = cb_error b" "cb_can_resize b' = cb_can_resize b" by (auto simp: wf_buffer_def)
qed

lemma buffer_add_total:
  assumes "malloc_total m" "roomy K b" "wf_buffer b" "cb_len b + n \<le> K"
  shows "\<exists>b'. cbb_buffer_add m b n = (True, b') \<and> roomy K b'"
  using reserve_total [OF assms] by (auto simp: cbb_buffer_add_def roomy_def)

lemma write_len_eq:
  "off + n \<le> length buf \<Longrightarrow> write_len buf off n v = (write_at off (be_bytes n v) buf, v div 256 ^ n)"
proof (induction n arbitrary: buf v)
  case (Suc n)
  have x: "(of_nat (v mod 256) :: u8) = of_nat v" by (rule word_eqI_unat) (simp add: unat_of_nat)
  let ?b = "buf[off + n := of_nat v]"
  have "drop (off + n) ?b = of_nat v # drop (off + Suc n) buf"
    using Suc.prems by (simp add: drop_update_swap Cons_nth_drop_Suc [symmetric])
  then have "write_at off (be_bytes n (v div 256)) ?b = write_at off (be_bytes (Suc n) v) buf"
    using Suc.prems by (simp add: write_at_def x)
  with Suc show ?case by (simp add: div_mult2_eq mult.commute)
qed (simp add: write_at_def)

section \<open>Closing one child\<close>

lemma refines_error: "cb_error (base c') \<Longrightarrow> refines m c (False, c') None"
  by (simp add: refines_def)

lemma on_error [simp]: "cb_error (base (cbb_on_error c d))"
  by (simp add: cbb_on_error_def)

lemma length_form:
  "asn1_length_form n =
   (if n \<le> 0xfffffffe
    then Some (length (der_len n), hd (der_len n), if n < 128 then 0 else n) else None)"
  by (auto simp: asn1_length_form_def der_len_def not_less not_le)

lemma der_len_tl: "128 \<le> n \<Longrightarrow> n < 2 ^ 32 \<Longrightarrow> tl (der_len n) = be_bytes (length (der_len n) - 1) n
   \<and> n < 256 ^ (length (der_len n) - 1)"
  by (auto simp: der_len_def)

lemma length_der_len_1: "length (der_len n) = 1 \<longleftrightarrow> n < 128"
  by (auto simp: der_len_def)

text \<open>The buffer edits of \<open>CBB_flush\<close>, on a buffer that holds \<open>pre\<close>, the pending prefix and \<open>cont\<close>.\<close>

lemma fill_prefix:
  assumes "buf = pre @ px @ cont @ rest" "length px = n"
  shows "write_len buf (length pre) n v = (pre @ be_bytes n v @ cont @ rest, v div 256 ^ n)"
  using assms by (subst write_len_eq) (simp_all add: write_at_def)

lemma move_contents:
  assumes "buf = pre @ [x] @ cont @ rest" "k \<le> length rest" "length dl = k"
  shows "\<exists>px. length px = k \<and>
    (write_at (length pre + 1 + k) (take (length cont) (drop (length pre + 1) buf)) buf)[length pre := y]
      = (pre @ [y]) @ px @ cont @ drop k rest"
proof (intro exI conjI)
  show "length (take k (cont @ rest)) = k" using assms by simp
  have "drop (length pre + 1) buf = cont @ rest" using assms by simp
  then show "(write_at (length pre + 1 + k) (take (length cont) (drop (length pre + 1) buf)) buf)[length pre := y]
      = (pre @ [y]) @ take k (cont @ rest) @ cont @ drop k rest"
    using assms by (simp add: write_at_def list_update_append)
qed

lemma repr_split:
  assumes "repr c (b, (k, cont) # r)"
  shows "cb_buf (base c) = bimage (b, r) @ replicate (plen k) 0 @ cont @ drop (cb_len (base c)) (cb_buf (base c))"
    "cb_len (base c) = length (bimage (b, r)) + plen k + length cont"
  using repr_buf [OF assms] repr_len [OF assms] by simp_all

lemma repr_child:
  assumes "repr c (b, (k, cont) # r)"
  shows "chain c ! length r = \<lparr>ch_offset = length (bimage (b, r)), ch_pending_len_len = plen k,
      ch_pending_is_asn1 = (k = Asn1)\<rparr>"
    "take (length r) (chain c) = chain_of (b, r)"
  using assms by (simp_all add: repr_def nth_append)

lemma repr_child_start:
  assumes "repr c (b, (k, cont) # r)"
  shows "size_add (length (bimage (b, r))) (plen k) = length (bimage (b, r)) + plen k"
  using assms repr_split [OF assms] by (intro size_add_small) (simp add: repr_def wf_buffer_def)

lemma flush_child_prefixed:
  assumes "repr c (b, (Prefixed n, cont) # r)"
  shows "refines m c (cbb_flush_child m c (length r) (chain c ! length r)) (close1 (b, (Prefixed n, cont) # r))"
proof -
  note sp = repr_split [OF assms] repr_child [OF assms] repr_child_start [OF assms]
  define pre where "pre = bimage (b, r)"
  define rest where "rest = drop (cb_len (base c)) (cb_buf (base c))"
  have w: "write_len (cb_buf (base c)) (length pre) n (length cont)
      = (pre @ be_bytes n (length cont) @ cont @ rest, length cont div 256 ^ n)"
    using sp(1) by (intro fill_prefix [where px = "replicate n 0"]) (simp_all add: pre_def rest_def)
  have len: "cb_len (base c) = length pre + n + length cont" using sp(2) by (simp add: pre_def)
  define c' where "c' = c\<lparr>base := (base c)\<lparr>cb_buf := pre @ be_bytes n (length cont) @ cont @ rest\<rparr>\<rparr>"
  have f: "cbb_flush_child m c (length r) (chain c ! length r) =
      (if length cont div 256 ^ n \<noteq> 0 then (False, cbb_on_error c' (length r))
       else (True, c'\<lparr>chain := take (length r) (chain c')\<rparr>))"
    using sp w len by (simp add: cbb_flush_child_def Let_def c'_def pre_def [symmetric])
  show ?thesis
  proof (cases "length cont < 256 ^ n")
    case True
    have buf: "cb_buf (base c) = pre @ replicate n 0 @ cont @ rest"
      using sp(1) by (simp add: pre_def rest_def)
    have "length (cb_buf (base c)) = length (pre @ be_bytes n (length cont) @ cont @ rest)"
      unfolding buf by simp
    with assms sp(4) have "repr (c'\<lparr>chain := take (length r) (chain c')\<rparr>) (put (be_bytes n (length cont) @ cont) (b, r))"
      by (simp add: repr_def wf_buffer_def c'_def len flip: pre_def)
    with True f show ?thesis by (simp add: refines_def roomy_def c'_def)
  next
    case False
    then have "length cont div 256 ^ n \<noteq> 0" by (simp add: div_eq_0_iff)
    with False f show ?thesis by (simp add: refines_def)
  qed
qed

lemma flush_child_short:
  assumes "repr c (b, (Asn1, cont) # r)" "length cont < 128"
  shows "refines m c (cbb_flush_child m c (length r) (chain c ! length r)) (close1 (b, (Asn1, cont) # r))"
proof -
  note sp = repr_split [OF assms(1)] repr_child [OF assms(1)] repr_child_start [OF assms(1)]
  define pre where "pre = bimage (b, r)"
  define rest where "rest = drop (cb_len (base c)) (cb_buf (base c))"
  have buf: "cb_buf (base c) = pre @ [0] @ cont @ rest" using sp(1) by (simp add: pre_def rest_def)
  have len: "cb_len (base c) = length pre + 1 + length cont" using sp(2) by (simp add: pre_def)
  have dl: "der_len (length cont) = [of_nat (length cont)]" using assms(2) by (simp add: der_len_def)
  define c' where "c' = c\<lparr>base := (base c)\<lparr>cb_buf := pre @ der_len (length cont) @ cont @ rest\<rparr>,
     chain := take (length r) (chain c)\<rparr>"
  have f: "cbb_flush_child m c (length r) (chain c ! length r) = (True, c')"
    using sp len assms(2)
    by (simp add: cbb_flush_child_def Let_def c'_def buf pre_def [symmetric] asn1_length_form_def dl)
  have "repr c' (put (der_len (length cont) @ cont) (b, r))"
    using assms sp(4) by (simp add: repr_def wf_buffer_def c'_def len buf dl flip: pre_def)
  with f assms(2) show ?thesis by (simp add: refines_def roomy_def c'_def)
qed

lemma flush_child_long:
  assumes "repr c (b, (Asn1, cont) # r)" "128 \<le> length cont" "malloc_ok m"
  shows "refines m c (cbb_flush_child m c (length r) (chain c ! length r)) (close1 (b, (Asn1, cont) # r))"
proof (cases "length cont \<le> 0xfffffffe")
  case False
  note sp = repr_split [OF assms(1)] repr_child [OF assms(1)] repr_child_start [OF assms(1)]
  from False sp show ?thesis
    by (simp add: cbb_flush_child_def Let_def asn1_length_form_def refines_def)
next
  case True
  note sp = repr_split [OF assms(1)] repr_child [OF assms(1)] repr_child_start [OF assms(1)]
  define pre where "pre = bimage (b, r)"
  define rest where "rest = drop (cb_len (base c)) (cb_buf (base c))"
  define dl where "dl = der_len (length cont)"
  define k where "k = length dl - 1"
  have len: "cb_len (base c) = length pre + 1 + length cont" using sp(2) by (simp add: pre_def)
  have dl: "dl = hd dl # tl dl" "tl dl = be_bytes k (length cont)" "length cont < 256 ^ k" "k \<noteq> 0" "k < 2 ^ 64"
  proof -
    have "dl \<noteq> []" "length dl \<le> 5" "length dl \<noteq> 1"
      using length_der_len [of "length cont"] length_der_len_1 [of "length cont"] assms(2) by (auto simp: dl_def)
    then show "dl = hd dl # tl dl" "k \<noteq> 0" "k < 2 ^ 64" by (cases dl; cases "tl dl"; auto simp: k_def)+
    show "tl dl = be_bytes k (length cont)" "length cont < 256 ^ k"
      using der_len_tl [OF assms(2)] True by (simp_all add: dl_def k_def)
  qed
  have form: "asn1_length_form (length cont) = Some (Suc k, hd dl, length cont)"
    using True assms(2) dl(1) length_der_len(2) by (simp add: length_form dl_def k_def)
  have wf: "wf_buffer (base c)" using assms(1) by (simp add: repr_def)
  obtain ok b1 where add: "cbb_buffer_add m (base c) k = (ok, b1)" by force
  show ?thesis
  proof (cases ok)
    case False
    then have fl: "\<exists>c1. cbb_flush_child m c (length r) (chain c ! length r) = (False, cbb_on_error c1 (length r))"
      using sp len form add dl(4) by (simp add: cbb_flush_child_def Let_def pre_def [symmetric]) auto
    have "\<not> (malloc_total m \<and> roomy K (base c) \<and> cb_len (base c) + k \<le> K)" for K
      using buffer_add_total [of m K "base c" k] wf add False by auto
    moreover have "length (pre @ dl @ cont) = cb_len (base c) + k" using len dl(1) by (simp add: k_def) (metis Suc_pred add_Suc_right dl(1) length_greater_0_conv list.distinct(1))
    ultimately show ?thesis using fl True by (auto simp: refines_def pre_def dl_def)
  next
    case okT: True
    have addT: "cbb_buffer_add m (base c) k = (True, b1)" using add okT by simp
    note a = buffer_add_True [OF assms(3) wf dl(5) addT]
    define rest1 where "rest1 = drop (cb_len (base c)) (cb_buf b1)"
    have "cb_buf b1 = take (cb_len (base c)) (cb_buf b1) @ rest1" by (simp add: rest1_def)
    then have buf1: "cb_buf b1 = pre @ [0] @ cont @ rest1"
      using a(3) assms(1) by (simp add: repr_def pre_def)
    have r1: "k \<le> length rest1" using a(1,2) by (simp add: rest1_def wf_buffer_def) arith
    from move_contents [OF buf1 r1, of "tl dl" "hd dl"] dl(2) obtain px where px: "length px = k"
      "(write_at (length pre + 1 + k) (take (length cont) (drop (length pre + 1) (cb_buf b1))) (cb_buf b1))[length pre := hd dl]
        = (pre @ [hd dl]) @ px @ cont @ drop k rest1" by auto
    from fill_prefix [OF px(2,1), of "length cont"] dl(3)
    have w: "write_len ((write_at (length pre + 1 + k) (take (length cont) (drop (length pre + 1) (cb_buf b1)))
        (cb_buf b1))[length pre := hd dl]) (length pre + 1) k (length cont) = (pre @ dl @ cont @ drop k rest1, 0)"
      by (subst dl(1)) (simp add: dl(2))
    define c' where "c' = c\<lparr>base := b1\<lparr>cb_buf := pre @ dl @ cont @ drop k rest1\<rparr>,
      chain := take (length r) (chain c)\<rparr>"
    have f: "cbb_flush_child m c (length r) (chain c ! length r) = (True, c')"
      using sp len form add dl(4) w okT
      by (simp add: cbb_flush_child_def Let_def pre_def [symmetric] c'_def)
    have ldl: "length dl = Suc k" using dl(1) by (metis k_def diff_Suc_1 length_Cons)
    have "length (pre @ dl @ cont @ drop k rest1) = length (cb_buf b1)"
      unfolding buf1 using ldl r1 by simp
    then have "repr c' (put (dl @ cont) (b, r))"
      using assms(1) a sp(4) len ldl by (simp add: repr_def wf_buffer_def c'_def flip: pre_def)
    moreover have "roomy K b1" if "malloc_total m" "roomy K (base c)" "length (pre @ dl @ cont) \<le> K" for K
      using buffer_add_total [of m K "base c" k] wf add that okT len ldl by auto
    ultimately show ?thesis using f True
      by (auto simp: refines_def c'_def dl_def [symmetric] roomy_def simp flip: pre_def)
  qed
qed

lemma flush_child_refines:
  assumes "malloc_ok m" "repr c s" "length (snd s) = Suc d"
  shows "refines m c (cbb_flush_child m c d (chain c ! d)) (close1 s)"
proof -
  from assms(3) obtain b k cont r where s: "s = (b, (k, cont) # r)" "d = length r"
    by (cases s rule: close1.cases) auto
  show ?thesis
  proof (cases k)
    case (Prefixed n)
    with flush_child_prefixed assms(2) s show ?thesis by simp
  next
    case Asn1
    with flush_child_short flush_child_long assms s show ?thesis
      by (cases "length cont < 128") (simp_all add: not_less)
  qed
qed

section \<open>\<open>CBB_flush\<close>\<close>

lemma refines_trans:
  assumes "refines m c (ok, c1) w1"
    and "\<And>s1. ok \<Longrightarrow> w1 = Some s1 \<Longrightarrow> repr c1 s1 \<Longrightarrow> refines m c1 r (w2 s1)"
    and "\<And>s1 s2. w1 = Some s1 \<Longrightarrow> w2 s1 = Some s2 \<Longrightarrow> length (bimage s1) \<le> length (bimage s2)"
  shows "refines m c (if ok then r else (False, c1)) (case w1 of None \<Rightarrow> None | Some s1 \<Rightarrow> w2 s1)"
proof (cases ok)
  case True
  with assms(1) obtain s1 where s1: "w1 = Some s1" "repr c1 s1" by (auto simp: refines_def)
  with assms(2) True have r: "refines m c1 r (w2 s1)" by blast
  have "fst r \<and> roomy K (base (snd r))"
    if h: "w2 s1 = Some s2" "malloc_total m" "roomy K (base c)" "length (bimage s2) \<le> K" for K s2
  proof -
    have "length (bimage s1) \<le> K" using assms(3) [OF s1(1) h(1)] h(4) by simp
    with assms(1) s1 h have "roomy K (base c1)" by (simp add: refines_def)
    with r h show ?thesis by (simp add: refines_def)
  qed
  then have "\<forall>K s2. w2 s1 = Some s2 \<and> malloc_total m \<and> roomy K (base c) \<and> length (bimage s2) \<le> K
    \<longrightarrow> fst r \<and> roomy K (base (snd r))" by blast
  with r s1(1) True show ?thesis by (simp only: refines_def option.case if_True) blast
next
  case False
  then have "\<exists>s1. w1 = Some s1 \<and> length (bimage s1) \<le> length (bimage s2)"
    if "(case w1 of None \<Rightarrow> None | Some s1 \<Rightarrow> w2 s1) = Some s2" for s2
    using that assms(3) [of _ s2] by (cases w1) (simp_all del: split_paired_Ex split_paired_All)
  with assms(1) False show ?thesis by (fastforce simp: refines_def dest: order_trans)
qed

lemma refines_failure:
  assumes "refines m c (False, c1) w" "cb_error (base c2)"
  shows "refines m c (False, c2) w"
  using assms by (simp add: refines_def)

lemma flush_refines:
  assumes "malloc_ok m" "repr c s" "d \<le> length (snd s)"
  shows "refines m c (CBB_flush m c d) (bflush d s)"
  using assms(3)
proof (induction "length (snd s) - d" arbitrary: d)
  case 0
  then have "d = length (snd s)" by simp
  then show ?case using assms(2) by (subst CBB_flush.simps) (auto simp: refines_def repr_def)
next
  case (Suc n)
  then have d: "d < length (snd s)" by simp
  obtain ok c1 where c1: "CBB_flush m c (Suc d) = (ok, c1)" by force
  have IH: "refines m c (ok, c1) (bflush (Suc d) s)"
    using Suc.hyps(1) [of "Suc d"] Suc.hyps(2) d c1 by simp
  have f: "CBB_flush m c d = (if ok then cbb_flush_child m c1 d (chain c ! d) else (False, cbb_on_error c1 d))"
    using d assms(2) c1 by (subst CBB_flush.simps) (auto simp: repr_def)
  show ?case
  proof (cases ok)
    case True
    have "refines m c (if ok then cbb_flush_child m c1 d (chain c ! d) else (False, c1))
      (case bflush (Suc d) s of None \<Rightarrow> None | Some s1 \<Rightarrow> close1 s1)"
    proof (rule refines_trans [OF IH])
      fix s1 assume s1: "bflush (Suc d) s = Some s1" "repr c1 s1"
      have "chain c1 ! d = chain c ! d"
        using bflush_chain [OF s1(1)] s1(2) assms(2) by (simp add: repr_def)
      with flush_child_refines [OF assms(1) s1(2)] bflush_Some(1) [OF s1(1)]
      show "refines m c1 (cbb_flush_child m c1 d (chain c ! d)) (close1 s1)" by simp
    qed (auto dest: close1_Some)
    with f True bflush_step [OF d] show ?thesis by simp
  next
    case False
    have "refines m c (if ok then (True, c) else (False, c1))
      (case bflush (Suc d) s of None \<Rightarrow> None | Some s1 \<Rightarrow> close1 s1)"
      using False by (intro refines_trans [OF IH]) (auto dest: close1_Some)
    with f False bflush_step [OF d] show ?thesis by (auto intro: refines_failure)
  qed
qed

end
