(* ===== verification/CBB_Write.thy ===== *)
theory CBB_Write
  imports CBB_Refine
begin

text \<open>
  The writing operations of \<open>cbb.c\<close> as implementations of one contract: \<open>cbb_writer\<close> says
  that an operation appends the encoding of its argument to the \<open>CBB\<close> it is called on, after
  flushing that \<open>CBB\<close>. Clients of the contract are the loop that writes a list of values and
  the \<open>codec\<close> locale, which puts a writer and a reader of the same format together.
\<close>

section \<open>The contract of a writer\<close>

fun add_all :: "('v \<Rightarrow> cbb_op) \<Rightarrow> 'v list \<Rightarrow> cbb_op" where
  "add_all op [] c = (True, c)"
| "add_all op (v # vs) c = and_then (op v) (add_all op vs) c"

lemma and_then_refines:
  assumes "refines m c (f c) (Some s1)"
    and "\<And>c1. repr c1 s1 \<Longrightarrow> refines m c1 (g c1) w2"
    and "\<And>s2. w2 = Some s2 \<Longrightarrow> length (bimage s1) \<le> length (bimage s2)"
  shows "refines m c (and_then f g c) w2"
proof -
  obtain ok c1 where f: "f c = (ok, c1)" by force
  have "refines m c (if ok then g c1 else (False, c1)) (case Some s1 of None \<Rightarrow> None | Some s1 \<Rightarrow> w2)"
    using assms f by (intro refines_trans) auto
  then show ?thesis by (simp add: and_then_def f)
qed

lemma refines_same: "repr c s \<Longrightarrow> refines m c (True, c) (Some s)"
  by (simp add: refines_def)

locale cbb_writer =
  fixes op :: "malloc \<Rightarrow> 'v \<Rightarrow> nat \<Rightarrow> cbb_op"
    and enc :: "'v \<Rightarrow> bytes"
    and valid :: "'v \<Rightarrow> bool"
  assumes op_refines:
    "malloc_ok m \<Longrightarrow> valid v \<Longrightarrow> repr c s \<Longrightarrow> d \<le> length (snd s) \<Longrightarrow>
     refines m c (op m v d c) (map_option (put (enc v)) (bflush d s))"
begin

lemma op_here:
  "malloc_ok m \<Longrightarrow> valid v \<Longrightarrow> repr c s \<Longrightarrow> length (snd s) = d \<Longrightarrow>
   refines m c (op m v d c) (Some (put (enc v) s))"
  using op_refines [of m v c s d] by simp

lemma add_all_refines:
  assumes "malloc_ok m"
  shows "list_all valid vs \<Longrightarrow> repr c s \<Longrightarrow> length (snd s) = d \<Longrightarrow>
    refines m c (add_all (\<lambda>v. op m v d) vs c) (Some (put (concat (map enc vs)) s))"
proof (induction vs arbitrary: c s)
  case Nil
  then show ?case by (simp add: refines_same)
next
  case (Cons v vs)
  show ?case unfolding add_all.simps
  proof (rule and_then_refines [where ?s1.0 = "put (enc v) s"])
    show "refines m c (op m v d c) (Some (put (enc v) s))" using Cons.prems assms by (intro op_here) auto
    show "refines m c1 (add_all (\<lambda>v. op m v d) vs c1) (Some (put (concat (map enc (v # vs))) s))"
      if "repr c1 (put (enc v) s)" for c1
      using Cons.IH [OF _ that] Cons.prems by simp
  qed auto
qed

end

lemma add_all_append: "add_all op (vs @ ws) c = and_then (add_all op vs) (add_all op ws) c"
  by (induction vs arbitrary: c) (auto simp: and_then_def split: prod.splits)

context cbb_writer
begin

text \<open>The first operation flushes, the others find nothing to flush.\<close>

lemma add_all_flush:
  assumes "malloc_ok m" "vs \<noteq> []" "list_all valid vs" "repr c s" "d \<le> length (snd s)"
  shows "refines m c (add_all (\<lambda>v. op m v d) vs c) (map_option (put (concat (map enc vs))) (bflush d s))"
proof -
  obtain v ws where vs: "vs = v # ws" using assms(2) by (cases vs) auto
  obtain ok c1 where f: "op m v d c = (ok, c1)" by force
  have r: "refines m c (ok, c1) (map_option (put (enc v)) (bflush d s))"
    using op_refines [OF assms(1) _ assms(4,5), of v] assms(3) f by (simp add: vs)
  let ?w2 = "\<lambda>s1. Some (put (concat (map enc ws)) s1)"
  have "refines m c (if ok then add_all (\<lambda>v. op m v d) ws c1 else (False, c1))
    (case map_option (put (enc v)) (bflush d s) of None \<Rightarrow> None | Some s1 \<Rightarrow> ?w2 s1)"
  proof (rule refines_trans [OF r])
    fix s1 assume s1: "map_option (put (enc v)) (bflush d s) = Some s1" "repr c1 s1"
    then obtain s0 where "bflush d s = Some s0" and s1': "s1 = put (enc v) s0"
      by (cases "bflush d s") simp_all
    from bflush_Some(1) [OF this(1)] have "length (snd s1) = d" by (simp add: s1')
    with s1 assms show "refines m c1 (add_all (\<lambda>v. op m v d) ws c1) (?w2 s1)"
      by (intro add_all_refines) (simp_all add: vs)
  next
    fix s1 s2 assume "?w2 s1 = Some s2"
    then have "s2 = put (concat (map enc ws)) s1" by simp
    then show "length (bimage s1) \<le> length (bimage s2)" by simp
  qed
  moreover have "(case map_option (put (enc v)) (bflush d s) of None \<Rightarrow> None | Some s1 \<Rightarrow> ?w2 s1)
     = map_option (put (concat (map enc vs))) (bflush d s)" by (cases "bflush d s") (simp_all add: vs)
  ultimately show ?thesis by (simp add: vs and_then_def f)
qed

end

section \<open>Space and bytes\<close>

text \<open>\<open>cbb_buffer_add\<close> followed by a write of the new bytes.\<close>

definition buffer_write :: "malloc \<Rightarrow> bytes \<Rightarrow> cbb_op" where
  "buffer_write m data c =
     (case cbb_buffer_add m (base c) (length data) of
        (False, b) \<Rightarrow> (False, c\<lparr>base := b\<rparr>)
      | (True, b) \<Rightarrow> (True, put_bytes (cb_len (base c)) data (c\<lparr>base := b\<rparr>)))"

lemma buffer_write_refines:
  assumes "malloc_ok m" "repr c s" "length data < 2 ^ 64"
  shows "refines m c (buffer_write m data c) (Some (put data s))"
proof -
  have wf: "wf_buffer (base c)" using assms(2) by (simp add: repr_def)
  obtain ok b where add: "cbb_buffer_add m (base c) (length data) = (ok, b)" by force
  have tot: "ok \<and> roomy K b" if "malloc_total m" "roomy K (base c)" "length (bimage s @ data) \<le> K" for K
    using buffer_add_total [of m K "base c" "length data"] that wf add repr_len [OF assms(2)] by auto
  show ?thesis
  proof (cases ok)
    case True
    have addT: "cbb_buffer_add m (base c) (length data) = (True, b)" using add True by simp
    note a = buffer_add_True [OF assms(1) wf assms(3) addT]
    let ?c = "put_bytes (cb_len (base c)) data (c\<lparr>base := b\<rparr>)"
    have r: "buffer_write m data c = (True, ?c)" by (simp add: buffer_write_def addT)
    have fit: "cb_len (base c) + length data \<le> length (cb_buf b)" using a(1,2) by (simp add: wf_buffer_def)
    have "repr ?c (put data s)"
      using assms(2) a fit take_write_at [OF fit]
      by (simp add: repr_def put_bytes_def wf_buffer_def)
    with r tot show ?thesis by (auto simp: refines_def put_bytes_def roomy_def)
  next
    case False
    then have "buffer_write m data c = (False, c\<lparr>base := b\<rparr>)" by (simp add: buffer_write_def add)
    moreover have "cb_error b" using buffer_add_False [of m "base c" "length data" b] add False by simp
    ultimately show ?thesis using tot False by (auto simp: refines_def)
  qed
qed

lemma space_refines:
  assumes "malloc_ok m" "repr c s" "d \<le> length (snd s)" "length data < 2 ^ 64"
  shows "refines m c
    (case CBB_add_space m (length data) d c of
       (None, c) \<Rightarrow> (False, c) | (Some out, c) \<Rightarrow> (True, put_bytes out data c))
    (map_option (put data) (bflush d s))"
proof -
  obtain ok c1 where f: "CBB_flush m c d = (ok, c1)" by force
  have fl: "refines m c (ok, c1) (bflush d s)" using flush_refines [OF assms(1-3)] f by simp
  have "refines m c (if ok then buffer_write m data c1 else (False, c1))
    (case bflush d s of None \<Rightarrow> None | Some s1 \<Rightarrow> Some (put data s1))"
  proof (rule refines_trans [OF fl])
    show "length (bimage s1) \<le> length (bimage s2)" if "Some (put data s1) = Some s2" for s1 s2
    proof -
      have "s2 = put data s1" using that by simp
      then show ?thesis by simp
    qed
  qed (rule buffer_write_refines [OF assms(1) _ assms(4)])
  moreover have "(case bflush d s of None \<Rightarrow> None | Some s1 \<Rightarrow> Some (put data s1)) = map_option (put data) (bflush d s)"
    by (simp add: map_option_case)
  moreover have "(case CBB_add_space m (length data) d c of
       (None, c) \<Rightarrow> (False, c) | (Some out, c) \<Rightarrow> (True, put_bytes out data c))
     = (if ok then buffer_write m data c1 else (False, c1))"
    by (auto simp: CBB_add_space_def f buffer_write_def split: prod.splits bool.splits)
  ultimately show ?thesis by simp
qed

interpretation add_bytes: cbb_writer CBB_add_bytes id "\<lambda>data. length data < 2 ^ 64"
  by unfold_locales (simp add: CBB_add_bytes_def [abs_def] space_refines)

interpretation add_zeros: cbb_writer CBB_add_zeros "\<lambda>n. replicate n 0" "\<lambda>n. n < 2 ^ 64"
proof
  fix m :: malloc and n :: nat and c s d
  assume "malloc_ok m" "n < 2 ^ 64" "repr c s" "d \<le> length (snd s)"
  then show "refines m c (CBB_add_zeros m n d c) (map_option (put (replicate n 0)) (bflush d s))"
    using space_refines [of m c s d "replicate n 0"] by (simp add: CBB_add_zeros_def)
qed

section \<open>Integers\<close>

lemma add_u_refines:
  assumes "malloc_ok m" "repr c s" "d \<le> length (snd s)" "n \<le> 8" "unat v < 256 ^ n"
  shows "refines m c (cbb_add_u m v n d c) (map_option (put (be_bytes n (unat v))) (bflush d s))"
proof -
  let ?data = "be_bytes n (unat v)"
  obtain r c1 where sp: "CBB_add_space m n d c = (r, c1)" by force
  have "cbb_add_u m v n d c = (case CBB_add_space m (length ?data) d c of
       (None, c) \<Rightarrow> (False, c) | (Some out, c) \<Rightarrow> (True, put_bytes out ?data c))"
  proof (cases r)
    case (Some out)
    then obtain c0 b where c0: "CBB_flush m c d = (True, c0)" "cbb_buffer_add m (base c0) n = (True, b)"
      "out = cb_len (base c0)" "c1 = c0\<lparr>base := b\<rparr>"
      using sp by (auto simp: CBB_add_space_def split: prod.splits bool.splits)
    have "\<exists>s1. repr c0 s1" using flush_refines [OF assms(1-3)] c0(1) by (auto simp: refines_def)
    then have "wf_buffer (base c0)" by (auto simp: repr_def)
    from buffer_add_True [OF assms(1) this _ c0(2)] assms(4) have "out + n \<le> length (cb_buf b)"
      by (simp add: wf_buffer_def c0(3))
    with c0 sp Some assms(5) show ?thesis
      by (simp add: cbb_add_u_def write_len_eq put_bytes_def)
  qed (simp add: cbb_add_u_def sp)
  then show ?thesis using space_refines [OF assms(1-3), of ?data] assms(4) by simp
qed

lemma cbb_add_u_overflow:
  assumes "malloc_ok m" "repr c s" "d \<le> length (snd s)" "n \<le> 8" "256 ^ n \<le> unat v"
  shows "\<not> fst (cbb_add_u m v n d c) \<and> cb_error (base (snd (cbb_add_u m v n d c)))"
proof -
  obtain ok c0 where f: "CBB_flush m c d = (ok, c0)" by force
  have fl: "refines m c (ok, c0) (bflush d s)" using flush_refines [OF assms(1-3)] f by simp
  show ?thesis
  proof (cases ok)
    case False
    with f fl show ?thesis by (simp add: cbb_add_u_def CBB_add_space_def refines_def)
  next
    case True
    then obtain s1 where "repr c0 s1" using fl by (auto simp: refines_def)
    then have wf: "wf_buffer (base c0)" by (simp add: repr_def)
    obtain ok1 b where add: "cbb_buffer_add m (base c0) n = (ok1, b)" by force
    show ?thesis
    proof (cases ok1)
      case False
      with buffer_add_False [of m "base c0" n b] f True add show ?thesis
        by (simp add: cbb_add_u_def CBB_add_space_def)
    next
      case ok1: True
      with add have addT: "cbb_buffer_add m (base c0) n = (True, b)" by simp
      from buffer_add_True [OF assms(1) wf _ addT] assms(4)
      have "cb_len (base c0) + n \<le> length (cb_buf b)" by (simp add: wf_buffer_def)
      moreover have "unat v div 256 ^ n \<noteq> 0" using assms(5) by (simp add: div_eq_0_iff)
      ultimately show ?thesis using f True addT
        by (simp add: cbb_add_u_def CBB_add_space_def write_len_eq)
    qed
  qed
qed

interpretation add_u8: cbb_writer CBB_add_u8 "\<lambda>v. [v]" "\<lambda>_. True"
proof
  fix m :: malloc and v :: u8 and c s d
  assume "malloc_ok m" "repr c s" "d \<le> length (snd s)"
  then show "refines m c (CBB_add_u8 m v d c) (map_option (put [v]) (bflush d s))"
    using add_u_refines [of m c s d 1 "ucast v"] by (simp add: CBB_add_u8_def)
qed

interpretation add_u16: cbb_writer CBB_add_u16 "\<lambda>v. be_bytes 2 (unat v)" "\<lambda>_. True"
proof
  fix m :: malloc and v :: u16 and c s d
  assume "malloc_ok m" "repr c s" "d \<le> length (snd s)"
  then show "refines m c (CBB_add_u16 m v d c) (map_option (put (be_bytes 2 (unat v))) (bflush d s))"
    using add_u_refines [of m c s d 2 "ucast v"] by (simp add: CBB_add_u16_def del: be_bytes.simps)
qed

interpretation add_u24: cbb_writer CBB_add_u24 "\<lambda>v. be_bytes 3 (unat v)" "\<lambda>v. unat v < 2 ^ 24"
proof
  fix m :: malloc and v :: u32 and c s d
  assume "malloc_ok m" "unat v < 2 ^ 24" "repr c s" "d \<le> length (snd s)"
  then show "refines m c (CBB_add_u24 m v d c) (map_option (put (be_bytes 3 (unat v))) (bflush d s))"
    using add_u_refines [of m c s d 3 "ucast v"] by (simp add: CBB_add_u24_def del: be_bytes.simps)
qed

interpretation add_u32: cbb_writer CBB_add_u32 "\<lambda>v. be_bytes 4 (unat v)" "\<lambda>_. True"
proof
  fix m :: malloc and v :: u32 and c s d
  assume "malloc_ok m" "repr c s" "d \<le> length (snd s)"
  then show "refines m c (CBB_add_u32 m v d c) (map_option (put (be_bytes 4 (unat v))) (bflush d s))"
    using add_u_refines [of m c s d 4 "ucast v"] by (simp add: CBB_add_u32_def del: be_bytes.simps)
qed

interpretation add_u64: cbb_writer CBB_add_u64 "\<lambda>v. be_bytes 8 (unat v)" "\<lambda>_. True"
proof
  fix m :: malloc and v :: u64 and c s d
  assume "malloc_ok m" "repr c s" "d \<le> length (snd s)"
  then show "refines m c (CBB_add_u64 m v d c) (map_option (put (be_bytes 8 (unat v))) (bflush d s))"
    using add_u_refines [of m c s d 8 v] by (simp add: CBB_add_u64_def del: be_bytes.simps)
qed

section \<open>Children\<close>

lemma bimage_push [simp]: "bimage (push k s) = bimage s @ replicate (plen k) 0"
  by (simp add: push_def)

lemma length_push [simp]: "length (snd (push k s)) = Suc (length (snd s))"
  by (simp add: push_def)

lemma chain_of_push:
  "chain_of (push k s) = chain_of s @
     [\<lparr>ch_offset = length (bimage s), ch_pending_len_len = plen k, ch_pending_is_asn1 = (k = Asn1)\<rparr>]"
  by (simp add: push_def)

lemma put_push: "put e (push k s) = (fst s, (k, e) # snd s)"
  by (simp add: push_def)

lemma bflush_push:
  assumes "length (snd s) = d"
  shows "bflush d (put e (push k s)) = map_option (\<lambda>x. put x s) (seal k e)"
proof -
  have "bflush d (put e (push k s)) = close1 (put e (push k s))"
    using assms by (subst bflush_step) simp_all
  then show ?thesis by (simp add: put_push)
qed

lemma add_child_refines:
  assumes "malloc_ok m" "repr c s" "length (snd s) = d" "plen k < 2 ^ 64"
  shows "refines m c (cbb_add_child m (plen k) (k = Asn1) d c) (Some (push k s))"
proof -
  obtain ok c1 where w: "buffer_write m (replicate (plen k) 0) c = (ok, c1)" by force
  have r: "refines m c (ok, c1) (Some (put (replicate (plen k) 0) s))"
    using buffer_write_refines [OF assms(1,2), of "replicate (plen k) 0"] w assms(4) by simp
  let ?ch = "\<lparr>ch_offset = cb_len (base c), ch_pending_len_len = plen k, ch_pending_is_asn1 = (k = Asn1)\<rparr>"
  have e: "cbb_add_child m (plen k) (k = Asn1) d c = (ok, if ok then c1\<lparr>chain := take d (chain c) @ [?ch]\<rparr> else c1)"
    using w by (auto simp: cbb_add_child_def buffer_write_def put_bytes_def split: prod.splits bool.splits)
  have "take d (chain c) = chain_of s" using assms(2,3) by (simp add: repr_def)
  with r repr_len [OF assms(2)] show ?thesis
    by (auto simp: refines_def e repr_def chain_of_push)
qed

lemma add_length_prefixed_refines:
  assumes "malloc_ok m" "repr c s" "d \<le> length (snd s)" "n < 2 ^ 64"
  shows "refines m c (cbb_add_length_prefixed m n d c) (map_option (push (Prefixed n)) (bflush d s))"
proof -
  obtain ok c1 where f: "CBB_flush m c d = (ok, c1)" by force
  have fl: "refines m c (ok, c1) (bflush d s)" using flush_refines [OF assms(1-3)] f by simp
  have "refines m c (if ok then cbb_add_child m n False d c1 else (False, c1))
    (case bflush d s of None \<Rightarrow> None | Some s1 \<Rightarrow> Some (push (Prefixed n) s1))"
  proof (rule refines_trans [OF fl])
    show "length (bimage s1) \<le> length (bimage s2)" if "Some (push (Prefixed n) s1) = Some s2" for s1 s2
    proof -
      have "s2 = push (Prefixed n) s1" using that by simp
      then show ?thesis by simp
    qed
    show "refines m c1 (cbb_add_child m n False d c1) (Some (push (Prefixed n) s1))"
      if "bflush d s = Some s1" "repr c1 s1" for s1
      using add_child_refines [OF assms(1) that(2), of d "Prefixed n"] bflush_Some(1) [OF that(1)] assms(4) by simp
  qed
  moreover have "cbb_add_length_prefixed m n d c = (if ok then cbb_add_child m n False d c1 else (False, c1))"
    by (simp add: cbb_add_length_prefixed_def f)
  ultimately show ?thesis by (simp add: map_option_case)
qed

section \<open>The life of a builder\<close>

lemma init_repr:
  assumes "malloc_ok m" "cap < 2 ^ 64" "CBB_init m cap = Some c"
  shows "repr c ([], [])" "cap \<le> 2 ^ 63 \<Longrightarrow> K \<le> 2 ^ 62 \<Longrightarrow> roomy K (base c)"
proof -
  define buf where "buf = (case OPENSSL_malloc m cap of None \<Rightarrow> [] | Some b \<Rightarrow> b)"
  have c: "c = cbb_init buf cap True" "length buf = cap"
    using assms by (auto simp: CBB_init_def Let_def buf_def split: option.splits if_splits dest: OPENSSL_malloc_length)
  then show "repr c ([], [])" "cap \<le> 2 ^ 63 \<Longrightarrow> K \<le> 2 ^ 62 \<Longrightarrow> roomy K (base c)"
    using assms(2) by (simp_all add: cbb_init_def repr_def wf_buffer_def roomy_def)
qed

lemma init_total: "malloc_total m \<Longrightarrow> cap \<le> 2 ^ 62 \<Longrightarrow> CBB_init m cap \<noteq> None"
  using malloc_total_OPENSSL [of m cap] by (auto simp: CBB_init_def Let_def)

lemma init_fixed_repr:
  "length buf < 2 ^ 64 \<Longrightarrow> repr (CBB_init_fixed buf (length buf)) ([], [])"
  "K \<le> length buf \<Longrightarrow> roomy K (base (CBB_init_fixed buf (length buf)))"
  by (simp_all add: CBB_init_fixed_def cbb_init_def repr_def wf_buffer_def roomy_def)

lemma finish_Some:
  assumes "malloc_ok m" "repr c s" "CBB_finish m g 0 c = (Some (buf, n), c')"
  shows "\<exists>b. bflush 0 s = Some (b, []) \<and> take n buf = b"
proof -
  from assms(3) obtain c1 where f: "CBB_flush m c 0 = (True, c1)" "buf = cb_buf (base c1)" "n = cb_len (base c1)"
    by (auto simp: CBB_finish_def split: prod.splits bool.splits if_splits)
  with flush_refines [OF assms(1,2), of 0] obtain s1 where s1: "bflush 0 s = Some s1" "repr c1 s1"
    by (auto simp: refines_def)
  with bflush_Some(1) [of 0 s s1] obtain b where "s1 = (b, [])" by (cases s1) auto
  with s1 f show ?thesis by (auto simp: repr_def)
qed

lemma finish_total:
  assumes "malloc_ok m" "repr c s" "bflush 0 s = Some (b, [])" "malloc_total m" "roomy K (base c)" "length b \<le> K"
  shows "\<exists>buf n c'. CBB_finish m True 0 c = (Some (buf, n), c')"
proof -
  obtain ok c1 where f: "CBB_flush m c 0 = (ok, c1)" by force
  have "ok" using flush_refines [OF assms(1,2), of 0] assms(3-6) f by (auto simp: refines_def)
  with f show ?thesis by (simp add: CBB_finish_def)
qed

section \<open>Writer and reader of one format\<close>

definition build_list ::
  "(malloc \<Rightarrow> 'v \<Rightarrow> nat \<Rightarrow> cbb_op) \<Rightarrow> malloc \<Rightarrow> nat \<Rightarrow> 'v list \<Rightarrow> bytes option" where
  "build_list op m cap vs =
     (case CBB_init m cap of
        None \<Rightarrow> None
      | Some c \<Rightarrow>
          (case add_all (\<lambda>v. op m v 0) vs c of
             (False, c) \<Rightarrow> None
           | (True, c) \<Rightarrow>
               (case CBB_finish m True 0 c of
                  (None, _) \<Rightarrow> None | (Some (buf, n), _) \<Rightarrow> Some (take n buf))))"

context cbb_writer
begin

lemma build_list_sound:
  assumes "malloc_ok m" "cap < 2 ^ 64" "list_all valid vs" "build_list op m cap vs = Some out"
  shows "out = concat (map enc vs)"
proof -
  from assms(4) obtain c0 c1 buf n c2 where b: "CBB_init m cap = Some c0"
    "add_all (\<lambda>v. op m v 0) vs c0 = (True, c1)" "CBB_finish m True 0 c1 = (Some (buf, n), c2)" "out = take n buf"
    by (auto simp: build_list_def split: option.splits prod.splits bool.splits)
  note r0 = init_repr(1) [OF assms(1,2) b(1)]
  have "refines m c0 (True, c1) (Some (put (concat (map enc vs)) ([], [])))"
    using add_all_refines [OF assms(1,3) r0, of 0] b(2) by simp
  then have "repr c1 (concat (map enc vs), [])" by (simp add: refines_def)
  from finish_Some [OF assms(1) this b(3)] b(4) show ?thesis by simp
qed

lemma build_list_total:
  assumes "malloc_ok m" "malloc_total m" "cap \<le> 2 ^ 62" "list_all valid vs" "length (concat (map enc vs)) \<le> 2 ^ 62"
  shows "build_list op m cap vs = Some (concat (map enc vs))"
proof -
  from init_total [OF assms(2,3)] obtain c0 where c0: "CBB_init m cap = Some c0" by auto
  have cap: "cap < 2 ^ 64" using assms(3) by simp
  note r0 = init_repr(1) [OF assms(1) cap c0]
  have room: "roomy (2 ^ 62) (base c0)" using init_repr(2) [OF assms(1) cap c0] assms(3) by simp
  obtain ok c1 where c1: "add_all (\<lambda>v. op m v 0) vs c0 = (ok, c1)" by force
  have r: "refines m c0 (ok, c1) (Some (concat (map enc vs), []))"
    using add_all_refines [OF assms(1,4) r0, of 0] c1 by simp
  with assms(2,5) room have ok: "ok" "roomy (2 ^ 62) (base c1)" by (auto simp: refines_def)
  with r have r1: "repr c1 (concat (map enc vs), [])" by (simp add: refines_def)
  obtain buf n c2 where f: "CBB_finish m True 0 c1 = (Some (buf, n), c2)"
    using finish_total [OF assms(1) r1 _ assms(2) ok(2) assms(5)] by auto
  have "build_list op m cap vs = Some (take n buf)" by (simp add: build_list_def c0 c1 ok(1) f)
  with build_list_sound [OF assms(1) cap assms(4)] show ?thesis by metis
qed

end

locale codec = cbb_writer op enc valid + canonical_code enc dec valid
  for op :: "malloc \<Rightarrow> 'v \<Rightarrow> nat \<Rightarrow> cbb_op" and enc dec valid
begin

lemma build_read:
  assumes "malloc_ok m" "cap < 2 ^ 64" "list_all valid vs" "build_list op m cap vs = Some out"
  shows "read_all dec out = Some vs"
  using build_list_sound [OF assms] assms(3) by (simp add: read_all_enc)

text \<open>Whatever the reader accepts can be built again, byte for byte.\<close>

lemma read_build:
  assumes "malloc_ok m" "malloc_total m" "cap \<le> 2 ^ 62" "length out \<le> 2 ^ 62" "read_all dec out = Some vs"
  shows "build_list op m cap vs = Some out"
  using build_list_total [OF assms(1-3), of vs] read_all_dec [OF assms(5)] assms(4) by simp

end

interpretation codec_u8: codec CBB_add_u8 "\<lambda>v. [v]" CBS_get_u8 "\<lambda>_. True" ..
interpretation codec_u16: codec CBB_add_u16 "\<lambda>v. be_bytes 2 (unat v)" CBS_get_u16 "\<lambda>_. True" ..
interpretation codec_u24: codec CBB_add_u24 "\<lambda>v. be_bytes 3 (unat v)" CBS_get_u24 "\<lambda>v. unat v < 2 ^ 24" ..
interpretation codec_u32: codec CBB_add_u32 "\<lambda>v. be_bytes 4 (unat v)" CBS_get_u32 "\<lambda>_. True" ..
interpretation codec_u64: codec CBB_add_u64 "\<lambda>v. be_bytes 8 (unat v)" CBS_get_u64 "\<lambda>_. True" ..

end
