(* ===== verification/CBB_ASN1.thy ===== *)
theory CBB_ASN1
  imports CBB_Write CBS_Decimal
begin

text \<open>
  The DER writers of \<open>cbb.c\<close>: tags, integers, strings, booleans, object identifiers from text
  and the sorting of SET OF contents. A function with a local \<open>CBB child\<close> uses the handle
  \<open>d + 1\<close> for it, the depth that \<open>CBB_add_asn1\<close> opens.
\<close>

section \<open>Tags\<close>

function base128_len_loop :: "nat \<Rightarrow> u64 \<Rightarrow> nat" where
  "base128_len_loop len_len copy =
     (if copy > 0 then base128_len_loop (len_len + 1) (drop_bit 7 copy) else len_len)"
  by pat_completeness auto
termination
proof (relation "measure (\<lambda>(n, c). unat c)")
  fix n :: nat and c :: u64
  assume "c > 0"
  then have "0 < unat c" by (simp add: unat_gt_0 word_neq_0_conv)
  then show "((n + 1, drop_bit 7 c), n, c) \<in> measure (\<lambda>(n, c). unat c)" by (simp add: unat_drop_bit)
qed simp

declare base128_len_loop.simps [simp del]

fun add_base128_loop :: "malloc \<Rightarrow> u64 \<Rightarrow> nat \<Rightarrow> nat \<Rightarrow> cbb_op" where
  "add_base128_loop m v 0 d c = (True, c)"
| "add_base128_loop m v (Suc i) d c =
     (let byte = ucast (drop_bit (7 * i) v AND 0x7f);
          byte = (if i \<noteq> 0 then byte OR 0x80 else byte)
      in case CBB_add_u8 m byte d c of
           (False, c) \<Rightarrow> (False, c) | (True, c) \<Rightarrow> add_base128_loop m v i d c)"

definition add_base128_integer :: "malloc \<Rightarrow> u64 \<Rightarrow> nat \<Rightarrow> cbb_op" where
  "add_base128_integer m v d c =
     (let len_len = base128_len_loop 0 v;
          len_len = (if len_len = 0 then 1 else len_len)
      in add_base128_loop m v len_len d c)"

definition CBB_add_asn1 :: "malloc \<Rightarrow> tag \<Rightarrow> nat \<Rightarrow> cbb_op" where
  "CBB_add_asn1 m tag d c =
     (case CBB_flush m c d of
        (False, c) \<Rightarrow> (False, c)
      | (True, c) \<Rightarrow>
          (let tag_bits = ucast (drop_bit CBS_ASN1_TAG_SHIFT tag AND 0xe0) :: u8;
               tag_number = tag AND CBS_ASN1_TAG_NUMBER_MASK
           in case (if tag_number \<ge> 0x1f
                    then and_then (CBB_add_u8 m (tag_bits OR 0x1f) d) (add_base128_integer m (ucast tag_number) d) c
                    else CBB_add_u8 m (ucast (ucast tag_bits OR tag_number)) d c) of
                (False, c) \<Rightarrow> (False, c)
              | (True, c) \<Rightarrow> cbb_add_child m 1 True d c))"

section \<open>Values\<close>

fun asn1_uint64_loop :: "malloc \<Rightarrow> u64 \<Rightarrow> nat list \<Rightarrow> bool \<Rightarrow> nat \<Rightarrow> cbb \<Rightarrow> bool \<times> bool \<times> cbb" where
  "asn1_uint64_loop m value [] started d c = (True, started, c)"
| "asn1_uint64_loop m value (i # is) started d c =
     (let byte = ucast (drop_bit (8 * (7 - i)) value AND 0xff) :: u8
      in if \<not> started \<and> byte = 0 then asn1_uint64_loop m value is started d c
         else
           (let (ok, c) = (if \<not> started \<and> byte AND 0x80 \<noteq> 0 then CBB_add_u8 m 0 d c else (True, c))
            in if \<not> ok then (False, started, c)
               else case CBB_add_u8 m byte d c of
                 (False, c) \<Rightarrow> (False, True, c)
               | (True, c) \<Rightarrow> asn1_uint64_loop m value is True d c))"

definition CBB_add_asn1_uint64_with_tag :: "malloc \<Rightarrow> u64 \<Rightarrow> tag \<Rightarrow> nat \<Rightarrow> cbb_op" where
  "CBB_add_asn1_uint64_with_tag m value tag d c =
     (case CBB_add_asn1 m tag d c of
        (False, c) \<Rightarrow> (False, cbb_on_error c d)
      | (True, c) \<Rightarrow>
          (case asn1_uint64_loop m value [0..<8] False (d + 1) c of
             (False, _, c) \<Rightarrow> (False, cbb_on_error c d)
           | (True, started, c) \<Rightarrow>
               (case (if \<not> started then CBB_add_u8 m 0 (d + 1) c else (True, c)) of
                  (False, c) \<Rightarrow> (False, cbb_on_error c d)
                | (True, c) \<Rightarrow> CBB_flush m c d)))"

definition CBB_add_asn1_uint64 :: "malloc \<Rightarrow> u64 \<Rightarrow> nat \<Rightarrow> cbb_op" where
  "CBB_add_asn1_uint64 m value = CBB_add_asn1_uint64_with_tag m value CBS_ASN1_INTEGER"

text \<open>\<open>bytes\<close> is the little-endian memory of the \<open>int64_t\<close>.\<close>

definition int64_bytes :: "u64 \<Rightarrow> bytes" where
  "int64_bytes value = map (\<lambda>i. ucast (drop_bit (8 * i) value)) [0..<8]"

fun int64_start :: "bytes \<Rightarrow> nat \<Rightarrow> nat" where
  "int64_start bytes 0 = 0"
| "int64_start bytes (Suc s) =
     (if bytes ! Suc s = 0xff \<and> bytes ! s AND 0x80 \<noteq> 0 then int64_start bytes s else Suc s)"

fun asn1_int64_loop :: "malloc \<Rightarrow> bytes \<Rightarrow> nat \<Rightarrow> nat \<Rightarrow> cbb_op" where
  "asn1_int64_loop m bytes 0 d c = CBB_add_u8 m (bytes ! 0) d c"
| "asn1_int64_loop m bytes (Suc i) d c =
     (case CBB_add_u8 m (bytes ! Suc i) d c of
        (False, c) \<Rightarrow> (False, c) | (True, c) \<Rightarrow> asn1_int64_loop m bytes i d c)"

definition CBB_add_asn1_int64_with_tag :: "malloc \<Rightarrow> u64 \<Rightarrow> tag \<Rightarrow> nat \<Rightarrow> cbb_op" where
  "CBB_add_asn1_int64_with_tag m value tag d c =
     (if sint value \<ge> 0 then CBB_add_asn1_uint64_with_tag m value tag d c
      else
        (let bytes = int64_bytes value; start = int64_start bytes 7
         in case CBB_add_asn1 m tag d c of
              (False, c) \<Rightarrow> (False, cbb_on_error c d)
            | (True, c) \<Rightarrow>
                (case asn1_int64_loop m bytes start (d + 1) c of
                   (False, c) \<Rightarrow> (False, cbb_on_error c d)
                 | (True, c) \<Rightarrow> CBB_flush m c d)))"

definition CBB_add_asn1_int64 :: "malloc \<Rightarrow> u64 \<Rightarrow> nat \<Rightarrow> cbb_op" where
  "CBB_add_asn1_int64 m value = CBB_add_asn1_int64_with_tag m value CBS_ASN1_INTEGER"

definition CBB_add_asn1_octet_string :: "malloc \<Rightarrow> bytes \<Rightarrow> nat \<Rightarrow> cbb_op" where
  "CBB_add_asn1_octet_string m data d c =
     (case and_then (CBB_add_asn1 m CBS_ASN1_OCTETSTRING d)
             (and_then (CBB_add_bytes m data (d + 1)) (\<lambda>c. CBB_flush m c d)) c of
        (False, c) \<Rightarrow> (False, cbb_on_error c d)
      | (True, c) \<Rightarrow> (True, c))"

definition CBB_add_asn1_bool :: "malloc \<Rightarrow> bool \<Rightarrow> nat \<Rightarrow> cbb_op" where
  "CBB_add_asn1_bool m value d c =
     (case and_then (CBB_add_asn1 m CBS_ASN1_BOOLEAN d)
             (and_then (CBB_add_u8 m (if value then 0xff else 0) (d + 1)) (\<lambda>c. CBB_flush m c d)) c of
        (False, c) \<Rightarrow> (False, cbb_on_error c d)
      | (True, c) \<Rightarrow> (True, c))"

section \<open>Object identifiers\<close>

definition parse_dotted_decimal :: "cbs \<Rightarrow> u64 option \<times> cbs" where
  "parse_dotted_decimal cbs =
     (case CBS_get_u64_decimal cbs of
        (None, cbs) \<Rightarrow> (None, cbs)
      | (Some out, cbs) \<Rightarrow>
          (case CBS_get_u8 cbs of
             (None, cbs) \<Rightarrow> (Some out, cbs)
           | (Some dot, cbs) \<Rightarrow> (if dot = 0x2e \<and> length cbs > 0 then Some out else None, cbs)))"

text \<open>The loop over the remaining components; every round consumes at least one character.\<close>

function oid_components_loop :: "malloc \<Rightarrow> cbs \<Rightarrow> nat \<Rightarrow> cbb_op" where
  "oid_components_loop m cbs d c =
     (if length cbs > 0 then
        (case parse_dotted_decimal cbs of
           (None, cbs') \<Rightarrow> (False, c)
         | (Some a, cbs') \<Rightarrow>
             (if length cbs' < length cbs then
                (case add_base128_integer m a d c of
                   (False, c) \<Rightarrow> (False, c) | (True, c) \<Rightarrow> oid_components_loop m cbs' d c)
              else (False, c)))
      else (True, c))"
  by pat_completeness auto
termination
  by (relation "measure (\<lambda>(m, cbs, d, c). length cbs)") auto

declare oid_components_loop.simps [simp del]

definition CBB_add_asn1_oid_from_text :: "malloc \<Rightarrow> bytes \<Rightarrow> nat \<Rightarrow> cbb_op" where
  "CBB_add_asn1_oid_from_text m text d c =
     (case CBB_flush m c d of
        (False, c) \<Rightarrow> (False, c)
      | (True, c) \<Rightarrow>
          (case parse_dotted_decimal text of
             (None, cbs) \<Rightarrow> (False, c)
           | (Some a, cbs) \<Rightarrow>
          (case parse_dotted_decimal cbs of
             (None, cbs) \<Rightarrow> (False, c)
           | (Some b, cbs) \<Rightarrow>
               (if a > 2 \<or> (a < 2 \<and> b > 39) \<or> b > UINT64_MAX - 80 then (False, c)
                else case add_base128_integer m (40 * a + b) d c of
                  (False, c) \<Rightarrow> (False, c)
                | (True, c) \<Rightarrow> oid_components_loop m cbs d c))))"

section \<open>SET OF\<close>

text \<open>\<open>memcmp\<close> on \<open>n\<close> bytes: the difference of the first bytes that differ, or 0.\<close>

fun memcmp :: "bytes \<Rightarrow> bytes \<Rightarrow> int" where
  "memcmp (a # as) (b # bs) = (if a = b then memcmp as bs else int (unat a) - int (unat b))"
| "memcmp _ _ = 0"

definition compare_set_of_element :: "cbs \<Rightarrow> cbs \<Rightarrow> int" where
  "compare_set_of_element a b =
     (let a_len = length a; b_len = length b;
          min_len = (if a_len < b_len then a_len else b_len);
          ret = memcmp (take min_len a) (take min_len b)
      in if ret \<noteq> 0 then ret
         else if a_len = b_len then 0
         else if a_len < b_len then -1 else 1)"

fun set_of_children :: "nat \<Rightarrow> cbs \<Rightarrow> bytes list option" where
  "set_of_children 0 cbs = Some []"
| "set_of_children (Suc n) cbs =
     (case CBS_get_any_asn1_element cbs of
        (None, _) \<Rightarrow> None
      | (Some e, cbs) \<Rightarrow> map_option (Cons (contents e)) (set_of_children n cbs))"

text \<open>
  \<open>CBB_flush_asn1_set_of\<close>. The C library's \<open>qsort\<close> is the parameter \<open>qs\<close>, called with the
  comparison function; \<open>sizeof(CBS)\<close> is 16.
\<close>

definition CBB_flush_asn1_set_of ::
  "((bytes \<Rightarrow> bytes \<Rightarrow> int) \<Rightarrow> bytes list \<Rightarrow> bytes list) \<Rightarrow> malloc \<Rightarrow> nat \<Rightarrow> cbb_op" where
  "CBB_flush_asn1_set_of qs m d c =
     (case CBB_flush m c d of
        (False, c) \<Rightarrow> (False, c)
      | (True, c) \<Rightarrow>
          (case (CBB_data c d, CBB_len c d) of
             (Some data, Some buf_len) \<Rightarrow>
               (case read_all CBS_get_any_asn1_element (take buf_len data) of
                  None \<Rightarrow> (False, c)
                | Some elements \<Rightarrow>
                    (let num_children = length elements in
                     if num_children < 2 then (True, c)
                     else case (OPENSSL_memdup m (take buf_len data), OPENSSL_calloc m num_children 16) of
                       (Some buf, Some _) \<Rightarrow>
                         (case set_of_children num_children (take buf_len buf) of
                            None \<Rightarrow> (False, c)
                          | Some children \<Rightarrow>
                              (True, put_bytes (cbb_start c d) (concat (qs compare_set_of_element children)) c))
                     | _ \<Rightarrow> (False, c)))
           | _ \<Rightarrow> (False, c)))"

end
