(* ===== verification/CBB_DER.thy ===== *)
theory CBB_DER
  imports CBB_ASN1
begin

text \<open>
  The DER writers implement the contract of a writer with the encodings of the theories \<open>DER\<close>
  and \<open>DER_Values\<close>, the ones that the readers of \<open>cbs.c\<close> are the inverse of.
\<close>

section \<open>Base-128 integers\<close>

definition base128_digit :: "u64 \<Rightarrow> nat \<Rightarrow> u8" where
  "base128_digit v i = (let byte = ucast (drop_bit (7 * i) v AND 0x7f) in if i \<noteq> 0 then byte OR 0x80 else byte)"

lemma add_base128_loop_all:
  "add_base128_loop m v n d c = add_all (\<lambda>b. CBB_add_u8 m b d) (map (base128_digit v) (rev [0..<n])) c"
  by (induction n arbitrary: c)
    (auto simp: base128_digit_def and_then_def Let_def split: prod.splits bool.splits)

lemma unat_and_7f: "unat ((x :: u64) AND 0x7f) = unat x mod 128"
  by (subst unat_and_mask [where n = 7]) (simp_all add: mask_eq_exp_minus_1)

lemma or_80: "unat (b :: u8) < 128 \<Longrightarrow> unat (b OR 0x80) = 128 + unat b"
proof -
  assume "unat b < 128"
  then have "b AND 0x80 = 0" by (simp add: high_bit_clear)
  then show ?thesis by (simp add: unat_or_disjoint)
qed

lemma base128_digit_eq:
  "base128_digit v i = of_nat ((if i = 0 then 0 else 128) + unat v div 128 ^ i mod 128)"
proof -
  have p: "(2::nat) ^ (7 * i) = 128 ^ i" by (simp add: power_mult)
  define b where "b = (ucast (drop_bit (7 * i) v AND 0x7f) :: u8)"
  have b: "unat b = unat v div 128 ^ i mod 128"
    unfolding b_def by (simp only: unat_ucast unat_and_7f unat_drop_bit p) simp
  show ?thesis
  proof (cases "i = 0")
    case True
    then have "base128_digit v i = b" by (simp add: base128_digit_def b_def Let_def)
    with True b show ?thesis by (metis word_eq_of_nat add.left_neutral)
  next
    case False
    then have "base128_digit v i = b OR 0x80" by (simp add: base128_digit_def b_def Let_def)
    moreover have "unat (b OR 0x80) = 128 + unat v div 128 ^ i mod 128" using or_80 [of b] b by simp
    ultimately show ?thesis using False by (metis word_eq_of_nat)
  qed
qed

fun base128_count :: "nat \<Rightarrow> nat" where
  "base128_count n = (if n = 0 then 0 else Suc (base128_count (n div 128)))"

declare base128_count.simps [simp del]

lemma base128_len_loop_eq: "base128_len_loop k v = k + base128_count (unat v)"
proof (induction k v rule: base128_len_loop.induct)
  case (1 k v)
  show ?case
  proof (cases "v = 0")
    case False
    then have "v > 0" by (simp add: word_neq_0_conv)
    with 1 have "base128_len_loop k v = Suc (k + base128_count (unat v div 128))"
      by (subst base128_len_loop.simps) (simp add: unat_drop_bit)
    with False show ?thesis by (subst base128_count.simps) (simp add: unat_eq_0)
  qed (simp add: base128_len_loop.simps base128_count.simps)
qed

lemma rev_upt_Suc: "rev [0..<Suc k] = map Suc (rev [0..<k]) @ [0]"
  by (simp add: upt_conv_Cons rev_map [symmetric] map_Suc_upt del: upt_Suc)

lemma base128_hi_digits:
  "base128_hi n = map (\<lambda>i. of_nat (128 + n div 128 ^ i mod 128)) (rev [0..<base128_count n])"
proof (induction n rule: base128_hi.induct)
  case (1 n)
  show ?case
  proof (cases "n = 0")
    case False
    have "map f (rev [0..<base128_count n]) = map (\<lambda>i. f (Suc i)) (rev [0..<base128_count (n div 128)]) @ [f 0]"
      for f :: "nat \<Rightarrow> u8"
      using False by (subst base128_count.simps) (simp add: rev_upt_Suc o_def del: upt_Suc)
    with 1 False show ?thesis
      by (subst base128_hi.simps) (simp add: div_mult2_eq del: of_nat_add)
  qed (simp add: base128_count.simps)
qed

lemma base128_digits:
  "map (base128_digit v) (rev [0..<(if base128_len_loop 0 v = 0 then 1 else base128_len_loop 0 v)]) = base128 (unat v)"
proof (cases "unat v = 0")
  case True
  then show ?thesis
    by (simp add: base128_len_loop_eq base128_count.simps base128_digit_eq base128_def)
next
  case False
  define n where "n = unat v"
  have c: "base128_len_loop 0 v = Suc (base128_count (n div 128))"
    using False by (subst base128_len_loop_eq, subst base128_count.simps) (simp add: n_def)
  have d: "base128_digit v (Suc i) = of_nat (128 + n div 128 div 128 ^ i mod 128)" for i
    by (simp add: base128_digit_eq n_def div_mult2_eq del: of_nat_add)
  have d0: "base128_digit v 0 = of_nat (n mod 128)" by (simp add: base128_digit_eq n_def)
  have e: "(if base128_len_loop 0 v = 0 then 1 else base128_len_loop 0 v) = Suc (base128_count (n div 128))"
    by (simp add: c)
  show ?thesis
    unfolding e base128_def base128_hi_digits n_def [symmetric] rev_upt_Suc
    by (simp add: d d0 o_def del: upt_Suc of_nat_add)
qed

interpretation add_base128: cbb_writer add_base128_integer "\<lambda>v. base128 (unat v)" "\<lambda>_. True"
proof
  fix m :: malloc and v :: u64 and c s d
  assume a: "malloc_ok m" "repr c s" "d \<le> length (snd s)"
  have "concat (map (\<lambda>b. [b]) (base128 (unat v))) = base128 (unat v)" by simp
  with add_u8.add_all_flush [OF a(1) base128_nonempty _ a(2,3), of "unat v"]
  show "refines m c (add_base128_integer m v d c) (map_option (put (base128 (unat v))) (bflush d s))"
    by (simp add: add_base128_integer_def add_base128_loop_all base128_digits list_all_iff)
qed

section \<open>Elements\<close>

lemma tag_first_byte:
  fixes t :: tag
  defines "bits \<equiv> (ucast (drop_bit CBS_ASN1_TAG_SHIFT t AND 0xe0) :: u8)"
  shows "unat (t AND CBS_ASN1_TAG_NUMBER_MASK) = unat t mod 2 ^ 29"
    "unat (bits OR 0x1f) = unat t div 2 ^ 29 * 32 + 31"
    "k < 31 \<Longrightarrow> unat n = k \<Longrightarrow> unat (ucast (ucast bits OR (n :: tag)) :: u8) = unat t div 2 ^ 29 * 32 + k"
proof -
  show "unat (t AND CBS_ASN1_TAG_NUMBER_MASK) = unat t mod 2 ^ 29"
    by (subst unat_and_mask [where n = 29]) (simp_all add: tag_consts mask_eq_exp_minus_1)
  define f where "f = unat t div 2 ^ 29"
  have f8: "f < 8" using tag_flags by (simp add: f_def)
  define w where "w = (of_nat f :: u8)"
  have w: "unat w = f" using f8 by (simp add: w_def)
  have bw: "unat (push_bit 5 w) = f * 32" using f8 w by (subst unat_push_bit) simp_all
  have "unat (drop_bit CBS_ASN1_TAG_SHIFT t AND 0xe0) = f * 32"
  proof -
    have d: "unat (drop_bit CBS_ASN1_TAG_SHIFT t) = unat t div 2 ^ 24"
      by (simp add: unat_drop_bit CBS_ASN1_TAG_SHIFT_def)
    have lt: "unat t div 2 ^ 24 < 256" using unat_u32_less [of t] by (simp add: div_less_iff_less_mult)
    define x where "x = (of_nat (unat t div 2 ^ 24) :: u8)"
    have x: "unat x = unat t div 2 ^ 24" using lt by (simp add: x_def)
    have "drop_bit CBS_ASN1_TAG_SHIFT t = ucast x"
      by (rule word_eqI_unat) (simp add: d x)
    moreover have "unat (ucast x AND 0xe0 :: tag) = unat x AND 0xe0" "unat (x AND 0xe0) = unat x AND 0xe0"
      by (simp_all add: unsigned_and_eq)
    ultimately show ?thesis by (simp add: byte_masks x f_def flip: div_mult2_eq)
  qed
  then have "unat bits = f * 32" using f8 by (simp add: bits_def unat_ucast)
  with bw have bits: "bits = push_bit 5 w" by (intro word_eqI_unat) simp
  show "unat (bits OR 0x1f) = unat t div 2 ^ 29 * 32 + 31"
    unfolding bits f_def [symmetric] using f8 w by (subst unat_shift_or) simp_all
  show "unat (ucast (ucast bits OR n) :: u8) = unat t div 2 ^ 29 * 32 + k" if "k < 31" "unat n = k"
  proof -
    define y where "y = (of_nat k :: u8)"
    have y: "unat y = k" using that by (simp add: y_def)
    have "n = ucast y" by (rule word_eqI_unat) (simp add: y that)
    then have "ucast bits OR n = ucast (bits OR y)" by (simp add: unsigned_or_eq)
    moreover have "unat (bits OR y) = f * 32 + k"
      unfolding bits using f8 w y that by (subst unat_shift_or) simp_all
    moreover have "unat (ucast (ucast (bits OR y) :: tag) :: u8) = unat (bits OR y)"
      by (simp add: unat_ucast) (subst mod_less, rule less_trans [OF unat_less_256], simp_all)
    ultimately show ?thesis by (simp add: f_def)
  qed
qed

lemma concat_bytes [simp]: "concat (map (\<lambda>b. [b]) bs) = bs"
  by (induction bs) simp_all

lemma add_asn1_refines:
  assumes "malloc_ok m" "repr c s" "d \<le> length (snd s)"
  shows "refines m c (CBB_add_asn1 m t d c) (map_option (\<lambda>s1. push Asn1 (put (tag_bytes t) s1)) (bflush d s))"
proof -
  obtain ok c1 where f: "CBB_flush m c d = (ok, c1)" by force
  have fl: "refines m c (ok, c1) (bflush d s)" using flush_refines [OF assms] f by simp
  define bits where "bits = (ucast (drop_bit CBS_ASN1_TAG_SHIFT t AND 0xe0) :: u8)"
  define num where "num = t AND CBS_ASN1_TAG_NUMBER_MASK"
  note fb = tag_first_byte [where t = t, folded bits_def num_def]
  define w where "w c = (if num \<ge> 0x1f then and_then (CBB_add_u8 m (bits OR 0x1f) d) (add_base128_integer m (ucast num) d) c
     else CBB_add_u8 m (ucast (ucast bits OR num)) d c)" for c
  have le: "num \<ge> 0x1f \<longleftrightarrow> \<not> unat t mod 2 ^ 29 < 31" by (simp add: word_le_nat_alt fb(1) not_less)
  have w: "refines m c1 (w c1) (Some (put (tag_bytes t) s1))" if r: "repr c1 s1" "length (snd s1) = d" for c1 s1
  proof (cases "num \<ge> 0x1f")
    case True
    have b: "bits OR 0x1f = of_nat (unat t div 2 ^ 29 * 32 + 31)" using fb(2) by (rule word_eq_of_nat)
    have u: "unat (ucast num :: u64) = unat t mod 2 ^ 29" by (simp add: fb(1))
    have "refines m c1 (and_then (CBB_add_u8 m (bits OR 0x1f) d) (add_base128_integer m (ucast num) d) c1)
      (Some (put (base128 (unat (ucast num :: u64))) (put [bits OR 0x1f] s1)))"
    proof (rule and_then_refines)
      show "refines m c1 (CBB_add_u8 m (bits OR 0x1f) d c1) (Some (put [bits OR 0x1f] s1))"
        using assms(1) r by (rule add_u8.op_here [OF _ TrueI])
      show "refines m c2 (add_base128_integer m (ucast num) d c2)
          (Some (put (base128 (unat (ucast num :: u64))) (put [bits OR 0x1f] s1)))"
        if "repr c2 (put [bits OR 0x1f] s1)" for c2
        using assms(1) that r(2) by (intro add_base128.op_here) simp_all
    qed simp
    then show ?thesis using True le by (simp add: w_def u b tag_bytes_def Let_def del: of_nat_add)
  next
    case False
    then have k: "unat t mod 2 ^ 29 < 31" using le by simp
    have b: "ucast (ucast bits OR num) = (of_nat (unat t div 2 ^ 29 * 32 + unat t mod 2 ^ 29) :: u8)"
      using fb(3) [OF k fb(1)] by (rule word_eq_of_nat)
    with False k show ?thesis
      using add_u8.op_here [OF assms(1) _ r, of "ucast (ucast bits OR num)"]
      by (simp add: w_def tag_bytes_def Let_def del: of_nat_add)
  qed
  have "refines m c (if ok then and_then w (cbb_add_child m 1 True d) c1 else (False, c1))
    (case bflush d s of None \<Rightarrow> None | Some s1 \<Rightarrow> Some (push Asn1 (put (tag_bytes t) s1)))"
  proof (rule refines_trans [OF fl])
    fix s1 assume s1: "bflush d s = Some s1" "repr c1 s1"
    note d = bflush_Some(1) [OF s1(1)]
    show "refines m c1 (and_then w (cbb_add_child m 1 True d) c1) (Some (push Asn1 (put (tag_bytes t) s1)))"
    proof (rule and_then_refines)
      show "refines m c1 (w c1) (Some (put (tag_bytes t) s1))" using s1(2) d by (rule w)
      show "refines m c2 (cbb_add_child m 1 True d c2) (Some (push Asn1 (put (tag_bytes t) s1)))"
        if "repr c2 (put (tag_bytes t) s1)" for c2
        using add_child_refines [OF assms(1) that, of d Asn1] d by simp
      fix s2 assume "Some (push Asn1 (put (tag_bytes t) s1)) = Some s2"
      then have "s2 = push Asn1 (put (tag_bytes t) s1)" by simp
      then show "length (bimage (put (tag_bytes t) s1)) \<le> length (bimage s2)" by simp
    qed
  next
    fix s1 s2 assume "Some (push Asn1 (put (tag_bytes t) s1)) = Some s2"
    then have "s2 = push Asn1 (put (tag_bytes t) s1)" by simp
    then show "length (bimage s1) \<le> length (bimage s2)" by simp
  qed
  moreover have "CBB_add_asn1 m t d c = (if ok then and_then w (cbb_add_child m 1 True d) c1 else (False, c1))"
    by (simp add: CBB_add_asn1_def f Let_def and_then_def bits_def [symmetric] num_def [symmetric] w_def
        split: prod.splits bool.splits)
  ultimately show ?thesis by (simp add: map_option_case)
qed

text \<open>Open an element, run \<open>body\<close> on the child, flush the parent.\<close>

definition with_element :: "malloc \<Rightarrow> tag \<Rightarrow> cbb_op \<Rightarrow> nat \<Rightarrow> cbb_op" where
  "with_element m t body d =
     and_then (CBB_add_asn1 m t d) (and_then body (\<lambda>c. CBB_flush m c d))"

lemma refines_map_trans:
  assumes "refines m c (ok, c1) (map_option f w)"
    and "\<And>s1. ok \<Longrightarrow> w = Some s1 \<Longrightarrow> repr c1 (f s1) \<Longrightarrow> refines m c1 r (Some (g s1))"
    and "\<And>s1. w = Some s1 \<Longrightarrow> length (bimage (f s1)) \<le> length (bimage (g s1))"
  shows "refines m c (if ok then r else (False, c1)) (map_option g w)"
proof (cases w)
  case None
  have "refines m c (if ok then r else (False, c1)) (case map_option f w of None \<Rightarrow> None | Some s1 \<Rightarrow> None)"
    using assms(1) None by (intro refines_trans [OF assms(1)]) (simp_all add: None)
  then show ?thesis by (simp add: None)
next
  case (Some s0)
  have "refines m c (if ok then r else (False, c1)) (case map_option f w of None \<Rightarrow> None | Some s1 \<Rightarrow> Some (g s0))"
  proof (rule refines_trans [OF assms(1)])
    show "refines m c1 r (Some (g s0))" if "ok" "map_option f w = Some s1" "repr c1 s1" for s1
      using assms(2) [OF that(1) Some] that Some by simp
    fix s1 s2 assume "map_option f w = Some s1" "Some (g s0) = Some s2"
    then have "s1 = f s0" "s2 = g s0" by (simp_all add: Some)
    then show "length (bimage s1) \<le> length (bimage s2)" using assms(3) [OF Some] by simp
  qed
  then show ?thesis by (simp add: Some)
qed

lemma with_element_refines:
  assumes "malloc_ok m" "repr c s" "d \<le> length (snd s)" "length data \<le> 0xfffffffe"
    and body: "\<And>c1 s1. repr c1 s1 \<Longrightarrow> length (snd s1) = d + 1 \<Longrightarrow> refines m c1 (body c1) (Some (put data s1))"
  shows "refines m c (with_element m t body d c) (map_option (put (der_element t data)) (bflush d s))"
proof -
  obtain ok c1 where f: "CBB_add_asn1 m t d c = (ok, c1)" by force
  have fl: "refines m c (ok, c1) (map_option (\<lambda>s1. push Asn1 (put (tag_bytes t) s1)) (bflush d s))"
    using add_asn1_refines [OF assms(1-3), of t] f by simp
  have "refines m c (if ok then and_then body (\<lambda>c. CBB_flush m c d) c1 else (False, c1))
    (map_option (put (der_element t data)) (bflush d s))"
  proof (rule refines_map_trans [OF fl])
    fix s1 assume s1: "bflush d s = Some s1" "repr c1 (push Asn1 (put (tag_bytes t) s1))"
    note d = bflush_Some(1) [OF s1(1)]
    let ?s2 = "put data (push Asn1 (put (tag_bytes t) s1))"
    have fl2: "bflush d ?s2 = Some (put (der_element t data) s1)"
      using bflush_push [of "put (tag_bytes t) s1" d data Asn1] d assms(4) by (simp add: der_element_def)
    show "refines m c1 (and_then body (\<lambda>c. CBB_flush m c d) c1) (Some (put (der_element t data) s1))"
    proof (rule and_then_refines)
      show "refines m c1 (body c1) (Some ?s2)" using body [OF s1(2)] d by simp
      show "refines m c2 (CBB_flush m c2 d) (Some (put (der_element t data) s1))" if "repr c2 ?s2" for c2
        using flush_refines [OF assms(1) that, of d] d fl2 by simp
      show "length (bimage ?s2) \<le> length (bimage s2)" if "Some (put (der_element t data) s1) = Some s2" for s2
        using bflush_Some(2) [OF fl2] that by (simp only: option.inject)
    qed
  next
    fix s1 :: builder
    show "length (bimage (push Asn1 (put (tag_bytes t) s1))) \<le> length (bimage (put (der_element t data) s1))"
      using length_der_len(2) [of "length data"] by (simp add: der_element_def Suc_le_eq)
  qed
  then show ?thesis by (simp add: with_element_def and_then_def f)
qed

lemma refines_on_error:
  "refines m c r w \<Longrightarrow>
   refines m c (case r of (False, c) \<Rightarrow> (False, cbb_on_error c d) | (True, c) \<Rightarrow> (True, c)) w"
  by (cases r; cases "fst r") (auto intro: refines_failure)

interpretation add_octet_string: cbb_writer CBB_add_asn1_octet_string "der_element CBS_ASN1_OCTETSTRING"
    "\<lambda>data. length data \<le> 0xfffffffe"
proof
  fix m :: malloc and data :: bytes and c s d
  assume a: "malloc_ok m" "length data \<le> 0xfffffffe" "repr c s" "d \<le> length (snd s)"
  have "refines m c (with_element m CBS_ASN1_OCTETSTRING (CBB_add_bytes m data (d + 1)) d c)
      (map_option (put (der_element CBS_ASN1_OCTETSTRING data)) (bflush d s))"
    using a add_bytes.op_here [OF a(1), of data] by (intro with_element_refines) simp_all
  from refines_on_error [OF this, of d]
  show "refines m c (CBB_add_asn1_octet_string m data d c)
      (map_option (put (der_element CBS_ASN1_OCTETSTRING data)) (bflush d s))"
    by (simp add: CBB_add_asn1_octet_string_def with_element_def)
qed

interpretation add_bool: cbb_writer CBB_add_asn1_bool "\<lambda>b. der_element CBS_ASN1_BOOLEAN (der_bool b)" "\<lambda>_. True"
proof
  fix m :: malloc and b :: bool and c s d
  assume a: "malloc_ok m" "repr c s" "d \<le> length (snd s)"
  have "refines m c (with_element m CBS_ASN1_BOOLEAN (CBB_add_u8 m (if b then 0xff else 0) (d + 1)) d c)
      (map_option (put (der_element CBS_ASN1_BOOLEAN (der_bool b))) (bflush d s))"
    using a add_u8.op_here [OF a(1)] by (intro with_element_refines) (simp_all add: der_bool_def)
  from refines_on_error [OF this, of d]
  show "refines m c (CBB_add_asn1_bool m b d c)
      (map_option (put (der_element CBS_ASN1_BOOLEAN (der_bool b))) (bflush d s))"
    by (simp add: CBB_add_asn1_bool_def with_element_def)
qed

end
