(* ===== verification/CBB_Int.thy ===== *)
theory CBB_Int
  imports CBB_DER
begin

text \<open>
  \<open>CBB_add_asn1_uint64\<close> and \<open>CBB_add_asn1_int64\<close> write the shortest two's complement form of
  their argument, the only one that the readers accept.
\<close>

section \<open>Unsigned integers\<close>

text \<open>What the loop over the eight bytes writes.\<close>

fun strip_zeros :: "bool \<Rightarrow> bytes \<Rightarrow> bytes" where
  "strip_zeros started [] = []"
| "strip_zeros started (b # bs) =
     (if \<not> started \<and> b = 0 then strip_zeros started bs
      else (if \<not> started \<and> b AND 0x80 \<noteq> 0 then [0] else []) @ b # strip_zeros True bs)"

definition uint64_byte :: "u64 \<Rightarrow> nat \<Rightarrow> u8" where
  "uint64_byte v i = ucast (drop_bit (8 * (7 - i)) v AND 0xff)"

lemma asn1_uint64_loop_all:
  "asn1_uint64_loop m v is st d c = (ok, st', c') \<Longrightarrow>
   add_all (\<lambda>b. CBB_add_u8 m b d) (strip_zeros st (map (uint64_byte v) is)) c = (ok, c') \<and>
   (ok \<longrightarrow> st' = (st \<or> (\<exists>i \<in> set is. uint64_byte v i \<noteq> 0)))"
proof (induction "is" arbitrary: st c)
  case (Cons i "is")
  define b where "b = uint64_byte v i"
  show ?case
  proof (cases "\<not> st \<and> b = 0")
    case True
    with Cons.prems have "asn1_uint64_loop m v is st d c = (ok, st', c')"
      by (simp add: b_def uint64_byte_def)
    from Cons.IH [OF this] True show ?thesis by (auto simp: b_def)
  next
    case False
    obtain ok1 c1 where c1: "(if \<not> st \<and> b AND 0x80 \<noteq> 0 then CBB_add_u8 m 0 d c else (True, c)) = (ok1, c1)"
      by force
    obtain ok2 c2 where c2: "CBB_add_u8 m b d c1 = (ok2, c2)" by force
    have l: "asn1_uint64_loop m v (i # is) st d c =
      (if \<not> ok1 then (False, st, c1) else if \<not> ok2 then (False, True, c2) else asn1_uint64_loop m v is True d c2)"
      using False c1 c2 unfolding asn1_uint64_loop.simps uint64_byte_def [symmetric] b_def [symmetric]
      by (auto simp: Let_def)
    have a: "add_all (\<lambda>b. CBB_add_u8 m b d) (strip_zeros st (map (uint64_byte v) (i # is))) c =
      (if \<not> ok1 then (False, c1) else if \<not> ok2 then (False, c2)
       else add_all (\<lambda>b. CBB_add_u8 m b d) (strip_zeros True (map (uint64_byte v) is)) c2)"
      using False c1 c2 by (auto simp: b_def [symmetric] and_then_def split: if_splits)
    show ?thesis
    proof (cases "ok1 \<and> ok2")
      case True
      with l Cons.prems have "asn1_uint64_loop m v is True d c2 = (ok, st', c')" by simp
      from Cons.IH [OF this] a True False show ?thesis by (auto simp: b_def)
    next
      case f: False
      with l a Cons.prems show ?thesis by (auto split: if_splits)
    qed
  qed
qed simp

lemma be_bytes_map: "be_bytes n v = map (\<lambda>i. of_nat (v div 256 ^ (n - 1 - i))) [0..<n]"
proof (induction n arbitrary: v)
  case (Suc n)
  have x: "(of_nat (v mod 256) :: u8) = of_nat v" by (rule word_eqI_unat) (simp add: unat_of_nat)
  have "map (\<lambda>i. of_nat (v div 256 div 256 ^ (n - 1 - i)) :: u8) [0..<n]
      = map (\<lambda>i. of_nat (v div 256 ^ (Suc n - 1 - i))) [0..<n]"
  proof (rule map_cong [OF refl])
    fix i assume "i \<in> set [0..<n]"
    then have "Suc n - 1 - i = Suc (n - 1 - i)" by auto
    then show "(of_nat (v div 256 div 256 ^ (n - 1 - i)) :: u8) = of_nat (v div 256 ^ (Suc n - 1 - i))"
      by (simp add: div_mult2_eq)
  qed
  with Suc x show ?case by simp
qed simp

lemma uint64_bytes: "map (uint64_byte v) [0..<8] = be_bytes 8 (unat v)"
proof -
  have "uint64_byte v i = of_nat (unat v div 256 ^ (7 - i))" for i
  proof (rule word_eqI_unat)
    have p: "(2::nat) ^ (8 * (7 - i)) = 256 ^ (7 - i)" by (simp add: power_mult)
    have "unat (drop_bit (8 * (7 - i)) v AND 0xff) = unat v div 256 ^ (7 - i) mod 2 ^ 8"
      by (subst unat_and_mask [where n = 8]) (simp_all add: mask_eq_exp_minus_1 unat_drop_bit p)
    then show "unat (uint64_byte v i) = unat (of_nat (unat v div 256 ^ (7 - i)) :: u8)"
      unfolding uint64_byte_def unat_ucast by (simp add: unat_of_nat)
  qed
  then show ?thesis by (simp add: be_bytes_map)
qed

lemma strip_zeros_started [simp]: "strip_zeros True bs = bs"
  by (induction bs) simp_all

lemma strip_zeros_replicate: "strip_zeros False (replicate k 0 @ bs) = strip_zeros False bs"
  by (induction k) simp_all

lemma be_val_zeros [simp]: "be_val (replicate k 0 @ bs) = be_val bs"
  by (induction k) (simp_all add: be_val_Cons)

lemma split_zeros: "\<exists>k r. bs = replicate k 0 @ r \<and> (r = [] \<or> hd r \<noteq> (0 :: u8))"
proof (induction bs)
  case (Cons b bs)
  then obtain k r where "bs = replicate k 0 @ r" "r = [] \<or> hd r \<noteq> 0" by blast
  then show ?case
    by (cases "b = 0") (auto intro: exI [of _ "Suc k"] exI [of _ 0])
qed simp

lemma strip_zeros_der_int:
  "(if \<exists>b \<in> set bs. b \<noteq> 0 then strip_zeros False bs else [0]) = der_int (int (be_val bs))"
proof -
  obtain k r where bs: "bs = replicate k 0 @ r" "r = [] \<or> hd r \<noteq> 0" using split_zeros by blast
  show ?thesis
  proof (cases r)
    case Nil
    then have "be_val bs = 0" using bs(1) be_val_zeros [of k "[]"] by simp
    with Nil bs show ?thesis by (simp add: der_int.simps)
  next
    case (Cons b t)
    define out where "out = (if b AND 0x80 \<noteq> 0 then [0] else []) @ b # t"
    have "strip_zeros False bs = out"
      using bs Cons by (simp add: strip_zeros_replicate out_def)
    moreover have "minimal_int out \<and> tc_val out = int (be_val bs)"
    proof (cases "uint b < 128")
      case True
      then have "out = b # t" by (simp add: out_def high_bit_clear u8_uint_128)
      moreover have "minimal_int (b # t)"
        using True bs Cons by (cases t) (auto simp: minimal_int_def valid_integer_simps)
      ultimately show ?thesis using True bs Cons by (simp add: tc_val_be)
    next
      case False
      then have "out = 0 # b # t" by (simp add: out_def high_bit_clear u8_uint_128)
      moreover have "minimal_int (0 # b # t)"
        using False by (simp add: minimal_int_def valid_integer_simps)
      moreover have "be_val (0 # b # t) = be_val (b # t)" by (simp add: be_val_Cons [of 0])
      ultimately show ?thesis using bs Cons by (simp add: tc_val_be)
    qed
    ultimately show ?thesis using bs Cons by (auto simp: minimal_value_iff)
  qed
qed

lemma uint64_body_refines:
  assumes "malloc_ok m" "repr c s" "length (snd s) = d"
  shows "refines m c
    (case asn1_uint64_loop m v [0..<8] False d c of
       (False, _, c) \<Rightarrow> (False, c)
     | (True, started, c) \<Rightarrow> (if \<not> started then CBB_add_u8 m 0 d c else (True, c)))
    (Some (put (der_int (uint v)) s))"
proof -
  obtain ok st c1 where l: "asn1_uint64_loop m v [0..<8] False d c = (ok, st, c1)" by (metis prod_cases3)
  note a = asn1_uint64_loop_all [OF l, unfolded uint64_bytes]
  let ?out = "strip_zeros False (be_bytes 8 (unat v))"
  have r: "refines m c (ok, c1) (Some (put ?out s))"
    using add_u8.add_all_refines [OF assms(1) _ assms(2,3), of ?out] a by (simp add: list_all_iff)
  have "be_val (be_bytes 8 (unat v)) = unat v" by (simp only: be_val_be_bytes) simp
  then have d: "der_int (uint v) = (if \<exists>b \<in> set (be_bytes 8 (unat v)). b \<noteq> 0 then ?out else [0])"
    using strip_zeros_der_int [of "be_bytes 8 (unat v)"] by (simp del: be_bytes.simps)
  have st: "st = (\<exists>b \<in> set (be_bytes 8 (unat v)). b \<noteq> 0)" if ok
    using a that uint64_bytes [of v] by (metis (mono_tags, lifting) image_iff set_map)
  show ?thesis
  proof (cases ok)
    case False
    with r l have "\<not> (malloc_total m \<and> roomy K (base c) \<and> length (bimage (put ?out s)) \<le> K)" for K
      by (auto simp: refines_def)
    moreover have "length ?out \<le> length (der_int (uint v))"
    proof (cases "\<exists>b \<in> set (be_bytes 8 (unat v)). b \<noteq> 0")
      case False
      then have "strip_zeros False bs = []" if "set bs \<subseteq> set (be_bytes 8 (unat v))" for bs
        using that by (induction bs) auto
      then show ?thesis by (simp del: be_bytes.simps)
    qed (simp add: d del: be_bytes.simps)
    ultimately show ?thesis using r l False by (fastforce simp: refines_def)
  next
    case True
    show ?thesis
    proof (cases st)
      case t: True
      with st True d have "der_int (uint v) = ?out" by simp
      with r l True t show ?thesis by simp
    next
      case f: False
      with st True have z: "\<forall>b \<in> set (be_bytes 8 (unat v)). b = 0" by simp
      then have "strip_zeros False bs = []" if "set bs \<subseteq> set (be_bytes 8 (unat v))" for bs
        using that by (induction bs) auto
      then have out: "?out = []" by blast
      have "refines m c (if ok then CBB_add_u8 m 0 d c1 else (False, c1))
        (case Some s of None \<Rightarrow> None | Some s1 \<Rightarrow> Some (put [0] s1))"
      proof (rule refines_trans)
        show "refines m c (ok, c1) (Some s)" using r out by simp
        show "refines m c1 (CBB_add_u8 m 0 d c1) (Some (put [0] s1))" if "Some s = Some s1" "repr c1 s1" for s1
          using add_u8.op_here [OF assms(1) _ that(2)] that(1) assms(3) by simp
        fix s1 s2 assume "Some (put [0] s1) = Some s2"
        then have "s2 = put [0] s1" by simp
        then show "length (bimage s1) \<le> length (bimage s2)" by simp
      qed
      moreover have "der_int (uint v) = [0]" using d f st True by simp
      ultimately show ?thesis using l True f by simp
    qed
  qed
qed

lemma uint64_with_tag_refines:
  assumes "malloc_ok m" "repr c s" "d \<le> length (snd s)"
  shows "refines m c (CBB_add_asn1_uint64_with_tag m v t d c)
    (map_option (put (der_element t (der_int (uint v)))) (bflush d s))"
proof -
  define body where "body c = (case asn1_uint64_loop m v [0..<8] False (d + 1) c of
       (False, _, c) \<Rightarrow> (False, c)
     | (True, started, c) \<Rightarrow> (if \<not> started then CBB_add_u8 m 0 (d + 1) c else (True, c)))" for c
  have len: "length (der_int (uint v)) \<le> 0xfffffffe"
  proof -
    have "- (128 * 256 ^ 8) \<le> uint v" by (rule order_trans [OF _ uint_ge_0]) simp
    then have "length (der_int (uint v)) \<le> Suc 8" using uint_bounded [of v] by (intro length_der_int) simp_all
    then show ?thesis by simp
  qed
  have "refines m c (with_element m t body d c) (map_option (put (der_element t (der_int (uint v)))) (bflush d s))"
    by (intro with_element_refines assms len) (unfold body_def, rule uint64_body_refines [OF assms(1)])
  from refines_on_error [OF this, of d]
  have w: "refines m c (case with_element m t body d c of
      (False, c) \<Rightarrow> (False, cbb_on_error c d) | (True, c) \<Rightarrow> (True, c))
    (map_option (put (der_element t (der_int (uint v)))) (bflush d s))" .
  show ?thesis
  proof (cases "\<exists>c1 c2 c3. CBB_add_asn1 m t d c = (True, c1) \<and> body c1 = (True, c2) \<and> CBB_flush m c2 d = (False, c3)")
    case True
    then obtain c1 c2 c3 where f: "CBB_add_asn1 m t d c = (True, c1)" "body c1 = (True, c2)" "CBB_flush m c2 d = (False, c3)"
      by blast
    from f(2) have "CBB_add_asn1_uint64_with_tag m v t d c = (False, c3)"
      using f by (auto simp: CBB_add_asn1_uint64_with_tag_def body_def split: prod.splits bool.splits)
    moreover have wf: "with_element m t body d c = (False, c3)" using f by (simp add: with_element_def and_then_def)
    ultimately show ?thesis
      using \<open>refines m c (with_element m t body d c) _\<close> by simp
  next
    case False
    have "CBB_add_asn1_uint64_with_tag m v t d c = (case with_element m t body d c of
      (False, c) \<Rightarrow> (False, cbb_on_error c d) | (True, c) \<Rightarrow> (True, c))"
      using False
      by (auto simp: CBB_add_asn1_uint64_with_tag_def body_def with_element_def and_then_def
          split: prod.splits bool.splits if_splits)
    with w show ?thesis by simp
  qed
qed

interpretation add_asn1_uint64:
  cbb_writer CBB_add_asn1_uint64 "\<lambda>v. der_element CBS_ASN1_INTEGER (der_int (uint v))" "\<lambda>_. True"
  by unfold_locales (simp add: CBB_add_asn1_uint64_def uint64_with_tag_refines)

section \<open>Negative integers\<close>

lemma asn1_int64_loop_all:
  "i < length bs \<Longrightarrow> asn1_int64_loop m bs i d c = add_all (\<lambda>b. CBB_add_u8 m b d) (rev (take (Suc i) bs)) c"
proof (induction i arbitrary: c)
  case 0
  then show ?case by (cases bs) (auto simp: and_then_def split: prod.splits)
next
  case (Suc i)
  then have "rev (take (Suc (Suc i)) bs) = bs ! Suc i # rev (take (Suc i) bs)"
    by (simp add: take_Suc_conv_app_nth)
  with Suc show ?case by (auto simp: and_then_def split: prod.splits bool.splits)
qed

lemma int64_start_le: "int64_start bs s \<le> s"
  by (induction bs s rule: int64_start.induct) auto

lemma rev_take_hd: "i < length bs \<Longrightarrow> rev (take (Suc i) bs) = bs ! i # rev (take i bs)"
  by (simp add: take_Suc_conv_app_nth)

lemma int64_start_spec:
  "s < length bs \<Longrightarrow> 128 \<le> uint (bs ! s) \<Longrightarrow>
   minimal_int (rev (take (Suc (int64_start bs s)) bs)) \<and>
   tc_val (rev (take (Suc (int64_start bs s)) bs)) = tc_val (rev (take (Suc s) bs))"
proof (induction s)
  case 0
  then show ?case by (simp add: rev_take_hd minimal_int_def valid_integer_simps)
next
  case (Suc s)
  show ?case
  proof (cases "bs ! Suc s = 0xff \<and> bs ! s AND 0x80 \<noteq> 0")
    case True
    then have h: "128 \<le> uint (bs ! s)" by (simp add: high_bit_clear u8_uint_128 not_less)
    have e: "rev (take (Suc (Suc s)) bs) = replicate 1 0xff @ rev (take (Suc s) bs)"
      using True Suc.prems by (simp add: rev_take_hd)
    have "tc_val (replicate 1 0xff @ rev (take (Suc s) bs)) = tc_val (rev (take (Suc s) bs))"
      using h Suc.prems by (intro tc_val_sign_extend) (simp_all add: rev_take_hd)
    with Suc.IH h Suc.prems True e show ?thesis by simp
  next
    case False
    have e: "rev (take (Suc (Suc s)) bs) = bs ! Suc s # bs ! s # rev (take s bs)"
      using Suc.prems by (simp add: rev_take_hd del: take_Suc)
    have "minimal_int (bs ! Suc s # bs ! s # rev (take s bs))"
      using False Suc.prems(2) by (auto simp: minimal_int_def valid_integer_simps high_bit_clear u8_uint_128)
    moreover have "int64_start bs (Suc s) = Suc s" using False by auto
    ultimately show ?thesis using e by simp
  qed
qed

lemma rev_int64_bytes: "rev (int64_bytes v) = be_bytes 8 (unat v)"
proof -
  have "(ucast (drop_bit (8 * i) v) :: u8) = of_nat (unat v div 256 ^ i)" for i
  proof (rule word_eqI_unat)
    have p: "(2::nat) ^ (8 * i) = 256 ^ i" by (simp add: power_mult)
    show "unat (ucast (drop_bit (8 * i) v) :: u8) = unat (of_nat (unat v div 256 ^ i) :: u8)"
      by (simp only: unat_ucast unat_drop_bit p) (simp add: unat_of_nat)
  qed
  then show ?thesis by (simp add: int64_bytes_def be_bytes_map upt_rec)
qed

lemma length_int64_bytes [simp]: "length (int64_bytes v) = 8"
  by (simp add: int64_bytes_def)

lemma int64_negative:
  assumes "sint v < 0"
  shows "rev (take (Suc (int64_start (int64_bytes v) 7)) (int64_bytes v)) = der_int (sint v)"
proof -
  have full: "rev (take (Suc 7) (int64_bytes v)) = be_bytes 8 (unat v)"
    by (simp add: rev_int64_bytes)
  have ne: "be_bytes 8 (unat v) \<noteq> []" by (rule be_bytes_nonempty) simp
  have bv: "be_val (be_bytes 8 (unat v)) = unat v" by (simp only: be_val_be_bytes) simp
  have "CRYPTO_load_u64_be (be_bytes 8 (unat v)) = v"
    by (rule word_eqI_unat) (simp add: CRYPTO_load_u64_be_def cbs_get_u_loop_be_val bv del: be_bytes.simps)
  then have tc: "tc_val (be_bytes 8 (unat v)) = sint v" using sint_be [of "be_bytes 8 (unat v)"] by simp
  have "128 \<le> uint (hd (be_bytes 8 (unat v)))"
  proof (rule ccontr)
    assume "\<not> ?thesis"
    then have "tc_val (be_bytes 8 (unat v)) = int (unat v)" using tc_val_be [OF ne] bv by simp
    with tc assms show False using uint_ge_0 [of v] by simp
  qed
  moreover have "hd (rev (take (Suc 7) (int64_bytes v))) = int64_bytes v ! 7"
    by (subst rev_take_hd) simp_all
  ultimately have "128 \<le> uint (int64_bytes v ! 7)" by (simp only: full)
  moreover have "7 < length (int64_bytes v)" by simp
  ultimately have m: "minimal_int (rev (take (Suc (int64_start (int64_bytes v) 7)) (int64_bytes v))) \<and>
     tc_val (rev (take (Suc (int64_start (int64_bytes v) 7)) (int64_bytes v))) = tc_val (rev (take (Suc 7) (int64_bytes v)))"
    using int64_start_spec by blast
  show ?thesis
    using m unfolding full tc minimal_value_iff .
qed

lemma int64_with_tag_refines:
  assumes "malloc_ok m" "repr c s" "d \<le> length (snd s)"
  shows "refines m c (CBB_add_asn1_int64_with_tag m v t d c)
    (map_option (put (der_element t (der_int (sint v)))) (bflush d s))"
proof (cases "sint v \<ge> 0")
  case True
  then have "uint v = sint v" using uint_bounded [of v] by (simp add: sint_u64 split: if_splits)
  with uint64_with_tag_refines [OF assms, of v t] True show ?thesis
    by (simp add: CBB_add_asn1_int64_with_tag_def)
next
  case False
  define st where "st = int64_start (int64_bytes v) 7"
  have st: "st < length (int64_bytes v)" using int64_start_le [of "int64_bytes v" 7] by (simp add: st_def)
  define body where "body = asn1_int64_loop m (int64_bytes v) st (d + 1)"
  have len: "length (der_int (sint v)) \<le> 0xfffffffe"
  proof -
    have "length (der_int (sint v)) \<le> Suc 7"
      using sint_ge [of v] sint_lt [of v] by (intro length_der_int) simp_all
    then show ?thesis by simp
  qed
  have b: "refines m c1 (body c1) (Some (put (der_int (sint v)) s1))"
    if "repr c1 s1" "length (snd s1) = d + 1" for c1 s1
  proof -
    have "body c1 = add_all (\<lambda>b. CBB_add_u8 m b (d + 1)) (der_int (sint v)) c1"
      unfolding body_def asn1_int64_loop_all [OF st] using False int64_negative [of v] by (simp add: st_def)
    then show ?thesis
      using add_u8.add_all_refines [OF assms(1) _ that, of "der_int (sint v)"] by (simp add: list_all_iff)
  qed
  have w: "refines m c (with_element m t body d c) (map_option (put (der_element t (der_int (sint v)))) (bflush d s))"
    by (intro with_element_refines assms len b)
  define r where "r = (case CBB_add_asn1 m t d c of
      (False, c) \<Rightarrow> (False, c) | (True, c) \<Rightarrow> body c)"
  have int: "CBB_add_asn1_int64_with_tag m v t d c =
      (case r of (False, c) \<Rightarrow> (False, cbb_on_error c d) | (True, c) \<Rightarrow> CBB_flush m c d)"
    using False by (auto simp: CBB_add_asn1_int64_with_tag_def r_def body_def st_def Let_def
        split: prod.splits bool.splits)
  have el: "with_element m t body d c = (case r of (False, c) \<Rightarrow> (False, c) | (True, c) \<Rightarrow> CBB_flush m c d)"
    by (auto simp: with_element_def and_then_def r_def split: prod.splits bool.splits)
  show ?thesis
  proof (cases "fst r")
    case True
    then have "CBB_add_asn1_int64_with_tag m v t d c = with_element m t body d c"
      unfolding int el by (cases r) simp
    with w show ?thesis by simp
  next
    case False
    then have "CBB_add_asn1_int64_with_tag m v t d c = (False, cbb_on_error (snd r) d)"
      "with_element m t body d c = (False, snd r)"
      unfolding int el by (cases r; simp)+
    with w refines_failure show ?thesis by simp
  qed
qed

interpretation add_asn1_int64:
  cbb_writer CBB_add_asn1_int64 "\<lambda>v. der_element CBS_ASN1_INTEGER (der_int (sint v))" "\<lambda>_. True"
  by unfold_locales (simp add: CBB_add_asn1_int64_def int64_with_tag_refines)

section \<open>The DER codecs\<close>

interpretation codec_uint64: codec CBB_add_asn1_uint64
  "\<lambda>v. der_element CBS_ASN1_INTEGER (der_int (uint v))" CBS_get_asn1_uint64 "\<lambda>_. True" ..

interpretation codec_int64: codec CBB_add_asn1_int64
  "\<lambda>v. der_element CBS_ASN1_INTEGER (der_int (sint v))" CBS_get_asn1_int64 "\<lambda>_. True" ..

interpretation codec_bool: codec CBB_add_asn1_bool
  "\<lambda>b. der_element CBS_ASN1_BOOLEAN (der_bool b)" CBS_get_asn1_bool "\<lambda>_. True" ..

end
