(* ===== verification/CBB_Errors.thy ===== *)
theory CBB_Errors
  imports CBB_ASN1
begin

text \<open>
  How the builder fails. \<open>locks A e op\<close>: called with a number of open children in \<open>A\<close>, the operation either
  fails and leaves the \<open>error\<close> flag of the buffer set, or succeeds with \<open>e\<close> open children. A handle \<open>d\<close> is
  live in \<open>{d..}\<close>. The operations of \<open>cbb.c\<close> get this contract from flushing and from growing the buffer.
\<close>

definition locks :: "nat set \<Rightarrow> nat \<Rightarrow> cbb_op \<Rightarrow> bool" where
  "locks A e op \<longleftrightarrow>
     (\<forall>c. length (chain c) \<in> A \<longrightarrow>
        (if fst (op c) then length (chain (snd (op c))) = e else cb_error (base (snd (op c)))))"

lemma locksI:
  assumes "\<And>c c'. length (chain c) \<in> A \<Longrightarrow> op c = (False, c') \<Longrightarrow> cb_error (base c')"
    "\<And>c c'. length (chain c) \<in> A \<Longrightarrow> op c = (True, c') \<Longrightarrow> length (chain c') = e"
  shows "locks A e op"
  unfolding locks_def
proof (intro allI impI)
  fix c :: cbb assume "length (chain c) \<in> A"
  then show "if fst (op c) then length (chain (snd (op c))) = e else cb_error (base (snd (op c)))"
    using assms [of c "snd (op c)"] by (cases "op c"; cases "fst (op c)") simp_all
qed

lemma locks_False: "locks A e op \<Longrightarrow> op c = (False, c') \<Longrightarrow> length (chain c) \<in> A \<Longrightarrow> cb_error (base c')"
  unfolding locks_def by (metis fst_conv snd_conv)

lemma locks_True: "locks A e op \<Longrightarrow> op c = (True, c') \<Longrightarrow> length (chain c) \<in> A \<Longrightarrow> length (chain c') = e"
  unfolding locks_def by (metis fst_conv snd_conv)

lemma locks_mono: "locks A e op \<Longrightarrow> B \<subseteq> A \<Longrightarrow> locks B e op"
  unfolding locks_def by blast

lemma locks_succeed: "locks {d} d (Pair True)"
  by (rule locksI) simp_all

lemma locks_seq:
  assumes "locks A e f" "locks B k g" "e \<in> B"
  shows "locks A k (\<lambda>c. case f c of (False, c) \<Rightarrow> (False, c) | (True, c) \<Rightarrow> g c)"
proof (rule locksI)
  fix c c' :: cbb assume d: "length (chain c) \<in> A"
  { assume "(case f c of (False, c) \<Rightarrow> (False, c) | (True, c) \<Rightarrow> g c) = (False, c')"
    then consider "f c = (False, c')" | c1 where "f c = (True, c1)" "g c1 = (False, c')"
      by (auto split: prod.splits bool.splits)
    then show "cb_error (base c')"
      using locks_False [OF assms(1) _ d] locks_True [OF assms(1) _ d] locks_False [OF assms(2)] assms(3) by cases blast+ }
  { assume "(case f c of (False, c) \<Rightarrow> (False, c) | (True, c) \<Rightarrow> g c) = (True, c')"
    then obtain c1 where "f c = (True, c1)" "g c1 = (True, c')"
      by (auto split: prod.splits bool.splits)
    then show "length (chain c') = k" using locks_True [OF assms(1) _ d] locks_True [OF assms(2)] assms(3) by simp }
qed

lemma locks_and_then: "locks A e f \<Longrightarrow> locks B k g \<Longrightarrow> e \<in> B \<Longrightarrow> locks A k (and_then f g)"
proof -
  have "and_then f g = (\<lambda>c. case f c of (False, c) \<Rightarrow> (False, c) | (True, c) \<Rightarrow> g c)"
    by (rule ext) (simp add: and_then_def split: prod.splits)
  then show "locks A e f \<Longrightarrow> locks B k g \<Longrightarrow> e \<in> B \<Longrightarrow> locks A k (and_then f g)" using locks_seq [of A e f B k g] by simp
qed

text \<open>An operation whose error path sets the flag itself.\<close>

lemma locks_caught:
  assumes "locks A e op" "locks B k g" "e \<in> B"
  shows "locks A k (\<lambda>c. case op c of (False, c) \<Rightarrow> (False, cbb_on_error c j) | (True, c) \<Rightarrow> g c)"
proof -
  have "locks A e (\<lambda>c. case op c of (False, c) \<Rightarrow> (False, cbb_on_error c j) | (True, c) \<Rightarrow> (True, c))"
    by (rule locksI) (auto simp: cbb_on_error_def split: prod.splits bool.splits dest: locks_True [OF assms(1)])
  from locks_seq [OF this assms(2,3)] show ?thesis
    by (rule back_subst [of "locks A k"]) (auto simp: fun_eq_iff split: prod.splits bool.splits)
qed

section \<open>The buffer\<close>

lemma buffer_reserve_error: "cbb_buffer_reserve m b n = (False, b') \<Longrightarrow> cb_error b'"
  by (auto simp: cbb_buffer_reserve_def Let_def split: if_splits option.splits)

lemma buffer_add_error: "cbb_buffer_add m b n = (False, b') \<Longrightarrow> cb_error b'"
  by (auto simp: cbb_buffer_add_def split: prod.splits bool.splits dest: buffer_reserve_error)

lemma flush_child_error: "cbb_flush_child m c d ch = (False, c') \<Longrightarrow> cb_error (base c')"
  by (auto simp: cbb_flush_child_def cbb_on_error_def Let_def split: if_splits prod.splits bool.splits)

lemma flush_child_chain: "cbb_flush_child m c d ch = (True, c') \<Longrightarrow> chain c' = take d (chain c)"
  by (auto simp: cbb_flush_child_def cbb_on_error_def Let_def split: if_splits prod.splits bool.splits)

lemma flush_cases:
  "CBB_flush m c d = (ok, c') \<Longrightarrow> d \<le> length (chain c) \<Longrightarrow> if ok then length (chain c') = d else cb_error (base c')"
proof (induction m c d arbitrary: ok c' rule: CBB_flush.induct)
  case (1 m c d)
  show ?case
  proof (cases "cb_error (base c) \<or> length (chain c) = d")
    case True
    then show ?thesis using "1.prems" by (subst (asm) CBB_flush.simps) (auto split: if_splits)
  next
    case False
    obtain k c1 where r: "CBB_flush m c (Suc d) = (k, c1)" by force
    have IH: "if k then length (chain c1) = Suc d else cb_error (base c1)"
      using "1.IH" [OF _ _ r] False "1.prems"(2) by simp
    have e: "(ok, c') = (if k then cbb_flush_child m c1 d (chain c ! d) else (False, cbb_on_error c1 d))"
      using "1.prems" False r by (subst (asm) CBB_flush.simps) (auto split: if_splits)
    show ?thesis using e IH flush_child_error [of m c1 d "chain c ! d" c'] flush_child_chain [of m c1 d "chain c ! d" c']
      by (cases k; cases ok) (simp_all add: cbb_on_error_def)
  qed
qed

lemma flush_locks: "locks {d..} d (\<lambda>c. CBB_flush m c d)"
proof (rule locksI)
  show "cb_error (base c')" if "length (chain c) \<in> {d..}" "CBB_flush m c d = (False, c')" for c c'
    using flush_cases [OF that(2)] that(1) by simp
  show "length (chain c') = d" if "length (chain c) \<in> {d..}" "CBB_flush m c d = (True, c')" for c c'
    using flush_cases [OF that(2)] that(1) by simp
qed

section \<open>The operations\<close>

lemma space_locks: "locks {d..} d (map_prod (\<lambda>r. r \<noteq> None) id \<circ> CBB_add_space m n d)"
  by (rule locksI)
    (auto simp: CBB_add_space_def split: prod.splits bool.splits dest: buffer_add_error locks_False [OF flush_locks] locks_True [OF flush_locks])

lemma reserve_locks: "locks {d..} d (map_prod (\<lambda>r. r \<noteq> None) id \<circ> CBB_reserve m n d)"
  by (rule locksI)
    (auto simp: CBB_reserve_def split: prod.splits bool.splits dest: buffer_reserve_error locks_False [OF flush_locks] locks_True [OF flush_locks])

lemma space_cases:
  assumes "CBB_add_space m n d c = (r, c')" "d \<le> length (chain c)"
  shows "if r = None then cb_error (base c') else length (chain c') = d"
  using locks_False [OF space_locks, of m n d c c'] locks_True [OF space_locks, of m n d c c'] assms by auto

lemma add_bytes_locks: "locks {d..} d (CBB_add_bytes m data d)"
  by (rule locksI) (auto simp: CBB_add_bytes_def put_bytes_def split: prod.splits option.splits dest!: space_cases)

lemma add_zeros_locks: "locks {d..} d (CBB_add_zeros m n d)"
  by (rule locksI) (auto simp: CBB_add_zeros_def put_bytes_def split: prod.splits option.splits dest!: space_cases)

lemma add_u_locks: "locks {d..} d (cbb_add_u m v n d)"
  by (rule locksI)
    (auto simp: cbb_add_u_def cbb_on_error_def Let_def split: prod.splits option.splits if_splits dest!: space_cases)

lemma add_u8_locks: "locks {d..} d (CBB_add_u8 m v d)"
  unfolding CBB_add_u8_def by (rule add_u_locks)

lemma add_child_locks: "locks {d} (Suc d) (cbb_add_child m n a d)"
  by (rule locksI) (auto simp: cbb_add_child_def Let_def split: prod.splits bool.splits dest: buffer_add_error)

lemma length_prefixed_locks: "locks {d..} (Suc d) (cbb_add_length_prefixed m n d)"
  using locks_seq [OF flush_locks add_child_locks] unfolding cbb_add_length_prefixed_def by blast

lemma base128_loop_locks: "locks {d} d (add_base128_loop m v i d)"
proof (induction i)
  case 0
  then show ?case using locks_succeed by (rule back_subst [of "locks {d} d"]) auto
next
  case (Suc i)
  then show ?case
    using locks_seq [OF locks_mono [OF add_u8_locks] Suc, of "{d}"] by (simp add: add_base128_loop.simps Let_def)
qed

lemma base128_locks: "locks {d} d (add_base128_integer m v d)"
  using base128_loop_locks unfolding add_base128_integer_def Let_def by blast

lemma tag_locks:
  "locks {d..} d (if P then and_then (CBB_add_u8 m a d) (add_base128_integer m v d) else CBB_add_u8 m b d)"
  using locks_and_then [OF add_u8_locks base128_locks] add_u8_locks by simp

lemma add_asn1_locks: "locks {d..} (Suc d) (CBB_add_asn1 m tag d)"
proof -
  define P where "P = (tag AND CBS_ASN1_TAG_NUMBER_MASK \<ge> 0x1f)"
  define bits where "bits = (ucast (drop_bit CBS_ASN1_TAG_SHIFT tag AND 0xe0) :: u8)"
  define write_tag where "write_tag =
    (if P then and_then (CBB_add_u8 m (bits OR 0x1f) d) (add_base128_integer m (ucast (tag AND CBS_ASN1_TAG_NUMBER_MASK)) d)
     else CBB_add_u8 m (ucast (ucast bits OR (tag AND CBS_ASN1_TAG_NUMBER_MASK))) d)"
  have t: "locks {d..} d write_tag" unfolding write_tag_def by (rule tag_locks)
  have "CBB_add_asn1 m tag d =
    (\<lambda>c. case CBB_flush m c d of (False, c) \<Rightarrow> (False, c)
     | (True, c) \<Rightarrow> (case write_tag c of (False, c) \<Rightarrow> (False, c) | (True, c) \<Rightarrow> cbb_add_child m 1 True d c))"
    unfolding CBB_add_asn1_def Let_def write_tag_def P_def bits_def
    by (rule ext) (simp split: prod.splits bool.splits)
  then show ?thesis using locks_seq [OF flush_locks locks_seq [OF t add_child_locks]] by simp
qed

text \<open>The loops of the INTEGER writers, on the handle of the child.\<close>

lemma uint64_loop_cases:
  "asn1_uint64_loop m v is started d c = (ok, st, c') \<Longrightarrow> length (chain c) = d \<Longrightarrow>
   if ok then length (chain c') = d else cb_error (base c')"
proof (induction m v "is" started d c rule: asn1_uint64_loop.induct)
  case (2 m v i "is" started d c)
  note u = locks_False [OF add_u8_locks] locks_True [OF add_u8_locks]
  show ?case using "2.prems" "2.IH" u
    by (auto simp: Let_def split: if_splits prod.splits bool.splits)
qed auto

lemma int64_loop_locks: "locks {d..} d (asn1_int64_loop m bs i d)"
proof (induction i)
  case 0
  then show ?case using add_u8_locks by (simp add: asn1_int64_loop.simps)
next
  case (Suc i)
  then show ?case using locks_seq [OF add_u8_locks Suc] by (simp add: asn1_int64_loop.simps)
qed

lemma uint64_with_tag_locks: "locks {d..} d (CBB_add_asn1_uint64_with_tag m v tag d)"
proof -
  define digits where "digits c = (case asn1_uint64_loop m v [0..<8] False (d + 1) c of
      (False, _, c) \<Rightarrow> (False, cbb_on_error c d)
    | (True, started, c) \<Rightarrow> (if \<not> started then CBB_add_u8 m 0 (d + 1) c else (True, c)))" for c
  have "locks {Suc d} (Suc d) digits"
  proof (rule locksI)
    fix c c' :: cbb assume c: "length (chain c) \<in> {Suc d}"
    obtain ok st c1 where l: "asn1_uint64_loop m v [0..<8] False (d + 1) c = (ok, st, c1)" by (cases rule: prod_cases3)
    have c1: "ok \<Longrightarrow> length (chain c1) = Suc d" using uint64_loop_cases [OF l] c by simp
    have r: "digits c = (if \<not> ok then (False, cbb_on_error c1 d) else if st then (True, c1) else CBB_add_u8 m 0 (Suc d) c1)"
      using l by (simp add: digits_def)
    note u = locks_False [OF add_u8_locks, of m 0 "Suc d" c1] locks_True [OF add_u8_locks, of m 0 "Suc d" c1]
    show "cb_error (base c')" if "digits c = (False, c')"
      using that c1 u(1) unfolding r by (cases ok; cases st) (auto simp: cbb_on_error_def)
    show "length (chain c') = Suc d" if "digits c = (True, c')"
      using that c1 u(2) unfolding r by (cases ok; cases st) auto
  qed
  then have "locks {Suc d} d (\<lambda>c. case digits c of (False, c) \<Rightarrow> (False, cbb_on_error c d) | (True, c) \<Rightarrow> CBB_flush m c d)"
    by (rule locks_caught [OF _ flush_locks]) simp
  from locks_caught [OF add_asn1_locks [where m = m and tag = tag] this, where j = d] show ?thesis
    by (rule back_subst [of "locks {d..} d"])
      (auto simp: fun_eq_iff CBB_add_asn1_uint64_with_tag_def digits_def cbb_on_error_def split: prod.splits bool.splits)
qed

lemma int64_with_tag_locks: "locks {d..} d (CBB_add_asn1_int64_with_tag m v tag d)"
proof (cases "sint v \<ge> 0")
  case True
  then have "CBB_add_asn1_int64_with_tag m v tag d = CBB_add_asn1_uint64_with_tag m v tag d"
    by (simp add: fun_eq_iff CBB_add_asn1_int64_with_tag_def)
  then show ?thesis using uint64_with_tag_locks by simp
next
  case False
  let ?loop = "asn1_int64_loop m (int64_bytes v) (int64_start (int64_bytes v) 7) (Suc d)"
  have "locks {Suc d..} d (\<lambda>c. case ?loop c of (False, c) \<Rightarrow> (False, cbb_on_error c d) | (True, c) \<Rightarrow> CBB_flush m c d)"
    by (rule locks_caught [OF int64_loop_locks flush_locks]) simp
  from locks_caught [OF add_asn1_locks [of d m tag] this, where j = d] show ?thesis
    by (rule back_subst [of "locks {d..} d"])
      (auto simp: fun_eq_iff CBB_add_asn1_int64_with_tag_def Let_def False split: prod.splits bool.splits)
qed

lemma octet_string_locks: "locks {d..} d (CBB_add_asn1_octet_string m data d)"
proof -
  have "locks {Suc d..} d (and_then (CBB_add_bytes m data (d + 1)) (\<lambda>c. CBB_flush m c d))"
    using locks_and_then [OF add_bytes_locks flush_locks, of "Suc d" d] by simp
  from locks_caught [OF locks_and_then [OF add_asn1_locks this] locks_succeed] show ?thesis
    unfolding CBB_add_asn1_octet_string_def by simp
qed

lemma bool_locks: "locks {d..} d (CBB_add_asn1_bool m value d)"
proof -
  have "locks {Suc d..} d (and_then (CBB_add_u8 m (if value then 0xff else 0) (d + 1)) (\<lambda>c. CBB_flush m c d))"
    using locks_and_then [OF add_u8_locks flush_locks, of "Suc d" d] by simp
  from locks_caught [OF locks_and_then [OF add_asn1_locks this] locks_succeed] show ?thesis
    unfolding CBB_add_asn1_bool_def by simp
qed

section \<open>Calls\<close>

text \<open>
  The calls of the interface that write through a handle, and what they report. The pointers that
  \<open>CBB_add_space\<close> and \<open>CBB_reserve\<close> return are a success when they are there, and \<open>CBB_discard_child\<close>, which
  returns nothing, always is one; \<open>qs\<close> is the C library's \<open>qsort\<close>.
\<close>

datatype cbb_call =
    Flush
  | Add_bytes bytes | Add_zeros nat | Add_space nat | Reserve nat | Did_write nat
  | Add_u8 u8 | Add_u16 u16 | Add_u16le u16 | Add_u24 u32 | Add_u32 u32 | Add_u32le u32 | Add_u64 u64 | Add_u64le u64
  | Add_u8_length_prefixed | Add_u16_length_prefixed | Add_u24_length_prefixed
  | Add_asn1 tag | Add_asn1_uint64_with_tag u64 tag | Add_asn1_int64_with_tag u64 tag
  | Add_asn1_octet_string bytes | Add_asn1_bool bool | Add_asn1_oid_from_text bytes
  | Flush_asn1_set_of | Discard_child

fun run_call ::
  "((bytes \<Rightarrow> bytes \<Rightarrow> int) \<Rightarrow> bytes list \<Rightarrow> bytes list) \<Rightarrow> malloc \<Rightarrow> cbb_call \<Rightarrow> nat \<Rightarrow> cbb_op" where
  "run_call qs m Flush d c = CBB_flush m c d"
| "run_call qs m (Add_bytes data) d c = CBB_add_bytes m data d c"
| "run_call qs m (Add_zeros n) d c = CBB_add_zeros m n d c"
| "run_call qs m (Add_space n) d c = (let (r, c) = CBB_add_space m n d c in (r \<noteq> None, c))"
| "run_call qs m (Reserve n) d c = (let (r, c) = CBB_reserve m n d c in (r \<noteq> None, c))"
| "run_call qs m (Did_write n) d c = CBB_did_write n d c"
| "run_call qs m (Add_u8 v) d c = CBB_add_u8 m v d c"
| "run_call qs m (Add_u16 w) d c = CBB_add_u16 m w d c"
| "run_call qs m (Add_u16le w) d c = CBB_add_u16le m w d c"
| "run_call qs m (Add_u24 x) d c = CBB_add_u24 m x d c"
| "run_call qs m (Add_u32 x) d c = CBB_add_u32 m x d c"
| "run_call qs m (Add_u32le x) d c = CBB_add_u32le m x d c"
| "run_call qs m (Add_u64 y) d c = CBB_add_u64 m y d c"
| "run_call qs m (Add_u64le y) d c = CBB_add_u64le m y d c"
| "run_call qs m Add_u8_length_prefixed d c = CBB_add_u8_length_prefixed m d c"
| "run_call qs m Add_u16_length_prefixed d c = CBB_add_u16_length_prefixed m d c"
| "run_call qs m Add_u24_length_prefixed d c = CBB_add_u24_length_prefixed m d c"
| "run_call qs m (Add_asn1 tag) d c = CBB_add_asn1 m tag d c"
| "run_call qs m (Add_asn1_uint64_with_tag y tag) d c = CBB_add_asn1_uint64_with_tag m y tag d c"
| "run_call qs m (Add_asn1_int64_with_tag y tag) d c = CBB_add_asn1_int64_with_tag m y tag d c"
| "run_call qs m (Add_asn1_octet_string data) d c = CBB_add_asn1_octet_string m data d c"
| "run_call qs m (Add_asn1_bool b) d c = CBB_add_asn1_bool m b d c"
| "run_call qs m (Add_asn1_oid_from_text data) d c = CBB_add_asn1_oid_from_text m data d c"
| "run_call qs m Flush_asn1_set_of d c = CBB_flush_asn1_set_of qs m d c"
| "run_call qs m Discard_child d c = (True, CBB_discard_child d c)"

fun run_calls ::
  "((bytes \<Rightarrow> bytes \<Rightarrow> int) \<Rightarrow> bytes list \<Rightarrow> bytes list) \<Rightarrow> malloc \<Rightarrow> (cbb_call \<times> nat) list \<Rightarrow> cbb \<Rightarrow> bool list \<times> cbb" where
  "run_calls qs m [] c = ([], c)"
| "run_calls qs m ((call, d) # calls) c =
     (let (ok, c) = run_call qs m call d c; (oks, c) = run_calls qs m calls c in (ok # oks, c))"

text \<open>
  The calls that can fail for a reason of their own without touching the flag: a text that is no object
  identifier, contents that are no elements, a length that was not reserved. And those that do not look
  at the flag.
\<close>

definition rejects_arguments :: "cbb_call \<Rightarrow> bool" where
  "rejects_arguments call \<longleftrightarrow>
     (case call of Add_asn1_oid_from_text _ \<Rightarrow> True | Flush_asn1_set_of \<Rightarrow> True | Did_write _ \<Rightarrow> True | _ \<Rightarrow> False)"

definition checks_flag :: "cbb_call \<Rightarrow> bool" where
  "checks_flag call \<longleftrightarrow> (case call of Did_write _ \<Rightarrow> False | Discard_child \<Rightarrow> False | _ \<Rightarrow> True)"

lemmas add_u_defs = CBB_add_u8_def CBB_add_u16_def CBB_add_u16le_def CBB_add_u24_def CBB_add_u32_def CBB_add_u32le_def
  CBB_add_u64_def CBB_add_u64le_def CBB_add_u8_length_prefixed_def CBB_add_u16_length_prefixed_def CBB_add_u24_length_prefixed_def

text \<open>A call that fails for any other reason sets the flag.\<close>

lemma call_failure:
  assumes "run_call qs m call d c = (False, c')" "d \<le> length (chain c)" "\<not> rejects_arguments call"
  shows "cb_error (base c')"
proof -
  have d: "length (chain c) \<in> {d..}" using assms(2) by simp
  note locked = flush_locks add_bytes_locks add_zeros_locks add_u_locks length_prefixed_locks add_asn1_locks
    uint64_with_tag_locks int64_with_tag_locks octet_string_locks bool_locks
  have sp: "r = None \<Longrightarrow> cb_error (base c1)" if "CBB_add_space m n d c = (r, c1)" for n r c1
    using space_cases [OF that assms(2)] by auto
  have rs: "r = None \<Longrightarrow> cb_error (base c1)" if "CBB_reserve m n d c = (r, c1)" for n r c1
    using locks_False [OF reserve_locks, of m n d c c1] that d by simp
  show ?thesis using assms(1,3) sp rs
    by (cases call) (auto simp: rejects_arguments_def add_u_defs split: prod.splits intro: locks_False [OF _ _ d] locked)
qed

text \<open>Once the flag is set it stays, and every call that looks at it fails.\<close>

lemma flush_locked: "cb_error (base c) \<Longrightarrow> CBB_flush m c d = (False, c)"
  by (subst CBB_flush.simps) simp

lemma space_locked: "cb_error (base c) \<Longrightarrow> CBB_add_space m n d c = (None, c)"
  by (simp add: CBB_add_space_def flush_locked)

lemma asn1_locked: "cb_error (base c) \<Longrightarrow> CBB_add_asn1 m tag d c = (False, c)"
  by (simp add: CBB_add_asn1_def flush_locked)

lemma uint64_locked: "cb_error (base c) \<Longrightarrow> CBB_add_asn1_uint64_with_tag m v tag d c = (False, cbb_on_error c d)"
  by (simp add: CBB_add_asn1_uint64_with_tag_def asn1_locked)

lemmas locked_call = flush_locked space_locked asn1_locked uint64_locked CBB_reserve_def CBB_add_bytes_def CBB_add_zeros_def
  cbb_add_u_def cbb_add_length_prefixed_def CBB_add_asn1_int64_with_tag_def CBB_add_asn1_octet_string_def CBB_add_asn1_bool_def
  CBB_add_asn1_oid_from_text_def CBB_flush_asn1_set_of_def CBB_did_write_def CBB_discard_child_def and_then_def

lemma call_locked:
  assumes "cb_error (base c)"
  shows "cb_error (base (snd (run_call qs m call d c)))" "checks_flag call \<Longrightarrow> \<not> fst (run_call qs m call d c)"
  using assms by (cases call; simp add: add_u_defs locked_call checks_flag_def cbb_on_error_def Let_def)+

lemma calls_locked:
  assumes "cb_error (base c)" "run_calls qs m calls c = (oks, c')"
  shows "cb_error (base c') \<and> list_all2 (\<lambda>(call, _) ok. checks_flag call \<longrightarrow> \<not> ok) calls oks"
  using assms
proof (induction calls arbitrary: c oks)
  case (Cons x calls)
  obtain call d where x: "x = (call, d)" by force
  obtain ok c1 where r: "run_call qs m call d c = (ok, c1)" by force
  obtain oks1 where r1: "run_calls qs m calls c1 = (oks1, c')" "oks = ok # oks1"
    using Cons.prems(2) r by (auto simp: x split: prod.splits)
  have "cb_error (base c1)" "checks_flag call \<Longrightarrow> \<not> ok"
    using call_locked [OF Cons.prems(1), where qs = qs and m = m and call = call and d = d] r by simp_all
  then show ?case using Cons.IH [OF _ r1(1)] by (simp add: x r1(2))
qed simp

lemma finish_locked: "cb_error (base c) \<Longrightarrow> CBB_finish m g d c = (None, c)"
  by (simp add: CBB_finish_def flush_locked)

end
