(* ===== verification/OID.thy ===== *)
theory OID
  imports CBB_DER
begin

text \<open>
  Object identifiers: \<open>CBS_asn1_oid_to_text\<close> of \<open>cbs.c\<close> and \<open>CBB_add_asn1_oid_from_text\<close> of
  \<open>cbb.c\<close> translate between the DER contents of an OBJECT IDENTIFIER and dotted decimal text.
\<close>

definition add_decimal :: "malloc \<Rightarrow> u64 \<Rightarrow> nat \<Rightarrow> cbb_op" where
  "add_decimal m v d = CBB_add_bytes m (decimal (unat v)) d"

function oid_to_text_loop :: "malloc \<Rightarrow> cbs \<Rightarrow> cbb_op" where
  "oid_to_text_loop m copy c =
     (if length copy \<noteq> 0 then
        (case parse_base128_integer copy of
           (None, _) \<Rightarrow> (False, c)
         | (Some v, copy') \<Rightarrow>
             (if length copy' < length copy then
                (case and_then (CBB_add_u8 m 0x2e 0) (add_decimal m v 0) c of
                   (False, c) \<Rightarrow> (False, c) | (True, c) \<Rightarrow> oid_to_text_loop m copy' c)
              else (False, c)))
      else (True, c))"
  by pat_completeness auto
termination
  by (relation "measure (\<lambda>(m, copy, c). length copy)") auto

declare oid_to_text_loop.simps [simp del]

definition CBS_asn1_oid_to_text :: "malloc \<Rightarrow> cbs \<Rightarrow> bytes option" where
  "CBS_asn1_oid_to_text m cbs =
     (case CBB_init m 32 of
        None \<Rightarrow> None
      | Some cbb \<Rightarrow>
          (case parse_base128_integer cbs of
             (None, _) \<Rightarrow> None
           | (Some v, copy) \<Rightarrow>
               (case (if v \<ge> 80
                      then and_then (CBB_add_bytes m [0x32, 0x2e] 0) (add_decimal m (v - 80) 0) cbb
                      else and_then (add_decimal m (v div 40) 0)
                             (and_then (CBB_add_u8 m 0x2e 0) (add_decimal m (v mod 40) 0)) cbb) of
                  (False, _) \<Rightarrow> None
                | (True, cbb) \<Rightarrow>
                    (case and_then (oid_to_text_loop m copy) (CBB_add_u8 m 0 0) cbb of
                       (False, _) \<Rightarrow> None
                     | (True, cbb) \<Rightarrow>
                         (case CBB_finish m True 0 cbb of
                            (None, _) \<Rightarrow> None | (Some (txt, txt_len), _) \<Rightarrow> Some (take txt_len txt))))))"

section \<open>The two forms\<close>

text \<open>An object identifier is its list of arcs; the first two share one integer in DER.\<close>

definition valid_oid :: "u64 list \<Rightarrow> bool" where
  "valid_oid arcs =
     (case arcs of
        a # b # _ \<Rightarrow> unat a \<le> 2 \<and> (unat a < 2 \<longrightarrow> unat b \<le> 39) \<and> unat b + 80 < 2 ^ 64
      | _ \<Rightarrow> False)"

definition oid_der :: "u64 list \<Rightarrow> bytes" where
  "oid_der arcs =
     (case arcs of
        a # b # vs \<Rightarrow> base128 (40 * unat a + unat b) @ concat (map (\<lambda>v. base128 (unat v)) vs)
      | _ \<Rightarrow> [])"

definition oid_text :: "u64 list \<Rightarrow> bytes" where
  "oid_text arcs =
     (case arcs of [] \<Rightarrow> [] | a # vs \<Rightarrow> decimal (unat a) @ concat (map (\<lambda>v. 0x2e # decimal (unat v)) vs))"

lemma oid_text_simps [simp]:
  "oid_text [] = []" "oid_text [a] = decimal (unat a)"
  "oid_text (a # b # vs) = decimal (unat a) @ 0x2e # oid_text (b # vs)"
  by (simp_all add: oid_text_def)

lemma decimal_nonempty [simp]: "decimal n \<noteq> []"
  by (subst decimal.simps) simp

lemma oid_text_nonempty [simp]: "oid_text arcs = [] \<longleftrightarrow> arcs = []"
  by (cases arcs) (simp_all add: oid_text_def)

lemma no_digit_dot [simp]: "no_digit (0x2e # r)" "no_digit []"
  by (simp_all add: no_digit_def digit_iff)

lemma dotted_decimal_iff:
  "parse_dotted_decimal c = (Some v, c') \<longleftrightarrow>
   c = decimal (unat v) \<and> c' = [] \<or> c' \<noteq> [] \<and> c = decimal (unat v) @ 0x2e # c'" (is "?L \<longleftrightarrow> ?R")
proof
  assume ?L
  then obtain c1 where c1: "CBS_get_u64_decimal c = (Some v, c1)"
    "(CBS_get_u8 c1 = (None, c')) \<or> (CBS_get_u8 c1 = (Some 0x2e, c') \<and> c' \<noteq> [])"
    by (auto simp: parse_dotted_decimal_def split: prod.splits option.splits if_splits)
  then show ?R by (cases c1) (auto simp: CBS_get_u64_decimal_iff)
next
  assume ?R
  then show ?L
  proof
    assume a: "c = decimal (unat v) \<and> c' = []"
    then have "CBS_get_u64_decimal c = (Some v, [])" by (simp add: CBS_get_u64_decimal_iff)
    with a show ?L by (simp add: parse_dotted_decimal_def)
  next
    assume a: "c' \<noteq> [] \<and> c = decimal (unat v) @ 0x2e # c'"
    then have "CBS_get_u64_decimal c = (Some v, 0x2e # c')" by (simp add: CBS_get_u64_decimal_iff)
    with a show ?L by (simp add: parse_dotted_decimal_def)
  qed
qed

lemma dotted_decimal_strict: "parse_dotted_decimal c = (Some v, c') \<Longrightarrow> length c' < length c"
  by (auto simp: dotted_decimal_iff)

lemma decimal_loop_suffix: "suffix (snd (CBS_get_u64_decimal_loop c v seen)) c"
  by (induction c v seen rule: CBS_get_u64_decimal_loop.induct)
    (auto simp: Let_def intro: suffix_ConsI split: if_splits)

lemma get_u8_suffix: "suffix (snd (CBS_get_u8 c)) c"
  by (cases c) (auto intro: suffix_ConsI)

interpretation dotted_reader: strict_reader parse_dotted_decimal
proof
  fix c
  have 1: "suffix (snd (CBS_get_u64_decimal c)) c"
    by (simp add: CBS_get_u64_decimal_def decimal_loop_suffix)
  have "snd (parse_dotted_decimal c) = snd (CBS_get_u64_decimal c) \<or>
      snd (parse_dotted_decimal c) = snd (CBS_get_u8 (snd (CBS_get_u64_decimal c)))"
    by (auto simp: parse_dotted_decimal_def split: prod.splits option.splits)
  with 1 get_u8_suffix show "suffix (snd (parse_dotted_decimal c)) c"
    by (metis suffix_order.trans)
qed (rule dotted_decimal_strict)

lemma read_dotted_text: "read_all parse_dotted_decimal (oid_text vs) = Some vs"
proof (induction vs)
  case (Cons v vs)
  have "parse_dotted_decimal (oid_text (v # vs)) = (Some v, oid_text vs)"
    by (cases vs) (simp_all add: dotted_decimal_iff)
  with Cons dotted_decimal_strict [OF this] show ?case by (simp add: read_all_step)
qed simp

lemma read_dotted_iff: "read_all parse_dotted_decimal c = Some vs \<longleftrightarrow> c = oid_text vs"
proof
  show "read_all parse_dotted_decimal c = Some vs \<Longrightarrow> c = oid_text vs"
  proof (induction c arbitrary: vs rule: length_induct)
    case (1 c)
    from "1.prems" show ?case
    proof (cases rule: read_all_SomeE)
      case (2 v c' ys)
      with "1.IH" have c': "c' = oid_text ys" by blast
      from 2(2) show ?thesis
        unfolding 2(5) dotted_decimal_iff c' by (cases ys) auto
    qed simp
  qed
qed (simp add: read_dotted_text)

section \<open>From text\<close>

lemma components_loop_read:
  "read_all parse_dotted_decimal cbs = Some vs \<Longrightarrow>
   oid_components_loop m cbs d c = add_all (\<lambda>v. add_base128_integer m v d) vs c"
proof (induction cbs arbitrary: vs c rule: length_induct)
  case (1 cbs)
  from "1.prems" show ?case
  proof (cases rule: read_all_SomeE)
    case 1
    then show ?thesis by (subst oid_components_loop.simps) simp
  next
    case (2 v c' ys)
    with "1.IH" have "oid_components_loop m c' d c2 = add_all (\<lambda>v. add_base128_integer m v d) ys c2" for c2 by blast
    with 2 show ?thesis
      by (subst oid_components_loop.simps) (auto simp: and_then_def split: prod.splits bool.splits)
  qed
qed

lemma components_loop_fail:
  "read_all parse_dotted_decimal cbs = None \<Longrightarrow> \<not> fst (oid_components_loop m cbs d c)"
proof (induction cbs arbitrary: c rule: length_induct)
  case (1 cbs)
  have ne: "cbs \<noteq> []" using "1.prems" by auto
  obtain r c' where p: "parse_dotted_decimal cbs = (r, c')" by force
  show ?case
  proof (cases r)
    case None
    with p ne show ?thesis by (subst oid_components_loop.simps) simp
  next
    case (Some v)
    then have lt: "length c' < length cbs" using p dotted_decimal_strict by blast
    then have "read_all parse_dotted_decimal c' = None"
      using "1.prems" p Some by (simp add: read_all_step)
    with "1.IH" lt have "\<not> fst (oid_components_loop m c' d c2)" for c2 by blast
    with p Some ne lt show ?thesis
      by (subst oid_components_loop.simps) (auto split: prod.splits bool.splits)
  qed
qed

lemma uint64_max_80: "b > UINT64_MAX - 80 \<longleftrightarrow> \<not> unat b + 80 < 2 ^ 64"
proof -
  have "unat (UINT64_MAX - 80) = 2 ^ 64 - 81" by (simp add: UINT64_MAX_def)
  then show ?thesis by (simp add: word_less_nat_alt) arith
qed

lemma oid_guard: "\<not> (a > 2 \<or> (a < 2 \<and> b > 39) \<or> b > UINT64_MAX - 80) \<longleftrightarrow> valid_oid (a # b # vs)"
  unfolding uint64_max_80 by (auto simp: valid_oid_def word_less_nat_alt)

lemma first_arcs:
  assumes "valid_oid (a # b # vs)"
  shows "unat (40 * a + b) = 40 * unat a + unat b"
proof -
  have "40 * unat a + unat b < 2 ^ 64" using assms by (simp add: valid_oid_def)
  then show ?thesis by (simp add: unat_word_ariths)
qed

text \<open>The text is accepted exactly if it is the dotted form of a valid identifier.\<close>

lemma from_text_success:
  assumes "CBB_add_asn1_oid_from_text m text d c = (True, c')"
  shows "\<exists>arcs. valid_oid arcs \<and> text = oid_text arcs"
proof -
  from assms obtain c1 a cbs1 b cbs2 c2 where f: "CBB_flush m c d = (True, c1)"
    "parse_dotted_decimal text = (Some a, cbs1)" "parse_dotted_decimal cbs1 = (Some b, cbs2)"
    "\<not> (a > 2 \<or> (a < 2 \<and> b > 39) \<or> b > UINT64_MAX - 80)"
    "add_base128_integer m (40 * a + b) d c1 = (True, c2)" "oid_components_loop m cbs2 d c2 = (True, c')"
    by (auto simp: CBB_add_asn1_oid_from_text_def split: prod.splits option.splits bool.splits if_splits)
  from f(6) components_loop_fail [of cbs2 m d c2] obtain vs where vs: "read_all parse_dotted_decimal cbs2 = Some vs"
    by fastforce
  have "read_all parse_dotted_decimal text = Some (a # b # vs)"
    using f(2,3) vs dotted_decimal_strict by (simp add: read_all_step)
  moreover have "valid_oid (a # b # vs)"
    using f(4) by (rule oid_guard [THEN iffD1])
  ultimately show ?thesis by (auto simp: read_dotted_iff)
qed

lemma from_text_refines:
  assumes "malloc_ok m" "repr c s" "d \<le> length (snd s)" "valid_oid arcs"
  shows "refines m c (CBB_add_asn1_oid_from_text m (oid_text arcs) d c) (map_option (put (oid_der arcs)) (bflush d s))"
proof -
  obtain a b vs where arcs: "arcs = a # b # vs" using assms(4) by (auto simp: valid_oid_def split: list.splits)
  obtain ok c1 where f: "CBB_flush m c d = (ok, c1)" by force
  have fl: "refines m c (ok, c1) (map_option id (bflush d s))" using flush_refines [OF assms(1-3)] f
    by (simp add: option.map_id)
  have p: "parse_dotted_decimal (oid_text arcs) = (Some a, oid_text (b # vs))"
    "parse_dotted_decimal (oid_text (b # vs)) = (Some b, oid_text vs)"
    by (cases vs; simp add: arcs dotted_decimal_iff)+
  have g: "\<not> (a > 2 \<or> (a < 2 \<and> b > 39) \<or> b > UINT64_MAX - 80)"
    using assms(4) unfolding arcs by (rule oid_guard [THEN iffD2])
  have e: "CBB_add_asn1_oid_from_text m (oid_text arcs) d c =
     (if ok then add_all (\<lambda>v. add_base128_integer m v d) ((40 * a + b) # vs) c1 else (False, c1))"
    using g by (auto simp: CBB_add_asn1_oid_from_text_def f p components_loop_read [OF read_dotted_text]
        and_then_def split: prod.splits bool.splits)
  have der: "concat (map (\<lambda>v. base128 (unat v)) ((40 * a + b) # vs)) = oid_der arcs"
    using first_arcs assms(4) by (simp add: arcs oid_der_def)
  have "refines m c (if ok then add_all (\<lambda>v. add_base128_integer m v d) ((40 * a + b) # vs) c1 else (False, c1))
     (map_option (put (oid_der arcs)) (bflush d s))"
  proof (rule refines_map_trans [OF fl])
    fix s1 assume s1: "bflush d s = Some s1" "repr c1 (id s1)"
    from add_base128.add_all_refines [OF assms(1), of "(40 * a + b) # vs" c1 s1 d] bflush_Some(1) [OF s1(1)] s1(2) der
    show "refines m c1 (add_all (\<lambda>v. add_base128_integer m v d) ((40 * a + b) # vs) c1) (Some (put (oid_der arcs) s1))"
      by (simp add: list_all_iff)
  qed simp
  then show ?thesis by (simp only: e)
qed

section \<open>To text\<close>

lemma add_decimal_refines:
  assumes "malloc_ok m" "repr c s" "length (snd s) = d"
  shows "refines m c (add_decimal m v d c) (Some (put (decimal (unat v)) s))"
proof -
  have "length (decimal n) < 2 ^ 64" if "n < 10 ^ k" "k < 100" for n k
  proof -
    have "length (decimal n) \<le> Suc k"
      using that(1)
    proof (induction k arbitrary: n)
      case (Suc k)
      then have "length (decimal (n div 10)) \<le> Suc k" by (intro Suc.IH) (simp add: div_less_iff_less_mult mult.commute)
      then show ?case by (subst decimal.simps) simp
    qed (simp add: decimal.simps)
    with that(2) show ?thesis by simp
  qed
  from this [of "unat v" 20] have "length (decimal (unat v)) < 2 ^ 64"
    using less_trans [OF unat_u64_less, of "10 ^ 20" v] by simp
  with add_bytes.op_here [OF assms(1) _ assms(2,3)] show ?thesis by (simp add: add_decimal_def)
qed

lemma dot_decimal_refines:
  assumes "malloc_ok m" "repr c s" "length (snd s) = 0"
  shows "refines m c (and_then (CBB_add_u8 m 0x2e 0) (add_decimal m v 0) c) (Some (put (0x2e # decimal (unat v)) s))"
proof (rule and_then_refines)
  show "refines m c (CBB_add_u8 m 0x2e 0 c) (Some (put [0x2e] s))"
    using assms by (intro add_u8.op_here) simp_all
  show "refines m c1 (add_decimal m v 0 c1) (Some (put (0x2e # decimal (unat v)) s))"
    if "repr c1 (put [0x2e] s)" for c1
    using add_decimal_refines [OF assms(1) that, of 0 v] assms(3) by simp
qed auto

lemma to_text_loop_refines:
  assumes "malloc_ok m"
  shows "read_all parse_base128_integer cbs = Some vs \<Longrightarrow> repr c s \<Longrightarrow> length (snd s) = 0 \<Longrightarrow>
    refines m c (oid_to_text_loop m cbs c) (Some (put (concat (map (\<lambda>v. 0x2e # decimal (unat v)) vs)) s))"
proof (induction cbs arbitrary: vs c s rule: length_induct)
  case (1 cbs)
  from "1.prems"(1) show ?case
  proof (cases rule: read_all_SomeE)
    case 1
    with "1.prems" show ?thesis by (subst oid_to_text_loop.simps) (simp add: refines_same)
  next
    case (2 v c' ys)
    have l: "oid_to_text_loop m cbs c =
        and_then (and_then (CBB_add_u8 m 0x2e 0) (add_decimal m v 0)) (oid_to_text_loop m c') c"
      using 2 by (subst oid_to_text_loop.simps) (simp add: and_then_def [of _ "oid_to_text_loop m c'"] split: prod.splits)
    show ?thesis unfolding l
    proof (rule and_then_refines)
      show "refines m c (and_then (CBB_add_u8 m 0x2e 0) (add_decimal m v 0) c) (Some (put (0x2e # decimal (unat v)) s))"
        using dot_decimal_refines assms "1.prems" by blast
      show "refines m c1 (oid_to_text_loop m c' c1)
          (Some (put (concat (map (\<lambda>v. 0x2e # decimal (unat v)) vs)) s))"
        if "repr c1 (put (0x2e # decimal (unat v)) s)" for c1
      proof -
        have IH: "length c' < length cbs \<Longrightarrow> read_all parse_base128_integer c' = Some ys \<Longrightarrow> repr c1 s' \<Longrightarrow>
            length (snd s') = 0 \<Longrightarrow> refines m c1 (oid_to_text_loop m c' c1)
            (Some (put (concat (map (\<lambda>v. 0x2e # decimal (unat v)) ys)) s'))" for s'
          using "1.IH" by blast
        have "refines m c1 (oid_to_text_loop m c' c1)
          (Some (put (concat (map (\<lambda>v. 0x2e # decimal (unat v)) ys)) (put (0x2e # decimal (unat v)) s)))"
          using 2 that "1.prems"(3) by (intro IH) simp_all
        then show ?thesis by (simp add: 2(5))
      qed
    qed (auto simp: 2(5))
  qed
qed

lemma to_text_loop_fail:
  "read_all parse_base128_integer cbs = None \<Longrightarrow> \<not> fst (oid_to_text_loop m cbs c)"
proof (induction cbs arbitrary: c rule: length_induct)
  case (1 cbs)
  have ne: "cbs \<noteq> []" using "1.prems" by auto
  obtain r c' where p: "parse_base128_integer cbs = (r, c')" by force
  show ?case
  proof (cases r)
    case None
    with p ne show ?thesis by (subst oid_to_text_loop.simps) simp
  next
    case (Some v)
    then have lt: "length c' < length cbs" using p base128_code.dec_strict by blast
    then have "read_all parse_base128_integer c' = None"
      using "1.prems" p Some by (simp add: read_all_step)
    with "1.IH" lt have "\<not> fst (oid_to_text_loop m c' c2)" for c2 by blast
    with p Some ne lt show ?thesis
      by (subst oid_to_text_loop.simps) (auto split: prod.splits bool.splits)
  qed
qed

text \<open>The first two arcs back from the integer they share.\<close>

definition split_arcs :: "u64 \<Rightarrow> u64 \<times> u64" where
  "split_arcs v = (if v \<ge> 80 then (2, v - 80) else (v div 40, v mod 40))"

lemma split_arcs_valid:
  assumes "split_arcs v = (a, b)"
  shows "valid_oid (a # b # vs)" "40 * unat a + unat b = unat v"
proof -
  have v: "v \<ge> 80 \<longleftrightarrow> 80 \<le> unat v" by (simp add: word_le_nat_alt)
  have "unat v < 2 ^ 64" using unsigned_less [of v] by simp
  have "valid_oid (a # b # vs) \<and> 40 * unat a + unat b = unat v"
  proof (cases "80 \<le> unat v")
    case True
    then have "a = 2" "b = v - 80" using assms v by (auto simp: split_arcs_def)
    moreover have "unat (v - 80) = unat v - 80" using True v by (simp add: unat_sub)
    moreover have "unat v - 80 < 2 ^ 64 - 80" using True \<open>unat v < 2 ^ 64\<close> by linarith
    ultimately show ?thesis using True by (simp add: valid_oid_def)
  next
    case False
    then have "a = v div 40" "b = v mod 40" using assms v by (auto simp: split_arcs_def)
    then have u: "unat a = unat v div 40" "unat b = unat v mod 40" by (simp_all add: unat_div unat_mod)
    have "unat v div 40 < 2" using False by (simp add: div_less_iff_less_mult)
    moreover have "unat v mod 40 < 40" by simp
    ultimately have "unat v div 40 \<le> 2" "unat v mod 40 \<le> 39" by linarith+
    with u show ?thesis by (simp add: valid_oid_def)
  qed
  then show "valid_oid (a # b # vs)" "40 * unat a + unat b = unat v" by blast+
qed

lemma split_arcs_join:
  assumes "valid_oid (a # b # vs)" "unat v = 40 * unat a + unat b"
  shows "split_arcs v = (a, b)"
proof (cases "unat a < 2")
  case True
  then have b: "unat b < 40" using assms(1) by (simp add: valid_oid_def)
  then have "unat v < 80" using True assms(2) by simp
  then have v: "\<not> v \<ge> 80" by (simp add: word_le_nat_alt)
  have "unat v div 40 = unat a" "unat v mod 40 = unat b" using b assms(2) by simp_all
  then have "unat (v div 40) = unat a" "unat (v mod 40) = unat b" by (simp_all add: unat_div unat_mod)
  then have "v div 40 = a" "v mod 40 = b" by (simp_all only: word_unat_eq_iff)
  with v show ?thesis by (simp add: split_arcs_def)
next
  case False
  then have "unat a = 2" using assms(1) by (simp add: valid_oid_def)
  then have a: "a = 2" by (auto dest: word_eq_of_nat)
  have v: "v \<ge> 80" using assms(2) a by (simp add: word_le_nat_alt)
  then have "unat (v - 80) = unat b" using assms(2) a by (simp add: unat_sub)
  then have "v - 80 = b" by (simp only: word_unat_eq_iff)
  with v a show ?thesis by (simp add: split_arcs_def)
qed

lemma first_text_refines:
  assumes "malloc_ok m" "repr c s" "length (snd s) = 0" "split_arcs v = (a, b)"
  shows "refines m c
    ((if v \<ge> 80 then and_then (CBB_add_bytes m [0x32, 0x2e] 0) (add_decimal m (v - 80) 0)
      else and_then (add_decimal m (v div 40) 0) (and_then (CBB_add_u8 m 0x2e 0) (add_decimal m (v mod 40) 0))) c)
    (Some (put (oid_text [a, b]) s))"
proof (cases "v \<ge> 80")
  case True
  then have ab: "a = 2" "b = v - 80" using assms(4) by (simp_all add: split_arcs_def)
  have d: "decimal 2 = [0x32]" by (simp add: decimal.simps)
  have "refines m c (and_then (CBB_add_bytes m [0x32, 0x2e] 0) (add_decimal m (v - 80) 0) c)
      (Some (put (oid_text [a, b]) s))"
  proof (rule and_then_refines)
    show "refines m c (CBB_add_bytes m [0x32, 0x2e] 0 c) (Some (put [0x32, 0x2e] s))"
      using add_bytes.op_here [OF assms(1) _ assms(2,3), of "[0x32, 0x2e]"] by simp
    show "refines m c1 (add_decimal m (v - 80) 0 c1) (Some (put (oid_text [a, b]) s))"
      if "repr c1 (put [0x32, 0x2e] s)" for c1
      using add_decimal_refines [OF assms(1) that, of 0 "v - 80"] assms(3) by (simp add: ab d)
  qed (auto simp: ab d)
  with True show ?thesis by simp
next
  case False
  then have ab: "a = v div 40" "b = v mod 40" using assms(4) by (simp_all add: split_arcs_def)
  have "refines m c (and_then (add_decimal m (v div 40) 0) (and_then (CBB_add_u8 m 0x2e 0) (add_decimal m (v mod 40) 0)) c)
      (Some (put (oid_text [a, b]) s))"
  proof (rule and_then_refines)
    show "refines m c (add_decimal m (v div 40) 0 c) (Some (put (decimal (unat a)) s))"
      using add_decimal_refines [OF assms(1-3)] by (simp add: ab)
    show "refines m c1 (and_then (CBB_add_u8 m 0x2e 0) (add_decimal m (v mod 40) 0) c1) (Some (put (oid_text [a, b]) s))"
      if "repr c1 (put (decimal (unat a)) s)" for c1
      using dot_decimal_refines [OF assms(1) that, of "v mod 40"] assms(3) by (simp add: ab)
  qed auto
  with False show ?thesis by simp
qed

lemma to_text_refines:
  assumes "malloc_ok m" "repr c ([], [])" "split_arcs v = (a, b)" "read_all parse_base128_integer copy = Some vs"
  shows "refines m c
    (and_then (if v \<ge> 80 then and_then (CBB_add_bytes m [0x32, 0x2e] 0) (add_decimal m (v - 80) 0)
      else and_then (add_decimal m (v div 40) 0) (and_then (CBB_add_u8 m 0x2e 0) (add_decimal m (v mod 40) 0)))
     (and_then (oid_to_text_loop m copy) (CBB_add_u8 m 0 0)) c)
    (Some (oid_text (a # b # vs) @ [0], []))"
proof -
  let ?t = "oid_text (a # b # vs)"
  have t: "oid_text [a, b] @ concat (map (\<lambda>v. 0x2e # decimal (unat v)) vs) = ?t" by (simp add: oid_text_def)
  show ?thesis
  proof (rule and_then_refines)
    show "refines m c ((if v \<ge> 80 then and_then (CBB_add_bytes m [0x32, 0x2e] 0) (add_decimal m (v - 80) 0)
        else and_then (add_decimal m (v div 40) 0) (and_then (CBB_add_u8 m 0x2e 0) (add_decimal m (v mod 40) 0))) c)
      (Some (put (oid_text [a, b]) ([], [])))"
      using assms by (intro first_text_refines) simp_all
    fix c1 assume r1: "repr c1 (put (oid_text [a, b]) ([], []))"
    show "refines m c1 (and_then (oid_to_text_loop m copy) (CBB_add_u8 m 0 0) c1) (Some (?t @ [0], []))"
    proof (rule and_then_refines)
      show "refines m c1 (oid_to_text_loop m copy c1) (Some (?t, []))"
        using to_text_loop_refines [OF assms(1,4) r1] t by simp
      show "refines m c2 (CBB_add_u8 m 0 0 c2) (Some (?t @ [0], []))" if "repr c2 (?t, [])" for c2
        using add_u8.op_here [OF assms(1) _ that, of 0 0] by simp
    qed simp
  qed (simp_all add: oid_text_def)
qed

text \<open>The steps of \<open>CBS_asn1_oid_to_text\<close> as one chain of operations.\<close>

lemma to_text_chain:
  "CBS_asn1_oid_to_text m cbs =
   (case CBB_init m 32 of
      None \<Rightarrow> None
    | Some cbb \<Rightarrow>
        (case parse_base128_integer cbs of
           (None, _) \<Rightarrow> None
         | (Some v, copy) \<Rightarrow>
             (case and_then
                 (if v \<ge> 80 then and_then (CBB_add_bytes m [0x32, 0x2e] 0) (add_decimal m (v - 80) 0)
                  else and_then (add_decimal m (v div 40) 0) (and_then (CBB_add_u8 m 0x2e 0) (add_decimal m (v mod 40) 0)))
                 (and_then (oid_to_text_loop m copy) (CBB_add_u8 m 0 0)) cbb of
                (False, _) \<Rightarrow> None
              | (True, cbb) \<Rightarrow>
                  (case CBB_finish m True 0 cbb of
                     (None, _) \<Rightarrow> None | (Some (txt, txt_len), _) \<Rightarrow> Some (take txt_len txt)))))"
proof -
  have *: "(if v \<ge> (80 :: u64) then f cbb else g cbb) = (if v \<ge> 80 then f else g) cbb" for v f g and cbb :: cbb
    by simp
  show ?thesis
    unfolding CBS_asn1_oid_to_text_def *
    by (auto simp: and_then_def [of _ "and_then (oid_to_text_loop m _) (CBB_add_u8 m 0 0)"]
        split: option.splits prod.splits bool.splits)
qed

lemma read_base128_iff: "read_all parse_base128_integer c = Some vs \<longleftrightarrow> c = concat (map (\<lambda>v. base128 (unat v)) vs)"
  using base128_code.read_all_iff by (simp add: list_all_iff)

lemma to_text_sound:
  assumes "malloc_ok m" "CBS_asn1_oid_to_text m cbs = Some txt"
  shows "\<exists>arcs. valid_oid arcs \<and> cbs = oid_der arcs \<and> txt = oid_text arcs @ [0]"
proof -
  from assms(2) obtain c0 v copy c1 buf n c2 where f: "CBB_init m 32 = Some c0"
    "parse_base128_integer cbs = (Some v, copy)"
    "and_then (if v \<ge> 80 then and_then (CBB_add_bytes m [0x32, 0x2e] 0) (add_decimal m (v - 80) 0)
                  else and_then (add_decimal m (v div 40) 0) (and_then (CBB_add_u8 m 0x2e 0) (add_decimal m (v mod 40) 0)))
                 (and_then (oid_to_text_loop m copy) (CBB_add_u8 m 0 0)) c0 = (True, c1)"
    "CBB_finish m True 0 c1 = (Some (buf, n), c2)" "txt = take n buf"
    unfolding to_text_chain by (auto split: option.splits prod.splits bool.splits)
  have "\<exists>c. fst (oid_to_text_loop m copy c)"
  proof -
    from f(3) obtain c3 where "and_then (oid_to_text_loop m copy) (CBB_add_u8 m 0 0) c3 = (True, c1)"
      by (auto simp: and_then_def [of _ "and_then (oid_to_text_loop m copy) (CBB_add_u8 m 0 0)"]
        split: prod.splits if_splits)
    then have "fst (oid_to_text_loop m copy c3)"
      by (cases "oid_to_text_loop m copy c3") (simp add: and_then_def split: if_splits)
    then show ?thesis ..
  qed
  with to_text_loop_fail obtain vs where vs: "read_all parse_base128_integer copy = Some vs" by fastforce
  obtain a b where ab: "split_arcs v = (a, b)" by force
  have c32: "(32 :: nat) < 2 ^ 64" by simp
  note r0 = init_repr(1) [OF assms(1) c32 f(1)]
  from to_text_refines [OF assms(1) r0 ab vs] f(3) have "repr c1 (oid_text (a # b # vs) @ [0], [])"
    by (simp add: refines_def)
  from finish_Some [OF assms(1) this f(4)] f(5) have "txt = oid_text (a # b # vs) @ [0]" by simp
  moreover have "cbs = oid_der (a # b # vs)"
    using f(2) vs split_arcs_valid(2) [OF ab] by (simp add: parse_base128_iff read_base128_iff oid_der_def)
  ultimately show ?thesis using split_arcs_valid(1) [OF ab] by blast
qed

lemma to_text_complete:
  assumes "malloc_ok m" "malloc_total m" "valid_oid arcs" "length (oid_text arcs) < 2 ^ 62"
  shows "CBS_asn1_oid_to_text m (oid_der arcs) = Some (oid_text arcs @ [0])"
proof -
  obtain a b vs where arcs: "arcs = a # b # vs" using assms(3) by (auto simp: valid_oid_def split: list.splits)
  define v where "v = 40 * a + b"
  have uv: "unat v = 40 * unat a + unat b" using first_arcs assms(3) by (simp add: arcs v_def)
  then have ab: "split_arcs v = (a, b)" using assms(3) by (intro split_arcs_join) (simp_all add: arcs)
  define copy where "copy = concat (map (\<lambda>v. base128 (unat v)) vs)"
  have p: "parse_base128_integer (oid_der arcs) = (Some v, copy)"
    by (simp add: parse_base128_iff oid_der_def arcs uv copy_def)
  have vs: "read_all parse_base128_integer copy = Some vs" by (simp add: read_base128_iff copy_def)
  have c32: "(32 :: nat) < 2 ^ 64" by simp
  from init_total [OF assms(2), of 32] obtain c0 where c0: "CBB_init m 32 = Some c0" by auto
  note r0 = init_repr(1) [OF assms(1) c32 c0]
  have room: "roomy (2 ^ 62) (base c0)" using init_repr(2) [OF assms(1) c32 c0] by simp
  let ?ops = "and_then
                 (if v \<ge> 80 then and_then (CBB_add_bytes m [0x32, 0x2e] 0) (add_decimal m (v - 80) 0)
                  else and_then (add_decimal m (v div 40) 0) (and_then (CBB_add_u8 m 0x2e 0) (add_decimal m (v mod 40) 0)))
                 (and_then (oid_to_text_loop m copy) (CBB_add_u8 m 0 0))"
  obtain ok c1 where c1: "?ops c0 = (ok, c1)" by force
  have r: "refines m c0 (ok, c1) (Some (oid_text arcs @ [0], []))"
    using to_text_refines [OF assms(1) r0 ab vs] c1 by (simp add: arcs)
  with assms(2,4) room have ok: "ok" "roomy (2 ^ 62) (base c1)" by (auto simp: refines_def)
  with r have r1: "repr c1 (oid_text arcs @ [0], [])" by (simp add: refines_def)
  obtain buf n c2 where f: "CBB_finish m True 0 c1 = (Some (buf, n), c2)"
    using finish_total [OF assms(1) r1 _ assms(2) ok(2)] assms(4) by auto
  from finish_Some [OF assms(1) r1 f] have "take n buf = oid_text arcs @ [0]" by simp
  with c0 p c1 ok(1) f show ?thesis unfolding to_text_chain by simp
qed

end
