(* ===== verification/Builder_Props.thy ===== *)
theory Builder_Props
  imports CBB_Int CBB_Errors OID
begin

text \<open>
  The properties of the byte-string builder and of the object identifier conversions (theories
  \<open>CBB\<close>, \<open>CBB_ASN1\<close>, \<open>OID\<close>), from the lemmas of \<open>CBB_Refine\<close>, \<open>CBB_Write\<close>, \<open>CBB_DER\<close> and
  \<open>CBB_Int\<close>. The witnesses use an allocator that always succeeds.
\<close>

lemma zero_malloc [simp]: "malloc_ok zero_malloc" "malloc_total zero_malloc"
  by (simp_all add: malloc_total_def zero_malloc_def)

lemma fixed_repr: "length buf = n \<Longrightarrow> n < 2 ^ 64 \<Longrightarrow> repr (CBB_init_fixed buf n) ([], [])"
  using init_fixed_repr(1) [of buf] by simp

lemma fixed_roomy: "length buf = n \<Longrightarrow> roomy n (base (CBB_init_fixed buf n))"
  using init_fixed_repr(2) [of n buf] by simp

section \<open>Refinement\<close>

text \<open>C7. \<open>CBB_flush\<close> refines the closing of all frames above the handle: with a buffer that stands
  for the abstract builder \<open>s\<close>, a success leaves the buffer that stands for \<open>s\<close> with the children
  closed, their lengths written in the shortest form; a failure leaves the builder locked, and
  failures are only length overflows or lack of memory.\<close>

theorem flush_refinement:
  assumes "malloc_ok m" "repr c s" "d \<le> length (snd s)"
  shows "refines m c (CBB_flush m c d) (bflush d s)"
  using assms by (rule flush_refines)

theorem flush_refinement_witness:
  "\<exists>c'. CBB_flush zero_malloc
     \<lparr>base = \<lparr>cb_buf = [0, 7, 9], cb_len = 2, cb_cap = 3, cb_can_resize = True, cb_error = False\<rparr>,
      chain = [\<lparr>ch_offset = 0, ch_pending_len_len = 1, ch_pending_is_asn1 = True\<rparr>]\<rparr> 0 = (True, c') \<and>
     repr c' ([1, 7], [])"
proof -
  let ?c = "\<lparr>base = \<lparr>cb_buf = [0, 7, 9], cb_len = 2, cb_cap = 3, cb_can_resize = True, cb_error = False\<rparr>,
      chain = [\<lparr>ch_offset = 0, ch_pending_len_len = 1, ch_pending_is_asn1 = True\<rparr>]\<rparr>"
  have r: "repr ?c ([], [(Asn1, [7])])" by (simp add: repr_def wf_buffer_def take_Cons')
  have f: "bflush 0 ([], [(Asn1, [7])]) = Some ([1, 7], [])" by (simp add: bflush_def der_len_def)
  have "refines zero_malloc ?c (CBB_flush zero_malloc ?c 0) (Some ([1, 7], []))"
    using flush_refinement [OF zero_malloc(1) r, of 0] by (simp add: f)
  moreover have "roomy 2 (base ?c)" by (simp add: roomy_def)
  ultimately have "fst (CBB_flush zero_malloc ?c 0)" "repr (snd (CBB_flush zero_malloc ?c 0)) ([1, 7], [])"
    unfolding refines_def by auto
  then show ?thesis by (metis prod.collapse)
qed

text \<open>\<open>CBB_add_asn1\<close> flushes the handle, writes the tag in its DER form, whatever its number, and
  opens a child for the contents.\<close>

theorem add_asn1_refinement:
  assumes "malloc_ok m" "repr c s" "d \<le> length (snd s)"
  shows "refines m c (CBB_add_asn1 m tag d c)
    (map_option (\<lambda>s. push Asn1 (put (tag_bytes tag) s)) (bflush d s))"
  using assms by (rule add_asn1_refines)

theorem add_asn1_refinement_witness:
  "refines zero_malloc (CBB_init_fixed [9, 9] 2) (CBB_add_asn1 zero_malloc 0x4 0 (CBB_init_fixed [9, 9] 2))
     (Some ([4], [(Asn1, [])]))"
  using add_asn1_refinement [OF zero_malloc(1) fixed_repr [of "[9, 9]" 2], of 0 "0x4"]
  by (simp add: tag_bytes_def tag_consts push_def bflush_def)



text \<open>A number that does not fit the width it is written with is an error, not a truncation.\<close>

theorem add_u_overflow:
  assumes "malloc_ok m" "repr c s" "d \<le> length (snd s)" "n \<le> 8" "256 ^ n \<le> unat v"
  shows "\<not> fst (cbb_add_u m v n d c) \<and> cb_error (base (snd (cbb_add_u m v n d c)))"
  using assms by (rule cbb_add_u_overflow)

theorem add_u_overflow_witness: "\<not> fst (cbb_add_u zero_malloc 0x1000000 3 0 (CBB_init_fixed [0, 0, 0, 0] 4))"
  using add_u_overflow [OF zero_malloc(1) fixed_repr [of "[0, 0, 0, 0]" 4], of 0 3 "0x1000000"] by simp

section \<open>Round trips with the reader\<close>

text \<open>C13. The builder and the reader of INTEGERs are inverse on all sequences of \<open>int64_t\<close>: with
  memory, the builder produces a byte string exactly when the reader reads the sequence from it.\<close>

theorem int64_roundtrip:
  assumes "malloc_ok m" "malloc_total m" "cap \<le> 2 ^ 62" "length out \<le> 2 ^ 62"
  shows "build_list CBB_add_asn1_int64 m cap vs = Some out \<longleftrightarrow> read_all CBS_get_asn1_int64 out = Some vs"
  using assms codec_int64.build_read [of m cap vs out] codec_int64.read_build [of m cap out vs]
  by (auto simp: list_all_iff)

theorem int64_roundtrip_witness:
  "build_list CBB_add_asn1_int64 zero_malloc 4 [- 1, 128] = Some [2, 1, 255, 2, 2, 0, 128]"
proof -
  have "concat (map (\<lambda>v. der_element CBS_ASN1_INTEGER (der_int (sint v))) [- 1, 128 :: u64]) = [2, 1, 255, 2, 2, 0, 128]"
    by (simp add: der_element_def der_len_def tag_bytes_def tag_consts der_int.simps signed_take_bit_int_eq_self)
  then have "read_all CBS_get_asn1_int64 [2, 1, 255, 2, 2, 0, 128] = Some [- 1, 128]"
    using int64_code.read_all_enc [of "[- 1, 128]"] by simp
  then show ?thesis by (subst int64_roundtrip) simp_all
qed

text \<open>The same for \<open>uint64_t\<close>.\<close>

theorem uint64_roundtrip:
  assumes "malloc_ok m" "malloc_total m" "cap \<le> 2 ^ 62" "length out \<le> 2 ^ 62"
  shows "build_list CBB_add_asn1_uint64 m cap vs = Some out \<longleftrightarrow> read_all CBS_get_asn1_uint64 out = Some vs"
  using assms codec_uint64.build_read [of m cap vs out] codec_uint64.read_build [of m cap out vs]
  by (auto simp: list_all_iff)

theorem uint64_roundtrip_witness:
  "build_list CBB_add_asn1_uint64 zero_malloc 0 [0x8000000000000000] = Some [2, 9, 0, 128, 0, 0, 0, 0, 0, 0, 0]"
proof -
  have "der_int 0x8000000000000000 = [0, 128, 0, 0, 0, 0, 0, 0, 0]" by (simp add: der_int.simps)
  then have "concat (map (\<lambda>v. der_element CBS_ASN1_INTEGER (der_int (uint v))) [0x8000000000000000 :: u64])
     = [2, 9, 0, 128, 0, 0, 0, 0, 0, 0, 0]"
    by (simp add: der_element_def der_len_def tag_bytes_def tag_consts)
  then have "read_all CBS_get_asn1_uint64 [2, 9, 0, 128, 0, 0, 0, 0, 0, 0, 0] = Some [0x8000000000000000]"
    using uint64_code.read_all_enc [of "[0x8000000000000000]"] by simp
  then show ?thesis by (subst uint64_roundtrip) simp_all
qed

section \<open>Object identifiers\<close>

text \<open>C15. Whatever \<open>CBS_asn1_oid_to_text\<close> accepts is the DER form of an object identifier with
  64-bit arcs, and the result is its dotted decimal text.\<close>

theorem oid_to_text_sound:
  assumes "malloc_ok m" "CBS_asn1_oid_to_text m cbs = Some txt"
  shows "\<exists>arcs. valid_oid arcs \<and> cbs = oid_der arcs \<and> txt = oid_text arcs @ [0]"
  using assms by (rule to_text_sound)

text \<open>Every object identifier in range is converted, when memory is available.\<close>

theorem oid_to_text_complete:
  assumes "malloc_ok m" "malloc_total m" "valid_oid arcs" "length (oid_text arcs) < 2 ^ 62"
  shows "CBS_asn1_oid_to_text m (oid_der arcs) = Some (oid_text arcs @ [0])"
  using assms by (rule to_text_complete)

lemma oid_example:
  "valid_oid [1, 2, 840]" "oid_der [1, 2, 840] = [42, 134, 72]"
  "oid_text [1, 2, 840] = [49, 46, 50, 46, 56, 52, 48]"
  by (simp_all add: valid_oid_def oid_der_def oid_text_def base128_def base128_hi.simps decimal.simps)

theorem oid_to_text_complete_witness:
  "CBS_asn1_oid_to_text zero_malloc [42, 134, 72] = Some [49, 46, 50, 46, 56, 52, 48, 0]"
  using oid_to_text_complete [OF zero_malloc oid_example(1)] by (simp add: oid_example del: oid_text_simps)

theorem oid_to_text_sound_witness: "\<exists>arcs. valid_oid arcs \<and> [42, 134, 72] = oid_der arcs"
proof -
  have "CBS_asn1_oid_to_text zero_malloc [42, 134, 72] = Some [49, 46, 50, 46, 56, 52, 48, 0]"
    using to_text_complete [OF zero_malloc oid_example(1)] by (simp add: oid_example del: oid_text_simps)
  from oid_to_text_sound [OF zero_malloc(1) this] show ?thesis by blast
qed

text \<open>\<open>CBB_add_asn1_oid_from_text\<close> accepts only the canonical dotted decimal texts of object
  identifiers in range.\<close>

theorem oid_from_text_accepts:
  assumes "CBB_add_asn1_oid_from_text m text d c = (True, c')"
  shows "\<exists>arcs. valid_oid arcs \<and> text = oid_text arcs"
  using assms by (rule from_text_success)

text \<open>C14. For each of these texts it refines the writing of the DER form: it succeeds when there is
  room, and what it has written is the encoding that \<open>CBS_asn1_oid_to_text\<close> converts back.\<close>

theorem oid_from_text_refinement:
  assumes "malloc_ok m" "repr c s" "d \<le> length (snd s)" "valid_oid arcs"
  shows "refines m c (CBB_add_asn1_oid_from_text m (oid_text arcs) d c) (map_option (put (oid_der arcs)) (bflush d s))"
  using assms by (rule from_text_refines)

lemma from_text_example:
  "refines zero_malloc (CBB_init_fixed [0, 0, 0, 0] 4)
     (CBB_add_asn1_oid_from_text zero_malloc [49, 46, 50, 46, 56, 52, 48] 0 (CBB_init_fixed [0, 0, 0, 0] 4))
     (Some ([42, 134, 72], []))"
  using from_text_refines [OF zero_malloc(1) fixed_repr [of "[0, 0, 0, 0]" 4] _ oid_example(1), of 0]
  by (simp add: oid_example del: oid_text_simps)

theorem oid_from_text_refinement_witness:
  "refines zero_malloc (CBB_init_fixed [0, 0, 0, 0] 4)
     (CBB_add_asn1_oid_from_text zero_malloc [49, 46, 50, 46, 56, 52, 48] 0 (CBB_init_fixed [0, 0, 0, 0] 4))
     (Some ([42, 134, 72], []))"
  using oid_from_text_refinement [OF zero_malloc(1) fixed_repr [of "[0, 0, 0, 0]" 4] _ oid_example(1), of 0]
  by (simp add: oid_example del: oid_text_simps)

theorem oid_from_text_accepts_witness: "\<exists>arcs. valid_oid arcs \<and> [49, 46, 50, 46, 56, 52, 48] = oid_text arcs"
proof -
  have "fst (CBB_add_asn1_oid_from_text zero_malloc [49, 46, 50, 46, 56, 52, 48] 0 (CBB_init_fixed [0, 0, 0, 0] 4))"
    using from_text_example fixed_roomy [of "[0, 0, 0, 0]" 4] by (auto simp: refines_def)
  then obtain c' where "CBB_add_asn1_oid_from_text zero_malloc [49, 46, 50, 46, 56, 52, 48] 0
      (CBB_init_fixed [0, 0, 0, 0] 4) = (True, c')" by (metis prod.collapse)
  then show ?thesis by (rule oid_from_text_accepts)
qed

end
