(* ===== verification/Posix_Time.thy ===== *)
theory Posix_Time
  imports Prelude "HOL-Library.Signed_Division"
begin

text \<open>
  \<open>crypto/asn1/posix_time.c\<close>: conversion between calendar time and POSIX seconds for the
  years 0000 to 9999. All quantities are \<open>int64_t\<close> or \<open>int\<close> in the code; the range checks keep
  them far from the bounds, so they are integers here, with C's truncating division \<open>sdiv\<close>
  and \<open>smod\<close>. The fields of \<open>struct tm\<close> that the code always sets to 0 are left out.
\<close>

section \<open>The code\<close>

definition SECS_PER_HOUR :: int where "SECS_PER_HOUR = 60 * 60"
definition SECS_PER_DAY :: int where "SECS_PER_DAY = 24 * SECS_PER_HOUR"

definition is_valid_date :: "int \<Rightarrow> int \<Rightarrow> int \<Rightarrow> bool" where
  "is_valid_date year month day =
     (if day < 1 \<or> month < 1 \<or> year < 0 \<or> year > 9999 then False
      else if month \<in> {1, 3, 5, 7, 8, 10, 12} then day > 0 \<and> day \<le> 31
      else if month \<in> {4, 6, 9, 11} then day > 0 \<and> day \<le> 30
      else if month = 2 then
        (if (year smod 4 = 0 \<and> year smod 100 \<noteq> 0) \<or> year smod 400 = 0 then day > 0 \<and> day \<le> 29
         else day > 0 \<and> day \<le> 28)
      else False)"

definition is_valid_time :: "int \<Rightarrow> int \<Rightarrow> int \<Rightarrow> bool" where
  "is_valid_time hours minutes seconds =
     (if hours < 0 \<or> minutes < 0 \<or> seconds < 0 \<or> hours > 23 \<or> minutes > 59 \<or> seconds > 59 then False
      else True)"

definition MIN_POSIX_TIME :: int where "MIN_POSIX_TIME = -62167219200"
definition MAX_POSIX_TIME :: int where "MAX_POSIX_TIME = 253402300799"

definition is_valid_posix_time :: "int \<Rightarrow> bool" where
  "is_valid_posix_time time \<longleftrightarrow> MIN_POSIX_TIME \<le> time \<and> time \<le> MAX_POSIX_TIME"

definition posix_time_from_utc :: "int \<Rightarrow> int \<Rightarrow> int \<Rightarrow> int \<Rightarrow> int \<Rightarrow> int \<Rightarrow> int option" where
  "posix_time_from_utc year month day hours minutes seconds =
     (if \<not> is_valid_date year month day \<or> \<not> is_valid_time hours minutes seconds then None
      else
        (let year = (if month \<le> 2 then year - 1 else year);
             era = (if year \<ge> 0 then year else year - 399) sdiv 400;
             year_of_era = year - era * 400;
             day_of_year = (153 * (if month > 2 then month - 3 else month + 9) + 2) sdiv 5 + day - 1;
             day_of_era = year_of_era * 365 + year_of_era sdiv 4 - year_of_era sdiv 100 + day_of_year;
             posix_days = era * 146097 + day_of_era - 719468
         in Some (posix_days * SECS_PER_DAY + hours * SECS_PER_HOUR + minutes * 60 + seconds)))"

definition utc_from_posix_time :: "int \<Rightarrow> (int \<times> int \<times> int \<times> int \<times> int \<times> int) option" where
  "utc_from_posix_time time =
     (if \<not> is_valid_posix_time time then None
      else
        (let days = time sdiv SECS_PER_DAY;
             leftover_seconds = time smod SECS_PER_DAY;
             (days, leftover_seconds) =
               (if leftover_seconds < 0 then (days - 1, leftover_seconds + SECS_PER_DAY)
                else (days, leftover_seconds));
             days = days + 719468;
             era = (if days > 0 then days else days - 146096) sdiv 146097;
             day_of_era = days - era * 146097;
             year_of_era = (day_of_era - day_of_era sdiv 1460 + day_of_era sdiv 36524 - day_of_era sdiv 146096)
               sdiv 365;
             year = year_of_era + era * 400;
             day_of_year = day_of_era - (365 * year_of_era + year_of_era sdiv 4 - year_of_era sdiv 100);
             month_of_year = (5 * day_of_year + 2) sdiv 153;
             month = (if month_of_year < 10 then month_of_year + 3 else month_of_year - 9);
             year = (if month \<le> 2 then year + 1 else year);
             day = day_of_year - (153 * month_of_year + 2) sdiv 5 + 1;
             hours = leftover_seconds sdiv SECS_PER_HOUR;
             leftover_seconds = leftover_seconds smod SECS_PER_HOUR
         in Some (year, month, day, hours, leftover_seconds sdiv 60, leftover_seconds smod 60)))"

record tm =
  tm_year :: int
  tm_mon :: int
  tm_mday :: int
  tm_hour :: int
  tm_min :: int
  tm_sec :: int

definition OPENSSL_tm_to_posix :: "tm \<Rightarrow> int option" where
  "OPENSSL_tm_to_posix tm =
     posix_time_from_utc (tm_year tm + 1900) (tm_mon tm + 1) (tm_mday tm) (tm_hour tm) (tm_min tm) (tm_sec tm)"

definition OPENSSL_posix_to_tm :: "int \<Rightarrow> tm option" where
  "OPENSSL_posix_to_tm time =
     (case utc_from_posix_time time of
        None \<Rightarrow> None
      | Some (year, mon, mday, hour, mins, sec) \<Rightarrow>
          Some \<lparr>tm_year = year - 1900, tm_mon = mon - 1, tm_mday = mday,
                tm_hour = hour, tm_min = mins, tm_sec = sec\<rparr>)"

text \<open>\<open>time_t\<close> has 64 bits, so the test for a 32-bit \<open>time_t\<close> is false.\<close>

definition OPENSSL_timegm :: "tm \<Rightarrow> int option" where
  "OPENSSL_timegm tm = OPENSSL_tm_to_posix tm"

definition OPENSSL_gmtime :: "int \<Rightarrow> tm option" where
  "OPENSSL_gmtime time = OPENSSL_posix_to_tm time"

definition INT64_MAX :: int where "INT64_MAX = 2 ^ 63 - 1"
definition INT64_MIN :: int where "INT64_MIN = - (2 ^ 63)"

definition OPENSSL_gmtime_adj :: "tm \<Rightarrow> int \<Rightarrow> int \<Rightarrow> tm option" where
  "OPENSSL_gmtime_adj tm offset_day offset_sec =
     (case OPENSSL_tm_to_posix tm of
        None \<Rightarrow> None
      | Some posix_time \<Rightarrow>
          (let posix_time = posix_time + offset_day * SECS_PER_DAY
           in if posix_time > 0 \<and> offset_sec > INT64_MAX - posix_time then None
              else if posix_time < 0 \<and> offset_sec < INT64_MIN - posix_time then None
              else OPENSSL_posix_to_tm (posix_time + offset_sec)))"

definition OPENSSL_gmtime_diff :: "tm \<Rightarrow> tm \<Rightarrow> (int \<times> int) option" where
  \<comment> \<open>days and seconds from \<open>from_tm\<close> to \<open>to_tm\<close>\<close>
  "OPENSSL_gmtime_diff from_tm to_tm =
     (case OPENSSL_tm_to_posix to_tm of
        None \<Rightarrow> None
      | Some time_to \<Rightarrow>
          (case OPENSSL_tm_to_posix from_tm of
             None \<Rightarrow> None
           | Some time_from \<Rightarrow>
               (let timediff = time_to - time_from;
                    daydiff = timediff sdiv SECS_PER_DAY;
                    timediff = timediff smod SECS_PER_DAY
                in Some (daydiff, timediff))))"

section \<open>Truncating and flooring division\<close>

lemma sdiv_nonneg: "0 \<le> a \<Longrightarrow> 0 < b \<Longrightarrow> a sdiv b = a div (b :: int)"
  by (simp add: signed_divide_int_def sgn_if)

lemma smod_nonneg: "0 \<le> a \<Longrightarrow> 0 < b \<Longrightarrow> a smod b = a mod (b :: int)"
proof -
  assume a: "0 \<le> a" "0 < b"
  have "a smod b = a - a sdiv b * b" by (simp add: minus_sdiv_mult_eq_smod)
  then show ?thesis using sdiv_nonneg [OF a] by (simp add: minus_div_mult_eq_mod)
qed

lemma sdiv_neg: "a < 0 \<Longrightarrow> 0 < b \<Longrightarrow> a sdiv b = - ((- a) div (b :: int))"
  by (simp add: signed_divide_int_def sgn_if)

text \<open>The code's way to divide rounding down.\<close>

lemma floor_sdiv:
  assumes "0 < (b :: int)"
  shows "(if a \<ge> 0 then a else a - (b - 1)) sdiv b = a div b"
    "(if a > 0 then a else a - (b - 1)) sdiv b = a div b"
proof -
  have neg: "(a - (b - 1)) sdiv b = a div b" if "a < 0"
  proof -
    have "(a - (b - 1)) sdiv b = - ((b - 1 - a) div b)" using that assms by (subst sdiv_neg) simp_all
    also have "(b - 1 - a) div b = - (a div b)"
    proof -
      define q r where "q = a div b" and "r = a mod b"
      have m: "0 \<le> r" "r < b" "a = b * q + r" using assms by (simp_all add: q_def r_def)
      then have "b - 1 - a = b * (- q) + (b - 1 - r)" by (simp add: algebra_simps)
      from int_div_pos_eq [OF this] m(1,2) show ?thesis unfolding q_def [symmetric] by simp
    qed
    finally show ?thesis by simp
  qed
  have zero: "(0 - (b - 1)) sdiv b = 0 div b" using assms by (simp add: signed_divide_int_def)
  show "(if a \<ge> 0 then a else a - (b - 1)) sdiv b = a div b" using neg assms by (simp add: sdiv_nonneg)
  show "(if a > 0 then a else a - (b - 1)) sdiv b = a div b"
    using neg zero assms by (cases "a = 0") (simp_all add: sdiv_nonneg)
qed

lemma floor_sdiv_eq:
  assumes "0 < (b :: int)" "c = b - 1"
  shows "(if a \<ge> 0 then a else a - c) sdiv b = a div b" "(if a > 0 then a else a - c) sdiv b = a div b"
  unfolding assms(2) by (rule floor_sdiv [OF assms(1)])+

lemma floor_split:
  assumes "0 < (b :: int)"
  shows "(if a smod b < 0 then (a sdiv b - 1, a smod b + b) else (a sdiv b, a smod b)) = (a div b, a mod b)"
proof (cases "0 \<le> a")
  case True
  moreover have "\<not> a mod b < 0" using assms by (simp add: not_less)
  ultimately show ?thesis using assms by (simp add: sdiv_nonneg smod_nonneg)
next
  case False
  define q where "q = (- a) div b"
  define r where "r = (- a) mod b"
  have qr: "- a = q * b + r" "0 \<le> r" "r < b" using assms by (simp_all add: q_def r_def)
  have s: "a sdiv b = - q" "a smod b = - r"
    using False assms qr by (simp_all add: sdiv_neg q_def [symmetric] signed_modulo_int_def algebra_simps)
  show ?thesis
  proof (cases "r = 0")
    case True
    then have "a div b = - q" "a mod b = 0"
      using qr assms by (intro int_div_pos_eq int_mod_pos_eq [where q = "- q"]; simp add: algebra_simps)+
    then show ?thesis using s True by simp
  next
    case False
    have e: "a = b * (- q - 1) + (b - r)" using qr by (simp add: algebra_simps)
    have "a div b = - q - 1" "a mod b = b - r"
      using qr False assms by (intro int_div_pos_eq [OF e] int_mod_pos_eq [OF e]; simp)+
    then show ?thesis using s qr False by simp
  qed
qed

section \<open>The calendar\<close>

text \<open>
  The day of an era (400 years from 1 March 0000) at which year \<open>y\<close> of the era starts, and the
  year the code computes from a day. Both are tabulated: year \<open>y\<close> is found for the first and
  the last of its days, and the numerator is monotone.
\<close>

definition year_start :: "int \<Rightarrow> int" where
  "year_start y = y * 365 + y div 4 - y div 100"

definition year_numerator :: "int \<Rightarrow> int" where
  "year_numerator d = d - d div 1460 + d div 36524 - d div 146096"

lemma year_numerator_Suc: "year_numerator d \<le> year_numerator (d + 1)"
proof -
  define e e' where "e = d div 36524" and "e' = (d + 1) div 36524"
  have "e \<le> e'" unfolding e_def e'_def by (intro zdiv_mono1) simp_all
  then have "e - e div 4 \<le> e' - e' div 4" by presburger
  moreover have "d div 146096 = e div 4" "(d + 1) div 146096 = e' div 4"
    by (simp_all add: e_def e'_def flip: zdiv_zmult2_eq)
  moreover have "(d + 1) div 1460 \<le> d div 1460 + 1"
  proof -
    have "(d + 1) div 1460 \<le> (d + 1460) div 1460" by (intro zdiv_mono1) simp_all
    then show ?thesis by simp
  qed
  ultimately show ?thesis by (simp add: year_numerator_def e_def e'_def)
qed

lemma year_numerator_mono: "d \<le> d' \<Longrightarrow> year_numerator d \<le> year_numerator d'"
proof (induction "nat (d' - d)" arbitrary: d')
  case (Suc n)
  then have "year_numerator d \<le> year_numerator (d' - 1)" by simp
  with year_numerator_Suc [of "d' - 1"] show ?case by simp
qed simp

definition leap :: "int \<Rightarrow> bool" where
  "leap y \<longleftrightarrow> (y mod 4 = 0 \<and> y mod 100 \<noteq> 0) \<or> y mod 400 = 0"

text \<open>Years of an era start on 1 March, so the leap day belongs to the year before.\<close>

definition year_len :: "int \<Rightarrow> int" where
  "year_len y = (if leap (y + 1) then 366 else 365)"

lemma year_table:
  "list_all (\<lambda>y. year_numerator (year_start y) div 365 = y \<and>
     year_numerator (year_start y + year_len y - 1) div 365 = y \<and>
     year_start y + year_len y = (if y = 399 then 146097 else year_start (y + 1))) [0..399]"
  by code_simp

lemma year_table_at:
  assumes "0 \<le> y" "y < 400"
  shows "year_numerator (year_start y) div 365 = y"
    "year_numerator (year_start y + year_len y - 1) div 365 = y"
    "year_start y + year_len y = (if y = 399 then 146097 else year_start (y + 1))"
proof -
  have "year_numerator (year_start y) div 365 = y \<and>
     year_numerator (year_start y + year_len y - 1) div 365 = y \<and>
     year_start y + year_len y = (if y = 399 then 146097 else year_start (y + 1))"
    using assms by (intro year_table [unfolded list_all_iff, THEN bspec]) simp
  then show "year_numerator (year_start y) div 365 = y"
    "year_numerator (year_start y + year_len y - 1) div 365 = y"
    "year_start y + year_len y = (if y = 399 then 146097 else year_start (y + 1))" by blast+
qed

lemma year_find:
  assumes "0 \<le> y" "y < 400" "0 \<le> k" "k < year_len y"
  shows "year_numerator (year_start y + k) div 365 = y"
proof -
  note t = year_table_at(1,2) [OF assms(1,2)]
  have "year_numerator (year_start y) \<le> year_numerator (year_start y + k)"
    "year_numerator (year_start y + k) \<le> year_numerator (year_start y + year_len y - 1)"
    using assms by (intro year_numerator_mono; simp)+
  then have "y \<le> year_numerator (year_start y + k) div 365" "year_numerator (year_start y + k) div 365 \<le> y"
    using t zdiv_mono1 by (metis zero_less_numeral)+
  then show ?thesis by simp
qed

text \<open>Every day of an era lies in exactly one of its years.\<close>

lemma year_exists:
  assumes "0 \<le> d" "d < 146097"
  obtains y k where "0 \<le> y" "y < 400" "0 \<le> k" "k < year_len y" "d = year_start y + k"
proof -
  have "\<exists>y. 0 \<le> y \<and> y < 400 \<and> year_start y \<le> d \<and> d < year_start y + year_len y"
  proof -
    have step: "\<exists>y. 0 \<le> y \<and> y < 400 \<and> year_start y \<le> d \<and> d < year_start y + year_len y"
      if "n \<le> 400" "d < (if n = 400 then 146097 else year_start (int n))" for n :: nat
      using that
    proof (induction n)
      case 0
      with assms show ?case by (simp add: year_start_def)
    next
      case (Suc n)
      have t: "year_start (int n) + year_len (int n) = (if int n = 399 then 146097 else year_start (int n + 1))"
        using Suc.prems(1) by (intro year_table_at(3)) simp_all
      show ?case
      proof (cases "d < year_start (int n)")
        case True
        with Suc show ?thesis by simp
      next
        case False
        have "d < year_start (int n) + year_len (int n)"
          using Suc.prems t by (auto simp: add.commute split: if_splits)
        with False Suc.prems show ?thesis by (intro exI [of _ "int n"]) simp
      qed
    qed
    from step [of 400] assms show ?thesis by simp
  qed
  then obtain y where "0 \<le> y" "y < 400" "year_start y \<le> d" "d < year_start y + year_len y" by blast
  with that [of y "d - year_start y"] show thesis by simp
qed

definition month_start :: "int \<Rightarrow> int" where
  "month_start mp = (153 * mp + 2) div 5"

definition month_len :: "int \<Rightarrow> int" where
  "month_len mp = (if mp = 11 then 29 else month_start (mp + 1) - month_start mp)"

lemma month_table:
  "list_all (\<lambda>doy. let mp = (5 * doy + 2) div 153 in
     0 \<le> mp \<and> mp < 12 \<and> month_start mp \<le> doy \<and> doy < month_start mp + month_len mp) [0..365]"
  "list_all (\<lambda>mp. list_all (\<lambda>k. (5 * (month_start mp + k) + 2) div 153 = mp) [0..month_len mp - 1]) [0..11]"
  by code_simp+

lemma month_find:
  assumes "0 \<le> mp" "mp < 12" "0 \<le> k" "k < month_len mp"
  shows "(5 * (month_start mp + k) + 2) div 153 = mp"
  using month_table(2) assms by (auto simp: list_all_iff)

lemma month_exists:
  assumes "0 \<le> doy" "doy < 366"
  obtains mp k where "0 \<le> mp" "mp < 12" "0 \<le> k" "k < month_len mp" "doy = month_start mp + k"
proof -
  define mp where "mp = (5 * doy + 2) div 153"
  have "0 \<le> mp" "mp < 12" "month_start mp \<le> doy" "doy < month_start mp + month_len mp"
    using month_table(1) assms by (auto simp: list_all_iff mp_def Let_def)
  with that [of mp "doy - month_start mp"] show thesis by simp
qed

text \<open>
  A day is a position in the calendar of eras: era, year of the era, month counted from March
  and day of the month counted from 0.
\<close>

definition position :: "int \<Rightarrow> int \<Rightarrow> int \<Rightarrow> bool" where
  "position y mp j \<longleftrightarrow> 0 \<le> y \<and> y < 400 \<and> 0 \<le> mp \<and> mp < 12 \<and> 0 \<le> j \<and> j < month_len mp \<and>
     month_start mp + j < year_len y"

definition day_number :: "int \<Rightarrow> int \<Rightarrow> int \<Rightarrow> int \<Rightarrow> int" where
  "day_number era y mp j = era * 146097 + year_start y + month_start mp + j"

definition cal_month :: "int \<Rightarrow> int" where
  "cal_month mp = (if mp < 10 then mp + 3 else mp - 9)"

definition cal_year :: "int \<Rightarrow> int \<Rightarrow> int \<Rightarrow> int" where
  "cal_year era y mp = era * 400 + y + (if mp < 10 then 0 else 1)"

lemma leap_mod: "leap (e * 400 + y) = leap y"
proof -
  have "(e * 400 + y) mod 4 = y mod 4" "(e * 400 + y) mod 100 = y mod 100" "(e * 400 + y) mod 400 = y mod 400"
  proof -
    have "e * 400 + y = y + 4 * (100 * e)" "e * 400 + y = y + 100 * (4 * e)" "e * 400 + y = y + 400 * e"
      by simp_all
    then show "(e * 400 + y) mod 4 = y mod 4" "(e * 400 + y) mod 100 = y mod 100" "(e * 400 + y) mod 400 = y mod 400"
      by (metis mod_mult_self2)+
  qed
  then show ?thesis by (simp add: leap_def)
qed

lemma months_12: "0 \<le> (mp :: int) \<Longrightarrow> mp < 12 \<Longrightarrow>
  mp = 0 \<or> mp = 1 \<or> mp = 2 \<or> mp = 3 \<or> mp = 4 \<or> mp = 5 \<or> mp = 6 \<or> mp = 7 \<or> mp = 8 \<or> mp = 9 \<or> mp = 10 \<or> mp = 11"
  by presburger

lemma month_len_simps [simp]:
  "month_len 0 = 31" "month_len 1 = 30" "month_len 2 = 31" "month_len 3 = 30" "month_len 4 = 31"
  "month_len 5 = 31" "month_len 6 = 30" "month_len 7 = 31" "month_len 8 = 30" "month_len 9 = 31"
  "month_len 10 = 31" "month_len 11 = 29"
  by (simp_all add: month_len_def month_start_def)

lemma month_start_simps [simp]:
  "month_start 0 = 0" "month_start 1 = 31" "month_start 2 = 61" "month_start 3 = 92" "month_start 4 = 122"
  "month_start 5 = 153" "month_start 6 = 184" "month_start 7 = 214" "month_start 8 = 245"
  "month_start 9 = 275" "month_start 10 = 306" "month_start 11 = 337"
  by (simp_all add: month_start_def)

lemma year_len_bounds: "365 \<le> year_len y" "year_len y \<le> 366"
  by (simp_all add: year_len_def)

lemma valid_date_leap:
  "0 \<le> year \<Longrightarrow> is_valid_date year month day \<longleftrightarrow>
     (if day < 1 \<or> month < 1 \<or> year > 9999 then False
      else if month \<in> {1, 3, 5, 7, 8, 10, 12} then day \<le> 31
      else if month \<in> {4, 6, 9, 11} then day \<le> 30
      else if month = 2 then day \<le> (if leap year then 29 else 28)
      else False)"
  by (simp add: is_valid_date_def smod_nonneg leap_def)

lemma position_date:
  assumes "position y mp j" "0 \<le> cal_year era y mp" "cal_year era y mp \<le> 9999"
  shows "is_valid_date (cal_year era y mp) (cal_month mp) (j + 1)"
proof -
  note p = assms(1) [unfolded position_def]
  have l: "leap (era * 400 + y + 1) = leap (y + 1)" using leap_mod [of era "y + 1"] by (simp add: add.assoc)
  have "mp = 0 \<or> mp = 1 \<or> mp = 2 \<or> mp = 3 \<or> mp = 4 \<or> mp = 5 \<or> mp = 6 \<or> mp = 7 \<or> mp = 8 \<or> mp = 9 \<or> mp = 10 \<or> mp = 11"
    using p by (intro months_12) simp_all
  then show ?thesis
    unfolding valid_date_leap [OF assms(2)]
    using p assms(3) by (elim disjE) (simp_all add: cal_month_def cal_year_def l year_len_def split: if_splits)
qed

lemma date_position:
  assumes "is_valid_date year month day"
  obtains era y mp where "position y mp (day - 1)" "cal_year era y mp = year" "cal_month mp = month"
    "era = (if month \<le> 2 then year - 1 else year) div 400" "y = (if month \<le> 2 then year - 1 else year) mod 400"
    "mp = (if month > 2 then month - 3 else month + 9)"
proof -
  define y0 where "y0 = (if month \<le> 2 then year - 1 else year)"
  define mp where "mp = (if month > 2 then month - 3 else month + 9)"
  have ry: "0 \<le> year" using assms by (auto simp: is_valid_date_def split: if_splits)
  note v = assms [unfolded valid_date_leap [OF ry]]
  have m: "1 \<le> month" "month \<le> 12" "1 \<le> day" using v by (auto split: if_splits)
  have l: "leap ((year - 1) mod 400 + 1) = leap year"
    using leap_mod [of "(year - 1) div 400" "(year - 1) mod 400 + 1"] by (simp add: add.assoc [symmetric])
  have "month = 1 \<or> month = 2 \<or> month = 3 \<or> month = 4 \<or> month = 5 \<or> month = 6 \<or> month = 7 \<or> month = 8 \<or>
    month = 9 \<or> month = 10 \<or> month = 11 \<or> month = 12" using m by presburger
  then have "position (y0 mod 400) mp (day - 1)"
    unfolding position_def using v m year_len_bounds [of "y0 mod 400"]
    by (elim disjE) (simp_all add: mp_def y0_def year_len_def l split: if_splits)
  moreover have "cal_month mp = month" using m by (auto simp: cal_month_def mp_def)
  moreover have "cal_year (y0 div 400) (y0 mod 400) mp = year" using m by (auto simp: cal_year_def mp_def y0_def)
  ultimately show thesis using that by (simp add: y0_def mp_def)
qed

lemma sub_div_mono:
  assumes "a \<le> b" "0 < (k :: int)"
  shows "a - a div k \<le> b - b div k"
  using assms(1)
proof (induction "nat (b - a)" arbitrary: b)
  case (Suc n)
  then have "a - a div k \<le> (b - 1) - (b - 1) div k" by simp
  moreover have "b div k \<le> (b - 1 + k) div k" using assms(2) by (intro zdiv_mono1) simp_all
  moreover have "(b - 1 + k) div k = (b - 1) div k + 1" using assms(2) by (intro div_add_self2) simp
  ultimately show ?case by linarith
qed simp

lemma month_start_nonneg: "0 \<le> mp \<Longrightarrow> 0 \<le> month_start mp"
  by (simp add: month_start_def pos_imp_zdiv_nonneg_iff)

lemma year_start_mono: "y \<le> z \<Longrightarrow> year_start y \<le> year_start z"
proof -
  assume "y \<le> z"
  then have "y div 4 \<le> z div 4" by (rule zdiv_mono1) simp
  then have "y div 4 - y div 4 div 25 \<le> z div 4 - z div 4 div 25" by (rule sub_div_mono) simp
  moreover have "a div 100 = a div 4 div 25" for a :: int by (simp flip: zdiv_zmult2_eq)
  ultimately show ?thesis using \<open>y \<le> z\<close> by (simp add: year_start_def)
qed

lemma position_range:
  assumes "position y mp j"
  shows "0 \<le> year_start y + month_start mp + j" "year_start y + month_start mp + j < 146097"
    "146037 \<le> year_start y + month_start mp + j \<longleftrightarrow> y = 399 \<and> mp \<ge> 10"
proof -
  note p = assms [unfolded position_def]
  have s0: "0 \<le> year_start y" using year_start_mono [of 0 y] p by (simp add: year_start_def)
  have m0: "0 \<le> month_start mp" using p by (simp add: month_start_nonneg)
  have mono: "year_start y + year_len y \<le> 145731" if "y \<noteq> 399"
    using year_table_at(3) [of y] year_start_mono [of "y + 1" 399] p that by (simp add: year_start_def)
  have y399: "year_start 399 = 145731" "year_len 399 = 366" by (simp_all add: year_start_def year_len_def leap_def)
  show "0 \<le> year_start y + month_start mp + j" using p s0 m0 by simp
  show "year_start y + month_start mp + j < 146097"
    using p mono y399 by (cases "y = 399") simp_all
  have mj: "306 \<le> month_start mp + j \<longleftrightarrow> mp \<ge> 10"
  proof -
    have "mp = 0 \<or> mp = 1 \<or> mp = 2 \<or> mp = 3 \<or> mp = 4 \<or> mp = 5 \<or> mp = 6 \<or> mp = 7 \<or> mp = 8 \<or> mp = 9 \<or> mp = 10 \<or> mp = 11"
      using p by (intro months_12) simp_all
    then show ?thesis using p by (elim disjE) simp_all
  qed
  show "146037 \<le> year_start y + month_start mp + j \<longleftrightarrow> y = 399 \<and> mp \<ge> 10"
    using p mono y399 mj by (cases "y = 399") auto
qed

lemma day_number_div_mod:
  assumes "position y mp j"
  shows "day_number era y mp j div 146097 = era"
    "day_number era y mp j mod 146097 = year_start y + month_start mp + j"
proof -
  have e: "day_number era y mp j = 146097 * era + (year_start y + month_start mp + j)"
    by (simp add: day_number_def)
  show "day_number era y mp j div 146097 = era"
    using position_range [OF assms] by (intro int_div_pos_eq [OF e])
  show "day_number era y mp j mod 146097 = year_start y + month_start mp + j"
    using position_range [OF assms] by (intro int_mod_pos_eq [OF e])
qed

lemma day_number_valid:
  assumes "position y mp j"
  shows "0 \<le> cal_year era y mp \<and> cal_year era y mp \<le> 9999 \<longleftrightarrow>
    -60 \<le> day_number era y mp j \<and> day_number era y mp j \<le> 3652364"
proof -
  define x where "x = year_start y + month_start mp + j"
  have x: "0 \<le> x" "x < 146097" "146037 \<le> x \<longleftrightarrow> y = 399 \<and> mp \<ge> 10" using position_range [OF assms] by (simp_all add: x_def)
  have p: "0 \<le> y" "y < 400" "mp < 12" using assms by (simp_all add: position_def)
  have d: "day_number era y mp j = era * 146097 + x" by (simp add: day_number_def x_def)
  consider "era < -1" | "era = -1" | "0 \<le> era" "era < 24" | "era = 24" | "24 < era" by linarith
  then show ?thesis
  proof cases
    case 1
    then show ?thesis unfolding d cal_year_def using x p by auto
  next
    case 2
    then show ?thesis unfolding d cal_year_def using x p by auto
  next
    case 3
    then show ?thesis unfolding d cal_year_def using x p by auto
  next
    case 4
    then show ?thesis unfolding d cal_year_def using x p by auto
  next
    case 5
    then show ?thesis unfolding d cal_year_def using x p by auto
  qed
qed

lemma day_position:
  obtains era y mp j where "position y mp j" "D = day_number era y mp j"
proof -
  have "0 \<le> D mod 146097" "D mod 146097 < 146097" by simp_all
  then obtain y k where y: "0 \<le> y" "y < 400" "0 \<le> k" "k < year_len y" "D mod 146097 = year_start y + k"
    by (rule year_exists)
  have "k < 366" using y(4) year_len_bounds(2) [of y] by linarith
  with y(3) obtain mp j where m: "0 \<le> mp" "mp < 12" "0 \<le> j" "j < month_len mp" "k = month_start mp + j"
    by (rule month_exists)
  have "position y mp j" using y m by (simp add: position_def)
  moreover have "D = day_number (D div 146097) y mp j"
    using y(5) m(5) div_mult_mod_eq [of D 146097] by (simp add: day_number_def)
  ultimately show thesis by (rule that)
qed

section \<open>Correctness\<close>

lemma posix_position:
  assumes "is_valid_time h mi s" "is_valid_date year month day" "position y mp (day - 1)"
    "era = (if month \<le> 2 then year - 1 else year) div 400" "y = (if month \<le> 2 then year - 1 else year) mod 400"
    "mp = (if month > 2 then month - 3 else month + 9)"
  shows "posix_time_from_utc year month day h mi s =
    Some ((day_number era y mp (day - 1) - 719468) * 86400 + h * 3600 + mi * 60 + s)"
proof -
  define y0 where "y0 = (if month \<le> 2 then year - 1 else year)"
  have fl: "(if y0 \<ge> 0 then y0 else y0 - 399) sdiv 400 = y0 div 400"
    by (rule floor_sdiv_eq) simp_all
  have p: "0 \<le> y" "0 \<le> mp" using assms(3) by (simp_all add: position_def)
  have yoe: "y0 - y0 div 400 * 400 = y" using assms(5) by (simp add: y0_def minus_div_mult_eq_mod)
  have s: "(153 * mp + 2) sdiv 5 = month_start mp" "y sdiv 4 = y div 4" "y sdiv 100 = y div 100"
    using p by (simp_all add: sdiv_nonneg month_start_def)
  show ?thesis
    unfolding posix_time_from_utc_def Let_def y0_def [symmetric] fl assms(6) [symmetric] yoe s
    using assms(1,2,4) by (simp add: day_number_def year_start_def y0_def [symmetric] SECS_PER_DAY_def SECS_PER_HOUR_def)
qed

lemma utc_position:
  assumes "position y mp j" "time div 86400 + 719468 = day_number era y mp j" "is_valid_posix_time time"
  shows "utc_from_posix_time time = Some (cal_year era y mp, cal_month mp, j + 1,
    time mod 86400 div 3600, time mod 86400 mod 3600 div 60, time mod 86400 mod 3600 mod 60)"
proof -
  note p = assms(1) [unfolded position_def]
  note r = position_range [OF assms(1)]
  have day: "SECS_PER_DAY = 86400" "SECS_PER_HOUR = 3600" by (simp_all add: SECS_PER_DAY_def SECS_PER_HOUR_def)
  have fs: "(if time smod 86400 < 0 then (time sdiv 86400 - 1, time smod 86400 + 86400)
      else (time sdiv 86400, time smod 86400)) = (time div 86400, time mod 86400)"
    by (rule floor_split) simp
  have fl: "(if day_number era y mp j > 0 then day_number era y mp j else day_number era y mp j - 146096) sdiv 146097 = era"
    by (rule trans [OF floor_sdiv_eq(2) day_number_div_mod(1) [OF assms(1), of era]]) simp_all
  define doe where "doe = year_start y + (month_start mp + j)"
  have doe: "day_number era y mp j - era * 146097 = doe" "0 \<le> doe" using r by (simp_all add: day_number_def doe_def)
  have k: "0 \<le> month_start mp + j" using p by (simp add: month_start_nonneg)
  have yr: "(doe - doe sdiv 1460 + doe sdiv 36524 - doe sdiv 146096) sdiv 365 = y"
  proof -
    have "0 \<le> year_numerator doe" using year_numerator_mono [OF doe(2)] by (simp add: year_numerator_def)
    then show ?thesis
      using year_find [of y "month_start mp + j"] p k doe(2)
      by (simp add: sdiv_nonneg year_numerator_def doe_def [symmetric])
  qed
  have doy: "doe - (365 * y + y sdiv 4 - y sdiv 100) = month_start mp + j"
    using p by (simp add: doe_def year_start_def sdiv_nonneg)
  have mo: "(5 * (month_start mp + j) + 2) sdiv 153 = mp"
    using month_find [of mp j] p k by (simp add: sdiv_nonneg)
  have ms: "(153 * mp + 2) sdiv 5 = month_start mp" using p by (simp add: sdiv_nonneg month_start_def)
  have cm: "cal_month mp \<le> 2 \<longleftrightarrow> \<not> mp < 10" using p by (simp add: cal_month_def)
  have tm: "(time mod 86400) sdiv 3600 = time mod 86400 div 3600" "(time mod 86400) smod 3600 = time mod 86400 mod 3600"
    "(time mod 86400 mod 3600) sdiv 60 = time mod 86400 mod 3600 div 60"
    "(time mod 86400 mod 3600) smod 60 = time mod 86400 mod 3600 mod 60"
    by (simp_all add: sdiv_nonneg smod_nonneg)
  show ?thesis
    unfolding utc_from_posix_time_def day fs Let_def prod.case assms(2) fl doe yr doy mo ms cal_month_def [symmetric] cm tm
    using assms(3) by (simp add: cal_year_def)
qed

lemma valid_posix_time_days:
  "is_valid_posix_time t \<longleftrightarrow> -60 \<le> t div 86400 + 719468 \<and> t div 86400 + 719468 \<le> 3652364"
proof -
  have "is_valid_posix_time t \<longleftrightarrow> -719528 * 86400 \<le> t \<and> t < 2932897 * 86400"
    by (auto simp: is_valid_posix_time_def MIN_POSIX_TIME_def MAX_POSIX_TIME_def)
  moreover define q r where "q = t div 86400" and "r = t mod 86400"
  then have "t = 86400 * q + r" "0 \<le> r" "r < 86400" by simp_all
  ultimately show ?thesis unfolding q_def [symmetric] by linarith
qed

lemma time_of_day:
  assumes "is_valid_time h mi s"
  shows "(D * 86400 + h * 3600 + mi * 60 + s) div 86400 = D"
    "(D * 86400 + h * 3600 + mi * 60 + s) mod 86400 = h * 3600 + mi * 60 + s"
    "(h * 3600 + mi * 60 + s) div 3600 = h" "(h * 3600 + mi * 60 + s) mod 3600 = mi * 60 + s"
    "(mi * 60 + s) div 60 = mi" "(mi * 60 + s) mod 60 = s"
proof -
  have v: "0 \<le> h" "h \<le> 23" "0 \<le> mi" "mi \<le> 59" "0 \<le> s" "s \<le> 59"
    using assms by (auto simp: is_valid_time_def split: if_splits)
  have e: "D * 86400 + h * 3600 + mi * 60 + s = 86400 * D + (h * 3600 + mi * 60 + s)"
    "h * 3600 + mi * 60 + s = 3600 * h + (mi * 60 + s)" "mi * 60 + s = 60 * mi + s" by simp_all
  show "(D * 86400 + h * 3600 + mi * 60 + s) div 86400 = D"
    "(D * 86400 + h * 3600 + mi * 60 + s) mod 86400 = h * 3600 + mi * 60 + s"
    using v by (intro int_div_pos_eq [OF e(1)] int_mod_pos_eq [OF e(1)]; simp)+
  show "(h * 3600 + mi * 60 + s) div 3600 = h" "(h * 3600 + mi * 60 + s) mod 3600 = mi * 60 + s"
    using v by (intro int_div_pos_eq [OF e(2)] int_mod_pos_eq [OF e(2)]; simp)+
  show "(mi * 60 + s) div 60 = mi" "(mi * 60 + s) mod 60 = s"
    using v by (intro int_div_pos_eq [OF e(3)] int_mod_pos_eq [OF e(3)]; simp)+
qed

lemma utc_of_posix:
  assumes "posix_time_from_utc year month day h mi s = Some t"
  shows "utc_from_posix_time t = Some (year, month, day, h, mi, s)"
proof -
  from assms have v: "is_valid_date year month day" "is_valid_time h mi s"
    by (auto simp: posix_time_from_utc_def split: if_splits)
  from v(1) obtain era y mp where pos: "position y mp (day - 1)" "cal_year era y mp = year" "cal_month mp = month"
    and e: "era = (if month \<le> 2 then year - 1 else year) div 400" "y = (if month \<le> 2 then year - 1 else year) mod 400"
      "mp = (if month > 2 then month - 3 else month + 9)"
    by (rule date_position)
  let ?D = "day_number era y mp (day - 1) - 719468"
  have t: "t = ?D * 86400 + h * 3600 + mi * 60 + s"
    using posix_position [OF v(2,1) pos(1) e] assms by simp
  note tod = time_of_day [OF v(2)]
  have d: "t div 86400 + 719468 = day_number era y mp (day - 1)" unfolding t tod by simp
  have "0 \<le> year" "year \<le> 9999" using v(1) by (auto simp: is_valid_date_def split: if_splits)
  then have "is_valid_posix_time t"
    unfolding valid_posix_time_days d using day_number_valid [OF pos(1), of era] pos(2) by simp
  moreover have "t mod 86400 div 3600 = h" "t mod 86400 mod 3600 div 60 = mi" "t mod 86400 mod 3600 mod 60 = s"
    by (simp_all only: t tod)
  ultimately show ?thesis using utc_position [OF pos(1) d] unfolding pos(2,3) by simp
qed

lemma posix_of_utc:
  assumes "utc_from_posix_time t = Some (year, month, day, h, mi, s)"
  shows "posix_time_from_utc year month day h mi s = Some t"
proof -
  from assms have v: "is_valid_posix_time t" by (auto simp: utc_from_posix_time_def split: if_splits)
  obtain era y mp j where pos: "position y mp j" "t div 86400 + 719468 = day_number era y mp j"
    by (rule day_position)
  define r where "r = t mod 86400"
  have r: "0 \<le> r" "r < 86400" by (simp_all add: r_def)
  from utc_position [OF pos v] assms have f: "year = cal_year era y mp" "month = cal_month mp" "day = j + 1"
    "h = r div 3600" "mi = r mod 3600 div 60" "s = r mod 3600 mod 60" by (simp_all add: r_def)
  have yr: "0 \<le> year \<and> year \<le> 9999"
    using v day_number_valid [OF pos(1), of era] unfolding valid_posix_time_days pos(2) f(1) by simp
  then have vd: "is_valid_date year month day" using position_date [OF pos(1), of era] by (simp add: f)
  have m: "0 \<le> r mod 3600" "r mod 3600 < 3600" by simp_all
  have "r div 3600 \<le> 86399 div 3600" "r mod 3600 div 60 \<le> 3599 div 60"
    using r m by (intro zdiv_mono1; simp)+
  moreover have "0 \<le> r div 3600" "0 \<le> r mod 3600 div 60"
    using r m by (simp_all add: pos_imp_zdiv_nonneg_iff)
  moreover have "0 \<le> s" "s < 60" unfolding f(6) by simp_all
  ultimately have vt: "is_valid_time h mi s"
    unfolding is_valid_time_def f(4,5) by simp
  note p = pos(1) [unfolded position_def]
  have e: "era = (if month \<le> 2 then year - 1 else year) div 400" "y = (if month \<le> 2 then year - 1 else year) mod 400"
      "mp = (if month > 2 then month - 3 else month + 9)"
    using p by (auto simp: f cal_year_def cal_month_def)
  have "posix_time_from_utc year month day h mi s =
      Some ((day_number era y mp j - 719468) * 86400 + h * 3600 + mi * 60 + s)"
    using posix_position [OF vt vd _ e] pos(1) by (simp add: f(3))
  moreover have "(day_number era y mp j - 719468) * 86400 + h * 3600 + mi * 60 + s = t"
  proof -
    have "h * 3600 + mi * 60 + s = r" unfolding f(4-6) by simp
    moreover define q where "q = t div 86400"
    moreover have "t = q * 86400 + r" by (simp add: r_def q_def)
    moreover have "day_number era y mp j - 719468 = q" using pos(2) by (simp add: q_def)
    ultimately show ?thesis unfolding q_def [symmetric] by simp
  qed
  ultimately show ?thesis by simp
qed

text \<open>The two conversions are inverse to each other on exactly the valid inputs.\<close>

lemma posix_utc_iff:
  "utc_from_posix_time t = Some (year, month, day, h, mi, s) \<longleftrightarrow>
   posix_time_from_utc year month day h mi s = Some t"
  using posix_of_utc utc_of_posix by blast

lemma utc_defined: "utc_from_posix_time t \<noteq> None \<longleftrightarrow> is_valid_posix_time t"
  by (simp add: utc_from_posix_time_def Let_def split: prod.splits)

lemma posix_defined:
  "posix_time_from_utc year month day h mi s \<noteq> None \<longleftrightarrow> is_valid_date year month day \<and> is_valid_time h mi s"
  by (simp add: posix_time_from_utc_def Let_def)

lemma tm_posix_iff: "OPENSSL_posix_to_tm t = Some x \<longleftrightarrow> OPENSSL_tm_to_posix x = Some t"
proof
  assume "OPENSSL_posix_to_tm t = Some x"
  then show "OPENSSL_tm_to_posix x = Some t"
    by (auto simp: OPENSSL_posix_to_tm_def OPENSSL_tm_to_posix_def posix_utc_iff split: option.splits)
next
  assume "OPENSSL_tm_to_posix x = Some t"
  then have "utc_from_posix_time t = Some (tm_year x + 1900, tm_mon x + 1, tm_mday x, tm_hour x, tm_min x, tm_sec x)"
    by (simp add: OPENSSL_tm_to_posix_def posix_utc_iff)
  then show "OPENSSL_posix_to_tm t = Some x" by (simp add: OPENSSL_posix_to_tm_def)
qed

text \<open>The calendar the code implements, by its successor function.\<close>

definition days_in_month :: "int \<Rightarrow> int \<Rightarrow> int" where
  "days_in_month year month =
     (if month \<in> {4, 6, 9, 11} then 30 else if month = 2 then (if leap year then 29 else 28) else 31)"

definition next_day :: "int \<times> int \<times> int \<Rightarrow> int \<times> int \<times> int" where
  "next_day d = (case d of (year, month, day) \<Rightarrow>
     if day < days_in_month year month then (year, month, day + 1)
     else if month < 12 then (year, month + 1, 1) else (year + 1, 1, 1))"

lemma year_step:
  "((y + 1) div 400) * 146097 + year_start ((y + 1) mod 400)
   = (y div 400) * 146097 + year_start (y mod 400) + year_len (y mod 400)"
proof (cases "y mod 400 = 399")
  case True
  define q where "q = y div 400"
  have "y = q * 400 + 399" using div_mult_mod_eq [of y 400] unfolding True q_def [symmetric] by simp
  then have e: "y + 1 = 400 * (y div 400 + 1) + 0" unfolding q_def [symmetric] by simp
  have "(y + 1) div 400 = y div 400 + 1" "(y + 1) mod 400 = 0"
    by (rule int_div_pos_eq [OF e]; simp) (rule int_mod_pos_eq [OF e]; simp)
  then show ?thesis using True by (simp add: year_start_def year_len_def leap_def)
next
  case False
  have "0 \<le> y mod 400" "y mod 400 < 400" by simp_all
  with False have b: "0 \<le> y mod 400" "y mod 400 + 1 < 400" by linarith+
  have e: "y + 1 = 400 * (y div 400) + (y mod 400 + 1)" by simp
  have "(y + 1) div 400 = y div 400" "(y + 1) mod 400 = y mod 400 + 1"
    using b by (intro int_div_pos_eq [OF e] int_mod_pos_eq [OF e]; simp)+
  then show ?thesis using year_table_at(3) [of "y mod 400"] False b by simp
qed

text \<open>The day number that a date has in the code, without the decomposition.\<close>

definition date_number :: "int \<Rightarrow> int \<Rightarrow> int \<Rightarrow> int" where
  "date_number year month day =
     (let y = (if month \<le> 2 then year - 1 else year); mp = (if month > 2 then month - 3 else month + 9)
      in day_number (y div 400) (y mod 400) mp (day - 1))"

lemma posix_date_number:
  assumes "is_valid_date year month day" "is_valid_time h mi s"
  shows "posix_time_from_utc year month day h mi s =
    Some ((date_number year month day - 719468) * 86400 + h * 3600 + mi * 60 + s)"
proof -
  from assms(1) obtain era y mp where pos: "position y mp (day - 1)"
    and e: "era = (if month \<le> 2 then year - 1 else year) div 400" "y = (if month \<le> 2 then year - 1 else year) mod 400"
      "mp = (if month > 2 then month - 3 else month + 9)"
    by (rule date_position)
  show ?thesis using posix_position [OF assms(2,1) pos e] by (simp add: date_number_def e Let_def)
qed

lemma leap_shift: "year_len ((year - 1) mod 400) = (if leap year then 366 else 365)"
  using leap_mod [of "(year - 1) div 400" "(year - 1) mod 400 + 1"]
  by (simp add: year_len_def add.assoc [symmetric])

lemma next_day_number:
  assumes "is_valid_date year month day" "next_day (year, month, day) = (year', month', day')"
  shows "date_number year' month' day' = date_number year month day + 1"
proof -
  have ry: "0 \<le> year" using assms by (auto simp: is_valid_date_def split: if_splits)
  note v = assms(1) [unfolded valid_date_leap [OF ry]]
  have m: "1 \<le> month" "month \<le> 12" using v by (auto split: if_splits)
  have dim: "day \<le> days_in_month year month" using v m by (auto simp: days_in_month_def split: if_splits)
  note ys = year_step [of "year - 1", simplified]
  show ?thesis
  proof (cases "day < days_in_month year month")
    case True
    with assms(2) show ?thesis by (auto simp: next_day_def date_number_def day_number_def Let_def)
  next
    case False
    with dim have d: "day = days_in_month year month" by simp
    have "month = 1 \<or> month = 2 \<or> month = 3 \<or> month = 4 \<or> month = 5 \<or> month = 6 \<or> month = 7 \<or> month = 8 \<or>
      month = 9 \<or> month = 10 \<or> month = 11 \<or> month = 12" using m by presburger
    then show ?thesis
      using assms(2) d ys leap_shift [of year]
      by (elim disjE) (auto simp: next_day_def date_number_def day_number_def days_in_month_def Let_def)
  qed
qed

end
