(* ===== verification/CBS_Time.thy ===== *)
theory CBS_Time
  imports CBS_Decimal Posix_Time
begin

text \<open>
  The last part of \<open>cbs.c\<close>: UTCTime and GeneralizedTime. The theorems say that, without time zone
  offsets, the parser accepts exactly one string for every valid time, and what it does with an
  offset.
\<close>

definition cbs_get_two_digits :: "cbs \<Rightarrow> int option \<times> cbs" where
  "cbs_get_two_digits cbs =
     (case CBS_get_u8 cbs of
        (None, cbs) \<Rightarrow> (None, cbs)
      | (Some first_digit, cbs) \<Rightarrow>
          (if \<not> OPENSSL_isdigit (uint first_digit) then (None, cbs)
           else case CBS_get_u8 cbs of
             (None, cbs) \<Rightarrow> (None, cbs)
           | (Some second_digit, cbs) \<Rightarrow>
               (if \<not> OPENSSL_isdigit (uint second_digit) then (None, cbs)
                else (Some ((uint first_digit - 48) * 10 + (uint second_digit - 48)), cbs))))"

definition is_valid_day :: "int \<Rightarrow> int \<Rightarrow> int \<Rightarrow> bool" where
  "is_valid_day year month day =
     (if day < 1 then False
      else if month \<in> {1, 3, 5, 7, 8, 10, 12} then day \<le> 31
      else if month \<in> {4, 6, 9, 11} then day \<le> 30
      else if month = 2 then
        (if (year smod 4 = 0 \<and> year smod 100 \<noteq> 0) \<or> year smod 400 = 0 then day \<le> 29 else day \<le> 28)
      else False)"

text \<open>\<open>if (!cbs_get_two_digits(&copy, &x) || x is out of range) return 0; ...\<close>\<close>

definition with_digits :: "cbs \<Rightarrow> (int \<Rightarrow> bool) \<Rightarrow> (int \<Rightarrow> cbs \<Rightarrow> 'a option) \<Rightarrow> 'a option" where
  "with_digits copy ok k =
     (case cbs_get_two_digits copy of
        (None, _) \<Rightarrow> None | (Some v, copy) \<Rightarrow> if ok v then k v copy else None)"

text \<open>
  The result is \<open>None\<close> for the return value 0, \<open>Some None\<close> for a success without \<open>out_tm\<close>
  (\<open>want_tm\<close> is \<open>out_tm != NULL\<close>) and \<open>Some (Some tm)\<close> with it.
\<close>

definition CBS_parse_rfc5280_time_internal :: "cbs \<Rightarrow> bool \<Rightarrow> bool \<Rightarrow> bool \<Rightarrow> tm option option" where
  "CBS_parse_rfc5280_time_internal cbs is_gentime allow_timezone_offset want_tm =
     (case (if is_gentime then
              with_digits cbs (\<lambda>_. True) (\<lambda>tmp copy.
              with_digits copy (\<lambda>_. True) (\<lambda>tmp2 copy. Some (tmp * 100 + tmp2, copy)))
            else
              with_digits cbs (\<lambda>_. True) (\<lambda>tmp copy.
                let year = 1900 + tmp; year = (if year < 1950 then year + 100 else year)
                in if year \<ge> 2050 then None else Some (year, copy))) of
        None \<Rightarrow> None
      | Some (year, copy) \<Rightarrow>
          with_digits copy (\<lambda>month. \<not> (month < 1 \<or> month > 12)) (\<lambda>month copy.
          with_digits copy (\<lambda>day. is_valid_day year month day) (\<lambda>day copy.
          with_digits copy (\<lambda>hour. \<not> hour > 23) (\<lambda>hour copy.
          with_digits copy (\<lambda>minute. \<not> minute > 59) (\<lambda>minute copy.
          with_digits copy (\<lambda>sec. \<not> sec > 59) (\<lambda>sec copy.
          case CBS_get_u8 copy of
            (None, _) \<Rightarrow> None
          | (Some tz, copy) \<Rightarrow>
              (case (if tz = 0x5a then Some 0 else if tz = 0x2b then Some 1
                     else if tz = 0x2d then Some (-1) else None) of
                 None \<Rightarrow> None
               | Some offset_sign \<Rightarrow>
                   (case (if offset_sign \<noteq> 0 then
                            (if \<not> allow_timezone_offset then None
                             else
                               with_digits copy (\<lambda>offset_hours. \<not> offset_hours > 23) (\<lambda>offset_hours copy.
                               with_digits copy (\<lambda>offset_minutes. \<not> offset_minutes > 59) (\<lambda>offset_minutes copy.
                                 Some (offset_sign * (offset_hours * 3600 + offset_minutes * 60), copy))))
                          else Some (0, copy)) of
                      None \<Rightarrow> None
                    | Some (offset_seconds, copy) \<Rightarrow>
                        (if length copy \<noteq> 0 then None
                         else if want_tm then
                           (let out_tm = \<lparr>tm_year = year - 1900, tm_mon = month - 1, tm_mday = day,
                                          tm_hour = hour, tm_min = minute, tm_sec = sec\<rparr>
                            in if offset_seconds \<noteq> 0 then
                                 map_option Some (OPENSSL_gmtime_adj out_tm 0 offset_seconds)
                               else Some (Some out_tm))
                         else Some None)))))))))"

definition CBS_parse_generalized_time :: "cbs \<Rightarrow> bool \<Rightarrow> bool \<Rightarrow> tm option option" where
  "CBS_parse_generalized_time cbs want_tm allow_timezone_offset =
     CBS_parse_rfc5280_time_internal cbs True allow_timezone_offset want_tm"

definition CBS_parse_utc_time :: "cbs \<Rightarrow> bool \<Rightarrow> bool \<Rightarrow> tm option option" where
  "CBS_parse_utc_time cbs want_tm allow_timezone_offset =
     CBS_parse_rfc5280_time_internal cbs False allow_timezone_offset want_tm"

section \<open>Two digits\<close>

definition two_digits :: "int \<Rightarrow> bytes" where
  "two_digits n = [of_int (48 + n div 10), of_int (48 + n mod 10)]"

lemma isdigit_of_int: "OPENSSL_isdigit (uint (b :: u8)) \<longleftrightarrow> (\<exists>k. 0 \<le> k \<and> k < 10 \<and> b = of_int (48 + k))"
proof
  assume "OPENSSL_isdigit (uint b)"
  then have "0 \<le> uint b - 48" "uint b - 48 < 10" by (auto simp: OPENSSL_isdigit_def)
  moreover have "b = of_int (48 + (uint b - 48))" by simp
  ultimately show "\<exists>k. 0 \<le> k \<and> k < 10 \<and> b = of_int (48 + k)" by blast
next
  assume "\<exists>k. 0 \<le> k \<and> k < 10 \<and> b = of_int (48 + k)"
  then obtain k where k: "0 \<le> k" "k < 10" "b = of_int (48 + k)" by blast
  then have "uint b = 48 + k" by (simp add: uint_word_of_int del: of_int_add)
  with k show "OPENSSL_isdigit (uint b)" by (simp add: OPENSSL_isdigit_def)
qed

lemma two_digits_iff:
  "cbs_get_two_digits c = (Some v, c') \<longleftrightarrow> 0 \<le> v \<and> v < 100 \<and> c = two_digits v @ c'"
proof
  assume "cbs_get_two_digits c = (Some v, c')"
  then obtain a b where c: "c = a # b # c'" "OPENSSL_isdigit (uint a)" "OPENSSL_isdigit (uint b)"
    "v = (uint a - 48) * 10 + (uint b - 48)"
    by (cases c; cases "tl c") (auto simp: cbs_get_two_digits_def split: if_splits)
  define x y where "x = uint a - 48" and "y = uint b - 48"
  have xy: "0 \<le> x" "x < 10" "0 \<le> y" "y < 10" using c by (auto simp: OPENSSL_isdigit_def x_def y_def)
  have v: "v = 10 * x + y" using c(4) by (simp add: x_def y_def)
  have "v div 10 = x" "v mod 10 = y" using xy by (intro int_div_pos_eq [OF v] int_mod_pos_eq [OF v]; simp)+
  then have "two_digits v = [a, b]" by (simp add: two_digits_def x_def y_def)
  with c xy v show "0 \<le> v \<and> v < 100 \<and> c = two_digits v @ c'" by simp
next
  assume a: "0 \<le> v \<and> v < 100 \<and> c = two_digits v @ c'"
  define x y where "x = v div 10" and "y = v mod 10"
  have xy: "0 \<le> x" "x < 10" "0 \<le> y" "y < 10" using a by (auto simp: x_def y_def)
  have u: "uint (of_int (48 + x) :: u8) = 48 + x" "uint (of_int (48 + y) :: u8) = 48 + y"
    using xy by (simp_all add: uint_word_of_int del: of_int_add)
  have "v = x * 10 + y" by (simp add: x_def y_def)
  with a xy u show "cbs_get_two_digits c = (Some v, c')"
    by (simp add: cbs_get_two_digits_def two_digits_def x_def [symmetric] y_def [symmetric]
        OPENSSL_isdigit_def del: of_int_add)
qed

lemma with_digits_iff:
  "with_digits c ok k = Some r \<longleftrightarrow>
   (\<exists>v c'. 0 \<le> v \<and> v < 100 \<and> ok v \<and> c = two_digits v @ c' \<and> k v c' = Some r)"
proof -
  have "with_digits c ok k = Some r \<longleftrightarrow>
    (\<exists>v c'. cbs_get_two_digits c = (Some v, c') \<and> ok v \<and> k v c' = Some r)"
    by (auto simp: with_digits_def split: prod.splits option.splits)
  then show ?thesis by (auto simp: two_digits_iff)
qed

section \<open>The strings that are accepted\<close>

text \<open>Everything after the year.\<close>

definition fmt_rest :: "tm \<Rightarrow> bytes" where
  "fmt_rest t = two_digits (tm_mon t + 1) @ two_digits (tm_mday t) @ two_digits (tm_hour t) @
     two_digits (tm_min t) @ two_digits (tm_sec t)"

definition fmt_gentime :: "tm \<Rightarrow> bytes" where
  "fmt_gentime t = two_digits ((tm_year t + 1900) div 100) @ two_digits ((tm_year t + 1900) mod 100) @ fmt_rest t"

definition fmt_utc :: "tm \<Rightarrow> bytes" where
  "fmt_utc t = two_digits (tm_year t mod 100) @ fmt_rest t"

text \<open>A zone: its text and the seconds it stands for.\<close>

definition zone :: "bool \<Rightarrow> bytes \<Rightarrow> int \<Rightarrow> bool" where
  "zone allow z off \<longleftrightarrow>
     z = [0x5a] \<and> off = 0 \<or>
     allow \<and> (\<exists>h m. 0 \<le> h \<and> h \<le> 23 \<and> 0 \<le> m \<and> m \<le> 59 \<and>
       (z = 0x2b # two_digits h @ two_digits m \<and> off = h * 3600 + m * 60 \<or>
        z = 0x2d # two_digits h @ two_digits m \<and> off = - (h * 3600 + m * 60)))"

definition shifted :: "tm \<Rightarrow> int \<Rightarrow> tm option" where
  "shifted t off = (if off \<noteq> 0 then OPENSSL_gmtime_adj t 0 off else Some t)"

definition valid_tm :: "tm \<Rightarrow> bool" where
  "valid_tm t \<longleftrightarrow> OPENSSL_tm_to_posix t \<noteq> None"

lemma is_valid_day_date:
  "0 \<le> year \<Longrightarrow> year \<le> 9999 \<Longrightarrow> 1 \<le> month \<Longrightarrow> is_valid_day year month day \<longleftrightarrow> is_valid_date year month day"
  by (auto simp: is_valid_day_def is_valid_date_def)

lemma valid_tm_iff:
  "valid_tm t \<longleftrightarrow> 0 \<le> tm_year t + 1900 \<and> tm_year t + 1900 \<le> 9999 \<and> 0 \<le> tm_mon t \<and> tm_mon t < 12 \<and>
     is_valid_day (tm_year t + 1900) (tm_mon t + 1) (tm_mday t) \<and>
     0 \<le> tm_hour t \<and> tm_hour t \<le> 23 \<and> 0 \<le> tm_min t \<and> tm_min t \<le> 59 \<and> 0 \<le> tm_sec t \<and> tm_sec t \<le> 59"
proof -
  have "valid_tm t \<longleftrightarrow> is_valid_date (tm_year t + 1900) (tm_mon t + 1) (tm_mday t) \<and>
      is_valid_time (tm_hour t) (tm_min t) (tm_sec t)"
    by (simp only: valid_tm_def OPENSSL_tm_to_posix_def posix_defined)
  moreover have "is_valid_date y m d \<longleftrightarrow> 0 \<le> y \<and> y \<le> 9999 \<and> 1 \<le> m \<and> m \<le> 12 \<and> is_valid_day y m d" for y m d
    by (cases "0 \<le> y \<and> y \<le> 9999 \<and> 1 \<le> m") (auto simp: is_valid_day_date, auto simp: is_valid_date_def split: if_splits)
  ultimately show ?thesis by (auto simp: is_valid_time_def)
qed

lemma valid_day_range: "is_valid_day y m d \<Longrightarrow> 1 \<le> d \<and> d \<le> 31"
  by (auto simp: is_valid_day_def split: if_splits)

text \<open>The two halves of the parser.\<close>

definition parse_year :: "bool \<Rightarrow> cbs \<Rightarrow> (int \<times> cbs) option" where
  "parse_year is_gentime cbs =
     (if is_gentime then
        with_digits cbs (\<lambda>_. True) (\<lambda>tmp copy.
        with_digits copy (\<lambda>_. True) (\<lambda>tmp2 copy. Some (tmp * 100 + tmp2, copy)))
      else
        with_digits cbs (\<lambda>_. True) (\<lambda>tmp copy.
          let year = 1900 + tmp; year = (if year < 1950 then year + 100 else year)
          in if year \<ge> 2050 then None else Some (year, copy)))"

definition parse_zone :: "cbs \<Rightarrow> bool \<Rightarrow> (int \<times> cbs) option" where
  "parse_zone copy allow_timezone_offset =
     (case CBS_get_u8 copy of
            (None, _) \<Rightarrow> None
          | (Some tz, copy) \<Rightarrow>
              (case (if tz = 0x5a then Some 0 else if tz = 0x2b then Some 1
                     else if tz = 0x2d then Some (-1) else None) of
                 None \<Rightarrow> None
               | Some offset_sign \<Rightarrow>
                   (if offset_sign \<noteq> 0 then
                            (if \<not> allow_timezone_offset then None
                             else
                               with_digits copy (\<lambda>offset_hours. \<not> offset_hours > 23) (\<lambda>offset_hours copy.
                               with_digits copy (\<lambda>offset_minutes. \<not> offset_minutes > 59) (\<lambda>offset_minutes copy.
                                 Some (offset_sign * (offset_hours * 3600 + offset_minutes * 60), copy))))
                          else Some (0, copy))))"

lemma parse_split:
  "CBS_parse_rfc5280_time_internal cbs g allow want =
   (case parse_year g cbs of
      None \<Rightarrow> None
    | Some (year, copy) \<Rightarrow>
          with_digits copy (\<lambda>month. \<not> (month < 1 \<or> month > 12)) (\<lambda>month copy.
          with_digits copy (\<lambda>day. is_valid_day year month day) (\<lambda>day copy.
          with_digits copy (\<lambda>hour. \<not> hour > 23) (\<lambda>hour copy.
          with_digits copy (\<lambda>minute. \<not> minute > 59) (\<lambda>minute copy.
          with_digits copy (\<lambda>sec. \<not> sec > 59) (\<lambda>sec copy.
            case parse_zone copy allow of
              None \<Rightarrow> None
            | Some (off, copy) \<Rightarrow>
                (if length copy \<noteq> 0 then None
                 else if want then
                   map_option Some (shifted \<lparr>tm_year = year - 1900, tm_mon = month - 1, tm_mday = day,
                                          tm_hour = hour, tm_min = minute, tm_sec = sec\<rparr> off)
                 else Some None)))))))"
proof -
  have z: "(case CBS_get_u8 copy of
            (None, _) \<Rightarrow> None
          | (Some tz, copy) \<Rightarrow>
              (case (if tz = 0x5a then Some 0 else if tz = 0x2b then Some 1
                     else if tz = 0x2d then Some (-1) else None) of
                 None \<Rightarrow> None
               | Some offset_sign \<Rightarrow>
                   (case (if offset_sign \<noteq> 0 then
                            (if \<not> allow then None
                             else
                               with_digits copy (\<lambda>offset_hours. \<not> offset_hours > 23) (\<lambda>offset_hours copy.
                               with_digits copy (\<lambda>offset_minutes. \<not> offset_minutes > 59) (\<lambda>offset_minutes copy.
                                 Some (offset_sign * (offset_hours * 3600 + offset_minutes * 60), copy))))
                          else Some (0, copy)) of
                      None \<Rightarrow> None
                    | Some (offset_seconds, copy) \<Rightarrow> k offset_seconds copy)))
     = (case parse_zone copy allow of None \<Rightarrow> None | Some (off, copy) \<Rightarrow> k off copy)"
    for k :: "int \<Rightarrow> cbs \<Rightarrow> tm option option" and copy
    by (auto simp: parse_zone_def split: option.splits prod.splits if_splits)
  have sh: "(let out_tm = t in if off \<noteq> 0 then map_option Some (OPENSSL_gmtime_adj out_tm 0 off) else Some (Some out_tm))
     = map_option Some (shifted t off)" for t off
    by (simp add: shifted_def)
  show ?thesis
    unfolding CBS_parse_rfc5280_time_internal_def parse_year_def [symmetric] z sh ..
qed

lemma offset_iff:
  "with_digits r (\<lambda>h. \<not> h > 23) (\<lambda>h copy. with_digits copy (\<lambda>m. \<not> m > 59) (\<lambda>m copy.
      Some (s * (h * 3600 + m * 60), copy))) = Some (off, []) \<longleftrightarrow>
   (\<exists>h m. 0 \<le> h \<and> h \<le> 23 \<and> 0 \<le> m \<and> m \<le> 59 \<and> r = two_digits h @ two_digits m \<and>
      off = s * (h * 3600 + m * 60))" (is "?l \<longleftrightarrow> (\<exists>h m. ?P h m)")
proof
  assume ?l
  from with_digits_iff [THEN iffD1, OF this] obtain h c where
    1: "0 \<le> h" "\<not> h > 23" "r = two_digits h @ c" and
    m: "with_digits c (\<lambda>m. \<not> m > 59) (\<lambda>m copy. Some (s * (h * 3600 + m * 60), copy)) = Some (off, [])"
    by (elim exE conjE)
  from with_digits_iff [THEN iffD1, OF m] obtain m c' where
    2: "0 \<le> m" "\<not> m > 59" "c = two_digits m @ c'" and
    e: "Some (s * (h * 3600 + m * 60), c') = Some (off, [])"
    by (elim exE conjE)
  from e have "c' = []" "off = s * (h * 3600 + m * 60)" by simp_all
  with 1 2 have "?P h m" by simp
  then show "\<exists>h m. ?P h m" by (intro exI)
next
  assume "\<exists>h m. ?P h m"
  then obtain h m where "?P h m" by (elim exE)
  then show ?l unfolding with_digits_iff
    by (intro exI [of _ h] exI [of _ "two_digits m"] exI [of _ m] exI [of _ "[]"] conjI) simp_all
qed

lemma parse_zone_iff: "parse_zone c allow = Some (off, []) \<longleftrightarrow> zone allow c off"
proof (cases c)
  case Nil
  then show ?thesis by (simp add: parse_zone_def zone_def)
next
  case (Cons b r)
  consider "b = 0x5a" | "b = 0x2b" | "b = 0x2d" | "b \<noteq> 0x5a" "b \<noteq> 0x2b" "b \<noteq> 0x2d" by blast
  then show ?thesis
  proof cases
    case 2
    then show ?thesis using offset_iff [of r 1 off] unfolding Cons by (simp add: parse_zone_def zone_def)
  next
    case 3
    then show ?thesis using offset_iff [of r "-1" off] unfolding Cons by (simp add: parse_zone_def zone_def)
  qed (auto simp: Cons parse_zone_def zone_def)
qed

lemma parse_year_utc:
  assumes "\<not> g"
  shows "parse_year g c = Some (y, c') \<longleftrightarrow>
      (\<exists>a. 0 \<le> a \<and> a < 100 \<and> c = two_digits a @ c' \<and> y = (if a < 50 then 2000 + a else 1900 + a))"
proof -
  have k: "(let year = 1900 + a; year = (if year < 1950 then year + 100 else year)
      in if year \<ge> 2050 then None else Some (year, c1)) = Some (y, c') \<longleftrightarrow>
    c1 = c' \<and> y = (if a < 50 then 2000 + a else 1900 + a)" if "0 \<le> a" "a < 100" for a c1
    using that by (cases "a < 50") (auto simp: Let_def)
  have "parse_year g c = with_digits c (\<lambda>_. True) (\<lambda>tmp copy.
          let year = 1900 + tmp; year = (if year < 1950 then year + 100 else year)
          in if year \<ge> 2050 then None else Some (year, copy))"
    using assms by (simp only: parse_year_def if_False)
  then show ?thesis
    by (simp only: with_digits_iff k cong: conj_cong) blast
qed

lemma parse_year_iff:
  "parse_year g c = Some (y, c') \<longleftrightarrow>
   0 \<le> y \<and> y \<le> 9999 \<and>
   (if g then c = two_digits (y div 100) @ two_digits (y mod 100) @ c'
    else 1950 \<le> y \<and> y < 2050 \<and> c = two_digits ((y - 1900) mod 100) @ c')"
proof (cases g)
  case True
  have "parse_year g c = Some (y, c') \<longleftrightarrow>
      (\<exists>a b. 0 \<le> a \<and> a < 100 \<and> 0 \<le> b \<and> b < 100 \<and> c = two_digits a @ two_digits b @ c' \<and> y = a * 100 + b)"
    using True by (auto simp: parse_year_def with_digits_iff)
  also have "\<dots> \<longleftrightarrow> 0 \<le> y \<and> y \<le> 9999 \<and> c = two_digits (y div 100) @ two_digits (y mod 100) @ c'"
  proof
    assume "\<exists>a b. 0 \<le> a \<and> a < 100 \<and> 0 \<le> b \<and> b < 100 \<and> c = two_digits a @ two_digits b @ c' \<and> y = a * 100 + b"
    then obtain a b where ab: "0 \<le> a" "a < 100" "0 \<le> b" "b < 100" "c = two_digits a @ two_digits b @ c'"
      and y: "y = 100 * a + b" by auto
    have "y div 100 = a" "y mod 100 = b" using ab by (intro int_div_pos_eq [OF y] int_mod_pos_eq [OF y]; simp)+
    with ab y show "0 \<le> y \<and> y \<le> 9999 \<and> c = two_digits (y div 100) @ two_digits (y mod 100) @ c'" by simp
  next
    assume a: "0 \<le> y \<and> y \<le> 9999 \<and> c = two_digits (y div 100) @ two_digits (y mod 100) @ c'"
    then have "y div 100 \<le> 9999 div 100" by (intro zdiv_mono1) simp_all
    then have hi: "y div 100 < 100" by simp
    have lo: "0 \<le> y div 100" using a by (intro div_int_pos_iff [THEN iffD2]) simp
    have "y = y div 100 * 100 + y mod 100" by (rule div_mult_mod_eq [symmetric])
    moreover have "c = two_digits (y div 100) @ two_digits (y mod 100) @ c'" using a by blast
    moreover have "0 \<le> y mod 100" "y mod 100 < 100" by (rule pos_mod_sign pos_mod_bound; simp)+
    ultimately show "\<exists>a b. 0 \<le> a \<and> a < 100 \<and> 0 \<le> b \<and> b < 100 \<and> c = two_digits a @ two_digits b @ c' \<and> y = a * 100 + b"
      using hi lo by metis
  qed
  finally show ?thesis using True by simp
next
  case False
  have "parse_year g c = Some (y, c') \<longleftrightarrow>
      (\<exists>a. 0 \<le> a \<and> a < 100 \<and> c = two_digits a @ c' \<and> y = (if a < 50 then 2000 + a else 1900 + a))"
    using False by (rule parse_year_utc)
  also have "\<dots> \<longleftrightarrow> 1950 \<le> y \<and> y < 2050 \<and> c = two_digits ((y - 1900) mod 100) @ c'"
  proof
    assume "\<exists>a. 0 \<le> a \<and> a < 100 \<and> c = two_digits a @ c' \<and> y = (if a < 50 then 2000 + a else 1900 + a)"
    then obtain a where a: "0 \<le> a" "a < 100" "c = two_digits a @ c'" "y = (if a < 50 then 2000 + a else 1900 + a)"
      by blast
    have "(y - 1900) mod 100 = a" using a(1,2,4) by (cases "a < 50") simp_all
    with a show "1950 \<le> y \<and> y < 2050 \<and> c = two_digits ((y - 1900) mod 100) @ c'" by (auto split: if_splits)
  next
    assume a: "1950 \<le> y \<and> y < 2050 \<and> c = two_digits ((y - 1900) mod 100) @ c'"
    have "y = (if (y - 1900) mod 100 < 50 then 2000 + (y - 1900) mod 100 else 1900 + (y - 1900) mod 100)"
    proof (cases "y < 2000")
      case True
      then have "(y - 1900) mod 100 = y - 1900" using a by (intro mod_pos_pos_trivial) simp_all
      with a True show ?thesis by simp
    next
      case False
      have e: "y - 1900 = 100 * 1 + (y - 2000)" by simp
      have "(y - 1900) mod 100 = y - 2000" using a False by (intro int_mod_pos_eq [OF e]) simp_all
      with a False show ?thesis by simp
    qed
    with a show "\<exists>a. 0 \<le> a \<and> a < 100 \<and> c = two_digits a @ c' \<and> y = (if a < 50 then 2000 + a else 1900 + a)"
      by (intro exI [of _ "(y - 1900) mod 100"]) simp
  qed
  finally show ?thesis using False by auto
qed

lemma with_digitsE:
  assumes "with_digits c ok k = Some r"
  obtains v c' where "0 \<le> v" "v < 100" "ok v" "c = two_digits v @ c'" "k v c' = Some r"
  using assms unfolding with_digits_iff by blast

lemma with_digitsI:
  "0 \<le> v \<Longrightarrow> v < 100 \<Longrightarrow> ok v \<Longrightarrow> with_digits (two_digits v @ c) ok k = k v c"
  by (simp add: with_digits_def two_digits_iff [THEN iffD2])

lemma tm_eta:
  "\<lparr>tm_year = tm_year t, tm_mon = tm_mon t, tm_mday = tm_mday t, tm_hour = tm_hour t,
     tm_min = tm_min t, tm_sec = tm_sec t\<rparr> = t"
  by (cases t) simp

lemma rest_iff:
  "with_digits c (\<lambda>month. \<not> (month < 1 \<or> month > 12)) (\<lambda>month copy.
   with_digits copy (\<lambda>day. is_valid_day year month day) (\<lambda>day copy.
   with_digits copy (\<lambda>hour. \<not> hour > 23) (\<lambda>hour copy.
   with_digits copy (\<lambda>minute. \<not> minute > 59) (\<lambda>minute copy.
   with_digits copy (\<lambda>sec. \<not> sec > 59) (\<lambda>sec copy.
     k \<lparr>tm_year = year - 1900, tm_mon = month - 1, tm_mday = day,
        tm_hour = hour, tm_min = minute, tm_sec = sec\<rparr> copy))))) = Some r \<longleftrightarrow>
   (\<exists>t c'. tm_year t = year - 1900 \<and> 0 \<le> tm_mon t \<and> tm_mon t < 12 \<and>
     is_valid_day year (tm_mon t + 1) (tm_mday t) \<and>
     0 \<le> tm_hour t \<and> tm_hour t \<le> 23 \<and> 0 \<le> tm_min t \<and> tm_min t \<le> 59 \<and> 0 \<le> tm_sec t \<and> tm_sec t \<le> 59 \<and>
     c = fmt_rest t @ c' \<and> k t c' = Some r)" (is "?l \<longleftrightarrow> (\<exists>t c'. ?P t c')")
proof
  assume ?l
  then obtain mo c1 where 1: "\<not> (mo < 1 \<or> mo > 12)" "c = two_digits mo @ c1" and
    "with_digits c1 (\<lambda>day. is_valid_day year mo day) (\<lambda>day copy.
     with_digits copy (\<lambda>hour. \<not> hour > 23) (\<lambda>hour copy.
     with_digits copy (\<lambda>minute. \<not> minute > 59) (\<lambda>minute copy.
     with_digits copy (\<lambda>sec. \<not> sec > 59) (\<lambda>sec copy.
       k \<lparr>tm_year = year - 1900, tm_mon = mo - 1, tm_mday = day,
          tm_hour = hour, tm_min = minute, tm_sec = sec\<rparr> copy)))) = Some r"
    by (rule with_digitsE)
  from this(3) obtain d c2 where 2: "is_valid_day year mo d" "c1 = two_digits d @ c2" and
    "with_digits c2 (\<lambda>hour. \<not> hour > 23) (\<lambda>hour copy.
     with_digits copy (\<lambda>minute. \<not> minute > 59) (\<lambda>minute copy.
     with_digits copy (\<lambda>sec. \<not> sec > 59) (\<lambda>sec copy.
       k \<lparr>tm_year = year - 1900, tm_mon = mo - 1, tm_mday = d,
          tm_hour = hour, tm_min = minute, tm_sec = sec\<rparr> copy))) = Some r"
    by (rule with_digitsE)
  from this(3) obtain h c3 where 3: "0 \<le> h" "\<not> h > 23" "c2 = two_digits h @ c3" and
    "with_digits c3 (\<lambda>minute. \<not> minute > 59) (\<lambda>minute copy.
     with_digits copy (\<lambda>sec. \<not> sec > 59) (\<lambda>sec copy.
       k \<lparr>tm_year = year - 1900, tm_mon = mo - 1, tm_mday = d,
          tm_hour = h, tm_min = minute, tm_sec = sec\<rparr> copy)) = Some r"
    by (rule with_digitsE)
  from this(4) obtain m c4 where 4: "0 \<le> m" "\<not> m > 59" "c3 = two_digits m @ c4" and
    "with_digits c4 (\<lambda>sec. \<not> sec > 59) (\<lambda>sec copy.
       k \<lparr>tm_year = year - 1900, tm_mon = mo - 1, tm_mday = d,
          tm_hour = h, tm_min = m, tm_sec = sec\<rparr> copy) = Some r"
    by (rule with_digitsE)
  from this(4) obtain s c5 where 5: "0 \<le> s" "\<not> s > 59" "c4 = two_digits s @ c5"
    "k \<lparr>tm_year = year - 1900, tm_mon = mo - 1, tm_mday = d, tm_hour = h, tm_min = m, tm_sec = s\<rparr> c5 = Some r"
    by (rule with_digitsE)
  have "?P \<lparr>tm_year = year - 1900, tm_mon = mo - 1, tm_mday = d, tm_hour = h, tm_min = m, tm_sec = s\<rparr> c5"
    using 1 2 3 4 5 by (simp add: fmt_rest_def)
  then show "\<exists>t c'. ?P t c'" by (intro exI)
next
  assume "\<exists>t c'. ?P t c'"
  then obtain t c' where P: "?P t c'" by (elim exE)
  then have "1 \<le> tm_mday t" "tm_mday t \<le> 31" using valid_day_range by blast+
  moreover from P have y: "year - 1900 = tm_year t" by simp
  ultimately show ?l using P unfolding y by (simp add: fmt_rest_def with_digitsI tm_eta)
qed

text \<open>
  What both time parsers accept, whatever the flags: the canonical text of some time in range, a
  zone, and the time moved by the zone's seconds.
\<close>

lemma parse_time_iff:
  "CBS_parse_rfc5280_time_internal cbs g allow True = Some (Some tm) \<longleftrightarrow>
   (\<exists>t z off. valid_tm t \<and> (g \<or> 50 \<le> tm_year t \<and> tm_year t < 150) \<and>
      cbs = (if g then fmt_gentime t else fmt_utc t) @ z \<and> zone allow z off \<and> shifted t off = Some tm)"
  (is "?l \<longleftrightarrow> ?r")
proof -
  let ?K = "\<lambda>t copy. case parse_zone copy allow of
              None \<Rightarrow> None
            | Some (off, copy) \<Rightarrow>
                (if length copy \<noteq> 0 then None
                 else if True then map_option Some (shifted t off) else Some None)"
  have K: "?K t c = Some (Some tm) \<longleftrightarrow> (\<exists>off. zone allow c off \<and> shifted t off = Some tm)" for t c
    by (auto simp flip: parse_zone_iff split: option.splits)
  let ?Q = "\<lambda>y c t c'. tm_year t = y - 1900 \<and> 0 \<le> tm_mon t \<and> tm_mon t < 12 \<and>
         is_valid_day y (tm_mon t + 1) (tm_mday t) \<and>
         0 \<le> tm_hour t \<and> tm_hour t \<le> 23 \<and> 0 \<le> tm_min t \<and> tm_min t \<le> 59 \<and> 0 \<le> tm_sec t \<and> tm_sec t \<le> 59 \<and>
         c = fmt_rest t @ c' \<and> ?K t c' = Some (Some tm)"
  have "?l \<longleftrightarrow> (\<exists>y c. parse_year g cbs = Some (y, c) \<and>
      (\<exists>t c'. ?Q y c t c'))"
    unfolding parse_split rest_iff [of _ _ ?K, symmetric]
    by (cases "parse_year g cbs") (auto simp only: option.case prod.case option.simps split: prod.splits)
  also have "\<dots> \<longleftrightarrow> (\<exists>t z. valid_tm t \<and> parse_year g cbs = Some (tm_year t + 1900, fmt_rest t @ z) \<and>
      (\<exists>off. zone allow z off \<and> shifted t off = Some tm))" (is "?m \<longleftrightarrow> ?n")
  proof
    assume ?m
    then obtain y c t z where m: "parse_year g cbs = Some (y, c)" "tm_year t = y - 1900" "0 \<le> tm_mon t" "tm_mon t < 12"
      "is_valid_day y (tm_mon t + 1) (tm_mday t)" "0 \<le> tm_hour t" "tm_hour t \<le> 23" "0 \<le> tm_min t" "tm_min t \<le> 59"
      "0 \<le> tm_sec t" "tm_sec t \<le> 59" "c = fmt_rest t @ z" "\<exists>off. zone allow z off \<and> shifted t off = Some tm"
      unfolding K by (elim exE conjE) (rule that, (assumption | intro exI conjI)+)
    have y: "y = tm_year t + 1900" "0 \<le> y" "y \<le> 9999" using m(1,2) by (simp_all add: parse_year_iff)
    then have "valid_tm t" using m by (simp add: valid_tm_iff)
    then show ?n using m y by metis
  next
    assume ?n
    then obtain t z where n: "valid_tm t" "parse_year g cbs = Some (tm_year t + 1900, fmt_rest t @ z)"
      "\<exists>off. zone allow z off \<and> shifted t off = Some tm" by blast
    from n(1) have "?Q (tm_year t + 1900) (fmt_rest t @ z) t z" unfolding K using n(3) by (simp add: valid_tm_iff)
    with n(2) show ?m by blast
  qed
  also have "\<dots> \<longleftrightarrow> ?r"
  proof -
    have "valid_tm t \<and> parse_year g cbs = Some (tm_year t + 1900, fmt_rest t @ z) \<longleftrightarrow>
      valid_tm t \<and> (g \<or> 50 \<le> tm_year t \<and> tm_year t < 150) \<and>
      cbs = (if g then fmt_gentime t else fmt_utc t) @ z" for t z
      by (auto simp: parse_year_iff valid_tm_iff fmt_gentime_def fmt_utc_def)
    then show ?thesis by metis
  qed
  finally show ?thesis .
qed

end
