(* ===== verification/Time_Props.thy ===== *)
theory Time_Props
  imports CBS_Time
begin

text \<open>
  The properties of the calendar arithmetic of \<open>posix_time.c\<close> and of the UTCTime and
  GeneralizedTime parsers of \<open>cbs.c\<close> (theories \<open>Posix_Time\<close> and \<open>CBS_Time\<close>).
\<close>

section \<open>The calendar\<close>

text \<open>C16. The two conversions between a date with a time of day and the seconds since 1970 are
  inverse to each other.\<close>

theorem posix_utc_inverse:
  "utc_from_posix_time t = Some (year, month, day, h, mi, s) \<longleftrightarrow>
   posix_time_from_utc year month day h mi s = Some t"
  by (rule posix_utc_iff)

text \<open>Both conversions are defined exactly on their documented ranges: the valid dates of the
  years 0 to 9999 on one side, and the seconds from 0000-01-01 00:00:00 to 9999-12-31 23:59:59 on
  the other; so every valid date has a time in this range, and every time in it a valid date.\<close>

theorem posix_time_ranges:
  "(posix_time_from_utc year month day h mi s \<noteq> None \<longleftrightarrow> is_valid_date year month day \<and> is_valid_time h mi s) \<and>
   (utc_from_posix_time t \<noteq> None \<longleftrightarrow> - 62167219200 \<le> t \<and> t \<le> 253402300799) \<and>
   (posix_time_from_utc year month day h mi s = Some t \<longrightarrow> - 62167219200 \<le> t \<and> t \<le> 253402300799)"
proof (intro conjI impI)
  show "posix_time_from_utc year month day h mi s \<noteq> None \<longleftrightarrow> is_valid_date year month day \<and> is_valid_time h mi s"
    by (rule posix_defined)
  have 2: "utc_from_posix_time t \<noteq> None \<longleftrightarrow> - 62167219200 \<le> t \<and> t \<le> 253402300799"
    unfolding utc_defined is_valid_posix_time_def MIN_POSIX_TIME_def MAX_POSIX_TIME_def ..
  then show "utc_from_posix_time t \<noteq> None \<longleftrightarrow> - 62167219200 \<le> t \<and> t \<le> 253402300799" .
  assume "posix_time_from_utc year month day h mi s = Some t"
  then have "utc_from_posix_time t \<noteq> None" by (simp flip: posix_utc_iff)
  with 2 show "- 62167219200 \<le> t" "t \<le> 253402300799" by blast+
qed

lemma leap_day_2000: "posix_time_from_utc 2000 2 29 0 0 0 = Some 951782400"
  by (simp add: posix_time_from_utc_def is_valid_date_def is_valid_time_def Let_def SECS_PER_DAY_def
      SECS_PER_HOUR_def sdiv_nonneg signed_divide_int_def signed_modulo_int_def)

theorem posix_time_ranges_witness:
  "(- 62167219200 :: int) \<le> 951782400 \<and> (951782400 :: int) \<le> 253402300799"
  using posix_time_ranges [of 2000 2 29 0 0 0 951782400] leap_day_2000 by blast

text \<open>The conversion counts days of the proleptic Gregorian calendar: 1970-01-01 is zero, and the
  successor of a date is 86400 seconds later, over month ends, leap days and centuries.\<close>

theorem posix_next_day:
  assumes "is_valid_date year month day" "is_valid_time h mi s"
    "next_day (year, month, day) = (year', month', day')" "is_valid_date year' month' day'"
  shows "posix_time_from_utc 1970 1 1 0 0 0 = Some 0 \<and>
    (\<exists>t. posix_time_from_utc year month day h mi s = Some t \<and>
         posix_time_from_utc year' month' day' h mi s = Some (t + 86400))"
proof
  have "posix_time_from_utc 1970 1 1 0 0 0 = Some ((date_number 1970 1 1 - 719468) * 86400 + 0 * 3600 + 0 * 60 + 0)"
    by (rule posix_date_number) (simp_all add: is_valid_date_def is_valid_time_def)
  then show "posix_time_from_utc 1970 1 1 0 0 0 = Some 0"
    by (simp add: date_number_def day_number_def year_start_def month_start_def)
  show "\<exists>t. posix_time_from_utc year month day h mi s = Some t \<and>
         posix_time_from_utc year' month' day' h mi s = Some (t + 86400)"
    using assms next_day_number [OF assms(1,3)] by (simp add: posix_date_number)
qed

theorem posix_next_day_witness:
  "\<exists>t. posix_time_from_utc 2000 2 28 23 59 59 = Some t \<and> posix_time_from_utc 2000 2 29 23 59 59 = Some (t + 86400)"
  by (rule posix_next_day [THEN conjunct2])
    (simp_all add: is_valid_date_def is_valid_time_def next_day_def days_in_month_def leap_def signed_modulo_int_def
      signed_divide_int_def)

lemma gmtime_adj_eq:
  "OPENSSL_gmtime_adj tm d s =
   Option.bind (OPENSSL_tm_to_posix tm) (\<lambda>p. OPENSSL_posix_to_tm (p + d * 86400 + s))"
proof (cases "OPENSSL_tm_to_posix tm")
  case (Some p)
  have "OPENSSL_posix_to_tm q = None" if "q > INT64_MAX \<or> q < INT64_MIN" for q
  proof -
    have "\<not> is_valid_posix_time q"
      using that by (auto simp: is_valid_posix_time_def MIN_POSIX_TIME_def MAX_POSIX_TIME_def INT64_MAX_def INT64_MIN_def)
    then have "utc_from_posix_time q = None" using utc_defined [of q] by blast
    then show ?thesis by (simp add: OPENSSL_posix_to_tm_def)
  qed
  with Some show ?thesis
    by (auto simp: OPENSSL_gmtime_adj_def Let_def SECS_PER_DAY_def SECS_PER_HOUR_def)
qed (simp add: OPENSSL_gmtime_adj_def)

text \<open>\<open>OPENSSL_gmtime_adj\<close> adds the days and seconds to the time and fails exactly when the
  argument is invalid or the sum leaves the range: its overflow checks never reject a sum in range.\<close>

theorem gmtime_adj_spec:
  "OPENSSL_gmtime_adj tm d s =
   Option.bind (OPENSSL_tm_to_posix tm) (\<lambda>p. OPENSSL_posix_to_tm (p + d * 86400 + s))"
  by (rule gmtime_adj_eq)

text \<open>With an \<open>int\<close> of days and an \<open>int64_t\<close> of seconds, none of its sums leaves \<open>int64_t\<close>.\<close>

theorem gmtime_adj_no_overflow:
  assumes "OPENSSL_tm_to_posix tm = Some p" "- (2 ^ 31) \<le> d" "d < 2 ^ 31" "- (2 ^ 63) \<le> s" "s < 2 ^ 63"
  defines "q \<equiv> p + d * SECS_PER_DAY"
  shows "- (2 ^ 63) \<le> d * SECS_PER_DAY \<and> d * SECS_PER_DAY < 2 ^ 63 \<and> - (2 ^ 63) \<le> q \<and> q < 2 ^ 63 \<and>
    (\<not> (q > 0 \<and> s > INT64_MAX - q) \<and> \<not> (q < 0 \<and> s < INT64_MIN - q) \<longrightarrow> - (2 ^ 63) \<le> q + s \<and> q + s < 2 ^ 63)"
proof -
  have "is_valid_posix_time p"
    using assms(1) utc_defined [of p] by (auto simp: OPENSSL_tm_to_posix_def simp flip: posix_utc_iff)
  then show ?thesis using assms(2-5)
    by (auto simp: q_def is_valid_posix_time_def MIN_POSIX_TIME_def MAX_POSIX_TIME_def INT64_MAX_def INT64_MIN_def
      SECS_PER_DAY_def SECS_PER_HOUR_def)
qed

theorem gmtime_adj_no_overflow_witness:
  "- (2 ^ 63) \<le> (951782400 :: int) + 2147483647 * SECS_PER_DAY \<and> (951782400 :: int) + 2147483647 * SECS_PER_DAY < 2 ^ 63"
proof -
  have "OPENSSL_tm_to_posix \<lparr>tm_year = 100, tm_mon = 1, tm_mday = 29, tm_hour = 0, tm_min = 0, tm_sec = 0\<rparr> = Some 951782400"
    by (simp add: OPENSSL_tm_to_posix_def leap_day_2000)
  from gmtime_adj_no_overflow [OF this, of 2147483647 0] show ?thesis by simp
qed

text \<open>The difference that \<open>OPENSSL_gmtime_diff\<close> computes leads back from one time to the other.\<close>

theorem gmtime_diff_adj:
  assumes "OPENSSL_gmtime_diff a b = Some (d, s)"
  shows "OPENSSL_gmtime_adj a d s = Some b \<and> \<bar>s\<bar> < 86400 \<and> d * s \<ge> 0"
proof (intro conjI)
  obtain p q where pq: "OPENSSL_tm_to_posix a = Some p" "OPENSSL_tm_to_posix b = Some q"
    and d: "d = (q - p) sdiv 86400" and s: "s = (q - p) smod 86400"
    using assms by (auto simp: OPENSSL_gmtime_diff_def Let_def SECS_PER_DAY_def SECS_PER_HOUR_def split: option.splits)
  have e: "d * 86400 + s = q - p" unfolding d s by (rule sdiv_mult_smod_eq)
  then have "p + d * 86400 + s = q" by simp
  with pq show "OPENSSL_gmtime_adj a d s = Some b"
    by (simp only: gmtime_adj_eq bind.bind_lunit tm_posix_iff)
  show "\<bar>s\<bar> < 86400" unfolding s using smod_int_range [of 86400 "q - p"] by (simp add: abs_if)
  show "d * s \<ge> 0"
  proof (cases "0 \<le> q - p")
    case True
    then show ?thesis unfolding d s by (simp add: sdiv_nonneg smod_nonneg pos_imp_zdiv_nonneg_iff)
  next
    case False
    then show ?thesis unfolding d s
      by (simp add: signed_divide_int_def signed_modulo_int_def)
  qed
qed

theorem gmtime_diff_adj_witness:
  "OPENSSL_gmtime_adj \<lparr>tm_year = 100, tm_mon = 1, tm_mday = 29, tm_hour = 0, tm_min = 0, tm_sec = 0\<rparr> (- 1) (- 3600)
   = Some \<lparr>tm_year = 100, tm_mon = 1, tm_mday = 27, tm_hour = 23, tm_min = 0, tm_sec = 0\<rparr>"
  by (rule gmtime_diff_adj [THEN conjunct1])
    (simp add: OPENSSL_gmtime_diff_def OPENSSL_tm_to_posix_def posix_time_from_utc_def is_valid_date_def
      is_valid_time_def Let_def SECS_PER_DAY_def SECS_PER_HOUR_def signed_divide_int_def signed_modulo_int_def)

section \<open>The time parsers\<close>

text \<open>Without time zone offsets, \<open>CBS_parse_generalized_time\<close> accepts exactly one string for
  every valid time, \<open>YYYYMMDDhhmmssZ\<close>, and returns that time; everything else is rejected.\<close>

theorem generalized_time_strict:
  "CBS_parse_generalized_time cbs True False = Some (Some tm) \<longleftrightarrow> valid_tm tm \<and> cbs = fmt_gentime tm @ [0x5a]"
  by (auto simp: CBS_parse_generalized_time_def parse_time_iff zone_def shifted_def)

text \<open>\<open>CBS_parse_utc_time\<close> does the same with \<open>YYMMDDhhmmssZ\<close> for the years 1950 to 2049, the
  window of RFC 5280.\<close>

theorem utc_time_strict:
  "CBS_parse_utc_time cbs True False = Some (Some tm) \<longleftrightarrow>
   valid_tm tm \<and> 50 \<le> tm_year tm \<and> tm_year tm < 150 \<and> cbs = fmt_utc tm @ [0x5a]"
  by (auto simp: CBS_parse_utc_time_def parse_time_iff zone_def shifted_def)

text \<open>Every time that a parser returns is a valid one, so the conversion to seconds cannot fail
  on it, also when an offset has moved it.\<close>

theorem parsed_time_valid:
  assumes "CBS_parse_rfc5280_time_internal cbs is_gentime allow_timezone_offset True = Some (Some tm)"
  shows "\<exists>p. OPENSSL_tm_to_posix tm = Some p"
proof -
  from assms obtain t off where t: "valid_tm t" "shifted t off = Some tm"
    unfolding parse_time_iff by blast
  then obtain p where "OPENSSL_tm_to_posix t = Some p" by (auto simp: valid_tm_def)
  with t show ?thesis
    by (auto simp: shifted_def gmtime_adj_eq tm_posix_iff split: if_splits)
qed

theorem parsed_time_valid_witness:
  "\<exists>p. OPENSSL_tm_to_posix \<lparr>tm_year = 100, tm_mon = 1, tm_mday = 29, tm_hour = 0, tm_min = 0, tm_sec = 0\<rparr> = Some p"
proof (rule parsed_time_valid)
  let ?t = "\<lparr>tm_year = 100, tm_mon = 1, tm_mday = 29, tm_hour = 0, tm_min = 0, tm_sec = 0\<rparr>"
  have "valid_tm ?t" by (simp add: valid_tm_def OPENSSL_tm_to_posix_def leap_day_2000)
  then show "CBS_parse_rfc5280_time_internal (fmt_gentime ?t @ [0x5a]) True False True = Some (Some ?t)"
    unfolding parse_time_iff by (auto simp: zone_def shifted_def)
qed

lemma two_digits_inj:
  "0 \<le> a \<Longrightarrow> a < 100 \<Longrightarrow> 0 \<le> b \<Longrightarrow> b < 100 \<Longrightarrow> two_digits a @ r = two_digits b @ s \<Longrightarrow> a = b \<and> r = s"
  using two_digits_iff [of "two_digits a @ r" a r] two_digits_iff [of "two_digits b @ s" b s] by simp

lemma fmt_gentime_inj: "valid_tm t \<Longrightarrow> valid_tm u \<Longrightarrow> fmt_gentime t @ y = fmt_gentime u @ z \<Longrightarrow> t = u"
  proof -
  assume a: "valid_tm t" "valid_tm u" "fmt_gentime t @ y = fmt_gentime u @ z"
  have len: "length (fmt_gentime x) = 14" for x by (simp add: fmt_gentime_def fmt_rest_def two_digits_def)
  have "fmt_gentime t = fmt_gentime u" using a(3) by (simp add: append_eq_append_conv len)
  then have "CBS_parse_rfc5280_time_internal (fmt_gentime t @ [0x5a]) True False True = Some (Some x)"
    if "x = t \<or> x = u" for x
    using that a(1,2) by (auto simp: parse_time_iff zone_def shifted_def)
  from this [of t] this [of u] show "t = u" by simp
qed

lemma zone_plus:
  assumes "0 \<le> h" "h \<le> 23" "0 \<le> m" "m \<le> 59"
  shows "zone True (0x2b # two_digits h @ two_digits m) off \<longleftrightarrow> off = h * 3600 + m * 60"
proof
  assume "zone True (0x2b # two_digits h @ two_digits m) off"
  then obtain h' m' where b: "0 \<le> h'" "h' \<le> 23" "0 \<le> m'" "m' \<le> 59" and
    e: "two_digits h @ two_digits m = two_digits h' @ two_digits m'" and o: "off = h' * 3600 + m' * 60"
    unfolding zone_def by auto
  have "h = h' \<and> two_digits m = two_digits m'" using two_digits_inj [OF _ _ _ _ e] assms b by simp
  moreover from this have "m = m'" using two_digits_inj [of m m' "[]" "[]"] assms b by simp
  ultimately show "off = h * 3600 + m * 60" using o by simp
next
  assume "off = h * 3600 + m * 60"
  with assms show "zone True (0x2b # two_digits h @ two_digits m) off" unfolding zone_def by blast
qed

text \<open>C40. With an offset \<open>+hhmm\<close> the result is the written time \<open>plus\<close> the offset. (X.680 defines the
  offset as the lead of the written local time over UTC, so that UTC is the written time minus the
  offset: the code adds where it should subtract.)\<close>

theorem time_offset_added:
  assumes "OPENSSL_tm_to_posix t = Some p" "0 \<le> h" "h \<le> 23" "0 \<le> m" "m \<le> 59"
  shows "CBS_parse_generalized_time (fmt_gentime t @ 0x2b # two_digits h @ two_digits m) True True = Some (Some tm)
    \<longleftrightarrow> OPENSSL_posix_to_tm (p + (h * 3600 + m * 60)) = Some tm"
proof -
  let ?z = "0x2b # two_digits h @ two_digits m" and ?o = "h * 3600 + m * 60"
  have v: "valid_tm t" using assms(1) by (simp add: valid_tm_def)
  have sh: "shifted t ?o = OPENSSL_posix_to_tm (p + ?o)"
    using assms(1) tm_posix_iff [of p t] by (simp add: shifted_def gmtime_adj_eq)
  have t: "t' = t \<and> z = ?z" if "valid_tm t'" "fmt_gentime t @ ?z = fmt_gentime t' @ z" for t' z
    using fmt_gentime_inj [OF v that(1,2)] that(2) by simp
  have "CBS_parse_generalized_time (fmt_gentime t @ ?z) True True = Some (Some tm) \<longleftrightarrow>
    (\<exists>off. zone True ?z off \<and> shifted t off = Some tm)"
    unfolding CBS_parse_generalized_time_def parse_time_iff using v t by (simp only: simp_thms if_True) blast
  also have "\<dots> \<longleftrightarrow> shifted t ?o = Some tm"
    using zone_plus [OF assms(2-5)] by simp
  finally show ?thesis by (simp only: sh)
qed

theorem time_offset_added_witness:
  "CBS_parse_generalized_time
     [0x32, 0x30, 0x30, 0x30, 0x30, 0x32, 0x32, 0x39, 0x30, 0x30, 0x30, 0x30, 0x30, 0x30, 0x2b, 0x30, 0x31, 0x30, 0x30]
     True True
   = Some (Some \<lparr>tm_year = 100, tm_mon = 1, tm_mday = 29, tm_hour = 1, tm_min = 0, tm_sec = 0\<rparr>)"
proof -
  let ?t = "\<lparr>tm_year = 100, tm_mon = 1, tm_mday = 29, tm_hour = 0, tm_min = 0, tm_sec = 0\<rparr>"
  have "OPENSSL_tm_to_posix ?t = Some 951782400" by (simp add: OPENSSL_tm_to_posix_def leap_day_2000)
  from time_offset_added [OF this, of 1 0] show ?thesis
    by (simp add: fmt_gentime_def fmt_rest_def two_digits_def tm_posix_iff OPENSSL_tm_to_posix_def
        posix_time_from_utc_def is_valid_date_def is_valid_time_def Let_def SECS_PER_DAY_def SECS_PER_HOUR_def
        signed_divide_int_def signed_modulo_int_def)
qed

end
