(* ===== verification/Stack.thy ===== *)
theory Stack
  imports Prelude "HOL-Library.Multiset"
begin

text \<open>
  \<open>stack/stack.c\<close>, the growing array of pointers. A \<open>void *\<close> is an \<open>'a option\<close> (\<open>None\<close> is NULL), a
  comparison function pointer an opaque \<open>'c\<close> that only \<open>call_cmp_func\<close> can call, as in the code. The
  parameter \<open>m\<close> is the allocator for pointer arrays: a size in bytes gives the block as a list of
  pointers, or \<open>None\<close>. \<open>None\<close> as a stack is a NULL \<open>sk\<close>.
\<close>

section \<open>State\<close>

record ('a, 'c) stack =
  st_num :: nat
  st_data :: "'a option list"
  st_sorted :: bool
  st_num_alloc :: nat
  st_comp :: "'c option"

type_synonym 'a ptr_malloc = "nat \<Rightarrow> 'a option list option"
type_synonym ('a, 'c) cmp_caller = "'c \<Rightarrow> 'a option \<Rightarrow> 'a option \<Rightarrow> int"

definition sizeof_ptr :: nat where "sizeof_ptr = 8"
definition sizeof_stack :: nat where "sizeof_stack = 40"
definition kMinSize :: nat where "kMinSize = 4"

definition sk_realloc :: "'a ptr_malloc \<Rightarrow> 'a option list \<Rightarrow> nat \<Rightarrow> 'a option list option" where
  "sk_realloc m old sz =
     map_option (\<lambda>b. take (length b) old @ drop (length old) b) (m sz)"

section \<open>Creating and reading\<close>

definition OPENSSL_sk_new :: "'a ptr_malloc \<Rightarrow> 'c option \<Rightarrow> ('a, 'c) stack option" where
  "OPENSSL_sk_new m cmp =
     (case m sizeof_stack of
        None \<Rightarrow> None
      | Some _ \<Rightarrow>
          (case m (kMinSize * sizeof_ptr) of
             None \<Rightarrow> None
           | Some b \<Rightarrow>
               Some \<lparr>st_num = 0, st_data = replicate (length b) None, st_sorted = False,
                     st_num_alloc = kMinSize, st_comp = cmp\<rparr>))"

definition OPENSSL_sk_new_null :: "'a ptr_malloc \<Rightarrow> ('a, 'c) stack option" where
  "OPENSSL_sk_new_null m = OPENSSL_sk_new m None"

definition OPENSSL_sk_num :: "('a, 'c) stack option \<Rightarrow> nat" where
  "OPENSSL_sk_num sk = (case sk of None \<Rightarrow> 0 | Some sk \<Rightarrow> st_num sk)"

definition OPENSSL_sk_zero :: "('a, 'c) stack option \<Rightarrow> ('a, 'c) stack option" where
  "OPENSSL_sk_zero sk =
     (case sk of
        None \<Rightarrow> None
      | Some sk \<Rightarrow>
          Some (if st_num sk = 0 then sk
                else sk\<lparr>st_data := replicate (st_num sk) None @ drop (st_num sk) (st_data sk),
                        st_num := 0, st_sorted := False\<rparr>))"

definition OPENSSL_sk_value :: "('a, 'c) stack option \<Rightarrow> nat \<Rightarrow> 'a option" where
  "OPENSSL_sk_value sk i =
     (case sk of None \<Rightarrow> None | Some sk \<Rightarrow> if i \<ge> st_num sk then None else st_data sk ! i)"

definition OPENSSL_sk_set :: "('a, 'c) stack option \<Rightarrow> nat \<Rightarrow> 'a option \<Rightarrow> 'a option \<times> ('a, 'c) stack option" where
  "OPENSSL_sk_set sk i value =
     (case sk of
        None \<Rightarrow> (None, None)
      | Some sk \<Rightarrow>
          if i \<ge> st_num sk then (None, Some sk)
          else (value, Some (sk\<lparr>st_data := (st_data sk)[i := value]\<rparr>)))"

text \<open>The pointers that \<open>OPENSSL_sk_pop_free_ex\<close> passes to the free function, in order.\<close>

definition OPENSSL_sk_pop_free_ex :: "('a, 'c) stack option \<Rightarrow> 'a option list" where
  "OPENSSL_sk_pop_free_ex sk =
     (case sk of None \<Rightarrow> [] | Some sk \<Rightarrow> filter (\<lambda>p. p \<noteq> None) (take (st_num sk) (st_data sk)))"

section \<open>Inserting and deleting\<close>

definition sk_grow :: "'a ptr_malloc \<Rightarrow> ('a, 'c) stack \<Rightarrow> ('a, 'c) stack option" where
  "sk_grow m sk =
     (if st_num_alloc sk \<le> size_add (st_num sk) 1 then
        (let bad = (\<lambda>n sz. n < st_num_alloc sk \<or> sz div sizeof_ptr \<noteq> n);
             new_alloc = st_num_alloc sk * 2 mod 2 ^ 64;
             alloc_size = new_alloc * sizeof_ptr mod 2 ^ 64;
             (new_alloc, alloc_size) =
               (if bad new_alloc alloc_size
                then (size_add (st_num_alloc sk) 1, size_add (st_num_alloc sk) 1 * sizeof_ptr mod 2 ^ 64)
                else (new_alloc, alloc_size))
         in if bad new_alloc alloc_size then None
            else case sk_realloc m (st_data sk) alloc_size of
              None \<Rightarrow> None
            | Some data \<Rightarrow> Some (sk\<lparr>st_data := data, st_num_alloc := new_alloc\<rparr>))
      else Some sk)"

definition OPENSSL_sk_insert ::
  "'a ptr_malloc \<Rightarrow> ('a, 'c) stack option \<Rightarrow> 'a option \<Rightarrow> nat \<Rightarrow> nat \<times> ('a, 'c) stack option" where
  "OPENSSL_sk_insert m sk p at =
     (case sk of
        None \<Rightarrow> (0, None)
      | Some sk \<Rightarrow>
          if st_num sk \<ge> INT_MAX then (0, Some sk)
          else case sk_grow m sk of
            None \<Rightarrow> (0, Some sk)
          | Some sk \<Rightarrow>
              (let n = st_num sk; d = st_data sk;
                   d = (if at \<ge> n then d[n := p]
                        else (take (at + 1) d @ take (n - at) (drop at d) @ drop (n + 1) d)[at := p])
               in (n + 1, Some (sk\<lparr>st_data := d, st_num := n + 1, st_sorted := False\<rparr>))))"

definition OPENSSL_sk_delete :: "('a, 'c) stack option \<Rightarrow> nat \<Rightarrow> 'a option \<times> ('a, 'c) stack option" where
  "OPENSSL_sk_delete sk at =
     (case sk of
        None \<Rightarrow> (None, None)
      | Some sk \<Rightarrow>
          if at \<ge> st_num sk then (None, Some sk)
          else
            (let n = st_num sk; d = st_data sk;
                 d' = (if at \<noteq> n - 1
                       then take at d @ take (n - at - 1) (drop (at + 1) d) @ drop (n - 1) d
                       else d)
             in (d ! at, Some (sk\<lparr>st_data := d', st_num := n - 1\<rparr>))))"

text \<open>The linear search loops: the first index from \<open>i\<close> on that satisfies \<open>P\<close>.\<close>

function first_index :: "('p \<Rightarrow> bool) \<Rightarrow> 'p list \<Rightarrow> nat \<Rightarrow> nat \<Rightarrow> nat option" where
  "first_index P d i n = (if i < n then if P (d ! i) then Some i else first_index P d (i + 1) n else None)"
  by pat_completeness auto
termination
  by (relation "measure (\<lambda>(P, d, i, n). n - i)") auto

declare first_index.simps [simp del]

definition OPENSSL_sk_delete_ptr :: "('a, 'c) stack option \<Rightarrow> 'a option \<Rightarrow> 'a option \<times> ('a, 'c) stack option" where
  "OPENSSL_sk_delete_ptr sk p =
     (case sk of
        None \<Rightarrow> (None, None)
      | Some s \<Rightarrow>
          (case first_index (\<lambda>q. q = p) (st_data s) 0 (st_num s) of
             None \<Rightarrow> (None, sk) | Some i \<Rightarrow> OPENSSL_sk_delete sk i))"

text \<open>\<open>OPENSSL_sk_delete_if\<close>; the caller's predicate with its context is \<open>func\<close>.\<close>

function delete_if_loop :: "('a option \<Rightarrow> bool) \<Rightarrow> nat \<Rightarrow> nat \<Rightarrow> nat \<Rightarrow> 'a option list \<Rightarrow> 'a option list \<times> nat" where
  "delete_if_loop func i n new_num d =
     (if i < n then
        (if \<not> func (d ! i) then delete_if_loop func (i + 1) n (new_num + 1) (d[new_num := d ! i])
         else delete_if_loop func (i + 1) n new_num d)
      else (d, new_num))"
  by pat_completeness auto
termination
  by (relation "measure (\<lambda>(func, i, n, new_num, d). n - i)") auto

declare delete_if_loop.simps [simp del]

definition OPENSSL_sk_delete_if :: "('a option \<Rightarrow> bool) \<Rightarrow> ('a, 'c) stack option \<Rightarrow> ('a, 'c) stack option" where
  "OPENSSL_sk_delete_if func sk =
     (case sk of
        None \<Rightarrow> None
      | Some sk \<Rightarrow>
          (let (d, new_num) = delete_if_loop func 0 (st_num sk) 0 (st_data sk)
           in Some (sk\<lparr>st_data := d, st_num := new_num\<rparr>)))"

definition OPENSSL_sk_shift :: "('a, 'c) stack option \<Rightarrow> 'a option \<times> ('a, 'c) stack option" where
  "OPENSSL_sk_shift sk =
     (case sk of None \<Rightarrow> (None, None) | Some s \<Rightarrow> if st_num s = 0 then (None, sk) else OPENSSL_sk_delete sk 0)"

definition OPENSSL_sk_push :: "'a ptr_malloc \<Rightarrow> ('a, 'c) stack option \<Rightarrow> 'a option \<Rightarrow> nat \<times> ('a, 'c) stack option" where
  "OPENSSL_sk_push m sk p = OPENSSL_sk_insert m sk p (case sk of None \<Rightarrow> 0 | Some s \<Rightarrow> st_num s)"

definition OPENSSL_sk_pop :: "('a, 'c) stack option \<Rightarrow> 'a option \<times> ('a, 'c) stack option" where
  "OPENSSL_sk_pop sk =
     (case sk of
        None \<Rightarrow> (None, None)
      | Some s \<Rightarrow> if st_num s = 0 then (None, sk) else OPENSSL_sk_delete sk (st_num s - 1))"

section \<open>Sorting\<close>

definition parent_idx :: "nat \<Rightarrow> nat" where
  "parent_idx idx = (idx - 1) div 2"

definition left_idx :: "nat \<Rightarrow> nat" where
  "left_idx idx = 2 * idx + 1"

definition larger_child :: "('p \<Rightarrow> 'p \<Rightarrow> int) \<Rightarrow> 'p list \<Rightarrow> nat \<Rightarrow> nat \<Rightarrow> nat" where
  "larger_child cmp d i n =
     (let left = left_idx i; next = i;
          next = (if cmp (d ! next) (d ! left) < 0 then left else next);
          right = left + 1
      in if right < n \<and> cmp (d ! next) (d ! right) < 0 then right else next)"

function down_heap :: "('p \<Rightarrow> 'p \<Rightarrow> int) \<Rightarrow> 'p list \<Rightarrow> nat \<Rightarrow> nat \<Rightarrow> 'p list" where
  "down_heap cmp d i n =
     (if left_idx i \<ge> n then d
      else (let next = larger_child cmp d i n
            in if i = next then d else down_heap cmp (d[i := d ! next, next := d ! i]) next n))"
  by pat_completeness auto
termination
  by (relation "measure (\<lambda>(cmp, d, i, n). n - i)") (auto simp: larger_child_def left_idx_def Let_def split: if_splits)

declare down_heap.simps [simp del]

text \<open>
  The first loop of \<open>OPENSSL_sk_sort\<close> counts \<open>i\<close> down to 0 and stops when it wraps around to
  \<open>SIZE_MAX\<close>; the second one counts down to 1.
\<close>

fun build_heap :: "('p \<Rightarrow> 'p \<Rightarrow> int) \<Rightarrow> 'p list \<Rightarrow> nat \<Rightarrow> nat \<Rightarrow> 'p list" where
  "build_heap cmp d 0 n = down_heap cmp d 0 n"
| "build_heap cmp d (Suc i) n = build_heap cmp (down_heap cmp d (Suc i) n) i n"

fun extract_max :: "('p \<Rightarrow> 'p \<Rightarrow> int) \<Rightarrow> 'p list \<Rightarrow> nat \<Rightarrow> 'p list" where
  "extract_max cmp d 0 = d"
| "extract_max cmp d (Suc i) =
     extract_max cmp (down_heap cmp (d[0 := d ! Suc i, Suc i := d ! 0]) 0 (Suc i)) i"

definition heap_sort :: "('p \<Rightarrow> 'p \<Rightarrow> int) \<Rightarrow> 'p list \<Rightarrow> nat \<Rightarrow> 'p list" where
  "heap_sort cmp d n =
     (if n \<ge> 2 then extract_max cmp (build_heap cmp d (parent_idx (n - 1)) n) (n - 1) else d)"

definition OPENSSL_sk_sort :: "('a, 'c) cmp_caller \<Rightarrow> ('a, 'c) stack option \<Rightarrow> ('a, 'c) stack option" where
  "OPENSSL_sk_sort call_cmp_func sk =
     (case sk of
        None \<Rightarrow> None
      | Some s \<Rightarrow>
          (case st_comp s of
             None \<Rightarrow> sk
           | Some c \<Rightarrow>
               if st_sorted s then sk
               else Some (s\<lparr>st_data := heap_sort (call_cmp_func c) (st_data s) (st_num s), st_sorted := True\<rparr>)))"

definition OPENSSL_sk_is_sorted :: "('a, 'c) stack option \<Rightarrow> bool" where
  "OPENSSL_sk_is_sorted sk =
     (case sk of None \<Rightarrow> True | Some sk \<Rightarrow> st_sorted sk \<or> st_comp sk \<noteq> None \<and> st_num sk < 2)"

definition OPENSSL_sk_set_cmp_func :: "('a, 'c) stack \<Rightarrow> 'c option \<Rightarrow> 'c option \<times> ('a, 'c) stack" where
  "OPENSSL_sk_set_cmp_func sk cmp =
     (st_comp sk, sk\<lparr>st_sorted := (if st_comp sk \<noteq> cmp then False else st_sorted sk), st_comp := cmp\<rparr>)"

section \<open>Searching\<close>

function binary_search :: "('p \<Rightarrow> int) \<Rightarrow> 'p list \<Rightarrow> nat \<Rightarrow> nat \<Rightarrow> nat option" where
  "binary_search r d lo hi =
     (if lo < hi then
        (let mid = lo + (hi - lo - 1) div 2
         in if r (d ! mid) > 0 then binary_search r d (mid + 1) hi
            else if r (d ! mid) < 0 then binary_search r d lo mid
            else if hi - lo = 1 then Some mid
            else binary_search r d lo (mid + 1))
      else None)"
  by pat_completeness auto
termination
  by (relation "measure (\<lambda>(r, d, lo, hi). hi - lo)") (auto simp: Let_def)

declare binary_search.simps [simp del]

definition OPENSSL_sk_find :: "('a, 'c) cmp_caller \<Rightarrow> ('a, 'c) stack option \<Rightarrow> 'a option \<Rightarrow> nat option" where
  "OPENSSL_sk_find call_cmp_func sk p =
     (case sk of
        None \<Rightarrow> None
      | Some s \<Rightarrow>
          (case st_comp s of
             None \<Rightarrow> first_index (\<lambda>q. q = p) (st_data s) 0 (st_num s)
           | Some c \<Rightarrow>
               if p = None then None
               else if \<not> OPENSSL_sk_is_sorted sk
               then first_index (\<lambda>q. call_cmp_func c p q = 0) (st_data s) 0 (st_num s)
               else binary_search (call_cmp_func c p) (st_data s) 0 (st_num s)))"

section \<open>Copying\<close>

definition OPENSSL_sk_dup :: "'a ptr_malloc \<Rightarrow> ('a, 'c) stack option \<Rightarrow> ('a, 'c) stack option" where
  "OPENSSL_sk_dup m sk =
     (case sk of
        None \<Rightarrow> None
      | Some sk \<Rightarrow>
          (case m sizeof_stack of
             None \<Rightarrow> None
           | Some _ \<Rightarrow>
               (case sk_realloc m (st_data sk) (sizeof_ptr * st_num_alloc sk) of
                  None \<Rightarrow> None | Some data \<Rightarrow> Some (sk\<lparr>st_data := data\<rparr>))))"

text \<open>
  The loop of \<open>OPENSSL_sk_deep_copy\<close>: the data, or the copies that are freed when a copy fails.
\<close>

function deep_copy_loop :: "('a option \<Rightarrow> 'a option) \<Rightarrow> nat \<Rightarrow> nat \<Rightarrow> 'a option list \<Rightarrow> 'a option list + 'a option list" where
  "deep_copy_loop copy i n d =
     (if i < n then
        (if d ! i = None then deep_copy_loop copy (i + 1) n d
         else if copy (d ! i) = None then Inl (filter (\<lambda>p. p \<noteq> None) (take i d))
         else deep_copy_loop copy (i + 1) n (d[i := copy (d ! i)]))
      else Inr d)"
  by pat_completeness auto
termination
  by (relation "measure (\<lambda>(copy, i, n, d). n - i)") auto

declare deep_copy_loop.simps [simp del]

definition OPENSSL_sk_deep_copy ::
  "'a ptr_malloc \<Rightarrow> ('a, 'c) stack option \<Rightarrow> ('a option \<Rightarrow> 'a option) \<Rightarrow> ('a, 'c) stack option \<times> 'a option list" where
  "OPENSSL_sk_deep_copy m sk copy =
     (case OPENSSL_sk_dup m sk of
        None \<Rightarrow> (None, [])
      | Some ret \<Rightarrow>
          (case deep_copy_loop copy 0 (st_num ret) (st_data ret) of
             Inl freed \<Rightarrow> (None, freed)
           | Inr data \<Rightarrow> (Some (ret\<lparr>st_data := data\<rparr>), [])))"

end
