(* ===== verification/Stack_Sort.thy ===== *)
theory Stack_Sort
  imports Stack
begin

text \<open>
  The heap sort and the binary search of \<open>stack.c\<close>, for any comparison function that orders its
  arguments as the C contract of \<open>qsort\<close> demands (locale \<open>total_cmp\<close>). \<open>down_heap\<close> keeps the array a
  permutation and repairs the heap property at one index; building the heap and extracting the
  maximum are its clients.
\<close>

locale total_cmp =
  fixes cmp :: "'p \<Rightarrow> 'p \<Rightarrow> int"
  assumes cmp_flip: "cmp a b < 0 \<longleftrightarrow> cmp b a > 0"
    and cmp_trans: "cmp a b \<le> 0 \<Longrightarrow> cmp b c \<le> 0 \<Longrightarrow> cmp a c \<le> 0"
begin

lemma cmp_total: "cmp a b \<le> 0 \<or> cmp b a \<le> 0"
  using cmp_flip [of a b] by linarith

lemma cmp_refl: "cmp a a \<le> 0"
  using cmp_total by blast

lemma not_less: "\<not> cmp a b < 0 \<longleftrightarrow> cmp b a \<le> 0"
  using cmp_flip [of a b] by linarith

lemma less_imp: "cmp a b < 0 \<Longrightarrow> cmp a b \<le> 0"
  by simp

end

section \<open>Heaps in arrays\<close>

lemma parent_cases: "0 < j \<Longrightarrow> parent_idx j = i \<longleftrightarrow> j = 2 * i + 1 \<or> j = 2 * i + 2"
  unfolding parent_idx_def by presburger

lemma parent_less: "0 < j \<Longrightarrow> parent_idx j < j"
  unfolding parent_idx_def by presburger

lemma mset_swap_nth: "i < length d \<Longrightarrow> j < length d \<Longrightarrow> mset (d[i := d ! j, j := d ! i]) = mset d"
  by (rule mset_swap)

lemma down_heap_length [simp]: "length (down_heap cmp d i n) = length d"
proof (induction cmp d i n rule: down_heap.induct)
  case (1 cmp d i n)
  then show ?case by (subst down_heap.simps) (simp add: Let_def)
qed

lemma larger_child_range:
  "left_idx i < n \<Longrightarrow> larger_child cmp d i n \<in> {i, 2 * i + 1, 2 * i + 2} \<and> larger_child cmp d i n < n"
  by (auto simp: larger_child_def left_idx_def Let_def)

lemma down_heap_frame: "n \<le> k \<Longrightarrow> down_heap cmp d i n ! k = d ! k"
proof (induction cmp d i n rule: down_heap.induct)
  case (1 cmp d i n)
  show ?case
  proof (cases "left_idx i \<ge> n \<or> i = larger_child cmp d i n")
    case True
    then show ?thesis by (subst down_heap.simps) (auto simp: Let_def)
  next
    case False
    define x where "x = larger_child cmp d i n"
    have "x < n" "i < n" using False larger_child_range [of i n cmp d] by (auto simp: x_def left_idx_def)
    moreover have "down_heap cmp d i n = down_heap cmp (d[i := d ! x, x := d ! i]) x n"
      using False by (subst down_heap.simps) (simp add: Let_def x_def)
    ultimately show ?thesis using 1 False by (simp add: x_def)
  qed
qed

lemma down_heap_mset: "n \<le> length d \<Longrightarrow> mset (down_heap cmp d i n) = mset d"
proof (induction cmp d i n rule: down_heap.induct)
  case (1 cmp d i n)
  show ?case
  proof (cases "left_idx i \<ge> n \<or> i = larger_child cmp d i n")
    case True
    then show ?thesis by (subst down_heap.simps) (auto simp: Let_def)
  next
    case False
    define x where "x = larger_child cmp d i n"
    have "x < length d" "i < length d"
      using False larger_child_range [of i n cmp d] "1.prems" by (auto simp: x_def left_idx_def)
    then have "mset (d[i := d ! x, x := d ! i]) = mset d" by (rule mset_swap_nth [rotated])
    moreover have "down_heap cmp d i n = down_heap cmp (d[i := d ! x, x := d ! i]) x n"
      using False by (subst down_heap.simps) (simp add: Let_def x_def)
    ultimately show ?thesis using 1 False by (simp add: x_def)
  qed
qed

text \<open>The part of the array that a sort of the first \<open>n\<close> elements leaves alone.\<close>

definition permutes_prefix :: "nat \<Rightarrow> 'p list \<Rightarrow> 'p list \<Rightarrow> bool" where
  "permutes_prefix n d d' \<longleftrightarrow> length d' = length d \<and> drop n d' = drop n d \<and> mset (take n d') = mset (take n d)"

lemma permutes_prefix_refl [simp]: "permutes_prefix n d d"
  by (simp add: permutes_prefix_def)

lemma permutes_prefix_trans: "permutes_prefix n a b \<Longrightarrow> permutes_prefix n b c \<Longrightarrow> permutes_prefix n a c"
  by (simp add: permutes_prefix_def)

lemma permutes_prefixI:
  assumes "length d' = length d" "\<And>k. n \<le> k \<Longrightarrow> k < length d \<Longrightarrow> d' ! k = d ! k" "mset d' = mset d"
  shows "permutes_prefix n d d'"
proof -
  have e: "drop n d' = drop n d" using assms(1,2) by (intro nth_equalityI) auto
  have "mset (take n d') + mset (drop n d') = mset (take n d) + mset (drop n d)"
    using assms(3) by (simp only: append_take_drop_id flip: mset_append)
  then show ?thesis using assms(1) e by (simp add: permutes_prefix_def)
qed

lemma permutes_prefix_mono: "permutes_prefix k d d' \<Longrightarrow> k \<le> n \<Longrightarrow> permutes_prefix n d d'"
proof (rule permutes_prefixI)
  assume p: "permutes_prefix k d d'" "k \<le> n"
  then have e: "drop k d' = drop k d" "length d' = length d" by (simp_all add: permutes_prefix_def)
  show "length d' = length d" by (rule e(2))
  show "d' ! i = d ! i" if "n \<le> i" "i < length d" for i
  proof -
    have "drop k d' ! (i - k) = drop k d ! (i - k)" using e(1) by simp
    then show ?thesis using that p(2) e(2) by simp
  qed
  have "mset (take k d' @ drop k d') = mset (take k d @ drop k d)"
    using p(1) e(1) by (simp only: mset_append permutes_prefix_def)
  then show "mset d' = mset d" by simp
qed

lemma down_heap_permutes: "n \<le> length d \<Longrightarrow> permutes_prefix n d (down_heap cmp d i n)"
  by (rule permutes_prefixI) (simp_all add: down_heap_frame down_heap_mset)

context total_cmp
begin

definition heap_from :: "nat \<Rightarrow> 'p list \<Rightarrow> nat \<Rightarrow> bool" where
  "heap_from lo d n \<longleftrightarrow> (\<forall>j. 0 < j \<and> j < n \<and> lo \<le> parent_idx j \<longrightarrow> cmp (d ! j) (d ! parent_idx j) \<le> 0)"

text \<open>The heap property may fail between \<open>i\<close> and its children only.\<close>

definition heap_except :: "nat \<Rightarrow> nat \<Rightarrow> 'p list \<Rightarrow> nat \<Rightarrow> bool" where
  "heap_except i lo d n \<longleftrightarrow>
     (\<forall>j. 0 < j \<and> j < n \<and> lo \<le> parent_idx j \<longrightarrow>
        (parent_idx j \<noteq> i \<longrightarrow> cmp (d ! j) (d ! parent_idx j) \<le> 0) \<and>
        (parent_idx j = i \<and> 0 < i \<and> lo \<le> parent_idx i \<longrightarrow> cmp (d ! j) (d ! parent_idx i) \<le> 0))"

lemma larger_child_max:
  assumes "j = 2 * i + 1 \<or> j = 2 * i + 2 \<or> j = i" "j < n" "left_idx i < n"
  shows "cmp (d ! j) (d ! larger_child cmp d i n) \<le> 0"
proof -
  let ?l = "2 * i + 1" and ?r = "2 * i + 2"
  have l: "cmp (d ! i) (d ! ?l) < 0 \<or> cmp (d ! ?l) (d ! i) \<le> 0" using not_less [of "d ! i" "d ! ?l"] by blast
  have r: "cmp (d ! x) (d ! ?r) < 0 \<or> cmp (d ! ?r) (d ! x) \<le> 0" for x using not_less [of "d ! x" "d ! ?r"] by blast
  have e: "larger_child cmp d i n =
      (let x = (if cmp (d ! i) (d ! ?l) < 0 then ?l else i)
       in if ?r < n \<and> cmp (d ! x) (d ! ?r) < 0 then ?r else x)"
    by (simp add: larger_child_def left_idx_def Let_def)
  have t: "cmp (d ! i) (d ! ?r) \<le> 0" if "cmp (d ! i) (d ! ?l) < 0" "cmp (d ! ?l) (d ! ?r) < 0"
    using cmp_trans [OF less_imp less_imp] that by blast
  have u: "cmp (d ! ?l) (d ! ?r) \<le> 0" if "cmp (d ! ?l) (d ! i) \<le> 0" "cmp (d ! i) (d ! ?r) < 0"
    using cmp_trans [OF _ less_imp] that by blast
  show ?thesis
    using assms l r t u cmp_refl unfolding e Let_def by (auto dest: less_imp)
qed

lemma larger_child_strict: "larger_child cmp d i n \<noteq> i \<Longrightarrow> cmp (d ! i) (d ! larger_child cmp d i n) \<le> 0"
  using cmp_trans [of "d ! i" "d ! (2 * i + 1)" "d ! (2 * i + 2)"]
  by (auto simp: larger_child_def left_idx_def Let_def split: if_splits)

lemma down_heap_heap:
  "heap_except i lo d n \<Longrightarrow> n \<le> length d \<Longrightarrow> lo \<le> i \<Longrightarrow> heap_from lo (down_heap cmp d i n) n"
proof (induction n' \<equiv> "n - i" arbitrary: d i rule: less_induct)
  case less
  note ex = less.prems(1) [unfolded heap_except_def, rule_format]
  show ?case
  proof (cases "left_idx i \<ge> n")
    case True
    have "parent_idx j \<noteq> i" if "0 < j" "j < n" for j
      using True that parent_cases [of j i] by (auto simp: left_idx_def)
    then have "heap_from lo d n" using ex by (auto simp: heap_from_def)
    with True show ?thesis by (subst down_heap.simps) simp
  next
    case False
    then have lt: "left_idx i < n" by simp
    define x where "x = larger_child cmp d i n"
    have mx: "cmp (d ! j) (d ! x) \<le> 0" if "0 < j" "j < n" "parent_idx j = i" for j
      using larger_child_max [of j i n d] lt that parent_cases [of j i] by (auto simp: x_def)
    show ?thesis
    proof (cases "x = i")
      case True
      have "heap_from lo d n"
        unfolding heap_from_def
      proof (intro allI impI)
        fix j assume j: "0 < j \<and> j < n \<and> lo \<le> parent_idx j"
        show "cmp (d ! j) (d ! parent_idx j) \<le> 0"
          using j mx [of j] ex [of j] True by (cases "parent_idx j = i") auto
      qed
      with True show ?thesis by (subst down_heap.simps) (simp add: Let_def x_def)
    next
      case False
      let ?d = "d[i := d ! x, x := d ! i]"
      have x: "x = 2 * i + 1 \<or> x = 2 * i + 2" "x < n"
        using larger_child_range [OF lt, of cmp d] False by (auto simp: x_def)
      have px: "parent_idx x = i" "0 < x" "i < x" using x parent_cases [of x i] by auto
      have len: "x < length d" "i < length d" using x px less.prems(2) by auto
      have nx: "?d ! x = d ! i" "?d ! i = d ! x" using len False by simp_all
      have other: "?d ! j = d ! j" if "j \<noteq> x" "j \<noteq> i" for j using that by simp
      have "heap_except x lo ?d n"
        unfolding heap_except_def
      proof (intro allI impI conjI)
        fix j assume j: "0 < j \<and> j < n \<and> lo \<le> parent_idx j"
        show "cmp (?d ! j) (?d ! parent_idx j) \<le> 0" if p: "parent_idx j \<noteq> x"
        proof (cases "parent_idx j = i")
          case True
          have ji: "j \<noteq> i" using parent_less [of j] j True by auto
          have "cmp (d ! i) (d ! x) \<le> 0" unfolding x_def by (rule larger_child_strict) (use False x_def in auto)
          then show ?thesis using True nx other [of j] ji mx [of j] j by (cases "j = x") auto
        next
          case pj: False
          then have jx: "j \<noteq> x" using px by auto
          show ?thesis
          proof (cases "j = i")
            case True
            have "cmp (d ! x) (d ! parent_idx i) \<le> 0" using ex [of x] px x(2) j True less.prems(3) by simp
            then show ?thesis using True nx other [of "parent_idx i"] p pj by auto
          next
            case False
            then show ?thesis using ex [of j] j jx pj p other [of j] other [of "parent_idx j"] by auto
          qed
        qed
        assume p: "parent_idx j = x \<and> 0 < x \<and> lo \<le> parent_idx x"
        then have "j \<noteq> x" "j \<noteq> i" using parent_less [of j] j px by auto
        then show "cmp (?d ! j) (?d ! parent_idx x) \<le> 0"
          using ex [of j] j p px nx other [of j] False less.prems(3) by auto
      qed
      moreover have "n - x < n - i" using px x by simp
      ultimately have "heap_from lo (down_heap cmp ?d x n) n"
        using less.hyps [of x ?d] less.prems(2,3) px by simp
      moreover have "down_heap cmp d i n = down_heap cmp ?d x n"
        using lt False by (subst down_heap.simps) (simp add: Let_def x_def)
      ultimately show ?thesis by simp
    qed
  qed
qed

section \<open>The sort\<close>

lemma heap_from_except: "heap_from (Suc i) d n \<Longrightarrow> heap_except i i d n"
  unfolding heap_from_def heap_except_def
proof (intro allI impI conjI)
  fix j assume h: "\<forall>j. 0 < j \<and> j < n \<and> Suc i \<le> parent_idx j \<longrightarrow> cmp (d ! j) (d ! parent_idx j) \<le> 0"
    and j: "0 < j \<and> j < n \<and> i \<le> parent_idx j"
  show "cmp (d ! j) (d ! parent_idx j) \<le> 0" if "parent_idx j \<noteq> i" using h j that by simp
  show "cmp (d ! j) (d ! parent_idx i) \<le> 0" if "parent_idx j = i \<and> 0 < i \<and> i \<le> parent_idx i"
    using that parent_less [of i] by simp
qed

lemma build_heap_heap:
  "heap_from (Suc i) d n \<Longrightarrow> n \<le> length d \<Longrightarrow> heap_from 0 (build_heap cmp d i n) n"
proof (induction i arbitrary: d)
  case 0
  then show ?case using down_heap_heap [OF heap_from_except] by simp
next
  case (Suc i)
  have "heap_from (Suc i) (down_heap cmp d (Suc i) n) n"
    using Suc.prems by (intro down_heap_heap heap_from_except) simp_all
  then show ?case using Suc by simp
qed

lemma build_heap_permutes: "n \<le> length d \<Longrightarrow> permutes_prefix n d (build_heap cmp d i n)"
proof (induction i arbitrary: d)
  case (Suc i)
  have "permutes_prefix n (down_heap cmp d (Suc i) n) (build_heap cmp (down_heap cmp d (Suc i) n) i n)"
    using Suc by simp
  with down_heap_permutes [OF Suc.prems] show ?case by (auto intro: permutes_prefix_trans)
qed (simp add: down_heap_permutes)

lemma heap_max: "heap_from 0 d n \<Longrightarrow> j < n \<Longrightarrow> cmp (d ! j) (d ! 0) \<le> 0"
proof (induction j rule: less_induct)
  case (less j)
  show ?case
  proof (cases "j = 0")
    case False
    then have p: "parent_idx j < j" by (simp add: parent_less)
    then have "cmp (d ! parent_idx j) (d ! 0) \<le> 0" using less by simp
    moreover have "cmp (d ! j) (d ! parent_idx j) \<le> 0" using less.prems False by (simp add: heap_from_def)
    ultimately show ?thesis using cmp_trans by blast
  qed (simp add: cmp_refl)
qed

text \<open>Loop invariant of the second loop: a heap in front, and nothing behind it out of order.\<close>

definition ordered_after :: "nat \<Rightarrow> 'p list \<Rightarrow> nat \<Rightarrow> bool" where
  "ordered_after i d n \<longleftrightarrow> (\<forall>j k. j < k \<and> k < n \<and> i < k \<longrightarrow> cmp (d ! j) (d ! k) \<le> 0)"

lemma extract_step:
  assumes "heap_from 0 d (Suc (Suc i))" "ordered_after (Suc i) d n" "Suc i < n" "n \<le> length d"
  defines "d2 \<equiv> down_heap cmp (d[0 := d ! Suc i, Suc i := d ! 0]) 0 (Suc i)"
  shows "heap_from 0 d2 (Suc i)" "ordered_after i d2 n" "permutes_prefix n d d2"
proof -
  define d1 where "d1 = d[0 := d ! Suc i, Suc i := d ! 0]"
  have len: "length d1 = length d" by (simp add: d1_def)
  have ne: "0 < length d" using assms(3,4) by linarith
  have d1: "d1 ! 0 = d ! Suc i" "d1 ! Suc i = d ! 0" "\<And>k. k \<noteq> 0 \<Longrightarrow> k \<noteq> Suc i \<Longrightarrow> d1 ! k = d ! k"
    using assms(3,4) ne by (auto simp: d1_def nth_list_update)
  have "heap_except 0 0 d1 (Suc i)"
    unfolding heap_except_def
  proof (intro allI impI conjI)
    fix j assume j: "0 < j \<and> j < Suc i \<and> 0 \<le> parent_idx j"
    show "cmp (d1 ! j) (d1 ! parent_idx j) \<le> 0" if "parent_idx j \<noteq> 0"
      using assms(1) j that d1(3) [of j] d1(3) [of "parent_idx j"] parent_less [of j] by (simp add: heap_from_def)
    show "cmp (d1 ! j) (d1 ! parent_idx 0) \<le> 0" if "parent_idx j = 0 \<and> 0 < (0 :: nat) \<and> 0 \<le> parent_idx 0"
      using that by simp
  qed
  then show "heap_from 0 d2 (Suc i)"
    unfolding d2_def d1_def [symmetric] using assms(3,4) len ne by (intro down_heap_heap) simp_all
  have pp: "permutes_prefix (Suc i) d1 d2"
    unfolding d2_def d1_def [symmetric] using assms(3,4) len by (intro down_heap_permutes) simp
  have "mset d1 = mset d" unfolding d1_def using assms(3,4) ne by (intro mset_swap_nth) simp_all
  then have "permutes_prefix n d d1" using d1(3) len assms(3) by (intro permutes_prefixI) auto
  then show "permutes_prefix n d d2"
    using permutes_prefix_mono [OF pp, of n] assms(3) by (auto intro: permutes_prefix_trans)
  have high: "d2 ! k = d1 ! k" if "Suc i \<le> k" for k
    unfolding d2_def d1_def [symmetric] using that by (rule down_heap_frame)
  have low: "\<exists>j' \<le> Suc i. d2 ! j = d ! j'" if "j < Suc i" for j
  proof -
    have l2: "length d2 = length d" using pp len by (simp add: permutes_prefix_def)
    have "d2 ! j \<in> set (take (Suc i) d2)"
      using that assms(3,4) l2 by (auto simp: in_set_conv_nth intro!: exI [of _ j])
    also have "set (take (Suc i) d2) = set (take (Suc i) d1)"
      using pp by (metis permutes_prefix_def set_mset_mset)
    finally obtain k where k: "k < Suc i" "d2 ! j = d1 ! k" by (auto simp: in_set_conv_nth)
    then show ?thesis using d1 by (cases "k = 0") (auto intro: exI [of _ k])
  qed
  note old = assms(2) [unfolded ordered_after_def, rule_format]
  show "ordered_after i d2 n"
    unfolding ordered_after_def
  proof (intro allI impI)
    fix j k assume jk: "j < k \<and> k < n \<and> i < k"
    show "cmp (d2 ! j) (d2 ! k) \<le> 0"
    proof (cases "Suc i \<le> j")
      case True
      then have "d2 ! k = d ! k" using jk d1(3) [of k] high [of k] by simp
      moreover have "d2 ! j = (if j = Suc i then d ! 0 else d ! j)" using True d1(2) d1(3) [of j] high [of j] by auto
      ultimately show ?thesis using old [of 0 k] old [of j k] jk True by simp
    next
      case False
      then obtain j' where j': "j' \<le> Suc i" "d2 ! j = d ! j'" using low [of j] by auto
      show ?thesis
      proof (cases "k = Suc i")
        case True
        then show ?thesis using j' high [of k] d1(2) heap_max [OF assms(1), of j'] by simp
      next
        case False
        then show ?thesis using j' high [of k] d1(3) [of k] jk old [of j' k] by simp
      qed
    qed
  qed
qed

lemma extract_max_correct:
  "heap_from 0 d (Suc i) \<Longrightarrow> ordered_after i d n \<Longrightarrow> i < n \<Longrightarrow> n \<le> length d \<Longrightarrow>
   ordered_after 0 (extract_max cmp d i) n \<and> permutes_prefix n d (extract_max cmp d i)"
proof (induction i arbitrary: d)
  case (Suc i)
  let ?d2 = "down_heap cmp (d[0 := d ! Suc i, Suc i := d ! 0]) 0 (Suc i)"
  note st = extract_step [OF Suc.prems]
  have "n \<le> length ?d2" using st(3) Suc.prems(4) by (simp add: permutes_prefix_def)
  then have "ordered_after 0 (extract_max cmp ?d2 i) n \<and> permutes_prefix n ?d2 (extract_max cmp ?d2 i)"
    using Suc.IH [OF st(1,2)] Suc.prems(3) by simp
  then show ?case using st(3) by (auto intro: permutes_prefix_trans)
qed simp

lemma heap_sort_correct:
  assumes "n \<le> length d"
  shows "sorted_wrt (\<lambda>a b. cmp a b \<le> 0) (take n (heap_sort cmp d n))" "permutes_prefix n d (heap_sort cmp d n)"
proof -
  have "sorted_wrt (\<lambda>a b. cmp a b \<le> 0) (take n (heap_sort cmp d n)) \<and> permutes_prefix n d (heap_sort cmp d n)"
  proof (cases "n \<ge> 2")
    case True
    let ?i = "parent_idx (n - 1)" and ?b = "build_heap cmp d (parent_idx (n - 1)) n"
    have "parent_idx j \<le> ?i" if "j < n" for j using that by (auto simp: parent_idx_def intro: div_le_mono)
    then have "heap_from (Suc ?i) d n" by (fastforce simp: heap_from_def)
    then have "heap_from 0 ?b n" using assms by (rule build_heap_heap)
    moreover have b: "permutes_prefix n d ?b" using assms by (rule build_heap_permutes)
    moreover have "n \<le> length ?b" using assms b by (simp add: permutes_prefix_def)
    moreover have "ordered_after (n - 1) ?b n" by (auto simp: ordered_after_def)
    ultimately have e: "ordered_after 0 (extract_max cmp ?b (n - 1)) n"
      "permutes_prefix n ?b (extract_max cmp ?b (n - 1))"
      using extract_max_correct [of ?b "n - 1" n] True by simp_all
    then have "n \<le> length (extract_max cmp ?b (n - 1))" using \<open>n \<le> length ?b\<close> by (simp add: permutes_prefix_def)
    with e(1) have "sorted_wrt (\<lambda>a b. cmp a b \<le> 0) (take n (extract_max cmp ?b (n - 1)))"
      by (auto simp: ordered_after_def sorted_wrt_iff_nth_less)
    with b e(2) True show ?thesis by (auto simp: heap_sort_def intro: permutes_prefix_trans)
  next
    case False
    then have "n = 0 \<or> n = 1" by auto
    then show ?thesis using False by (cases d) (auto simp: heap_sort_def)
  qed
  then show "sorted_wrt (\<lambda>a b. cmp a b \<le> 0) (take n (heap_sort cmp d n))" "permutes_prefix n d (heap_sort cmp d n)"
    by blast+
qed

end

section \<open>The search\<close>

lemma first_index_Some:
  "first_index P d i n = Some k \<longleftrightarrow> i \<le> k \<and> k < n \<and> P (d ! k) \<and> (\<forall>j. i \<le> j \<and> j < k \<longrightarrow> \<not> P (d ! j))"
proof (induction P d i n rule: first_index.induct)
  case (1 P d i n)
  show ?case
  proof (cases "i < n \<and> \<not> P (d ! i)")
    case True
    then have "first_index P d i n = first_index P d (i + 1) n" by (subst first_index.simps) simp
    with 1 True have e: "first_index P d i n = Some k \<longleftrightarrow>
      i + 1 \<le> k \<and> k < n \<and> P (d ! k) \<and> (\<forall>j. i + 1 \<le> j \<and> j < k \<longrightarrow> \<not> P (d ! j))" by simp
    have "i + 1 \<le> j \<longleftrightarrow> i \<le> j" if "P (d ! j)" for j
    proof -
      have "j \<noteq> i" using that True by auto
      then show ?thesis by auto
    qed
    then have "P (d ! k) \<Longrightarrow> i + 1 \<le> k \<longleftrightarrow> i \<le> k"
      "(i + 1 \<le> j \<longrightarrow> \<not> P (d ! j)) \<longleftrightarrow> (i \<le> j \<longrightarrow> \<not> P (d ! j))" for j by blast+
    then show ?thesis unfolding e by blast
  next
    case False
    then show ?thesis
      by (subst first_index.simps) (auto simp: le_less dest: less_trans)
  qed
qed

lemma option_eqI: "(\<And>x. a = Some x \<longleftrightarrow> b = Some x) \<Longrightarrow> a = b"
proof -
  assume e: "\<And>x. a = Some x \<longleftrightarrow> b = Some x"
  show ?thesis
  proof (cases b)
    case None
    show ?thesis
    proof (cases a)
      case (Some x)
      with e [of x] None show ?thesis by simp
    qed (simp add: None)
  next
    case (Some y)
    with e [of y] show ?thesis by simp
  qed
qed

lemma first_index_skip:
  assumes "i \<le> k" "\<forall>j. i \<le> j \<and> j < k \<longrightarrow> \<not> P (d ! j)"
  shows "first_index P d i n = first_index P d k n"
proof (rule option_eqI)
  fix x
  have "k \<le> x" if "i \<le> x" "P (d ! x)" using that assms(2) linorder_not_less by blast
  moreover have "(\<forall>j. i \<le> j \<and> j < x \<longrightarrow> \<not> P (d ! j)) \<longleftrightarrow> (\<forall>j. k \<le> j \<and> j < x \<longrightarrow> \<not> P (d ! j))"
    using assms by (meson le_trans linorder_not_less)
  ultimately show "first_index P d i n = Some x \<longleftrightarrow> first_index P d k n = Some x"
    unfolding first_index_Some using assms(1) by (auto dest: le_trans)
qed

lemma first_index_cut:
  assumes "k \<le> n" "(\<forall>j. k \<le> j \<and> j < n \<longrightarrow> \<not> P (d ! j)) \<or> i < k \<and> P (d ! (k - 1))"
  shows "first_index P d i n = first_index P d i k"
proof (rule option_eqI)
  fix x
  show "first_index P d i n = Some x \<longleftrightarrow> first_index P d i k = Some x"
    unfolding first_index_Some
  proof (intro iffI conjI; elim conjE)
    assume x: "i \<le> x" "x < n" "P (d ! x)" "\<forall>j. i \<le> j \<and> j < x \<longrightarrow> \<not> P (d ! j)"
    show "x < k"
    proof (rule ccontr)
      assume "\<not> x < k"
      then have "k \<le> x" by simp
      with assms(2) x(2,3) have k: "i < k" "P (d ! (k - 1))" by auto
      then have "i \<le> k - 1" "k - 1 < x" using \<open>k \<le> x\<close> by auto
      with x(4) k(2) show False by blast
    qed
  qed (use assms(1) in auto)
qed

text \<open>The sign of the comparison falls along the array.\<close>

definition sign_falls :: "('p \<Rightarrow> int) \<Rightarrow> 'p list \<Rightarrow> nat \<Rightarrow> nat \<Rightarrow> bool" where
  "sign_falls r d lo hi \<longleftrightarrow>
     (\<forall>j k. lo \<le> j \<and> j \<le> k \<and> k < hi \<longrightarrow> (r (d ! k) > 0 \<longrightarrow> r (d ! j) > 0) \<and> (r (d ! j) < 0 \<longrightarrow> r (d ! k) < 0))"

lemma sign_falls_mono: "sign_falls r d lo hi \<Longrightarrow> lo \<le> lo' \<Longrightarrow> hi' \<le> hi \<Longrightarrow> sign_falls r d lo' hi'"
  unfolding sign_falls_def by (meson le_trans less_le_trans)

lemma binary_search_eq:
  "sign_falls r d lo hi \<Longrightarrow> binary_search r d lo hi = first_index (\<lambda>q. r q = (0 :: int)) d lo hi"
proof (induction r d lo hi rule: binary_search.induct)
  case (1 r d lo hi)
  show ?case
  proof (cases "lo < hi")
    case True
    define mid where "mid = lo + (hi - lo - 1) div 2"
    have m: "lo \<le> mid" "mid < hi" "hi - lo = 1 \<Longrightarrow> mid = lo" using True by (auto simp: mid_def)
    have mono: "r (d ! k) > 0 \<Longrightarrow> r (d ! j) > 0" "r (d ! j) < 0 \<Longrightarrow> r (d ! k) < 0"
      if "lo \<le> j" "j \<le> k" "k < hi" for j k using "1.prems" that unfolding sign_falls_def by blast+
    have un: "binary_search r d lo hi =
        (if r (d ! mid) > 0 then binary_search r d (mid + 1) hi
         else if r (d ! mid) < 0 then binary_search r d lo mid
         else if hi - lo = 1 then Some mid
         else binary_search r d lo (mid + 1))"
      using True by (subst binary_search.simps) (simp add: Let_def mid_def)
    consider "r (d ! mid) > 0" | "r (d ! mid) < 0" | "r (d ! mid) = 0" "hi - lo = 1" | "r (d ! mid) = 0" "hi - lo \<noteq> 1"
      by linarith
    then show ?thesis
    proof cases
      case 1
      have "\<forall>j. lo \<le> j \<and> j < mid + 1 \<longrightarrow> \<not> r (d ! j) = 0"
      proof (intro allI impI)
        fix j assume "lo \<le> j \<and> j < mid + 1"
        then show "\<not> r (d ! j) = 0" using mono(1) [of j mid] 1 m by simp
      qed
      then have "first_index (\<lambda>q. r q = 0) d lo hi = first_index (\<lambda>q. r q = 0) d (mid + 1) hi"
        using m by (intro first_index_skip) simp_all
      moreover have "binary_search r d (mid + 1) hi = first_index (\<lambda>q. r q = 0) d (mid + 1) hi"
        by (rule "1.IH"(1) [OF True mid_def 1], rule sign_falls_mono [OF "1.prems"]) (use m in simp_all)
      ultimately show ?thesis using un 1 by simp
    next
      case 2
      have "\<forall>j. mid \<le> j \<and> j < hi \<longrightarrow> \<not> r (d ! j) = 0"
      proof (intro allI impI)
        fix j assume "mid \<le> j \<and> j < hi"
        then show "\<not> r (d ! j) = 0" using mono(2) [of mid j] 2 m by simp
      qed
      then have "first_index (\<lambda>q. r q = 0) d lo hi = first_index (\<lambda>q. r q = 0) d lo mid"
        using m by (intro first_index_cut) simp_all
      moreover have "binary_search r d lo mid = first_index (\<lambda>q. r q = 0) d lo mid"
        by (rule "1.IH"(2) [OF True mid_def _ 2], simp add: 2 not_less_iff_gr_or_eq, rule sign_falls_mono [OF "1.prems"]) (use m 2 in simp_all)
      ultimately show ?thesis using un 2 by simp
    next
      case 3
      then have "first_index (\<lambda>q. r q = 0) d lo hi = Some mid"
        using m True by (subst first_index.simps) simp
      then show ?thesis using un 3 by simp
    next
      case 4
      have "first_index (\<lambda>q. r q = 0) d lo hi = first_index (\<lambda>q. r q = 0) d lo (mid + 1)"
        using m 4 by (intro first_index_cut) simp_all
      moreover have "binary_search r d lo (mid + 1) = first_index (\<lambda>q. r q = 0) d lo (mid + 1)"
        by (rule "1.IH"(3) [OF True mid_def]) (use m 4 sign_falls_mono [OF "1.prems"] in auto)
      ultimately show ?thesis using un 4 by simp
    qed
  next
    case False
    then show ?thesis by (subst binary_search.simps, subst first_index.simps) simp
  qed
qed

context total_cmp
begin

text \<open>In a sorted array the binary search finds what the linear search finds: the first match.\<close>

lemma binary_search_first:
  assumes "sorted_wrt (\<lambda>a b. cmp a b \<le> 0) (take n d)" "n \<le> length d"
  shows "binary_search (cmp p) d 0 n = first_index (\<lambda>q. cmp p q = 0) d 0 n"
proof (rule binary_search_eq, unfold sign_falls_def, intro allI impI conjI)
  fix j k assume jk: "0 \<le> j \<and> j \<le> k \<and> k < n"
  have le: "cmp (d ! j) (d ! k) \<le> 0"
    using jk assms cmp_refl by (cases "j = k") (auto simp: sorted_wrt_iff_nth_less)
  show "cmp p (d ! j) > 0" if "cmp p (d ! k) > 0"
    using cmp_trans [OF _ le, of p] that by linarith
  show "cmp p (d ! k) < 0" if "cmp p (d ! j) < 0"
    using cmp_trans [OF le, of p] that not_less by blast
qed

end

end
