(* ===== verification/Set_Of.thy ===== *)
theory Set_Of
  imports CBB_ASN1 CBB_Write Stack_Sort "HOL-Library.List_Lexorder"
begin

text \<open>
  The ordering of SET OF contents in \<open>cbb.c\<close>: \<open>compare_set_of_element\<close> is the lexicographic order, so
  it satisfies the contract of a comparison function, and \<open>CBB_flush_asn1_set_of\<close> replaces the
  contents by the sorted concatenation. What is used of the C library's \<open>qsort\<close> is \<open>qsort_ok\<close>: it
  permutes the array into ascending order.
\<close>

section \<open>The comparison\<close>

lemma compare_Nil [simp]:
  "compare_set_of_element [] [] = 0" "compare_set_of_element [] (b # bs) = - 1" "compare_set_of_element (a # as) [] = 1"
  by (simp_all add: compare_set_of_element_def)

lemma compare_Cons [simp]:
  "compare_set_of_element (a # as) (b # bs) =
     (if a = b then compare_set_of_element as bs else int (unat a) - int (unat b))"
  by (cases "length as < length bs") (simp_all add: compare_set_of_element_def Let_def word_uint_eq_iff)

lemma byte_uint: "uint (x :: u8) < uint y \<longleftrightarrow> x < y" "uint x \<le> uint y \<longleftrightarrow> x \<le> y" "uint x = uint y \<longleftrightarrow> x = y"
  by (simp_all add: word_less_def word_le_def word_uint_eq_iff)

lemma compare_le: "compare_set_of_element a b \<le> 0 \<longleftrightarrow> a \<le> b"
proof (induction a arbitrary: b)
  case Nil
  then show ?case by (cases b) simp_all
next
  case (Cons x a)
  then show ?case by (cases b) (auto simp: byte_uint less_le)
qed

lemma compare_less: "compare_set_of_element a b < 0 \<longleftrightarrow> a < b"
proof (induction a arbitrary: b)
  case Nil
  then show ?case by (cases b) simp_all
next
  case (Cons x a)
  then show ?case by (cases b) (auto simp: byte_uint less_le)
qed

lemma compare_zero: "compare_set_of_element a b = 0 \<longleftrightarrow> a = b"
  using compare_le [of a b] compare_less [of a b] by auto

interpretation set_of_order: total_cmp compare_set_of_element
proof
  fix a b c
  show "compare_set_of_element a b < 0 \<longleftrightarrow> compare_set_of_element b a > 0"
    using compare_less [of a b] compare_le [of b a] by auto
  show "compare_set_of_element a b \<le> 0 \<Longrightarrow> compare_set_of_element b c \<le> 0 \<Longrightarrow> compare_set_of_element a c \<le> 0"
    unfolding compare_le by (rule order_trans)
qed

section \<open>The sort\<close>

definition qsort_ok :: "((bytes \<Rightarrow> bytes \<Rightarrow> int) \<Rightarrow> bytes list \<Rightarrow> bytes list) \<Rightarrow> bool" where
  "qsort_ok qs \<longleftrightarrow>
     (\<forall>cmp xs. total_cmp cmp \<longrightarrow> mset (qs cmp xs) = mset xs \<and> sorted_wrt (\<lambda>a b. cmp a b \<le> 0) (qs cmp xs))"

lemma qsort_sorts: "qsort_ok qs \<Longrightarrow> qs compare_set_of_element xs = sort xs"
proof (rule properties_for_sort [symmetric])
  assume "qsort_ok qs"
  then have "mset (qs compare_set_of_element xs) = mset xs"
    "sorted_wrt (\<lambda>a b. compare_set_of_element a b \<le> 0) (qs compare_set_of_element xs)"
    using set_of_order.total_cmp_axioms by (auto simp: qsort_ok_def)
  then show "mset (qs compare_set_of_element xs) = mset xs" "sorted (qs compare_set_of_element xs)"
    by (simp_all add: compare_le)
qed

text \<open>The heap sort of \<open>stack.c\<close> is such a sort.\<close>

lemma heap_sort_qsort: "qsort_ok (\<lambda>cmp xs. heap_sort cmp xs (length xs))"
  unfolding qsort_ok_def
proof (intro allI impI conjI)
  fix cmp :: "bytes \<Rightarrow> bytes \<Rightarrow> int" and xs
  assume "total_cmp cmp"
  note h = total_cmp.heap_sort_correct [OF \<open>total_cmp cmp\<close> order.refl [of "length xs"]]
  have "length (heap_sort cmp xs (length xs)) = length xs" using h(2) by (simp add: permutes_prefix_def)
  with h show "mset (heap_sort cmp xs (length xs)) = mset xs"
    "sorted_wrt (\<lambda>a b. cmp a b \<le> 0) (heap_sort cmp xs (length xs))" by (simp_all add: permutes_prefix_def)
qed

section \<open>The contents of the current frame\<close>

fun frame :: "builder \<Rightarrow> bytes" where
  "frame (b, []) = b"
| "frame (b, (k, c) # r) = c"

fun set_frame :: "bytes \<Rightarrow> builder \<Rightarrow> builder" where
  "set_frame e (b, []) = (e, [])"
| "set_frame e (b, (k, c) # r) = (b, (k, e) # r)"

abbreviation enc_all :: "(bytes \<times> tag) list \<Rightarrow> bytes list" where
  "enc_all es \<equiv> map (\<lambda>(body, t). der_element t body) es"

lemma frame_data:
  assumes "repr c s" "length (snd s) = d"
  shows "\<exists>data. CBB_data c d = Some data \<and> CBB_len c d = Some (length (frame s)) \<and>
    take (length (frame s)) data = frame s \<and> cbb_start c d + length (frame s) = cb_len (base c)"
proof (cases "snd s")
  case Nil
  then obtain b where s: "s = (b, [])" by (cases s) auto
  then have "chain c = []" "d = 0" "cb_len (base c) = length b" "take (cb_len (base c)) (cb_buf (base c)) = b"
    using assms repr_len [OF assms(1)] by (simp_all add: repr_def)
  then show ?thesis by (simp add: s CBB_data_def CBB_len_def cbb_start_def)
next
  case (Cons f r)
  obtain b k cont where s: "s = (b, (k, cont) # r)" using Cons by (cases s; cases f) auto
  have d: "d = Suc (length r)" using assms(2) by (simp add: s)
  note a = repr_split [OF assms(1) [unfolded s]] repr_child(1) [OF assms(1) [unfolded s]]
  have len: "length (chain c) = d" using repr_chain [OF assms(1)] by (simp add: s d)
  have st: "cbb_start c d = length (bimage (b, r)) + plen k" using a(3) by (simp add: cbb_start_def d)
  then have "drop (cbb_start c d) (cb_buf (base c)) = cont @ drop (cb_len (base c)) (cb_buf (base c))"
    by (subst a(1)) simp
  then show ?thesis using a(2) len st by (simp add: s CBB_data_def CBB_len_def)
qed

lemma put_frame:
  assumes "repr c s" "length (snd s) = d" "length e = length (frame s)"
  shows "repr (put_bytes (cbb_start c d) e c) (set_frame e s)"
proof -
  have start: "cbb_start c d + length e = cb_len (base c)" using frame_data [OF assms(1,2)] assms(3) by auto
  have len: "cb_len (base c) \<le> length (cb_buf (base c))" using assms(1) by (simp add: repr_def wf_buffer_def)
  have img: "take (cbb_start c d) (cb_buf (base c)) @ e = bimage (set_frame e s)"
  proof (cases "snd s")
    case Nil
    then obtain b where "s = (b, [])" by (cases s) auto
    then show ?thesis using assms(2) by (simp add: cbb_start_def)
  next
    case (Cons f r)
    obtain b k cont where s: "s = (b, (k, cont) # r)" using Cons by (cases s; cases f) auto
    have d: "d = Suc (length r)" using assms(2) by (simp add: s)
    have "cbb_start c d = length (bimage (b, r)) + plen k"
      using repr_child(1) [OF assms(1) [unfolded s]] by (simp add: cbb_start_def d)
    then have "take (cbb_start c d) (cb_buf (base c)) = bimage (b, r) @ replicate (plen k) 0"
      by (subst repr_split(1) [OF assms(1) [unfolded s]]) simp
    then show ?thesis by (simp add: s)
  qed
  have "take (cb_len (base c)) (write_at (cbb_start c d) e (cb_buf (base c))) = take (cbb_start c d) (cb_buf (base c)) @ e"
    using start len take_write_at [of "cbb_start c d" e "cb_buf (base c)"] by simp
  moreover have "chain_of (set_frame e s) = chain_of s"
    by (cases "(e, s)" rule: set_frame.cases) simp_all
  moreover have "length (write_at (cbb_start c d) e (cb_buf (base c))) = length (cb_buf (base c))"
    using start len by simp
  ultimately show ?thesis using assms(1) img by (simp add: repr_def put_bytes_def wf_buffer_def)
qed

section \<open>Reading the children\<close>

lemma read_elements:
  "read_all CBS_get_any_asn1_element c = Some els \<Longrightarrow>
   \<exists>es. length es = length els \<and> list_all valid_element es \<and> c = concat (enc_all es)"
proof (induction c arbitrary: els rule: length_induct)
  case (1 c)
  from "1.prems" show ?case
  proof (cases rule: read_all_SomeE)
    case 1
    then show ?thesis by (intro exI [of _ "[]"]) simp
  next
    case (2 e c' ys)
    then obtain es where es: "length es = length ys" "list_all valid_element es" "c' = concat (enc_all es)"
      using "1.IH" by blast
    from 2(2) [unfolded get_any_element_iff] obtain body
      where "valid_element (body, elt_tag e)" "c = der_element (elt_tag e) body @ c'" by blast
    with es 2(5) show ?thesis by (intro exI [of _ "(body, elt_tag e) # es"]) simp
  qed
qed

lemma children_enc: "list_all valid_element es \<Longrightarrow> set_of_children (length es) (concat (enc_all es)) = Some (enc_all es)"
  by (induction es) (auto simp: get_any_element_der)

lemma sort_single: "length xs < 2 \<Longrightarrow> sort xs = xs"
  by (cases xs; cases "tl xs") auto

lemma flush_set_of:
  assumes "malloc_ok m" "qsort_ok qs" "repr c s" "d \<le> length (snd s)" "CBB_flush_asn1_set_of qs m d c = (True, c')"
  shows "\<exists>s1 es. bflush d s = Some s1 \<and> list_all valid_element es \<and> frame s1 = concat (enc_all es) \<and>
    repr c' (set_frame (concat (sort (enc_all es))) s1)"
proof -
  from assms(5) obtain c1 where f: "CBB_flush m c d = (True, c1)"
    by (auto simp: CBB_flush_asn1_set_of_def split: prod.splits bool.splits)
  with flush_refines [OF assms(1,3,4)] obtain s1 where s1: "bflush d s = Some s1" "repr c1 s1"
    by (auto simp: refines_def)
  have d: "length (snd s1) = d" by (rule bflush_Some(1) [OF s1(1)])
  obtain data where data: "CBB_data c1 d = Some data" "CBB_len c1 d = Some (length (frame s1))"
    "take (length (frame s1)) data = frame s1" using frame_data [OF s1(2) d] by blast
  from assms(5) obtain els where els: "read_all CBS_get_any_asn1_element (frame s1) = Some els"
    by (auto simp: CBB_flush_asn1_set_of_def f data split: option.splits)
  from read_elements [OF els] obtain es where es: "length es = length els" "list_all valid_element es"
    "frame s1 = concat (enc_all es)" by blast
  have "repr c' (set_frame (concat (sort (enc_all es))) s1)"
  proof (cases "length els < 2")
    case True
    then have "c' = c1" using assms(5) by (simp add: CBB_flush_asn1_set_of_def f data els)
    moreover have "sort (enc_all es) = enc_all es" using True es(1) by (intro sort_single) simp
    moreover have "set_frame (frame s1) s1 = s1" by (cases s1 rule: frame.cases) simp_all
    ultimately show ?thesis using s1(2) es(3) by simp
  next
    case False
    from assms(5) False obtain buf x where b: "OPENSSL_memdup m (frame s1) = Some buf"
      "OPENSSL_calloc m (length els) 16 = Some x"
      by (auto simp: CBB_flush_asn1_set_of_def f data els Let_def split: option.splits)
    have "length (frame s1) < 2 ^ 64"
      using frame_data [OF s1(2) d] s1(2) by (auto simp: repr_def wf_buffer_def)
    have ch: "set_of_children (length els) (frame s1) = Some (enc_all es)"
      using children_enc [OF es(2)] es(1,3) by simp
    have "buf = frame s1" using \<open>length (frame s1) < 2 ^ 64\<close> OPENSSL_memdup_eq [OF assms(1) _ b(1)] by simp
    then have "c' = put_bytes (cbb_start c1 d) (concat (qs compare_set_of_element (enc_all es))) c1"
      using assms(5) False ch by (simp add: CBB_flush_asn1_set_of_def f data els b Let_def)
    moreover have "length (concat (sort (enc_all es))) = length (frame s1)"
    proof -
      have "length (concat xs) = sum_mset (image_mset length (mset xs))" for xs :: "bytes list"
        by (simp add: length_concat sum_mset_sum_list [symmetric])
      then show ?thesis by (simp add: es(3))
    qed
    ultimately show ?thesis using put_frame [OF s1(2) d] by (simp add: qsort_sorts [OF assms(2)])
  qed
  with s1(1) es show ?thesis by blast
qed

lemma read_elements_enc:
  "list_all valid_element es \<Longrightarrow> \<exists>els. read_all CBS_get_any_asn1_element (concat (enc_all es)) = Some els \<and> length els = length es"
proof (induction es)
  case (Cons x es)
  obtain body t where x: "x = (body, t)" by force
  let ?r = "concat (enc_all es)"
  from Cons obtain els where els: "read_all CBS_get_any_asn1_element ?r = Some els" "length els = length es" by auto
  obtain e where e: "CBS_get_any_asn1_element (der_element t body @ ?r) = (Some e, ?r)"
    using Cons.prems by (auto simp: x get_any_element_der)
  have "length ?r < length (der_element t body @ ?r)"
    using length_der_len(2) [of "length body"] by (simp add: der_element_def)
  then have "read_all CBS_get_any_asn1_element (der_element t body @ ?r) = Some (e # els)"
    using read_all_step [of CBS_get_any_asn1_element, OF e] els(1) by simp
  with els(2) show ?case by (intro exI [of _ "e # els"]) (simp add: x)
qed simp

lemma flush_set_of_total:
  assumes "malloc_ok m" "malloc_total m" "qsort_ok qs" "repr c s" "length (snd s) = d"
    "list_all valid_element es" "frame s = concat (enc_all es)" "length (frame s) < 2 ^ 59"
  shows "\<exists>c'. CBB_flush_asn1_set_of qs m d c = (True, c')"
proof -
  have "\<not> cb_error (base c)" "length (chain c) = d" using assms(4,5) repr_chain by (auto simp: repr_def)
  then have f: "CBB_flush m c d = (True, c)" by (subst CBB_flush.simps) simp
  obtain data where data: "CBB_data c d = Some data" "CBB_len c d = Some (length (frame s))"
    "take (length (frame s)) data = frame s" using frame_data [OF assms(4,5)] by blast
  from read_elements_enc [OF assms(6)] obtain els where els: "read_all CBS_get_any_asn1_element (frame s) = Some els"
    "length els = length es" by (auto simp: assms(7))
  have "length xs \<le> length (concat (enc_all xs))" for xs
  proof (induction xs)
    case (Cons x xs)
    obtain body t where x: "x = (body, t)" by force
    have "1 \<le> length (der_element t body)"
      using length_der_len(2) [of "length body"] unfolding der_element_def length_append by linarith
    with Cons show ?case by (simp add: x)
  qed simp
  from this [of es] have n: "length els < 2 ^ 59" using assms(7,8) els(2) by simp
  have size: "length els * 16 mod 2 ^ 64 = length els * 16" "\<not> length els > (2 ^ 64 - 1) div 16" using n by simp_all
  show ?thesis
  proof (cases "length els < 2")
    case True
    then show ?thesis by (simp add: CBB_flush_asn1_set_of_def f data els(1) Let_def)
  next
    case False
  then have ne: "frame s \<noteq> []" using els by (auto simp: read_all_Nil)
  obtain buf where buf: "OPENSSL_memdup m (frame s) = Some buf"
    using ne malloc_total_OPENSSL [OF assms(2), of "length (frame s)"] assms(8)
    by (auto simp: OPENSSL_memdup_def)
  obtain x where x: "OPENSSL_calloc m (length els) 16 = Some x"
    using malloc_total_OPENSSL [OF assms(2), of "length els * 16"] n size
    by (auto simp: OPENSSL_calloc_def OPENSSL_zalloc_def)
  have "buf = frame s" using OPENSSL_memdup_eq [OF assms(1) _ buf] assms(8) by simp
  moreover have "set_of_children (length els) (frame s) = Some (enc_all es)"
    using children_enc [OF assms(6)] by (simp add: els(2) assms(7))
  ultimately show ?thesis
    by (simp add: CBB_flush_asn1_set_of_def f data els(1) buf x Let_def)
  qed
qed

section \<open>Property\<close>

text \<open>C25. \<open>CBB_flush_asn1_set_of\<close> turns contents that are DER elements in any order into the canonical
  DER SET OF: the same elements, sorted by their encodings. So two builders that got the same
  elements in different orders end up with the same bytes.\<close>

theorem set_of_canonical:
  assumes "malloc_ok m" "malloc_total m" "qsort_ok qs" "repr c s" "length (snd s) = d"
    "list_all valid_element es" "frame s = concat (enc_all es)" "length (frame s) < 2 ^ 59"
  shows "\<exists>c'. CBB_flush_asn1_set_of qs m d c = (True, c') \<and> repr c' (set_frame (concat (sort (enc_all es))) s)"
proof -
  from flush_set_of_total [OF assms] obtain c' where c': "CBB_flush_asn1_set_of qs m d c = (True, c')" by blast
  have d: "d \<le> length (snd s)" using assms(5) by simp
  from flush_set_of [OF assms(1,3,4) d c'] obtain es' where es': "list_all valid_element es'"
    "frame s = concat (enc_all es')" "repr c' (set_frame (concat (sort (enc_all es'))) s)"
    using assms(5) by auto
  have "read_all CBS_get_any_asn1 (concat (enc_all es')) = read_all CBS_get_any_asn1 (concat (enc_all es))"
    using es'(2) assms(7) by simp
  then have "es' = es" using der.read_all_enc [OF es'(1)] der.read_all_enc [OF assms(6)] by simp
  with c' es'(3) show ?thesis by blast
qed

theorem set_of_canonical_witness:
  "\<exists>c'. CBB_flush_asn1_set_of (\<lambda>cmp xs. heap_sort cmp xs (length xs)) (\<lambda>n. Some (replicate n 0)) 0
     (cbb_init [] 0 True\<lparr>base := \<lparr>cb_buf = [4, 1, 9, 4, 1, 7], cb_len = 6, cb_cap = 6, cb_can_resize = False,
       cb_error = False\<rparr>\<rparr>) = (True, c') \<and> repr c' ([4, 1, 7, 4, 1, 9], [])"
proof -
  let ?c = "cbb_init [] 0 True\<lparr>base := \<lparr>cb_buf = [4, 1, 9, 4, 1, 7], cb_len = 6, cb_cap = 6, cb_can_resize = False,
       cb_error = False\<rparr>\<rparr>"
  have e: "der_element 4 [9] = [4, 1, 9]" "der_element 4 [7] = [4, 1, 7]"
    by (simp_all add: der_element_def der_len_def tag_bytes_def tag_consts)
  have "\<exists>c'. CBB_flush_asn1_set_of (\<lambda>cmp xs. heap_sort cmp xs (length xs)) (\<lambda>n. Some (replicate n 0)) 0 ?c = (True, c') \<and>
    repr c' (set_frame (concat (sort (enc_all [([9], 4), ([7], 4)]))) ([4, 1, 9, 4, 1, 7], []))"
  proof (rule set_of_canonical [OF _ _ heap_sort_qsort])
    show "repr ?c ([4, 1, 9, 4, 1, 7], [])" by (simp add: repr_def wf_buffer_def cbb_init_def)
    show "list_all valid_element [([9], 4), ([7], 4)]" by (simp add: valid_element_def valid_tag_def tag_consts)
  qed (simp_all add: malloc_ok_def malloc_total_def e)
  then show ?thesis by (simp add: e)
qed

end
