(* ===== verification/Unicode.thy ===== *)
theory Unicode
  imports CBB_Write
begin

text \<open>
  \<open>bytestring/unicode.c\<close>: reading and writing code points as UTF-8, Latin-1, UCS-2 and UTF-32. Each
  pair satisfies the contract \<open>codec\<close>; in particular the UTF-8 reader accepts no overlong form, no
  surrogate and no noncharacter.
\<close>

section \<open>The code\<close>

definition is_valid_code_point :: "u32 \<Rightarrow> bool" where
  "is_valid_code_point v =
     (\<not> (v > 0x10ffff \<or> v AND 0xfffe = 0xfffe \<or> (v \<ge> 0xfdd0 \<and> v \<le> 0xfdef) \<or> (v \<ge> 0xd800 \<and> v \<le> 0xdfff)))"

definition BOTTOM_BITS :: "nat \<Rightarrow> u8" where
  "BOTTOM_BITS n = push_bit n 1 - 1"

definition TOP_BITS :: "nat \<Rightarrow> u8" where
  "TOP_BITS n = NOT (BOTTOM_BITS (8 - n))"

text \<open>The loop over the continuation bytes.\<close>

fun get_utf8_loop :: "nat \<Rightarrow> cbs \<Rightarrow> u32 \<Rightarrow> u32 option \<times> cbs" where
  "get_utf8_loop 0 cbs v = (Some v, cbs)"
| "get_utf8_loop (Suc n) cbs v =
     (case CBS_get_u8 cbs of
        (None, cbs) \<Rightarrow> (None, cbs)
      | (Some c, cbs) \<Rightarrow>
          if c AND TOP_BITS 2 \<noteq> TOP_BITS 1 then (None, cbs)
          else get_utf8_loop n cbs (push_bit 6 v OR ucast (c AND BOTTOM_BITS 6)))"

definition CBS_get_utf8 :: "cbs \<Rightarrow> u32 option \<times> cbs" where
  "CBS_get_utf8 cbs =
     (case CBS_get_u8 cbs of
        (None, cbs) \<Rightarrow> (None, cbs)
      | (Some c, cbs) \<Rightarrow>
          if c \<le> 0x7f then (Some (ucast c), cbs)
          else
            (case (if c AND TOP_BITS 3 = TOP_BITS 2 then Some (ucast (c AND BOTTOM_BITS 5), 1, 0x80)
                   else if c AND TOP_BITS 4 = TOP_BITS 3 then Some (ucast (c AND BOTTOM_BITS 4), 2, 0x800)
                   else if c AND TOP_BITS 5 = TOP_BITS 4 then Some (ucast (c AND BOTTOM_BITS 3), 3, 0x10000)
                   else None) of
               None \<Rightarrow> (None, cbs)
             | Some (v, len, lower_bound) \<Rightarrow>
                 (case get_utf8_loop len cbs v of
                    (None, cbs) \<Rightarrow> (None, cbs)
                  | (Some v, cbs) \<Rightarrow>
                      if \<not> is_valid_code_point v \<or> v < lower_bound then (None, cbs) else (Some v, cbs))))"

definition CBS_get_latin1 :: "cbs \<Rightarrow> u32 option \<times> cbs" where
  "CBS_get_latin1 cbs =
     (case CBS_get_u8 cbs of (None, cbs) \<Rightarrow> (None, cbs) | (Some c, cbs) \<Rightarrow> (Some (ucast c), cbs))"

definition CBS_get_ucs2_be :: "cbs \<Rightarrow> u32 option \<times> cbs" where
  "CBS_get_ucs2_be cbs =
     (case CBS_get_u16 cbs of
        (None, cbs) \<Rightarrow> (None, cbs)
      | (Some c, cbs) \<Rightarrow> if \<not> is_valid_code_point (ucast c) then (None, cbs) else (Some (ucast c), cbs))"

definition CBS_get_utf32_be :: "cbs \<Rightarrow> u32 option \<times> cbs" where
  "CBS_get_utf32_be cbs =
     (case CBS_get_u32 cbs of
        (None, cbs) \<Rightarrow> (None, cbs)
      | (Some out, cbs) \<Rightarrow> if is_valid_code_point out then (Some out, cbs) else (None, cbs))"

definition CBB_get_utf8_len :: "u32 \<Rightarrow> nat" where
  "CBB_get_utf8_len u = (if u \<le> 0x7f then 1 else if u \<le> 0x7ff then 2 else if u \<le> 0xffff then 3 else 4)"

definition CBB_add_utf8 :: "malloc \<Rightarrow> u32 \<Rightarrow> nat \<Rightarrow> cbb_op" where
  "CBB_add_utf8 m u d cbb =
     (if \<not> is_valid_code_point u then (False, cbb)
      else if u \<le> 0x7f then CBB_add_u8 m (ucast u) d cbb
      else if u \<le> 0x7ff then
        and_then (CBB_add_u8 m (TOP_BITS 2 OR ucast (drop_bit 6 u)) d)
          (CBB_add_u8 m (TOP_BITS 1 OR (ucast u AND BOTTOM_BITS 6)) d) cbb
      else if u \<le> 0xffff then
        and_then (CBB_add_u8 m (TOP_BITS 3 OR ucast (drop_bit 12 u)) d)
          (and_then (CBB_add_u8 m (TOP_BITS 1 OR (ucast (drop_bit 6 u) AND BOTTOM_BITS 6)) d)
            (CBB_add_u8 m (TOP_BITS 1 OR (ucast u AND BOTTOM_BITS 6)) d)) cbb
      else if u \<le> 0x10ffff then
        and_then (CBB_add_u8 m (TOP_BITS 4 OR ucast (drop_bit 18 u)) d)
          (and_then (CBB_add_u8 m (TOP_BITS 1 OR (ucast (drop_bit 12 u) AND BOTTOM_BITS 6)) d)
            (and_then (CBB_add_u8 m (TOP_BITS 1 OR (ucast (drop_bit 6 u) AND BOTTOM_BITS 6)) d)
              (CBB_add_u8 m (TOP_BITS 1 OR (ucast u AND BOTTOM_BITS 6)) d))) cbb
      else (False, cbb))"

definition CBB_add_latin1 :: "malloc \<Rightarrow> u32 \<Rightarrow> nat \<Rightarrow> cbb_op" where
  "CBB_add_latin1 m u d cbb = (if u \<le> 0xff then CBB_add_u8 m (ucast u) d cbb else (False, cbb))"

definition CBB_add_ucs2_be :: "malloc \<Rightarrow> u32 \<Rightarrow> nat \<Rightarrow> cbb_op" where
  "CBB_add_ucs2_be m u d cbb =
     (if u \<le> 0xffff \<and> is_valid_code_point u then CBB_add_u16 m (ucast u) d cbb else (False, cbb))"

definition CBB_add_utf32_be :: "malloc \<Rightarrow> u32 \<Rightarrow> nat \<Rightarrow> cbb_op" where
  "CBB_add_utf32_be m u d cbb = (if is_valid_code_point u then CBB_add_u32 m u d cbb else (False, cbb))"

section \<open>Bits\<close>

lemma bits_consts:
  "TOP_BITS 1 = 0x80" "TOP_BITS (Suc 0) = 0x80" "TOP_BITS 2 = 0xc0" "TOP_BITS 3 = 0xe0" "TOP_BITS 4 = 0xf0" "TOP_BITS 5 = 0xf8"
  "BOTTOM_BITS 6 = 0x3f" "BOTTOM_BITS 5 = 0x1f" "BOTTOM_BITS 4 = 0xf" "BOTTOM_BITS 3 = 0x7"
  by (simp_all add: TOP_BITS_def BOTTOM_BITS_def)

lemma top_bits_eq:
  fixes c :: u8
  shows "c AND 0xc0 = 0x80 \<longleftrightarrow> unat c div 64 = 2" "c AND 0xe0 = 0xc0 \<longleftrightarrow> unat c div 32 = 6"
    "c AND 0xf0 = 0xe0 \<longleftrightarrow> unat c div 16 = 14" "c AND 0xf8 = 0xf0 \<longleftrightarrow> unat c div 8 = 30"
  by (simp_all add: word_unat_eq_iff unat_and_not_mask [where n = 6] unat_and_not_mask [where n = 5]
      unat_and_not_mask [where n = 4] unat_and_not_mask [where n = 3] mask_eq_exp_minus_1)

lemma low_bits:
  fixes c :: u8
  shows "unat (c AND 0x3f) = unat c mod 64" "unat (c AND 0x1f) = unat c mod 32"
    "unat (c AND 0xf) = unat c mod 16" "unat (c AND 0x7) = unat c mod 8"
  by (simp_all add: unat_and_mask [where n = 6] unat_and_mask [where n = 5]
      unat_and_mask [where n = 4] unat_and_mask [where n = 3] mask_eq_exp_minus_1)

text \<open>The code points in the words of the standard: scalar values that are not noncharacters.\<close>

definition code_point :: "nat \<Rightarrow> bool" where
  "code_point n \<longleftrightarrow> n \<le> 0x10ffff \<and> n mod 0x10000 \<noteq> 0xfffe \<and> n mod 0x10000 \<noteq> 0xffff \<and>
     \<not> (0xfdd0 \<le> n \<and> n \<le> 0xfdef) \<and> \<not> (0xd800 \<le> n \<and> n \<le> 0xdfff)"

lemma noncharacter_mask: "(v :: u32) AND 0xfffe = 0xfffe \<longleftrightarrow> unat v mod 0x10000 \<ge> 0xfffe"
proof -
  have m: "(0xfffe :: u32) = mask 16 AND NOT (mask 1)" by (simp add: mask_eq_exp_minus_1)
  have "unat (v AND 0xfffe) = unat v mod 2 ^ 16 div 2 ^ 1 * 2 ^ 1"
    unfolding m by (simp only: and.assoc [symmetric] unat_and_not_mask [OF refl] unat_and_mask [OF refl])
  then have "v AND 0xfffe = 0xfffe \<longleftrightarrow> unat v mod 0x10000 div 2 * 2 = 0xfffe"
    by (simp add: word_unat_eq_iff)
  moreover have "n div 2 * 2 = 0xfffe \<longleftrightarrow> n \<ge> 0xfffe" if "n < 0x10000" for n :: nat
    using that by presburger
  ultimately show ?thesis by simp
qed

lemma is_valid_code_point_iff: "is_valid_code_point v \<longleftrightarrow> code_point (unat v)"
proof -
  have b: "unat v mod 0x10000 < 0x10000" by simp
  have "unat v mod 0x10000 \<ge> 0xfffe \<longleftrightarrow> unat v mod 0x10000 = 0xfffe \<or> unat v mod 0x10000 = 0xffff"
    using b by linarith
  then show ?thesis
    by (auto simp: is_valid_code_point_def code_point_def noncharacter_mask word_le_nat_alt word_less_nat_alt)
qed

section \<open>The encoding\<close>

fun cont_bytes :: "nat \<Rightarrow> nat \<Rightarrow> bytes" where
  "cont_bytes 0 w = []"
| "cont_bytes (Suc n) w = of_nat (128 + w div 64 ^ n mod 64) # cont_bytes n w"

definition utf8_bytes :: "nat \<Rightarrow> bytes" where
  "utf8_bytes u =
     (if u \<le> 0x7f then [of_nat u]
      else if u \<le> 0x7ff then of_nat (0xc0 + u div 64) # cont_bytes 1 u
      else if u \<le> 0xffff then of_nat (0xe0 + u div 64 ^ 2) # cont_bytes 2 u
      else of_nat (0xf0 + u div 64 ^ 3) # cont_bytes 3 u)"

lemma byte_of_nat_iff: "n < 256 \<Longrightarrow> b = (of_nat n :: u8) \<longleftrightarrow> unat b = n"
  by (auto simp: word_unat_eq_iff)

lemma quotient_split: "0 < k \<Longrightarrow> b div k = q \<and> b mod k = x \<longleftrightarrow> x < k \<and> b = q * k + (x :: nat)"
  by auto

lemma quotient_range: "0 < k \<Longrightarrow> b div k = q \<longleftrightarrow> q * k \<le> b \<and> b < Suc q * (k :: nat)"
  by (metis div_less_iff_less_mult less_Suc_eq_le less_eq_div_iff_mult_less_eq nle_le)

lemma get_utf8_loop_iff:
  "(unat v + 1) * 64 ^ n \<le> 2 ^ 32 \<Longrightarrow>
   get_utf8_loop n c v = (Some w, c') \<longleftrightarrow> c = cont_bytes n (unat w) @ c' \<and> unat w div 64 ^ n = unat v"
proof (induction n arbitrary: c v)
  case 0
  then show ?case by (auto simp: word_unat_eq_iff)
next
  case (Suc n)
  show ?case
  proof (cases c)
    case (Cons b r)
    let ?v = "push_bit 6 v OR ucast (b AND 0x3f) :: u32"
    have "(unat v + 1) * 64 * 1 \<le> (unat v + 1) * 64 * 64 ^ n" by (rule mult_le_mono2) simp
    also have "\<dots> \<le> 2 ^ 32" using Suc.prems by (simp only: power_Suc mult.assoc)
    finally have "unat v * 2 ^ 6 < 2 ^ LENGTH(32)" by simp
    then have v: "unat ?v = unat v * 64 + unat b mod 64"
      by (subst unat_shift_or) (simp_all add: unat_ucast low_bits)
    have "unat b mod 64 \<le> 63" by simp
    then have "unat ?v + 1 \<le> (unat v + 1) * 64" using v by simp
    then have "(unat ?v + 1) * 64 ^ n \<le> (unat v + 1) * 64 * 64 ^ n" by (rule mult_le_mono1)
    also have "\<dots> \<le> 2 ^ 32" using Suc.prems by (simp only: power_Suc mult.assoc)
    finally have le: "(unat ?v + 1) * 64 ^ n \<le> 2 ^ 32" .
    have d: "unat w div 64 ^ Suc n = unat w div 64 ^ n div 64" by (simp add: div_mult2_eq [symmetric] mult.commute)
    have "get_utf8_loop (Suc n) c v = (Some w, c') \<longleftrightarrow>
        unat b div 64 = 2 \<and> r = cont_bytes n (unat w) @ c' \<and> unat w div 64 ^ n = unat v * 64 + unat b mod 64"
      using Suc.IH [OF le, of r] v by (simp add: Cons bits_consts top_bits_eq)
    also have "\<dots> \<longleftrightarrow> unat b = 128 + unat w div 64 ^ n mod 64 \<and> r = cont_bytes n (unat w) @ c' \<and>
        unat w div 64 ^ n div 64 = unat v"
    proof -
      define x where "x = unat w div 64 ^ n"
      have "unat b div 64 = 2 \<and> x = unat v * 64 + unat b mod 64 \<longleftrightarrow> unat b = 128 + x mod 64 \<and> x div 64 = unat v"
        using quotient_split [of 64 "unat b" 2 "x mod 64"] quotient_split [of 64 x "unat v" "unat b mod 64"] by auto
      then show ?thesis unfolding x_def by blast
    qed
    also have "\<dots> \<longleftrightarrow> c = cont_bytes (Suc n) (unat w) @ c' \<and> unat w div 64 ^ Suc n = unat v"
    proof -
      have "128 + unat w div 64 ^ n mod 64 < 256" using mod_less_divisor [of 64 "unat w div 64 ^ n"] by linarith
      then show ?thesis unfolding d by (auto simp: Cons byte_of_nat_iff simp del: of_nat_add)
    qed
    finally show ?thesis .
  qed simp
qed


lemma code_point_low: "n \<le> 0x7f \<Longrightarrow> code_point n"
  by (simp add: code_point_def)

text \<open>The four ranges, each with the first byte it starts with.\<close>

lemma first_byte:
  fixes b u :: nat
  assumes "0 < k" "0 < K"
  shows "b div k = q \<and> u div K = b mod k \<longleftrightarrow> u < k * K \<and> b = q * k + u div K"
  using assms quotient_split [of k b q "u div K"] by (auto simp: div_less_iff_less_mult)

lemma get_utf8_branch:
  assumes "n \<in> {1, 2, 3}" "unat v < 2 ^ (6 - n)"
  shows "(case get_utf8_loop n r v of
            (None, cbs) \<Rightarrow> (None, cbs)
          | (Some v, cbs) \<Rightarrow> if \<not> is_valid_code_point v \<or> v < lo then (None, cbs) else (Some v, cbs)) = (Some u, c') \<longleftrightarrow>
    r = cont_bytes n (unat u) @ c' \<and> unat u div 64 ^ n = unat v \<and> code_point (unat u) \<and> unat lo \<le> unat u"
    (is "?l \<longleftrightarrow> ?r")
proof -
  have "(unat v + 1) * 64 ^ n \<le> 2 ^ 32" using assms by auto
  note loop = get_utf8_loop_iff [OF this]
  have "?l \<longleftrightarrow> get_utf8_loop n r v = (Some u, c') \<and> is_valid_code_point u \<and> \<not> u < lo"
    by (auto split: prod.splits option.splits if_splits)
  then show ?thesis by (auto simp: loop is_valid_code_point_iff word_less_nat_alt)
qed

lemma get_utf8_Cons:
  "CBS_get_utf8 (b # r) = (Some u, c') \<longleftrightarrow>
     unat b < 128 \<and> unat u = unat b \<and> r = c' \<or>
     code_point (unat u) \<and>
      ((unat b div 32 = 6 \<and> unat u div 64 = unat b mod 32) \<and> 0x80 \<le> unat u \<and> r = cont_bytes 1 (unat u) @ c' \<or>
       (unat b div 16 = 14 \<and> unat u div 64 ^ 2 = unat b mod 16) \<and> 0x800 \<le> unat u \<and> r = cont_bytes 2 (unat u) @ c' \<or>
       (unat b div 8 = 30 \<and> unat u div 64 ^ 3 = unat b mod 8) \<and> 0x10000 \<le> unat u \<and> r = cont_bytes 3 (unat u) @ c')"
proof -
  have x: "\<not> (unat b < 128 \<and> unat b div 32 = 6)" "\<not> (unat b < 128 \<and> unat b div 16 = 14)"
    "\<not> (unat b < 128 \<and> unat b div 8 = 30)" "\<not> (unat b div 32 = 6 \<and> unat b div 16 = 14)"
    "\<not> (unat b div 32 = 6 \<and> unat b div 8 = 30)" "\<not> (unat b div 16 = 14 \<and> unat b div 8 = 30)"
    by (simp_all add: quotient_range)
  have v1: "unat (ucast (b AND 0x1f) :: u32) < 2 ^ (6 - 1)" by (simp add: unat_ucast low_bits)
  have v2: "unat (ucast (b AND 0xf) :: u32) < 2 ^ (6 - 2)" by (simp add: unat_ucast low_bits)
  have v3: "unat (ucast (b AND 0x7) :: u32) < 2 ^ (6 - 3)" by (simp add: unat_ucast low_bits)
  have m: "unat (ucast (b AND 0x1f) :: u32) = unat b mod 32" "unat (ucast (b AND 0xf) :: u32) = unat b mod 16"
    "unat (ucast (b AND 0x7) :: u32) = unat b mod 8" by (simp_all add: unat_ucast low_bits)
  note branch = get_utf8_branch [OF _ v1, unfolded m] get_utf8_branch [OF _ v2, unfolded m]
    get_utf8_branch [OF _ v3, unfolded m]
  have low: "b \<le> 0x7f \<longleftrightarrow> unat b < 128" by (auto simp: word_le_nat_alt)
  have eq: "ucast b = u \<longleftrightarrow> unat u = unat b" by (auto simp: word_unat_eq_iff)
  consider "unat b < 128" | "unat b div 32 = 6" | "unat b div 16 = 14" | "unat b div 8 = 30"
      | "\<not> unat b < 128" "unat b div 32 \<noteq> 6" "unat b div 16 \<noteq> 14" "unat b div 8 \<noteq> 30" by blast
  then show ?thesis
  proof cases
    case 1
    with x(1-3) show ?thesis by (simp add: CBS_get_utf8_def low eq)
  next
    case 2
    with x have "\<not> unat b < 128" "unat b div 16 \<noteq> 14" "unat b div 8 \<noteq> 30" by blast+
    with 2 branch(1) [where r = r and lo = "0x80" and u = u and c' = c'] show ?thesis
      by (simp add: CBS_get_utf8_def bits_consts top_bits_eq low) blast
  next
    case 3
    with x have "\<not> unat b < 128" "unat b div 32 \<noteq> 6" "unat b div 8 \<noteq> 30" by blast+
    with 3 branch(2) [where r = r and lo = "0x800" and u = u and c' = c'] show ?thesis
      by (simp add: CBS_get_utf8_def bits_consts top_bits_eq low) blast
  next
    case 4
    with x have "\<not> unat b < 128" "unat b div 32 \<noteq> 6" "unat b div 16 \<noteq> 14" by blast+
    with 4 branch(3) [where r = r and lo = "0x10000" and u = u and c' = c'] show ?thesis
      by (simp add: CBS_get_utf8_def bits_consts top_bits_eq low) blast
  next
    case 5
    then show ?thesis by (simp add: CBS_get_utf8_def bits_consts top_bits_eq low)
  qed
qed

lemma get_utf8_iff: "CBS_get_utf8 c = (Some u, c') \<longleftrightarrow> is_valid_code_point u \<and> c = utf8_bytes (unat u) @ c'"
proof (cases c)
  case (Cons b r)
  define n where "n = unat u"
  have f: "unat b div 32 = 6 \<and> n div 64 = unat b mod 32 \<longleftrightarrow> n < 0x800 \<and> unat b = 0xc0 + n div 64"
    "unat b div 16 = 14 \<and> n div 64 ^ 2 = unat b mod 16 \<longleftrightarrow> n < 0x10000 \<and> unat b = 0xe0 + n div 64 ^ 2"
    "unat b div 8 = 30 \<and> n div 64 ^ 3 = unat b mod 8 \<longleftrightarrow> n < 0x200000 \<and> unat b = 0xf0 + n div 64 ^ 3"
    using first_byte [of 32 64 "unat b" 6 n] first_byte [of 16 "64 ^ 2" "unat b" 14 n]
      first_byte [of 8 "64 ^ 3" "unat b" 30 n] by simp_all
  have d: "n < 0x800 \<Longrightarrow> n div 64 < 32" "n < 0x10000 \<Longrightarrow> n div 64 ^ 2 < 16" "n < 0x200000 \<Longrightarrow> n div 64 ^ 3 < 8"
    by (simp_all add: div_less_iff_less_mult)
  have byte: "b = of_nat k \<longleftrightarrow> unat b = k" if "k < 256" for k
    using that by (rule byte_of_nat_iff)
  have "b # r = utf8_bytes n @ c' \<longleftrightarrow>
      (unat b < 128 \<and> n = unat b \<and> r = c' \<or>
       (n < 0x800 \<and> unat b = 0xc0 + n div 64) \<and> 0x80 \<le> n \<and> r = cont_bytes 1 n @ c' \<or>
       (n < 0x10000 \<and> unat b = 0xe0 + n div 64 ^ 2) \<and> 0x800 \<le> n \<and> r = cont_bytes 2 n @ c' \<or>
       (n < 0x200000 \<and> unat b = 0xf0 + n div 64 ^ 3) \<and> 0x10000 \<le> n \<and> r = cont_bytes 3 n @ c')"
    if "n < 0x200000"
  proof -
    from that consider "n < 0x80" | "0x80 \<le> n" "n < 0x800" | "0x800 \<le> n" "n < 0x10000" | "0x10000 \<le> n" by linarith
    then show ?thesis
    proof cases
      case 1
      then have "utf8_bytes n = [of_nat n]" by (simp only: utf8_bytes_def) simp
      with 1 byte [of n] show ?thesis by auto
    next
      case 2
      then have "utf8_bytes n = of_nat (0xc0 + n div 64) # cont_bytes 1 n" by (simp only: utf8_bytes_def) simp
      with 2 byte [of "0xc0 + n div 64"] d(1) show ?thesis by (auto simp del: of_nat_add)
    next
      case 3
      then have "utf8_bytes n = of_nat (0xe0 + n div 64 ^ 2) # cont_bytes 2 n" by (simp only: utf8_bytes_def) simp
      with 3 byte [of "0xe0 + n div 64 ^ 2"] d(2) show ?thesis by (auto simp del: of_nat_add)
    next
      case 4
      then have "utf8_bytes n = of_nat (0xf0 + n div 64 ^ 3) # cont_bytes 3 n" by (simp only: utf8_bytes_def) simp
      with 4 that byte [of "0xf0 + n div 64 ^ 3"] d(3) show ?thesis by (auto simp del: of_nat_add)
    qed
  qed
  moreover have "code_point n \<Longrightarrow> n < 0x200000" "unat b < 128 \<and> n = unat b \<Longrightarrow> code_point n"
    using code_point_low [of n] by (simp_all add: code_point_def)
  ultimately show ?thesis unfolding Cons get_utf8_Cons is_valid_code_point_iff n_def [symmetric] f by blast
qed (simp add: CBS_get_utf8_def utf8_bytes_def)

section \<open>Writing\<close>

lemma and_then_True: "and_then f (\<lambda>c. (True, c)) = f"
  by (rule ext) (auto simp: and_then_def split: prod.splits)

lemma add_all_single: "add_all op [v] = op v"
  by (rule ext) (auto simp: and_then_def split: prod.splits)

lemma add_all_Nil: "add_all op [] = (\<lambda>c. (True, c))"
  by (rule ext) simp

lemma add_all_two: "add_all op (v # vs) = and_then (op v) (add_all op vs)"
  by (rule ext) simp

lemma unat_top_or:
  "unat (y :: u8) < 2 ^ n \<Longrightarrow> unat (push_bit n x OR y) = unat (push_bit n x :: u8) + unat y"
  by (simp add: unat_or_disjoint push_and_small)

lemma head_byte:
  assumes "k < 2 ^ n" "unat (y :: u8) = k" "t = push_bit n x"
  shows "t OR y = of_nat (unat t + k)"
  using assms unat_top_or [of y n x] by (metis word_eq_of_nat)

lemma cont_byte: "unat (v :: u8) mod 64 = k \<Longrightarrow> TOP_BITS 1 OR (v AND BOTTOM_BITS 6) = of_nat (128 + k)"
  using head_byte [of k 6 "v AND 0x3f" "0x80" 2] by (auto simp: bits_consts low_bits)

lemma unat_low_byte: "unat (ucast (drop_bit n (u :: u32)) :: u8) mod 64 = unat u div 2 ^ n mod 64"
  by (simp add: unat_ucast unat_drop_bit mod_mod_cancel)

lemma add_utf8_eq:
  assumes "is_valid_code_point u"
  shows "CBB_add_utf8 m u d c = add_all (\<lambda>v. CBB_add_u8 m v d) (utf8_bytes (unat u)) c"
proof -
  define n where "n = unat u"
  have c: "TOP_BITS 1 OR (ucast (drop_bit 12 u) AND BOTTOM_BITS 6) = of_nat (128 + n div 64 ^ 2 mod 64)"
    "TOP_BITS 1 OR (ucast (drop_bit 6 u) AND BOTTOM_BITS 6) = of_nat (128 + n div 64 ^ 1 mod 64)"
    "TOP_BITS 1 OR (ucast u AND BOTTOM_BITS 6) = of_nat (128 + n div 64 ^ 0 mod 64)"
    using cont_byte [OF unat_low_byte [of 12 u]] cont_byte [OF unat_low_byte [of 6 u]]
      cont_byte [OF unat_low_byte [of 0 u]] by (simp_all add: n_def)
  have h: "TOP_BITS 2 OR ucast (drop_bit 6 u) = of_nat (0xc0 + n div 64)" if "n < 0x800"
  proof -
    have "n div 64 < 2 ^ 5" using that by (simp add: div_less_iff_less_mult)
    moreover from this have "unat (ucast (drop_bit 6 u) :: u8) = n div 64" by (simp add: n_def unat_ucast unat_drop_bit)
    ultimately show ?thesis using head_byte [of "n div 64" 5 "ucast (drop_bit 6 u)" "0xc0" 6] by (simp add: bits_consts)
  qed
  have h2: "TOP_BITS 3 OR ucast (drop_bit 12 u) = of_nat (0xe0 + n div 64 ^ 2)" if "n < 0x10000"
  proof -
    have "n div 64 ^ 2 < 2 ^ 4" using that by (simp add: div_less_iff_less_mult)
    moreover from this have "unat (ucast (drop_bit 12 u) :: u8) = n div 64 ^ 2" by (simp add: n_def unat_ucast unat_drop_bit)
    ultimately show ?thesis using head_byte [of "n div 64 ^ 2" 4 "ucast (drop_bit 12 u)" "0xe0" 14] by (simp add: bits_consts)
  qed
  have h3: "TOP_BITS 4 OR ucast (drop_bit 18 u) = of_nat (0xf0 + n div 64 ^ 3)" if "n < 0x200000"
  proof -
    have "n div 64 ^ 3 < 2 ^ 3" using that by (simp add: div_less_iff_less_mult)
    moreover from this have "unat (ucast (drop_bit 18 u) :: u8) = n div 64 ^ 3" by (simp add: n_def unat_ucast unat_drop_bit)
    ultimately show ?thesis using head_byte [of "n div 64 ^ 3" 3 "ucast (drop_bit 18 u)" "0xf0" 30] by (simp add: bits_consts)
  qed
  have n: "n \<le> 0x10ffff" using assms by (simp add: is_valid_code_point_iff code_point_def n_def)
  have o: "u \<le> 0x7f \<longleftrightarrow> n \<le> 0x7f" "u \<le> 0x7ff \<longleftrightarrow> n \<le> 0x7ff" "u \<le> 0xffff \<longleftrightarrow> n \<le> 0xffff" "u \<le> 0x10ffff"
    using n by (simp_all add: word_le_nat_alt n_def)
  have b: "ucast u = (of_nat n :: u8)" by (simp add: word_unat_eq_iff unat_ucast n_def unat_of_nat)
  have k: "cont_bytes 1 n = [of_nat (128 + n div 64 ^ 0 mod 64)]"
    "cont_bytes 2 n = [of_nat (128 + n div 64 ^ 1 mod 64), of_nat (128 + n div 64 ^ 0 mod 64)]"
    "cont_bytes 3 n = [of_nat (128 + n div 64 ^ 2 mod 64), of_nat (128 + n div 64 ^ 1 mod 64),
        of_nat (128 + n div 64 ^ 0 mod 64)]"
    by (simp_all only: numeral_2_eq_2 numeral_3_eq_3 One_nat_def cont_bytes.simps)
  consider "n \<le> 0x7f" | "\<not> n \<le> 0x7f" "n \<le> 0x7ff" | "\<not> n \<le> 0x7ff" "n \<le> 0xffff" | "\<not> n \<le> 0xffff"
    by linarith
  then show ?thesis
  proof cases
    case 1
    then show ?thesis using assms
      by (simp only: CBB_add_utf8_def utf8_bytes_def o b n_def [symmetric] add_all_single if_True simp_thms if_False)
  next
    case 2
    have u: "utf8_bytes n = [of_nat (0xc0 + n div 64), of_nat (128 + n div 64 ^ 0 mod 64)]"
      using 2 by (simp only: utf8_bytes_def k if_False if_True)
    have "CBB_add_utf8 m u d c = and_then (CBB_add_u8 m (TOP_BITS 2 OR ucast (drop_bit 6 u)) d)
          (CBB_add_u8 m (TOP_BITS 1 OR (ucast u AND BOTTOM_BITS 6)) d) c"
      using assms 2 by (simp only: CBB_add_utf8_def o if_False if_True simp_thms)
    moreover have "n < 0x800" using 2 by simp
    ultimately show ?thesis
      by (simp only: h c u n_def [symmetric] add_all_two add_all_Nil and_then_True)
  next
    case 3
    have u: "utf8_bytes n = of_nat (0xe0 + n div 64 ^ 2) # cont_bytes 2 n"
      using 3 by (simp only: utf8_bytes_def) simp
    have "CBB_add_utf8 m u d c = and_then (CBB_add_u8 m (TOP_BITS 3 OR ucast (drop_bit 12 u)) d)
          (and_then (CBB_add_u8 m (TOP_BITS 1 OR (ucast (drop_bit 6 u) AND BOTTOM_BITS 6)) d)
            (CBB_add_u8 m (TOP_BITS 1 OR (ucast u AND BOTTOM_BITS 6)) d)) c"
      using assms 3 by (simp only: CBB_add_utf8_def o if_False if_True simp_thms) simp
    moreover have "n < 0x10000" using 3 by simp
    ultimately show ?thesis
      by (simp only: h2 c u k n_def [symmetric] add_all_two add_all_Nil and_then_True)
  next
    case 4
    have u: "utf8_bytes n = of_nat (0xf0 + n div 64 ^ 3) # cont_bytes 3 n"
      using 4 by (simp only: utf8_bytes_def) simp
    have "CBB_add_utf8 m u d c = and_then (CBB_add_u8 m (TOP_BITS 4 OR ucast (drop_bit 18 u)) d)
          (and_then (CBB_add_u8 m (TOP_BITS 1 OR (ucast (drop_bit 12 u) AND BOTTOM_BITS 6)) d)
            (and_then (CBB_add_u8 m (TOP_BITS 1 OR (ucast (drop_bit 6 u) AND BOTTOM_BITS 6)) d)
              (CBB_add_u8 m (TOP_BITS 1 OR (ucast u AND BOTTOM_BITS 6)) d))) c"
      using assms 4 by (simp only: CBB_add_utf8_def o if_False if_True simp_thms) simp
    moreover have "n < 0x200000" using n by simp
    ultimately show ?thesis
      by (simp only: h3 c u k n_def [symmetric] add_all_two add_all_Nil and_then_True)
  qed
qed

lemma utf8_bytes_nonempty [simp]: "utf8_bytes n \<noteq> []"
  by (simp add: utf8_bytes_def)

lemma concat_single: "concat (map (\<lambda>v. [v]) xs) = xs"
  by (induction xs) simp_all

interpretation add_utf8: cbb_writer CBB_add_utf8 "\<lambda>u. utf8_bytes (unat u)" is_valid_code_point
proof
  fix m c s d and u :: u32
  assume "malloc_ok m" "is_valid_code_point u" "repr c s" "d \<le> length (snd s)"
  then show "refines m c (CBB_add_utf8 m u d c) (map_option (put (utf8_bytes (unat u))) (bflush d s))"
    using add_u8.add_all_flush [of m "utf8_bytes (unat u)" c s d]
    by (simp add: add_utf8_eq concat_single list_all_iff)
qed

interpretation utf8_code: canonical_code "\<lambda>u. utf8_bytes (unat u)" CBS_get_utf8 is_valid_code_point
  by unfold_locales (auto simp: get_utf8_iff)

interpretation utf8_codec: codec CBB_add_utf8 "\<lambda>u. utf8_bytes (unat u)" CBS_get_utf8 is_valid_code_point ..

lemma length_cont_bytes [simp]: "length (cont_bytes n w) = n"
  by (induction n) simp_all

lemma utf8_len: "is_valid_code_point u \<Longrightarrow> length (utf8_bytes (unat u)) = CBB_get_utf8_len u"
  by (simp add: utf8_bytes_def CBB_get_utf8_len_def word_le_nat_alt)

section \<open>The fixed-width forms\<close>

lemma get_latin1_iff: "CBS_get_latin1 c = (Some u, c') \<longleftrightarrow> unat u < 256 \<and> c = [of_nat (unat u)] @ c'"
proof (cases c)
  case (Cons b r)
  have "ucast b = u \<longleftrightarrow> unat b = unat u" by (auto simp: word_unat_eq_iff)
  moreover have "unat b = unat u \<longleftrightarrow> unat u < 256 \<and> b = of_nat (unat u)"
    using byte_of_nat_iff [of "unat u" b] unat_less_256 [of b] by metis
  ultimately show ?thesis by (auto simp: Cons CBS_get_latin1_def)
qed (simp add: CBS_get_latin1_def)

interpretation add_latin1: cbb_writer CBB_add_latin1 "\<lambda>u. [of_nat (unat u)]" "\<lambda>u. unat u < 256"
proof
  fix m c s d and u :: u32
  assume a: "malloc_ok m" "unat u < 256" "repr c s" "d \<le> length (snd s)"
  then have "u \<le> 0xff" by (simp add: word_le_nat_alt)
  moreover have "ucast u = (of_nat (unat u) :: u8)" by simp
  ultimately show "refines m c (CBB_add_latin1 m u d c) (map_option (put [of_nat (unat u)]) (bflush d s))"
    using add_u8.op_refines [OF a(1) TrueI a(3,4)] by (simp add: CBB_add_latin1_def)
qed

interpretation latin1_codec: codec CBB_add_latin1 "\<lambda>u. [of_nat (unat u)]" CBS_get_latin1 "\<lambda>u. unat u < 256"
  by unfold_locales (auto simp: get_latin1_iff)

lemma get_ucs2_iff:
  "CBS_get_ucs2_be c = (Some u, c') \<longleftrightarrow> (unat u < 65536 \<and> is_valid_code_point u) \<and> c = be_bytes 2 (unat u) @ c'"
proof -
  have "CBS_get_ucs2_be c = (Some u, c') \<longleftrightarrow> (\<exists>v. CBS_get_u16 c = (Some v, c') \<and> ucast v = u \<and> is_valid_code_point u)"
    by (auto simp: CBS_get_ucs2_be_def split: prod.splits option.splits if_splits)
  also have "\<dots> \<longleftrightarrow> (\<exists>v :: u16. ucast v = u \<and> is_valid_code_point u \<and> c = be_bytes 2 (unat v) @ c')"
    by (auto simp: u16_code.dec_iff)
  also have "\<dots> \<longleftrightarrow> (unat u < 65536 \<and> is_valid_code_point u) \<and> c = be_bytes 2 (unat u) @ c'"
  proof
    assume "(unat u < 65536 \<and> is_valid_code_point u) \<and> c = be_bytes 2 (unat u) @ c'"
    moreover from this have "unat (ucast u :: u16) = unat u" "ucast (ucast u :: u16) = u"
      by (simp_all add: unat_ucast word_unat_eq_iff)
    ultimately show "\<exists>v :: u16. ucast v = u \<and> is_valid_code_point u \<and> c = be_bytes 2 (unat v) @ c'" by metis
  qed auto
  finally show ?thesis .
qed

interpretation add_ucs2: cbb_writer CBB_add_ucs2_be "\<lambda>u. be_bytes 2 (unat u)"
  "\<lambda>u. unat u < 65536 \<and> is_valid_code_point u"
proof
  fix m c s d and u :: u32
  assume a: "malloc_ok m" "unat u < 65536 \<and> is_valid_code_point u" "repr c s" "d \<le> length (snd s)"
  then have "u \<le> 0xffff" "unat (ucast u :: u16) = unat u" by (simp_all add: word_le_nat_alt unat_ucast)
  then show "refines m c (CBB_add_ucs2_be m u d c) (map_option (put (be_bytes 2 (unat u))) (bflush d s))"
    using add_u16.op_refines [OF a(1) TrueI a(3,4), of "ucast u"] a(2) by (simp add: CBB_add_ucs2_be_def)
qed

interpretation ucs2_codec: codec CBB_add_ucs2_be "\<lambda>u. be_bytes 2 (unat u)" CBS_get_ucs2_be
  "\<lambda>u. unat u < 65536 \<and> is_valid_code_point u"
  by unfold_locales (auto simp: get_ucs2_iff)

lemma get_utf32_iff: "CBS_get_utf32_be c = (Some u, c') \<longleftrightarrow> is_valid_code_point u \<and> c = be_bytes 4 (unat u) @ c'"
proof -
  have "CBS_get_utf32_be c = (Some u, c') \<longleftrightarrow> CBS_get_u32 c = (Some u, c') \<and> is_valid_code_point u"
    by (auto simp: CBS_get_utf32_be_def split: prod.splits option.splits if_splits)
  then show ?thesis by (auto simp: u32_code.dec_iff)
qed

interpretation add_utf32: cbb_writer CBB_add_utf32_be "\<lambda>u. be_bytes 4 (unat u)" is_valid_code_point
proof
  fix m c s d and u :: u32
  assume a: "malloc_ok m" "is_valid_code_point u" "repr c s" "d \<le> length (snd s)"
  then show "refines m c (CBB_add_utf32_be m u d c) (map_option (put (be_bytes 4 (unat u))) (bflush d s))"
    using add_u32.op_refines [OF a(1) TrueI a(3,4), of u] by (simp add: CBB_add_utf32_be_def)
qed

interpretation utf32_codec: codec CBB_add_utf32_be "\<lambda>u. be_bytes 4 (unat u)" CBS_get_utf32_be is_valid_code_point
  by unfold_locales (auto simp: get_utf32_iff)

section \<open>Properties\<close>

text \<open>C27. \<open>CBS_get_utf8\<close> accepts exactly the shortest UTF-8 form of each scalar value that is not a
  noncharacter: no overlong form, no surrogate, nothing above 10FFFF, no truncated sequence.\<close>

theorem utf8_reader:
  "CBS_get_utf8 c = (Some u, c') \<longleftrightarrow> code_point (unat u) \<and> c = utf8_bytes (unat u) @ c'"
  by (simp add: get_utf8_iff is_valid_code_point_iff)

text \<open>Text written by \<open>CBB_add_utf8\<close> and text read by \<open>CBS_get_utf8\<close> correspond one to one: for
  valid code points the builder's output is exactly the string that the reader reads them from.\<close>

theorem utf8_roundtrip:
  assumes "malloc_ok m" "malloc_total m" "cap \<le> 2 ^ 62" "length out \<le> 2 ^ 62" "list_all is_valid_code_point us"
  shows "build_list CBB_add_utf8 m cap us = Some out \<longleftrightarrow> read_all CBS_get_utf8 out = Some us"
  using assms utf8_codec.build_read [of m cap us out] utf8_codec.read_build [of m cap out us] by auto

theorem utf8_roundtrip_witness:
  "build_list CBB_add_utf8 (\<lambda>n. Some (replicate n 0)) 1 [0x41, 0x20ac] = Some [0x41, 0xe2, 0x82, 0xac]"
proof -
  have v: "list_all is_valid_code_point [0x41, 0x20ac]" by (simp add: is_valid_code_point_iff code_point_def)
  have "cont_bytes 2 0x20ac = [0x82, 0xac]" by (simp add: numeral_2_eq_2)
  then have "concat (map (\<lambda>u. utf8_bytes (unat u)) [0x41, 0x20ac :: u32]) = [0x41, 0xe2, 0x82, 0xac]"
    by (simp add: utf8_bytes_def)
  then have "read_all CBS_get_utf8 [0x41, 0xe2, 0x82, 0xac] = Some [0x41, 0x20ac]"
    using utf8_code.read_all_enc [OF v] by simp
  then show ?thesis using v by (subst utf8_roundtrip) (simp_all add: malloc_ok_def malloc_total_def)
qed

end
