(* ===== verification/Stack_Props.thy ===== *)
theory Stack_Props
  imports Stack_Sort
begin

text \<open>
  The stack as a list: the invariant of the representation, what every operation does to the list,
  the meaning of the \<open>sorted\<close> flag and the search.
\<close>

section \<open>Invariant and abstraction\<close>

definition st_list :: "('a, 'c) stack \<Rightarrow> 'a option list" where
  "st_list s = take (st_num s) (st_data s)"

definition st_wf :: "('a, 'c) stack \<Rightarrow> bool" where
  "st_wf s \<longleftrightarrow> length (st_data s) = st_num_alloc s \<and> st_num s < st_num_alloc s \<and>
     st_num s \<le> INT_MAX \<and> st_num_alloc s \<le> 2 * INT_MAX \<and> kMinSize \<le> st_num_alloc s"

text \<open>What the model assumes of the allocator: a block has the size asked for.\<close>

definition ptr_malloc_ok :: "'a ptr_malloc \<Rightarrow> bool" where
  "ptr_malloc_ok m \<longleftrightarrow> (\<forall>n b. m n = Some b \<longrightarrow> length b = n div sizeof_ptr)"

lemma length_st_list [simp]: "st_wf s \<Longrightarrow> length (st_list s) = st_num s"
  by (simp add: st_list_def st_wf_def)

lemma nth_st_list: "st_wf s \<Longrightarrow> i < st_num s \<Longrightarrow> st_list s ! i = st_data s ! i"
  by (simp add: st_list_def)


lemma sk_grow_wf:
  assumes "ptr_malloc_ok m" "st_wf s" "st_num s < INT_MAX" "sk_grow m s = Some s'"
  shows "length (st_data s') = st_num_alloc s'" "st_num s + 1 < st_num_alloc s'" "st_num s' = st_num s"
    "st_num_alloc s' \<le> 2 * INT_MAX" "kMinSize \<le> st_num_alloc s'" "st_list s' = st_list s" "st_comp s' = st_comp s"
    "take (st_num s) (st_data s') = take (st_num s) (st_data s)"
proof -
  have n1: "size_add (st_num s) 1 = st_num s + 1" using assms(3) by (intro size_add_small) (simp add: INT_MAX_def)
  have all: "length (st_data s') = st_num_alloc s' \<and> st_num s + 1 < st_num_alloc s' \<and> st_num s' = st_num s \<and>
    st_num_alloc s' \<le> 2 * INT_MAX \<and> kMinSize \<le> st_num_alloc s' \<and> st_comp s' = st_comp s \<and>
    take (st_num s) (st_data s') = take (st_num s) (st_data s)"
  proof (cases "st_num_alloc s \<le> st_num s + 1")
    case False
    then have "s' = s" using assms(4) n1 by (simp add: sk_grow_def)
    with False assms(2) show ?thesis by (simp add: st_wf_def)
  next
    case True
    define a where "a = st_num_alloc s"
    have a: "a = st_num s + 1" "a \<le> INT_MAX" "4 \<le> a" "length (st_data s) = a"
      using True assms(2,3) by (simp_all add: st_wf_def a_def kMinSize_def)
    then have m: "a * 2 mod 2 ^ 64 = a * 2" "a * 2 * 8 mod 2 ^ 64 = a * 2 * 8"
      by (simp_all add: INT_MAX_def)
    have "sk_grow m s = map_option (\<lambda>data. s\<lparr>st_data := data, st_num_alloc := a * 2\<rparr>) (sk_realloc m (st_data s) (a * 2 * 8))"
      unfolding sk_grow_def n1 sizeof_ptr_def a_def [symmetric] using True m
      by (simp add: a_def [symmetric] map_option_case)
    with assms(4) obtain b where b: "m (a * 2 * 8) = Some b"
      "s' = s\<lparr>st_data := take (length b) (st_data s) @ drop (length (st_data s)) b, st_num_alloc := a * 2\<rparr>"
      by (auto simp: sk_realloc_def)
    have lb: "length b = a * 2" using assms(1) b(1) by (auto simp: ptr_malloc_ok_def sizeof_ptr_def)
    show ?thesis using a by (simp add: b(2) lb kMinSize_def)
  qed
  then show "length (st_data s') = st_num_alloc s'" "st_num s + 1 < st_num_alloc s'" "st_num s' = st_num s"
    "st_num_alloc s' \<le> 2 * INT_MAX" "kMinSize \<le> st_num_alloc s'" "st_comp s' = st_comp s"
    "take (st_num s) (st_data s') = take (st_num s) (st_data s)" by blast+
  then show "st_list s' = st_list s" by (simp add: st_list_def)
qed

lemma insert_spec:
  assumes "ptr_malloc_ok m" "st_wf s" "OPENSSL_sk_insert m (Some s) p at = (k, s1)"
  shows "k = 0 \<and> s1 = Some s \<or>
    (\<exists>s'. s1 = Some s' \<and> st_wf s' \<and> k = st_num s' \<and> \<not> st_sorted s' \<and> st_comp s' = st_comp s \<and>
      st_list s' = take at (st_list s) @ p # drop at (st_list s))"
proof (cases "st_num s \<ge> INT_MAX \<or> sk_grow m s = None")
  case True
  then show ?thesis using assms(3) by (auto simp: OPENSSL_sk_insert_def split: if_splits)
next
  case False
  then obtain s2 where lt: "st_num s < INT_MAX" and g: "sk_grow m s = Some s2" by auto
  note w = sk_grow_wf [OF assms(1,2) lt g]
  define n d where "n = st_num s" and "d = st_data s2"
  define d' where "d' = (if at \<ge> n then d[n := p]
      else (take (at + 1) d @ take (n - at) (drop at d) @ drop (n + 1) d)[at := p])"
  have r: "k = n + 1" "s1 = Some (s2\<lparr>st_data := d', st_num := n + 1, st_sorted := False\<rparr>)"
    using assms(3) lt g w(3) by (auto simp: OPENSSL_sk_insert_def Let_def n_def d_def d'_def)
  have len: "n + 1 < length d" using w(1,2) by (simp add: n_def d_def)
  then have ld: "length d' = length d" by (auto simp: d'_def)
  have tl: "take (n + 1) d' = take at (take n d) @ p # drop at (take n d)"
  proof (cases "at \<ge> n")
    case True
    then have "take (n + 1) d' = take n d @ [p]" using len by (simp add: d'_def take_Suc_conv_app_nth)
    with True show ?thesis by simp
  next
    case False
    have "d' = take at d @ p # take (n - at) (drop at d) @ drop (n + 1) d"
      using False len by (simp add: d'_def take_Suc_conv_app_nth list_update_append)
    moreover have "take at (take n d) = take at d" "drop at (take n d) = take (n - at) (drop at d)"
      using False by (simp_all add: min_def take_drop [symmetric] drop_take)
    moreover have "Suc n - at = Suc (n - at)" using False by (simp add: Suc_diff_le)
    ultimately show ?thesis using False len by simp
  qed
  have sl: "st_list s = take n d" using w(8) by (simp add: st_list_def n_def d_def)
  have "st_wf (s2\<lparr>st_data := d', st_num := n + 1, st_sorted := False\<rparr>)"
    using w lt len ld by (simp add: st_wf_def n_def d_def)
  with r tl sl w(7) show ?thesis by (simp add: st_list_def)
qed






section \<open>The sorted flag\<close>

definition flag_ok :: "('a, 'c) cmp_caller \<Rightarrow> ('a, 'c) stack \<Rightarrow> bool" where
  "flag_ok call s \<longleftrightarrow>
     (st_sorted s \<longrightarrow> (\<exists>c. st_comp s = Some c \<and> sorted_wrt (\<lambda>a b. call c a b \<le> 0) (st_list s)))"

definition call_ok :: "('a, 'c) cmp_caller \<Rightarrow> bool" where
  "call_ok call \<longleftrightarrow> (\<forall>c. total_cmp (call c))"

lemma call_okD: "call_ok call \<Longrightarrow> total_cmp (call c)"
  by (simp add: call_ok_def)

lemma sort_spec:
  assumes "call_ok call" "st_wf s" "flag_ok call s"
  shows "\<exists>s'. OPENSSL_sk_sort call (Some s) = Some s' \<and> st_wf s' \<and> flag_ok call s' \<and> mset (st_list s') = mset (st_list s) \<and>
    st_comp s' = st_comp s \<and>
    (\<forall>c. st_comp s = Some c \<longrightarrow> st_sorted s' \<and> sorted_wrt (\<lambda>a b. call c a b \<le> 0) (st_list s'))"
proof (cases "st_comp s")
  case None
  then show ?thesis using assms by (simp add: OPENSSL_sk_sort_def)
next
  case (Some c)
  show ?thesis
  proof (cases "st_sorted s")
    case True
    then show ?thesis using assms Some by (simp add: OPENSSL_sk_sort_def flag_ok_def)
  next
    case False
    let ?d = "heap_sort (call c) (st_data s) (st_num s)"
    have n: "st_num s \<le> length (st_data s)" using assms(2) by (simp add: st_wf_def)
    note h = total_cmp.heap_sort_correct [OF call_okD [OF assms(1)] n, of c]
    have len: "length ?d = length (st_data s)" using h(2) by (simp add: permutes_prefix_def)
    show ?thesis using False Some assms(2) h len
      by (simp add: OPENSSL_sk_sort_def st_wf_def flag_ok_def st_list_def permutes_prefix_def)
  qed
qed

text \<open>The operations that change a stack.\<close>

inductive sk_step :: "'a ptr_malloc \<Rightarrow> ('a, 'c) cmp_caller \<Rightarrow> ('a, 'c) stack \<Rightarrow> ('a, 'c) stack \<Rightarrow> bool"
  for m :: "'a ptr_malloc" and call :: "('a, 'c) cmp_caller" where
  insert: "snd (OPENSSL_sk_insert m (Some s) p at) = Some s' \<Longrightarrow> sk_step m call s s'"
| push: "snd (OPENSSL_sk_push m (Some s) p) = Some s' \<Longrightarrow> sk_step m call s s'"
| delete: "snd (OPENSSL_sk_delete (Some s) i) = Some s' \<Longrightarrow> sk_step m call s s'"
| delete_ptr: "snd (OPENSSL_sk_delete_ptr (Some s) p) = Some s' \<Longrightarrow> sk_step m call s s'"
| delete_if: "OPENSSL_sk_delete_if f (Some s) = Some s' \<Longrightarrow> sk_step m call s s'"
| shift: "snd (OPENSSL_sk_shift (Some s)) = Some s' \<Longrightarrow> sk_step m call s s'"
| pop: "snd (OPENSSL_sk_pop (Some s)) = Some s' \<Longrightarrow> sk_step m call s s'"
| zero: "OPENSSL_sk_zero (Some s) = Some s' \<Longrightarrow> sk_step m call s s'"
| sort: "OPENSSL_sk_sort call (Some s) = Some s' \<Longrightarrow> sk_step m call s s'"
| set_cmp: "snd (OPENSSL_sk_set_cmp_func s c) = s' \<Longrightarrow> sk_step m call s s'"
| set: "snd (OPENSSL_sk_set (Some s) i p) = Some s' \<Longrightarrow> sk_step m call s s'"

text \<open>
  \<open>OPENSSL_sk_set\<close> does not touch the \<open>sorted\<close> flag: the flag stays right when the new element fits between
  its neighbours, and \<open>misplaces\<close> is a call on a stack marked as sorted with an element that does not.
\<close>

definition fits :: "('p \<Rightarrow> 'p \<Rightarrow> int) \<Rightarrow> 'p list \<Rightarrow> nat \<Rightarrow> 'p \<Rightarrow> bool" where
  "fits cmp xs i p \<longleftrightarrow> (0 < i \<longrightarrow> cmp (xs ! (i - 1)) p \<le> 0) \<and> (i + 1 < length xs \<longrightarrow> cmp p (xs ! (i + 1)) \<le> 0)"


context total_cmp
begin

lemma sorted_update:
  assumes "sorted_wrt (\<lambda>a b. cmp a b \<le> 0) xs" "i < length xs"
  shows "sorted_wrt (\<lambda>a b. cmp a b \<le> 0) (xs[i := p]) \<longleftrightarrow> fits cmp xs i p" (is "?L \<longleftrightarrow> ?R")
proof
  assume ?L
  then have o: "j < k \<Longrightarrow> k < length xs \<Longrightarrow> cmp (xs[i := p] ! j) (xs[i := p] ! k) \<le> 0" for j k
    by (simp add: sorted_wrt_iff_nth_less)
  show ?R using o [of "i - 1" i] o [of i "i + 1"] assms(2) by (auto simp: fits_def)
next
  assume fits: ?R
  have o: "cmp (xs ! j) (xs ! k) \<le> 0" if "j \<le> k" "k < length xs" for j k
    using assms(1) that cmp_refl by (cases "j = k") (auto simp: sorted_wrt_iff_nth_less)
  have l: "cmp (xs ! j) p \<le> 0" if "j < i" for j
    using cmp_trans [OF o [of j "i - 1"], of p] fits that assms(2) by (simp add: fits_def)
  have r: "cmp p (xs ! k) \<le> 0" if "i < k" "k < length xs" for k
    using cmp_trans [OF _ o [of "i + 1" k], of p] fits that by (simp add: fits_def)
  have "cmp (xs[i := p] ! j) (xs[i := p] ! k) \<le> 0" if "j < k" "k < length xs" for j k
    using o [of j k] l [of j] r [of k] that assms(2) by (cases "j = i"; cases "k = i") simp_all
  then show ?L by (simp add: sorted_wrt_iff_nth_less)
qed

end








lemma heap_sort_length [simp]: "length (heap_sort cmp d n) = length d"
proof -
  have "length (build_heap cmp d i n) = length d" for i d by (induction i arbitrary: d) simp_all
  moreover have "length (extract_max cmp d i) = length d" for i d by (induction i arbitrary: d) simp_all
  ultimately show ?thesis by (simp add: heap_sort_def)
qed



inductive_simps sk_step_simps: "sk_step m call s s'"

section \<open>Searching\<close>

lemma find_spec:
  assumes "call_ok call" "st_wf s" "flag_ok call s"
  shows "OPENSSL_sk_find call (Some s) p =
    (case st_comp s of
       None \<Rightarrow> first_index (\<lambda>q. q = p) (st_list s) 0 (st_num s)
     | Some c \<Rightarrow> if p = None then None else first_index (\<lambda>q. call c p q = 0) (st_list s) 0 (st_num s))"
proof -
  have fi: "first_index P (st_data s) 0 (st_num s) = first_index P (st_list s) 0 (st_num s)" for P
    by (rule option_eqI) (use assms(2) in \<open>auto simp: first_index_Some nth_st_list\<close>)
  have bs: "binary_search (call c p) (st_data s) 0 (st_num s) = first_index (\<lambda>q. call c p q = 0) (st_list s) 0 (st_num s)"
    if "st_comp s = Some c" "OPENSSL_sk_is_sorted (Some s)" for c
  proof -
    have "length (st_list s) = st_num s" using assms(2) by simp
    then have "sorted_wrt (\<lambda>a b. call c a b \<le> 0) (take (st_num s) (st_data s))"
      using that assms(3) unfolding st_list_def [symmetric]
      by (cases "st_list s"; cases "tl (st_list s)") (auto simp: OPENSSL_sk_is_sorted_def flag_ok_def)
    then show ?thesis
      using total_cmp.binary_search_first [OF call_okD [OF assms(1)], of c "st_num s" "st_data s" p] assms(2) fi
      by (simp add: st_wf_def)
  qed
  show ?thesis using fi bs by (auto simp: OPENSSL_sk_find_def split: option.splits)
qed



section \<open>Copying\<close>

lemma dup_spec:
  assumes "ptr_malloc_ok m" "st_wf s" "OPENSSL_sk_dup m (Some s) = Some s'"
  shows "st_wf s' \<and> st_list s' = st_list s \<and> st_num s' = st_num s \<and> st_sorted s' = st_sorted s \<and> st_comp s' = st_comp s"
proof -
  from assms(3) obtain b where b: "m (sizeof_ptr * st_num_alloc s) = Some b"
    "s' = s\<lparr>st_data := take (length b) (st_data s) @ drop (length (st_data s)) b\<rparr>"
    by (auto simp: OPENSSL_sk_dup_def sk_realloc_def split: option.splits)
  have "length b = st_num_alloc s" using assms(1) b(1) by (auto simp: ptr_malloc_ok_def sizeof_ptr_def)
  then show ?thesis using assms(2) by (simp add: b(2) st_wf_def st_list_def)
qed

definition copies :: "('a option \<Rightarrow> 'a option) \<Rightarrow> 'a option \<Rightarrow> 'a option" where
  "copies copy p = (if p = None then None else copy p)"

definition copy_ok :: "('a option \<Rightarrow> 'a option) \<Rightarrow> 'a option \<Rightarrow> bool" where
  "copy_ok copy p \<longleftrightarrow> p = None \<or> copy p \<noteq> None"

lemma deep_copy_loop_spec:
  assumes "i \<le> n" "n \<le> length d"
  shows "deep_copy_loop copy i n d =
    (let xs = drop i (take n d) in
     if list_all (copy_ok copy) xs then Inr (take i d @ map (copies copy) xs @ drop n d)
     else Inl (filter (\<lambda>p. p \<noteq> None) (take i d @ map (copies copy) (takeWhile (copy_ok copy) xs))))"
  using assms
proof (induction copy i n d rule: deep_copy_loop.induct)
  case (1 copy i n d)
  show ?case
  proof (cases "i < n")
    case False
    then show ?thesis using 1 by (subst deep_copy_loop.simps) simp
  next
    case True
    have dr: "drop i (take n d) = d ! i # drop (i + 1) (take n d)"
      using True 1 Cons_nth_drop_Suc [of i "take n d"] by simp
    show ?thesis
    proof (cases "copy_ok copy (d ! i)")
      case False
      then obtain y where "d ! i = Some y" "copy (Some y) = None" by (auto simp: copy_ok_def)
      then show ?thesis using True by (subst deep_copy_loop.simps) (simp add: dr copy_ok_def Let_def)
    next
      case ok: True
      let ?d = "d[i := copies copy (d ! i)]"
      have l: "deep_copy_loop copy i n d = deep_copy_loop copy (i + 1) n ?d"
        using True ok list_update_id [of d i]
        by (subst deep_copy_loop.simps) (auto simp: copy_ok_def copies_def simp del: list_update_id)
      have e: "drop (i + 1) (take n ?d) = drop (i + 1) (take n d)" "drop n ?d = drop n d"
        "take (i + 1) ?d = take i d @ [copies copy (d ! i)]"
        using "1.prems" True by (simp_all add: take_Suc_conv_app_nth list_update_append take_update_swap)
      have "deep_copy_loop copy (i + 1) n ?d =
        (let xs = drop (i + 1) (take n ?d) in
         if list_all (copy_ok copy) xs then Inr (take (i + 1) ?d @ map (copies copy) xs @ drop n ?d)
         else Inl (filter (\<lambda>p. p \<noteq> None) (take (i + 1) ?d @ map (copies copy) (takeWhile (copy_ok copy) xs))))"
      proof (cases "d ! i = None")
        case None: True
        then have dd: "?d = d" using list_update_id [of d i] by (simp add: copies_def)
        show ?thesis unfolding dd using "1.IH"(1) [OF True None] "1.prems" True by simp
      next
        case False
        then have c: "copy (d ! i) \<noteq> None" and dd: "?d = d[i := copy (d ! i)]"
          using ok by (auto simp: copies_def copy_ok_def)
        show ?thesis unfolding dd using c "1.IH"(2) [OF True False] "1.prems" True by simp
      qed
      then show ?thesis using ok unfolding l e dr by (simp add: Let_def)
    qed
  qed
qed

lemma deep_copy_spec:
  assumes "ptr_malloc_ok m" "st_wf s" "OPENSSL_sk_dup m (Some s) = Some t"
  shows "OPENSSL_sk_deep_copy m (Some s) copy =
    (if list_all (copy_ok copy) (st_list s)
     then (Some (t\<lparr>st_data := map (copies copy) (st_list s) @ drop (st_num s) (st_data t)\<rparr>), [])
     else (None, filter (\<lambda>p. p \<noteq> None) (map (copies copy) (takeWhile (copy_ok copy) (st_list s)))))"
proof -
  note d = dup_spec [OF assms]
  have "st_num t \<le> length (st_data t)" using d by (simp add: st_wf_def)
  then show ?thesis using d deep_copy_loop_spec [of 0 "st_num t" "st_data t" copy]
    by (auto simp: OPENSSL_sk_deep_copy_def assms(3) Let_def st_list_def)
qed

section \<open>Concrete instances\<close>

definition ptr_alloc :: "'a ptr_malloc" where
  "ptr_alloc n = Some (replicate (n div sizeof_ptr) None)"

lemma ptr_alloc_ok: "ptr_malloc_ok ptr_alloc"
  by (simp add: ptr_malloc_ok_def ptr_alloc_def)

definition int_call :: "(int, unit) cmp_caller" where
  "int_call u a b = (case (a, b) of (Some x, Some y) \<Rightarrow> x - y | (None, None) \<Rightarrow> 0 | (None, Some _) \<Rightarrow> - 1 | (Some _, None) \<Rightarrow> 1)"

definition sorted_example :: "(int, unit) stack" where
  "sorted_example = \<lparr>st_num = 2, st_data = [Some 1, Some 2, None, None], st_sorted = True, st_num_alloc = 4, st_comp = Some ()\<rparr>"

lemma int_call_ok: "call_ok int_call"
  unfolding call_ok_def
proof
  fix u
  show "total_cmp (int_call u)"
    by standard (auto simp: int_call_def split: option.splits)
qed

definition empty_example :: "(int, unit) stack" where
  "empty_example = \<lparr>st_num = 0, st_data = [None, None, None, None], st_sorted = False, st_num_alloc = 4, st_comp = Some ()\<rparr>"

definition one_example :: "(int, unit) stack" where
  "one_example = \<lparr>st_num = 1, st_data = [Some 5, None, None, None], st_sorted = False, st_num_alloc = 4, st_comp = Some ()\<rparr>"



lemma example_insert: "OPENSSL_sk_insert ptr_alloc (Some empty_example) (Some 5) 0 = (1, Some one_example)"
  by (simp add: OPENSSL_sk_insert_def sk_grow_def empty_example_def one_example_def INT_MAX_def size_add_def Let_def)








lemma example_wf: "st_wf empty_example" "flag_ok int_call empty_example" "st_wf sorted_example" "st_wf one_example"
  by (simp_all add: st_wf_def flag_ok_def empty_example_def sorted_example_def one_example_def INT_MAX_def kMinSize_def)

section \<open>Properties\<close>



text \<open>C17. \<open>OPENSSL_sk_sort\<close> turns a well-formed stack with a comparison function into a sorted
  permutation of it.\<close>

theorem sk_sort_sorts:
  assumes "call_ok call" "st_wf s" "flag_ok call s" "st_comp s = Some c"
  shows "\<exists>s'. OPENSSL_sk_sort call (Some s) = Some s' \<and> st_wf s' \<and> mset (st_list s') = mset (st_list s) \<and>
    sorted_wrt (\<lambda>a b. call c a b \<le> 0) (st_list s') \<and> OPENSSL_sk_is_sorted (Some s')"
  using sort_spec [OF assms(1-3)] assms(4) by (auto simp: OPENSSL_sk_is_sorted_def)

theorem sk_sort_sorts_witness:
  "\<exists>s'. OPENSSL_sk_sort int_call (Some (one_example\<lparr>st_num := 2\<rparr>)) = Some s' \<and>
     sorted_wrt (\<lambda>a b. int_call () a b \<le> 0) (st_list s') \<and> mset (st_list s') = {#None, Some 5#}"
proof -
  have w: "st_wf (one_example\<lparr>st_num := 2\<rparr>)" "flag_ok int_call (one_example\<lparr>st_num := 2\<rparr>)"
    "st_comp (one_example\<lparr>st_num := 2\<rparr>) = Some ()"
    by (simp_all add: st_wf_def flag_ok_def one_example_def INT_MAX_def kMinSize_def)
  have "mset (st_list (one_example\<lparr>st_num := 2\<rparr>)) = {#None, Some 5#}"
    by (simp add: st_list_def one_example_def numeral_2_eq_2)
  with sk_sort_sorts [OF int_call_ok w] show ?thesis by auto
qed

text \<open>On every stack with a truthful flag \<open>OPENSSL_sk_find\<close> returns the first element that
  the comparison function takes for equal (or the first equal pointer when there is none),
  whether it searches linearly or by bisection.\<close>

theorem sk_find_first:
  assumes "call_ok call" "st_wf s" "flag_ok call s" "p \<noteq> None"
  shows "OPENSSL_sk_find call (Some s) p = Some i \<longleftrightarrow>
    i < st_num s \<and> (\<forall>j \<le> i. (case st_comp s of None \<Rightarrow> st_list s ! j = p | Some c \<Rightarrow> call c p (st_list s ! j) = 0) \<longleftrightarrow> j = i)"
  unfolding find_spec [OF assms(1-3)]
  using assms(4) by (cases "st_comp s") (auto simp: first_index_Some le_less)

theorem sk_find_first_witness: "OPENSSL_sk_find int_call (Some one_example) (Some 5) = Some 0"
  using sk_find_first [OF int_call_ok example_wf(4), of "Some 5" 0]
  by (simp add: one_example_def st_list_def int_call_def flag_ok_def)

text \<open>Inserting either fails and leaves the stack alone, or puts the pointer at the index (at the
  end when the index is too large) and shifts the rest.\<close>

theorem sk_insert_list:
  assumes "ptr_malloc_ok m" "st_wf s" "OPENSSL_sk_insert m (Some s) p at = (k, s1)"
  shows "k = 0 \<and> s1 = Some s \<or>
    (\<exists>s'. s1 = Some s' \<and> st_wf s' \<and> k = st_num s' \<and> \<not> st_sorted s' \<and> st_comp s' = st_comp s \<and>
      st_list s' = take at (st_list s) @ p # drop at (st_list s))"
  using assms by (rule insert_spec)

theorem sk_insert_list_witness: "st_list one_example = [Some 5]"
  using sk_insert_list [OF ptr_alloc_ok example_wf(1) example_insert] by (simp add: empty_example_def st_list_def)



text \<open>C34. A deep copy either succeeds and holds the copies (NULL entries stay NULL), or a copy has
  failed; then it returns NULL and frees exactly the copies that had been made before, each once.\<close>

theorem sk_deep_copy_all_or_nothing:
  assumes "ptr_malloc_ok m" "st_wf s" "OPENSSL_sk_dup m (Some s) = Some t"
  shows "OPENSSL_sk_deep_copy m (Some s) copy =
    (if list_all (copy_ok copy) (st_list s)
     then (Some (t\<lparr>st_data := map (copies copy) (st_list s) @ drop (st_num s) (st_data t)\<rparr>), [])
     else (None, filter (\<lambda>p. p \<noteq> None) (map (copies copy) (takeWhile (copy_ok copy) (st_list s)))))"
  using assms by (rule deep_copy_spec)

theorem sk_deep_copy_all_or_nothing_witness:
  "OPENSSL_sk_deep_copy ptr_alloc (Some sorted_example) (\<lambda>p. if p = Some 2 then None else Some 7) = (None, [Some 7])"
proof -
  have "OPENSSL_sk_dup ptr_alloc (Some sorted_example) = Some sorted_example"
    by (simp add: OPENSSL_sk_dup_def ptr_alloc_def sk_realloc_def sorted_example_def sizeof_ptr_def)
  from sk_deep_copy_all_or_nothing [OF ptr_alloc_ok example_wf(3) this] show ?thesis
    by (simp add: sorted_example_def st_list_def copy_ok_def copies_def numeral_2_eq_2)
qed

end
