(* ===== verification/Constant_Time.thy ===== *)
theory Constant_Time
  imports Prelude
begin

text \<open>
  The branch-free selection functions of \<open>internal.h\<close>. \<open>crypto_word_t\<close> has 64 bits;
  \<open>value_barrier_w\<close> is the identity. A mask is all ones or zero, and every function that computes one
  is shown to compute the mask of the comparison it is named after.
\<close>

section \<open>The code\<close>

definition constant_time_msb_w :: "u64 \<Rightarrow> u64" where
  "constant_time_msb_w a = 0 - drop_bit 63 a"

definition constant_time_lt_w :: "u64 \<Rightarrow> u64 \<Rightarrow> u64" where
  "constant_time_lt_w a b = constant_time_msb_w (a XOR ((a XOR b) OR ((a - b) XOR a)))"

definition constant_time_lt_8 :: "u64 \<Rightarrow> u64 \<Rightarrow> u8" where
  "constant_time_lt_8 a b = ucast (constant_time_lt_w a b)"

definition constant_time_ge_w :: "u64 \<Rightarrow> u64 \<Rightarrow> u64" where
  "constant_time_ge_w a b = NOT (constant_time_lt_w a b)"

definition constant_time_ge_8 :: "u64 \<Rightarrow> u64 \<Rightarrow> u8" where
  "constant_time_ge_8 a b = ucast (constant_time_ge_w a b)"

definition constant_time_is_zero_w :: "u64 \<Rightarrow> u64" where
  "constant_time_is_zero_w a = constant_time_msb_w (NOT a AND (a - 1))"

definition constant_time_is_zero_8 :: "u64 \<Rightarrow> u8" where
  "constant_time_is_zero_8 a = ucast (constant_time_is_zero_w a)"

definition constant_time_eq_w :: "u64 \<Rightarrow> u64 \<Rightarrow> u64" where
  "constant_time_eq_w a b = constant_time_is_zero_w (a XOR b)"

definition constant_time_eq_8 :: "u64 \<Rightarrow> u64 \<Rightarrow> u8" where
  "constant_time_eq_8 a b = ucast (constant_time_eq_w a b)"

text \<open>\<open>int\<close> arguments are sign-extended by the cast to \<open>crypto_word_t\<close>.\<close>

definition constant_time_eq_int :: "32 word \<Rightarrow> 32 word \<Rightarrow> u64" where
  "constant_time_eq_int a b = constant_time_eq_w (scast a) (scast b)"

definition constant_time_eq_int_8 :: "32 word \<Rightarrow> 32 word \<Rightarrow> u8" where
  "constant_time_eq_int_8 a b = constant_time_eq_8 (scast a) (scast b)"

definition constant_time_select_w :: "u64 \<Rightarrow> u64 \<Rightarrow> u64 \<Rightarrow> u64" where
  "constant_time_select_w m a b = (m AND a) OR (NOT m AND b)"

definition constant_time_select_8 :: "u64 \<Rightarrow> u8 \<Rightarrow> u8 \<Rightarrow> u8" where
  "constant_time_select_8 mw a b = (let m = ucast mw in (m AND a) OR (NOT m AND b))"

definition constant_time_select_int :: "u64 \<Rightarrow> 32 word \<Rightarrow> 32 word \<Rightarrow> 32 word" where
  "constant_time_select_int m a b = ucast (constant_time_select_w m (scast a) (scast b))"

text \<open>The two memory functions on areas of \<open>n\<close> bytes: what \<open>dst\<close> holds afterwards.\<close>

definition constant_time_conditional_memcpy :: "bytes \<Rightarrow> bytes \<Rightarrow> nat \<Rightarrow> u64 \<Rightarrow> bytes" where
  "constant_time_conditional_memcpy dst src n m =
     map2 (constant_time_select_8 m) (take n src) (take n dst) @ drop n dst"

definition constant_time_conditional_memxor :: "bytes \<Rightarrow> bytes \<Rightarrow> nat \<Rightarrow> u64 \<Rightarrow> bytes" where
  "constant_time_conditional_memxor dst src n m =
     map2 (\<lambda>o' i. o' XOR (ucast m AND i)) (take n dst) (take n src) @ drop n dst"

text \<open>
  The variant that GCC compiles: whole vectors of 32 bytes first, after which \<open>out\<close> is advanced and
  \<open>in\<close> is not.
\<close>

definition constant_time_conditional_memxor_gcc :: "bytes \<Rightarrow> bytes \<Rightarrow> nat \<Rightarrow> u64 \<Rightarrow> bytes" where
  "constant_time_conditional_memxor_gcc dst src n m =
     (let n_vec = n - n mod 32; x = (\<lambda>o' i. o' XOR (ucast m AND i))
      in map2 x (take n_vec dst) (take n_vec src) @
         map2 x (take (n - n_vec) (drop n_vec dst)) (take (n - n_vec) src) @ drop n dst)"

text \<open>The rotations; a shift count is in range and \<open>(-shift) & 31\<close> is computed in \<open>int\<close>.\<close>

definition CRYPTO_rotl_u32 :: "u32 \<Rightarrow> nat \<Rightarrow> u32" where
  "CRYPTO_rotl_u32 v shift = push_bit shift v OR drop_bit (nat ((- int shift) AND 31)) v"

definition CRYPTO_rotr_u32 :: "u32 \<Rightarrow> nat \<Rightarrow> u32" where
  "CRYPTO_rotr_u32 v shift = drop_bit shift v OR push_bit (nat ((- int shift) AND 31)) v"

definition CRYPTO_rotl_u64 :: "u64 \<Rightarrow> nat \<Rightarrow> u64" where
  "CRYPTO_rotl_u64 v shift = push_bit shift v OR drop_bit (nat ((- int shift) AND 63)) v"

definition CRYPTO_rotr_u64 :: "u64 \<Rightarrow> nat \<Rightarrow> u64" where
  "CRYPTO_rotr_u64 v shift = drop_bit shift v OR push_bit (nat ((- int shift) AND 63)) v"

section \<open>Masks\<close>

definition mask_w :: "bool \<Rightarrow> u64" where
  "mask_w b = (if b then - 1 else 0)"

definition mask_8 :: "bool \<Rightarrow> u8" where
  "mask_8 b = (if b then - 1 else 0)"

lemma bit63_iff: "bit (a :: u64) 63 \<longleftrightarrow> 2 ^ 63 \<le> unat a"
proof -
  have "bit a 63 \<longleftrightarrow> bit (unat a) 63" by (simp add: bit_unsigned_iff)
  then have "bit a 63 \<longleftrightarrow> odd (unat a div 2 ^ 63)" by (simp only: bit_iff_odd)
  moreover have "unat a div 2 ^ 63 < 2" using unat_u64_less [of a] by (simp add: div_less_iff_less_mult)
  moreover have "odd q \<longleftrightarrow> q \<noteq> 0" if "q < 2" for q :: nat using that by (auto simp: less_2_cases_iff)
  ultimately have "bit a 63 \<longleftrightarrow> unat a div 2 ^ 63 \<noteq> 0" by blast
  then show ?thesis by (simp add: div_eq_0_iff not_less)
qed

lemma msb_mask: "constant_time_msb_w a = mask_w (bit a 63)"
proof -
  have "unat (drop_bit 63 a) = unat a div 2 ^ 63" by (rule unat_drop_bit)
  moreover have "unat a div 2 ^ 63 = of_bool (bit a 63)"
    using unat_u64_less [of a] unfolding bit63_iff by (cases "2 ^ 63 \<le> unat a") (auto simp: div_nat_eqI)
  ultimately have "drop_bit 63 a = of_bool (bit a 63)" by (simp add: word_unat_eq_iff)
  then show ?thesis by (simp add: constant_time_msb_w_def mask_w_def)
qed

lemma sub_bit63:
  assumes "bit a 63 = bit b 63"
  shows "bit (a - b) 63 \<longleftrightarrow> a < (b :: u64)"
proof (cases "b \<le> a")
  case True
  then have u: "unat (a - b) = unat a - unat b" by (simp add: unat_sub_if_size word_le_nat_alt)
  have "unat a < 2 ^ 63 \<or> 2 ^ 63 \<le> unat b"
    using assms unfolding bit63_iff by auto
  then have "unat (a - b) < 2 ^ 63" using u unat_u64_less [of a] by (elim disjE; simp; linarith)
  then show ?thesis using True by (simp add: bit63_iff not_le)
next
  case False
  then have "unat (a - b) = unat a + 2 ^ 64 - unat b" by (simp add: unat_sub_if_size word_size word_le_nat_alt)
  moreover have "unat b < 2 ^ 63 \<or> 2 ^ 63 \<le> unat a"
    using assms unfolding bit63_iff by auto
  ultimately have "2 ^ 63 \<le> unat (a - b)" using unat_u64_less [of b] by (elim disjE; simp; linarith)
  then show ?thesis using False by (simp add: bit63_iff)
qed

lemma lt_w: "constant_time_lt_w a b = mask_w (a < b)"
proof -
  have "bit (a XOR ((a XOR b) OR ((a - b) XOR a))) 63 \<longleftrightarrow> a < b"
  proof (cases "bit a 63 = bit b 63")
    case True
    then have "bit (a XOR ((a XOR b) OR ((a - b) XOR a))) 63 \<longleftrightarrow> bit (a - b) 63"
      by (auto simp: bit_xor_iff bit_or_iff)
    with sub_bit63 [OF True] show ?thesis by simp
  next
    case False
    then have "bit (a XOR ((a XOR b) OR ((a - b) XOR a))) 63 \<longleftrightarrow> bit b 63"
      by (auto simp: bit_xor_iff bit_or_iff)
    moreover have "bit b 63 \<longleftrightarrow> a < b" using False unfolding bit63_iff by (auto simp: word_less_nat_alt)
    ultimately show ?thesis by simp
  qed
  then show ?thesis by (simp add: constant_time_lt_w_def msb_mask)
qed

lemma is_zero_w: "constant_time_is_zero_w a = mask_w (a = 0)"
proof -
  have "bit (NOT a AND (a - 1)) 63 \<longleftrightarrow> a = 0"
  proof (cases "a = 0")
    case False
    then have "unat a \<noteq> 0" by (simp add: unat_eq_0)
    then have u: "unat (a - 1) = unat a - 1" by (simp add: unat_sub_if_size)
    have "\<not> (\<not> bit a 63 \<and> bit (a - 1) 63)" unfolding bit63_iff u by auto
    then show ?thesis using False by (simp add: bit_and_iff bit_not_iff)
  qed simp
  then show ?thesis by (simp add: constant_time_is_zero_w_def msb_mask)
qed

lemma eq_w: "constant_time_eq_w a b = mask_w (a = b)"
proof -
  have "a XOR b = 0 \<longleftrightarrow> a = b" by (metis xor.right_neutral xor_self_eq xor.left_commute)
  then show ?thesis by (simp add: constant_time_eq_w_def is_zero_w)
qed

lemma ucast_mask: "ucast (mask_w b) = mask_8 b"
proof -
  have "ucast (- 1 :: u64) = (- 1 :: u8)" by (rule bit_word_eqI) (simp add: bit_simps)
  then show ?thesis by (simp add: mask_w_def mask_8_def)
qed

lemma not_mask: "NOT (mask_w b) = mask_w (\<not> b)"
  by (simp add: mask_w_def)

lemmas mask_results = lt_w is_zero_w eq_w ucast_mask not_mask constant_time_lt_8_def constant_time_ge_w_def
  constant_time_ge_8_def constant_time_is_zero_8_def constant_time_eq_8_def

lemma scast_inj: "scast (a :: 32 word) = (scast b :: u64) \<longleftrightarrow> a = b"
proof
  assume "scast a = (scast b :: u64)"
  then have "ucast (scast a :: u64) = (ucast (scast b :: u64) :: 32 word)" by simp
  moreover have "ucast (scast c :: u64) = c" for c :: "32 word"
    by (rule bit_word_eqI) (simp add: bit_simps)
  ultimately show "a = b" by simp
qed simp

lemma select_w: "constant_time_select_w (mask_w c) a b = (if c then a else b)"
  by (simp add: constant_time_select_w_def mask_w_def)

lemma select_8: "constant_time_select_8 (mask_w c) a b = (if c then a else b)"
  by (simp add: constant_time_select_8_def ucast_mask mask_8_def)

lemma select_int: "constant_time_select_int (mask_w c) a b = (if c then a else b)"
proof -
  have "ucast (scast x :: u64) = x" for x :: "32 word"
    by (rule bit_word_eqI) (simp add: bit_simps)
  then show ?thesis by (simp add: constant_time_select_int_def select_w)
qed

section \<open>Rotations\<close>

lemma neg_and_mask:
  assumes "s < 2 ^ k"
  shows "nat ((- int s) AND mask k) = (if s = 0 then 0 else 2 ^ k - s)"
proof -
  have "(- int s) AND mask k = (- int s) mod 2 ^ k" by (simp only: flip: take_bit_eq_mask take_bit_eq_mod)
  also have "\<dots> = (if s = 0 then 0 else 2 ^ k - int s)"
  proof (cases "s = 0")
    case False
    have "(- int s) mod 2 ^ k = (2 ^ k - int s) mod 2 ^ k" by (metis diff_0 mod_add_self1 uminus_add_conv_diff add.commute)
    also have "\<dots> = 2 ^ k - int s" using False assms
      by (intro mod_pos_pos_trivial) (auto simp: less_imp_le)
    finally show ?thesis using False by simp
  qed simp
  finally show ?thesis using assms by (auto simp: nat_diff_distrib nat_power_eq)
qed

lemma rotate_zero [simp]: "word_rotl 0 v = v" "word_rotr 0 v = (v :: 'a::len word)"
  by (rule bit_word_eqI, simp add: bit_simps)+

lemma rotate_left:
  fixes v :: "'a::len word"
  assumes "s < LENGTH('a)"
  shows "push_bit s v OR drop_bit (if s = 0 then 0 else LENGTH('a) - s) v = word_rotl s v"
proof (rule bit_word_eqI)
  fix n assume n: "n < LENGTH('a)"
  have "(n + (LENGTH('a) - s)) mod LENGTH('a) = (if s \<le> n then n - s else n + (LENGTH('a) - s))"
  proof (cases "s \<le> n")
    case True
    then have "n + (LENGTH('a) - s) = (n - s) + LENGTH('a)" using assms by simp
    then show ?thesis using True n by (simp only: mod_add_self2 if_True) simp
  qed (use assms n in simp)
  with n assms show "bit (push_bit s v OR drop_bit (if s = 0 then 0 else LENGTH('a) - s) v) n =
      bit (word_rotl s v) n"
    by (cases "s \<le> n") (auto simp: bit_simps add.commute dest: bit_imp_le_length)
qed

lemma rotate_right:
  fixes v :: "'a::len word"
  assumes "s < LENGTH('a)"
  shows "drop_bit s v OR push_bit (if s = 0 then 0 else LENGTH('a) - s) v = word_rotr s v"
proof (cases "s = 0")
  case True
  then show ?thesis by simp
next
  case False
  define t where "t = LENGTH('a) - s"
  have t: "t < LENGTH('a)" "(if t = 0 then 0 else LENGTH('a) - t) = s" using False assms by (auto simp: t_def)
  have "push_bit t v OR drop_bit s v = word_rotl t v" using rotate_left [of t v] t by simp
  also have "\<dots> = word_rotr s v"
    using False assms by (simp add: word_rotl_eq_word_rotr t_def)
  finally show ?thesis using False by (simp add: t_def or.commute)
qed

lemma neg_and_31: "s < 32 \<Longrightarrow> nat (- int s AND 31) = (if s = 0 then 0 else 32 - s)"
  using neg_and_mask [of s 5] by (simp add: mask_eq_exp_minus_1)

lemma neg_and_63: "s < 64 \<Longrightarrow> nat (- int s AND 63) = (if s = 0 then 0 else 64 - s)"
  using neg_and_mask [of s 6] by (simp add: mask_eq_exp_minus_1)

lemma rotl_u32: "s < 32 \<Longrightarrow> CRYPTO_rotl_u32 v s = word_rotl s v"
  using rotate_left [of s v] by (cases "s = 0") (simp_all add: CRYPTO_rotl_u32_def neg_and_31)

lemma rotr_u32: "s < 32 \<Longrightarrow> CRYPTO_rotr_u32 v s = word_rotr s v"
  using rotate_right [of s v] by (cases "s = 0") (simp_all add: CRYPTO_rotr_u32_def neg_and_31)

lemma rotl_u64: "s < 64 \<Longrightarrow> CRYPTO_rotl_u64 v s = word_rotl s v"
  using rotate_left [of s v] by (cases "s = 0") (simp_all add: CRYPTO_rotl_u64_def neg_and_63)

lemma rotr_u64: "s < 64 \<Longrightarrow> CRYPTO_rotr_u64 v s = word_rotr s v"
  using rotate_right [of s v] by (cases "s = 0") (simp_all add: CRYPTO_rotr_u64_def neg_and_63)

section \<open>Properties\<close>

text \<open>C36. Every comparison yields the all-ones mask when it holds and zero when it does not, for all
  64-bit arguments and without a branch.\<close>

theorem constant_time_masks:
  "constant_time_lt_w a b = mask_w (a < b) \<and> constant_time_ge_w a b = mask_w (a \<ge> b) \<and>
   constant_time_is_zero_w a = mask_w (a = 0) \<and> constant_time_eq_w a b = mask_w (a = b) \<and>
   constant_time_eq_int x y = mask_w (x = y)"
  by (auto simp: mask_results constant_time_eq_int_def scast_inj not_less)

text \<open>With the masks these comparisons produce, the selection functions are conditionals: they return
  the first value for the true mask and the second for the false one, for words, bytes and \<open>int\<close>s.\<close>

theorem constant_time_selects:
  "constant_time_select_w (mask_w c) a b = (if c then a else b) \<and>
   constant_time_select_8 (mask_w c) x y = (if c then x else y) \<and>
   constant_time_select_int (mask_w c) i j = (if c then i else j)"
  by (simp add: select_w select_8 select_int)

text \<open>For every shift below the width the rotations of \<open>internal.h\<close> are rotations (a shift of zero
  included, where shifting by the width would be undefined), and left and right are inverse.\<close>

theorem rotations:
  assumes "s < 32" "t < 64"
  shows "CRYPTO_rotl_u32 v s = word_rotl s v \<and> CRYPTO_rotr_u32 (CRYPTO_rotl_u32 v s) s = v \<and>
    CRYPTO_rotl_u64 w t = word_rotl t w \<and> CRYPTO_rotr_u64 (CRYPTO_rotl_u64 w t) t = w"
  using assms by (simp add: rotl_u32 rotr_u32 rotl_u64 rotr_u64)

theorem rotations_witness: "CRYPTO_rotr_u32 (CRYPTO_rotl_u32 0xdeadbeef 13) 13 = 0xdeadbeef"
  by (rule rotations [of 13 0, THEN conjunct2, THEN conjunct1]) simp_all

text \<open>\<open>constant_time_conditional_memcpy\<close> copies all of the area or nothing.\<close>

theorem conditional_memcpy:
  assumes "n \<le> length dst" "n \<le> length src"
  shows "constant_time_conditional_memcpy dst src n (mask_w c) = (if c then take n src @ drop n dst else dst)"
proof -
  have "map2 (constant_time_select_8 (mask_w c)) (take n src) (take n dst) = (if c then take n src else take n dst)"
    using assms by (intro nth_equalityI) (auto simp: select_8)
  then show ?thesis by (simp add: constant_time_conditional_memcpy_def)
qed

theorem conditional_memcpy_witness:
  "constant_time_conditional_memcpy [1, 2, 3] [7, 8] 2 (mask_w True) = [7, 8, 3]"
  using conditional_memcpy [of 2 "[1, 2, 3]" "[7, 8]" True] by simp

text \<open>Where the variant for GCC goes wrong: with a first byte of 1 in \<open>src\<close> and zeros behind it, the tail is changed.\<close>

lemma memxor_gcc_tail:
  assumes "32 \<le> n" "n mod 32 \<noteq> 0"
  defines "src \<equiv> 1 # replicate (n - 1) 0"
  shows "constant_time_conditional_memxor_gcc (replicate n 0) src n (mask_w True) \<noteq>
    constant_time_conditional_memxor (replicate n 0) src n (mask_w True)"
proof -
  define v where "v = n - n mod 32"
  have v: "0 < v" "v < n" using assms(1,2) by (auto simp: v_def)
  have "constant_time_conditional_memxor_gcc (replicate n 0) src n (mask_w True) ! v = 1"
    using v by (simp add: constant_time_conditional_memxor_gcc_def Let_def v_def [symmetric] nth_append src_def ucast_mask mask_8_def)
  moreover have "constant_time_conditional_memxor (replicate n 0) src n (mask_w True) ! v = 0"
    using v by (simp add: constant_time_conditional_memxor_def nth_append src_def nth_Cons')
  ultimately show ?thesis by auto
qed

text \<open>C38. The vectorised variant of \<open>constant_time_conditional_memxor\<close> that GCC compiles agrees with the
  byte loop on all inputs of a length exactly when the length is below 32 or a multiple of 32: its tail
  loop starts again at the beginning of \<open>src\<close>, because \<open>in\<close> is not advanced past the vectors.\<close>

theorem memxor_gcc_differs:
  "(\<forall>dst src m. constant_time_conditional_memxor_gcc dst src n m = constant_time_conditional_memxor dst src n m) \<longleftrightarrow>
   n < 32 \<or> n mod 32 = 0"
proof
  assume "\<forall>dst src m. constant_time_conditional_memxor_gcc dst src n m = constant_time_conditional_memxor dst src n m"
  then show "n < 32 \<or> n mod 32 = 0" using memxor_gcc_tail [of n] by fastforce
next
  assume "n < 32 \<or> n mod 32 = 0"
  then show "\<forall>dst src m. constant_time_conditional_memxor_gcc dst src n m = constant_time_conditional_memxor dst src n m"
    by (auto simp: constant_time_conditional_memxor_gcc_def constant_time_conditional_memxor_def Let_def)
qed

end
