(* ===== verification/Base64.thy ===== *)
theory Base64
  imports Constant_Time
begin

text \<open>
  \<open>base64/base64.c\<close>: the branch-free character conversions, the block and the streaming encoder, the
  block and the streaming decoder. An output area is the list of the bytes written to it from its
  beginning; \<open>EVP_ENCODE_CTX\<close> is a record. A failed \<open>assert\<close> is \<open>None\<close>.
\<close>

section \<open>The code\<close>

definition constant_time_lt_args_8 :: "u8 \<Rightarrow> u8 \<Rightarrow> u8" where
  "constant_time_lt_args_8 a b =
     (let aw = ucast a; bw = ucast b in ucast (constant_time_msb_w (aw - bw)))"

definition constant_time_in_range_8 :: "u8 \<Rightarrow> u8 \<Rightarrow> u8 \<Rightarrow> u8" where
  "constant_time_in_range_8 a0 lo hi = (let a = a0 - lo in constant_time_lt_args_8 a (hi - lo + 1))"

text \<open>A byte mask passed on as \<open>crypto_word_t\<close> is zero-extended.\<close>

definition conv_bin2ascii :: "u8 \<Rightarrow> u8" where
  "conv_bin2ascii a0 =
     (let a = a0 AND 0x3f;
          ret = constant_time_select_8 (ucast (constant_time_eq_8 (ucast a) 62)) 0x2b 0x2f;
          ret = constant_time_select_8 (ucast (constant_time_lt_args_8 a 62)) (a - 52 + 0x30) ret;
          ret = constant_time_select_8 (ucast (constant_time_lt_args_8 a 52)) (a - 26 + 0x61) ret;
          ret = constant_time_select_8 (ucast (constant_time_lt_args_8 a 26)) (a + 0x41) ret
      in ret)"

text \<open>The length computation with the wrap-around checks of \<open>size_t\<close>.\<close>

definition EVP_EncodedLength :: "nat \<Rightarrow> nat option" where
  "EVP_EncodedLength len =
     (if size_add len 2 < len then None
      else let len = size_add len 2 div 3
           in if (len * 4 mod 2 ^ 64) div 4 \<noteq> len then None
              else let len = len * 4 mod 2 ^ 64
                   in if size_add len 1 < len then None else Some (size_add len 1))"

record encode_ctx =
  data_used :: nat
  data :: bytes
  eof_seen :: bool
  error_encountered :: bool

definition EVP_EncodeInit :: encode_ctx where
  "EVP_EncodeInit = \<lparr>data_used = 0, data = replicate 48 0, eof_seen = False, error_encountered = False\<rparr>"

text \<open>\<open>OPENSSL_memcpy(&ctx->data[at], in, n)\<close> for \<open>in\<close> of length \<open>n\<close>.\<close>

definition put_data :: "nat \<Rightarrow> bytes \<Rightarrow> encode_ctx \<Rightarrow> encode_ctx" where
  "put_data k inp ctx = ctx\<lparr>data := take k (data ctx) @ inp @ drop (k + length inp) (data ctx)\<rparr>"

text \<open>The four characters of one group, from the 24-bit number \<open>l\<close>.\<close>

fun EVP_EncodeBlock_loop :: "bytes \<Rightarrow> bytes" where
  "EVP_EncodeBlock_loop [] = []"
| "EVP_EncodeBlock_loop [s0] =
    (let l = push_bit 16 (ucast s0 :: u32)
     in [conv_bin2ascii (ucast (drop_bit 18 l)), conv_bin2ascii (ucast (drop_bit 12 l)), 0x3d, 0x3d])"
| "EVP_EncodeBlock_loop [s0, s1] =
    (let l = push_bit 16 (ucast s0 :: u32) OR push_bit 8 (ucast s1)
     in [conv_bin2ascii (ucast (drop_bit 18 l)), conv_bin2ascii (ucast (drop_bit 12 l)),
         conv_bin2ascii (ucast (drop_bit 6 l)), 0x3d])"
| "EVP_EncodeBlock_loop (s0 # s1 # s2 # src) =
    (let l = push_bit 16 (ucast s0 :: u32) OR push_bit 8 (ucast s1) OR ucast s2
     in [conv_bin2ascii (ucast (drop_bit 18 l)), conv_bin2ascii (ucast (drop_bit 12 l)),
         conv_bin2ascii (ucast (drop_bit 6 l)), conv_bin2ascii (ucast l)] @ EVP_EncodeBlock_loop src)"

text \<open>The bytes written, with the final NUL, and the returned count, which leaves it out.\<close>

definition EVP_EncodeBlock :: "bytes \<Rightarrow> bytes \<times> nat" where
  "EVP_EncodeBlock src = (let dst = EVP_EncodeBlock_loop src in (dst @ [0], length dst))"

text \<open>Every line ends in a newline that overwrites the NUL of \<open>EVP_EncodeBlock\<close>, and a NUL after it.\<close>

definition put_line :: "bytes \<Rightarrow> bytes \<Rightarrow> bytes" where
  "put_line out src = (let (b, encoded) = EVP_EncodeBlock src in out @ take encoded b @ [0x0a])"

text \<open>\<open>while (in_len >= sizeof(ctx->data))\<close>. Result: the output, the rest of the input and \<open>total\<close>, or
  \<open>Inl\<close> the output when \<open>tot\<close> overflows.\<close>

function encode_lines :: "bytes \<Rightarrow> nat \<Rightarrow> bytes \<Rightarrow> bytes + bytes \<times> bytes \<times> nat" where
  "encode_lines out tot inp =
    (if length inp < 48 then Inr (out, inp, tot)
     else let line = take 48 inp; encoded = snd (EVP_EncodeBlock line); out = put_line out line
          in if size_add tot (encoded + 1) < tot then Inl out
             else encode_lines out (size_add tot (encoded + 1)) (drop 48 inp))"
  by pat_completeness auto
termination by (relation "measure (\<lambda>(_, _, inp). length inp)") auto

declare encode_lines.simps [simp del]

text \<open>Result: the context, the bytes written (without the final NUL) and \<open>*out_len\<close>.\<close>

definition EVP_EncodeUpdate :: "encode_ctx \<Rightarrow> bytes \<Rightarrow> (encode_ctx \<times> bytes \<times> nat) option" where
  "EVP_EncodeUpdate ctx inp =
    (if inp = [] then Some (ctx, [], 0)
     else if \<not> data_used ctx < 48 then None
     else if 48 - data_used ctx > length inp
     then Some ((put_data (data_used ctx) inp ctx)\<lparr>data_used := data_used ctx + length inp\<rparr>, [], 0)
     else let (ctx, out, inp, tot) =
            (if data_used ctx \<noteq> 0
             then let todo = 48 - data_used ctx;
                      ctx = put_data (data_used ctx) (take todo inp) ctx;
                      out = put_line [] (data ctx)
                  in (ctx\<lparr>data_used := 0\<rparr>, out, drop todo inp, snd (EVP_EncodeBlock (data ctx)) + 1)
             else (ctx, [], inp, 0))
          in case encode_lines out tot inp of
               Inl out \<Rightarrow> Some (ctx, out, 0)
             | Inr (out, inp, tot) \<Rightarrow>
                 Some ((if inp \<noteq> [] then put_data 0 inp ctx else ctx)\<lparr>data_used := length inp\<rparr>, out,
                       if tot > INT_MAX then 0 else tot))"

definition EVP_EncodeFinal :: "encode_ctx \<Rightarrow> (encode_ctx \<times> bytes \<times> nat) option" where
  "EVP_EncodeFinal ctx =
    (if data_used ctx = 0 then Some (ctx, [], 0)
     else let src = take (data_used ctx) (data ctx); encoded = snd (EVP_EncodeBlock src) + 1
          in if encoded \<le> INT_MAX then Some (ctx\<lparr>data_used := 0\<rparr>, put_line [] src, encoded) else None)"

definition EVP_DecodedLength :: "nat \<Rightarrow> nat option" where
  "EVP_DecodedLength len = (if len mod 4 \<noteq> 0 then None else Some (len div 4 * 3))"

definition EVP_DecodeInit :: encode_ctx where
  "EVP_DecodeInit = \<lparr>data_used = 0, data = replicate 48 0, eof_seen = False, error_encountered = False\<rparr>"

definition base64_ascii_to_bin :: "u8 \<Rightarrow> u8" where
  "base64_ascii_to_bin a =
    (let is_upper = constant_time_in_range_8 a 0x41 0x5a;
         is_lower = constant_time_in_range_8 a 0x61 0x7a;
         is_digit = constant_time_in_range_8 a 0x30 0x39;
         is_plus = constant_time_eq_8 (ucast a) 0x2b;
         is_slash = constant_time_eq_8 (ucast a) 0x2f;
         is_equals = constant_time_eq_8 (ucast a) 0x3d;
         ret = is_upper AND (a - 0x41);
         ret = ret OR (is_lower AND (a - 0x61 + 26));
         ret = ret OR (is_digit AND (a - 0x30 + 52));
         ret = ret OR (is_plus AND 62);
         ret = ret OR (is_slash AND 63);
         is_valid = is_upper OR is_lower OR is_digit OR is_plus OR is_slash OR is_equals
     in ret OR NOT is_valid)"

text \<open>The bytes written to \<open>out\<close>; their number is \<open>*out_num_bytes\<close>.\<close>

definition base64_decode_quad :: "u8 \<Rightarrow> u8 \<Rightarrow> u8 \<Rightarrow> u8 \<Rightarrow> bytes option" where
  "base64_decode_quad in0 in1 in2 in3 =
    (let a = base64_ascii_to_bin in0; b = base64_ascii_to_bin in1;
         c = base64_ascii_to_bin in2; d = base64_ascii_to_bin in3
     in if a = 0xff \<or> b = 0xff \<or> c = 0xff \<or> d = 0xff then None
        else let v = push_bit 18 (ucast a :: u32) OR push_bit 12 (ucast b) OR push_bit 6 (ucast c) OR ucast d;
                 pattern = push_bit 3 (of_bool (in0 = 0x3d)) OR push_bit 2 (of_bool (in1 = 0x3d)) OR
                           push_bit 1 (of_bool (in2 = 0x3d)) OR (of_bool (in3 = 0x3d) :: u32)
             in if pattern = 0 then Some [ucast (drop_bit 16 v), ucast (drop_bit 8 v), ucast v]
                else if pattern = 1 then Some [ucast (drop_bit 16 v), ucast (drop_bit 8 v)]
                else if pattern = 3 then Some [ucast (drop_bit 16 v)]
                else None)"

text \<open>The loop of \<open>EVP_DecodeUpdate\<close>: \<open>Inl\<close> is the early return of -1, with the bytes written so far;
  \<open>bytes_out\<close> is their number.\<close>

fun decode_update_loop :: "encode_ctx \<Rightarrow> bytes \<Rightarrow> bytes \<Rightarrow> encode_ctx \<times> bytes + encode_ctx \<times> bytes" where
  "decode_update_loop ctx out [] = Inr (ctx, out)"
| "decode_update_loop ctx out (c # inp) =
    (if c \<in> {0x20, 0x09, 0x0d, 0x0a} then decode_update_loop ctx out inp
     else if eof_seen ctx then Inl (ctx\<lparr>error_encountered := True\<rparr>, out)
     else let ctx = ctx\<lparr>data := (data ctx)[data_used ctx := c], data_used := data_used ctx + 1\<rparr>
          in if data_used ctx = 4
             then (case base64_decode_quad (data ctx ! 0) (data ctx ! 1) (data ctx ! 2) (data ctx ! 3) of
                     None \<Rightarrow> Inl (ctx\<lparr>error_encountered := True\<rparr>, out)
                   | Some bs \<Rightarrow>
                       let ctx = ctx\<lparr>data_used := 0\<rparr>;
                           ctx = (if length bs < 3 then ctx\<lparr>eof_seen := True\<rparr> else ctx)
                       in decode_update_loop ctx (out @ bs) inp)
             else decode_update_loop ctx out inp)"

text \<open>Result: the return value, the context, the bytes written and \<open>*out_len\<close>.\<close>

definition EVP_DecodeUpdate :: "encode_ctx \<Rightarrow> bytes \<Rightarrow> int \<times> encode_ctx \<times> bytes \<times> nat" where
  "EVP_DecodeUpdate ctx inp =
    (if error_encountered ctx then (- 1, ctx, [], 0)
     else case decode_update_loop ctx [] inp of
            Inl (ctx, out) \<Rightarrow> (- 1, ctx, out, 0)
          | Inr (ctx, out) \<Rightarrow>
              if length out > INT_MAX then (- 1, ctx\<lparr>error_encountered := True\<rparr>, out, 0)
              else (if eof_seen ctx then 0 else 1, ctx, out, length out))"

definition EVP_DecodeFinal :: "encode_ctx \<Rightarrow> int" where
  "EVP_DecodeFinal ctx = (if error_encountered ctx \<or> data_used ctx \<noteq> 0 then - 1 else 1)"

text \<open>\<open>i != in_len - 4\<close> says that input is left after this quad.\<close>

fun decode_quads :: "bytes \<Rightarrow> bytes \<Rightarrow> bool \<times> bytes" where
  "decode_quads out (a # b # c # d # inp) =
    (case base64_decode_quad a b c d of
       None \<Rightarrow> (False, out)
     | Some bs \<Rightarrow> if length bs \<noteq> 3 \<and> inp \<noteq> [] then (False, out @ bs) else decode_quads (out @ bs) inp)"
| "decode_quads out inp = (True, out)"

text \<open>Result: success, the bytes written, \<open>*out_len\<close>.\<close>

definition EVP_DecodeBase64 :: "nat \<Rightarrow> bytes \<Rightarrow> bool \<times> bytes \<times> nat" where
  "EVP_DecodeBase64 max_out inp =
    (if length inp mod 4 \<noteq> 0 then (False, [], 0)
     else case EVP_DecodedLength (length inp) of
            None \<Rightarrow> (False, [], 0)
          | Some max_len \<Rightarrow>
              if max_out < max_len then (False, [], 0)
              else case decode_quads [] inp of
                     (False, out) \<Rightarrow> (False, out, 0)
                   | (True, out) \<Rightarrow> (True, out, length out))"

text \<open>\<open>EVP_DecodeBlock\<close>: trimming, decoding, and the zero bytes in the place of the padding.\<close>

fun trim_front :: "bytes \<Rightarrow> bytes" where
  "trim_front [] = []"
| "trim_front (c # src) = (if c \<noteq> 0x20 \<and> c \<noteq> 0x09 then c # src else trim_front src)"

function trim_back :: "bytes \<Rightarrow> bytes" where
  "trim_back src =
    (if src \<noteq> [] \<and> last src \<in> {0x20, 0x09, 0x0d, 0x0a} then trim_back (butlast src) else src)"
  by pat_completeness auto
termination by (relation "measure length") auto

declare trim_back.simps [simp del]

function pad3 :: "bytes \<Rightarrow> bytes" where
  "pad3 dst = (if length dst mod 3 \<noteq> 0 then pad3 (dst @ [0]) else dst)"
  by pat_completeness auto
termination
proof (relation "measure (\<lambda>dst. (3 - length dst mod 3) mod 3)")
  fix dst :: bytes
  assume "length dst mod 3 \<noteq> 0"
  then have "length dst mod 3 = 1 \<or> length dst mod 3 = 2" by linarith
  then show "(dst @ [0], dst) \<in> measure (\<lambda>dst. (3 - length dst mod 3) mod 3)"
    by (auto simp: mod_Suc)
qed simp

declare pad3.simps [simp del]

definition EVP_DecodeBlock :: "bytes \<Rightarrow> bytes option" where
  "EVP_DecodeBlock src =
    (let src = trim_back (trim_front src)
     in case EVP_DecodedLength (length src) of
          None \<Rightarrow> None
        | Some dst_len \<Rightarrow>
            if dst_len > INT_MAX then None
            else case EVP_DecodeBase64 dst_len src of
                   (ok, dst, n) \<Rightarrow> if ok then Some (pad3 dst) else None)"

section \<open>The alphabet\<close>

text \<open>The table of RFC 4648 and its inverse.\<close>

definition b64_char :: "nat \<Rightarrow> u8" where
  "b64_char n = of_nat (if n < 26 then n + 65 else if n < 52 then n + 71 else if n < 62 then n - 4
                        else if n = 62 then 43 else 47)"

definition b64_val :: "u8 \<Rightarrow> nat option" where
  "b64_val c = (let n = unat c
                in if 65 \<le> n \<and> n \<le> 90 then Some (n - 65) else if 97 \<le> n \<and> n \<le> 122 then Some (n - 71)
                   else if 48 \<le> n \<and> n \<le> 57 then Some (n + 4) else if n = 43 then Some 62
                   else if n = 47 then Some 63 else None)"

lemma lt_args_8: "constant_time_lt_args_8 a b = mask_8 (a < b)"
proof -
  have s: "\<not> bit (ucast (x :: u8) :: u64) 63" for x
    unfolding bit63_iff by (simp add: not_le) (rule less_trans [OF unat_less_256], simp)
  have "bit (ucast a - ucast b :: u64) 63 \<longleftrightarrow> (ucast a :: u64) < ucast b"
    by (rule sub_bit63) (simp add: s)
  also have "\<dots> \<longleftrightarrow> a < b" by (simp add: word_less_nat_alt)
  finally show ?thesis by (simp add: constant_time_lt_args_8_def Let_def msb_mask ucast_mask)
qed

lemma in_range_8:
  assumes "lo \<le> hi" "unat hi - unat lo < 255"
  shows "constant_time_in_range_8 a lo hi = mask_8 (lo \<le> a \<and> a \<le> hi)"
proof -
  have range: "(if l \<le> x then x - l else x + 256 - l) < h - l + 1 \<longleftrightarrow> l \<le> x \<and> x \<le> h"
    if "l \<le> h" "h < 256" for l h x :: nat
    using that by (cases "l \<le> x") auto
  have w: "unat (hi - lo) = unat hi - unat lo" using assms(1) by (rule unat_sub)
  then have "unat (hi - lo + 1) = unat hi - unat lo + 1"
    using assms(2) by (simp add: unat_word_ariths)
  moreover have "unat (a - lo) = (if lo \<le> a then unat a - unat lo else unat a + 256 - unat lo)"
    by (simp add: unat_sub_if_size word_size word_le_nat_alt)
  ultimately have "a - lo < hi - lo + 1 \<longleftrightarrow> lo \<le> a \<and> a \<le> hi"
    using assms(1) unat_less_256 [of hi]
    unfolding word_less_nat_alt word_le_nat_alt by (simp only: range)
  then show ?thesis by (simp add: constant_time_in_range_8_def lt_args_8)
qed

lemma select_8_byte: "constant_time_select_8 (ucast (mask_8 c)) x y = (if c then x else y)"
proof -
  have "ucast (ucast (m :: u8) :: u64) = m" for m by (rule bit_word_eqI) (simp add: bit_simps)
  then show ?thesis by (simp add: constant_time_select_8_def mask_8_def)
qed

lemma eq_8_byte: "constant_time_eq_8 (ucast (a :: u8)) n = mask_8 (unat a = unat n)"
  by (simp add: mask_results word_unat_eq_iff)


text \<open>The branch-free conversions are the table and its inverse.\<close>

lemma conv_bin2ascii: "conv_bin2ascii a = b64_char (unat a mod 64)"
proof -
  define n where "n = unat (a AND 0x3f)"
  have n: "n = unat a mod 64" unfolding n_def by (simp add: unat_and_mask [where n = 6] mask_eq_exp_minus_1)
  have a: "a AND 0x3f = of_nat n" by (simp add: n_def)
  have "n < 64" by (simp add: n)
  then have lt: "(of_nat n < (of_nat k :: u8)) = (n < k)" if "k < 256" for k
    using that by (simp add: word_less_nat_alt unat_of_nat)
  have "conv_bin2ascii a =
      (if n < 26 then of_nat n + 0x41 else if n < 52 then of_nat n - 26 + 0x61
       else if n < 62 then of_nat n - 52 + 0x30 else if n = 62 then 0x2b else 0x2f)"
    using lt [of 26] lt [of 52] lt [of 62] \<open>n < 64\<close>
    by (simp add: conv_bin2ascii_def a lt_args_8 eq_8_byte select_8_byte unat_of_nat Let_def)
  also have "\<dots> = b64_char n"
    by (simp add: b64_char_def)
  finally show ?thesis by (simp add: n)
qed

lemma ascii_to_bin:
  "base64_ascii_to_bin c =
     (case b64_val c of Some n \<Rightarrow> of_nat n | None \<Rightarrow> if c = 0x3d then 0 else 0xff)"
proof -
  define n where "n = unat c"
  have c: "c = 0x3d \<longleftrightarrow> n = 61" by (simp add: n_def word_unat_eq_iff)
  have sub: "c - of_nat k = of_nat (n - k)" if "k \<le> n" for k
    using that by (simp add: n_def of_nat_diff)
  have bin: "base64_ascii_to_bin c =
      (((((mask_8 (65 \<le> n \<and> n \<le> 90) AND (c - 65)) OR (mask_8 (97 \<le> n \<and> n \<le> 122) AND (c - 71)))
        OR (mask_8 (48 \<le> n \<and> n \<le> 57) AND (4 + c))) OR (mask_8 (n = 43) AND 62)) OR (mask_8 (n = 47) AND 63))
      OR NOT (mask_8 (65 \<le> n \<and> n \<le> 90) OR mask_8 (97 \<le> n \<and> n \<le> 122) OR mask_8 (48 \<le> n \<and> n \<le> 57)
        OR mask_8 (n = 43) OR mask_8 (n = 47) OR mask_8 (n = 61))"
    by (simp add: base64_ascii_to_bin_def in_range_8 eq_8_byte word_le_nat_alt Let_def
        flip: n_def)
  consider "65 \<le> n \<and> n \<le> 90" | "97 \<le> n \<and> n \<le> 122" | "48 \<le> n \<and> n \<le> 57" | "n = 43" | "n = 47" | "n = 61"
    | "n \<noteq> 61 \<and> \<not> (65 \<le> n \<and> n \<le> 90) \<and> \<not> (97 \<le> n \<and> n \<le> 122) \<and>
       \<not> (48 \<le> n \<and> n \<le> 57) \<and> n \<noteq> 43 \<and> n \<noteq> 47"
    by blast
  then show ?thesis
    using sub [of 65] sub [of 71] unfolding bin c
    by cases (simp_all add: mask_8_def b64_val_def Let_def flip: n_def, auto simp: n_def)
qed


lemma b64_val_SomeD:
  assumes "b64_val c = Some n"
  shows "n < 64" "c \<noteq> 0x3d" "b64_char n = c"
proof -
  show "b64_char n = c"
    using assms by (auto simp: b64_val_def b64_char_def Let_def word_unat_eq_iff unat_of_nat split: if_splits)
qed (use assms in \<open>auto simp: b64_val_def Let_def split: if_splits\<close>)

lemma b64_val_char: "n < 64 \<Longrightarrow> b64_val (b64_char n) = Some n"
  by (auto simp: b64_val_def b64_char_def Let_def unat_of_nat)

lemma b64_val_pad [simp]: "b64_val 0x3d = None"
  by (simp add: b64_val_def)

section \<open>One group\<close>

text \<open>What a group of four characters stands for; the unused low bits before the padding are ignored.\<close>

definition sextets :: "nat list \<Rightarrow> nat" where
  "sextets ns = foldl (\<lambda>v n. v * 64 + n) 0 ns"

definition quad_value :: "u8 \<Rightarrow> u8 \<Rightarrow> u8 \<Rightarrow> u8 \<Rightarrow> bytes option" where
  "quad_value c0 c1 c2 c3 =
    (case (b64_val c0, b64_val c1, b64_val c2, b64_val c3) of
       (Some a, Some b, Some c, Some d) \<Rightarrow> Some (be_bytes 3 (sextets [a, b, c, d]))
     | (Some a, Some b, Some c, None) \<Rightarrow>
         if c3 = 0x3d then Some (be_bytes 2 (sextets [a, b, c] div 4)) else None
     | (Some a, Some b, None, None) \<Rightarrow>
         if c2 = 0x3d \<and> c3 = 0x3d then Some (be_bytes 1 (sextets [a, b] div 16)) else None
     | _ \<Rightarrow> None)"

lemma unat_four:
  fixes a b c d :: nat
  assumes "a < 64" "b < 64" "c < 64" "d < 64"
  shows "unat (push_bit 18 (ucast (of_nat a :: u8) :: u32) OR push_bit 12 (ucast (of_nat b :: u8)) OR
      push_bit 6 (ucast (of_nat c :: u8)) OR ucast (of_nat d :: u8)) = sextets [a, b, c, d]"
proof -
  have [simp]: "unat (ucast (of_nat k :: u8) :: u32) = k" if "k < 64" for k
    using that by (simp add: unat_ucast unat_of_nat)
  define x where "x = push_bit 6 (ucast (of_nat c :: u8) :: u32) OR ucast (of_nat d :: u8)"
  have x: "unat x = c * 64 + d"
    using unat_shift_or [of "ucast (of_nat c :: u8) :: u32" 6 "ucast (of_nat d :: u8)"] assms by (simp add: x_def)
  define y where "y = push_bit 12 (ucast (of_nat b :: u8) :: u32) OR x"
  have y: "unat y = b * 4096 + c * 64 + d"
    using unat_shift_or [of "ucast (of_nat b :: u8) :: u32" 12 x] assms x by (simp add: y_def)
  show ?thesis
    using unat_shift_or [of "ucast (of_nat a :: u8) :: u32" 18 y] assms y by (simp add: sextets_def flip: x_def y_def)
qed

lemma ucast_byte: "(ucast (drop_bit k (v :: u32)) :: u8) = of_nat (unat v div 2 ^ k)"
  by (simp add: word_unat_eq_iff unat_ucast unat_drop_bit unat_of_nat)


lemma be_bytes_123:
  "be_bytes 1 v = [of_nat v]" "be_bytes 2 v = [of_nat (v div 256), of_nat v]"
  "be_bytes 3 v = [of_nat (v div 65536), of_nat (v div 256), of_nat v]"
proof -
  have m: "(of_nat (n mod 256) :: u8) = of_nat n" for n
    by (simp add: word_unat_eq_iff unat_of_nat)
  have e: "be_bytes (Suc n) v = be_bytes n (v div 256) @ [of_nat v]" for n v by (simp add: m)
  show "be_bytes 1 v = [of_nat v]" "be_bytes 2 v = [of_nat (v div 256), of_nat v]"
    "be_bytes 3 v = [of_nat (v div 65536), of_nat (v div 256), of_nat v]"
    using e [of 0] e [of 1] e [of 2] by (simp_all add: numeral_2_eq_2 numeral_3_eq_3 e m div_mult2_eq [symmetric])
qed

lemma sextet_bytes:
  assumes "c < 64" "d < 64"
  shows "be_bytes 3 (sextets [a, b, c, d]) = [of_nat (sextets [a, b, c, d] div 65536), of_nat (sextets [a, b, c, d] div 256),
      of_nat (sextets [a, b, c, d])]"
    "be_bytes 2 (sextets [a, b, c] div 4) = [of_nat (sextets [a, b, c, d] div 65536), of_nat (sextets [a, b, c, d] div 256)]"
    "be_bytes 1 (sextets [a, b] div 16) = [of_nat (sextets [a, b, c, d] div 65536)]"
proof -
  have d: "(x * 64 + k) div (64 * m) = x div m" if "k < 64" for x k m :: nat
    using that by (simp add: div_mult2_eq)
  have "sextets [a, b, c, d] div 256 = sextets [a, b, c] div 4"
    using d [of d "sextets [a, b, c]" 4] assms by (simp add: sextets_def)
  moreover have "sextets [a, b, c] div 1024 = sextets [a, b] div 16"
    using d [of c "sextets [a, b]" 16] assms by (simp add: sextets_def)
  moreover have "sextets [a, b, c, d] div 65536 = sextets [a, b, c] div 1024"
    using d [of d "sextets [a, b, c]" 1024] assms by (simp add: sextets_def)
  moreover have "sextets [a, b, c] div 4 div 256 = sextets [a, b, c] div 1024" by (simp flip: div_mult2_eq)
  ultimately show "be_bytes 3 (sextets [a, b, c, d]) = [of_nat (sextets [a, b, c, d] div 65536), of_nat (sextets [a, b, c, d] div 256),
      of_nat (sextets [a, b, c, d])]"
    "be_bytes 2 (sextets [a, b, c] div 4) = [of_nat (sextets [a, b, c, d] div 65536), of_nat (sextets [a, b, c, d] div 256)]"
    "be_bytes 1 (sextets [a, b] div 16) = [of_nat (sextets [a, b, c, d] div 65536)]"
    by (simp_all only: be_bytes_123)
qed

lemma pad_pattern:
  "(push_bit 3 (of_bool p0) OR push_bit 2 (of_bool p1) OR push_bit 1 (of_bool p2) OR (of_bool p3 :: u32)) =
    8 * of_bool p0 + 4 * of_bool p1 + 2 * of_bool p2 + of_bool p3"
  by (cases p0; cases p1; cases p2; cases p3) simp_all

lemma decode_quad: "base64_decode_quad c0 c1 c2 c3 = quad_value c0 c1 c2 c3"
proof -
  have bin: "base64_ascii_to_bin c = 0xff \<longleftrightarrow> b64_val c = None \<and> c \<noteq> 0x3d" for c
    by (auto simp: ascii_to_bin word_unat_eq_iff unat_of_nat dest!: b64_val_SomeD(1) split: option.splits)
  show ?thesis
  proof (cases "\<exists>c \<in> {c0, c1, c2, c3}. base64_ascii_to_bin c = 0xff")
    case True
    then show ?thesis
      by (auto simp: base64_decode_quad_def quad_value_def bin Let_def split: option.splits)
  next
    case False
    define n where "n c = (case b64_val c of Some n \<Rightarrow> n | None \<Rightarrow> 0)" for c
    have ok: "b64_val c \<noteq> None \<or> c = 0x3d" if "c \<in> {c0, c1, c2, c3}" for c
      using False that bin [of c] by metis
    have n: "base64_ascii_to_bin c = of_nat (n c)" "n c < 64" if "c \<in> {c0, c1, c2, c3}" for c
      using ok [OF that] by (cases "b64_val c"; simp add: n_def ascii_to_bin b64_val_SomeD(1))+
    define v where "v = sextets [n c0, n c1, n c2, n c3]"
    define w where "w = push_bit 18 (ucast (of_nat (n c0) :: u8) :: u32) OR push_bit 12 (ucast (of_nat (n c1) :: u8)) OR
      push_bit 6 (ucast (of_nat (n c2) :: u8)) OR ucast (of_nat (n c3) :: u8)"
    have "unat w = v" unfolding w_def v_def by (rule unat_four) (simp_all add: n)
    then have w: "(ucast (drop_bit 16 w) :: u8) = of_nat (v div 65536)" "(ucast (drop_bit 8 w) :: u8) = of_nat (v div 256)"
      "(ucast w :: u8) = of_nat v"
      using ucast_byte [of 16 w] ucast_byte [of 8 w] ucast_byte [of 0 w] by simp_all
    have dq: "base64_decode_quad c0 c1 c2 c3 =
        (let pattern = 8 * of_bool (c0 = 0x3d) + 4 * of_bool (c1 = 0x3d) + 2 * of_bool (c2 = 0x3d) + (of_bool (c3 = 0x3d) :: u32)
         in if pattern = 0 then Some [of_nat (v div 65536), of_nat (v div 256), of_nat v]
            else if pattern = 1 then Some [of_nat (v div 65536), of_nat (v div 256)]
            else if pattern = 3 then Some [of_nat (v div 65536)] else None)"
      using False by (simp add: base64_decode_quad_def pad_pattern n(1) w Let_def flip: w_def)
    have vals: "b64_val c = (if c = 0x3d then None else Some (n c))" if "c \<in> {c0, c1, c2, c3}" for c
      using ok [OF that] by (cases "b64_val c") (auto simp: n_def)
    show ?thesis
      unfolding dq quad_value_def
      using sextet_bytes [of "n c2" "n c3" "n c0" "n c1"] n by (simp add: vals flip: v_def)
  qed
qed


text \<open>The encoder writes the sextets of the 24-bit number, and the decoder reads them back.\<close>

lemma conv_drop: "conv_bin2ascii (ucast (drop_bit k (l :: u32))) = b64_char (unat l div 2 ^ k mod 64)"
  by (simp add: conv_bin2ascii unat_ucast unat_drop_bit mod_mod_cancel)

lemma conv_word: "conv_bin2ascii (ucast (l :: u32)) = b64_char (unat l mod 64)"
  by (simp add: conv_bin2ascii unat_ucast mod_mod_cancel)

lemma unat_push_byte: "unat (push_bit 16 (ucast (s :: u8) :: u32)) = unat s * 65536"
proof -
  have "unat s * 65536 < 4294967296" using unat_less_256 [of s] by linarith
  then show ?thesis by (subst unat_push_bit) simp_all
qed

lemma unat_three:
  "unat (push_bit 16 (ucast (s0 :: u8) :: u32) OR push_bit 8 (ucast (s1 :: u8)) OR ucast (s2 :: u8)) =
    be_val [s0, s1, s2]"
  "unat (push_bit 16 (ucast (s0 :: u8) :: u32) OR push_bit 8 (ucast (s1 :: u8))) = be_val [s0, s1, 0]"
proof -
  have three: "unat (push_bit 16 (ucast (s0 :: u8) :: u32) OR push_bit 8 (ucast (s1 :: u8)) OR ucast (s2 :: u8)) =
    be_val [s0, s1, s2]" for s2
  proof -
    define x where "x = push_bit 8 (ucast s1 :: u32) OR ucast s2"
    have "unat (ucast s1 :: u32) * 2 ^ 8 < 2 ^ LENGTH(32)"
      using unat_less_256 [of s1] by (simp del: unat_less_256) linarith?
    then have x: "unat x = unat s1 * 256 + unat s2"
      using unat_shift_or [of "ucast s1 :: u32" 8 "ucast s2"] by (simp add: x_def)
    have "unat x < 65536" unfolding x using unat_le_255 [of s1] unat_less_256 [of s2] by linarith
    then have "unat x < 2 ^ 16" by simp
    moreover have "unat (ucast s0 :: u32) * 2 ^ 16 < 2 ^ LENGTH(32)"
      using unat_less_256 [of s0] by (simp del: unat_less_256) linarith?
    ultimately show ?thesis
      using unat_shift_or [of "ucast s0 :: u32" 16 x] x by (simp add: be_val_Cons flip: x_def)
  qed
  show "unat (push_bit 16 (ucast (s0 :: u8) :: u32) OR push_bit 8 (ucast (s1 :: u8)) OR ucast (s2 :: u8)) =
    be_val [s0, s1, s2]" by (rule three)
  show "unat (push_bit 16 (ucast (s0 :: u8) :: u32) OR push_bit 8 (ucast (s1 :: u8))) = be_val [s0, s1, 0]"
    using three [of 0] by simp
qed


definition group_chars :: "nat \<Rightarrow> bytes" where
  "group_chars v = [b64_char (v div 2 ^ 18 mod 64), b64_char (v div 2 ^ 12 mod 64), b64_char (v div 2 ^ 6 mod 64),
     b64_char (v mod 64)]"

lemma encode_group:
  "EVP_EncodeBlock_loop [s0] = take 2 (group_chars (be_val [s0, 0, 0])) @ [0x3d, 0x3d]"
  "EVP_EncodeBlock_loop [s0, s1] = take 3 (group_chars (be_val [s0, s1, 0])) @ [0x3d]"
  "EVP_EncodeBlock_loop (s0 # s1 # s2 # src) = group_chars (be_val [s0, s1, s2]) @ EVP_EncodeBlock_loop src"
proof -
  define l1 where "l1 = push_bit 16 (ucast s0 :: u32)"
  define l2 where "l2 = push_bit 16 (ucast s0 :: u32) OR push_bit 8 (ucast s1)"
  define l3 where "l3 = push_bit 16 (ucast s0 :: u32) OR push_bit 8 (ucast s1) OR ucast s2"
  have l: "unat l1 = be_val [s0, 0, 0]" "unat l2 = be_val [s0, s1, 0]" "unat l3 = be_val [s0, s1, s2]"
    by (simp_all only: l1_def l2_def l3_def unat_three unat_push_byte be_val_Cons) simp_all
  show "EVP_EncodeBlock_loop [s0] = take 2 (group_chars (be_val [s0, 0, 0])) @ [0x3d, 0x3d]"
    unfolding EVP_EncodeBlock_loop.simps l1_def [symmetric] Let_def conv_drop l group_chars_def
    by (simp only: take_Suc_Cons take_0 numeral_2_eq_2 append.simps)
  show "EVP_EncodeBlock_loop [s0, s1] = take 3 (group_chars (be_val [s0, s1, 0])) @ [0x3d]"
    unfolding EVP_EncodeBlock_loop.simps l2_def [symmetric] Let_def conv_drop l group_chars_def
    by (simp only: take_Suc_Cons take_0 numeral_3_eq_3 append.simps)
  show "EVP_EncodeBlock_loop (s0 # s1 # s2 # src) = group_chars (be_val [s0, s1, s2]) @ EVP_EncodeBlock_loop src"
    unfolding EVP_EncodeBlock_loop.simps l3_def [symmetric] Let_def conv_word unat_drop_bit l group_chars_def ..
qed

lemma sextets_snoc: "sextets [a, b, c, d] = sextets [a, b, c] * 64 + d"
  by (simp add: sextets_def)

lemma sextets_of:
  assumes "v < 2 ^ 24"
  shows "sextets [v div 2 ^ 18 mod 64, v div 2 ^ 12 mod 64] = v div 2 ^ 12"
    "sextets [v div 2 ^ 18 mod 64, v div 2 ^ 12 mod 64, v div 2 ^ 6 mod 64] = v div 2 ^ 6"
    "sextets [v div 2 ^ 18 mod 64, v div 2 ^ 12 mod 64, v div 2 ^ 6 mod 64, v mod 64] = v"
proof -
  have h: "x div (k * 64) * 64 + x div k mod 64 = x div k" for x k :: nat
    by (simp add: div_mult2_eq)
  have top: "v div 2 ^ 18 mod 64 = v div 2 ^ 18" using assms by (simp add: div_less_iff_less_mult)
  show 1: "sextets [v div 2 ^ 18 mod 64, v div 2 ^ 12 mod 64] = v div 2 ^ 12"
    unfolding top using h [of v "2 ^ 12"] by (simp add: sextets_def)
  show 2: "sextets [v div 2 ^ 18 mod 64, v div 2 ^ 12 mod 64, v div 2 ^ 6 mod 64] = v div 2 ^ 6"
    using 1 h [of v "2 ^ 6"] by (simp add: sextets_def)
  show "sextets [v div 2 ^ 18 mod 64, v div 2 ^ 12 mod 64, v div 2 ^ 6 mod 64, v mod 64] = v"
    using h [of v 1] sextets_snoc [of _ _ _ "v mod 64"] 2 by simp
qed

lemma decode_group:
  assumes "v < 2 ^ 24" "group_chars v = [c0, c1, c2, c3]"
  shows "base64_decode_quad c0 c1 c2 c3 = Some (be_bytes 3 v)"
    "base64_decode_quad c0 c1 c2 0x3d = Some (be_bytes 2 (v div 256))"
    "base64_decode_quad c0 c1 0x3d 0x3d = Some (be_bytes 1 (v div 65536))"
proof -
  have c: "c0 = b64_char (v div 2 ^ 18 mod 64)" "c1 = b64_char (v div 2 ^ 12 mod 64)"
    "c2 = b64_char (v div 2 ^ 6 mod 64)" "c3 = b64_char (v mod 64)"
    using assms(2) by (auto simp only: group_chars_def list.inject)
  have m: "b64_val (b64_char (n mod 64)) = Some (n mod 64)" for n by (rule b64_val_char) simp
  have d: "v div 2 ^ 6 div 4 = v div 256" "v div 2 ^ 12 div 16 = v div 65536"
    by (simp_all flip: div_mult2_eq)
  show "base64_decode_quad c0 c1 c2 c3 = Some (be_bytes 3 v)"
    "base64_decode_quad c0 c1 c2 0x3d = Some (be_bytes 2 (v div 256))"
    "base64_decode_quad c0 c1 0x3d 0x3d = Some (be_bytes 1 (v div 65536))"
    unfolding decode_quad quad_value_def c m b64_val_pad
    by (simp_all only: prod.case option.case sextets_of [OF assms(1)] d if_True HOL.simp_thms)
qed

section \<open>Blocks\<close>

abbreviation enc :: "bytes \<Rightarrow> bytes" where
  "enc \<equiv> EVP_EncodeBlock_loop"

lemma be_val_bounds: "be_val [s0, s1, s2] < 2 ^ 24"
  using be_val_less [of "[s0, s1, s2]"] by simp

lemma be_val_shift:
  "be_val [s0, s1, 0] div 256 = be_val [s0, s1]" "be_val [s0, 0, 0] div 65536 = be_val [s0]"
  by (simp_all add: be_val_Cons)

lemma be_bytes_vals:
  "be_bytes 3 (be_val [s0, s1, s2]) = [s0, s1, s2]" "be_bytes 2 (be_val [s0, s1]) = [s0, s1]"
  "be_bytes (Suc 0) (unat s0) = [s0]"
proof -
  show "be_bytes 3 (be_val [s0, s1, s2]) = [s0, s1, s2]" "be_bytes 2 (be_val [s0, s1]) = [s0, s1]"
    using be_bytes_be_val [of "[s0, s1, s2]"] be_bytes_be_val [of "[s0, s1]"]
    by (simp_all add: numeral_2_eq_2 numeral_3_eq_3 del: be_bytes.simps)
qed simp

lemma group_chars_four: obtains c0 c1 c2 c3 where "group_chars v = [c0, c1, c2, c3]"
  by (simp add: group_chars_def)

lemma decode_enc: "decode_quads out (enc xs) = (True, out @ xs)"
proof (induction xs arbitrary: out rule: EVP_EncodeBlock_loop.induct)
  case (2 s0)
  obtain c0 c1 c2 c3 where g: "group_chars (be_val [s0, 0, 0]) = [c0, c1, c2, c3]" by (rule group_chars_four)
  show ?case unfolding encode_group g
    by (simp add: decode_group [OF be_val_bounds g] be_val_shift be_bytes_vals del: be_bytes.simps)
next
  case (3 s0 s1)
  obtain c0 c1 c2 c3 where g: "group_chars (be_val [s0, s1, 0]) = [c0, c1, c2, c3]" by (rule group_chars_four)
  show ?case unfolding encode_group g
    by (simp add: numeral_3_eq_3 decode_group [OF be_val_bounds g] be_val_shift be_bytes_vals del: be_bytes.simps)
next
  case (4 s0 s1 s2 src)
  obtain c0 c1 c2 c3 where g: "group_chars (be_val [s0, s1, s2]) = [c0, c1, c2, c3]" by (rule group_chars_four)
  show ?case unfolding encode_group g
    by (simp add: decode_group [OF be_val_bounds g] be_bytes_vals 4 del: be_bytes.simps)
qed simp

lemma length_enc: "length (enc xs) = 4 * ((length xs + 2) div 3)"
proof (induction xs rule: EVP_EncodeBlock_loop.induct)
  case (4 s0 s1 s2 src)
  have "(length (s0 # s1 # s2 # src) + 2) div 3 = (length src + 2) div 3 + 1" by simp
  with 4 show ?case by (simp add: Let_def)
qed (simp_all add: Let_def)

lemma length_enc_mod: "length (enc xs) mod 4 = 0"
  by (simp add: length_enc)

lemma enc_append: "length xs mod 3 = 0 \<Longrightarrow> enc (xs @ ys) = enc xs @ enc ys"
  by (induction xs rule: EVP_EncodeBlock_loop.induct) (simp_all add: Let_def mod_Suc split: if_splits)

lemma block_enc: "EVP_EncodeBlock xs = (enc xs @ [0], length (enc xs))"
  by (simp add: EVP_EncodeBlock_def Let_def)

lemma put_line_enc: "put_line out xs = out @ enc xs @ [0x0a]"
  by (simp add: put_line_def block_enc)

text \<open>No character of the encoding is white space.\<close>

definition is_space :: "u8 \<Rightarrow> bool" where
  "is_space c \<longleftrightarrow> c \<in> {0x20, 0x09, 0x0d, 0x0a}"

definition strip :: "bytes \<Rightarrow> bytes" where
  "strip = filter (\<lambda>c. \<not> is_space c)"

lemma b64_char_space: "n < 64 \<Longrightarrow> \<not> is_space (b64_char n)"
  by (auto simp: is_space_def b64_char_def word_unat_eq_iff unat_of_nat split: if_splits)

lemma group_space: "c \<in> set (group_chars v) \<Longrightarrow> \<not> is_space c"
proof -
  assume "c \<in> set (group_chars v)"
  then have "\<exists>n. c = b64_char (n mod 64)" unfolding group_chars_def by (simp only: list.set) blast
  then show "\<not> is_space c" by (metis b64_char_space mod_less_divisor zero_less_numeral)
qed

lemma pad_space [simp]: "\<not> is_space 0x3d"
  by (simp add: is_space_def)

lemma strip_enc: "strip (enc xs) = enc xs"
proof -
  have "\<not> is_space c" if "c \<in> set (enc xs)" for c
    using that
  proof (induction xs rule: EVP_EncodeBlock_loop.induct)
    case (2 s0)
    then show ?case unfolding encode_group by (auto dest!: in_set_takeD group_space)
  next
    case (3 s0 s1)
    then show ?case unfolding encode_group by (auto dest!: in_set_takeD group_space)
  next
    case (4 s0 s1 s2 src)
    then show ?case unfolding encode_group by (auto dest!: group_space)
  qed simp
  then show ?thesis by (simp add: strip_def filter_id_conv)
qed

end
