(* ===== verification/Base64_Props.thy ===== *)
theory Base64_Props
  imports Base64
begin

text \<open>
  Streaming encoder and decoder against the block functions. The encoder's state stands for the bytes
  it holds back (\<open>pending\<close>); \<open>full_lines\<close> is the text of the complete lines of a message. The
  decoder's loop is a left-to-right evaluation of the quads of the input without its white space.
\<close>

section \<open>The streaming encoder\<close>

definition pending :: "encode_ctx \<Rightarrow> bytes" where
  "pending ctx = take (data_used ctx) (data ctx)"

definition encoder_wf :: "encode_ctx \<Rightarrow> bool" where
  "encoder_wf ctx \<longleftrightarrow> data_used ctx < 48 \<and> length (data ctx) = 48"

function full_lines :: "bytes \<Rightarrow> bytes" where
  "full_lines xs = (if length xs < 48 then [] else enc (take 48 xs) @ [0x0a] @ full_lines (drop 48 xs))"
  by pat_completeness auto
termination by (relation "measure length") auto

declare full_lines.simps [simp del]

definition rest_line :: "bytes \<Rightarrow> bytes" where
  "rest_line xs = drop (length xs div 48 * 48) xs"

text \<open>The text of a message: lines of 48 bytes, then what is left, each with a newline.\<close>

definition base64_text :: "bytes \<Rightarrow> bytes" where
  "base64_text xs = full_lines xs @ (if rest_line xs = [] then [] else enc (rest_line xs) @ [0x0a])"

lemma full_lines_short [simp]: "length xs < 48 \<Longrightarrow> full_lines xs = []"
  by (simp add: full_lines.simps)

lemma rest_line_short [simp]: "length xs < 48 \<Longrightarrow> rest_line xs = xs"
  by (simp add: rest_line_def)

lemma full_lines_line: "length xs = 48 \<Longrightarrow> full_lines (xs @ ys) = enc xs @ [0x0a] @ full_lines ys"
  by (subst full_lines.simps) simp

lemma rest_line_line: "length xs = 48 \<Longrightarrow> rest_line (xs @ ys) = rest_line ys"
proof -
  assume "length xs = 48"
  then have "length (xs @ ys) div 48 * 48 = length xs + length ys div 48 * 48" by (simp add: div_add_self1)
  then show ?thesis by (simp add: rest_line_def)
qed

lemma length_rest_line: "length (rest_line xs) < 48"
  by (simp add: rest_line_def minus_div_mult_eq_mod)

text \<open>Induction over the lines of a message.\<close>

lemma lines_induct [case_names short line]:
  assumes "\<And>xs. length xs < 48 \<Longrightarrow> P xs"
    and "\<And>xs ys :: bytes. length xs = 48 \<Longrightarrow> P ys \<Longrightarrow> P (xs @ ys)"
  shows "P xs"
proof (induction xs rule: length_induct)
  case (1 xs)
  show ?case
  proof (cases "length xs < 48")
    case False
    then have "P (take 48 xs @ drop 48 xs)" using 1 by (intro assms(2)) auto
    then show ?thesis by simp
  qed (rule assms(1))
qed

lemma full_lines_append: "full_lines (xs @ ys) = full_lines xs @ full_lines (rest_line xs @ ys)"
  by (induction xs rule: lines_induct) (simp_all add: full_lines_line rest_line_line)

lemma rest_line_append: "rest_line (xs @ ys) = rest_line (rest_line xs @ ys)"
  by (induction xs rule: lines_induct) (simp_all add: rest_line_line)

lemma length_full_lines: "length (full_lines xs) = 65 * (length xs div 48)"
  by (induction xs rule: lines_induct) (simp_all add: full_lines_line length_enc div_add_self1)

lemma encode_lines:
  assumes "tot + length (full_lines inp) < 2 ^ 64"
  shows "encode_lines out tot inp = Inr (out @ full_lines inp, rest_line inp, tot + length (full_lines inp))"
  using assms
proof (induction inp arbitrary: out tot rule: lines_induct)
  case (line xs ys)
  then have "length (enc xs) = 64" by (simp add: length_enc)
  moreover from this line have "size_add tot 65 = tot + 65" by (simp add: size_add_def full_lines_line)
  ultimately show ?case
    using line by (subst encode_lines.simps) (simp add: block_enc put_line_enc full_lines_line rest_line_line Let_def)
qed (simp add: encode_lines.simps)

lemma put_data_pending:
  assumes "encoder_wf ctx" "data_used ctx + length inp \<le> 48"
  shows "take (data_used ctx + length inp) (data (put_data (data_used ctx) inp ctx)) = pending ctx @ inp"
    "length (data (put_data (data_used ctx) inp ctx)) = 48"
  using assms by (simp_all add: encoder_wf_def put_data_def pending_def min_def)

lemma pending_length: "encoder_wf ctx \<Longrightarrow> length (pending ctx) = data_used ctx"
  by (simp add: pending_def encoder_wf_def)

lemma rest_data:
  assumes "length (data ctx) = 48" "length inp < 48"
  shows "encoder_wf ((if inp \<noteq> [] then put_data 0 inp ctx else ctx)\<lparr>data_used := length inp\<rparr>)"
    "pending ((if inp \<noteq> [] then put_data 0 inp ctx else ctx)\<lparr>data_used := length inp\<rparr>) = inp"
  using assms by (auto simp: encoder_wf_def pending_def put_data_def)

lemma length_lines_bound:
  assumes "n < 2 ^ 62 + 48"
  shows "65 * (n div 48) < (2 ^ 64 :: nat)"
proof -
  have "48 * (65 * (n div 48)) \<le> 65 * n" using div_times_less_eq_dividend [of n 48] by (simp add: algebra_simps)
  also have "\<dots> < 48 * 2 ^ 64" using assms by simp
  finally show ?thesis by simp
qed

lemma encode_update:
  assumes "encoder_wf ctx" "length inp < 2 ^ 62"
  shows "\<exists>ctx'. EVP_EncodeUpdate ctx inp = Some (ctx', full_lines (pending ctx @ inp),
      if length (full_lines (pending ctx @ inp)) > INT_MAX then 0 else length (full_lines (pending ctx @ inp))) \<and>
    encoder_wf ctx' \<and> pending ctx' = rest_line (pending ctx @ inp)"
proof -
  let ?p = "pending ctx" and ?n = "data_used ctx"
  have p: "length ?p = ?n" "?n < 48" "length (data ctx) = 48"
    using assms(1) by (simp_all add: pending_length) (simp_all add: encoder_wf_def)
  consider "inp = []" | "inp \<noteq> []" "length inp < 48 - ?n" | "inp \<noteq> []" "\<not> length inp < 48 - ?n" "?n = 0"
    | "inp \<noteq> []" "\<not> length inp < 48 - ?n" "?n \<noteq> 0" by blast
  then show ?thesis
  proof cases
    case 1
    then show ?thesis using assms(1) p by (simp add: EVP_EncodeUpdate_def)
  next
    case 2
    define ctx' where "ctx' = (put_data ?n inp ctx)\<lparr>data_used := ?n + length inp\<rparr>"
    have "encoder_wf ctx'" "pending ctx' = ?p @ inp"
      using put_data_pending [OF assms(1), of inp] 2 by (simp_all add: ctx'_def encoder_wf_def pending_def)
    moreover have "EVP_EncodeUpdate ctx inp = Some (ctx', [], 0)"
      using 2 p by (simp add: EVP_EncodeUpdate_def ctx'_def)
    ultimately show ?thesis using 2 p by simp
  next
    case 3
    have b: "0 + length (full_lines inp) < 2 ^ 64"
      using assms(2) length_lines_bound [of "length inp"] by (simp add: length_full_lines)
    have "pending ctx = []" using 3 by (simp add: pending_def)
    then show ?thesis
      using 3 p encode_lines [OF b] rest_data [OF p(3) length_rest_line [of inp]]
      by (simp add: EVP_EncodeUpdate_def)
  next
    case 4
    define todo ctx1 where "todo = 48 - ?n" and "ctx1 = put_data ?n (take todo inp) ctx"
    have t: "?n + length (take todo inp) = 48" using 4 p by (simp add: todo_def)
    have d: "data ctx1 = ?p @ take todo inp" "length (data ctx1) = 48"
      using put_data_pending [OF assms(1), of "take todo inp"] t by (simp_all add: ctx1_def)
    have i: "?p @ inp = data ctx1 @ drop todo inp" by (simp add: d)
    have fl: "full_lines (?p @ inp) = enc (data ctx1) @ [0x0a] @ full_lines (drop todo inp)"
      "rest_line (?p @ inp) = rest_line (drop todo inp)"
      unfolding i using d(2) by (simp_all add: full_lines_line rest_line_line)
    have le: "length (enc (data ctx1)) = 64" using d(2) by (simp add: length_enc)
    have b: "65 + length (full_lines (drop todo inp)) < 2 ^ 64"
      using length_lines_bound [of "48 + (length inp - todo)"] assms(2) by (simp add: length_full_lines div_add_self1)
    define ctx2 where "ctx2 = ctx1\<lparr>data_used := 0\<rparr>"
    have "length (data ctx2) = 48" using d by (simp add: ctx2_def)
    note r = rest_data [OF this length_rest_line [of "drop todo inp"]]
    have "EVP_EncodeUpdate ctx inp =
        (case encode_lines (put_line [] (data ctx1)) 65 (drop todo inp) of Inl out \<Rightarrow> Some (ctx2, out, 0)
         | Inr (out, inp, tot) \<Rightarrow>
             Some ((if inp \<noteq> [] then put_data 0 inp ctx2 else ctx2)\<lparr>data_used := length inp\<rparr>, out,
                       if tot > INT_MAX then 0 else tot))"
      using 4 p le by (simp add: EVP_EncodeUpdate_def block_enc Let_def flip: todo_def ctx1_def ctx2_def)
    then show ?thesis
      unfolding encode_lines [OF b] using r le by (simp add: fl put_line_enc)
  qed
qed

lemma encode_final:
  assumes "encoder_wf ctx"
  shows "\<exists>ctx'. EVP_EncodeFinal ctx = Some (ctx', if pending ctx = [] then [] else enc (pending ctx) @ [0x0a],
      if pending ctx = [] then 0 else length (enc (pending ctx)) + 1) \<and> encoder_wf ctx' \<and> pending ctx' = []"
proof -
  have p: "length (pending ctx) = data_used ctx" "data_used ctx < 48"
    using assms by (simp_all add: pending_length) (simp add: encoder_wf_def)
  have "length (enc (pending ctx)) \<le> 64" using p by (simp add: length_enc)
  then show ?thesis
    using assms p
    by (auto simp: EVP_EncodeFinal_def block_enc put_line_enc INT_MAX_def encoder_wf_def pending_def Let_def)
qed

text \<open>A client that encodes a message in chunks and keeps \<open>out_len\<close> bytes of each output.\<close>

fun encode_stream :: "encode_ctx \<Rightarrow> bytes list \<Rightarrow> bytes option" where
  "encode_stream ctx [] =
    (case EVP_EncodeFinal ctx of None \<Rightarrow> None | Some (_, out, n) \<Rightarrow> Some (take n out))"
| "encode_stream ctx (c # cs) =
    (case EVP_EncodeUpdate ctx c of None \<Rightarrow> None
     | Some (ctx, out, n) \<Rightarrow> map_option ((@) (take n out)) (encode_stream ctx cs))"

definition chunk_ok :: "bytes \<Rightarrow> bool" where
  "chunk_ok c \<longleftrightarrow> length c \<le> 1500000000"

lemma base64_text_append: "base64_text (xs @ ys) = full_lines xs @ base64_text (rest_line xs @ ys)"
  by (simp add: base64_text_def full_lines_append [of xs ys] rest_line_append [of xs ys])

lemma encode_stream_pending:
  assumes "encoder_wf ctx" "\<And>c. c \<in> set cs \<Longrightarrow> chunk_ok c"
  shows "encode_stream ctx cs = Some (base64_text (pending ctx @ concat cs))"
  using assms
proof (induction cs arbitrary: ctx)
  case Nil
  then have "length (pending ctx) < 48" by (simp add: pending_length) (simp add: encoder_wf_def)
  moreover obtain ctx' where "EVP_EncodeFinal ctx = Some (ctx', if pending ctx = [] then [] else enc (pending ctx) @ [0x0a],
      if pending ctx = [] then 0 else length (enc (pending ctx)) + 1)"
    using encode_final [OF Nil(1)] by blast
  ultimately show ?case by (simp add: base64_text_def)
next
  case (Cons c cs)
  let ?o = "full_lines (pending ctx @ c)"
  have l: "length c \<le> 1500000000" using Cons.prems(2) [of c] by (simp add: chunk_ok_def)
  then obtain ctx' where u: "EVP_EncodeUpdate ctx c = Some (ctx', ?o, if length ?o > INT_MAX then 0 else length ?o)"
    "encoder_wf ctx'" "pending ctx' = rest_line (pending ctx @ c)"
    using encode_update [OF Cons.prems(1), of c] by auto
  have "length (pending ctx) < 48" using Cons.prems(1) by (simp add: pending_length) (simp add: encoder_wf_def)
  then have "length ?o \<le> 65 * (1500000048 div 48)"
    unfolding length_full_lines using l by (intro mult_le_mono2 div_le_mono) simp
  then have "\<not> length ?o > INT_MAX" by (simp add: INT_MAX_def)
  then show ?case
    using u Cons.IH [OF u(2)] Cons.prems(2) base64_text_append [of "pending ctx @ c" "concat cs"] by simp
qed

lemma encoder_init: "encoder_wf EVP_EncodeInit" "pending EVP_EncodeInit = []"
  by (simp_all add: encoder_wf_def pending_def EVP_EncodeInit_def)

section \<open>The streaming decoder\<close>

text \<open>The quads of an input without white space: the bytes, the incomplete quad at the end, and whether a
  padded quad ended the data.\<close>

fun quads :: "bool \<Rightarrow> bytes \<Rightarrow> bytes \<Rightarrow> (bytes \<times> bytes \<times> bool) option" where
  "quads False out (a # b # c # d # q) =
    (case base64_decode_quad a b c d of None \<Rightarrow> None | Some bs \<Rightarrow> quads (length bs < 3) (out @ bs) q)"
| "quads e out q = (if e \<and> q \<noteq> [] then None else Some (out, q, e))"

definition decoder_wf :: "encode_ctx \<Rightarrow> bool" where
  "decoder_wf ctx \<longleftrightarrow> data_used ctx < 4 \<and> length (data ctx) = 48 \<and> (eof_seen ctx \<longrightarrow> data_used ctx = 0) \<and>
     \<not> error_encountered ctx"

lemma strip_simps [simp]:
  "strip [] = []" "strip (c # cs) = (if is_space c then strip cs else c # strip cs)"
  "strip (xs @ ys) = strip xs @ strip ys"
  by (simp_all add: strip_def)

lemma quads_True [simp]: "quads True out q = (if q = [] then Some (out, [], True) else None)"
  by simp

lemma quads_short [simp]: "length q < 4 \<Longrightarrow> quads False out q = Some (out, q, False)"
  by (cases "(False, out, q)" rule: quads.cases) auto

lemma pending_put:
  assumes "data_used ctx < length (data ctx)"
  shows "pending (ctx\<lparr>data := (data ctx)[data_used ctx := c], data_used := data_used ctx + 1\<rparr>) = pending ctx @ [c]"
  using assms by (simp add: pending_def take_Suc_conv_app_nth)

lemma take4: "4 \<le> length xs \<Longrightarrow> take 4 xs = [xs ! 0, xs ! 1, xs ! 2, xs ! 3]"
  by (intro nth_equalityI) (auto simp: less_Suc_eq numeral_eq_Suc)

text \<open>What the loop's result means, and the invariant it keeps.\<close>

definition loop_value :: "encode_ctx \<times> bytes + encode_ctx \<times> bytes \<Rightarrow> (bytes \<times> bytes \<times> bool) option" where
  "loop_value r = (case r of Inl _ \<Rightarrow> None | Inr (ctx, out) \<Rightarrow> Some (out, pending ctx, eof_seen ctx))"

definition loop_wf :: "encode_ctx \<times> bytes + encode_ctx \<times> bytes \<Rightarrow> bool" where
  "loop_wf r = (case r of Inl (ctx, _) \<Rightarrow> error_encountered ctx | Inr (ctx, _) \<Rightarrow> decoder_wf ctx)"

lemma loop_simps [simp]:
  "loop_value (Inl r) = None" "loop_value (Inr (ctx, out)) = Some (out, pending ctx, eof_seen ctx)"
  "loop_wf (Inl (ctx, out)) = error_encountered ctx" "loop_wf (Inr (ctx, out)) = decoder_wf ctx"
  by (simp_all add: loop_value_def loop_wf_def)

lemma decode_loop:
  assumes "decoder_wf ctx"
  shows "quads (eof_seen ctx) out (pending ctx @ strip inp) = loop_value (decode_update_loop ctx out inp) \<and>
    loop_wf (decode_update_loop ctx out inp)"
  using assms
proof (induction inp arbitrary: ctx out)
  case Nil
  then show ?case by (auto simp: decoder_wf_def pending_def)
next
  case (Cons c inp)
  note wf = Cons.prems
  define ctx1 where "ctx1 = ctx\<lparr>data := (data ctx)[data_used ctx := c], data_used := data_used ctx + 1\<rparr>"
  have p1: "pending ctx1 = pending ctx @ [c]" using wf by (auto simp: ctx1_def decoder_wf_def intro!: pending_put [simplified])
  consider "is_space c" | "\<not> is_space c" "eof_seen ctx" | "\<not> is_space c" "\<not> eof_seen ctx" "data_used ctx \<noteq> 3"
    | "\<not> is_space c" "\<not> eof_seen ctx" "data_used ctx = 3" by blast
  then show ?case
  proof cases
    case 1
    then have "decode_update_loop ctx out (c # inp) = decode_update_loop ctx out inp" by (simp add: is_space_def)
    then show ?thesis using 1 Cons.IH [OF wf, of out] by (simp del: decode_update_loop.simps)
  next
    case 2
    then show ?thesis using wf by (simp add: is_space_def decoder_wf_def pending_def)
  next
    case 3
    then have "decoder_wf ctx1" using wf by (auto simp: ctx1_def decoder_wf_def)
    moreover have "decode_update_loop ctx out (c # inp) = decode_update_loop ctx1 out inp"
      using 3 by (simp add: is_space_def ctx1_def)
    moreover have "eof_seen ctx1 = eof_seen ctx" by (simp add: ctx1_def)
    ultimately show ?thesis using Cons.IH [of ctx1 out] 3 p1 by (simp del: decode_update_loop.simps)
  next
    case 4
    have l: "length (data ctx1) = 48" "data_used ctx1 = 4" using 4 wf by (simp_all add: ctx1_def decoder_wf_def)
    then have d: "pending ctx @ [c] = [data ctx1 ! 0, data ctx1 ! 1, data ctx1 ! 2, data ctx1 ! 3]"
      using p1 take4 [of "data ctx1"] by (simp add: pending_def)
    let ?q = "base64_decode_quad (data ctx1 ! 0) (data ctx1 ! 1) (data ctx1 ! 2) (data ctx1 ! 3)"
    have q: "quads False out (pending ctx @ strip (c # inp)) =
        (case ?q of None \<Rightarrow> None | Some bs \<Rightarrow> quads (length bs < 3) (out @ bs) (strip inp))"
      using 4 arg_cong [OF d, of "\<lambda>x. x @ strip inp"] by simp
    have loop: "decode_update_loop ctx out (c # inp) =
        (case ?q of None \<Rightarrow> Inl (ctx1\<lparr>error_encountered := True\<rparr>, out)
         | Some bs \<Rightarrow> decode_update_loop (if length bs < 3 then ctx1\<lparr>data_used := 0, eof_seen := True\<rparr>
             else ctx1\<lparr>data_used := 0\<rparr>) (out @ bs) inp)"
      using 4(1,2) l(2) by (simp only: decode_update_loop.simps is_space_def [symmetric] ctx1_def [symmetric] Let_def
        if_False if_True refl)
    show ?thesis
    proof (cases ?q)
      case None
      then have "decode_update_loop ctx out (c # inp) = Inl (ctx1\<lparr>error_encountered := True\<rparr>, out)"
        unfolding loop by simp
      then show ?thesis using q 4 None by (simp del: decode_update_loop.simps add: ctx1_def)
    next
      case (Some bs)
      define ctx2 where "ctx2 = (if length bs < 3 then ctx1\<lparr>data_used := 0, eof_seen := True\<rparr> else ctx1\<lparr>data_used := 0\<rparr>)"
      have "decode_update_loop ctx out (c # inp) = decode_update_loop ctx2 (out @ bs) inp"
        unfolding loop using Some by (simp add: ctx2_def)
      moreover have "decoder_wf ctx2" "pending ctx2 = []" "eof_seen ctx2 \<longleftrightarrow> length bs < 3"
        using wf l 4 by (auto simp: decoder_wf_def ctx2_def ctx1_def pending_def)
      ultimately show ?thesis using q 4 Some Cons.IH [of ctx2 "out @ bs"] by (simp del: decode_update_loop.simps)
    qed
  qed
qed


lemma quads_append:
  "quads e out (q @ r) = (case quads e out q of None \<Rightarrow> None | Some (out, p, e) \<Rightarrow> quads e out (p @ r))"
proof (induction e out q rule: quads.induct)
  case (1 out a b c d q)
  then show ?case by (cases "base64_decode_quad a b c d") simp_all
qed simp_all

lemma quads_out: "quads e (x @ out) q = map_option (\<lambda>(bs, r). (x @ bs, r)) (quads e out q)"
proof (induction e out q rule: quads.induct)
  case (1 out a b c d q)
  then show ?case by (cases "base64_decode_quad a b c d") simp_all
qed simp_all

lemma quad_length: "base64_decode_quad a b c d = Some bs \<Longrightarrow> length bs \<le> 3"
  by (auto simp: decode_quad quad_value_def simp del: be_bytes.simps split: option.splits if_splits)

lemma quads_length: "quads e out q = Some (out', p, e') \<Longrightarrow> length out' + length p \<le> length out + length q"
proof (induction e out q rule: quads.induct)
  case (1 out a b c d q)
  then show ?case by (cases "base64_decode_quad a b c d") (auto dest: quad_length)
qed (auto split: if_splits)

text \<open>On whole quads the two decoders agree.\<close>

lemma quads_decode:
  "length q mod 4 = 0 \<Longrightarrow> case quads False out q of
     Some (out', p, _) \<Rightarrow> p = [] \<and> decode_quads out q = (True, out') | None \<Rightarrow> \<not> fst (decode_quads out q)"
proof (induction out q rule: decode_quads.induct)
  case (1 out a b c d q)
  show ?case
  proof (cases "base64_decode_quad a b c d")
    case (Some bs)
    show ?thesis
    proof (cases "length bs \<noteq> 3 \<and> q \<noteq> []")
      case True
      then show ?thesis using Some quad_length [OF Some] by simp
    next
      case False
      then have "decode_quads out (a # b # c # d # q) = decode_quads (out @ bs) q"
        "quads False out (a # b # c # d # q) = (if length bs < 3 then Some (out @ bs, [], True) else quads False (out @ bs) q)"
        using Some by auto
      then show ?thesis using 1 Some False by (cases "length bs = 3") (auto split: option.splits)
    qed
  qed simp
qed simp_all

lemma quads_pending: "quads e out q = Some (out', p, e') \<Longrightarrow> length p mod 4 = length q mod 4"
  by (induction e out q rule: quads.induct) (auto split: if_splits option.splits)

text \<open>A client that decodes its input in chunks.\<close>

fun decode_stream :: "encode_ctx \<Rightarrow> bytes list \<Rightarrow> bytes option" where
  "decode_stream ctx [] = (if EVP_DecodeFinal ctx = 1 then Some [] else None)"
| "decode_stream ctx (c # cs) =
    (let (r, ctx, out, n) = EVP_DecodeUpdate ctx c
     in if r = - 1 then None else map_option ((@) (take n out)) (decode_stream ctx cs))"

lemma decode_stream_quads:
  assumes "decoder_wf ctx" "\<And>c. c \<in> set cs \<Longrightarrow> chunk_ok c"
  shows "decode_stream ctx cs =
    (case quads (eof_seen ctx) [] (pending ctx @ strip (concat cs)) of
       Some (out, [], _) \<Rightarrow> Some out | _ \<Rightarrow> None)"
  using assms
proof (induction cs arbitrary: ctx)
  case Nil
  then have "length (pending ctx) = data_used ctx" "data_used ctx < 4"
    by (auto simp: decoder_wf_def pending_def)
  then show ?case using Nil
    by (cases "eof_seen ctx"; cases "pending ctx") (auto simp: decoder_wf_def EVP_DecodeFinal_def)
next
  case (Cons c cs)
  have l: "length c \<le> 1500000000" using Cons.prems(2) [of c] by (simp add: chunk_ok_def)
  have a: "pending ctx @ strip (concat (c # cs)) = (pending ctx @ strip c) @ strip (concat cs)" by simp
  have e: "\<not> error_encountered ctx" using Cons.prems(1) by (simp add: decoder_wf_def)
  note d = decode_loop [OF Cons.prems(1), of "[]" c]
  show ?case
  proof (cases "decode_update_loop ctx [] c")
    case (Inl r)
    then show ?thesis
      using d quads_append [of "eof_seen ctx" "[]" "pending ctx @ strip c" "strip (concat cs)"] unfolding a by (cases r) (simp add: EVP_DecodeUpdate_def e)
  next
    case (Inr r)
    then obtain ctx' out where r: "decode_update_loop ctx [] c = Inr (ctx', out)" by (cases r) simp
    with d have q: "quads (eof_seen ctx) [] (pending ctx @ strip c) = Some (out, pending ctx', eof_seen ctx')"
      and wf: "decoder_wf ctx'" by simp_all
    have "length (pending ctx) \<le> 4" using Cons.prems(1) by (simp add: decoder_wf_def pending_def)
    then have "length out \<le> 4 + length (strip c)" using quads_length [OF q] by simp
    moreover have "length (strip c) \<le> length c" by (simp add: strip_def)
    ultimately have "\<not> length out > INT_MAX" using l by (simp add: INT_MAX_def)
    then have "decode_stream ctx (c # cs) = map_option ((@) out) (decode_stream ctx' cs)"
      using r e by (simp add: EVP_DecodeUpdate_def)
    also have "decode_stream ctx' cs = (case quads (eof_seen ctx') [] (pending ctx' @ strip (concat cs)) of
       Some (out, [], _) \<Rightarrow> Some out | _ \<Rightarrow> None)"
      using Cons.prems(2) by (intro Cons.IH [OF wf]) simp
    finally have s: "decode_stream ctx (c # cs) = map_option ((@) out)
        (case quads (eof_seen ctx') [] (pending ctx' @ strip (concat cs)) of Some (out, [], _) \<Rightarrow> Some out | _ \<Rightarrow> None)" .
    have "quads (eof_seen ctx') out (pending ctx' @ strip (concat cs)) =
        map_option (\<lambda>(bs, r). (out @ bs, r)) (quads (eof_seen ctx') [] (pending ctx' @ strip (concat cs)))"
      using quads_out [of "eof_seen ctx'" out "[]"] by simp
    then have "quads (eof_seen ctx) [] (pending ctx @ strip (concat (c # cs))) =
        map_option (\<lambda>(bs, r). (out @ bs, r)) (quads (eof_seen ctx') [] (pending ctx' @ strip (concat cs)))"
      using quads_append [of "eof_seen ctx" "[]" "pending ctx @ strip c" "strip (concat cs)"] q unfolding a by simp
    then show ?thesis
      unfolding s by (cases "quads (eof_seen ctx') [] (pending ctx' @ strip (concat cs))")
        (auto split: list.splits)
  qed
qed


lemma decoder_init: "decoder_wf EVP_DecodeInit" "pending EVP_DecodeInit = []" "eof_seen EVP_DecodeInit = False"
  by (simp_all add: decoder_wf_def pending_def EVP_DecodeInit_def)

lemma strip_text: "strip (base64_text xs) = enc xs"
proof (induction xs rule: lines_induct)
  case (short xs)
  then show ?case by (simp add: base64_text_def strip_enc is_space_def)
next
  case (line xs ys)
  then have "base64_text (xs @ ys) = enc xs @ [0x0a] @ base64_text ys"
    by (simp add: base64_text_def full_lines_line rest_line_line)
  with line show ?case by (simp add: enc_append strip_enc is_space_def)
qed

lemma decode_stream_init:
  assumes "\<And>c. c \<in> set cs \<Longrightarrow> chunk_ok c"
  shows "decode_stream EVP_DecodeInit cs =
    (let text = strip (concat cs)
     in if length text mod 4 = 0 \<and> fst (decode_quads [] text) then Some (snd (decode_quads [] text)) else None)"
proof -
  let ?t = "strip (concat cs)"
  have "decode_stream EVP_DecodeInit cs = (case quads False [] ?t of Some (out, [], _) \<Rightarrow> Some out | _ \<Rightarrow> None)"
    using decode_stream_quads [OF decoder_init(1), of cs] assms by (simp add: decoder_init)
  also have "\<dots> = (if length ?t mod 4 = 0 \<and> fst (decode_quads [] ?t) then Some (snd (decode_quads [] ?t)) else None)"
  proof (cases "quads False [] ?t")
    case None
    then show ?thesis using quads_decode [of ?t "[]"] by auto
  next
    case (Some r)
    then obtain out p e where r: "quads False [] ?t = Some (out, p, e)" by (cases r) auto
    have "p \<noteq> []" if "length ?t mod 4 \<noteq> 0" using quads_pending [OF r] that by auto
    then show ?thesis using quads_decode [of ?t "[]"] r by (cases "length ?t mod 4 = 0") (auto split: list.splits)
  qed
  finally show ?thesis by (simp add: Let_def)
qed

lemma decode_base64:
  assumes "length inp div 4 * 3 \<le> max_out"
  shows "fst (EVP_DecodeBase64 max_out inp) \<longleftrightarrow> length inp mod 4 = 0 \<and> fst (decode_quads [] inp)"
    "fst (EVP_DecodeBase64 max_out inp) \<Longrightarrow> fst (snd (EVP_DecodeBase64 max_out inp)) = snd (decode_quads [] inp)"
  using assms by (auto simp: EVP_DecodeBase64_def EVP_DecodedLength_def split: prod.splits if_splits bool.splits)

lemma sample_text: "base64_text (concat [[77], [97, 110]]) = [0x54, 0x57, 0x46, 0x75, 0x0a]"
proof -
  have "enc [77, 97, 110] = [0x54, 0x57, 0x46, 0x75]"
    unfolding encode_group(3) by (simp add: group_chars_def be_val_Cons b64_char_def)
  then show ?thesis by (simp add: base64_text_def)
qed

section \<open>Properties\<close>

text \<open>The branch-free conversions are the table of RFC 4648: the encoder maps every byte to the
  character of its low six bits, and the decoder maps every character to its value, padding to 0 and
  everything else to \<open>0xff\<close>.\<close>

theorem base64_alphabet:
  "conv_bin2ascii a = b64_char (unat a mod 64) \<and>
   base64_ascii_to_bin c = (case b64_val c of Some n \<Rightarrow> of_nat n | None \<Rightarrow> if c = 0x3d then 0 else 0xff)"
  by (simp add: conv_bin2ascii ascii_to_bin)

text \<open>\<open>EVP_DecodeBase64\<close> is a left inverse of \<open>EVP_EncodeBlock\<close>: for every byte string and an output area
  of the size \<open>EVP_DecodedLength\<close> asks for, it succeeds and returns exactly the bytes.\<close>

theorem base64_roundtrip:
  assumes "EVP_DecodedLength (snd (EVP_EncodeBlock xs)) = Some n" "n \<le> max_out"
  shows "EVP_DecodeBase64 max_out (take (snd (EVP_EncodeBlock xs)) (fst (EVP_EncodeBlock xs))) = (True, xs, length xs)"
  using assms by (auto simp: block_enc EVP_DecodeBase64_def decode_enc EVP_DecodedLength_def split: if_splits)

theorem base64_roundtrip_witness:
  "EVP_DecodeBase64 6 (take (snd (EVP_EncodeBlock [1, 2, 3, 250])) (fst (EVP_EncodeBlock [1, 2, 3, 250]))) =
    (True, [1, 2, 3, 250], 4)"
  using base64_roundtrip [of "[1, 2, 3, 250]" 6 6] by (simp add: block_enc length_enc EVP_DecodedLength_def)

text \<open>\<open>EVP_EncodedLength\<close> returns exactly the number of bytes \<open>EVP_EncodeBlock\<close> writes, its NUL included,
  and fails exactly when that number does not fit in \<open>size_t\<close>.\<close>

theorem encoded_length:
  assumes "length src < 2 ^ 64"
  shows "EVP_EncodedLength (length src) =
    (if length (fst (EVP_EncodeBlock src)) < 2 ^ 64 then Some (length (fst (EVP_EncodeBlock src))) else None)"
proof -
  define n where "n = length src"
  define k where "k = (n + 2) div 3"
  have n: "n < 18446744073709551616" using assms by (simp add: n_def)
  have l: "length (fst (EVP_EncodeBlock src)) = 4 * k + 1" by (simp add: block_enc length_enc n_def k_def)
  consider "18446744073709551616 \<le> n + 2" | "n + 2 < 18446744073709551616" "4 * k < 18446744073709551616"
    | "n + 2 < 18446744073709551616" "\<not> 4 * k < 18446744073709551616" by linarith
  then have "EVP_EncodedLength n = (if 4 * k + 1 < 2 ^ 64 then Some (4 * k + 1) else None)"
  proof cases
    case 1
    then have "18446744073709551616 div 3 \<le> k" unfolding k_def by (intro div_le_mono)
    then have "\<not> 4 * k + 1 < 2 ^ 64" by simp
    then show ?thesis using size_add_overflow_iff [of n 2] 1 n by (simp add: EVP_EncodedLength_def)
  next
    case 2
    have "4 * k \<noteq> 18446744073709551615" by presburger
    then have f: "4 * k + 1 < 18446744073709551616" using 2(2) by linarith
    have "size_add n 2 = n + 2" "size_add (4 * k) 1 = 4 * k + 1" using 2(1) f by (simp_all add: size_add_def)
    moreover have "(n + 2) div 3 * 4 mod 2 ^ 64 = 4 * k" "4 * k div 4 = k" using 2(2) by (simp_all only: mult.commute [of _ 4] k_def [symmetric]) simp_all
    ultimately show ?thesis
      using f unfolding EVP_EncodedLength_def Let_def by (simp add: k_def [symmetric] mult.commute [of k] del: add_2_eq_Suc')
  next
    case 3
    have "k < 18446744073709551616" using n unfolding k_def by (simp add: div_less_iff_less_mult)
    have "4 * k mod 18446744073709551616 < 18446744073709551616" by simp
    then have "(4 * k mod 18446744073709551616) div 4 < 4611686018427387904" by (simp add: div_less_iff_less_mult)
    moreover have "4611686018427387904 \<le> k" using 3(2) by simp
    ultimately have "(4 * k mod 18446744073709551616) div 4 \<noteq> k" by linarith
    moreover have "size_add n 2 = n + 2" using 3(1) by (simp add: size_add_def)
    ultimately show ?thesis
      using 3(2) unfolding EVP_EncodedLength_def Let_def
      by (simp add: k_def [symmetric] mult.commute [of k] del: add_2_eq_Suc')
  qed
  then show ?thesis by (simp add: l flip: n_def)
qed

theorem encoded_length_witness: "EVP_EncodedLength 4 = Some 9"
proof -
  have l: "length ([1, 2, 3, 250] :: bytes) = 4" by simp
  show ?thesis using encoded_length [of "[1, 2, 3, 250]"] unfolding l by (simp add: block_enc length_enc)
qed

text \<open>The streaming encoder's output does not depend on how the message is cut into chunks: it is the
  text of the message in lines of 48 bytes. No assertion fails on the way.\<close>

theorem base64_encode_stream:
  assumes "\<forall>c \<in> set chunks. length c \<le> 1500000000"
  shows "encode_stream EVP_EncodeInit chunks = Some (base64_text (concat chunks))"
  using encode_stream_pending [OF encoder_init(1), of chunks] assms by (simp add: encoder_init chunk_ok_def)

theorem base64_encode_stream_witness:
  "encode_stream EVP_EncodeInit [[77], [97, 110]] = Some [0x54, 0x57, 0x46, 0x75, 0x0a]"
proof -
  have "encode_stream EVP_EncodeInit [[77], [97, 110]] = Some (base64_text (concat [[77], [97, 110]]))"
    by (rule base64_encode_stream) simp
  then show ?thesis by (simp only: sample_text)
qed

text \<open>The streaming decoder accepts an input, in whatever chunks, exactly when \<open>EVP_DecodeBase64\<close> accepts
  the input without its white space, and returns the same bytes.\<close>

theorem base64_decode_stream:
  assumes "\<forall>c \<in> set chunks. length c \<le> 1500000000" "length (strip (concat chunks)) div 4 * 3 \<le> max_out"
  shows "decode_stream EVP_DecodeInit chunks =
    (case EVP_DecodeBase64 max_out (strip (concat chunks)) of (ok, out, _) \<Rightarrow> if ok then Some out else None)"
  using decode_stream_init [of chunks] decode_base64 [OF assms(2)] assms(1)
  by (auto simp: chunk_ok_def Let_def split: prod.splits)

theorem base64_decode_stream_witness:
  "decode_stream EVP_DecodeInit [[0x54, 0x57], [0x20, 0x46, 0x75, 0x0a]] =
    (case EVP_DecodeBase64 3 [0x54, 0x57, 0x46, 0x75] of (ok, out, _) \<Rightarrow> if ok then Some out else None)"
proof -
  have "strip (concat [[0x54, 0x57], [0x20, 0x46, 0x75, 0x0a]]) = [0x54, 0x57, 0x46, 0x75]"
    by (simp add: is_space_def)
  then show ?thesis
    using base64_decode_stream [of "[[0x54, 0x57], [0x20, 0x46, 0x75, 0x0a]]" 3] by (simp del: decode_stream.simps)
qed

text \<open>C10. The streams are inverse: whatever chunks the encoder's output is cut into, the streaming decoder
  returns the message.\<close>

theorem base64_stream_roundtrip:
  assumes "\<forall>c \<in> set chunks \<union> set pieces. length c \<le> 1500000000"
    "encode_stream EVP_EncodeInit chunks = Some (concat pieces)"
  shows "decode_stream EVP_DecodeInit pieces = Some (concat chunks)"
proof -
  have "concat pieces = base64_text (concat chunks)"
    using encode_stream_pending [OF encoder_init(1), of chunks] assms by (simp add: encoder_init chunk_ok_def)
  then have "strip (concat pieces) = enc (concat chunks)" by (simp add: strip_text)
  then show ?thesis
    using decode_stream_init [of pieces] assms(1) by (simp add: chunk_ok_def length_enc_mod decode_enc)
qed

theorem base64_stream_roundtrip_witness:
  "decode_stream EVP_DecodeInit [[0x54], [0x57, 0x46, 0x75, 0x0a]] = Some [77, 97, 110]"
proof -
  have "encode_stream EVP_EncodeInit [[77], [97, 110]] = Some (concat [[0x54], [0x57, 0x46, 0x75, 0x0a]])"
    by (subst encode_stream_pending [OF encoder_init(1)])
      (auto simp: sample_text encoder_init chunk_ok_def simp del: concat.simps, simp add: sample_text [simplified])
  then have "decode_stream EVP_DecodeInit [[0x54], [0x57, 0x46, 0x75, 0x0a]] = Some (concat [[77], [97, 110]])"
    by (intro base64_stream_roundtrip) auto
  then show ?thesis by (simp del: decode_stream.simps)
qed

end
