(* ===== verification/LHash.thy ===== *)
theory LHash
  imports Mem "HOL-Library.Multiset"
begin

text \<open>
  \<open>lhash/lhash.c\<close>, the chained hash table. \<open>'d\<close> is the type of the elements (\<open>void *\<close>); \<open>h\<close> and \<open>cmp\<close>
  are the table's hash and comparison functions as reached through the call helpers. A chain is the
  list of its items. \<open>m\<close> says whether an allocation of the given size succeeds; the contents of fresh
  memory are always overwritten.
\<close>

section \<open>The code\<close>

record 'd lhash_item =
  it_data :: 'd
  it_hash :: u32

record 'd lhash =
  num_items :: nat
  buckets :: "'d lhash_item list list"
  num_buckets :: nat
  callback_depth :: nat

type_synonym alloc = "nat \<Rightarrow> bool"

definition kMinNumBuckets :: nat where "kMinNumBuckets = 16"
definition kMaxAverageChainLength :: nat where "kMaxAverageChainLength = 2"
definition kMinAverageChainLength :: nat where "kMinAverageChainLength = 1"
definition sizeof_lhash :: nat where "sizeof_lhash = 48"
definition sizeof_lhash_item :: nat where "sizeof_lhash_item = 24"
definition sizeof_chain :: nat where "sizeof_chain = 8"

definition OPENSSL_lh_new :: "alloc \<Rightarrow> 'd lhash option" where
  "OPENSSL_lh_new m =
    (if \<not> m sizeof_lhash then None
     else if \<not> m (kMinNumBuckets * sizeof_chain) then None
     else Some \<lparr>num_items = 0, buckets = replicate kMinNumBuckets [], num_buckets = kMinNumBuckets,
                callback_depth = 0\<rparr>)"

text \<open>The items that \<open>OPENSSL_lh_free\<close> frees, in order.\<close>

definition OPENSSL_lh_free :: "'d lhash option \<Rightarrow> 'd lhash_item list" where
  "OPENSSL_lh_free lh = (case lh of None \<Rightarrow> [] | Some lh \<Rightarrow> concat (take (num_buckets lh) (buckets lh)))"

definition OPENSSL_lh_num_items :: "'d lhash \<Rightarrow> nat" where
  "OPENSSL_lh_num_items lh = num_items lh"

text \<open>A pointer to a link of a chain is the bucket and the number of items before the link.\<close>

fun chain_index :: "('d lhash_item \<Rightarrow> bool) \<Rightarrow> 'd lhash_item list \<Rightarrow> nat" where
  "chain_index p [] = 0"
| "chain_index p (cur # rest) = (if p cur then 0 else Suc (chain_index p rest))"

definition item_at :: "'d lhash \<Rightarrow> nat \<times> nat \<Rightarrow> 'd lhash_item option" where
  "item_at lh ptr = (case ptr of (b, k) \<Rightarrow>
     let chain = buckets lh ! b in if k < length chain then Some (chain ! k) else None)"

definition get_next_ptr_and_hash ::
  "('d \<Rightarrow> u32) \<Rightarrow> ('d \<Rightarrow> 'd \<Rightarrow> int) \<Rightarrow> 'd lhash \<Rightarrow> 'd \<Rightarrow> u32 \<times> nat \<times> nat" where
  "get_next_ptr_and_hash h cmp lh d =
    (let hash = h d; b = unat hash mod num_buckets lh
     in (hash, b, chain_index (\<lambda>cur. cmp (it_data cur) d = 0) (buckets lh ! b)))"

definition get_next_ptr_by_key :: "('k \<Rightarrow> 'd \<Rightarrow> int) \<Rightarrow> 'd lhash \<Rightarrow> 'k \<Rightarrow> u32 \<Rightarrow> nat \<times> nat" where
  "get_next_ptr_by_key cmp_key lh key key_hash =
    (let b = unat key_hash mod num_buckets lh
     in (b, chain_index (\<lambda>cur. cmp_key key (it_data cur) = 0) (buckets lh ! b)))"

definition OPENSSL_lh_retrieve :: "('d \<Rightarrow> u32) \<Rightarrow> ('d \<Rightarrow> 'd \<Rightarrow> int) \<Rightarrow> 'd lhash \<Rightarrow> 'd \<Rightarrow> 'd option" where
  "OPENSSL_lh_retrieve h cmp lh d =
    (let next_ptr = snd (get_next_ptr_and_hash h cmp lh d) in map_option it_data (item_at lh next_ptr))"

definition OPENSSL_lh_retrieve_key :: "('k \<Rightarrow> 'd \<Rightarrow> int) \<Rightarrow> 'd lhash \<Rightarrow> 'k \<Rightarrow> u32 \<Rightarrow> 'd option" where
  "OPENSSL_lh_retrieve_key cmp_key lh key key_hash =
    map_option it_data (item_at lh (get_next_ptr_by_key cmp_key lh key key_hash))"

text \<open>The inner step of \<open>lh_rebucket\<close> puts an item at the front of its new chain.\<close>

definition move_item :: "nat \<Rightarrow> 'd lhash_item list list \<Rightarrow> 'd lhash_item \<Rightarrow> 'd lhash_item list list" where
  "move_item n new cur = (let k = unat (it_hash cur) mod n in new[k := cur # new ! k])"

definition lh_rebucket :: "alloc \<Rightarrow> 'd lhash \<Rightarrow> nat \<Rightarrow> 'd lhash" where
  "lh_rebucket m lh n =
    (let alloc_size = sizeof_chain * n mod 2 ^ 64
     in if alloc_size div sizeof_chain \<noteq> n then lh
        else if \<not> m alloc_size then lh
        else lh\<lparr>buckets := foldl (foldl (move_item n)) (replicate n []) (take (num_buckets lh) (buckets lh)),
                num_buckets := n\<rparr>)"

definition lh_maybe_resize :: "alloc \<Rightarrow> 'd lhash \<Rightarrow> 'd lhash" where
  "lh_maybe_resize m lh =
    (if callback_depth lh > 0 then lh
     else let avg_chain_length = num_items lh div num_buckets lh
          in if avg_chain_length > kMaxAverageChainLength
             then let new_num_buckets = num_buckets lh * 2 mod 2 ^ 64
                  in if new_num_buckets > num_buckets lh then lh_rebucket m lh new_num_buckets else lh
             else if avg_chain_length < kMinAverageChainLength \<and> num_buckets lh > kMinNumBuckets
             then let new_num_buckets = num_buckets lh div 2
                  in lh_rebucket m lh (if new_num_buckets < kMinNumBuckets then kMinNumBuckets else new_num_buckets)
             else lh)"

definition update_chain :: "nat \<Rightarrow> ('d lhash_item list \<Rightarrow> 'd lhash_item list) \<Rightarrow> 'd lhash \<Rightarrow> 'd lhash" where
  "update_chain b f lh = lh\<lparr>buckets := (buckets lh)[b := f (buckets lh ! b)]\<rparr>"

text \<open>Result: success, \<open>*old_data\<close>, and the table.\<close>

definition OPENSSL_lh_insert ::
  "alloc \<Rightarrow> ('d \<Rightarrow> u32) \<Rightarrow> ('d \<Rightarrow> 'd \<Rightarrow> int) \<Rightarrow> 'd lhash \<Rightarrow> 'd \<Rightarrow> bool \<times> 'd option \<times> 'd lhash" where
  "OPENSSL_lh_insert m h cmp lh d =
    (case get_next_ptr_and_hash h cmp lh d of (hash, b, k) \<Rightarrow>
       case item_at lh (b, k) of
         Some item \<Rightarrow> (True, Some (it_data item), update_chain b (\<lambda>c. c[k := (c ! k)\<lparr>it_data := d\<rparr>]) lh)
       | None \<Rightarrow>
           if \<not> m sizeof_lhash_item then (False, None, lh)
           else let item = \<lparr>it_data = d, it_hash = hash\<rparr>;
                    lh = update_chain b (\<lambda>c. take k c @ [item]) lh
                in (True, None, lh_maybe_resize m (lh\<lparr>num_items := size_add (num_items lh) 1\<rparr>)))"

definition OPENSSL_lh_delete ::
  "alloc \<Rightarrow> ('d \<Rightarrow> u32) \<Rightarrow> ('d \<Rightarrow> 'd \<Rightarrow> int) \<Rightarrow> 'd lhash \<Rightarrow> 'd \<Rightarrow> 'd option \<times> 'd lhash" where
  "OPENSSL_lh_delete m h cmp lh d =
    (case get_next_ptr_and_hash h cmp lh d of (_, b, k) \<Rightarrow>
       case item_at lh (b, k) of
         None \<Rightarrow> (None, lh)
       | Some item \<Rightarrow>
           let lh = update_chain b (\<lambda>c. take k c @ drop (k + 1) c) lh
           in (Some (it_data item), lh_maybe_resize m (lh\<lparr>num_items := (num_items lh + (2 ^ 64 - 1)) mod 2 ^ 64\<rparr>)))"

text \<open>
  \<open>OPENSSL_lh_doall_arg\<close> with a callback \<open>f\<close> on the state behind \<open>arg\<close>. The callback does not reach the
  table here; \<open>callback_depth\<close> is a saturating \<open>unsigned\<close>.
\<close>

definition UINT_MAX :: nat where "UINT_MAX = 4294967295"

definition OPENSSL_lh_doall_arg :: "alloc \<Rightarrow> ('s \<Rightarrow> 'd \<Rightarrow> 's) \<Rightarrow> 's \<Rightarrow> 'd lhash option \<Rightarrow> 's \<times> 'd lhash option" where
  "OPENSSL_lh_doall_arg m f arg lh =
    (case lh of None \<Rightarrow> (arg, None)
     | Some lh \<Rightarrow>
         let lh = (if callback_depth lh < UINT_MAX then lh\<lparr>callback_depth := callback_depth lh + 1\<rparr> else lh);
             arg = foldl (foldl (\<lambda>arg cur. f arg (it_data cur))) arg (take (num_buckets lh) (buckets lh));
             lh = (if callback_depth lh < UINT_MAX then lh\<lparr>callback_depth := callback_depth lh - 1\<rparr> else lh)
         in (arg, Some (lh_maybe_resize m lh)))"

section \<open>Chains\<close>

lemma chain_index_le: "chain_index p c \<le> length c"
  by (induction c) auto

lemma chain_index_hit: "chain_index p c < length c \<Longrightarrow> p (c ! chain_index p c)"
  by (induction c) auto

lemma chain_index_miss: "\<not> chain_index p c < length c \<longleftrightarrow> (\<forall>x \<in> set c. \<not> p x)"
  by (induction c) auto

lemma chain_index_end: "\<not> chain_index p c < length c \<Longrightarrow> chain_index p c = length c"
  using chain_index_le [of p c] by simp

abbreviation items :: "'d lhash \<Rightarrow> 'd lhash_item list" where
  "items lh \<equiv> concat (buckets lh)"

lemma mset_concat_update:
  assumes "b < length bs"
  shows "mset (concat (bs[b := c])) = mset (concat bs) - mset (bs ! b) + mset c"
proof -
  have "bs = take b bs @ bs ! b # drop (Suc b) bs" using assms by (rule id_take_nth_drop)
  then have 1: "mset (concat bs) = mset (concat (take b bs)) + mset (bs ! b) + mset (concat (drop (Suc b) bs))"
    by (metis concat.simps(2) concat_append mset_append add.assoc)
  have "bs[b := c] = take b bs @ c # drop (Suc b) bs" using assms by (rule upd_conv_take_nth_drop)
  then have "mset (concat (bs[b := c])) = mset (concat (take b bs)) + mset c + mset (concat (drop (Suc b) bs))"
    by (simp add: ac_simps)
  with 1 show ?thesis by simp
qed

lemma mset_move_item:
  assumes "0 < n" "length new = n"
  shows "mset (concat (move_item n new cur)) = add_mset cur (mset (concat new))"
proof -
  let ?k = "unat (it_hash cur) mod n"
  have k: "?k < length new" using assms by simp
  have "mset (concat new) = mset (concat new) - mset (new ! ?k) + mset (new ! ?k)"
    using mset_concat_update [OF k, of "new ! ?k"] by simp
  then show ?thesis
    unfolding move_item_def Let_def mset_concat_update [OF k] by simp
qed

lemma length_move_item [simp]: "length (move_item n new cur) = length new"
  by (simp add: move_item_def Let_def)

lemma length_foldl_move [simp]: "length (foldl (move_item n) new c) = length new"
  by (induction c arbitrary: new) simp_all

lemma mset_foldl_move:
  assumes "0 < n" "length new = n"
  shows "mset (concat (foldl (move_item n) new c)) = mset (concat new) + mset c"
  using assms by (induction c arbitrary: new) (simp_all add: mset_move_item)

section \<open>The invariant and the map a table stands for\<close>

definition placed :: "nat \<Rightarrow> 'd lhash_item list list \<Rightarrow> bool" where
  "placed n bs \<longleftrightarrow> length bs = n \<and> (\<forall>b < n. \<forall>i \<in> set (bs ! b). unat (it_hash i) mod n = b)"

definition item_map :: "('d \<Rightarrow> 'k) \<Rightarrow> 'd lhash_item list \<Rightarrow> 'k \<rightharpoonup> 'd" where
  "item_map key xs = map_of (map (\<lambda>i. (key (it_data i), it_data i)) xs)"

definition item_keys :: "('d \<Rightarrow> 'k) \<Rightarrow> 'd lhash_item list \<Rightarrow> 'k list" where
  "item_keys key xs = map (\<lambda>i. key (it_data i)) xs"

definition lh_wf :: "('d \<Rightarrow> 'k) \<Rightarrow> ('d \<Rightarrow> u32) \<Rightarrow> 'd lhash \<Rightarrow> bool" where
  "lh_wf key h lh \<longleftrightarrow>
     placed (num_buckets lh) (buckets lh) \<and> kMinNumBuckets \<le> num_buckets lh \<and>
     num_items lh = length (items lh) mod 2 ^ 64 \<and>
     (\<forall>i \<in> set (items lh). it_hash i = h (it_data i)) \<and> distinct (item_keys key (items lh))"

abbreviation lh_map :: "('d \<Rightarrow> 'k) \<Rightarrow> 'd lhash \<Rightarrow> 'k \<rightharpoonup> 'd" where
  "lh_map key lh \<equiv> item_map key (items lh)"

lemma item_map_simps [simp]:
  "item_map key [] = Map.empty"
  "item_map key (i # xs) = (item_map key xs)(key (it_data i) \<mapsto> it_data i)"
  by (simp_all add: item_map_def)

lemma item_keys_simps [simp]:
  "item_keys key [] = []" "item_keys key (i # xs) = key (it_data i) # item_keys key xs"
  "set (item_keys key xs) = (\<lambda>i. key (it_data i)) ` set xs"
  by (simp_all add: item_keys_def)

lemma item_keys_mset: "mset xs = mset ys \<Longrightarrow> distinct (item_keys key xs) \<longleftrightarrow> distinct (item_keys key ys)"
  unfolding item_keys_def by (rule mset_eq_imp_distinct_iff) simp

lemma dom_item_map: "dom (item_map key xs) = (\<lambda>i. key (it_data i)) ` set xs"
  by (simp add: item_map_def dom_map_of_conv_image_fst image_image)

lemma item_map_Some:
  assumes "distinct (item_keys key xs)"
  shows "item_map key xs k = Some d \<longleftrightarrow> (\<exists>i \<in> set xs. key (it_data i) = k \<and> it_data i = d)"
  using assms by (induction xs) (auto simp: dom_item_map [symmetric])

lemma item_map_mset:
  assumes "mset xs = mset ys" "distinct (item_keys key xs)"
  shows "item_map key xs = item_map key ys"
proof -
  have "set xs = set ys" using assms(1) by (rule mset_eq_setD)
  moreover have "distinct (item_keys key ys)" using assms item_keys_mset by blast
  ultimately have "item_map key xs k = Some d \<longleftrightarrow> item_map key ys k = Some d" for k d
    using assms(2) by (simp add: item_map_Some)
  then show ?thesis by (intro ext) (metis not_None_eq)
qed

lemma mset_Cons_eq: "add_mset i (mset xs) = mset ys \<Longrightarrow> mset (i # xs) = mset ys"
  by simp

lemma placed_move:
  assumes "0 < n" "placed n bs"
  shows "placed n (move_item n bs cur)"
  using assms by (auto simp: placed_def move_item_def Let_def nth_list_update)

lemma placed_foldl_move: "0 < n \<Longrightarrow> placed n bs \<Longrightarrow> placed n (foldl (move_item n) bs c)"
  by (induction c arbitrary: bs) (simp_all add: placed_move)

lemma rebucket_items:
  assumes "0 < n" "placed n bs"
  shows "placed n (foldl (foldl (move_item n)) bs cs)"
    "mset (concat (foldl (foldl (move_item n)) bs cs)) = mset (concat bs) + mset (concat cs)"
proof -
  have "placed n (foldl (foldl (move_item n)) bs cs) \<and>
      mset (concat (foldl (foldl (move_item n)) bs cs)) = mset (concat bs) + mset (concat cs)"
    using assms(2)
  proof (induction cs arbitrary: bs)
    case (Cons c cs)
    have "length bs = n" using Cons.prems by (simp add: placed_def)
    with Cons.IH [OF placed_foldl_move [OF assms(1) Cons.prems]] show ?case
      using assms(1) by (simp add: mset_foldl_move)
  qed simp
  then show "placed n (foldl (foldl (move_item n)) bs cs)"
    "mset (concat (foldl (foldl (move_item n)) bs cs)) = mset (concat bs) + mset (concat cs)" by auto
qed

lemma lh_rebucket:
  assumes "placed (num_buckets lh) (buckets lh)" "0 < n"
  shows "placed (num_buckets (lh_rebucket m lh n)) (buckets (lh_rebucket m lh n))"
    "mset (items (lh_rebucket m lh n)) = mset (items lh)"
    "num_items (lh_rebucket m lh n) = num_items lh"
    "num_buckets (lh_rebucket m lh n) = num_buckets lh \<or> num_buckets (lh_rebucket m lh n) = n"
proof -
  have e: "placed n (replicate n [])" by (simp add: placed_def)
  have t: "take (num_buckets lh) (buckets lh) = buckets lh" using assms(1) by (simp add: placed_def)
  note r = rebucket_items [OF assms(2) e, of "buckets lh"]
  show "placed (num_buckets (lh_rebucket m lh n)) (buckets (lh_rebucket m lh n))"
    "mset (items (lh_rebucket m lh n)) = mset (items lh)"
    "num_items (lh_rebucket m lh n) = num_items lh"
    "num_buckets (lh_rebucket m lh n) = num_buckets lh \<or> num_buckets (lh_rebucket m lh n) = n"
    using assms(1) r by (auto simp: lh_rebucket_def t Let_def)
qed

text \<open>Resizing keeps the invariant and the map.\<close>

lemma lh_maybe_resize:
  assumes "lh_wf key h lh"
  shows "lh_wf key h (lh_maybe_resize m lh)" "lh_map key (lh_maybe_resize m lh) = lh_map key lh"
proof -
  define lh' where "lh' = lh_maybe_resize m lh"
  have w: "placed (num_buckets lh) (buckets lh)" "16 \<le> num_buckets lh"
    using assms by (simp_all add: lh_wf_def kMinNumBuckets_def)
  have "lh' = lh \<or> lh' = lh_rebucket m lh (num_buckets lh * 2 mod 2 ^ 64) \<and> num_buckets lh < num_buckets lh * 2 mod 2 ^ 64 \<or>
      lh' = lh_rebucket m lh (if num_buckets lh div 2 < 16 then 16 else num_buckets lh div 2)"
    by (simp add: lh'_def lh_maybe_resize_def kMinNumBuckets_def Let_def)
  then have "lh' = lh \<or> (\<exists>n \<ge> 16. lh' = lh_rebucket m lh n)"
    using w(2) by (elim disjE) (simp, metis less_imp_le order.trans, metis linorder_not_less order_refl)
  then have "placed (num_buckets lh') (buckets lh') \<and> mset (items lh') = mset (items lh) \<and>
      num_items lh' = num_items lh \<and> 16 \<le> num_buckets lh'"
  proof
    assume "\<exists>n \<ge> 16. lh' = lh_rebucket m lh n"
    then obtain n where "16 \<le> n" "lh' = lh_rebucket m lh n" by blast
    then show ?thesis using w lh_rebucket [OF w(1), of n m] by auto
  qed (use w in simp)
  then have p: "placed (num_buckets lh') (buckets lh')" "mset (items lh') = mset (items lh)"
    "num_items lh' = num_items lh" "16 \<le> num_buckets lh'" by auto
  have d: "distinct (item_keys key (items lh'))"
    using assms item_keys_mset [OF p(2), of key] by (simp add: lh_wf_def)
  then show "lh_map key (lh_maybe_resize m lh) = lh_map key lh"
    using item_map_mset [OF p(2)] by (simp add: lh'_def)
  show "lh_wf key h (lh_maybe_resize m lh)"
    using assms p d mset_eq_length [OF p(2)] mset_eq_setD [OF p(2)]
    by (simp add: lh_wf_def kMinNumBuckets_def flip: lh'_def)
qed

lemma lh_new_wf:
  assumes "OPENSSL_lh_new m = Some lh"
  shows "lh_wf key h lh" "lh_map key lh = Map.empty"
  using assms by (auto simp: OPENSSL_lh_new_def lh_wf_def placed_def kMinNumBuckets_def split: if_splits)

end
