(* ===== verification/LHash_Map.thy ===== *)
theory LHash_Map
  imports LHash
begin

text \<open>
  The hash table implements a finite map. The contract between the table and its two functions is the
  locale \<open>hash_contract\<close>: \<open>cmp\<close> is zero exactly on equal keys, and equal keys have equal hashes. The
  tables of \<open>conf/conf.c\<close> satisfy it.
\<close>

section \<open>The contract\<close>

locale hash_contract =
  fixes key :: "'d \<Rightarrow> 'k" and h :: "'d \<Rightarrow> u32" and cmp :: "'d \<Rightarrow> 'd \<Rightarrow> int"
  assumes cmp_key: "cmp a b = 0 \<longleftrightarrow> key a = key b"
    and hash_key: "key a = key b \<Longrightarrow> h a = h b"
begin

lemma bucket_bound:
  assumes "lh_wf key h lh"
  shows "unat (x :: u32) mod num_buckets lh < length (buckets lh)"
proof -
  have "0 < num_buckets lh" "length (buckets lh) = num_buckets lh"
    using assms by (auto simp: lh_wf_def placed_def kMinNumBuckets_def)
  then show ?thesis by simp
qed

text \<open>An item with the key of \<open>d\<close> can only be in the bucket of \<open>d\<close>'s hash.\<close>

lemma in_bucket:
  assumes "lh_wf key h lh" "i \<in> set (items lh)" "key (it_data i) = key d"
  shows "i \<in> set (buckets lh ! (unat (h d) mod num_buckets lh))"
proof -
  obtain c where "c \<in> set (buckets lh)" "i \<in> set c" using assms(2) by auto
  then obtain b where b: "b < length (buckets lh)" "i \<in> set (buckets lh ! b)" by (metis in_set_conv_nth)
  have "placed (num_buckets lh) (buckets lh)" "\<forall>i \<in> set (items lh). it_hash i = h (it_data i)"
    using assms(1) by (simp_all add: lh_wf_def)
  then have "unat (it_hash i) mod num_buckets lh = b" "it_hash i = h (it_data i)"
    using b assms(2) unfolding placed_def by (simp, blast)
  then have "unat (it_hash i) mod num_buckets lh = b" "it_hash i = h d" using hash_key [OF assms(3)] by simp_all
  then show ?thesis using b by simp
qed

text \<open>Where the search stops: at the item with this key, or at the end of the chain when there is none.\<close>

lemma search:
  assumes wf: "lh_wf key h lh" and s: "get_next_ptr_and_hash h cmp lh d = (hash, b, k)"
  shows "hash = h d" "b = unat (h d) mod num_buckets lh" "b < length (buckets lh)"
    "item_at lh (b, k) = Some i \<Longrightarrow> k < length (buckets lh ! b) \<and> buckets lh ! b ! k = i \<and>
       i \<in> set (items lh) \<and> key (it_data i) = key d"
    "item_at lh (b, k) = None \<Longrightarrow> k = length (buckets lh ! b) \<and> key d \<notin> set (item_keys key (items lh))"
proof -
  show b: "hash = h d" "b = unat (h d) mod num_buckets lh" "b < length (buckets lh)"
    using s bucket_bound [OF wf, of "h d"] by (auto simp: get_next_ptr_and_hash_def Let_def)
  define p where "p cur \<longleftrightarrow> cmp (it_data cur) d = 0" for cur :: "'d lhash_item"
  have k: "k = chain_index p (buckets lh ! b)"
    using s by (auto simp: get_next_ptr_and_hash_def p_def [abs_def] Let_def)
  show "k < length (buckets lh ! b) \<and> buckets lh ! b ! k = i \<and> i \<in> set (items lh) \<and> key (it_data i) = key d"
    if "item_at lh (b, k) = Some i"
  proof -
    have l: "k < length (buckets lh ! b)" "buckets lh ! b ! k = i"
      using that by (auto simp: item_at_def Let_def split: if_splits)
    then have "p i" using chain_index_hit [of p "buckets lh ! b"] k by simp
    moreover have "i \<in> set (buckets lh ! b)" using l nth_mem by blast
    moreover have "buckets lh ! b \<in> set (buckets lh)" using b(3) by simp
    ultimately show ?thesis using l by (auto simp: p_def cmp_key)
  qed
  show "k = length (buckets lh ! b) \<and> key d \<notin> set (item_keys key (items lh))" if "item_at lh (b, k) = None"
  proof -
    have l: "\<not> k < length (buckets lh ! b)" using that by (auto simp: item_at_def Let_def split: if_splits)
    then have "\<forall>i \<in> set (buckets lh ! b). \<not> p i" unfolding k chain_index_miss .
    then have "key (it_data i) \<noteq> key d" if "i \<in> set (items lh)" for i
      using in_bucket [OF wf that, of d] unfolding b(2) p_def cmp_key by blast
    then have "key d \<notin> (\<lambda>i. key (it_data i)) ` set (items lh)" by (metis imageE)
    then have "key d \<notin> set (item_keys key (items lh))" by (simp only: item_keys_simps not_False_eq_True)
    then show ?thesis using l chain_index_le [of p "buckets lh ! b"] k by simp
  qed
qed

lemma retrieve:
  assumes "lh_wf key h lh"
  shows "OPENSSL_lh_retrieve h cmp lh d = lh_map key lh (key d)"
proof -
  obtain hash b k where s: "get_next_ptr_and_hash h cmp lh d = (hash, b, k)"
    by (cases "get_next_ptr_and_hash h cmp lh d") auto
  have dis: "distinct (item_keys key (items lh))" using assms by (simp add: lh_wf_def)
  show ?thesis
  proof (cases "item_at lh (b, k)")
    case None
    then have "lh_map key lh (key d) = None"
      using search(5) [OF assms s] dom_item_map [of key "items lh"] by (auto simp: domIff)
    then show ?thesis using s None by (simp add: OPENSSL_lh_retrieve_def)
  next
    case (Some i)
    then have "lh_map key lh (key d) = Some (it_data i)"
      using search(4) [OF assms s Some] dis by (auto simp: item_map_Some simp del: set_concat)
    then show ?thesis using s Some by (simp add: OPENSSL_lh_retrieve_def)
  qed
qed

text \<open>
  An edit of one chain that takes the items \<open>olds\<close> out of the table and puts \<open>news\<close> in, in terms of the
  items \<open>rest\<close> that it does not touch.
\<close>

lemma edit_chain:
  assumes wf: "lh_wf key h lh" and b: "b < length (buckets lh)"
    and c: "mset c + mset olds = mset (buckets lh ! b) + mset news"
    and rest: "mset (items lh) = mset (olds @ rest)"
    and news: "\<And>i. i \<in> set news \<Longrightarrow> it_hash i = h (it_data i) \<and> unat (h (it_data i)) mod num_buckets lh = b"
    and dist: "distinct (item_keys key (news @ rest))"
    and n: "n = length (news @ rest) mod 2 ^ 64"
  defines "lh' \<equiv> lh\<lparr>buckets := (buckets lh)[b := c], num_items := n\<rparr>"
  shows "lh_wf key h lh'" "lh_map key lh' = item_map key (news @ rest)"
proof -
  let ?bs = "(buckets lh)[b := c]"
  have "mset (items lh) = mset (items lh) - mset (buckets lh ! b) + mset (buckets lh ! b)"
    using mset_concat_update [OF b, of "buckets lh ! b"] by simp
  then obtain zs where zs: "mset (items lh) = zs + mset (buckets lh ! b)" by metis
  have "mset (concat ?bs) + mset olds = zs + (mset c + mset olds)"
    unfolding mset_concat_update [OF b] zs by simp
  also have "\<dots> = mset (olds @ rest) + mset news" unfolding c using zs rest by (simp add: ac_simps)
  finally have m: "mset (news @ rest) = mset (concat ?bs)" by simp
  have sc: "set c \<subseteq> set (buckets lh ! b) \<union> set news"
    using arg_cong [OF c, of set_mset] by auto
  have "placed (num_buckets lh) (buckets lh)" and hash: "\<forall>i \<in> set (items lh). it_hash i = h (it_data i)"
    using wf by (simp_all add: lh_wf_def del: set_concat)
  then have "length ?bs = num_buckets lh"
    and old: "\<And>b' i. b' < num_buckets lh \<Longrightarrow> i \<in> set (buckets lh ! b') \<Longrightarrow> unat (it_hash i) mod num_buckets lh = b'"
    by (auto simp: placed_def)
  moreover have "unat (it_hash i) mod num_buckets lh = b'" if "b' < num_buckets lh" "i \<in> set (?bs ! b')" for b' i
  proof (cases "b' = b")
    case True
    then have "i \<in> set c" using that(2) b by simp
    then consider "i \<in> set (buckets lh ! b)" | "i \<in> set news" using sc by blast
    then show ?thesis
    proof cases
      case 1
      then show ?thesis using old [of b i] that(1) True by simp
    next
      case 2
      then show ?thesis using news [OF 2] True by simp
    qed
  qed (use that old in simp)
  ultimately have p: "placed (num_buckets lh) ?bs" by (simp add: placed_def)
  have "set (concat ?bs) \<subseteq> set news \<union> set (items lh)"
    using mset_eq_setD [OF m] mset_eq_setD [OF rest] by auto
  then have hs: "\<forall>i \<in> set (concat ?bs). it_hash i = h (it_data i)" using news hash by blast
  have d: "distinct (item_keys key (concat ?bs))" using dist item_keys_mset [OF m] by blast
  show "lh_wf key h lh'"
    using wf p hs d n mset_eq_length [OF m] by (simp add: lh_wf_def lh'_def del: set_concat)
  show "lh_map key lh' = item_map key (news @ rest)"
    using item_map_mset [OF m dist] by (simp add: lh'_def)
qed

lemma take_out:
  assumes "lh_wf key h lh" "i \<in> set (items lh)"
  obtains rest where "mset (items lh) = mset ([i] @ rest)" "distinct (item_keys key (i # rest))"
    "num_items lh = (length rest + 1) mod 2 ^ 64" "lh_map key lh = item_map key (i # rest)"
proof -
  obtain xs ys where s: "items lh = xs @ i # ys" using split_list [OF assms(2)] by blast
  then have m: "mset (items lh) = mset (i # xs @ ys)" by simp
  have "distinct (item_keys key (i # xs @ ys))"
    using assms(1) item_keys_mset [OF m, of key] by (simp add: lh_wf_def)
  moreover have "num_items lh = (length (xs @ ys) + 1) mod 2 ^ 64"
    using assms(1) mset_eq_length [OF m] by (simp add: lh_wf_def)
  moreover have "lh_map key lh = item_map key (i # xs @ ys)"
    using assms(1) by (intro item_map_mset [OF m]) (simp add: lh_wf_def)
  ultimately show ?thesis using m that [of "xs @ ys"] by simp
qed

text \<open>A key that is present is replaced in its place.\<close>

lemma insert_replace:
  assumes wf: "lh_wf key h lh" and s: "get_next_ptr_and_hash h cmp lh d = (hash, b, k)"
    and i: "item_at lh (b, k) = Some i"
  defines "lh' \<equiv> update_chain b (\<lambda>c. c[k := (c ! k)\<lparr>it_data := d\<rparr>]) lh"
  shows "lh_wf key h lh'" "lh_map key lh' = (lh_map key lh)(key d \<mapsto> d)"
    "lh_map key lh (key d) = Some (it_data i)"
    "lh_map key lh (key d) \<noteq> None"
proof -
  note f = search(1-3) [OF wf s] search(4) [OF wf s i]
  let ?c = "buckets lh ! b"
  let ?j = "i\<lparr>it_data := d\<rparr>"
  have "i \<in> set (items lh)" using f(4) by blast
  from take_out [OF wf this] obtain rest where r: "mset (items lh) = mset ([i] @ rest)"
    "distinct (item_keys key (i # rest))" "num_items lh = (length rest + 1) mod 2 ^ 64"
    "lh_map key lh = item_map key (i # rest)" .
  have "it_hash i = h (it_data i)" using wf f(4) unfolding lh_wf_def by blast
  then have hash: "it_hash i = h d" using f(4) hash_key [of "it_data i" d] by simp
  have c: "mset (?c[k := ?j]) + mset [i] = mset ?c + mset [?j]"
    using f(4) nth_mem [of k ?c] by (simp add: mset_update)
  have lh': "lh' = lh\<lparr>buckets := (buckets lh)[b := ?c[k := ?j]], num_items := length ([?j] @ rest) mod 2 ^ 64\<rparr>"
    using f(4) r(3) by (simp add: lh'_def update_chain_def)
  note e = edit_chain [OF wf f(3) c r(1), of "length ([?j] @ rest) mod 2 ^ 64", folded lh']
  show "lh_wf key h lh'" using r(2) f(1,2,4) hash by (intro e(1)) auto
  have "lh_map key lh' = item_map key ([?j] @ rest)" using r(2) f(1,2,4) hash by (intro e(2)) auto
  then show "lh_map key lh' = (lh_map key lh)(key d \<mapsto> d)" using r(4) f(4) by simp
  show "lh_map key lh (key d) = Some (it_data i)" "lh_map key lh (key d) \<noteq> None" using r(4) f(4) by simp_all
qed

text \<open>A new key goes to the end of its chain.\<close>

lemma insert_new:
  assumes wf: "lh_wf key h lh" and s: "get_next_ptr_and_hash h cmp lh d = (hash, b, k)"
    and i: "item_at lh (b, k) = None"
  defines "lh' \<equiv> (update_chain b (\<lambda>c. take k c @ [\<lparr>it_data = d, it_hash = hash\<rparr>]) lh)\<lparr>num_items := size_add (num_items lh) 1\<rparr>"
  shows "lh_wf key h lh'" "lh_map key lh' = (lh_map key lh)(key d \<mapsto> d)" "lh_map key lh (key d) = None"
proof -
  note f = search(1-3) [OF wf s] search(5) [OF wf s i]
  let ?c = "buckets lh ! b"
  let ?j = "\<lparr>it_data = d, it_hash = hash\<rparr>"
  have c: "mset (?c @ [?j]) + mset [] = mset ?c + mset [?j]" by simp
  have lh': "lh' = lh\<lparr>buckets := (buckets lh)[b := ?c @ [?j]], num_items := length ([?j] @ items lh) mod 2 ^ 64\<rparr>"
    using f(4) wf by (simp add: lh'_def update_chain_def lh_wf_def size_add_def mod_Suc_eq)
  have dis: "distinct (item_keys key ([?j] @ items lh))"
    using wf f(4) by (simp add: lh_wf_def del: set_concat)
  note e = edit_chain [OF wf f(3) c, of "items lh" "length ([?j] @ items lh) mod 2 ^ 64", folded lh']
  show "lh_wf key h lh'" using f(1,2) dis by (intro e(1)) auto
  show "lh_map key lh' = (lh_map key lh)(key d \<mapsto> d)" using f(1,2) dis e(2) by simp
  show "lh_map key lh (key d) = None"
    using f(4) dom_item_map [of key "items lh"] by (auto simp: domIff)
qed

lemma insert_result:
  assumes "lh_wf key h lh" "OPENSSL_lh_insert m h cmp lh d = (ok, old, lh')"
  shows "lh_wf key h lh'" "old = lh_map key lh (key d)"
    "ok \<longleftrightarrow> lh_map key lh (key d) \<noteq> None \<or> m sizeof_lhash_item"
    "lh_map key lh' = (if ok then (lh_map key lh)(key d \<mapsto> d) else lh_map key lh)"
proof -
  obtain hash b k where s: "get_next_ptr_and_hash h cmp lh d = (hash, b, k)"
    by (cases "get_next_ptr_and_hash h cmp lh d") auto
  have "lh_wf key h lh' \<and> old = lh_map key lh (key d) \<and> (ok \<longleftrightarrow> lh_map key lh (key d) \<noteq> None \<or> m sizeof_lhash_item) \<and>
    lh_map key lh' = (if ok then (lh_map key lh)(key d \<mapsto> d) else lh_map key lh)"
  proof (cases "item_at lh (b, k)")
    case (Some i)
    then show ?thesis
      using assms(2) s insert_replace [OF assms(1) s Some] by (auto simp: OPENSSL_lh_insert_def)
  next
    case None
    show ?thesis
    proof (cases "m sizeof_lhash_item")
      case True
      then show ?thesis
        using assms(2) s None insert_new [OF assms(1) s None] lh_maybe_resize [OF insert_new(1) [OF assms(1) s None]]
        by (auto simp: OPENSSL_lh_insert_def Let_def update_chain_def)
    next
      case False
      then show ?thesis
        using assms s None insert_new(3) [OF assms(1) s None] by (auto simp: OPENSSL_lh_insert_def)
    qed
  qed
  then show "lh_wf key h lh'" "old = lh_map key lh (key d)"
    "ok \<longleftrightarrow> lh_map key lh (key d) \<noteq> None \<or> m sizeof_lhash_item"
    "lh_map key lh' = (if ok then (lh_map key lh)(key d \<mapsto> d) else lh_map key lh)" by auto
qed

lemma delete_result:
  assumes wf: "lh_wf key h lh" and del: "OPENSSL_lh_delete m h cmp lh d = (old, lh')"
  shows "lh_wf key h lh'" "old = lh_map key lh (key d)" "lh_map key lh' = (lh_map key lh)(key d := None)"
proof -
  obtain hash b k where s: "get_next_ptr_and_hash h cmp lh d = (hash, b, k)"
    by (cases "get_next_ptr_and_hash h cmp lh d") auto
  have "lh_wf key h lh' \<and> old = lh_map key lh (key d) \<and> lh_map key lh' = (lh_map key lh)(key d := None)"
  proof (cases "item_at lh (b, k)")
    case None
    then have "lh_map key lh (key d) = None" using insert_new(3) [OF wf s None] by simp
    then show ?thesis using del wf s None by (simp add: OPENSSL_lh_delete_def fun_upd_idem)
  next
    case (Some i)
    note f = search(1-3) [OF wf s] search(4) [OF wf s Some]
    let ?c = "buckets lh ! b"
    have "i \<in> set (items lh)" using f(4) by blast
    from take_out [OF wf this] obtain rest where r: "mset (items lh) = mset ([i] @ rest)"
      "distinct (item_keys key (i # rest))" "num_items lh = (length rest + 1) mod 2 ^ 64"
      "lh_map key lh = item_map key (i # rest)" .
    have "?c = take k ?c @ i # drop (Suc k) ?c" using f(4) id_take_nth_drop [of k ?c] by simp
    then have c: "mset (take k ?c @ drop (k + 1) ?c) + mset [i] = mset ?c + mset []"
      by (metis Suc_eq_plus1 add.right_neutral add_mset_add_single mset.simps mset_append union_mset_add_mset_right)
    define lh1 where "lh1 = lh\<lparr>buckets := (buckets lh)[b := take k ?c @ drop (k + 1) ?c],
      num_items := length ([] @ rest) mod 2 ^ 64\<rparr>"
    have "(num_items lh + (2 ^ 64 - 1)) mod 2 ^ 64 = length rest mod 2 ^ 64"
      unfolding r(3) by (simp add: mod_add_left_eq)
    then have lh': "old = Some (it_data i)" "lh' = lh_maybe_resize m lh1"
      using del s Some f(4) by (simp_all add: OPENSSL_lh_delete_def update_chain_def lh1_def Let_def)
    note e = edit_chain [OF wf f(3) c r(1), of "length ([] @ rest) mod 2 ^ 64", folded lh1_def]
    have w: "lh_wf key h lh1" "lh_map key lh1 = item_map key rest" using r(2) e by simp_all
    have "key d \<notin> dom (item_map key rest)" using r(2) f(4) by (simp add: dom_item_map)
    then have "item_map key rest = (lh_map key lh)(key d := None)" using r(4) f(4) by (auto simp: domIff fun_upd_idem)
    then show ?thesis using w lh' lh_maybe_resize [OF w(1), of m] r(4) f(4) by simp
  qed
  then show "lh_wf key h lh'" "old = lh_map key lh (key d)" "lh_map key lh' = (lh_map key lh)(key d := None)" by auto
qed

text \<open>Iteration passes every element to the callback once.\<close>

lemma doall_result:
  assumes wf: "lh_wf key h lh" and "OPENSSL_lh_doall_arg m f arg (Some lh) = (arg', lh')"
  shows "\<exists>lh2. lh' = Some lh2 \<and> lh_wf key h lh2 \<and> lh_map key lh2 = lh_map key lh \<and>
    arg' = foldl f arg (map it_data (items lh))"
proof -
  have f2: "foldl (foldl (\<lambda>arg cur. f arg (it_data cur))) a cs = foldl f a (map it_data (concat cs))" for a cs
    by (induction cs arbitrary: a) (simp_all add: foldl_map)
  have t: "take (num_buckets lh) (buckets lh) = buckets lh" using wf by (simp add: lh_wf_def placed_def)
  define lh1 where "lh1 = lh\<lparr>callback_depth := (if callback_depth lh < UINT_MAX \<and> callback_depth lh + 1 < UINT_MAX
    then callback_depth lh else if callback_depth lh < UINT_MAX then callback_depth lh + 1 else callback_depth lh)\<rparr>"
  have w: "lh_wf key h lh1" "items lh1 = items lh" using wf by (simp_all add: lh1_def lh_wf_def)
  have "arg' = foldl f arg (map it_data (items lh))" "lh' = Some (lh_maybe_resize m lh1)"
    using assms(2) by (auto simp: OPENSSL_lh_doall_arg_def Let_def f2 t lh1_def split: if_splits)
  then show ?thesis using lh_maybe_resize [OF w(1), of m] w(2) by simp
qed

end

end
