(* ===== verification/LHash_Props.thy ===== *)
theory LHash_Props
  imports LHash_Map
begin

text \<open>
  Sequences of table operations against a finite map, and the two tables of \<open>conf/conf.c\<close> as instances
  of the contract. A C string is the list of its characters; \<open>cstr\<close> adds the NUL.
\<close>

section \<open>Runs\<close>

datatype 'd table_op = Insert 'd | Delete 'd | Retrieve 'd

datatype 'd table_result = Inserted bool "'d option" | Deleted "'d option" | Found "'d option"

text \<open>Every operation comes with the allocator's answers at that moment.\<close>

fun table_step :: "('d \<Rightarrow> u32) \<Rightarrow> ('d \<Rightarrow> 'd \<Rightarrow> int) \<Rightarrow> alloc \<times> 'd table_op \<Rightarrow> 'd lhash \<Rightarrow> 'd table_result \<times> 'd lhash" where
  "table_step h cmp (m, Insert d) lh =
     (case OPENSSL_lh_insert m h cmp lh d of (ok, old, lh) \<Rightarrow> (Inserted ok old, lh))"
| "table_step h cmp (m, Delete d) lh =
     (case OPENSSL_lh_delete m h cmp lh d of (old, lh) \<Rightarrow> (Deleted old, lh))"
| "table_step h cmp (m, Retrieve d) lh = (Found (OPENSSL_lh_retrieve h cmp lh d), lh)"

fun map_step :: "('d \<Rightarrow> 'k) \<Rightarrow> alloc \<times> 'd table_op \<Rightarrow> ('k \<rightharpoonup> 'd) \<Rightarrow> 'd table_result \<times> ('k \<rightharpoonup> 'd)" where
  "map_step key (m, Insert d) f =
     (if f (key d) \<noteq> None \<or> m sizeof_lhash_item then (Inserted True (f (key d)), f(key d \<mapsto> d))
      else (Inserted False None, f))"
| "map_step key (m, Delete d) f = (Deleted (f (key d)), f(key d := None))"
| "map_step key (m, Retrieve d) f = (Found (f (key d)), f)"

fun run :: "('o \<Rightarrow> 's \<Rightarrow> 'r \<times> 's) \<Rightarrow> 'o list \<Rightarrow> 's \<Rightarrow> 'r list \<times> 's" where
  "run step [] s = ([], s)"
| "run step (x # xs) s = (case step x s of (r, s) \<Rightarrow> case run step xs s of (rs, s) \<Rightarrow> (r # rs, s))"

text \<open>The tables that programs can build.\<close>

inductive lh_reachable :: "('d \<Rightarrow> u32) \<Rightarrow> ('d \<Rightarrow> 'd \<Rightarrow> int) \<Rightarrow> 'd lhash \<Rightarrow> bool"
  for h :: "'d \<Rightarrow> u32" and cmp :: "'d \<Rightarrow> 'd \<Rightarrow> int" where
  new: "OPENSSL_lh_new m = Some lh \<Longrightarrow> lh_reachable h cmp lh"
| op: "lh_reachable h cmp lh \<Longrightarrow> lh_reachable h cmp (snd (table_step h cmp mop lh))"
| doall: "lh_reachable h cmp lh \<Longrightarrow> OPENSSL_lh_doall_arg m (\<lambda>_ _. ()) () (Some lh) = (u, Some lh') \<Longrightarrow> lh_reachable h cmp lh'"

context hash_contract
begin

lemma step_refines:
  assumes "lh_wf key h lh"
  shows "lh_wf key h (snd (table_step h cmp mop lh))"
    "map_step key mop (lh_map key lh) = (fst (table_step h cmp mop lh), lh_map key (snd (table_step h cmp mop lh)))"
proof -
  obtain m op where mop: "mop = (m, op)" by (cases mop)
  have "lh_wf key h (snd (table_step h cmp mop lh)) \<and>
    map_step key mop (lh_map key lh) = (fst (table_step h cmp mop lh), lh_map key (snd (table_step h cmp mop lh)))"
  proof (cases op)
    case (Insert d)
    obtain ok old lh' where i: "OPENSSL_lh_insert m h cmp lh d = (ok, old, lh')" by (metis prod_cases3)
    show ?thesis using insert_result [OF assms i] i by (auto simp: mop Insert)
  next
    case (Delete d)
    obtain old lh' where i: "OPENSSL_lh_delete m h cmp lh d = (old, lh')" by (metis prod.collapse)
    show ?thesis using delete_result [OF assms i] i by (simp add: mop Delete)
  next
    case (Retrieve d)
    then show ?thesis using assms by (simp add: mop retrieve)
  qed
  then show "lh_wf key h (snd (table_step h cmp mop lh))"
    "map_step key mop (lh_map key lh) = (fst (table_step h cmp mop lh), lh_map key (snd (table_step h cmp mop lh)))" by auto
qed

lemma run_refines:
  assumes "lh_wf key h lh"
  shows "run (map_step key) ops (lh_map key lh) =
    (fst (run (table_step h cmp) ops lh), lh_map key (snd (run (table_step h cmp) ops lh)))"
  using assms
proof (induction ops arbitrary: lh)
  case (Cons mop ops)
  then show ?case using step_refines [OF Cons.prems, of mop] by (simp split: prod.splits)
qed simp

lemma reachable_wf: "lh_reachable h cmp lh \<Longrightarrow> lh_wf key h lh"
proof (induction rule: lh_reachable.induct)
  case (new m lh)
  then show ?case by (rule lh_new_wf)
next
  case (op lh mop)
  show ?case by (rule step_refines(1) [OF op(2)])
next
  case (doall lh m u lh')
  show ?case using doall_result [OF doall(3) doall(2)] by auto
qed

lemma retrieve_key:
  assumes wf: "lh_wf key h lh"
    and cmp_key: "\<And>d. cmp_key k d = 0 \<longleftrightarrow> key d = k'" and hash: "\<And>d. key d = k' \<Longrightarrow> h d = key_hash"
  shows "OPENSSL_lh_retrieve_key cmp_key lh k key_hash = lh_map key lh k'"
proof -
  define b where "b = unat key_hash mod num_buckets lh"
  define p where "p cur \<longleftrightarrow> key (it_data cur) = k'" for cur :: "'d lhash_item"
  let ?c = "buckets lh ! b" and ?k = "chain_index p (buckets lh ! b)"
  have r: "OPENSSL_lh_retrieve_key cmp_key lh k key_hash = (if ?k < length ?c then Some (it_data (?c ! ?k)) else None)"
    by (simp add: OPENSSL_lh_retrieve_key_def get_next_ptr_by_key_def cmp_key item_at_def Let_def b_def p_def [abs_def])
  have dis: "distinct (item_keys key (items lh))" using wf by (simp add: lh_wf_def)
  have b: "b < length (buckets lh)" unfolding b_def by (rule bucket_bound [OF wf])
  show ?thesis
  proof (cases "?k < length ?c")
    case True
    then have "p (?c ! ?k)" by (rule chain_index_hit)
    moreover have "?c \<in> set (buckets lh)" "?c ! ?k \<in> set ?c" using True b by simp_all
    then have "?c ! ?k \<in> set (items lh)" by auto
    with calculation have "lh_map key lh k' = Some (it_data (?c ! ?k))"
      unfolding item_map_Some [OF dis] p_def by blast
    then show ?thesis using r True by simp
  next
    case False
    then have "\<forall>i \<in> set ?c. key (it_data i) \<noteq> k'" unfolding chain_index_miss p_def .
    then have "key (it_data i) \<noteq> k'" if "i \<in> set (items lh)" for i
      using in_bucket [OF wf that refl] hash [of "it_data i"] b_def by auto
    then have "k' \<notin> dom (lh_map key lh)" unfolding dom_item_map by (metis imageE)
    then show ?thesis using r False by (simp add: domIff)
  qed
qed

lemma doall:
  assumes wf: "lh_wf key h lh"
  shows "\<exists>xs lh'. distinct (map key xs) \<and> set xs = ran (lh_map key lh) \<and>
    OPENSSL_lh_doall_arg m f arg (Some lh) = (foldl f arg xs, Some lh') \<and> lh_map key lh' = lh_map key lh"
proof -
  obtain arg' lh' where d: "OPENSSL_lh_doall_arg m f arg (Some lh) = (arg', lh')" by (metis prod.collapse)
  have dis: "distinct (item_keys key (items lh))" using wf by (simp add: lh_wf_def)
  then have "ran (lh_map key lh) = set (map it_data (items lh))"
    unfolding item_map_def item_keys_def by (subst ran_distinct) (simp_all add: comp_def image_image image_Union)
  moreover have "distinct (map key (map it_data (items lh)))" using dis by (simp add: item_keys_def comp_def)
  ultimately show ?thesis using doall_result [OF wf d] d by metis
qed

end

section \<open>The tables of \<open>conf.c\<close>\<close>

definition cstr :: "bytes \<Rightarrow> bytes" where
  "cstr s = s @ [0]"

fun strcmp :: "bytes \<Rightarrow> bytes \<Rightarrow> int" where
  "strcmp (a # as) (b # bs) = (if a \<noteq> b then uint a - uint b else if a = 0 then 0 else strcmp as bs)"
| "strcmp _ _ = 0"

text \<open>\<open>OPENSSL_strhash\<close> on a terminated string; the other branch is not reached.\<close>

definition strhash :: "bytes \<Rightarrow> u32" where
  "strhash s = (case OPENSSL_strhash (cstr s) of Some v \<Rightarrow> v | None \<Rightarrow> 0)"

record conf_value =
  cv_section :: bytes
  cv_name :: bytes
  cv_value :: bytes

record conf_section =
  cs_name :: bytes
  cs_values :: "conf_value list"

definition conf_section_hash :: "conf_section \<Rightarrow> u32" where
  "conf_section_hash s = strhash (cs_name s)"

definition conf_section_cmp :: "conf_section \<Rightarrow> conf_section \<Rightarrow> int" where
  "conf_section_cmp a b = strcmp (cstr (cs_name a)) (cstr (cs_name b))"

definition conf_value_hash :: "conf_value \<Rightarrow> u32" where
  "conf_value_hash v =
    (let section_hash = strhash (cv_section v); name_hash = strhash (cv_name v)
     in push_bit 2 section_hash XOR name_hash)"

definition conf_value_cmp :: "conf_value \<Rightarrow> conf_value \<Rightarrow> int" where
  "conf_value_cmp a b =
    (let cmp = strcmp (cstr (cv_section a)) (cstr (cv_section b))
     in if cmp \<noteq> 0 then cmp else strcmp (cstr (cv_name a)) (cstr (cv_name b)))"

text \<open>What a string compares and hashes by: its characters up to a NUL.\<close>

definition chars :: "bytes \<Rightarrow> bytes" where
  "chars s = takeWhile (\<lambda>c. c \<noteq> 0) s"

lemma strcmp_zero: "strcmp (cstr a) (cstr b) = 0 \<longleftrightarrow> chars a = chars b"
proof (induction a b rule: list_induct2')
  case (4 x xs y ys)
  have "uint x - uint y = 0 \<longleftrightarrow> x = y" by (simp add: word_uint_eq_iff)
  with 4 show ?case by (auto simp: cstr_def chars_def)
qed (auto simp: cstr_def chars_def word_uint_eq_iff)

lemma strhash_chars: "strhash s = OPENSSL_hash32 (chars s)"
proof -
  have "strlen (cstr s) = Some (length (chars s)) \<and> take (length (chars s)) (cstr s) = chars s"
    by (induction s) (auto simp: cstr_def chars_def)
  then show ?thesis by (simp add: strhash_def OPENSSL_strhash_def)
qed

interpretation conf_sections: hash_contract "\<lambda>s. chars (cs_name s)" conf_section_hash conf_section_cmp
  by unfold_locales (simp_all add: conf_section_cmp_def conf_section_hash_def strcmp_zero strhash_chars)

interpretation conf_values: hash_contract "\<lambda>v. (chars (cv_section v), chars (cv_name v))" conf_value_hash conf_value_cmp
  by unfold_locales (simp_all add: conf_value_cmp_def conf_value_hash_def strcmp_zero strhash_chars Let_def)


section \<open>Properties\<close>

text \<open>C8. The hash table is a finite map: after any sequence of insertions, deletions and lookups on a new
  table, with allocation failures anywhere, every result is the one of the map from keys to elements. An
  insertion fails only when the key is new and there is no memory, and a failed resize goes unnoticed.\<close>

theorem lhash_refines_map:
  assumes "hash_contract key h cmp" "OPENSSL_lh_new m = Some lh"
  shows "fst (run (table_step h cmp) ops lh) = fst (run (map_step key) ops Map.empty)"
proof -
  have "run (map_step key) ops (lh_map key lh) =
      (fst (run (table_step h cmp) ops lh), lh_map key (snd (run (table_step h cmp) ops lh)))"
    by (rule hash_contract.run_refines [OF assms(1) lh_new_wf(1) [OF assms(2)]])
  then show ?thesis using lh_new_wf(2) [OF assms(2), of key] by simp
qed

theorem lhash_refines_map_witness:
  "\<exists>lh :: conf_section lhash. OPENSSL_lh_new (\<lambda>_. True) = Some lh \<and>
    fst (run (table_step conf_section_hash conf_section_cmp)
      [(\<lambda>_. True, Insert \<lparr>cs_name = [97], cs_values = []\<rparr>), (\<lambda>_. False, Insert \<lparr>cs_name = [98], cs_values = []\<rparr>),
       (\<lambda>_. False, Retrieve \<lparr>cs_name = [97, 0, 5], cs_values = []\<rparr>)] lh) =
    [Inserted True None, Inserted False None, Found (Some \<lparr>cs_name = [97], cs_values = []\<rparr>)]"
proof -
  obtain lh :: "conf_section lhash" where n: "OPENSSL_lh_new (\<lambda>_. True) = Some lh" by (simp add: OPENSSL_lh_new_def)
  show ?thesis
    unfolding n option.inject
    by (rule exI [of _ lh]) (simp add: lhash_refines_map [OF conf_sections.hash_contract_axioms n] chars_def del: run.simps, simp add: chars_def)
qed

text \<open>C31. In every table a program can build, every item sits in the bucket of its hash, no two items have the
  same key, the count is the number of items, and there are never fewer than 16 buckets.\<close>

theorem lhash_invariant:
  assumes "hash_contract key h cmp" "lh_reachable h cmp lh"
  shows "lh_wf key h lh"
  by (rule hash_contract.reachable_wf [OF assms])

theorem lhash_invariant_witness:
  "\<exists>lh :: conf_section lhash. OPENSSL_lh_new (\<lambda>_. True) = Some lh \<and> lh_wf (\<lambda>s. chars (cs_name s)) conf_section_hash lh"
proof -
  obtain lh :: "conf_section lhash" where n: "OPENSSL_lh_new (\<lambda>_. True) = Some lh" by (simp add: OPENSSL_lh_new_def)
  then show ?thesis using lhash_invariant [OF conf_sections.hash_contract_axioms lh_reachable.new [OF n]] by blast
qed

text \<open>A search with a foreign key (\<open>OPENSSL_lh_retrieve_key\<close>) finds the element with that key, provided
  \<open>key_hash\<close> is the hash the elements of that key have.\<close>

theorem lhash_retrieve_key:
  assumes "hash_contract key h cmp" "lh_reachable h cmp lh"
    "\<And>d. cmp_key k d = 0 \<longleftrightarrow> key d = k'" "\<And>d. key d = k' \<Longrightarrow> h d = key_hash"
  shows "OPENSSL_lh_retrieve_key cmp_key lh k key_hash = lh_map key lh k'"
  by (rule hash_contract.retrieve_key [of key h cmp, OF assms(1) hash_contract.reachable_wf [OF assms(1,2)]])
    (rule assms(3), rule assms(4))

theorem lhash_retrieve_key_witness:
  "\<exists>lh :: conf_section lhash. OPENSSL_lh_new (\<lambda>_. True) = Some lh \<and>
    OPENSSL_lh_retrieve_key (\<lambda>k s. strcmp (cstr k) (cstr (cs_name s))) lh [97] (strhash [97]) =
    lh_map (\<lambda>s. chars (cs_name s)) lh [97]"
proof -
  obtain lh :: "conf_section lhash" where n: "OPENSSL_lh_new (\<lambda>_. True) = Some lh" by (simp add: OPENSSL_lh_new_def)
  have c: "chars [97] = [97]" by (simp add: chars_def)
  have "OPENSSL_lh_retrieve_key (\<lambda>k s. strcmp (cstr k) (cstr (cs_name s))) lh [97] (strhash [97]) =
      lh_map (\<lambda>s. chars (cs_name s)) lh (chars [97])"
    by (rule lhash_retrieve_key [OF conf_sections.hash_contract_axioms lh_reachable.new [OF n]])
      (auto simp: strcmp_zero conf_section_hash_def strhash_chars)
  then show ?thesis unfolding c using n by blast
qed

text \<open>\<open>OPENSSL_lh_doall_arg\<close> calls the function once on every element of the table and on nothing else, and
  leaves the map as it was.\<close>

theorem lhash_doall:
  assumes "hash_contract key h cmp" "lh_reachable h cmp lh"
  shows "\<exists>xs lh'. distinct (map key xs) \<and> set xs = ran (lh_map key lh) \<and>
    OPENSSL_lh_doall_arg m f arg (Some lh) = (foldl f arg xs, Some lh') \<and> lh_map key lh' = lh_map key lh"
  by (rule hash_contract.doall [OF assms(1) hash_contract.reachable_wf [OF assms]])

theorem lhash_doall_witness:
  "\<exists>lh :: conf_section lhash. OPENSSL_lh_new (\<lambda>_. True) = Some lh \<and>
    (\<exists>xs lh'. distinct (map (\<lambda>s. chars (cs_name s)) xs) \<and> set xs = ran (lh_map (\<lambda>s. chars (cs_name s)) lh) \<and>
      OPENSSL_lh_doall_arg (\<lambda>_. True) (\<lambda>n _. n + 1) (0 :: nat) (Some lh) = (foldl (\<lambda>n _. n + 1) 0 xs, Some lh') \<and>
      lh_map (\<lambda>s. chars (cs_name s)) lh' = lh_map (\<lambda>s. chars (cs_name s)) lh)"
proof -
  obtain lh :: "conf_section lhash" where n: "OPENSSL_lh_new (\<lambda>_. True) = Some lh" by (simp add: OPENSSL_lh_new_def)
  show ?thesis
    by (rule exI [of _ lh], rule conjI [OF n],
        rule lhash_doall [OF conf_sections.hash_contract_axioms lh_reachable.new [OF n]])
qed

end
