(* ===== verification/Buf.thy ===== *)
theory Buf
  imports Mem
begin

text \<open>
  \<open>buf/buf.c\<close>, the growing buffer. \<open>bm_data\<close> is the allocated area (\<open>None\<close> for NULL), of \<open>bm_max\<close> bytes, of
  which \<open>bm_length\<close> are in use.
\<close>

section \<open>The code\<close>

record buf_mem =
  bm_length :: nat
  bm_data :: "bytes option"
  bm_max :: nat

definition sizeof_BUF_MEM :: nat where "sizeof_BUF_MEM = 24"

definition BUF_MEM_new :: "malloc \<Rightarrow> buf_mem option" where
  "BUF_MEM_new m =
    (case OPENSSL_zalloc m sizeof_BUF_MEM of
       None \<Rightarrow> None | Some _ \<Rightarrow> Some \<lparr>bm_length = 0, bm_data = None, bm_max = 0\<rparr>)"

definition BUF_MEM_reserve :: "malloc \<Rightarrow> buf_mem \<Rightarrow> nat \<Rightarrow> bool \<times> buf_mem" where
  "BUF_MEM_reserve m buf cap =
    (if bm_max buf \<ge> cap then (True, buf)
     else let n = size_add cap 3
          in if n < cap then (False, buf)
             else let n = n div 3; alloc_size = n * 4 mod 2 ^ 64
                  in if alloc_size div 4 \<noteq> n then (False, buf)
                     else case OPENSSL_realloc m (bm_data buf) alloc_size of
                            None \<Rightarrow> (False, buf)
                          | Some new_buf \<Rightarrow> (True, buf\<lparr>bm_data := Some new_buf, bm_max := alloc_size\<rparr>))"

text \<open>Writing \<open>bs\<close> at the end of the bytes in use.\<close>

definition bm_write :: "bytes \<Rightarrow> buf_mem \<Rightarrow> buf_mem" where
  "bm_write bs buf = buf\<lparr>bm_data := map_option (write_at (bm_length buf) bs) (bm_data buf)\<rparr>"

definition BUF_MEM_grow :: "malloc \<Rightarrow> buf_mem \<Rightarrow> nat \<Rightarrow> nat \<times> buf_mem" where
  "BUF_MEM_grow m buf len =
    (case BUF_MEM_reserve m buf len of
       (False, buf) \<Rightarrow> (0, buf)
     | (True, buf) \<Rightarrow>
         let buf = (if bm_length buf < len then bm_write (replicate (len - bm_length buf) 0) buf else buf)
         in (len, buf\<lparr>bm_length := len\<rparr>))"

definition BUF_MEM_grow_clean :: "malloc \<Rightarrow> buf_mem \<Rightarrow> nat \<Rightarrow> nat \<times> buf_mem" where
  "BUF_MEM_grow_clean m buf len = BUF_MEM_grow m buf len"

definition BUF_MEM_append :: "malloc \<Rightarrow> buf_mem \<Rightarrow> bytes \<Rightarrow> bool \<times> buf_mem" where
  "BUF_MEM_append m buf inp =
    (let len = length inp
     in if len = 0 then (True, buf)
        else let new_len = size_add (bm_length buf) len
             in if new_len < len then (False, buf)
                else case BUF_MEM_reserve m buf new_len of
                       (False, buf) \<Rightarrow> (False, buf)
                     | (True, buf) \<Rightarrow> (True, (bm_write inp buf)\<lparr>bm_length := new_len\<rparr>))"

text \<open>The remaining functions of the file are other names.\<close>

definition BUF_strdup :: "malloc \<Rightarrow> bytes option \<Rightarrow> bytes option" where
  "BUF_strdup m str = OPENSSL_strdup m str"

definition BUF_strnlen :: "bytes \<Rightarrow> nat \<Rightarrow> nat option" where
  "BUF_strnlen str max_len = OPENSSL_strnlen str max_len"

definition BUF_strndup :: "malloc \<Rightarrow> bytes \<Rightarrow> nat \<Rightarrow> bytes option" where
  "BUF_strndup m str n = OPENSSL_strndup m str n"

definition BUF_memdup :: "malloc \<Rightarrow> bytes \<Rightarrow> bytes option" where
  "BUF_memdup m data = OPENSSL_memdup m data"

section \<open>Contents\<close>

definition bm_wf :: "buf_mem \<Rightarrow> bool" where
  "bm_wf buf \<longleftrightarrow> bm_length buf \<le> bm_max buf \<and> bm_max buf < 2 ^ 64 \<and>
     (case bm_data buf of None \<Rightarrow> bm_max buf = 0 | Some d \<Rightarrow> length d = bm_max buf)"

definition bm_contents :: "buf_mem \<Rightarrow> bytes" where
  "bm_contents buf = (case bm_data buf of None \<Rightarrow> [] | Some d \<Rightarrow> take (bm_length buf) d)"

lemma bm_contents_update [simp]: "bm_contents (b\<lparr>bm_data := Some d, bm_length := n\<rparr>) = take n d"
  by (simp add: bm_contents_def)

lemma bm_contents_shrink: "bm_data b = Some d \<Longrightarrow> bm_contents (b\<lparr>bm_length := n\<rparr>) = take n d"
  by (simp add: bm_contents_def)

lemma length_bm_contents: "bm_wf buf \<Longrightarrow> length (bm_contents buf) = bm_length buf"
  by (auto simp: bm_wf_def bm_contents_def split: option.splits)

lemma realloc_area:
  assumes "malloc_ok m" "n < 2 ^ 64" "OPENSSL_realloc m d n = Some b"
  shows "length b = n" "d = Some old \<Longrightarrow> length old \<le> n \<Longrightarrow> take (length old) b = old"
proof -
  show "length b = n"
  proof (cases d)
    case None
    then show ?thesis using assms OPENSSL_malloc_length [of m n b] by (simp add: OPENSSL_realloc_def)
  next
    case (Some old)
    then show ?thesis using assms OPENSSL_realloc_prefix [of m n old b] by simp
  qed
  show "take (length old) b = old" if "d = Some old" "length old \<le> n"
    using OPENSSL_realloc_prefix [OF assms(1,2), of old b] assms(3) that by (simp add: min_def)
qed

lemma reserve_size:
  assumes "cap < 2 ^ 64" "size_add cap 3 \<ge> cap" "size_add cap 3 div 3 * 4 mod 2 ^ 64 div 4 = size_add cap 3 div 3"
  shows "cap \<le> size_add cap 3 div 3 * 4 mod 2 ^ 64"
proof -
  have "size_add cap 3 = cap + 3"
    using assms(1,2) size_add_overflow_iff [of cap 3] size_add_small [of cap 3] by (simp add: not_less)
  define n where "n = (cap + 3) div 3"
  define x where "x = n * 4 mod 2 ^ 64"
  have "x div 4 = n" using assms(3) \<open>size_add cap 3 = cap + 3\<close> by (simp add: x_def n_def)
  moreover have "x \<le> n * 4" unfolding x_def by (rule mod_less_eq_dividend)
  ultimately have "x = n * 4" by linarith
  then have "n * 4 mod 2 ^ 64 = n * 4" unfolding x_def .
  moreover have "cap \<le> n * 4" unfolding n_def by linarith
  ultimately show ?thesis using \<open>size_add cap 3 = cap + 3\<close> n_def by simp
qed

text \<open>Reserving keeps the contents, and on success there is room for \<open>cap\<close> bytes.\<close>

lemma reserve_spec:
  assumes "malloc_ok m" "bm_wf buf" "cap < 2 ^ 64" "BUF_MEM_reserve m buf cap = (ok, buf')"
  shows "bm_wf buf' \<and> bm_contents buf' = bm_contents buf \<and> bm_length buf' = bm_length buf \<and>
    (ok \<longrightarrow> cap \<le> bm_max buf')"
proof (cases "bm_max buf \<ge> cap \<or> \<not> ok")
  case True
  then show ?thesis using assms by (auto simp: BUF_MEM_reserve_def Let_def split: if_splits option.splits)
next
  case False
  define sz where "sz = size_add cap 3 div 3 * 4 mod 2 ^ 64"
  from False assms(4) obtain b where b: "OPENSSL_realloc m (bm_data buf) sz = Some b"
    "buf' = buf\<lparr>bm_data := Some b, bm_max := sz\<rparr>" "size_add cap 3 \<ge> cap" "sz div 4 = size_add cap 3 div 3"
    by (auto simp: BUF_MEM_reserve_def Let_def sz_def split: if_splits option.splits)
  have sz: "sz < 2 ^ 64" "cap \<le> sz" using reserve_size [OF assms(3) b(3)] b(4) by (simp_all add: sz_def)
  note r = realloc_area [OF assms(1) sz(1) b(1)]
  have "take (bm_length buf) b = take (bm_length buf) old \<and> bm_length buf \<le> length old" if "bm_data buf = Some old" for old
  proof -
    have l: "length old = bm_max buf" "bm_length buf \<le> bm_max buf" using assms(2) that by (simp_all add: bm_wf_def)
    then have "take (length old) b = old" using r(2) that False sz by simp
    then show ?thesis using l by (metis min.absorb1 take_take)
  qed
  then show ?thesis
    using assms(2) False sz r(1) by (auto simp: b(2) bm_wf_def bm_contents_def split: option.splits)
qed

lemma append_spec:
  assumes "malloc_ok m" "bm_wf buf" "length inp < 2 ^ 64" "BUF_MEM_append m buf inp = (ok, buf')"
  shows "bm_wf buf' \<and> bm_contents buf' = (if ok then bm_contents buf @ inp else bm_contents buf)"
proof (cases "inp = []")
  case True
  then show ?thesis using assms by (simp add: BUF_MEM_append_def)
next
  case False
  have len: "bm_length buf < 2 ^ 64" using assms(2) by (simp add: bm_wf_def)
  define n where "n = size_add (bm_length buf) (length inp)"
  have small: "n < 2 ^ 64" by (simp add: n_def size_add_def)
  show ?thesis
  proof (cases "n < length inp")
    case True
    then show ?thesis using assms False by (simp add: BUF_MEM_append_def flip: n_def)
  next
    case ok: False
    have n: "n = bm_length buf + length inp"
      using ok size_add_overflow_iff [OF assms(3) len] size_add_small [of "bm_length buf" "length inp"]
      by (simp add: n_def size_add_def add.commute)
    obtain r buf1 where r: "BUF_MEM_reserve m buf n = (r, buf1)" by fastforce
    note s = reserve_spec [OF assms(1,2) small r]
    show ?thesis
    proof (cases r)
      case True
      then have b: "ok" "buf' = (bm_write inp buf1)\<lparr>bm_length := n\<rparr>"
        using assms(4) False ok r by (simp_all add: BUF_MEM_append_def flip: n_def)
      obtain d where d: "bm_data buf1 = Some d" "length d = bm_max buf1"
        using s True False n by (auto simp: bm_wf_def split: option.splits)
      have "n \<le> length d" using s True d by simp
      moreover have "bm_contents buf = take (bm_length buf) d" using s d(1) by (metis bm_contents_def option.case(2))
      ultimately show ?thesis using s True b d n take_write_at [of "bm_length buf" inp d]
        by (simp add: bm_wf_def bm_write_def)
    next
      case False
      then show ?thesis using assms(4) \<open>inp \<noteq> []\<close> ok r s by (simp add: BUF_MEM_append_def flip: n_def)
    qed
  qed
qed

lemma grow_spec:
  assumes "malloc_ok m" "bm_wf buf" "len < 2 ^ 64" "BUF_MEM_grow m buf len = (r, buf')"
  shows "bm_wf buf' \<and> (r = len \<and> bm_contents buf' = take len (bm_contents buf) @ replicate (len - bm_length buf) 0 \<or>
    r = 0 \<and> bm_contents buf' = bm_contents buf)"
proof -
  obtain ok buf1 where r: "BUF_MEM_reserve m buf len = (ok, buf1)" by fastforce
  note s = reserve_spec [OF assms(1-3) r]
  show ?thesis
  proof (cases ok)
    case True
    show ?thesis
    proof (cases "bm_data buf1")
      case None
      then show ?thesis using s r True assms(4)
        by (auto simp: BUF_MEM_grow_def bm_wf_def bm_contents_def bm_write_def Let_def split: if_splits option.splits)
    next
      case (Some d)
      then have d: "length d = bm_max buf1" "len \<le> length d" "bm_length buf \<le> length d"
        using s True by (auto simp: bm_wf_def)
      have c: "bm_contents buf = take (bm_length buf) d" using s Some by (metis bm_contents_def option.case(2))
      show ?thesis
        using s r True assms(4) d Some take_write_at [of "bm_length buf" "replicate (len - bm_length buf) 0" d]
        by (auto simp: BUF_MEM_grow_def bm_wf_def c bm_contents_shrink bm_write_def Let_def min_def split: if_splits)
    qed
  next
    case False
    then show ?thesis using s r assms(4) by (simp add: BUF_MEM_grow_def)
  qed
qed

end
