(* ===== verification/Refcount.thy ===== *)
theory Refcount
  imports Prelude
begin

text \<open>
  The reference counts of \<open>refcount.c\<close>. Both functions are loops around a weak compare-and-exchange,
  which any number of threads may run at the same time on one counter. One iteration of a loop is one
  atomic step; a step of the system is a step of some thread, and the exchange may fail for no reason.
  The main result: every execution has the effect and the results of running the operations that have
  returned one after the other.
\<close>

section \<open>The code\<close>

definition CRYPTO_REFCOUNT_MAX :: u32 where "CRYPTO_REFCOUNT_MAX = 0xffffffff"

text \<open>
  The weak exchange: \<open>spurious\<close> is the choice of the machine. The result is whether it succeeded, the
  counter, and the new value of \<open>expected\<close>.
\<close>

definition CRYPTO_atomic_compare_exchange_weak_u32 :: "bool \<Rightarrow> u32 \<Rightarrow> u32 \<Rightarrow> u32 \<Rightarrow> bool \<times> u32 \<times> u32" where
  "CRYPTO_atomic_compare_exchange_weak_u32 spurious count expected desired =
    (if count = expected \<and> \<not> spurious then (True, desired, expected) else (False, count, count))"

text \<open>A thread is about to load the counter, in its loop with a value of \<open>expected\<close>, or done.\<close>

datatype refcount_pc = Load | Loop u32 | Returned bool | Aborted

datatype refcount_op = Refcount_inc | Refcount_dec

definition refcount_inc_step :: "bool \<Rightarrow> u32 \<Rightarrow> refcount_pc \<Rightarrow> u32 \<times> refcount_pc" where
  "refcount_inc_step spurious count pc =
    (case pc of
       Load \<Rightarrow> (count, Loop count)
     | Loop expected \<Rightarrow>
         if expected \<noteq> CRYPTO_REFCOUNT_MAX
         then (case CRYPTO_atomic_compare_exchange_weak_u32 spurious count expected (expected + 1) of
                 (True, count, expected) \<Rightarrow> (count, Returned False)
               | (False, count, expected) \<Rightarrow> (count, Loop expected))
         else (count, Returned False)
     | _ \<Rightarrow> (count, pc))"

definition refcount_dec_step :: "bool \<Rightarrow> u32 \<Rightarrow> refcount_pc \<Rightarrow> u32 \<times> refcount_pc" where
  "refcount_dec_step spurious count pc =
    (case pc of
       Load \<Rightarrow> (count, Loop count)
     | Loop expected \<Rightarrow>
         if expected = 0 then (count, Aborted)
         else if expected = CRYPTO_REFCOUNT_MAX then (count, Returned False)
         else (case CRYPTO_atomic_compare_exchange_weak_u32 spurious count expected (expected - 1) of
                 (True, count, expected) \<Rightarrow> (count, Returned (expected - 1 = 0))
               | (False, count, expected) \<Rightarrow> (count, Loop expected))
     | _ \<Rightarrow> (count, pc))"

fun refcount_step1 :: "refcount_op \<Rightarrow> bool \<Rightarrow> u32 \<Rightarrow> refcount_pc \<Rightarrow> u32 \<times> refcount_pc" where
  "refcount_step1 Refcount_inc = refcount_inc_step"
| "refcount_step1 Refcount_dec = refcount_dec_step"

text \<open>
  The system: thread \<open>t\<close> runs \<open>ops t\<close>. The list records the threads in the order in which they return.
\<close>

type_synonym refcount_state = "u32 \<times> (nat \<Rightarrow> refcount_pc) \<times> nat list"

inductive refcount_step :: "(nat \<Rightarrow> refcount_op) \<Rightarrow> refcount_state \<Rightarrow> refcount_state \<Rightarrow> bool"
  for ops :: "nat \<Rightarrow> refcount_op" where
  thread: "\<forall>r. pcs t \<noteq> Returned r \<Longrightarrow> pcs t \<noteq> Aborted \<Longrightarrow>
    refcount_step1 (ops t) spurious count (pcs t) = (count', pc') \<Longrightarrow>
    refcount_step ops (count, pcs, hist)
      (count', pcs(t := pc'), case pc' of Returned _ \<Rightarrow> hist @ [t] | _ \<Rightarrow> hist)"

inductive refcount_reach :: "(nat \<Rightarrow> refcount_op) \<Rightarrow> u32 \<Rightarrow> refcount_state \<Rightarrow> bool"
  for ops :: "nat \<Rightarrow> refcount_op" and c0 :: u32 where
  start: "refcount_reach ops c0 (c0, \<lambda>t. Load, [])"
| later: "refcount_reach ops c0 s \<Longrightarrow> refcount_step ops s s' \<Longrightarrow> refcount_reach ops c0 s'"

text \<open>A call that no other thread disturbs. \<open>None\<close> is \<open>abort\<close>.\<close>

definition CRYPTO_refcount_inc :: "u32 \<Rightarrow> u32" where
  "CRYPTO_refcount_inc count = (if count \<noteq> CRYPTO_REFCOUNT_MAX then count + 1 else count)"

definition CRYPTO_refcount_dec_and_test_zero :: "u32 \<Rightarrow> (bool \<times> u32) option" where
  "CRYPTO_refcount_dec_and_test_zero count =
    (if count = 0 then None
     else if count = CRYPTO_REFCOUNT_MAX then Some (False, count)
     else Some (count - 1 = 0, count - 1))"

section \<open>Linearization\<close>

fun refcount_seq1 :: "refcount_op \<Rightarrow> u32 \<Rightarrow> (bool \<times> u32) option" where
  "refcount_seq1 Refcount_inc c = Some (False, CRYPTO_refcount_inc c)"
| "refcount_seq1 Refcount_dec c = CRYPTO_refcount_dec_and_test_zero c"

text \<open>Running the operations one after the other, with their results.\<close>

fun refcount_seq :: "refcount_op list \<Rightarrow> u32 \<Rightarrow> (bool list \<times> u32) option" where
  "refcount_seq [] c = Some ([], c)"
| "refcount_seq (x # xs) c =
    (case refcount_seq1 x c of
       None \<Rightarrow> None
     | Some (r, c) \<Rightarrow> (case refcount_seq xs c of None \<Rightarrow> None | Some (rs, c) \<Rightarrow> Some (r # rs, c)))"

lemma refcount_seq_snoc:
  "refcount_seq (xs @ [x]) c =
    (case refcount_seq xs c of
       None \<Rightarrow> None
     | Some (rs, c) \<Rightarrow> (case refcount_seq1 x c of None \<Rightarrow> None | Some (r, c) \<Rightarrow> Some (rs @ [r], c)))"
  by (induction xs arbitrary: c) (auto split: option.splits)

text \<open>The linearization point: the step in which a thread returns.\<close>

lemma step1_cases:
  assumes "refcount_step1 x spurious c pc = (c', pc')" "\<forall>r. pc \<noteq> Returned r" "pc \<noteq> Aborted"
    "pc = Loop CRYPTO_REFCOUNT_MAX \<Longrightarrow> c = CRYPTO_REFCOUNT_MAX"
  obtains r where "pc' = Returned r" "refcount_seq1 x c = Some (r, c')"
  | "c' = c" "pc' = Loop c"
  | "c' = c" "pc' = Aborted" "x = Refcount_dec" "pc = Loop 0"
  using assms
  by (cases x; cases pc)
    (auto simp: refcount_inc_step_def refcount_dec_step_def CRYPTO_atomic_compare_exchange_weak_u32_def
      CRYPTO_refcount_inc_def CRYPTO_refcount_dec_and_test_zero_def split: if_splits)

text \<open>A saturated counter stays, so a thread that has loaded the maximum may rely on it.\<close>

lemma refcount_seq1_max: "refcount_seq1 x CRYPTO_REFCOUNT_MAX = Some (r, c) \<Longrightarrow> c = CRYPTO_REFCOUNT_MAX"
  by (cases x) (auto simp: CRYPTO_refcount_inc_def CRYPTO_refcount_dec_and_test_zero_def split: if_splits)

definition refcount_inv :: "(nat \<Rightarrow> refcount_op) \<Rightarrow> u32 \<Rightarrow> refcount_state \<Rightarrow> bool" where
  "refcount_inv ops c0 s =
    (case s of (c, pcs, hist) \<Rightarrow>
       (\<forall>t. pcs t = Loop CRYPTO_REFCOUNT_MAX \<longrightarrow> c = CRYPTO_REFCOUNT_MAX) \<and> distinct hist \<and>
       set hist = {t. \<exists>r. pcs t = Returned r} \<and>
       (\<exists>rs. refcount_seq (map ops hist) c0 = Some (rs, c) \<and> map pcs hist = map Returned rs))"

lemma refcount_inv_step:
  assumes "refcount_inv ops c0 s" "refcount_step ops s s'"
  shows "refcount_inv ops c0 s'"
  using assms(2)
proof (cases rule: refcount_step.cases)
  case (thread pcs t spurious count count' pc' hist)
  obtain rs where inv: "\<forall>t. pcs t = Loop CRYPTO_REFCOUNT_MAX \<longrightarrow> count = CRYPTO_REFCOUNT_MAX" "distinct hist"
    "set hist = {t. \<exists>r. pcs t = Returned r}"
    and rs: "refcount_seq (map ops hist) c0 = Some (rs, count)" "map pcs hist = map Returned rs"
    using assms(1) by (auto simp: thread(1) refcount_inv_def)
  define pcs' where "pcs' = pcs(t := pc')"
  have fresh: "t \<notin> set hist" using inv(3) thread(3) by simp
  then have upd: "map pcs' hist = map Returned rs" using rs(2) by (simp add: pcs'_def)
  have max: "pcs t = Loop CRYPTO_REFCOUNT_MAX \<Longrightarrow> count = CRYPTO_REFCOUNT_MAX" using inv(1) by blast
  then consider (returns) r where "pc' = Returned r" "refcount_seq1 (ops t) count = Some (r, count')"
    | (again) "count' = count" "pc' = Loop count" | (aborts) "count' = count" "pc' = Aborted"
    by (rule step1_cases [OF thread(5,3,4)]) blast+
  then show ?thesis
  proof cases
    case returns
    have "\<forall>u. pcs' u = Loop CRYPTO_REFCOUNT_MAX \<longrightarrow> count' = CRYPTO_REFCOUNT_MAX"
      using returns inv(1) refcount_seq1_max by (auto simp: pcs'_def)
    moreover have "set (hist @ [t]) = {u. \<exists>r. pcs' u = Returned r}"
      using inv(3) returns by (auto simp: pcs'_def)
    moreover have "map pcs' (hist @ [t]) = map Returned (rs @ [r])"
      using upd returns(1) by (simp add: pcs'_def)
    moreover have "refcount_seq (map ops (hist @ [t])) c0 = Some (rs @ [r], count')"
      using rs(1) returns(2) by (simp add: refcount_seq_snoc)
    ultimately have "refcount_inv ops c0 (count', pcs', hist @ [t])"
      using fresh inv(2) unfolding refcount_inv_def by auto
    then show ?thesis by (simp add: thread(2) pcs'_def returns(1))
  next
    case again
    have "set hist = {u. \<exists>r. pcs' u = Returned r}" using inv(3) again thread(3) by (auto simp: pcs'_def)
    moreover have "\<forall>u. pcs' u = Loop CRYPTO_REFCOUNT_MAX \<longrightarrow> count = CRYPTO_REFCOUNT_MAX"
      using inv(1) again by (auto simp: pcs'_def)
    ultimately have "refcount_inv ops c0 (count', pcs', hist)"
      using upd rs(1) inv(2) again(1) unfolding refcount_inv_def by auto
    then show ?thesis by (simp add: thread(2) pcs'_def again(2))
  next
    case aborts
    have "set hist = {u. \<exists>r. pcs' u = Returned r}" using inv(3) aborts thread(3) by (auto simp: pcs'_def)
    moreover have "\<forall>u. pcs' u = Loop CRYPTO_REFCOUNT_MAX \<longrightarrow> count = CRYPTO_REFCOUNT_MAX"
      using inv(1) aborts by (auto simp: pcs'_def)
    ultimately have "refcount_inv ops c0 (count', pcs', hist)"
      using upd rs(1) inv(2) aborts(1) unfolding refcount_inv_def by auto
    then show ?thesis by (simp add: thread(2) pcs'_def aborts(2))
  qed
qed

lemma refcount_inv_reach: "refcount_reach ops c0 s \<Longrightarrow> refcount_inv ops c0 s"
proof (induction rule: refcount_reach.induct)
  case start
  then show ?case by (simp add: refcount_inv_def)
next
  case (later s s')
  then show ?case by (blast intro: refcount_inv_step)
qed

section \<open>Callers that own their references\<close>

definition decs :: "refcount_op list \<Rightarrow> nat" where
  "decs xs = length (filter (\<lambda>x. x = Refcount_dec) xs)"

lemma decs_simps [simp]:
  "decs [] = 0" "decs (Refcount_inc # xs) = decs xs" "decs (Refcount_dec # xs) = Suc (decs xs)"
  by (simp_all add: decs_def)

lemma unat_inc: "unat (CRYPTO_refcount_inc c) \<ge> unat c"
proof (cases "c = CRYPTO_REFCOUNT_MAX")
  case False
  have "1 + c \<noteq> 0"
  proof
    assume "1 + c = 0"
    then have "c = - 1" by (metis add.commute eq_neg_iff_add_eq_0)
    then show False using False by (simp add: CRYPTO_REFCOUNT_MAX_def)
  qed
  then show ?thesis using unatSuc [of c] by (simp add: CRYPTO_refcount_inc_def add.commute)
qed (simp add: CRYPTO_refcount_inc_def)

lemma unat_dec: "(c :: u32) \<noteq> 0 \<Longrightarrow> unat (c - 1) = unat c - 1"
  by (simp add: unat_minus_one)

text \<open>The counter never falls by more than the number of decrements.\<close>

lemma refcount_seq_lower: "refcount_seq xs c = Some (rs, c') \<Longrightarrow> unat c \<le> unat c' + decs xs"
proof (induction xs arbitrary: c rs)
  case (Cons x xs)
  then obtain r c1 rs1 where s: "refcount_seq1 x c = Some (r, c1)" "refcount_seq xs c1 = Some (rs1, c')"
    by (auto split: option.splits)
  then have "unat c1 \<le> unat c' + decs xs" using Cons.IH by blast
  then show ?case
    using s(1) unat_inc [of c] unat_dec [of c]
    by (cases x) (auto simp: CRYPTO_refcount_dec_and_test_zero_def split: if_splits)
qed simp

lemma refcount_seq_true_dec:
  "refcount_seq xs c = Some (rs, c') \<Longrightarrow> i < length xs \<Longrightarrow> rs ! i \<Longrightarrow> xs ! i = Refcount_dec"
proof (induction xs arbitrary: c rs i)
  case (Cons x xs)
  then obtain r c1 rs1 where s: "refcount_seq1 x c = Some (r, c1)" "refcount_seq xs c1 = Some (rs1, c')" "rs = r # rs1"
    by (auto split: option.splits)
  show ?case
  proof (cases i)
    case 0
    then show ?thesis using Cons.prems s by (cases x) simp_all
  next
    case (Suc k)
    then show ?thesis using Cons.prems Cons.IH [OF s(2), of k] s(3) by simp
  qed
qed simp

lemma no_decs: "decs xs = 0 \<Longrightarrow> i < length xs \<Longrightarrow> xs ! i \<noteq> Refcount_dec"
  by (auto simp: decs_def filter_empty_conv)

lemma refcount_seq_true_once:
  "refcount_seq xs c = Some (rs, c') \<Longrightarrow> decs xs \<le> unat c \<Longrightarrow> i < j \<Longrightarrow> j < length xs \<Longrightarrow> rs ! i \<Longrightarrow> \<not> rs ! j"
proof (induction xs arbitrary: c rs i j)
  case (Cons x xs)
  then obtain r c1 rs1 where s: "refcount_seq1 x c = Some (r, c1)" "refcount_seq xs c1 = Some (rs1, c')" "rs = r # rs1"
    by (auto split: option.splits)
  obtain k where k: "j = Suc k" using Cons.prems(3) by (cases j) auto
  have d: "decs xs \<le> unat c1"
    using s(1) Cons.prems(2) unat_inc [of c] unat_dec [of c]
    by (cases x) (auto simp: CRYPTO_refcount_dec_and_test_zero_def split: if_splits)
  show ?case
  proof (cases i)
    case 0
    then have "c1 = 0" using Cons.prems(5) s
      by (cases x) (auto simp: CRYPTO_refcount_dec_and_test_zero_def split: if_splits)
    then have "decs xs = 0" using d by simp
    then show ?thesis using refcount_seq_true_dec [OF s(2)] no_decs [of xs k] Cons.prems(4) k s(3) by auto
  next
    case (Suc l)
    then show ?thesis using Cons.IH [OF s(2) d, of l k] Cons.prems k s(3) by simp
  qed
qed simp

lemma decs_map: "distinct hist \<Longrightarrow> decs (map ops hist) = card {t \<in> set hist. ops t = Refcount_dec}"
  by (simp add: decs_def filter_map comp_def distinct_card [symmetric])

text \<open>Enough references for every thread that gives one back.\<close>

definition owners_ok :: "(nat \<Rightarrow> refcount_op) \<Rightarrow> u32 \<Rightarrow> bool" where
  "owners_ok ops c0 \<longleftrightarrow> finite {t. ops t = Refcount_dec} \<and> card {t. ops t = Refcount_dec} \<le> unat c0"

lemma owners_decs: "owners_ok ops c0 \<Longrightarrow> distinct hist \<Longrightarrow> decs (map ops hist) \<le> unat c0"
  by (auto simp: owners_ok_def decs_map intro: card_mono order.trans)

lemma owner_sees_reference:
  assumes "owners_ok ops c0" "refcount_inv ops c0 (c, pcs, hist)" "ops t = Refcount_dec" "t \<notin> set hist"
  shows "c \<noteq> 0"
proof
  assume "c = 0"
  obtain rs where rs: "refcount_seq (map ops hist) c0 = Some (rs, c)" and d: "distinct hist"
    using assms(2) by (auto simp: refcount_inv_def)
  have "{u \<in> set hist. ops u = Refcount_dec} \<subset> {u. ops u = Refcount_dec}" using assms(3,4) by auto
  moreover have "finite {u. ops u = Refcount_dec}" "card {u. ops u = Refcount_dec} \<le> unat c0"
    using assms(1) by (simp_all add: owners_ok_def)
  ultimately have "card {u \<in> set hist. ops u = Refcount_dec} < unat c0"
    by (metis (no_types, lifting) less_le_trans psubset_card_mono)
  then have "decs (map ops hist) < unat c0" by (simp add: decs_map d)
  then show False using refcount_seq_lower [OF rs] \<open>c = 0\<close> by simp
qed

lemma owners_no_abort:
  assumes "refcount_reach ops c0 s" "owners_ok ops c0"
  shows "case s of (c, pcs, hist) \<Rightarrow> \<forall>t. pcs t \<noteq> Aborted \<and> (ops t = Refcount_dec \<longrightarrow> pcs t \<noteq> Loop 0)"
  using assms(1)
proof (induction rule: refcount_reach.induct)
  case start
  then show ?case by simp
next
  case (later s s')
  from later.hyps(2) show ?case
  proof (cases rule: refcount_step.cases)
    case (thread pcs t spurious count count' pc' hist)
    have inv: "refcount_inv ops c0 (count, pcs, hist)"
      using refcount_inv_reach [OF later.hyps(1)] by (simp add: thread(1))
    have fresh: "t \<notin> set hist" using inv thread(3) by (simp add: refcount_inv_def)
    have max: "pcs t = Loop CRYPTO_REFCOUNT_MAX \<Longrightarrow> count = CRYPTO_REFCOUNT_MAX"
      using inv by (auto simp: refcount_inv_def)
    have "pc' \<noteq> Aborted \<and> (ops t = Refcount_dec \<longrightarrow> pc' \<noteq> Loop 0)"
      using later.IH owner_sees_reference [OF assms(2) inv _ fresh]
      by (rule_tac step1_cases [OF thread(5,3,4) max]) (auto simp: thread(1))
    then show ?thesis using later.IH by (simp add: thread(1,2))
  qed
qed

section \<open>Results\<close>

text \<open>C9. Any number of threads that increment and decrement one reference count at the same time, with
  exchanges failing at will, see the results and leave the count of some order in which the calls that
  have returned ran one after the other.\<close>

theorem refcount_linearizable:
  assumes "refcount_reach ops c0 (c, pcs, hist)"
  shows "distinct hist \<and> set hist = {t. \<exists>r. pcs t = Returned r} \<and>
    (\<exists>rs. refcount_seq (map ops hist) c0 = Some (rs, c) \<and> map pcs hist = map Returned rs)"
  using refcount_inv_reach [OF assms] by (simp add: refcount_inv_def)

definition one_dec :: "nat \<Rightarrow> refcount_op" where
  "one_dec t = (if t = 0 then Refcount_dec else Refcount_inc)"

lemma one_dec_runs: "refcount_reach one_dec 1 (0, (\<lambda>t. Load)(0 := Returned True), [0])"
proof -
  have 1: "refcount_step one_dec (1, \<lambda>t. Load, []) (1, (\<lambda>t. Load)(0 := Loop 1), [])"
    using refcount_step.thread [of "\<lambda>t. Load" 0 one_dec False 1 1 "Loop 1" "[]"]
    by (simp add: one_dec_def refcount_dec_step_def)
  have 2: "refcount_step one_dec (1, (\<lambda>t. Load)(0 := Loop 1), []) (0, (\<lambda>t. Load)(0 := Returned True), [0])"
    using refcount_step.thread [of "(\<lambda>t. Load)(0 := Loop 1)" 0 one_dec False 1 0 "Returned True" "[]"]
    by (simp add: one_dec_def refcount_dec_step_def CRYPTO_REFCOUNT_MAX_def
        CRYPTO_atomic_compare_exchange_weak_u32_def)
  show ?thesis
    using refcount_reach.later [OF refcount_reach.later [OF refcount_reach.start 1] 2] .
qed

theorem refcount_linearizable_witness:
  "distinct [0 :: nat] \<and> set [0 :: nat] = {t. \<exists>r. ((\<lambda>t. Load)(0 := Returned True)) t = Returned r} \<and>
    (\<exists>rs. refcount_seq (map one_dec [0]) 1 = Some (rs, 0) \<and>
      map ((\<lambda>t. Load)(0 := Returned True)) [0 :: nat] = map Returned rs)"
  using refcount_linearizable [OF one_dec_runs] .

text \<open>C35. When there is a reference for every thread that gives one back, no thread aborts, and at most
  one is told that it gave back the last reference.\<close>

theorem refcount_one_last:
  assumes "refcount_reach ops c0 (c, pcs, hist)" "owners_ok ops c0"
  shows "pcs t \<noteq> Aborted \<and> (pcs t = Returned True \<and> pcs u = Returned True \<longrightarrow> t = u)"
proof -
  obtain rs where rs: "refcount_seq (map ops hist) c0 = Some (rs, c)" "map pcs hist = map Returned rs"
    and d: "distinct hist" "set hist = {t. \<exists>r. pcs t = Returned r}"
    using refcount_inv_reach [OF assms(1)] unfolding refcount_inv_def by blast
  have "t = u" if "pcs t = Returned True" "pcs u = Returned True"
  proof -
    have "t \<in> set hist" "u \<in> set hist" using that d(2) by auto
    then obtain i j where i: "i < length hist" "hist ! i = t" and j: "j < length hist" "hist ! j = u"
      by (auto simp: in_set_conv_nth)
    have len: "length rs = length hist" using rs(2) by (metis length_map)
    have nth: "pcs (hist ! k) = Returned (rs ! k)" if "k < length hist" for k
      using arg_cong [OF rs(2), of "\<lambda>l. l ! k"] that len by simp
    have "rs ! i" "rs ! j" using nth [OF i(1)] nth [OF j(1)] that i j by simp_all
    then have "i = j"
      using refcount_seq_true_once [OF rs(1) owners_decs [OF assms(2) d(1)], of i j]
        refcount_seq_true_once [OF rs(1) owners_decs [OF assms(2) d(1)], of j i] i(1) j(1)
      by (cases i j rule: linorder_cases) simp_all
    then show ?thesis using i j by simp
  qed
  then show ?thesis using owners_no_abort [OF assms] by simp
qed

theorem refcount_one_last_witness:
  "\<exists>pcs. refcount_reach one_dec 1 (0, pcs, [0]) \<and> owners_ok one_dec 1 \<and>
    (\<forall>t. pcs t \<noteq> Aborted) \<and> {t. pcs t = Returned True} = {0}"
proof -
  have "{t. one_dec t = Refcount_dec} = {0}" by (auto simp: one_dec_def)
  then have ok: "owners_ok one_dec 1" by (simp add: owners_ok_def)
  define pcs where "pcs = (\<lambda>t :: nat. Load)(0 := Returned True)"
  have runs: "refcount_reach one_dec 1 (0, pcs, [0])" unfolding pcs_def by (rule one_dec_runs)
  have at0: "pcs 0 = Returned True" by (simp add: pcs_def)
  have safe: "pcs t \<noteq> Aborted" for t by (rule refcount_one_last [OF runs ok, THEN conjunct1])
  have "t = 0" if "pcs t = Returned True" for t
    by (rule refcount_one_last [OF runs ok, THEN conjunct2, THEN mp, OF conjI [OF that at0]])
  then have "{t. pcs t = Returned True} = {0}" using at0 by blast
  then show ?thesis using runs ok safe by blast
qed

end
