(* ===== verification/BIO.thy ===== *)
theory BIO
  imports Buf Refcount "HOL-Library.Monad_Syntax"
begin

text \<open>
  The I/O objects of \<open>bio/\<close>: the objects themselves with the flag operations of \<open>bio.c\<close>, the two
  in-memory methods \<open>pair.c\<close> and \<open>bio_mem.c\<close>, and the dispatch of \<open>bio.c\<close>. All objects live in a store
  that maps addresses to objects, because the halves of a pair point to each other. A step is a
  function from a store to a result and a store; \<open>None\<close> is a failed assertion or an access to an object
  that is not there. The error queue is left out.
\<close>

section \<open>Objects\<close>

datatype bio_method = mem_method | methods_biop

record bio_bio_st =
  peer :: "nat option"
  closed :: bool
  b_len :: nat
  b_offset :: nat
  b_size :: nat
  b_buf :: "bytes option"
  b_request :: nat

text \<open>
  \<open>bio->ptr\<close>. Of a memory BIO over a caller's buffer, \<open>MemPtr\<close> also holds the bytes in front of
  \<open>b->data\<close>, to which the pointer can go back.
\<close>

datatype bio_ptr = NullPtr | PairPtr bio_bio_st | MemPtr buf_mem bytes

text \<open>The control commands these methods know, and any other number.\<close>

datatype bio_cmd = BIO_CTRL_RESET | BIO_CTRL_EOF | BIO_CTRL_INFO | BIO_CTRL_GET_CLOSE | BIO_CTRL_SET_CLOSE
  | BIO_CTRL_PENDING | BIO_CTRL_FLUSH | BIO_CTRL_WPENDING | BIO_C_SET_BUF_MEM | BIO_C_GET_BUF_MEM_PTR
  | BIO_C_SET_BUF_MEM_EOF_RETURN | BIO_C_GET_WRITE_BUF_SIZE | BIO_C_SHUTDOWN_WR
  | BIO_C_GET_WRITE_GUARANTEE | BIO_C_GET_READ_REQUEST | BIO_C_RESET_READ_REQUEST | BIO_other_cmd int

text \<open>The pointer argument of a control command, and what the command stores behind it.\<close>

datatype ctrl_arg = NullArg | BioArg nat | BufArg buf_mem | OutArg
datatype ctrl_out = NoOut | DataOut "bytes option" | BufOut buf_mem

text \<open>Casts to \<open>int\<close> and \<open>long\<close>.\<close>

definition cast_int :: "int \<Rightarrow> int" where "cast_int x = (x + 2 ^ 31) mod 2 ^ 32 - 2 ^ 31"
definition cast_long :: "int \<Rightarrow> int" where "cast_long x = (x + 2 ^ 63) mod 2 ^ 64 - 2 ^ 63"

lemma cast_int_id [simp]: "- (2 ^ 31) \<le> x \<Longrightarrow> x < 2 ^ 31 \<Longrightarrow> cast_int x = x"
  by (simp add: cast_int_def)

lemma cast_long_id [simp]: "- (2 ^ 63) \<le> x \<Longrightarrow> x < 2 ^ 63 \<Longrightarrow> cast_long x = x"
  by (simp add: cast_long_def)

record bio =
  io_method :: bio_method
  io_init :: bool
  io_shutdown :: int
  io_flags :: u32
  io_retry_reason :: int
  io_num :: int
  io_references :: u32
  io_ptr :: bio_ptr
  io_next :: "nat option"
  io_num_read :: u64
  io_num_write :: u64

type_synonym bios = "nat \<rightharpoonup> bio"

definition BIO_FLAGS_READ :: u32 where "BIO_FLAGS_READ = 0x01"
definition BIO_FLAGS_WRITE :: u32 where "BIO_FLAGS_WRITE = 0x02"
definition BIO_FLAGS_IO_SPECIAL :: u32 where "BIO_FLAGS_IO_SPECIAL = 0x04"
definition BIO_FLAGS_RWS :: u32 where "BIO_FLAGS_RWS = BIO_FLAGS_READ OR BIO_FLAGS_WRITE OR BIO_FLAGS_IO_SPECIAL"
definition BIO_FLAGS_SHOULD_RETRY :: u32 where "BIO_FLAGS_SHOULD_RETRY = 0x08"
definition BIO_FLAGS_MEM_RDONLY :: u32 where "BIO_FLAGS_MEM_RDONLY = 0x200"
definition kRetryFlags :: u32 where "kRetryFlags = BIO_FLAGS_RWS OR BIO_FLAGS_SHOULD_RETRY"

text \<open>The flag operations work on one object.\<close>

definition BIO_set_flags :: "u32 \<Rightarrow> bio \<Rightarrow> bio" where
  "BIO_set_flags f bio = bio\<lparr>io_flags := io_flags bio OR f\<rparr>"

definition BIO_test_flags :: "bio \<Rightarrow> u32 \<Rightarrow> u32" where
  "BIO_test_flags bio f = io_flags bio AND f"

definition BIO_should_read :: "bio \<Rightarrow> u32" where
  "BIO_should_read bio = BIO_test_flags bio BIO_FLAGS_READ"

definition BIO_should_write :: "bio \<Rightarrow> u32" where
  "BIO_should_write bio = BIO_test_flags bio BIO_FLAGS_WRITE"

definition BIO_should_retry :: "bio \<Rightarrow> u32" where
  "BIO_should_retry bio = BIO_test_flags bio BIO_FLAGS_SHOULD_RETRY"

definition BIO_should_io_special :: "bio \<Rightarrow> u32" where
  "BIO_should_io_special bio = BIO_test_flags bio BIO_FLAGS_IO_SPECIAL"

definition BIO_set_retry_reason :: "int \<Rightarrow> bio \<Rightarrow> bio" where
  "BIO_set_retry_reason reason bio = bio\<lparr>io_retry_reason := reason\<rparr>"

definition BIO_clear_flags :: "u32 \<Rightarrow> bio \<Rightarrow> bio" where
  "BIO_clear_flags f bio = bio\<lparr>io_flags := io_flags bio AND NOT f\<rparr>"

definition BIO_set_retry_read :: "bio \<Rightarrow> bio" where
  "BIO_set_retry_read bio = bio\<lparr>io_flags := io_flags bio OR (BIO_FLAGS_READ OR BIO_FLAGS_SHOULD_RETRY)\<rparr>"

definition BIO_set_retry_write :: "bio \<Rightarrow> bio" where
  "BIO_set_retry_write bio = bio\<lparr>io_flags := io_flags bio OR (BIO_FLAGS_WRITE OR BIO_FLAGS_SHOULD_RETRY)\<rparr>"

definition BIO_set_retry_special :: "bio \<Rightarrow> bio" where
  "BIO_set_retry_special bio = bio\<lparr>io_flags := io_flags bio OR (BIO_FLAGS_READ OR BIO_FLAGS_IO_SPECIAL)\<rparr>"

definition BIO_get_retry_flags :: "bio \<Rightarrow> u32" where
  "BIO_get_retry_flags bio = io_flags bio AND kRetryFlags"

definition BIO_clear_retry_flags :: "bio \<Rightarrow> bio" where
  "BIO_clear_retry_flags bio = bio\<lparr>io_flags := io_flags bio AND NOT kRetryFlags, io_retry_reason := 0\<rparr>"

definition BIO_copy_next_retry :: "bios \<Rightarrow> nat \<Rightarrow> bios option" where
  "BIO_copy_next_retry h a = do {
     bio \<leftarrow> h a;
     nx \<leftarrow> io_next bio;
     next_bio \<leftarrow> (h(a \<mapsto> BIO_clear_retry_flags bio)) nx;
     let bio = BIO_set_flags (BIO_get_retry_flags next_bio) (BIO_clear_retry_flags bio);
     Some (h(a \<mapsto> bio\<lparr>io_retry_reason := io_retry_reason next_bio\<rparr>)) }"

text \<open>\<open>assert\<close>, and changing the data behind \<open>ptr\<close>.\<close>

definition assert :: "bool \<Rightarrow> unit option" where
  "assert b = (if b then Some () else None)"

definition pair_of :: "bio \<Rightarrow> bio_bio_st option" where
  "pair_of bio = (case io_ptr bio of PairPtr b \<Rightarrow> Some b | _ \<Rightarrow> None)"

definition mem_of :: "bio \<Rightarrow> (buf_mem \<times> bytes) option" where
  "mem_of bio = (case io_ptr bio of MemPtr b pre \<Rightarrow> Some (b, pre) | _ \<Rightarrow> None)"

definition put_ptr :: "nat \<Rightarrow> bio_ptr \<Rightarrow> bios \<Rightarrow> bios" where
  "put_ptr a p h = h(a := map_option (\<lambda>bio. bio\<lparr>io_ptr := p\<rparr>) (h a))"

definition on_bio :: "nat \<Rightarrow> (bio \<Rightarrow> bio) \<Rightarrow> bios \<Rightarrow> bios" where
  "on_bio a f h = h(a := map_option f (h a))"

section \<open>The pair\<close>

definition bio_new :: "malloc \<Rightarrow> bio \<Rightarrow> bool \<times> bio" where
  "bio_new m bio =
    (case OPENSSL_zalloc m 56 of
       None \<Rightarrow> (False, bio)
     | Some _ \<Rightarrow> (True, bio\<lparr>io_ptr := PairPtr \<lparr>peer = None, closed = False, b_len = 0, b_offset = 0,
                    b_size = 17 * 1024, b_buf = None, b_request = 0\<rparr>\<rparr>))"

definition bio_destroy_pair :: "bios \<Rightarrow> nat \<Rightarrow> bios option" where
  "bio_destroy_pair h a = do {
     bio \<leftarrow> h a;
     case io_ptr bio of
       NullPtr \<Rightarrow> Some h
     | MemPtr _ _ \<Rightarrow> None
     | PairPtr b \<Rightarrow>
         (case peer b of
            None \<Rightarrow> Some h
          | Some pa \<Rightarrow> do {
              peer_bio \<leftarrow> h pa;
              peer_b \<leftarrow> pair_of peer_bio;
              assert (peer peer_b = Some a);
              assert (b_buf peer_b \<noteq> None);
              let h = on_bio pa (\<lambda>bio. bio\<lparr>io_init := False,
                        io_ptr := PairPtr (peer_b\<lparr>peer := None, b_len := 0, b_offset := 0\<rparr>)\<rparr>) h;
              assert (b_buf b \<noteq> None);
              Some (on_bio a (\<lambda>bio. bio\<lparr>io_init := False,
                      io_ptr := PairPtr (b\<lparr>peer := None, b_len := 0, b_offset := 0\<rparr>)\<rparr>) h) }) }"

text \<open>\<open>bio_free\<close> frees what \<open>ptr\<close> points to.\<close>

definition bio_free :: "bios \<Rightarrow> nat \<Rightarrow> (int \<times> bios) option" where
  "bio_free h a = do {
     bio \<leftarrow> h a;
     b \<leftarrow> pair_of bio;
     h \<leftarrow> (if peer b \<noteq> None then bio_destroy_pair h a else Some h);
     Some (1, put_ptr a NullPtr h) }"

text \<open>The copying loop of \<open>bio_read\<close>: the ring, the rest to read, what has been read.\<close>

partial_function (option) ring_read :: "bio_bio_st \<Rightarrow> bytes \<Rightarrow> nat \<Rightarrow> bytes \<Rightarrow> (bytes \<times> bio_bio_st) option" where
  "ring_read b buf rest out =
    (if \<not> rest \<le> b_len b then None
     else let chunk = (if b_offset b + rest \<le> b_size b then rest else b_size b - b_offset b)
          in if \<not> b_offset b + chunk \<le> b_size b then None
             else let out = out @ take chunk (drop (b_offset b) buf);
                      b = b\<lparr>b_len := b_len b - chunk\<rparr>;
                      b = (if b_len b \<noteq> 0
                           then b\<lparr>b_offset := (if b_offset b + chunk = b_size b then 0 else b_offset b + chunk)\<rparr>
                           else b\<lparr>b_offset := 0\<rparr>)
                  in if b_len b = 0 \<and> chunk \<noteq> rest then None
                     else if rest - chunk \<noteq> 0 then ring_read b buf (rest - chunk) out
                     else Some (out, b))"

definition bio_read :: "bios \<Rightarrow> nat \<Rightarrow> bool \<Rightarrow> nat \<Rightarrow> (int \<times> bytes \<times> bios) option" where
  "bio_read h a buf_null sz = do {
     bio \<leftarrow> h a;
     let h = on_bio a BIO_clear_retry_flags h;
     if \<not> io_init bio then Some (0, [], h)
     else do {
       b \<leftarrow> pair_of bio;
       pa \<leftarrow> peer b;
       peer_bio \<leftarrow> h pa;
       peer_b \<leftarrow> pair_of peer_bio;
       buf \<leftarrow> b_buf peer_b;
       let peer_b = peer_b\<lparr>b_request := 0\<rparr>;
       if buf_null \<or> sz = 0 then Some (0, [], put_ptr pa (PairPtr peer_b) h)
       else if b_len peer_b = 0 then
         (if closed peer_b then Some (0, [], put_ptr pa (PairPtr peer_b) h)
          else let peer_b = peer_b\<lparr>b_request := (if sz \<le> b_size peer_b then sz else b_size peer_b)\<rparr>
               in Some (- 1, [], put_ptr pa (PairPtr peer_b) (on_bio a BIO_set_retry_read h)))
       else do {
         let sz = (if b_len peer_b < sz then b_len peer_b else sz);
         assert (sz > 0);
         (out, peer_b) \<leftarrow> ring_read peer_b buf sz [];
         Some (int sz, out, put_ptr pa (PairPtr peer_b) h) } } }"

text \<open>The copying loop of \<open>bio_write\<close>.\<close>

partial_function (option) ring_write :: "bio_bio_st \<Rightarrow> bytes \<Rightarrow> nat \<Rightarrow> bytes \<Rightarrow> (bytes \<times> bio_bio_st) option" where
  "ring_write b buf rest inp =
    (if \<not> b_len b + rest \<le> b_size b then None
     else let write_offset = b_offset b + b_len b;
              write_offset = (if write_offset \<ge> b_size b then write_offset - b_size b else write_offset);
              chunk = (if write_offset + rest \<le> b_size b then rest else b_size b - write_offset);
              buf = write_at write_offset (take chunk inp) buf;
              b = b\<lparr>b_len := b_len b + chunk\<rparr>
          in if \<not> b_len b \<le> b_size b then None
             else if rest - chunk \<noteq> 0 then ring_write b buf (rest - chunk) (drop chunk inp)
             else Some (buf, b))"

definition bio_write :: "bios \<Rightarrow> nat \<Rightarrow> bytes option \<Rightarrow> (int \<times> bios) option" where
  "bio_write h a inp = do {
     bio \<leftarrow> h a;
     let h = on_bio a BIO_clear_retry_flags h;
     if \<not> io_init bio \<or> inp = None \<or> inp = Some [] then Some (0, h)
     else do {
       data \<leftarrow> inp;
       b \<leftarrow> pair_of bio;
       _ \<leftarrow> peer b;
       buf \<leftarrow> b_buf b;
       let b = b\<lparr>b_request := 0\<rparr>;
       let h = put_ptr a (PairPtr b) h;
       if closed b then Some (- 1, h)
       else do {
         assert (b_len b \<le> b_size b);
         if b_len b = b_size b then Some (- 1, on_bio a BIO_set_retry_write h)
         else do {
           let num = (if length data > b_size b - b_len b then b_size b - b_len b else length data);
           assert (num > 0);
           (buf, b) \<leftarrow> ring_write b buf num data;
           Some (int num, put_ptr a (PairPtr (b\<lparr>b_buf := Some buf\<rparr>)) h) } } } }"

definition bio_alloc_buf :: "malloc \<Rightarrow> nat \<Rightarrow> bio_bio_st \<Rightarrow> bool \<times> bio_bio_st" where
  "bio_alloc_buf m writebuf_len b =
    (if b_buf b \<noteq> None then (True, b)
     else let b = (if writebuf_len \<noteq> 0 then b\<lparr>b_size := writebuf_len\<rparr> else b)
          in case OPENSSL_malloc m (b_size b) of
               None \<Rightarrow> (False, b)
             | Some buf \<Rightarrow> (True, b\<lparr>b_buf := Some buf, b_len := 0, b_offset := 0\<rparr>))"

definition bio_make_pair :: "malloc \<Rightarrow> malloc \<Rightarrow> bios \<Rightarrow> nat \<Rightarrow> nat \<Rightarrow> nat \<Rightarrow> nat \<Rightarrow> (bool \<times> bios) option" where
  "bio_make_pair m1 m2 h a1 a2 writebuf1_len writebuf2_len = do {
     bio1 \<leftarrow> h a1;
     bio2 \<leftarrow> h a2;
     b1 \<leftarrow> pair_of bio1;
     b2 \<leftarrow> pair_of bio2;
     if peer b1 \<noteq> None \<or> peer b2 \<noteq> None then Some (False, h)
     else case bio_alloc_buf m1 writebuf1_len b1 of
            (False, b1) \<Rightarrow> Some (False, put_ptr a1 (PairPtr b1) h)
          | (True, b1) \<Rightarrow>
              (case bio_alloc_buf m2 writebuf2_len b2 of
                 (False, b2) \<Rightarrow> Some (False, put_ptr a2 (PairPtr b2) (put_ptr a1 (PairPtr b1) h))
               | (True, b2) \<Rightarrow>
                   (let b1 = b1\<lparr>peer := Some a2, closed := False, b_request := 0\<rparr>;
                        b2 = b2\<lparr>peer := Some a1, closed := False, b_request := 0\<rparr>;
                        h = on_bio a1 (\<lambda>bio. bio\<lparr>io_init := True, io_ptr := PairPtr b1\<rparr>) h;
                        h = on_bio a2 (\<lambda>bio. bio\<lparr>io_init := True, io_ptr := PairPtr b2\<rparr>) h
                    in Some (True, h))) }"

definition bio_ctrl :: "bios \<Rightarrow> nat \<Rightarrow> bio_cmd \<Rightarrow> int \<Rightarrow> ctrl_arg \<Rightarrow> (int \<times> ctrl_out \<times> bios) option" where
  "bio_ctrl h a cmd num arg = do {
     bio \<leftarrow> h a;
     b \<leftarrow> pair_of bio;
     case cmd of
       BIO_C_GET_WRITE_BUF_SIZE \<Rightarrow> Some (cast_long (int (b_size b)), NoOut, h)
     | BIO_C_GET_WRITE_GUARANTEE \<Rightarrow>
         Some (if peer b = None \<or> closed b then 0 else cast_long (int (b_size b) - int (b_len b)), NoOut, h)
     | BIO_C_GET_READ_REQUEST \<Rightarrow> Some (cast_long (int (b_request b)), NoOut, h)
     | BIO_C_RESET_READ_REQUEST \<Rightarrow> Some (1, NoOut, put_ptr a (PairPtr (b\<lparr>b_request := 0\<rparr>)) h)
     | BIO_C_SHUTDOWN_WR \<Rightarrow> Some (1, NoOut, put_ptr a (PairPtr (b\<lparr>closed := True\<rparr>)) h)
     | BIO_CTRL_GET_CLOSE \<Rightarrow> Some (io_shutdown bio, NoOut, h)
     | BIO_CTRL_SET_CLOSE \<Rightarrow> Some (1, NoOut, on_bio a (\<lambda>bio. bio\<lparr>io_shutdown := cast_int num\<rparr>) h)
     | BIO_CTRL_PENDING \<Rightarrow>
         (case peer b of
            None \<Rightarrow> Some (0, NoOut, h)
          | Some pa \<Rightarrow> do {
              peer_bio \<leftarrow> h pa;
              peer_b \<leftarrow> pair_of peer_bio;
              Some (cast_long (int (b_len peer_b)), NoOut, h) })
     | BIO_CTRL_WPENDING \<Rightarrow> Some (if b_buf b \<noteq> None then cast_long (int (b_len b)) else 0, NoOut, h)
     | BIO_CTRL_FLUSH \<Rightarrow> Some (1, NoOut, h)
     | BIO_CTRL_EOF \<Rightarrow>
         (case arg of
            BioArg oa \<Rightarrow> do {
              other_bio \<leftarrow> h oa;
              other_b \<leftarrow> pair_of other_bio;
              Some (if b_len other_b = 0 \<and> closed other_b then 1 else 0, NoOut, h) }
          | NullArg \<Rightarrow> Some (1, NoOut, h)
          | _ \<Rightarrow> None)
     | _ \<Rightarrow> Some (0, NoOut, h) }"

end
