(* ===== verification/BIO_Mem.thy ===== *)
theory BIO_Mem
  imports BIO
begin

text \<open>
  The memory BIO, \<open>bio/bio_mem.c\<close>. A method works on one object. \<open>None\<close> is an access outside the buffer.
\<close>

section \<open>The methods\<close>

definition mem_new :: "malloc \<Rightarrow> bio \<Rightarrow> bool \<times> bio" where
  "mem_new m bio =
    (case BUF_MEM_new m of
       None \<Rightarrow> (False, bio)
     | Some b \<Rightarrow> (True, bio\<lparr>io_shutdown := 1, io_init := True, io_num := - 1, io_ptr := MemPtr b []\<rparr>))"

text \<open>Freeing the buffer leaves the pointer NULL.\<close>

definition mem_free :: "bio \<Rightarrow> int \<times> bio" where
  "mem_free bio =
    (if io_shutdown bio = 0 \<or> \<not> io_init bio \<or> io_ptr bio = NullPtr then (1, bio)
     else (1, bio\<lparr>io_ptr := NullPtr\<rparr>))"

definition rdonly :: "bio \<Rightarrow> bool" where
  "rdonly bio \<longleftrightarrow> io_flags bio AND BIO_FLAGS_MEM_RDONLY \<noteq> 0"

definition mem_read :: "bio \<Rightarrow> int \<Rightarrow> (int \<times> bytes \<times> bio) option" where
  "mem_read bio outl =
    (let bio = BIO_clear_retry_flags bio
     in if outl \<le> 0 then Some (0, [], bio)
        else do {
          (b, pre) \<leftarrow> mem_of bio;
          let ret = (if nat outl > bm_length b then int (bm_length b) else outl);
          if ret > 0 then do {
            data \<leftarrow> bm_data b;
            assert (nat ret \<le> length data);
            let out = take (nat ret) data;
            let b = b\<lparr>bm_length := bm_length b - nat ret\<rparr>;
            if rdonly bio
            then Some (ret, out, bio\<lparr>io_ptr := MemPtr (b\<lparr>bm_data := Some (drop (nat ret) data)\<rparr>) (pre @ out)\<rparr>)
            else do {
              assert (nat ret + bm_length b \<le> length data);
              let moved = write_at 0 (take (bm_length b) (drop (nat ret) data)) data;
              Some (ret, out, bio\<lparr>io_ptr := MemPtr (b\<lparr>bm_data := Some moved\<rparr>) pre\<rparr>) } }
          else if bm_length b = 0 then
            Some (io_num bio, [], if io_num bio \<noteq> 0 then BIO_set_retry_read bio else bio)
          else Some (ret, [], bio) })"

definition mem_write :: "malloc \<Rightarrow> bio \<Rightarrow> bytes \<Rightarrow> (int \<times> bio) option" where
  "mem_write m bio inp =
    (let bio = BIO_clear_retry_flags bio
     in if inp = [] then Some (0, bio)
        else if rdonly bio then Some (- 1, bio)
        else do {
          (b, pre) \<leftarrow> mem_of bio;
          case BUF_MEM_append m b inp of
            (False, b) \<Rightarrow> Some (- 1, bio\<lparr>io_ptr := MemPtr b pre\<rparr>)
          | (True, b) \<Rightarrow> Some (int (length inp), bio\<lparr>io_ptr := MemPtr b pre\<rparr>) })"

text \<open>\<open>OPENSSL_memchr\<close>: the position of the first byte \<open>c\<close>.\<close>

fun memchr :: "bytes \<Rightarrow> u8 \<Rightarrow> nat option" where
  "memchr [] c = None"
| "memchr (x # xs) c = (if x = c then Some 0 else map_option Suc (memchr xs c))"

text \<open>The result holds the bytes stored in the caller's buffer, the NUL at the end included.\<close>

definition mem_gets :: "bio \<Rightarrow> int \<Rightarrow> (int \<times> bytes \<times> bio) option" where
  "mem_gets bio sz =
    (let bio = BIO_clear_retry_flags bio
     in if sz \<le> 0 then Some (0, [], bio)
        else do {
          (b, _) \<leftarrow> mem_of bio;
          let ret = (if nat (sz - 1) > bm_length b then int (bm_length b) else sz - 1);
          let data = (case bm_data b of None \<Rightarrow> [] | Some d \<Rightarrow> d);
          assert (nat ret \<le> length data);
          let ret = (case memchr (take (nat ret) data) 10 of None \<Rightarrow> ret | Some i \<Rightarrow> int i + 1);
          (ret, out, bio) \<leftarrow> mem_read bio ret;
          Some (ret, if ret \<ge> 0 then out @ [0] else out, bio) })"

definition mem_ctrl :: "bio \<Rightarrow> bio_cmd \<Rightarrow> int \<Rightarrow> ctrl_arg \<Rightarrow> (int \<times> ctrl_out \<times> bio) option" where
  "mem_ctrl bio cmd num arg =
    (case cmd of
       BIO_CTRL_RESET \<Rightarrow> do {
         (b, pre) \<leftarrow> mem_of bio;
         case bm_data b of
           None \<Rightarrow> Some (1, NoOut, bio)
         | Some data \<Rightarrow>
             (if rdonly bio then do {
                let back = bm_max b - bm_length b;
                assert (bm_length b \<le> bm_max b \<and> back \<le> length pre);
                let n = length pre - back;
                Some (1, NoOut, bio\<lparr>io_ptr := MemPtr (b\<lparr>bm_data := Some (drop n pre @ data), bm_length := bm_max b\<rparr>)
                  (take n pre)\<rparr>) }
              else do {
                assert (bm_max b \<le> length data);
                Some (1, NoOut, bio\<lparr>io_ptr := MemPtr (b\<lparr>bm_data := Some (write_at 0 (replicate (bm_max b) 0) data),
                  bm_length := 0\<rparr>) pre\<rparr>) }) }
     | BIO_CTRL_EOF \<Rightarrow> do {
         (b, pre) \<leftarrow> mem_of bio;
         Some (if bm_length b = 0 then 1 else 0, NoOut, bio) }
     | BIO_C_SET_BUF_MEM_EOF_RETURN \<Rightarrow> Some (1, NoOut, bio\<lparr>io_num := cast_int num\<rparr>)
     | BIO_CTRL_INFO \<Rightarrow> do {
         (b, pre) \<leftarrow> mem_of bio;
         Some (cast_long (int (bm_length b)), if arg = OutArg then DataOut (bm_data b) else NoOut, bio) }
     | BIO_C_SET_BUF_MEM \<Rightarrow>
         (let bio = (snd (mem_free bio))\<lparr>io_shutdown := cast_int num\<rparr>
          in case arg of
               BufArg b \<Rightarrow> Some (1, NoOut, bio\<lparr>io_ptr := MemPtr b []\<rparr>)
             | NullArg \<Rightarrow> Some (1, NoOut, bio\<lparr>io_ptr := NullPtr\<rparr>)
             | _ \<Rightarrow> None)
     | BIO_C_GET_BUF_MEM_PTR \<Rightarrow> do {
         (b, pre) \<leftarrow> mem_of bio;
         Some (1, if arg = OutArg then BufOut b else NoOut, bio) }
     | BIO_CTRL_GET_CLOSE \<Rightarrow> Some (io_shutdown bio, NoOut, bio)
     | BIO_CTRL_SET_CLOSE \<Rightarrow> Some (1, NoOut, bio\<lparr>io_shutdown := cast_int num\<rparr>)
     | BIO_CTRL_WPENDING \<Rightarrow> Some (0, NoOut, bio)
     | BIO_CTRL_PENDING \<Rightarrow> do {
         (b, pre) \<leftarrow> mem_of bio;
         Some (cast_long (int (bm_length b)), NoOut, bio) }
     | BIO_CTRL_FLUSH \<Rightarrow> Some (1, NoOut, bio)
     | _ \<Rightarrow> Some (0, NoOut, bio))"

end
