(* ===== verification/BIO_Generic.thy ===== *)
theory BIO_Generic
  imports BIO_Mem
begin

text \<open>
  The operations of \<open>bio/bio.c\<close>, which dispatch to the method of an object. A pointer to an object is an
  address or \<open>None\<close> for NULL. Where the code allocates an object, its address is an argument.
\<close>

section \<open>Objects and chains\<close>

definition bio_create :: "malloc \<Rightarrow> bio_method \<Rightarrow> bio \<Rightarrow> bool \<times> bio" where
  "bio_create m method = (case method of mem_method \<Rightarrow> mem_new m | methods_biop \<Rightarrow> bio_new m)"

definition BIO_new :: "malloc \<Rightarrow> bios \<Rightarrow> bio_method \<Rightarrow> nat \<Rightarrow> nat option \<times> bios" where
  "BIO_new m h method a =
    (case OPENSSL_zalloc m 72 of
       None \<Rightarrow> (None, h)
     | Some _ \<Rightarrow>
         let ret = \<lparr>io_method = method, io_init = False, io_shutdown = 1, io_flags = 0, io_retry_reason = 0,
                     io_num = 0, io_references = 1, io_ptr = NullPtr, io_next = None, io_num_read = 0, io_num_write = 0\<rparr>
         in case bio_create m method ret of
              (False, _) \<Rightarrow> (None, h)
            | (True, ret) \<Rightarrow> (Some a, h(a \<mapsto> ret)))"

definition BIO_pop :: "bios \<Rightarrow> nat option \<Rightarrow> (nat option \<times> bios) option" where
  "BIO_pop h p =
    (case p of
       None \<Rightarrow> Some (None, h)
     | Some a \<Rightarrow> do {
         bio \<leftarrow> h a;
         Some (io_next bio, h(a \<mapsto> bio\<lparr>io_next := None\<rparr>)) })"

definition bio_destroy :: "bios \<Rightarrow> nat \<Rightarrow> bios option" where
  "bio_destroy h a = do {
     bio \<leftarrow> h a;
     case io_method bio of
       mem_method \<Rightarrow> Some (h(a \<mapsto> snd (mem_free bio)))
     | methods_biop \<Rightarrow> map_option snd (bio_free h a) }"

partial_function (option) BIO_free :: "bios \<Rightarrow> nat option \<Rightarrow> (int \<times> bios) option" where
  "BIO_free h p =
    (case p of
       None \<Rightarrow> Some (1, h)
     | Some a \<Rightarrow> do {
         bio \<leftarrow> h a;
         (zero, refs) \<leftarrow> CRYPTO_refcount_dec_and_test_zero (io_references bio);
         let h = h(a \<mapsto> bio\<lparr>io_references := refs\<rparr>);
         if \<not> zero then Some (0, h)
         else do {
           (next_bio, h) \<leftarrow> BIO_pop h (Some a);
           h \<leftarrow> bio_destroy h a;
           BIO_free (h(a := None)) next_bio } })"

definition BIO_up_ref :: "bios \<Rightarrow> nat \<Rightarrow> (int \<times> bios) option" where
  "BIO_up_ref h a = do {
     bio \<leftarrow> h a;
     Some (1, h(a \<mapsto> bio\<lparr>io_references := CRYPTO_refcount_inc (io_references bio)\<rparr>)) }"

partial_function (option) last_bio :: "bios \<Rightarrow> nat \<Rightarrow> nat option" where
  "last_bio h a = do {
     bio \<leftarrow> h a;
     case io_next bio of None \<Rightarrow> Some a | Some nx \<Rightarrow> last_bio h nx }"

definition BIO_push :: "bios \<Rightarrow> nat option \<Rightarrow> nat option \<Rightarrow> (nat option \<times> bios) option" where
  "BIO_push h p appended_bio =
    (case p of
       None \<Rightarrow> Some (None, h)
     | Some a \<Rightarrow> do {
         l \<leftarrow> last_bio h a;
         Some (p, on_bio l (\<lambda>bio. bio\<lparr>io_next := appended_bio\<rparr>) h) })"

definition BIO_next :: "bios \<Rightarrow> nat option \<Rightarrow> nat option option" where
  "BIO_next h p = (case p of None \<Rightarrow> Some None | Some a \<Rightarrow> map_option io_next (h a))"

definition BIO_TYPE_SOURCE_SINK :: u32 where "BIO_TYPE_SOURCE_SINK = 0x0400"

definition bio_method_type :: "bio_method \<Rightarrow> u32" where
  "bio_method_type method =
    (case method of mem_method \<Rightarrow> 1 OR BIO_TYPE_SOURCE_SINK | methods_biop \<Rightarrow> 19 OR BIO_TYPE_SOURCE_SINK)"

definition BIO_method_type :: "bio \<Rightarrow> u32" where
  "BIO_method_type bio = bio_method_type (io_method bio)"

partial_function (option) BIO_find_type :: "bios \<Rightarrow> nat option \<Rightarrow> u32 \<Rightarrow> nat option option" where
  "BIO_find_type h p type =
    (case p of
       None \<Rightarrow> Some None
     | Some a \<Rightarrow> do {
         bio \<leftarrow> h a;
         let mask_bits = type AND 0xff;
         let method_type = BIO_method_type bio;
         if (if mask_bits = 0 then method_type AND type \<noteq> 0 else method_type = type) then Some p
         else BIO_find_type h (io_next bio) type })"

text \<open>Numbers for new types, from \<open>g_index\<close>.\<close>

definition BIO_get_new_index :: "int \<Rightarrow> int \<times> int" where
  "BIO_get_new_index g_index = (if g_index > 255 then (- 1, g_index) else (g_index, g_index + 1))"

section \<open>Reading and writing\<close>

definition bread :: "bios \<Rightarrow> nat \<Rightarrow> bio \<Rightarrow> int \<Rightarrow> (int \<times> bytes \<times> bios) option" where
  "bread h a bio len =
    (case io_method bio of
       mem_method \<Rightarrow> map_option (\<lambda>(ret, out, bio). (ret, out, h(a \<mapsto> bio))) (mem_read bio len)
     | methods_biop \<Rightarrow> bio_read h a False (nat len))"

definition count_read :: "nat \<Rightarrow> int \<times> bytes \<times> bios \<Rightarrow> int \<times> bytes \<times> bios" where
  "count_read a r =
    (case r of (ret, out, h) \<Rightarrow>
       (ret, out, if ret > 0 then on_bio a (\<lambda>bio. bio\<lparr>io_num_read := io_num_read bio + of_int ret\<rparr>) h else h))"

definition BIO_read :: "bios \<Rightarrow> nat option \<Rightarrow> int \<Rightarrow> (int \<times> bytes \<times> bios) option" where
  "BIO_read h p len =
    (case p of
       None \<Rightarrow> Some (- 2, [], h)
     | Some a \<Rightarrow> do {
         bio \<leftarrow> h a;
         if \<not> io_init bio then Some (- 2, [], h)
         else if len \<le> 0 then Some (0, [], h)
         else map_option (count_read a) (bread h a bio len) })"

text \<open>The pair has no \<open>bgets\<close>.\<close>

definition BIO_gets :: "bios \<Rightarrow> nat option \<Rightarrow> int \<Rightarrow> (int \<times> bytes \<times> bios) option" where
  "BIO_gets h p len =
    (case p of
       None \<Rightarrow> Some (- 2, [], h)
     | Some a \<Rightarrow> do {
         bio \<leftarrow> h a;
         if io_method bio = methods_biop then Some (- 2, [], h)
         else if \<not> io_init bio then Some (- 2, [], h)
         else if len \<le> 0 then Some (0, [], h)
         else do {
           (ret, out, bio) \<leftarrow> mem_gets bio len;
           Some (count_read a (ret, out, h(a \<mapsto> bio))) } })"

definition bwrite :: "malloc \<Rightarrow> bios \<Rightarrow> nat \<Rightarrow> bio \<Rightarrow> bytes \<Rightarrow> (int \<times> bios) option" where
  "bwrite m h a bio inp =
    (case io_method bio of
       mem_method \<Rightarrow> map_option (\<lambda>(ret, bio). (ret, h(a \<mapsto> bio))) (mem_write m bio inp)
     | methods_biop \<Rightarrow> bio_write h a (Some inp))"

definition BIO_write :: "malloc \<Rightarrow> bios \<Rightarrow> nat option \<Rightarrow> bytes \<Rightarrow> int \<Rightarrow> (int \<times> bios) option" where
  "BIO_write m h p inp inl =
    (case p of
       None \<Rightarrow> Some (- 2, h)
     | Some a \<Rightarrow> do {
         bio \<leftarrow> h a;
         if \<not> io_init bio then Some (- 2, h)
         else if inl \<le> 0 then Some (0, h)
         else do {
           assert (nat inl \<le> length inp);
           (ret, h) \<leftarrow> bwrite m h a bio (take (nat inl) inp);
           Some (ret, if ret > 0 then on_bio a (\<lambda>bio. bio\<lparr>io_num_write := io_num_write bio + of_int ret\<rparr>) h else h) } })"

partial_function (option) BIO_write_all :: "malloc \<Rightarrow> bios \<Rightarrow> nat option \<Rightarrow> bytes \<Rightarrow> (int \<times> bios) option" where
  "BIO_write_all m h p data =
    (if length data > 0 then do {
       (ret, h) \<leftarrow> BIO_write m h p data (if length data > INT_MAX then int INT_MAX else int (length data));
       if ret \<le> 0 then Some (0, h)
       else do {
         assert (nat ret \<le> length data);
         BIO_write_all m h p (drop (nat ret) data) } }
     else Some (1, h))"

definition BIO_puts :: "malloc \<Rightarrow> bios \<Rightarrow> nat option \<Rightarrow> bytes \<Rightarrow> (int \<times> bios) option" where
  "BIO_puts m h p inp = do {
     len \<leftarrow> strlen inp;
     if len > INT_MAX then Some (- 1, h) else BIO_write m h p inp (int len) }"

fun indent_loop :: "malloc \<Rightarrow> bios \<Rightarrow> nat option \<Rightarrow> nat \<Rightarrow> (int \<times> bios) option" where
  "indent_loop m h p 0 = Some (1, h)"
| "indent_loop m h p (Suc n) = do {
     (ret, h) \<leftarrow> BIO_puts m h p [32, 0];
     if ret \<noteq> 1 then Some (0, h) else indent_loop m h p n }"

definition BIO_indent :: "malloc \<Rightarrow> bios \<Rightarrow> nat option \<Rightarrow> u32 \<Rightarrow> u32 \<Rightarrow> (int \<times> bios) option" where
  "BIO_indent m h p indent max_indent =
    indent_loop m h p (unat (if indent > max_indent then max_indent else indent))"

section \<open>Control\<close>

definition BIO_ctrl :: "bios \<Rightarrow> nat option \<Rightarrow> bio_cmd \<Rightarrow> int \<Rightarrow> ctrl_arg \<Rightarrow> (int \<times> ctrl_out \<times> bios) option" where
  "BIO_ctrl h p cmd larg parg =
    (case p of
       None \<Rightarrow> Some (0, NoOut, h)
     | Some a \<Rightarrow> do {
         bio \<leftarrow> h a;
         case io_method bio of
           mem_method \<Rightarrow> map_option (\<lambda>(ret, out, bio). (ret, out, h(a \<mapsto> bio))) (mem_ctrl bio cmd larg parg)
         | methods_biop \<Rightarrow> bio_ctrl h a cmd larg parg })"

text \<open>The calls that only cast the result of \<open>BIO_ctrl\<close> to \<open>int\<close>.\<close>

definition int_ctrl :: "bios \<Rightarrow> nat option \<Rightarrow> bio_cmd \<Rightarrow> int \<Rightarrow> ctrl_arg \<Rightarrow> (int \<times> bios) option" where
  "int_ctrl h p cmd larg parg = map_option (\<lambda>(ret, out, h). (cast_int ret, h)) (BIO_ctrl h p cmd larg parg)"

definition BIO_flush :: "bios \<Rightarrow> nat option \<Rightarrow> (int \<times> bios) option" where
  "BIO_flush h p = int_ctrl h p BIO_CTRL_FLUSH 0 NullArg"

definition BIO_reset :: "bios \<Rightarrow> nat option \<Rightarrow> (int \<times> bios) option" where
  "BIO_reset h p = int_ctrl h p BIO_CTRL_RESET 0 NullArg"

definition BIO_eof :: "bios \<Rightarrow> nat option \<Rightarrow> (int \<times> bios) option" where
  "BIO_eof h p = int_ctrl h p BIO_CTRL_EOF 0 NullArg"

definition BIO_set_close :: "bios \<Rightarrow> nat option \<Rightarrow> int \<Rightarrow> (int \<times> bios) option" where
  "BIO_set_close h p close_flag = int_ctrl h p BIO_CTRL_SET_CLOSE close_flag NullArg"

definition BIO_shutdown_wr :: "bios \<Rightarrow> nat option \<Rightarrow> (int \<times> bios) option" where
  "BIO_shutdown_wr h p = int_ctrl h p BIO_C_SHUTDOWN_WR 0 NullArg"

definition BIO_set_mem_eof_return :: "bios \<Rightarrow> nat option \<Rightarrow> int \<Rightarrow> (int \<times> bios) option" where
  "BIO_set_mem_eof_return h p eof_value = int_ctrl h p BIO_C_SET_BUF_MEM_EOF_RETURN eof_value NullArg"

definition BIO_set_mem_buf :: "bios \<Rightarrow> nat option \<Rightarrow> buf_mem \<Rightarrow> int \<Rightarrow> (int \<times> bios) option" where
  "BIO_set_mem_buf h p b take_ownership = int_ctrl h p BIO_C_SET_BUF_MEM take_ownership (BufArg b)"

definition BIO_get_mem_ptr :: "bios \<Rightarrow> nat option \<Rightarrow> (int \<times> ctrl_out \<times> bios) option" where
  "BIO_get_mem_ptr h p =
    map_option (\<lambda>(ret, out, h). (cast_int ret, out, h)) (BIO_ctrl h p BIO_C_GET_BUF_MEM_PTR 0 OutArg)"

definition BIO_get_mem_data :: "bios \<Rightarrow> nat option \<Rightarrow> (int \<times> ctrl_out \<times> bios) option" where
  "BIO_get_mem_data h p = BIO_ctrl h p BIO_CTRL_INFO 0 OutArg"

definition BIO_ptr_ctrl :: "bios \<Rightarrow> nat option \<Rightarrow> bio_cmd \<Rightarrow> int \<Rightarrow> (ctrl_out \<times> bios) option" where
  "BIO_ptr_ctrl h p cmd larg = do {
     (ret, out, h) \<leftarrow> BIO_ctrl h p cmd larg OutArg;
     Some (if ret \<le> 0 then NoOut else out, h) }"

text \<open>The sizes: a \<open>long\<close> asserted to be non-negative, or cast to \<open>size_t\<close>.\<close>

definition size_ctrl :: "bios \<Rightarrow> nat option \<Rightarrow> bio_cmd \<Rightarrow> nat option" where
  "size_ctrl h p cmd = do {
     (r, _, _) \<leftarrow> BIO_ctrl h p cmd 0 NullArg;
     assert (r \<ge> 0);
     Some (nat r) }"

definition BIO_pending :: "bios \<Rightarrow> nat option \<Rightarrow> nat option" where
  "BIO_pending h p = size_ctrl h p BIO_CTRL_PENDING"

definition BIO_ctrl_pending :: "bios \<Rightarrow> nat option \<Rightarrow> nat option" where
  "BIO_ctrl_pending h p = BIO_pending h p"

definition BIO_wpending :: "bios \<Rightarrow> nat option \<Rightarrow> nat option" where
  "BIO_wpending h p = size_ctrl h p BIO_CTRL_WPENDING"

definition BIO_ctrl_get_read_request :: "bios \<Rightarrow> nat option \<Rightarrow> nat option" where
  "BIO_ctrl_get_read_request h p = do {
     (r, _, _) \<leftarrow> BIO_ctrl h p BIO_C_GET_READ_REQUEST 0 NullArg;
     Some (nat (r mod 2 ^ 64)) }"

definition BIO_ctrl_get_write_guarantee :: "bios \<Rightarrow> nat option \<Rightarrow> nat option" where
  "BIO_ctrl_get_write_guarantee h p = do {
     (r, _, _) \<leftarrow> BIO_ctrl h p BIO_C_GET_WRITE_GUARANTEE 0 NullArg;
     Some (nat (r mod 2 ^ 64)) }"

section \<open>Making memory BIOs and pairs\<close>

definition BIO_new_mem_buf :: "malloc \<Rightarrow> bios \<Rightarrow> nat \<Rightarrow> bytes option \<Rightarrow> int \<Rightarrow> (nat option \<times> bios) option" where
  "BIO_new_mem_buf m h a buf len = do {
     sz \<leftarrow> (if len < 0 then do { s \<leftarrow> buf; strlen s } else Some (nat len));
     if buf = None \<and> len \<noteq> 0 then Some (None, h)
     else case BIO_new m h mem_method a of
            (None, h) \<Rightarrow> Some (None, h)
          | (Some a, h) \<Rightarrow> do {
              ret \<leftarrow> h a;
              (b, _) \<leftarrow> mem_of ret;
              let b = b\<lparr>bm_data := buf, bm_length := sz, bm_max := sz\<rparr>;
              let ret = ret\<lparr>io_ptr := MemPtr b [], io_flags := io_flags ret OR BIO_FLAGS_MEM_RDONLY, io_num := 0\<rparr>;
              Some (Some a, h(a \<mapsto> ret)) } }"

definition BIO_mem_contents :: "bio \<Rightarrow> (bytes option \<times> nat) option option" where
  "BIO_mem_contents bio =
    (if io_method bio \<noteq> mem_method then Some None
     else do {
       (b, _) \<leftarrow> mem_of bio;
       Some (Some (bm_data b, bm_length b)) })"

text \<open>The three allocators are those of the two objects and of the buffers.\<close>

definition BIO_new_bio_pair ::
    "malloc \<Rightarrow> malloc \<Rightarrow> malloc \<Rightarrow> bios \<Rightarrow> nat \<Rightarrow> nat \<Rightarrow> nat \<Rightarrow> nat \<Rightarrow> ((nat \<times> nat) option \<times> bios) option" where
  "BIO_new_bio_pair m1 m2 m3 h a1 a2 writebuf1_len writebuf2_len =
    (let (bio1, h) = BIO_new m1 h methods_biop a1; (bio2, h) = BIO_new m2 h methods_biop a2
     in do {
       (ok, h) \<leftarrow> (case (bio1, bio2) of
                    (Some x, Some y) \<Rightarrow> bio_make_pair m3 m3 h x y writebuf1_len writebuf2_len
                  | _ \<Rightarrow> Some (False, h));
       if \<not> ok then do {
         (_, h) \<leftarrow> BIO_free h bio1;
         (_, h) \<leftarrow> BIO_free h bio2;
         Some (None, h) }
       else Some (Some (a1, a2), h) })"

end
