(* ===== verification/BIO_Asn1.thy ===== *)
theory BIO_Asn1
  imports BIO_Generic
begin

text \<open>
  The end of \<open>bio/bio.c\<close>: reading a given number of bytes, all bytes, or one ASN.1 object. The object to
  read from may have any method; here it is the function \<open>rd\<close> that \<open>BIO_read\<close> is on it, with the state it
  works on. \<open>BIO_reader p\<close> is that function for the methods of this development.
\<close>

section \<open>The code\<close>

type_synonym 's bio_reader = "'s \<Rightarrow> int \<Rightarrow> (int \<times> bytes \<times> 's) option"

definition BIO_reader :: "nat option \<Rightarrow> bios bio_reader" where
  "BIO_reader p h len = BIO_read h p len"

definition size_sub :: "nat \<Rightarrow> nat \<Rightarrow> nat" where
  "size_sub a b = nat ((int a - int b) mod 2 ^ 64)"

lemma size_sub_small [simp]: "b \<le> a \<Longrightarrow> a < 2 ^ 64 \<Longrightarrow> size_sub a b = a - b"
proof -
  assume b: "b \<le> a" "a < 2 ^ 64"
  define d where "d = a - b"
  have d: "int a - int b = int d" "int d < 2 ^ 64" using b by (simp_all add: d_def of_nat_diff)
  have "size_sub a b = nat (int d mod 2 ^ 64)" unfolding size_sub_def d(1) ..
  also have "\<dots> = d" using d(2) by simp
  finally show ?thesis by (simp add: d_def)
qed

text \<open>
  \<open>bio_read_full\<close>: the bytes read so far and the rest of the length. The result is whether all were
  read, the bytes, and \<open>*out_eof_on_first_read\<close>. A read of more bytes than asked for would write
  outside the buffer.
\<close>

partial_function (option) read_full_loop ::
    "'s bio_reader \<Rightarrow> 's \<Rightarrow> bool \<Rightarrow> bytes \<Rightarrow> nat \<Rightarrow> (bool \<times> bytes \<times> bool \<times> 's) option" where
  "read_full_loop rd s first_read out len =
    (if len > 0 then do {
       (ret, bs, s) \<leftarrow> rd s (if len \<le> INT_MAX then int len else int INT_MAX);
       if ret \<le> 0 then Some (False, out, first_read \<and> ret = 0, s)
       else do {
         assert (length bs \<le> len);
         read_full_loop rd s False (out @ bs) (size_sub len (nat ret)) } }
     else Some (True, out, False, s))"

definition bio_read_full :: "'s bio_reader \<Rightarrow> 's \<Rightarrow> nat \<Rightarrow> (bool \<times> bytes \<times> bool \<times> 's) option" where
  "bio_read_full rd s len = read_full_loop rd s True [] len"

definition kChunkSize :: nat where "kChunkSize = 4096"

text \<open>
  One iteration of the loop of \<open>bio_read_all\<close>, on the reader's state, \<open>*out\<close>, \<open>done\<close> and \<open>len\<close>. It
  goes on with the next state, or returns: \<open>None\<close> for zero, or the buffer and \<open>*out_len\<close>.
\<close>

type_synonym 's read_all_state = "'s \<times> bytes \<times> nat \<times> nat"

definition bio_read_all_step ::
    "malloc \<Rightarrow> 's bio_reader \<Rightarrow> nat \<Rightarrow> 's read_all_state \<Rightarrow> ('s read_all_state + (bytes \<times> nat) option \<times> 's) option" where
  "bio_read_all_step m rd max_len st =
    (case st of (s, out, don, len) \<Rightarrow>
       if don = len then Some (Inr (None, s))
       else do {
         let todo = (if size_sub len don > INT_MAX then INT_MAX else size_sub len don);
         (n, bs, s) \<leftarrow> rd s (int todo);
         if n = 0 then Some (Inr (Some (out, don), s))
         else if n = - 1 then Some (Inr (None, s))
         else do {
           assert (bs = [] \<or> don + length bs \<le> length out);
           let out = write_at don bs out;
           let don = nat ((int don + n) mod 2 ^ 64);
           if len < max_len \<and> size_sub len don < kChunkSize div 2 then do {
             let len = size_add len kChunkSize;
             let len = (if len < kChunkSize \<or> len > max_len then max_len else len);
             case OPENSSL_realloc m (Some out) len of
               None \<Rightarrow> Some (Inr (None, s))
             | Some new_buf \<Rightarrow> Some (Inl (s, new_buf, don, len)) }
           else Some (Inl (s, out, don, len)) } })"

partial_function (option) bio_read_all_loop ::
    "malloc \<Rightarrow> 's bio_reader \<Rightarrow> nat \<Rightarrow> 's read_all_state \<Rightarrow> ((bytes \<times> nat) option \<times> 's) option" where
  "bio_read_all_loop m rd max_len st = do {
     r \<leftarrow> bio_read_all_step m rd max_len st;
     case r of Inl st \<Rightarrow> bio_read_all_loop m rd max_len st | Inr res \<Rightarrow> Some res }"

definition bio_read_all ::
    "malloc \<Rightarrow> 's bio_reader \<Rightarrow> 's \<Rightarrow> bytes \<Rightarrow> nat \<Rightarrow> ((bytes \<times> nat) option \<times> 's) option" where
  "bio_read_all m rd s prefix_bytes max_len =
    (let prefix_len = length prefix_bytes;
         len = size_add prefix_len kChunkSize;
         len = (if len > max_len then max_len else len)
     in if len < prefix_len then Some (None, s)
        else case OPENSSL_malloc m len of
               None \<Rightarrow> Some (None, s)
             | Some out \<Rightarrow> bio_read_all_loop m rd max_len (s, write_at 0 prefix_bytes out, prefix_len, len))"

datatype bio_error = ASN1_R_HEADER_TOO_LONG | ASN1_R_NOT_ENOUGH_DATA | ASN1_R_DECODE_ERROR | ASN1_R_TOO_LONG
  | ERR_R_MALLOC_FAILURE

definition kInitialHeaderLen :: nat where "kInitialHeaderLen = 2"

definition len32_of :: "bytes \<Rightarrow> u32" where
  "len32_of bs = foldl (\<lambda>l b. push_bit 8 l OR ucast b) 0 bs"

text \<open>The end of \<open>BIO_read_asn1\<close>: the header has been read, \<open>len\<close> more bytes follow.\<close>

definition read_asn1_body ::
    "malloc \<Rightarrow> 's bio_reader \<Rightarrow> 's \<Rightarrow> nat \<Rightarrow> bytes \<Rightarrow> nat \<Rightarrow> ((bio_error + bytes \<times> nat) \<times> 's) option" where
  "read_asn1_body m rd s max_len header len =
    (let header_len = length header
     in if size_add len header_len < len \<or> size_add len header_len > max_len \<or> len > INT_MAX
        then Some (Inl ASN1_R_TOO_LONG, s)
        else let len = size_add len header_len
             in case OPENSSL_malloc m len of
                  None \<Rightarrow> Some (Inl ERR_R_MALLOC_FAILURE, s)
                | Some out \<Rightarrow> do {
                    let out = write_at 0 header out;
                    (ok, bs, _, s) \<leftarrow> bio_read_full rd s (len - header_len);
                    if ok then Some (Inr (write_at header_len bs out, len), s)
                    else Some (Inl ASN1_R_NOT_ENOUGH_DATA, s) })"

definition BIO_read_asn1 ::
    "malloc \<Rightarrow> 's bio_reader \<Rightarrow> 's \<Rightarrow> nat \<Rightarrow> ((bio_error + bytes \<times> nat) \<times> 's) option" where
  "BIO_read_asn1 m rd s max_len = do {
     (ok, header, eof_on_first_read, s) \<leftarrow> bio_read_full rd s kInitialHeaderLen;
     if \<not> ok then Some (Inl (if eof_on_first_read then ASN1_R_HEADER_TOO_LONG else ASN1_R_NOT_ENOUGH_DATA), s)
     else
       let tag = header ! 0; length_byte = header ! 1
       in if tag AND 0x1f = 0x1f then Some (Inl ASN1_R_DECODE_ERROR, s)
          else if length_byte AND 0x80 = 0 then read_asn1_body m rd s max_len header (unat length_byte)
          else
            let num_bytes = unat (length_byte AND 0x7f)
            in if tag AND 0x20 \<noteq> 0 \<and> num_bytes = 0 then do {
                 (res, s) \<leftarrow> bio_read_all m rd s header max_len;
                 Some (case res of None \<Rightarrow> Inl ASN1_R_NOT_ENOUGH_DATA | Some r \<Rightarrow> Inr r, s) }
               else if num_bytes = 0 \<or> num_bytes > 4 then Some (Inl ASN1_R_DECODE_ERROR, s)
               else do {
                 (ok, bs, _, s) \<leftarrow> bio_read_full rd s num_bytes;
                 if \<not> ok then Some (Inl ASN1_R_NOT_ENOUGH_DATA, s)
                 else
                   let len32 = len32_of bs
                   in if len32 < 128 then Some (Inl ASN1_R_DECODE_ERROR, s)
                      else if drop_bit ((num_bytes - 1) * 8) len32 = 0 then Some (Inl ASN1_R_DECODE_ERROR, s)
                      else read_asn1_body m rd s max_len (header @ bs) (unat len32) } }"

end
