(* ===== verification/BIO_Source.thy ===== *)
theory BIO_Source
  imports BIO_Asn1 DER CBB_Refine
begin

text \<open>
  What \<open>BIO_read_asn1\<close> and \<open>bio_read_full\<close> need of the object they read from is the contract \<open>byte_source\<close>:
  there are bytes waiting, a read takes some of them from the front, at least one, and without any the
  read fails. Under this contract, however a source cuts its bytes into pieces, \<open>bio_read_full\<close> returns
  the bytes asked for and \<open>BIO_read_asn1\<close> the object at the front.
\<close>

section \<open>Objects\<close>

text \<open>
  The encodings \<open>BIO_read_asn1\<close> reads: a tag of one byte, the shortest length, a body that fits an \<open>int\<close>.
\<close>

definition short_object :: "u8 \<Rightarrow> bytes \<Rightarrow> bytes" where
  "short_object tag body = tag # der_len (length body) @ body"

definition short_tag :: "u8 \<Rightarrow> bool" where
  "short_tag tag \<longleftrightarrow> tag AND 0x1f \<noteq> 0x1f"

text \<open>A constructed element of indefinite length, which is read to the end of the input.\<close>

definition indefinite_start :: "bytes \<Rightarrow> bool" where
  "indefinite_start c \<longleftrightarrow> (case c of tag # lb # _ \<Rightarrow> short_tag tag \<and> tag AND 0x20 \<noteq> 0 \<and> lb = 0x80 | _ \<Rightarrow> False)"

lemma len32_of_be: "length bs \<le> 4 \<Longrightarrow> unat (len32_of bs) = be_val bs"
proof (induction bs rule: rev_induct)
  case (snoc b bs)
  have "be_val bs < 256 ^ 3" using be_val_less [of bs] snoc.prems power_increasing [of "length bs" 3 "256 :: nat"] by simp
  moreover have "len32_of (bs @ [b]) = push_bit 8 (len32_of bs) OR ucast b" by (simp add: len32_of_def)
  ultimately show ?case using snoc unat_shift_or [of "len32_of bs" 8 "ucast b :: u32"] by simp
qed (simp add: len32_of_def be_val_def)

text \<open>The two forms of the length.\<close>

lemma der_len_short: "n < 128 \<Longrightarrow> der_len n = [of_nat n]"
  by (simp add: der_len_def)

lemma der_len_long:
  assumes "128 \<le> n" "n < 2 ^ 32"
  obtains k where "k \<in> {1..4}" "der_len n = of_nat (128 + k) # be_bytes k n" "n < 256 ^ k" "256 ^ (k - 1) \<le> n"
proof -
  have "ber_len False 0 (der_len n) n False False" using assms by (simp add: ber_len_strict)
  then show ?thesis using assms(1) that by (auto simp: ber_len_def not_less)
qed

lemma der_len_longI:
  assumes "k \<in> {1..4}" "n < 256 ^ k" "256 ^ (k - 1) \<le> n" "128 \<le> n"
  shows "der_len n = of_nat (128 + k) # be_bytes k n"
proof -
  have "ber_len False 0 (of_nat (128 + k) # be_bytes k n) n False False"
    using assms by (auto simp: ber_len_def not_less)
  then show ?thesis by (simp add: ber_len_strict)
qed

lemma drop_len32_zero:
  fixes l :: u32
  assumes "k \<in> {1..4}"
  shows "drop_bit ((k - 1) * 8) l = 0 \<longleftrightarrow> unat l < 256 ^ (k - 1)"
proof -
  have "(256::nat) ^ (k - 1) = (2 ^ 8) ^ (k - 1)" by simp
  then have "(256::nat) ^ (k - 1) = 2 ^ ((k - 1) * 8)" by (simp only: power_mult [symmetric] mult.commute)
  moreover have "drop_bit ((k - 1) * 8) l = 0 \<longleftrightarrow> unat (drop_bit ((k - 1) * 8) l) = 0"
    by (simp only: unat_eq_0)
  ultimately show ?thesis by (simp only: unat_drop_bit) (simp add: div_eq_0_iff)
qed

lemma len32_less_128: "(l :: u32) < 128 \<longleftrightarrow> unat l < 128"
  by (simp add: word_less_nat_alt)

lemma long_byte: "k \<in> {1..4} \<Longrightarrow> (of_nat (128 + k) :: u8) AND 0x80 \<noteq> 0 \<and> unat ((of_nat (128 + k) :: u8) AND 0x7f) = k"
proof -
  assume k: "k \<in> {1..4}"
  then have u: "unat (of_nat (128 + k) :: u8) = 128 + k" by (intro u8_of_nat_unat) auto
  then have "(of_nat (128 + k) :: u8) AND 0x80 \<noteq> 0" by (simp only: high_bit_clear)
  then show ?thesis using long_length_byte(1) u by simp
qed

text \<open>The tag of one byte in the form of \<open>CBS\<close>.\<close>

lemma short_tag_iff: "short_tag b \<longleftrightarrow> unat b mod 32 \<noteq> 31"
proof -
  have "b AND 0x1f = 0x1f \<longleftrightarrow> unat (b AND 0x1f) = unat (0x1f :: u8)" by (rule word_unat_eq_iff)
  then show ?thesis by (simp add: short_tag_def byte_masks)
qed

lemma short_tag_tag:
  assumes "short_tag b" "b AND 0xdf \<noteq> 0"
  obtains t where "valid_tag t" "tag_bytes t = [b]"
proof -
  define num where "num = (ucast b AND 0x1f :: tag)"
  define t where "t = push_bit CBS_ASN1_TAG_SHIFT (ucast b AND 0xe0) OR num"
  have num: "num \<noteq> 0x1f"
  proof
    assume "num = 0x1f"
    then have "unat b mod 32 = 31" using tag_byte_num [of b] by (simp add: num_def)
    then show False using assms(1) by (simp add: short_tag_iff)
  qed
  have "t AND NOT CBS_ASN1_CONSTRUCTED \<noteq> 0"
  proof
    assume "t AND NOT CBS_ASN1_CONSTRUCTED = 0"
    then have z: "\<not> bit (t AND NOT CBS_ASN1_CONSTRUCTED) n" for n by simp
    have "b AND 0xdf = 0"
    proof (rule bit_word_eqI)
      fix n assume "n < LENGTH(8)"
      then have n: "n = 0 \<or> n = 1 \<or> n = 2 \<or> n = 3 \<or> n = 4 \<or> n = 5 \<or> n = 6 \<or> n = 7" by auto
      show "bit (b AND 0xdf) n = bit (0 :: u8) n"
        using n z [of 0] z [of 1] z [of 2] z [of 3] z [of 4] z [of 30] z [of 31]
        by (auto simp: t_def num_def bit_simps CBS_ASN1_TAG_SHIFT_def CBS_ASN1_CONSTRUCTED_def bit_numeral_rec)
    qed
    then show False using assms(2) by simp
  qed
  then have "parse_asn1_tag [b] = (Some t, [])"
    using num by (simp add: parse_asn1_tag_def Let_def t_def num_def)
  then have "valid_tag t" "tag_bytes t = [b]" by (simp_all add: parse_asn1_tag_iff)
  then show ?thesis by (rule that)
qed

lemma element_short:
  assumes "short_tag b" "b AND 0xdf \<noteq> 0" "length body < 2 ^ 32"
  shows "\<exists>e. CBS_get_any_asn1_element (short_object b body @ rest) = (Some e, rest) \<and> contents e = short_object b body \<and>
    header_len e = length (short_object b body) - length body"
proof -
  obtain t where t: "valid_tag t" "tag_bytes t = [b]" by (rule short_tag_tag [OF assms(1,2)])
  then have "der_element t body = short_object b body" by (simp add: der_element_def short_object_def)
  then show ?thesis using get_any_element_der [of body t rest] t(1) assms(3) by (auto simp: valid_element_def)
qed

lemma short_element:
  assumes "short_tag b" "CBS_get_any_asn1_element (b # c) = (Some e, rest)"
  shows "\<exists>body. b # c = short_object b body @ rest \<and> contents e = short_object b body \<and>
    header_len e = length (contents e) - length body"
proof -
  obtain body where e: "valid_element (body, elt_tag e)" "contents e = der_element (elt_tag e) body"
    "header_len e = length (der_element (elt_tag e) body) - length body" "b # c = der_element (elt_tag e) body @ rest"
    using assms(2) by (auto simp: get_any_element_iff)
  have "tag_bytes (elt_tag e) = [b]"
  proof -
    obtain tl where tl: "tag_bytes (elt_tag e) = b # tl"
      using e(4) by (cases "tag_bytes (elt_tag e)") (auto simp: der_element_def)
    have "tl = []"
    proof (rule ccontr)
      assume "tl \<noteq> []"
      then have b: "b = of_nat (unat (elt_tag e) div 2 ^ 29 * 32 + 31)"
        using tl by (auto simp: tag_bytes_def Let_def split: if_splits)
      have "unat b = unat (elt_tag e) div 2 ^ 29 * 32 + 31"
        unfolding b using tag_flags [of "elt_tag e"] by (intro u8_of_nat_unat) linarith
      then show False using assms(1) by (simp add: short_tag_iff)
    qed
    then show ?thesis using tl by simp
  qed
  then show ?thesis using e by (auto simp: der_element_def short_object_def)
qed

section \<open>The contract\<close>

locale byte_source =
  fixes rd :: "'s \<Rightarrow> int \<Rightarrow> (int \<times> bytes \<times> 's) option"
    and inv :: "'s \<Rightarrow> bool"
    and content :: "'s \<Rightarrow> bytes"
  assumes rd_some: "inv s \<Longrightarrow> 0 < n \<Longrightarrow> n < 2 ^ 31 \<Longrightarrow> content s \<noteq> [] \<Longrightarrow>
      \<exists>k s'. rd s n = Some (int k, take k (content s), s') \<and> 0 < k \<and> int k \<le> n \<and> k \<le> length (content s) \<and>
        inv s' \<and> content s' = drop k (content s)"
    and rd_empty: "inv s \<Longrightarrow> 0 < n \<Longrightarrow> n < 2 ^ 31 \<Longrightarrow> content s = [] \<Longrightarrow>
      \<exists>e s'. rd s n = Some (e, [], s') \<and> e \<le> 0 \<and> inv s' \<and> content s' = []"
begin

lemma read_full_loop_enough:
  "inv s \<Longrightarrow> len < 2 ^ 64 \<Longrightarrow> len \<le> length (content s) \<Longrightarrow>
   \<exists>s'. read_full_loop rd s f out len = Some (True, out @ take len (content s), False, s') \<and>
     inv s' \<and> content s' = drop len (content s)"
proof (induction len arbitrary: s f out rule: less_induct)
  case (less len)
  show ?case
  proof (cases "len = 0")
    case True
    then show ?thesis using less.prems by (subst read_full_loop.simps) simp
  next
    case False
    define n where "n = (if len \<le> INT_MAX then int len else int INT_MAX)"
    have n: "0 < n" "n < 2 ^ 31" "n \<le> int len" using False by (auto simp: n_def INT_MAX_def)
    obtain k s1 where k: "rd s n = Some (int k, take k (content s), s1)" "0 < k" "int k \<le> n" "k \<le> length (content s)"
      "inv s1" "content s1 = drop k (content s)"
      using rd_some [OF less.prems(1) n(1,2)] False less.prems(3) by (metis le_zero_eq list.size(3))
    have kl: "k \<le> len" using k(3) n(3) by simp
    then have sub: "size_sub len k = len - k" using less.prems(2) by simp
    have "len - k \<le> length (content s1)" "len - k < len" "len - k < 2 ^ 64"
      using k(2,6) False less.prems(2,3) by (simp_all add: diff_le_mono)
    then obtain s' where "read_full_loop rd s1 False (out @ take k (content s)) (len - k) =
        Some (True, (out @ take k (content s)) @ take (len - k) (content s1), False, s')" "inv s'"
        "content s' = drop (len - k) (content s1)"
      using less.IH [of "len - k" s1 False "out @ take k (content s)"] k(5) by blast
    then show ?thesis
      using k kl False sub take_add [of k "len - k" "content s"]
      by (subst read_full_loop.simps) (simp add: assert_def flip: n_def)
  qed
qed

lemma read_full_loop_short:
  "inv s \<Longrightarrow> len < 2 ^ 64 \<Longrightarrow> length (content s) < len \<Longrightarrow>
   \<exists>e s'. read_full_loop rd s f out len = Some (False, out @ content s, e, s') \<and> inv s' \<and> content s' = []"
proof (induction len arbitrary: s f out rule: less_induct)
  case (less len)
  define n where "n = (if len \<le> INT_MAX then int len else int INT_MAX)"
  have n: "0 < n" "n < 2 ^ 31" "n \<le> int len" using less.prems(3) by (auto simp: n_def INT_MAX_def)
  show ?case
  proof (cases "content s = []")
    case True
    obtain e s' where "rd s n = Some (e, [], s')" "e \<le> 0" "inv s'" "content s' = []"
      using rd_empty [OF less.prems(1) n(1,2) True] by blast
    then show ?thesis using True less.prems(3) by (subst read_full_loop.simps) (simp flip: n_def)
  next
    case False
    obtain k s1 where k: "rd s n = Some (int k, take k (content s), s1)" "0 < k" "int k \<le> n" "k \<le> length (content s)"
      "inv s1" "content s1 = drop k (content s)"
      using rd_some [OF less.prems(1) n(1,2) False] by blast
    have kl: "k \<le> len" using k(4) less.prems(3) by simp
    then have sub: "size_sub len k = len - k" using less.prems(2) by simp
    have "length (content s1) < len - k" "len - k < len" "len - k < 2 ^ 64"
      using k(2,4,6) less.prems(2,3) by (simp_all add: diff_less_mono)
    then obtain e s' where "read_full_loop rd s1 False (out @ take k (content s)) (len - k) =
        Some (False, (out @ take k (content s)) @ content s1, e, s')" "inv s'" "content s' = []"
      using less.IH [of "len - k" s1 False "out @ take k (content s)"] k(5) by blast
    then show ?thesis using k kl sub less.prems(3) by (subst read_full_loop.simps) (simp add: assert_def flip: n_def)
  qed
qed

lemma read_full_enough:
  assumes "inv s" "len < 2 ^ 64" "len \<le> length (content s)"
  shows "\<exists>s'. bio_read_full rd s len = Some (True, take len (content s), False, s') \<and>
    inv s' \<and> content s' = drop len (content s)"
  using read_full_loop_enough [OF assms, of True "[]"] by (simp add: bio_read_full_def)

lemma read_full_short:
  assumes "inv s" "len < 2 ^ 64" "length (content s) < len"
  shows "\<exists>e s'. bio_read_full rd s len = Some (False, content s, e, s') \<and> inv s' \<and> content s' = []"
  using read_full_loop_short [OF assms, of True "[]"] by (simp add: bio_read_full_def)

lemma read_two:
  assumes "inv s" "content s = x # y # c"
  obtains s' where "bio_read_full rd s 2 = Some (True, [x, y], False, s')" "inv s'" "content s' = c"
proof -
  have "take 2 (x # y # c) = [x, y]" "drop 2 (x # y # c) = c" by (simp_all add: numeral_2_eq_2)
  then show ?thesis using read_full_enough [OF assms(1), of 2] assms(2) that by auto
qed

text \<open>The part after the header.\<close>

lemma body_enough:
  assumes "inv s" "malloc_ok m" "malloc_total m" "length hd' \<le> 6" "n \<le> INT_MAX" "n + length hd' \<le> max_len"
    "n \<le> length (content s)"
  shows "\<exists>s'. read_asn1_body m rd s max_len hd' n = Some (Inr (hd' @ take n (content s), n + length hd'), s') \<and>
    inv s' \<and> content s' = drop n (content s)"
proof -
  have n: "n < 2 ^ 31" using assms(5) by (simp add: INT_MAX_def)
  have sum: "size_add n (length hd') = n + length hd'" using n assms(4) by (intro size_add_small) simp
  have lt: "n + length hd' + 8 < 2 ^ 64" using n assms(4) by simp
  then obtain y where "m (n + length hd' + 8) = Some y" using assms(3) unfolding malloc_total_def by blast
  moreover have "size_add (n + length hd') OPENSSL_MALLOC_PREFIX = n + length hd' + 8"
    using lt by (simp add: OPENSSL_MALLOC_PREFIX_def size_add_small)
  ultimately obtain out where "OPENSSL_malloc m (n + length hd') = Some out"
    by (simp add: OPENSSL_malloc_def)
  moreover have "length out = n + length hd'"
    using OPENSSL_malloc_length [OF assms(2) \<open>OPENSSL_malloc m (n + length hd') = Some out\<close>] n assms(4) by simp
  moreover obtain s' where "bio_read_full rd s n = Some (True, take n (content s), False, s')" "inv s'"
    "content s' = drop n (content s)"
    using read_full_enough [OF assms(1) _ assms(7)] n by auto
  moreover have "write_at (length hd') (take n (content s)) (write_at 0 hd' out) = hd' @ take n (content s)"
    using assms(7) \<open>length out = n + length hd'\<close> by (simp add: write_at_def)
  ultimately show ?thesis using sum assms(5,6) by (simp add: read_asn1_body_def)
qed

lemma body_sound:
  assumes "inv s" "malloc_ok m" "length hd' \<le> 6" "read_asn1_body m rd s max_len hd' n = Some (Inr (out, k), s')"
  shows "n \<le> INT_MAX \<and> k = n + length hd' \<and> k \<le> max_len \<and> n \<le> length (content s) \<and> out = hd' @ take n (content s) \<and>
    inv s' \<and> content s' = drop n (content s)"
proof -
  have lim: "n \<le> INT_MAX" "size_add n (length hd') \<le> max_len"
    using assms(4) by (auto simp: read_asn1_body_def Let_def split: if_splits)
  then have n: "n < 2 ^ 31" by (simp add: INT_MAX_def)
  have sum: "size_add n (length hd') = n + length hd'" using n assms(3) by (intro size_add_small) simp
  obtain area where a: "OPENSSL_malloc m (n + length hd') = Some area"
    using assms(4) lim sum by (auto simp: read_asn1_body_def Let_def split: if_splits option.splits)
  have len: "length area = n + length hd'" using OPENSSL_malloc_length [OF assms(2) a] n assms(3) by simp
  have full: "Option.bind (bio_read_full rd s n) (\<lambda>(ok, bs, _, s).
      if ok then Some (Inr (write_at (length hd') bs (write_at 0 hd' area), n + length hd'), s)
      else Some (Inl ASN1_R_NOT_ENOUGH_DATA, s)) = Some (Inr (out, k), s')"
    using assms(4) lim sum a by (simp add: read_asn1_body_def Let_def)
  show ?thesis
  proof (cases "n \<le> length (content s)")
    case True
    then obtain s1 where "bio_read_full rd s n = Some (True, take n (content s), False, s1)" "inv s1"
      "content s1 = drop n (content s)"
      using read_full_enough [OF assms(1) _ True] n by auto
    moreover have "write_at (length hd') (take n (content s)) (write_at 0 hd' area) = hd' @ take n (content s)"
      using True len by (simp add: write_at_def)
    ultimately show ?thesis using full lim sum True by auto
  next
    case False
    then obtain e s1 where "bio_read_full rd s n = Some (False, content s, e, s1)"
      using read_full_short [OF assms(1), of n] n by auto
    then show ?thesis using full by simp
  qed
qed

text \<open>\<open>BIO_read_asn1\<close> returns the object at the front.\<close>

lemma read_asn1_complete:
  assumes "inv s" "malloc_ok m" "malloc_total m" "short_tag t" "content s = short_object t body @ rest"
    "length body \<le> INT_MAX" "length (short_object t body) \<le> max_len"
  shows "\<exists>s'. BIO_read_asn1 m rd s max_len = Some (Inr (short_object t body, length (short_object t body)), s') \<and>
    inv s' \<and> content s' = rest"
proof (cases "length body < 128")
  case True
  define lb where "lb = (of_nat (length body) :: u8)"
  have lb: "unat lb = length body" "lb AND 0x80 = 0" using True by (simp_all add: lb_def high_bit_clear)
  have c: "content s = t # lb # body @ rest" using assms(5) True by (simp add: short_object_def der_len_short lb_def)
  obtain s1 where s1: "bio_read_full rd s 2 = Some (True, [t, lb], False, s1)" "inv s1" "content s1 = body @ rest"
    using read_two [OF assms(1) c] .
  obtain s' where "read_asn1_body m rd s1 max_len [t, lb] (length body) =
      Some (Inr ([t, lb] @ body, length body + 2), s')" "inv s'" "content s' = rest"
    using body_enough [OF s1(2) assms(2,3), of "[t, lb]" "length body" max_len] assms(6,7) s1(3) True
    by (auto simp: short_object_def der_len_short)
  then show ?thesis using s1 lb assms(4) True
    by (simp add: BIO_read_asn1_def kInitialHeaderLen_def short_tag_def short_object_def der_len_short lb_def)
next
  case False
  have "length body < 2 ^ 32" using assms(6) by (simp add: INT_MAX_def)
  then obtain k where k: "k \<in> {1..4}" "der_len (length body) = of_nat (128 + k) # be_bytes k (length body)"
    "length body < 256 ^ k" "256 ^ (k - 1) \<le> length body"
    using der_len_long [of "length body"] False by auto
  define lb where "lb = (of_nat (128 + k) :: u8)"
  define bs where "bs = be_bytes k (length body)"
  have lb: "lb AND 0x80 \<noteq> 0" "unat (lb AND 0x7f) = k" using long_byte [OF k(1)] by (simp_all add: lb_def)
  have bs: "length bs = k" "unat (len32_of bs) = length body"
    using k(1,3) len32_of_be [of bs] by (simp_all add: bs_def be_val_be_bytes)
  have c: "content s = t # lb # bs @ body @ rest" using assms(5) k(2) by (simp add: short_object_def lb_def bs_def)
  obtain s1 where s1: "bio_read_full rd s 2 = Some (True, [t, lb], False, s1)" "inv s1" "content s1 = bs @ body @ rest"
    using read_two [OF assms(1) c] .
  obtain s2 where s2: "bio_read_full rd s1 k = Some (True, bs, False, s2)" "inv s2" "content s2 = body @ rest"
    using read_full_enough [OF s1(2), of k] s1(3) bs(1) k(1) by auto
  have obj: "short_object t body = ([t, lb] @ bs) @ body" using k(2) by (simp add: short_object_def lb_def bs_def)
  obtain s' where s': "read_asn1_body m rd s2 max_len ([t, lb] @ bs) (length body) =
      Some (Inr (([t, lb] @ bs) @ body, length body + length ([t, lb] @ bs)), s')" "inv s'" "content s' = rest"
    using body_enough [OF s2(2) assms(2,3), of "[t, lb] @ bs" "length body" max_len] assms(6,7) s2(3) bs(1) k(1)
    by (auto simp: obj add.commute)
  have "\<not> len32_of bs < 128" "drop_bit ((k - 1) * 8) (len32_of bs) \<noteq> 0"
    using False k(4) bs(2) drop_len32_zero [OF k(1)] by (simp_all add: len32_less_128)
  then show ?thesis using s1 s2 s' lb assms(4) k(1) bs
    by (simp add: BIO_read_asn1_def kInitialHeaderLen_def short_tag_def obj add.commute)
qed

lemma read_asn1_sound:
  assumes "inv s" "malloc_ok m" "BIO_read_asn1 m rd s max_len = Some (Inr (out, n), s')" "\<not> indefinite_start (content s)"
  shows "\<exists>t body. short_tag t \<and> out = short_object t body \<and> n = length out \<and> length body \<le> INT_MAX \<and> n \<le> max_len \<and>
    inv s' \<and> content s = out @ content s'"
proof (cases "length (content s) < 2")
  case True
  then show ?thesis using read_full_short [OF assms(1), of 2] assms(3) by (auto simp: BIO_read_asn1_def kInitialHeaderLen_def)
next
  case False
  then obtain t lb c where c: "content s = t # lb # c" by (cases "content s") (auto simp: neq_Nil_conv Suc_le_eq not_less)
  obtain s1 where s1: "bio_read_full rd s 2 = Some (True, [t, lb], False, s1)" "inv s1" "content s1 = c"
    using read_two [OF assms(1) c] .
  have tag: "short_tag t" using assms(3) s1(1)
    by (auto simp: BIO_read_asn1_def kInitialHeaderLen_def short_tag_def split: if_splits)
  show ?thesis
  proof (cases "lb AND 0x80 = 0")
    case True
    define k where "k = unat lb"
    have k: "k < 128" "lb = of_nat k" using True high_bit_clear [of lb] by (simp_all add: k_def)
    have "read_asn1_body m rd s1 max_len [t, lb] k = Some (Inr (out, n), s')"
      using assms(3) s1(1) tag True by (simp add: BIO_read_asn1_def kInitialHeaderLen_def short_tag_def k_def)
    note b = body_sound [OF s1(2) assms(2) _ this]
    then have "short_object t (take k c) = t # lb # take k c" using s1(3) k by (simp add: short_object_def der_len_short)
    then show ?thesis using b tag s1(3) c by (intro exI [of _ t] exI [of _ "take k c"]) simp
  next
    case lb: False
    define k where "k = unat (lb AND 0x7f)"
    have "\<not> (t AND 0x20 \<noteq> 0 \<and> k = 0)"
      using assms(4) long_length_byte [OF lb] c tag word_eqI_unat [of lb "0x80"] by (auto simp: indefinite_start_def k_def)
    then have "unat (lb AND 0x7f) \<in> {1..4}" "Option.bind (bio_read_full rd s1 (unat (lb AND 0x7f))) (\<lambda>(ok, bs, _, s).
        if \<not> ok then Some (Inl ASN1_R_NOT_ENOUGH_DATA, s)
        else if len32_of bs < 128 then Some (Inl ASN1_R_DECODE_ERROR, s)
        else if drop_bit ((unat (lb AND 0x7f) - 1) * 8) (len32_of bs) = 0 then Some (Inl ASN1_R_DECODE_ERROR, s)
        else read_asn1_body m rd s max_len ([t, lb] @ bs) (unat (len32_of bs))) = Some (Inr (out, n), s')"
      using assms(3) [unfolded BIO_read_asn1_def Let_def] s1(1) tag lb
      by (auto simp: kInitialHeaderLen_def short_tag_def k_def cong: if_cong split: if_splits)
    note rest = this [folded k_def]
    show ?thesis
    proof (cases "length c < k")
      case True
      then show ?thesis using rest read_full_short [OF s1(2), of k] s1(3) by auto
    next
      case False
      define bs where "bs = take k c"
      obtain s2 where s2: "bio_read_full rd s1 k = Some (True, bs, False, s2)" "inv s2" "content s2 = drop k c"
        using read_full_enough [OF s1(2), of k] s1(3) False rest(1) by (auto simp: bs_def)
      define l where "l = unat (len32_of bs)"
      have bs: "length bs = k" using False by (simp add: bs_def)
      have l: "l = be_val bs" "l < 256 ^ k" using len32_of_be [of bs] be_val_less [of bs] rest(1) bs by (simp_all add: l_def)
      have r: "128 \<le> l" "256 ^ (k - 1) \<le> l" "read_asn1_body m rd s2 max_len ([t, lb] @ bs) l = Some (Inr (out, n), s')"
        using rest s2(1) drop_len32_zero [OF rest(1)] by (auto simp: l_def len32_less_128 split: if_splits)
      note b = body_sound [OF s2(2) assms(2) _ r(3)]
      have "unat lb = 128 + k" using long_length_byte [OF lb] by (simp add: k_def)
      then have "lb = of_nat (128 + k)" by (rule word_eq_of_nat)
      then have "der_len l = lb # bs" using der_len_longI [OF rest(1) l(2) r(2,1)] be_bytes_be_val [of bs] bs l(1) by simp
      then have "short_object t (take l (drop k c)) = t # lb # bs @ take l (drop k c)"
        using b s2(3) bs rest(1) by (simp add: short_object_def)
      moreover have "c = bs @ take l (drop k c) @ drop (k + l) c"
        by (metis append_take_drop_id bs_def drop_drop add.commute)
      ultimately show ?thesis using b tag s2(3) c bs rest(1)
        by (intro exI [of _ t] exI [of _ "take l (drop k c)"]) (simp add: add.commute)
    qed
  qed
qed

text \<open>Both directions.\<close>

lemma read_asn1_iff:
  assumes "inv s" "malloc_ok m" "malloc_total m" "\<not> indefinite_start (content s)"
  shows "(\<exists>s'. BIO_read_asn1 m rd s max_len = Some (Inr (out, n), s') \<and> content s' = rest) \<longleftrightarrow>
    (\<exists>t body. short_tag t \<and> out = short_object t body \<and> content s = out @ rest \<and> n = length out \<and>
      length body \<le> INT_MAX \<and> n \<le> max_len)" (is "?L \<longleftrightarrow> ?R")
proof
  assume ?L
  then obtain s' where r: "BIO_read_asn1 m rd s max_len = Some (Inr (out, n), s')" "content s' = rest" by blast
  show ?R using read_asn1_sound [OF assms(1,2) r(1) assms(4)] r(2) by metis
next
  assume ?R
  then obtain t body where r: "short_tag t" "out = short_object t body" "content s = out @ rest" "n = length out"
    "length body \<le> INT_MAX" "n \<le> max_len" by blast
  show ?L using read_asn1_complete [OF assms(1-3) r(1), of body rest max_len] r by auto
qed

text \<open>Against \<open>CBS_get_any_asn1_element\<close>.\<close>

lemma read_asn1_agrees:
  assumes "inv s" "malloc_ok m" "malloc_total m" "content s = tag # c" "short_tag tag" "tag AND 0xdf \<noteq> 0"
    "\<not> indefinite_start (content s)"
  shows "(\<exists>s'. BIO_read_asn1 m rd s max_len = Some (Inr (out, n), s') \<and> content s' = rest) \<longleftrightarrow>
    (\<exists>e. CBS_get_any_asn1_element (content s) = (Some e, rest) \<and> contents e = out \<and> n = length out \<and> n \<le> max_len \<and>
      n - header_len e \<le> INT_MAX)" (is "?L \<longleftrightarrow> ?R")
proof
  assume ?L
  then obtain s' t body where r: "content s' = rest" "out = short_object t body" "n = length out" "length body \<le> INT_MAX"
    "n \<le> max_len" "content s = out @ rest"
    using read_asn1_sound [OF assms(1,2) _ assms(7)] by blast
  have t: "t = tag" using r(2,6) assms(4) by (simp add: short_object_def)
  obtain e where "CBS_get_any_asn1_element (content s) = (Some e, rest)" "contents e = out" "header_len e = n - length body"
    using element_short [OF assms(5,6), of body rest] r t by (auto simp: INT_MAX_def)
  moreover have "n - (n - length body) = length body" using r(2,3) by (simp add: short_object_def)
  ultimately show ?R using r by auto
next
  assume ?R
  then obtain e where e0: "CBS_get_any_asn1_element (tag # c) = (Some e, rest)" "contents e = out" "n = length out"
    "n \<le> max_len" "n - header_len e \<le> INT_MAX"
    unfolding assms(4) by blast
  obtain body where "tag # c = short_object tag body @ rest" "contents e = short_object tag body"
    "header_len e = length (contents e) - length body"
    using short_element [OF assms(5) e0(1)] by blast
  then have e: "contents e = out" "n = length out" "n \<le> max_len" "n - header_len e \<le> INT_MAX"
    "content s = short_object tag body @ rest" "out = short_object tag body" "header_len e = length out - length body"
    using e0 assms(4) by simp_all
  have "n - header_len e = length body" using e(2,6,7) by (simp add: short_object_def)
  then show ?L using read_asn1_complete [OF assms(1-3,5) e(5)] e by auto
qed

end

text \<open>A source whose end is an end of file: reading there returns zero.\<close>

locale eof_source = byte_source +
  assumes rd_eof: "inv s \<Longrightarrow> 0 < n \<Longrightarrow> n < 2 ^ 31 \<Longrightarrow> content s = [] \<Longrightarrow>
      \<exists>s'. rd s n = Some (0, [], s') \<and> inv s' \<and> content s' = []"
begin

text \<open>The loop of \<open>bio_read_all\<close> ends, with all the bytes when they stay below \<open>max_len\<close>.\<close>

lemma read_all_loop:
  assumes "malloc_ok m" "malloc_total m" "max_len \<le> 2 ^ 62"
  shows "inv s \<Longrightarrow> length out = len \<Longrightarrow> len \<le> max_len \<Longrightarrow> don \<le> len \<Longrightarrow> don < len \<or> len = max_len \<Longrightarrow>
    (if don + length (content s) < max_len
     then \<exists>out' s'. bio_read_all_loop m rd max_len (s, out, don, len) = Some (Some (out', don + length (content s)), s') \<and>
       take (don + length (content s)) out' = take don out @ content s
     else \<exists>s'. bio_read_all_loop m rd max_len (s, out, don, len) = Some (None, s'))"
proof (induction "length (content s)" arbitrary: s out don len rule: less_induct)
  case less
  show ?case
  proof (cases "don = len")
    case True
    then have "len = max_len" using less.prems by simp
    have "bio_read_all_loop m rd max_len (s, out, don, len) = Some (None, s)"
      using True by (subst bio_read_all_loop.simps) (simp add: bio_read_all_step_def)
    then show ?thesis using True \<open>len = max_len\<close> by simp
  next
    case False
    then have lt: "don < len" "len < 2 ^ 63" using less.prems assms(3) by simp_all
    define n where "n = (if size_sub len don > INT_MAX then INT_MAX else size_sub len don)"
    have n: "0 < int n" "int n < 2 ^ 31" "n \<le> len - don" using lt by (auto simp: n_def INT_MAX_def)
    show ?thesis
    proof (cases "content s = []")
      case True
      obtain s' where "rd s (int n) = Some (0, [], s')" using rd_eof [OF less.prems(1) n(1,2) True] by blast
      then have "bio_read_all_loop m rd max_len (s, out, don, len) = Some (Some (out, don), s')"
        using False by (subst bio_read_all_loop.simps) (simp add: bio_read_all_step_def Let_def flip: n_def)
      then show ?thesis using True lt less.prems by auto
    next
      case ne: False
      obtain k s1 where k: "rd s (int n) = Some (int k, take k (content s), s1)" "0 < k" "k \<le> n" "k \<le> length (content s)"
        "inv s1" "content s1 = drop k (content s)"
        using rd_some [OF less.prems(1) n(1,2) ne] by auto
      define out1 where "out1 = write_at don (take k (content s)) out"
      define don1 where "don1 = don + k"
      have d: "don1 \<le> len" "nat ((int don + int k) mod 2 ^ 64) = don1" "size_sub len don1 = len - don1"
        "don + min (length (content s)) k \<le> len"
        using k(3) n(3) lt by (simp_all add: don1_def nat_int_add)
      have o1: "length out1 = len" "take don1 out1 = take don out @ take k (content s)"
        using less.prems(2) k(4) d(1) take_write_at [of don "take k (content s)" out] by (simp_all add: out1_def don1_def)
      have less1: "length (content s1) < length (content s)" using k(2,4,6) by simp
      have sum: "don1 + length (content s1) = don + length (content s)" using k(4,6) by (simp add: don1_def)
      have all: "(take don out @ take k (content s)) @ content s1 = take don out @ content s" using k(6) by simp
      show ?thesis
      proof (cases "len < max_len \<and> len - don1 < kChunkSize div 2")
        case grow: True
        define len1 where "len1 = (if size_add len kChunkSize < kChunkSize \<or> size_add len kChunkSize > max_len then max_len
          else size_add len kChunkSize)"
        have sa: "size_add len kChunkSize = len + 4096" using lt by (simp add: kChunkSize_def size_add_small)
        then have l1: "len1 \<le> max_len" "len < len1" "don1 < len1" "len1 < 2 ^ 63"
          using grow d(1) assms(3) by (auto simp: len1_def kChunkSize_def)
        obtain y where "m (len1 + 8) = Some y" using assms(2) l1(4) unfolding malloc_total_def by fastforce
        moreover have "size_add len1 OPENSSL_MALLOC_PREFIX = len1 + 8"
          using l1(4) by (simp add: OPENSSL_MALLOC_PREFIX_def size_add_small)
        ultimately obtain blk where blk: "OPENSSL_malloc m len1 = Some blk" by (simp add: OPENSSL_malloc_def)
        define out2 where "out2 = out1 @ drop len blk"
        have re: "OPENSSL_realloc m (Some out1) len1 = Some out2"
          using blk o1(1) l1(2) by (simp add: OPENSSL_realloc_def out2_def)
        have o2: "length out2 = len1" "take don1 out2 = take don1 out1"
          using OPENSSL_malloc_length [OF assms(1) blk] l1 o1(1) d(1) by (simp_all add: out2_def)
        have "bio_read_all_step m rd max_len (s, out, don, len) = Some (Inl (s1, out2, don1, len1))"
          using False k(1,2) d grow re less.prems(2)
          by (simp add: bio_read_all_step_def assert_def don1_def [symmetric] n_def [symmetric] out1_def [symmetric] len1_def [symmetric]
              size_sub_small)
        then have step: "bio_read_all_loop m rd max_len (s, out, don, len) = bio_read_all_loop m rd max_len (s1, out2, don1, len1)"
          by (subst bio_read_all_loop.simps) simp
        have "don1 \<le> len1" "don1 < len1 \<or> len1 = max_len" using l1(3) by simp_all
        from less.hyps [OF less1 k(5) o2(1) l1(1) this, unfolded sum o2(2) o1(2) all]
        show ?thesis unfolding step .
      next
        case keep: False
        have "bio_read_all_step m rd max_len (s, out, don, len) = Some (Inl (s1, out1, don1, len))"
          using False k(1,2) d keep less.prems(2)
          by (auto simp: bio_read_all_step_def assert_def Let_def don1_def [symmetric] n_def [symmetric] out1_def [symmetric])
        then have step: "bio_read_all_loop m rd max_len (s, out, don, len) = bio_read_all_loop m rd max_len (s1, out1, don1, len)"
          by (subst bio_read_all_loop.simps) simp
        have "don1 < len \<or> len = max_len" using keep d(1) less.prems(3) by (auto simp: kChunkSize_def)
        from less.hyps [OF less1 k(5) o1(1) less.prems(3) d(1) this, unfolded sum o1(2) all]
        show ?thesis unfolding step .
      qed
    qed
  qed
qed

lemma read_all:
  assumes "inv s" "malloc_ok m" "malloc_total m" "max_len \<le> 2 ^ 62"
  shows "if length pre + length (content s) < max_len
    then \<exists>out' s'. bio_read_all m rd s pre max_len = Some (Some (out', length pre + length (content s)), s') \<and>
      take (length pre + length (content s)) out' = pre @ content s
    else \<exists>s'. bio_read_all m rd s pre max_len = Some (None, s')"
proof (cases "length pre \<le> max_len")
  case True
  define len where "len = (if size_add (length pre) kChunkSize > max_len then max_len else size_add (length pre) kChunkSize)"
  have sa: "size_add (length pre) kChunkSize = length pre + 4096" using True assms(4) by (simp add: kChunkSize_def size_add_small)
  then have len: "len \<le> max_len" "length pre \<le> len" "length pre < len \<or> len = max_len" "len < 2 ^ 63"
    using True assms(4) by (auto simp: len_def)
  obtain y where "m (len + 8) = Some y" using assms(3) len(4) unfolding malloc_total_def by fastforce
  moreover have "size_add len OPENSSL_MALLOC_PREFIX = len + 8"
    using len(4) by (simp add: OPENSSL_MALLOC_PREFIX_def size_add_small)
  ultimately obtain blk where blk: "OPENSSL_malloc m len = Some blk" by (simp add: OPENSSL_malloc_def)
  have l: "length blk = len" using OPENSSL_malloc_length [OF assms(2) blk] len(4) by simp
  define out where "out = write_at 0 pre blk"
  have o: "length out = len" "take (length pre) out = pre" using l len(2) take_write_at [of 0 pre blk] by (simp_all add: out_def)
  have step: "bio_read_all m rd s pre max_len = bio_read_all_loop m rd max_len (s, out, length pre, len)"
    using len(2) blk by (simp add: bio_read_all_def Let_def out_def flip: len_def)
  from read_all_loop [OF assms(2-4,1) o(1) len(1-3), unfolded o(2)] show ?thesis unfolding step .
next
  case False
  then show ?thesis by (simp add: bio_read_all_def Let_def)
qed

lemma read_asn1_indefinite:
  assumes "inv s" "malloc_ok m" "malloc_total m" "max_len \<le> 2 ^ 62" "indefinite_start (content s)"
  shows "if length (content s) < max_len
    then \<exists>out s'. BIO_read_asn1 m rd s max_len = Some (Inr (out, length (content s)), s') \<and> take (length (content s)) out = content s
    else \<exists>s'. BIO_read_asn1 m rd s max_len = Some (Inl ASN1_R_NOT_ENOUGH_DATA, s')"
proof -
  obtain t c where c: "content s = t # 0x80 # c" "short_tag t" "t AND 0x20 \<noteq> 0"
    using assms(5) by (auto simp: indefinite_start_def split: list.splits)
  obtain s1 where s1: "bio_read_full rd s 2 = Some (True, [t, 0x80], False, s1)" "inv s1" "content s1 = c"
    using read_two [OF assms(1) c(1)] .
  have "BIO_read_asn1 m rd s max_len = Option.bind (bio_read_all m rd s1 [t, 0x80] max_len) (\<lambda>(res, s).
      Some (case res of None \<Rightarrow> Inl ASN1_R_NOT_ENOUGH_DATA | Some r \<Rightarrow> Inr r, s))"
    using s1(1) c(2,3) by (simp add: BIO_read_asn1_def kInitialHeaderLen_def short_tag_def)
  then show ?thesis using read_all [OF s1(2) assms(2-4), of "[t, 0x80]"] c(1) s1(3) by (auto split: if_splits)
qed

end

end
