(* ===== verification/BIO_Ring.thy ===== *)
theory BIO_Ring
  imports BIO
begin

text \<open>
  The ring buffer of a pair: the bytes it holds in order, and the copying loops of \<open>bio_read\<close> and
  \<open>bio_write\<close> as taking from the front and adding at the end. Both loops return after one or two
  iterations and pass their assertions.
\<close>

section \<open>The bytes in the ring\<close>

definition ring :: "bio_bio_st \<Rightarrow> bytes \<Rightarrow> bytes" where
  "ring b buf = map (\<lambda>i. buf ! ((b_offset b + i) mod b_size b)) [0..<b_len b]"

definition ring_wf :: "bio_bio_st \<Rightarrow> bytes \<Rightarrow> bool" where
  "ring_wf b buf \<longleftrightarrow> b_size b = length buf \<and> b_len b \<le> b_size b \<and> b_offset b < b_size b"

lemma ring_wfD:
  "ring_wf b buf \<Longrightarrow> length buf = b_size b" "ring_wf b buf \<Longrightarrow> b_len b \<le> b_size b"
  "ring_wf b buf \<Longrightarrow> b_offset b < b_size b" "ring_wf b buf \<Longrightarrow> n mod b_size b < b_size b"
  by (simp_all add: ring_wf_def) (metis list.size(3) mod_less_divisor not_gr_zero not_less_zero)

lemma length_ring [simp]: "length (ring b buf) = b_len b"
  by (simp add: ring_def)

lemma ring_nth: "i < b_len b \<Longrightarrow> ring b buf ! i = buf ! ((b_offset b + i) mod b_size b)"
  by (simp add: ring_def)

lemma ring_empty [simp]: "b_len b = 0 \<Longrightarrow> ring b buf = []"
  by (simp add: ring_def)

lemma ring_request [simp]: "ring (b\<lparr>b_request := r\<rparr>) buf = ring b buf"
  "ring (b\<lparr>closed := c\<rparr>) buf = ring b buf" "ring (b\<lparr>b_buf := x\<rparr>) buf = ring b buf"
  "ring_wf (b\<lparr>b_request := r\<rparr>) buf = ring_wf b buf" "ring_wf (b\<lparr>closed := c\<rparr>) buf = ring_wf b buf"
  "ring_wf (b\<lparr>b_buf := x\<rparr>) buf = ring_wf b buf"
  by (simp_all add: ring_def ring_wf_def)

text \<open>A position in the ring, without division.\<close>

lemma ring_pos: "off < n \<Longrightarrow> i \<le> n \<Longrightarrow> (off + i) mod n = (if off + i < n then off + i else off + i - (n :: nat))"
  by (simp add: mod_if)

section \<open>Reading\<close>

definition ring_drop :: "nat \<Rightarrow> bio_bio_st \<Rightarrow> bio_bio_st" where
  "ring_drop n b = b\<lparr>b_len := b_len b - n,
     b_offset := (if b_len b = n then 0 else (b_offset b + n) mod b_size b)\<rparr>"

lemma ring_drop_fields [simp]:
  "peer (ring_drop n b) = peer b" "closed (ring_drop n b) = closed b" "b_size (ring_drop n b) = b_size b"
  "b_buf (ring_drop n b) = b_buf b" "b_request (ring_drop n b) = b_request b" "b_len (ring_drop n b) = b_len b - n"
  by (simp_all add: ring_drop_def)

lemma ring_drop_spec:
  assumes "ring_wf b buf" "n \<le> b_len b"
  shows "ring_wf (ring_drop n b) buf" "ring (ring_drop n b) buf = drop n (ring b buf)"
proof -
  show "ring_wf (ring_drop n b) buf"
    using ring_wfD [OF assms(1)] assms(2) by (auto simp: ring_wf_def ring_drop_def intro: le_less_trans)
  show "ring (ring_drop n b) buf = drop n (ring b buf)"
  proof (rule nth_equalityI)
    fix i assume "i < length (ring (ring_drop n b) buf)"
    then have i: "i < b_len b - n" by (simp add: ring_def)
    then have "ring (ring_drop n b) buf ! i = buf ! (((b_offset b + n) mod b_size b + i) mod b_size b)"
      using ring_nth [of i "ring_drop n b"] by (simp add: ring_drop_def)
    also have "\<dots> = buf ! ((b_offset b + (n + i)) mod b_size b)" by (simp add: mod_simps add.assoc)
    finally show "ring (ring_drop n b) buf ! i = drop n (ring b buf) ! i"
      using i ring_nth [of "n + i" b] by simp
  qed simp
qed

lemma ring_take:
  assumes "ring_wf b buf" "k \<le> b_len b" "b_offset b + k \<le> b_size b"
  shows "take k (ring b buf) = take k (drop (b_offset b) buf)"
  using assms by (intro nth_equalityI) (auto simp: ring_nth ring_wf_def)

text \<open>One iteration, when the bytes asked for do not reach beyond the end of the buffer.\<close>

lemma ring_read_no_wrap:
  assumes "ring_wf b buf" "0 < n" "n \<le> b_len b" "b_offset b + n \<le> b_size b"
  shows "ring_read b buf n out = Some (out @ take n (ring b buf), ring_drop n b)"
  using assms ring_take [OF assms(1,3,4)]
  by (subst ring_read.simps) (auto simp: Let_def ring_drop_def ring_wf_def)

lemma ring_drop_drop:
  assumes "n + k \<le> b_len b" "0 < k"
  shows "ring_drop k (ring_drop n b) = ring_drop (n + k) b"
  using assms by (auto simp: ring_drop_def mod_simps add.assoc)

lemma ring_read_spec:
  assumes "ring_wf b buf" "0 < n" "n \<le> b_len b"
  shows "ring_read b buf n out = Some (out @ take n (ring b buf), ring_drop n b)"
proof (cases "b_offset b + n \<le> b_size b")
  case True
  then show ?thesis using assms by (simp add: ring_read_no_wrap)
next
  case False
  define k where "k = b_size b - b_offset b"
  have k: "0 < k" "k < n" "b_offset b + k = b_size b" using False ring_wfD(2,3) [OF assms(1)] assms(3) by (simp_all add: k_def)
  have first: "ring_read b buf n out = ring_read (ring_drop k b) buf (n - k) (out @ take k (ring b buf))"
    using False assms k ring_take [of b buf k]
    by (subst ring_read.simps) (simp add: Let_def ring_drop_def flip: k_def)
  have wf: "ring_wf (ring_drop k b) buf" using ring_drop_spec(1) [OF assms(1), of k] k assms(3) by simp
  have "b_offset (ring_drop k b) = 0" using k by (simp add: ring_drop_def)
  then have "ring_read (ring_drop k b) buf (n - k) (out @ take k (ring b buf)) =
      Some (out @ take k (ring b buf) @ take (n - k) (drop k (ring b buf)), ring_drop n b)"
    using ring_read_no_wrap [OF wf, of "n - k" "out @ take k (ring b buf)"] k assms(3) ring_wfD(2) [OF assms(1)]
      ring_drop_spec(2) [OF assms(1), of k] ring_drop_drop [of k "n - k" b] by simp
  also have "take k (ring b buf) @ take (n - k) (drop k (ring b buf)) = take n (ring b buf)"
    using take_add [of k "n - k" "ring b buf"] k by simp
  finally show ?thesis using first by simp
qed

section \<open>Writing\<close>

lemma nth_write_at:
  assumes "off + length d \<le> length b" "j < length b"
  shows "write_at off d b ! j = (if off \<le> j \<and> j < off + length d then d ! (j - off) else b ! j)"
  using assms by (auto simp: write_at_def nth_append)

lemma ring_write_at:
  assumes "ring_wf b buf" "b_len b + k \<le> b_size b" "length d = k"
    "w = (b_offset b + b_len b) mod b_size b" "w + k \<le> b_size b"
  shows "ring_wf (b\<lparr>b_len := b_len b + k\<rparr>) (write_at w d buf)"
    "ring (b\<lparr>b_len := b_len b + k\<rparr>) (write_at w d buf) = ring b buf @ d"
proof -
  have sz: "b_size b = length buf" "b_offset b < b_size b" using assms(1) by (simp_all add: ring_wf_def)
  show "ring_wf (b\<lparr>b_len := b_len b + k\<rparr>) (write_at w d buf)"
    using assms sz by (simp add: ring_wf_def)
  show "ring (b\<lparr>b_len := b_len b + k\<rparr>) (write_at w d buf) = ring b buf @ d"
  proof (rule nth_equalityI)
    fix i assume "i < length (ring (b\<lparr>b_len := b_len b + k\<rparr>) (write_at w d buf))"
    then have i: "i < b_len b + k" by simp
    define j where "j = (b_offset b + i) mod b_size b"
    have j: "j < length buf" unfolding j_def sz(1) [symmetric] by (rule ring_wfD(4) [OF assms(1)])
    have pos: "j = (if b_offset b + i < b_size b then b_offset b + i else b_offset b + i - b_size b)"
      unfolding j_def using i assms(2) sz by (intro ring_pos) simp_all
    have w: "w = (if b_offset b + b_len b < b_size b then b_offset b + b_len b else b_offset b + b_len b - b_size b)"
      unfolding assms(4) using assms(2) sz by (intro ring_pos) simp_all
    have "write_at w d buf ! j = (if i < b_len b then buf ! j else d ! (i - b_len b))"
    proof (cases "i < b_len b")
      case True
      then have "\<not> (w \<le> j \<and> j < w + k)" using pos w assms(2,5) sz by (auto split: if_splits)
      then show ?thesis using True nth_write_at [of w d buf j] assms(3,5) sz j by auto
    next
      case False
      define r where "r = i - b_len b"
      have r: "j = w + r" "r < k" using False pos w i assms(2,5) sz by (auto simp: r_def split: if_splits)
      have "write_at w d buf ! (w + r) = d ! r"
        using nth_write_at [of w d buf "w + r"] assms(3,5) sz j r by simp
      then show ?thesis using False r by (simp flip: r_def)
    qed
    then show "ring (b\<lparr>b_len := b_len b + k\<rparr>) (write_at w d buf) ! i = (ring b buf @ d) ! i"
      using i ring_nth [of i "b\<lparr>b_len := b_len b + k\<rparr>"] ring_nth [of i b buf] by (simp add: nth_append j_def)
  qed (simp add: assms(3))
qed

lemma write_offset_mod:
  "ring_wf b buf \<Longrightarrow> (if b_offset b + b_len b \<ge> b_size b then b_offset b + b_len b - b_size b else b_offset b + b_len b) =
    (b_offset b + b_len b) mod b_size b"
  by (auto simp: ring_wf_def ring_pos)

text \<open>The effect of writing: the buffer that holds the bytes, and the new length.\<close>

lemma ring_write_no_wrap:
  assumes "ring_wf b buf" "0 < n" "b_len b + n \<le> b_size b" "n \<le> length inp"
    "(b_offset b + b_len b) mod b_size b + n \<le> b_size b"
  shows "\<exists>buf'. ring_write b buf n inp = Some (buf', b\<lparr>b_len := b_len b + n\<rparr>) \<and>
    ring_wf (b\<lparr>b_len := b_len b + n\<rparr>) buf' \<and> ring (b\<lparr>b_len := b_len b + n\<rparr>) buf' = ring b buf @ take n inp"
proof -
  define w where "w = (b_offset b + b_len b) mod b_size b"
  have "ring_write b buf n inp = Some (write_at w (take n inp) buf, b\<lparr>b_len := b_len b + n\<rparr>)"
    using assms write_offset_mod [OF assms(1)]
    by (subst ring_write.simps) (simp only: Let_def, simp add: w_def)
  then show ?thesis using ring_write_at [OF assms(1,3) _ w_def] assms(4,5) by (simp add: w_def)
qed

lemma ring_write_spec:
  assumes "ring_wf b buf" "0 < n" "b_len b + n \<le> b_size b" "n \<le> length inp"
  shows "\<exists>buf'. ring_write b buf n inp = Some (buf', b\<lparr>b_len := b_len b + n\<rparr>) \<and>
    ring_wf (b\<lparr>b_len := b_len b + n\<rparr>) buf' \<and> ring (b\<lparr>b_len := b_len b + n\<rparr>) buf' = ring b buf @ take n inp"
proof (cases "(b_offset b + b_len b) mod b_size b + n \<le> b_size b")
  case True
  then show ?thesis using assms ring_write_no_wrap by blast
next
  case False
  define w where "w = (b_offset b + b_len b) mod b_size b"
  define k where "k = b_size b - w"
  have "w < b_size b" unfolding w_def by (rule ring_wfD(4) [OF assms(1)])
  then have k: "0 < k" "k < n" "w + k = b_size b" using False by (simp_all add: k_def flip: w_def)
  define b1 where "b1 = b\<lparr>b_len := b_len b + k\<rparr>"
  define buf1 where "buf1 = write_at w (take k inp) buf"
  have first: "ring_write b buf n inp = ring_write b1 buf1 (n - k) (drop k inp)"
    using False assms k write_offset_mod [OF assms(1)]
    by (subst ring_write.simps) (simp only: Let_def, simp add: b1_def buf1_def flip: w_def k_def)
  have r: "ring_wf b1 buf1" "ring b1 buf1 = ring b buf @ take k inp"
    using ring_write_at [OF assms(1) _ _ w_def, of k "take k inp"] k assms(3,4) by (simp_all add: b1_def buf1_def)
  have "(b_offset b1 + b_len b1) mod b_size b1 = (w + k) mod b_size b"
    by (simp add: b1_def w_def mod_simps add.assoc)
  then have w1: "(b_offset b1 + b_len b1) mod b_size b1 = 0" using k(3) by simp
  have "take k inp @ take (n - k) (drop k inp) = take n inp" using take_add [of k "n - k" inp] k by simp
  moreover have "\<exists>buf'. ring_write b1 buf1 (n - k) (drop k inp) = Some (buf', b1\<lparr>b_len := b_len b1 + (n - k)\<rparr>) \<and>
    ring_wf (b1\<lparr>b_len := b_len b1 + (n - k)\<rparr>) buf' \<and>
    ring (b1\<lparr>b_len := b_len b1 + (n - k)\<rparr>) buf' = ring b1 buf1 @ take (n - k) (drop k inp)"
    using ring_write_no_wrap [OF r(1), of "n - k" "drop k inp"] w1 k assms(3,4) by (simp add: b1_def)
  ultimately show ?thesis using k r(2) by (simp add: first b1_def)
qed

end
