(* ===== verification/BIO_Pair.thy ===== *)
theory BIO_Pair
  imports BIO_Generic BIO_Ring
begin

text \<open>
  A pair of objects as two bounded FIFO channels, one for each direction. A channel is what the half
  that writes to it keeps in its \<open>bio_bio_st\<close>: the bytes on the way, the capacity, whether the writer has
  closed it, and the number of bytes that the reader last asked for in vain. Every operation on the pair
  returns, passes its assertions, and acts on the channels as specified here.
\<close>

section \<open>Channels\<close>

record channel =
  ch_data :: bytes
  ch_cap :: nat
  ch_closed :: bool
  ch_request :: nat

definition chan_read :: "nat \<Rightarrow> channel \<Rightarrow> (int \<times> bytes) \<times> channel" where
  "chan_read n ch =
    (if ch_data ch = [] then
       if ch_closed ch then ((0, []), ch\<lparr>ch_request := 0\<rparr>)
       else ((- 1, []), ch\<lparr>ch_request := min n (ch_cap ch)\<rparr>)
     else let k = min n (length (ch_data ch))
          in ((int k, take k (ch_data ch)), ch\<lparr>ch_data := drop k (ch_data ch), ch_request := 0\<rparr>))"

definition chan_write :: "bytes \<Rightarrow> channel \<Rightarrow> int \<times> channel" where
  "chan_write inp ch =
    (let k = min (length inp) (ch_cap ch - length (ch_data ch))
     in if ch_closed ch \<or> k = 0 then (- 1, ch\<lparr>ch_request := 0\<rparr>)
        else (int k, ch\<lparr>ch_data := ch_data ch @ take k inp, ch_request := 0\<rparr>))"

definition chan_of :: "bio_bio_st \<Rightarrow> channel" where
  "chan_of b = \<lparr>ch_data = (case b_buf b of None \<Rightarrow> [] | Some buf \<Rightarrow> ring b buf), ch_cap = b_size b,
     ch_closed = closed b, ch_request = b_request b\<rparr>"

definition chan :: "bios \<Rightarrow> nat \<Rightarrow> channel option" where
  "chan h a = do { bio \<leftarrow> h a; b \<leftarrow> pair_of bio; Some (chan_of b) }"

text \<open>The invariant of one half, with what the comments of the struct say of its fields.\<close>

definition half_ok :: "nat \<Rightarrow> bio \<Rightarrow> bio_bio_st \<Rightarrow> bytes \<Rightarrow> bool" where
  "half_ok other bio b buf \<longleftrightarrow>
     io_method bio = methods_biop \<and> io_init bio \<and> io_ptr bio = PairPtr b \<and> peer b = Some other \<and>
     b_buf b = Some buf \<and> ring_wf b buf \<and> b_size b < 2 ^ 31 \<and> (b_len b = 0 \<longrightarrow> b_offset b = 0) \<and>
     (b_len b \<noteq> 0 \<longrightarrow> b_request b = 0) \<and> b_request b \<le> b_size b"

definition pair_ok :: "bios \<Rightarrow> nat \<Rightarrow> nat \<Rightarrow> bool" where
  "pair_ok h a1 a2 \<longleftrightarrow> a1 \<noteq> a2 \<and> (\<exists>bio b buf. h a1 = Some bio \<and> half_ok a2 bio b buf) \<and>
     (\<exists>bio b buf. h a2 = Some bio \<and> half_ok a1 bio b buf)"

lemma pair_ok_sym: "pair_ok h a1 a2 \<longleftrightarrow> pair_ok h a2 a1"
  by (auto simp: pair_ok_def)

lemma pair_okE:
  assumes "pair_ok h a o'"
  obtains bio b buf pbio pb pbuf where "a \<noteq> o'" "h a = Some bio" "half_ok o' bio b buf"
    "h o' = Some pbio" "half_ok a pbio pb pbuf"
  using assms unfolding pair_ok_def by blast

lemma pair_ok_halfE:
  assumes "pair_ok h a o'"
  obtains bio b buf where "h a = Some bio" "half_ok o' bio b buf"
  using assms unfolding pair_ok_def by blast

lemmas bind_simps = Option.bind.simps Let_def assert_def

lemma half_okD:
  assumes "half_ok other bio b buf"
  shows "io_method bio = methods_biop" "io_init bio" "io_ptr bio = PairPtr b" "pair_of bio = Some b"
    "peer b = Some other" "b_buf b = Some buf" "ring_wf b buf" "b_len b \<le> b_size b" "b_size b < 2 ^ 31"
    "chan_of b = \<lparr>ch_data = ring b buf, ch_cap = b_size b, ch_closed = closed b, ch_request = b_request b\<rparr>"
  using assms by (simp_all add: half_ok_def pair_of_def chan_of_def ring_wf_def)

text \<open>The reader's step, as an update of the two objects.\<close>

lemma bio_read_cases:
  assumes "h a = Some bio" "half_ok o' bio b buf" "h o' = Some pbio" "half_ok a pbio pb pbuf" "a \<noteq> o'" "0 < n"
  shows "bio_read h a False n = (
    let bio = BIO_clear_retry_flags bio; pb0 = pb\<lparr>b_request := 0\<rparr>
    in if b_len pb = 0 then
         if closed pb then Some (0, [], h(a \<mapsto> bio, o' \<mapsto> pbio\<lparr>io_ptr := PairPtr pb0\<rparr>))
         else Some (- 1, [], h(a \<mapsto> BIO_set_retry_read bio,
                o' \<mapsto> pbio\<lparr>io_ptr := PairPtr (pb\<lparr>b_request := min n (b_size pb)\<rparr>)\<rparr>))
       else Some (int (min n (b_len pb)), take n (ring pb pbuf),
                h(a \<mapsto> bio, o' \<mapsto> pbio\<lparr>io_ptr := PairPtr (ring_drop (min n (b_len pb)) pb0)\<rparr>)))"
proof -
  note d = half_okD [OF assms(2)] half_okD [OF assms(4)]
  have wf: "ring_wf (pb\<lparr>b_request := 0\<rparr>) pbuf" using d by simp
  have r: "ring_read (pb\<lparr>b_request := 0\<rparr>) pbuf (min n (b_len pb)) [] =
      Some (take n (ring pb pbuf), ring_drop (min n (b_len pb)) (pb\<lparr>b_request := 0\<rparr>))" if "b_len pb \<noteq> 0"
    using ring_read_spec [OF wf, of "min n (b_len pb)" "[]"] that assms(6) by (simp add: min_def)
  have m: "(if b_len pb < n then b_len pb else n) = min n (b_len pb)" "(if n \<le> b_size pb then n else b_size pb) = min n (b_size pb)"
    by (simp_all add: min_def)
  have c: "io_init (BIO_clear_retry_flags x) = io_init x" "pair_of (BIO_clear_retry_flags x) = pair_of x" for x :: bio
    by (simp_all add: BIO_clear_retry_flags_def pair_of_def)
  show ?thesis
    using assms d r
    by (auto simp: bio_read_def bind_simps on_bio_def put_ptr_def c m fun_upd_twist)
qed

lemma half_ok_flags [simp]:
  "half_ok other (BIO_clear_retry_flags bio) b buf = half_ok other bio b buf"
  "half_ok other (BIO_set_retry_read bio) b buf = half_ok other bio b buf"
  "half_ok other (BIO_set_retry_write bio) b buf = half_ok other bio b buf"
  "half_ok other (bio\<lparr>io_num_read := x\<rparr>) b buf = half_ok other bio b buf"
  "half_ok other (bio\<lparr>io_num_write := x\<rparr>) b buf = half_ok other bio b buf"
  by (simp_all add: half_ok_def BIO_clear_retry_flags_def BIO_set_retry_read_def BIO_set_retry_write_def)

text \<open>Whether the caller is told to retry.\<close>

definition retry :: "bio \<Rightarrow> bool" where
  "retry bio \<longleftrightarrow> BIO_should_retry bio \<noteq> 0"

lemmas flag_defs = BIO_FLAGS_READ_def BIO_FLAGS_WRITE_def BIO_FLAGS_IO_SPECIAL_def BIO_FLAGS_RWS_def
  BIO_FLAGS_SHOULD_RETRY_def kRetryFlags_def

lemma retry_clear [simp]: "\<not> retry (BIO_clear_retry_flags bio)"
proof -
  have "(x AND NOT 15) AND 8 = (0 :: u32)" for x by (simp add: and.assoc)
  then show ?thesis by (simp add: retry_def BIO_should_retry_def BIO_test_flags_def BIO_clear_retry_flags_def flag_defs)
qed

lemma retry_set [simp]: "retry (BIO_set_retry_read bio)" "retry (BIO_set_retry_write bio)"
proof -
  have "bit ((x OR 9) AND 8 :: u32) 3" "bit ((x OR 10) AND 8 :: u32) 3" for x
    by (simp_all add: bit_simps bit_numeral_rec)
  then have "(x OR 9) AND 8 \<noteq> (0 :: u32)" "(x OR 10) AND 8 \<noteq> (0 :: u32)" for x by (metis bit_0_eq bot_apply bot_bool_def)+
  then show "retry (BIO_set_retry_read bio)" "retry (BIO_set_retry_write bio)"
    by (simp_all add: retry_def BIO_should_retry_def BIO_test_flags_def BIO_set_retry_read_def
        BIO_set_retry_write_def flag_defs)
qed

lemma retry_ptr [simp]: "retry (bio\<lparr>io_ptr := p\<rparr>) = retry bio" "retry (bio\<lparr>io_num_read := x\<rparr>) = retry bio"
  "retry (bio\<lparr>io_num_write := x\<rparr>) = retry bio"
  by (simp_all add: retry_def BIO_should_retry_def BIO_test_flags_def)

text \<open>What an operation of half \<open>a\<close> does to the channels \<open>x\<close> (of \<open>a\<close>) and \<open>y\<close> (of the other half).\<close>

definition pair_goes :: "nat \<Rightarrow> nat \<Rightarrow> bios \<Rightarrow> channel \<Rightarrow> channel \<Rightarrow> bios \<Rightarrow> bool" where
  "pair_goes a o' h x y h' \<longleftrightarrow> pair_ok h' a o' \<and> chan h' a = Some x \<and> chan h' o' = Some y \<and>
     (\<forall>c. c \<noteq> a \<and> c \<noteq> o' \<longrightarrow> h' c = h c)"

lemma pair_goesI:
  assumes "a \<noteq> o'" "half_ok o' bio b buf" "half_ok a pbio pb pbuf" "x = chan_of b" "y = chan_of pb"
  shows "pair_goes a o' h x y (h(a \<mapsto> bio, o' \<mapsto> pbio))"
  using assms by (auto simp: pair_goes_def pair_ok_def chan_def half_okD)

lemma half_ok_ptr:
  "half_ok other (bio\<lparr>io_ptr := PairPtr b'\<rparr>) b' buf \<longleftrightarrow>
    io_method bio = methods_biop \<and> io_init bio \<and> peer b' = Some other \<and>
     b_buf b' = Some buf \<and> ring_wf b' buf \<and> b_size b' < 2 ^ 31 \<and> (b_len b' = 0 \<longrightarrow> b_offset b' = 0) \<and>
     (b_len b' \<noteq> 0 \<longrightarrow> b_request b' = 0) \<and> b_request b' \<le> b_size b'"
  by (simp add: half_ok_def)

lemma chan_half: "half_ok other bio b buf \<Longrightarrow> h a = Some bio \<Longrightarrow> chan h a = Some (chan_of b)"
  by (simp add: chan_def half_okD)

lemma bio_read_chan:
  assumes "pair_ok h a o'" "0 < n" "chan h a = Some x" "chan h o' = Some y" "chan_read n y = ((ret, out), y')"
  shows "\<exists>h'. bio_read h a False n = Some (ret, out, h') \<and> pair_goes a o' h x y' h' \<and>
    (retry (the (h' a)) \<longleftrightarrow> ret = - 1)"
proof -
  from assms(1) obtain bio b buf pbio pb pbuf where e: "a \<noteq> o'" "h a = Some bio" "half_ok o' bio b buf"
    "h o' = Some pbio" "half_ok a pbio pb pbuf" by (rule pair_okE)
  note d = half_okD [OF e(3)] half_okD [OF e(5)]
  have x: "x = chan_of b" and y: "y = \<lparr>ch_data = ring pb pbuf, ch_cap = b_size pb, ch_closed = closed pb, ch_request = b_request pb\<rparr>"
    using chan_half [OF e(3), of h a] chan_half [OF e(5), of h o'] assms(3,4) e d by simp_all
  note r = bio_read_cases [OF e(2,3,4,5,1) assms(2)]
  have p: "half_ok a (pbio\<lparr>io_ptr := PairPtr b1\<rparr>) b1 pbuf" if "ring_wf b1 pbuf" "peer b1 = peer pb"
      "b_buf b1 = b_buf pb" "b_size b1 = b_size pb" "b_len b1 = 0 \<longrightarrow> b_offset b1 = 0" "b_len b1 \<noteq> 0 \<longrightarrow> b_request b1 = 0"
      "b_request b1 \<le> b_size b1" for b1
    using that d by (simp add: half_ok_ptr)
  show ?thesis
  proof (cases "b_len pb = 0")
    case True
    have off: "b_offset pb = 0" using True e(5) by (simp add: half_ok_def)
    show ?thesis
    proof (cases "closed pb")
      case cl: True
      have "pair_goes a o' h x y' (h(a \<mapsto> BIO_clear_retry_flags bio, o' \<mapsto> pbio\<lparr>io_ptr := PairPtr (pb\<lparr>b_request := 0\<rparr>)\<rparr>))"
        using assms(5) True cl d off e(1) x y e(3)
        by (intro pair_goesI [where buf = buf and pbuf = pbuf]) (auto simp: chan_read_def chan_of_def intro!: p)
      then show ?thesis using assms(5) True cl r y e(1) by (auto simp: chan_read_def)
    next
      case cl: False
      have "pair_goes a o' h x y' (h(a \<mapsto> BIO_set_retry_read (BIO_clear_retry_flags bio),
          o' \<mapsto> pbio\<lparr>io_ptr := PairPtr (pb\<lparr>b_request := min n (b_size pb)\<rparr>)\<rparr>))"
        using assms(5) True cl d off e(1) x y e(3)
        by (intro pair_goesI [where buf = buf and pbuf = pbuf]) (auto simp: chan_read_def chan_of_def intro!: p)
      then show ?thesis using assms(5) True cl r y e(1) by (auto simp: chan_read_def)
    qed
  next
    case False
    define pb1 where "pb1 = ring_drop (min n (b_len pb)) (pb\<lparr>b_request := 0\<rparr>)"
    have w: "ring_wf pb1 pbuf" "ring pb1 pbuf = drop (min n (b_len pb)) (ring pb pbuf)"
      using ring_drop_spec [of "pb\<lparr>b_request := 0\<rparr>" pbuf "min n (b_len pb)"] d by (simp_all add: pb1_def)
    have f: "b_request pb1 = 0" "peer pb1 = peer pb" "b_buf pb1 = b_buf pb" "b_size pb1 = b_size pb" "closed pb1 = closed pb"
      "b_len pb1 = 0 \<longrightarrow> b_offset pb1 = 0"
      by (auto simp: pb1_def ring_drop_def min_def)
    have ne: "ring pb pbuf \<noteq> []" using False by (metis length_ring list.size(3))
    have y': "y' = chan_of pb1" "ret = int (min n (b_len pb))" "out = take n (ring pb pbuf)"
      using assms(5) ne d(16) w(2) f y by (auto simp: chan_read_def chan_of_def Let_def min_def)
    have "half_ok a (pbio\<lparr>io_ptr := PairPtr pb1\<rparr>) pb1 pbuf" using w(1) f by (intro p) simp_all
    then have "pair_goes a o' h x y' (h(a \<mapsto> BIO_clear_retry_flags bio, o' \<mapsto> pbio\<lparr>io_ptr := PairPtr pb1\<rparr>))"
      using e(1,3) x y'(1) by (intro pair_goesI [where buf = buf and pbuf = pbuf]) simp_all
    then show ?thesis using y'(2,3) False r e(1) by (auto simp flip: pb1_def)
  qed
qed

section \<open>Writing\<close>

lemma bio_write_cases:
  assumes "h a = Some bio" "half_ok o' bio b buf" "inp \<noteq> []"
  shows "closed b \<or> b_len b = b_size b \<Longrightarrow>
      \<exists>b' bio'. half_ok o' bio' b' buf \<and> bio_write h a (Some inp) = Some (- 1, h(a \<mapsto> bio')) \<and>
      chan_of b' = (chan_of b)\<lparr>ch_request := 0\<rparr> \<and> (retry bio' \<longleftrightarrow> \<not> closed b)"
  and "\<not> closed b \<Longrightarrow> b_len b \<noteq> b_size b \<Longrightarrow>
      \<exists>b' bio' buf'. half_ok o' bio' b' buf' \<and>
      bio_write h a (Some inp) = Some (int (min (length inp) (b_size b - b_len b)), h(a \<mapsto> bio')) \<and>
      chan_of b' = (chan_of b)\<lparr>ch_data := ring b buf @ take (min (length inp) (b_size b - b_len b)) inp, ch_request := 0\<rparr> \<and>
      \<not> retry bio'"
proof -
  note d = half_okD [OF assms(2)]
  have c: "io_init (BIO_clear_retry_flags x) = io_init x" "pair_of (BIO_clear_retry_flags x) = pair_of x"
    "io_ptr (BIO_clear_retry_flags x) = io_ptr x" "io_method (BIO_clear_retry_flags x) = io_method x" for x :: bio
    by (simp_all add: BIO_clear_retry_flags_def pair_of_def)
  have sw: "BIO_set_retry_write (x\<lparr>io_ptr := p\<rparr>) = (BIO_set_retry_write x)\<lparr>io_ptr := p\<rparr>" for x :: bio and p
    by (simp add: BIO_set_retry_write_def)
  have cr: "io_init (BIO_set_retry_write x) = io_init x" "io_method (BIO_set_retry_write x) = io_method x" for x :: bio
    by (simp_all add: BIO_set_retry_write_def)
  define b0 where "b0 = b\<lparr>b_request := 0\<rparr>"
  have b0: "closed b0 = closed b" "b_len b0 = b_len b" "b_size b0 = b_size b" "ring b0 = ring b" "ring_wf b0 buf"
    "peer b0 = peer b" "b_buf b0 = b_buf b" "b_request b0 = 0" "b_len b0 = 0 \<longrightarrow> b_offset b0 = 0" "b_offset b0 = b_offset b"
    using assms(2) by (auto simp: b0_def half_ok_def ring_wf_def ring_def fun_eq_iff)
  have off: "b_len b = 0 \<longrightarrow> b_offset b = 0" using assms(2) by (simp add: half_ok_def)
  define bio1 where "bio1 = (BIO_clear_retry_flags bio)\<lparr>io_ptr := PairPtr b0\<rparr>"
  have h1: "half_ok o' bio1 b0 buf" using d b0 off by (simp add: bio1_def half_ok_ptr c)
  have ch: "chan_of b0 = (chan_of b)\<lparr>ch_request := 0\<rparr>" using d b0 by (simp add: chan_of_def)
  have unf: "bio_write h a (Some inp) =
     (if closed b then Some (- 1, h(a \<mapsto> bio1))
      else if b_len b = b_size b then Some (- 1, h(a \<mapsto> BIO_set_retry_write bio1))
      else let num = (if length inp > b_size b - b_len b then b_size b - b_len b else length inp)
           in Option.bind (ring_write b0 buf num inp) (\<lambda>(buf, b).
             Some (int num, h(a \<mapsto> bio1\<lparr>io_ptr := PairPtr (b\<lparr>b_buf := Some buf\<rparr>)\<rparr>))))"
    using assms d by (auto simp: bio_write_def bind_simps on_bio_def put_ptr_def c bio1_def b0_def
        intro!: arg_cong2 [where f = Option.bind])
  show "\<exists>b' bio'. half_ok o' bio' b' buf \<and> bio_write h a (Some inp) = Some (- 1, h(a \<mapsto> bio')) \<and>
      chan_of b' = (chan_of b)\<lparr>ch_request := 0\<rparr> \<and> (retry bio' \<longleftrightarrow> \<not> closed b)"
    if "closed b \<or> b_len b = b_size b"
  proof (cases "closed b")
    case True
    then show ?thesis using h1 ch unf by (intro exI [of _ b0] exI [of _ bio1]) (simp add: bio1_def)
  next
    case False
    then show ?thesis using h1 ch unf that by (intro exI [of _ b0] exI [of _ "BIO_set_retry_write bio1"]) simp
  qed
  show "\<exists>b' bio' buf'. half_ok o' bio' b' buf' \<and>
      bio_write h a (Some inp) = Some (int (min (length inp) (b_size b - b_len b)), h(a \<mapsto> bio')) \<and>
      chan_of b' = (chan_of b)\<lparr>ch_data := ring b buf @ take (min (length inp) (b_size b - b_len b)) inp, ch_request := 0\<rparr> \<and>
      \<not> retry bio'"
    if "\<not> closed b" "b_len b \<noteq> b_size b"
  proof -
    define num where "num = min (length inp) (b_size b - b_len b)"
    have num: "(if length inp > b_size b - b_len b then b_size b - b_len b else length inp) = num"
      by (simp add: num_def min_def)
    have n: "0 < num" "b_len b + num \<le> b_size b" "num \<le> length inp"
      using that(2) d(8) assms(3) by (auto simp: num_def)
    obtain buf' where w: "ring_write b0 buf num inp = Some (buf', b0\<lparr>b_len := b_len b + num\<rparr>)"
      "ring_wf (b0\<lparr>b_len := b_len b + num\<rparr>) buf'" "ring (b0\<lparr>b_len := b_len b + num\<rparr>) buf' = ring b buf @ take num inp"
      using ring_write_spec [OF b0(5) n(1), of inp] n b0 by auto
    define b2 where "b2 = b0\<lparr>b_len := b_len b + num, b_buf := Some buf'\<rparr>"
    have b2: "ring_wf b2 buf'" "ring b2 buf' = ring b buf @ take num inp" "peer b2 = peer b" "b_buf b2 = Some buf'"
      "b_size b2 = b_size b" "b_len b2 \<noteq> 0" "b_request b2 = 0" "closed b2 = closed b"
      using w(2,3) b0 n(1) by (simp_all add: b2_def)
    have "bio_write h a (Some inp) = Some (int num, h(a \<mapsto> bio1\<lparr>io_ptr := PairPtr b2\<rparr>))"
      using unf that w(1) by (simp add: num b2_def)
    moreover have "half_ok o' (bio1\<lparr>io_ptr := PairPtr b2\<rparr>) b2 buf'"
      using d b2 by (simp add: half_ok_ptr bio1_def c)
    moreover have "chan_of b2 = (chan_of b)\<lparr>ch_data := ring b buf @ take num inp, ch_request := 0\<rparr>"
      using d b2 by (simp add: chan_of_def)
    moreover have "\<not> retry (bio1\<lparr>io_ptr := PairPtr b2\<rparr>)" by (simp add: bio1_def)
    ultimately show ?thesis unfolding num_def by blast
  qed
qed

lemma bio_write_chan:
  assumes "pair_ok h a o'" "inp \<noteq> []" "chan h a = Some x" "chan h o' = Some y" "chan_write inp x = (ret, x')"
  shows "\<exists>h'. bio_write h a (Some inp) = Some (ret, h') \<and> pair_goes a o' h x' y h' \<and>
    (retry (the (h' a)) \<longleftrightarrow> ret = - 1 \<and> \<not> ch_closed x)"
proof -
  from assms(1) obtain bio b buf pbio pb pbuf where e: "a \<noteq> o'" "h a = Some bio" "half_ok o' bio b buf"
    "h o' = Some pbio" "half_ok a pbio pb pbuf" by (rule pair_okE)
  note d = half_okD [OF e(3)]
  have x: "x = chan_of b" and y: "y = chan_of pb"
    using chan_half [OF e(3), of h a] chan_half [OF e(5), of h o'] assms(3,4) e by simp_all
  have goes: "pair_goes a o' h x' y (h(a \<mapsto> bio'))" if "half_ok o' bio' b' buf'" "x' = chan_of b'" for bio' b' buf'
    using pair_goesI [OF e(1) that(1) e(5) that(2) y, of h] e(4) by (metis fun_upd_triv fun_upd_twist e(1))
  show ?thesis
  proof (cases "closed b \<or> b_len b = b_size b")
    case True
    then obtain b' bio' where w: "half_ok o' bio' b' buf" "bio_write h a (Some inp) = Some (- 1, h(a \<mapsto> bio'))"
      "chan_of b' = (chan_of b)\<lparr>ch_request := 0\<rparr>" "retry bio' \<longleftrightarrow> \<not> closed b"
      using bio_write_cases(1) [of h a, OF e(2,3) assms(2)] by blast
    have "ret = - 1" "x' = chan_of b'" using assms(5) x True w(3) d(10) by (auto simp: chan_write_def Let_def)
    then show ?thesis using w goes [OF w(1)] x d(10) by simp
  next
    case False
    then obtain b' bio' buf' where w: "half_ok o' bio' b' buf'"
      "bio_write h a (Some inp) = Some (int (min (length inp) (b_size b - b_len b)), h(a \<mapsto> bio'))"
      "chan_of b' = (chan_of b)\<lparr>ch_data := ring b buf @ take (min (length inp) (b_size b - b_len b)) inp, ch_request := 0\<rparr>"
      "\<not> retry bio'"
      using bio_write_cases(2) [of h a, OF e(2,3) assms(2)] by blast
    define k where "k = min (length inp) (b_size b - b_len b)"
    have k: "k \<noteq> 0" using False d(8) assms(2) by (auto simp: k_def)
    have "ch_data (chan_of b) = ring b buf" "ch_cap (chan_of b) = b_size b" "ch_closed (chan_of b) = closed b"
      using d(10) by simp_all
    then have "chan_write inp x = (int k, x\<lparr>ch_data := ring b buf @ take k inp, ch_request := 0\<rparr>)"
      using x False k by (simp add: chan_write_def flip: k_def)
    then have "ret = int k" "x' = chan_of b'" using assms(5) x w(3) by (simp_all add: k_def)
    then show ?thesis using w goes [OF w(1)] by (simp add: k_def)
  qed
qed

section \<open>Public operations on one half\<close>

datatype pair_act = Act_read nat | Act_write bytes | Act_shutdown_wr
  | Act_pending | Act_wpending | Act_write_guarantee | Act_read_request

definition pair_act :: "malloc \<Rightarrow> bios \<Rightarrow> nat \<Rightarrow> pair_act \<Rightarrow> ((int \<times> bytes) \<times> bios) option" where
  "pair_act m h a act =
    (case act of
       Act_read n \<Rightarrow> map_option (\<lambda>(ret, out, h). ((ret, out), h)) (BIO_read h (Some a) (int n))
     | Act_write inp \<Rightarrow> map_option (\<lambda>(ret, h). ((ret, []), h)) (BIO_write m h (Some a) inp (int (length inp)))
     | Act_shutdown_wr \<Rightarrow> map_option (\<lambda>(ret, h). ((ret, []), h)) (BIO_shutdown_wr h (Some a))
     | Act_pending \<Rightarrow> map_option (\<lambda>n. ((int n, []), h)) (BIO_pending h (Some a))
     | Act_wpending \<Rightarrow> map_option (\<lambda>n. ((int n, []), h)) (BIO_wpending h (Some a))
     | Act_write_guarantee \<Rightarrow> map_option (\<lambda>n. ((int n, []), h)) (BIO_ctrl_get_write_guarantee h (Some a))
     | Act_read_request \<Rightarrow> map_option (\<lambda>n. ((int n, []), h)) (BIO_ctrl_get_read_request h (Some a)))"

text \<open>The same on the channels: \<open>x\<close> is the one this half writes to.\<close>

definition chan_act :: "pair_act \<Rightarrow> channel \<Rightarrow> channel \<Rightarrow> (int \<times> bytes) \<times> channel \<times> channel" where
  "chan_act act x y =
    (case act of
       Act_read n \<Rightarrow> if n = 0 then ((0, []), x, y) else (case chan_read n y of (r, y) \<Rightarrow> (r, x, y))
     | Act_write inp \<Rightarrow> if inp = [] then ((0, []), x, y) else (case chan_write inp x of (ret, x) \<Rightarrow> ((ret, []), x, y))
     | Act_shutdown_wr \<Rightarrow> ((1, []), x\<lparr>ch_closed := True\<rparr>, y)
     | Act_pending \<Rightarrow> ((int (length (ch_data y)), []), x, y)
     | Act_wpending \<Rightarrow> ((int (length (ch_data x)), []), x, y)
     | Act_write_guarantee \<Rightarrow> ((if ch_closed x then 0 else int (ch_cap x) - int (length (ch_data x)), []), x, y)
     | Act_read_request \<Rightarrow> ((int (ch_request x), []), x, y))"

lemma pair_ok_on_bio:
  assumes "pair_ok h a o'" "\<And>other bio b buf. half_ok other (f bio) b buf = half_ok other bio b buf"
  shows "pair_ok (on_bio a f h) a o' \<and> chan (on_bio a f h) a = chan h a \<and> chan (on_bio a f h) o' = chan h o'"
proof -
  from assms(1) obtain bio b buf pbio pb pbuf where e: "a \<noteq> o'" "h a = Some bio" "half_ok o' bio b buf"
    "h o' = Some pbio" "half_ok a pbio pb pbuf" by (rule pair_okE)
  have f: "half_ok o' (f bio) b buf" using e(3) assms(2) by simp
  have u: "on_bio a f h a = Some (f bio)" "on_bio a f h o' = Some pbio" using e by (simp_all add: on_bio_def)
  then have "pair_ok (on_bio a f h) a o'" unfolding pair_ok_def using e(1,5) f by blast
  then show ?thesis
    using chan_half [OF f, of "on_bio a f h"] chan_half [OF e(3), of h a] chan_half [OF e(5), of h o']
      chan_half [OF e(5), of "on_bio a f h" o'] u e by simp
qed

lemma pair_goes_on_bio:
  assumes "pair_goes a o' h x y h'" "\<And>other bio b buf. half_ok other (f bio) b buf = half_ok other bio b buf"
  shows "pair_goes a o' h x y (on_bio a f h')"
  using assms(1) pair_ok_on_bio [OF _ assms(2), of h' a o'] by (auto simp: pair_goes_def on_bio_def)

lemma pair_goes_refl: "pair_ok h a o' \<Longrightarrow> chan h a = Some x \<Longrightarrow> chan h o' = Some y \<Longrightarrow> pair_goes a o' h x y h"
  by (simp add: pair_goes_def)

lemma act_read:
  assumes "pair_ok h a o'" "chan h a = Some x" "chan h o' = Some y" "chan_act (Act_read n) x y = (r, x', y')"
  shows "\<exists>h'. pair_act m h a (Act_read n) = Some (r, h') \<and> pair_goes a o' h x' y' h'"
proof (cases "n = 0")
  case True
  from assms(1) obtain bio b buf where "h a = Some bio" "half_ok o' bio b buf" by (rule pair_ok_halfE)
  then show ?thesis using True assms pair_goes_refl [OF assms(1-3)]
    by (auto simp: pair_act_def chan_act_def BIO_read_def half_okD)
next
  case False
  obtain ret out where r: "chan_read n y = ((ret, out), y')" "r = (ret, out)" "x' = x"
    using assms(4) False by (cases r) (auto simp: chan_act_def split: prod.splits)
  from assms(1) obtain bio b buf where e: "h a = Some bio" "half_ok o' bio b buf" by (rule pair_ok_halfE)
  obtain h' where h': "bio_read h a False n = Some (ret, out, h')" "pair_goes a o' h x y' h'"
    using bio_read_chan [OF assms(1) _ assms(2,3) r(1)] False by blast
  have "BIO_read h (Some a) (int n) = Some (count_read a (ret, out, h'))"
    using e h'(1) False by (simp add: BIO_read_def bread_def half_okD)
  then show ?thesis using h'(2) r pair_goes_on_bio [OF h'(2)]
    by (auto simp: pair_act_def count_read_def)
qed

lemma act_write:
  assumes "pair_ok h a o'" "chan h a = Some x" "chan h o' = Some y" "chan_act (Act_write inp) x y = (r, x', y')"
  shows "\<exists>h'. pair_act m h a (Act_write inp) = Some (r, h') \<and> pair_goes a o' h x' y' h'"
proof (cases "inp = []")
  case True
  from assms(1) obtain bio b buf where "h a = Some bio" "half_ok o' bio b buf" by (rule pair_ok_halfE)
  then show ?thesis using True assms pair_goes_refl [OF assms(1-3)]
    by (auto simp: pair_act_def chan_act_def BIO_write_def half_okD)
next
  case False
  obtain ret where r: "chan_write inp x = (ret, x')" "r = (ret, [])" "y' = y"
    using assms(4) False by (cases r) (auto simp: chan_act_def split: prod.splits)
  from assms(1) obtain bio b buf where e: "h a = Some bio" "half_ok o' bio b buf" by (rule pair_ok_halfE)
  obtain h' where h': "bio_write h a (Some inp) = Some (ret, h')" "pair_goes a o' h x' y h'"
    using bio_write_chan [OF assms(1) False assms(2,3) r(1)] by blast
  have "BIO_write m h (Some a) inp (int (length inp)) = Some (ret,
      if ret > 0 then on_bio a (\<lambda>bio. bio\<lparr>io_num_write := io_num_write bio + of_int ret\<rparr>) h' else h')"
    using e h'(1) False by (simp add: BIO_write_def bwrite_def half_okD bind_simps)
  then show ?thesis using h'(2) r pair_goes_on_bio [OF h'(2)] by (auto simp: pair_act_def)
qed

lemma act_control:
  assumes "pair_ok h a o'" "chan h a = Some x" "chan h o' = Some y" "chan_act act x y = (r, x', y')"
    "\<forall>n. act \<noteq> Act_read n" "\<forall>inp. act \<noteq> Act_write inp"
  shows "\<exists>h'. pair_act m h a act = Some (r, h') \<and> pair_goes a o' h x' y' h'"
proof -
  from assms(1) obtain bio b buf pbio pb pbuf where e: "a \<noteq> o'" "h a = Some bio" "half_ok o' bio b buf"
    "h o' = Some pbio" "half_ok a pbio pb pbuf" by (rule pair_okE)
  note d = half_okD [OF e(3)] half_okD [OF e(5)]
  have x: "x = chan_of b" and y: "y = chan_of pb"
    using chan_half [OF e(3), of h a] chan_half [OF e(5), of h o'] assms(2,3) e by simp_all
  have lim: "b_len b < 2 ^ 63" "b_len pb < 2 ^ 63" "b_size b < 2 ^ 63" "b_request b < 2 ^ 63"
    using d e(3) by (simp_all add: half_ok_def)
  have io: "io_method bio = methods_biop" "pair_of bio = Some b" "peer b = Some o'" "b_buf b = Some buf" "pair_of pbio = Some pb"
    using d by simp_all
  note same = pair_goes_refl [OF assms(1-3)]
  show ?thesis
  proof (cases act)
    case Act_shutdown_wr
    have "half_ok o' (bio\<lparr>io_ptr := PairPtr (b\<lparr>closed := True\<rparr>)\<rparr>) (b\<lparr>closed := True\<rparr>) buf"
      using e(3) by (simp add: half_ok_ptr half_ok_def)
    moreover have "x' = chan_of (b\<lparr>closed := True\<rparr>)" "y' = chan_of pb"
      using assms(4) Act_shutdown_wr x y by (simp_all add: chan_act_def chan_of_def d(6))
    ultimately have "pair_goes a o' h x' y' (h(a \<mapsto> bio\<lparr>io_ptr := PairPtr (b\<lparr>closed := True\<rparr>)\<rparr>, o' \<mapsto> pbio))"
      using e(1,5) by (intro pair_goesI)
    moreover have "h(a \<mapsto> bio\<lparr>io_ptr := PairPtr (b\<lparr>closed := True\<rparr>)\<rparr>, o' \<mapsto> pbio) =
        put_ptr a (PairPtr (b\<lparr>closed := True\<rparr>)) h"
      using e(1,2,4) by (auto simp: put_ptr_def fun_eq_iff)
    ultimately show ?thesis using assms(4) Act_shutdown_wr e(2) io
      by (simp add: pair_act_def chan_act_def BIO_shutdown_wr_def int_ctrl_def BIO_ctrl_def bio_ctrl_def)
  next
    case Act_write_guarantee
    define g where "g = int (b_size b) - int (b_len b)"
    have g: "0 \<le> g" "g < 2 ^ 63" using d(8) lim by (simp_all add: g_def)
    then have "int (nat (cast_long g mod 2 ^ 64)) = g" by simp
    moreover have "ch_cap x = b_size b" "ch_closed x = closed b" "length (ch_data x) = b_len b"
      using x d(10) by simp_all
    then have "r = (if closed b then 0 else g, [])" "x' = x" "y' = y"
      using assms(4) Act_write_guarantee by (auto simp: chan_act_def g_def)
    ultimately show ?thesis using same Act_write_guarantee e(2) io
      by (simp add: pair_act_def BIO_ctrl_get_write_guarantee_def BIO_ctrl_def bio_ctrl_def flip: g_def)
  qed (use assms e(2,4) io same d(10,20) lim x y in
      \<open>auto simp: pair_act_def chan_act_def BIO_pending_def BIO_wpending_def size_ctrl_def BIO_ctrl_def bio_ctrl_def
        BIO_ctrl_get_read_request_def bind_simps\<close>)
qed

lemma act_refines:
  assumes "pair_ok h a o'" "chan h a = Some x" "chan h o' = Some y" "chan_act act x y = (r, x', y')"
  shows "\<exists>h'. pair_act m h a act = Some (r, h') \<and> pair_goes a o' h x' y' h'"
proof (cases act)
  case (Act_read n)
  then show ?thesis using act_read assms by simp
next
  case (Act_write inp)
  then show ?thesis using act_write assms by simp
qed (use act_control [OF assms] in simp_all)

end
