(* ===== verification/BIO_Pair_Props.thy ===== *)
theory BIO_Pair_Props
  imports BIO_Pair BIO_Source
begin

text \<open>
  Properties of pairs: making one, sequences of operations on both halves in any order, and freeing.
\<close>

section \<open>Making a pair\<close>

definition new_half :: bio where
  "new_half = \<lparr>io_method = methods_biop, io_init = False, io_shutdown = 1, io_flags = 0, io_retry_reason = 0,
     io_num = 0, io_references = 1,
     io_ptr = PairPtr \<lparr>peer = None, closed = False, b_len = 0, b_offset = 0, b_size = 17 * 1024, b_buf = None, b_request = 0\<rparr>,
     io_next = None, io_num_read = 0, io_num_write = 0\<rparr>"

lemma BIO_new_pair_half:
  "BIO_new m h methods_biop a =
    (if OPENSSL_zalloc m 72 = None \<or> OPENSSL_zalloc m 56 = None then (None, h) else (Some a, h(a \<mapsto> new_half)))"
  by (auto simp: BIO_new_def bio_create_def bio_new_def new_half_def Let_def split: option.splits)

text \<open>A half without a peer, as it is before and after its life in a pair.\<close>

definition alone :: "bio \<Rightarrow> bool" where
  "alone bio \<longleftrightarrow> io_method bio = methods_biop \<and> io_references bio = 1 \<and> io_next bio = None \<and>
     (\<exists>b. io_ptr bio = PairPtr b \<and> peer b = None)"

lemma alone_new_half [simp]: "alone new_half"
  by (simp add: alone_def new_half_def)

lemma free_NULL [simp]: "BIO_free h None = Some (1, h)"
  by (subst BIO_free.simps) simp

lemma dec_last [simp]: "CRYPTO_refcount_dec_and_test_zero 1 = Some (True, 0)"
  by (simp add: CRYPTO_refcount_dec_and_test_zero_def CRYPTO_REFCOUNT_MAX_def)

lemma free_alone:
  assumes "h a = Some bio" "alone bio"
  shows "BIO_free h (Some a) = Some (1, h(a := None))"
  using assms
  by (subst BIO_free.simps)
    (auto simp: alone_def BIO_pop_def bio_destroy_def bio_free_def pair_of_def bind_simps put_ptr_def fun_upd_idem)

definition half_size :: "nat \<Rightarrow> nat" where
  "half_size writebuf_len = (if writebuf_len \<noteq> 0 then writebuf_len else 17 * 1024)"

definition empty_channel :: "nat \<Rightarrow> channel" where
  "empty_channel n = \<lparr>ch_data = [], ch_cap = n, ch_closed = False, ch_request = 0\<rparr>"

definition new_b :: "nat \<Rightarrow> nat option \<Rightarrow> bytes \<Rightarrow> bio_bio_st" where
  "new_b n p buf = \<lparr>peer = p, closed = False, b_len = 0, b_offset = 0, b_size = n, b_buf = Some buf, b_request = 0\<rparr>"

definition joined_half :: "nat \<Rightarrow> nat \<Rightarrow> bytes \<Rightarrow> bio" where
  "joined_half n p buf = new_half\<lparr>io_init := True, io_ptr := PairPtr (new_b n (Some p) buf)\<rparr>"

lemma make_pair_new:
  assumes "a1 \<noteq> a2" "h a1 = Some new_half" "h a2 = Some new_half"
  shows "bio_make_pair m m h a1 a2 w1 w2 =
    (case OPENSSL_malloc m (half_size w1) of
       None \<Rightarrow> Some (False, put_ptr a1 (PairPtr (\<lparr>peer = None, closed = False, b_len = 0, b_offset = 0, b_size = half_size w1, b_buf = None, b_request = 0\<rparr>)) h)
     | Some buf1 \<Rightarrow>
         (case OPENSSL_malloc m (half_size w2) of
            None \<Rightarrow> Some (False, put_ptr a2 (PairPtr (\<lparr>peer = None, closed = False, b_len = 0, b_offset = 0, b_size = half_size w2, b_buf = None, b_request = 0\<rparr>))
                (put_ptr a1 (PairPtr (new_b (half_size w1) None buf1)) h))
          | Some buf2 \<Rightarrow> Some (True, h(a1 \<mapsto> joined_half (half_size w1) a2 buf1, a2 \<mapsto> joined_half (half_size w2) a1 buf2))))"
  using assms
  by (auto simp: bio_make_pair_def new_half_def pair_of_def bio_alloc_buf_def half_size_def bind_simps on_bio_def
      joined_half_def new_b_def fun_eq_iff split: option.splits)

lemma joined_half_ok:
  assumes "malloc_ok m" "OPENSSL_malloc m n = Some buf" "0 < n" "n < 2 ^ 31"
  shows "half_ok p (joined_half n p buf) (new_b n (Some p) buf) buf"
  using assms OPENSSL_malloc_length [of m n buf]
  by (simp add: half_ok_def joined_half_def new_half_def new_b_def ring_wf_def)

lemma joined_chan: "chan_of (new_b n p buf) = empty_channel n"
  by (simp add: chan_of_def new_b_def empty_channel_def ring_def)

lemma alone_ptr [simp]: "alone bio \<Longrightarrow> peer b = None \<Longrightarrow> alone (bio\<lparr>io_ptr := PairPtr b\<rparr>)"
  by (simp add: alone_def)

lemma put_ptr_two:
  assumes "a1 \<noteq> a2"
  shows "put_ptr a1 p (h(a1 \<mapsto> x, a2 \<mapsto> y)) = h(a1 \<mapsto> x\<lparr>io_ptr := p\<rparr>, a2 \<mapsto> y)"
    "put_ptr a2 p (h(a1 \<mapsto> x, a2 \<mapsto> y)) = h(a1 \<mapsto> x, a2 \<mapsto> y\<lparr>io_ptr := p\<rparr>)"
  using assms by (auto simp: put_ptr_def fun_eq_iff)

lemma free_two_alone:
  assumes "a1 \<noteq> a2" "h a1 = None" "h a2 = None" "alone b1" "alone b2"
  shows "Option.bind (BIO_free (h(a1 \<mapsto> b1, a2 \<mapsto> b2)) (Some a1)) (\<lambda>(_, h).
    Option.bind (BIO_free h (Some a2)) (\<lambda>(_, h). Some (None, h))) = Some (None, h)"
  using assms free_alone [of "h(a1 \<mapsto> b1, a2 \<mapsto> b2)" a1 b1] free_alone [of "h(a2 \<mapsto> b2)" a2 b2]
  by (simp add: fun_upd_twist fun_upd_idem)

section \<open>Sequences of operations\<close>

text \<open>\<open>True\<close> stands for the first half.\<close>

fun pair_run :: "malloc \<Rightarrow> nat \<Rightarrow> nat \<Rightarrow> (bool \<times> pair_act) list \<Rightarrow> bios \<Rightarrow> ((int \<times> bytes) list \<times> bios) option" where
  "pair_run m a1 a2 [] h = Some ([], h)"
| "pair_run m a1 a2 ((first, act) # acts) h =
    (case pair_act m h (if first then a1 else a2) act of
       None \<Rightarrow> None
     | Some (r, h) \<Rightarrow> (case pair_run m a1 a2 acts h of None \<Rightarrow> None | Some (rs, h) \<Rightarrow> Some (r # rs, h)))"

definition chan_step :: "bool \<Rightarrow> pair_act \<Rightarrow> channel \<times> channel \<Rightarrow> (int \<times> bytes) \<times> channel \<times> channel" where
  "chan_step first act xy =
    (case xy of (x, y) \<Rightarrow> if first then chan_act act x y else (case chan_act act y x of (r, y, x) \<Rightarrow> (r, x, y)))"

fun chan_run :: "(bool \<times> pair_act) list \<Rightarrow> channel \<times> channel \<Rightarrow> (int \<times> bytes) list \<times> channel \<times> channel" where
  "chan_run [] xy = ([], xy)"
| "chan_run ((first, act) # acts) xy =
    (case chan_step first act xy of (r, xy) \<Rightarrow> (case chan_run acts xy of (rs, xy) \<Rightarrow> (r # rs, xy)))"

text \<open>The bytes one half has had accepted by its writes, and those its reads have returned.\<close>

fun accepted :: "bool \<Rightarrow> (bool \<times> pair_act) list \<Rightarrow> (int \<times> bytes) list \<Rightarrow> bytes" where
  "accepted half ((first, Act_write inp) # acts) ((ret, out) # rs) =
    (if first = half then take (nat ret) inp else []) @ accepted half acts rs"
| "accepted half (_ # acts) (_ # rs) = accepted half acts rs"
| "accepted half _ _ = []"

fun delivered :: "bool \<Rightarrow> (bool \<times> pair_act) list \<Rightarrow> (int \<times> bytes) list \<Rightarrow> bytes" where
  "delivered half ((first, act) # acts) ((ret, out) # rs) =
    (if first = half then out else []) @ delivered half acts rs"
| "delivered half _ _ = []"

lemma pair_step_refines:
  assumes "pair_ok h a1 a2" "chan h a1 = Some x" "chan h a2 = Some y" "chan_step first act (x, y) = (r, x', y')"
  shows "\<exists>h'. pair_act m h (if first then a1 else a2) act = Some (r, h') \<and> pair_goes a1 a2 h x' y' h'"
proof (cases first)
  case True
  then show ?thesis using act_refines [OF assms(1-3)] assms(4) by (simp add: chan_step_def)
next
  case False
  then have "chan_act act y x = (r, y', x')" using assms(4) by (auto simp: chan_step_def split: prod.splits)
  then obtain h' where "pair_act m h a2 act = Some (r, h')" "pair_goes a2 a1 h y' x' h'"
    using act_refines [OF _ assms(3,2)] assms(1) pair_ok_sym by blast
  then show ?thesis using False pair_ok_sym by (auto simp: pair_goes_def)
qed

lemma pair_run_refines:
  "pair_ok h a1 a2 \<Longrightarrow> chan h a1 = Some x \<Longrightarrow> chan h a2 = Some y \<Longrightarrow> chan_run acts (x, y) = (rs, x', y') \<Longrightarrow>
   \<exists>h'. pair_run m a1 a2 acts h = Some (rs, h') \<and> pair_goes a1 a2 h x' y' h'"
proof (induction acts arbitrary: h x y rs)
  case Nil
  then show ?case by (auto simp: pair_goes_def)
next
  case (Cons fa acts)
  obtain first act where fa: "fa = (first, act)" by fastforce
  obtain r x1 y1 where s: "chan_step first act (x, y) = (r, x1, y1)" by (metis prod.exhaust)
  then obtain rs1 where rs: "rs = r # rs1" "chan_run acts (x1, y1) = (rs1, x', y')"
    using Cons.prems(4) by (auto simp: fa split: prod.splits)
  obtain h1 where h1: "pair_act m h (if first then a1 else a2) act = Some (r, h1)" "pair_goes a1 a2 h x1 y1 h1"
    using pair_step_refines [OF Cons.prems(1-3) s] by blast
  then obtain h' where "pair_run m a1 a2 acts h1 = Some (rs1, h')" "pair_goes a1 a2 h1 x' y' h'"
    using Cons.IH [of h1 x1 y1 rs1] rs(2) by (auto simp: pair_goes_def)
  then show ?case using h1 rs(1) by (auto simp: fa pair_goes_def)
qed

lemma pair_run_goes:
  assumes "pair_goes a1 a2 h x y h0" "pair_run m a1 a2 acts h0 = Some (rs, h')"
  obtains x' y' where "chan_run acts (x, y) = (rs, x', y')" "pair_goes a1 a2 h0 x' y' h'"
proof -
  obtain rs1 x' y' where r: "chan_run acts (x, y) = (rs1, x', y')" by (metis prod.exhaust)
  then obtain h1 where "pair_run m a1 a2 acts h0 = Some (rs1, h1)" "pair_goes a1 a2 h0 x' y' h1"
    using pair_run_refines [OF _ _ _ r] assms(1) unfolding pair_goes_def by blast
  then show ?thesis using that r assms(2) by auto
qed

text \<open>No byte is lost, invented or moved.\<close>

lemma chan_act_fifo:
  assumes "chan_act act x y = ((ret, out), x', y')"
  shows "ch_data x' = ch_data x @ (case act of Act_write inp \<Rightarrow> take (nat ret) inp | _ \<Rightarrow> [])"
    "ch_data y = out @ ch_data y'"
  using assms
  by (auto simp: chan_act_def chan_read_def chan_write_def Let_def split: pair_act.splits if_splits prod.splits)

lemma chan_run_fifo:
  "chan_run acts (x, y) = (rs, x', y') \<Longrightarrow>
    ch_data x @ accepted True acts rs = delivered False acts rs @ ch_data x' \<and>
    ch_data y @ accepted False acts rs = delivered True acts rs @ ch_data y'"
proof (induction acts arbitrary: x y rs)
  case (Cons fa acts)
  obtain first act where fa: "fa = (first, act)" by fastforce
  obtain ret out x1 y1 where s: "chan_step first act (x, y) = ((ret, out), x1, y1)" by (metis prod.exhaust)
  then obtain rs1 where rs: "rs = (ret, out) # rs1" "chan_run acts (x1, y1) = (rs1, x', y')"
    using Cons.prems by (auto simp: fa split: prod.splits)
  note ih = Cons.IH [OF rs(2)]
  have acc: "accepted half (fa # acts) rs =
      (if first = half then (case act of Act_write inp \<Rightarrow> take (nat ret) inp | _ \<Rightarrow> []) else []) @ accepted half acts rs1" for half
    by (cases act) (simp_all add: fa rs(1))
  show ?case
  proof (cases first)
    case True
    then have "chan_act act x y = ((ret, out), x1, y1)" using s by (simp add: chan_step_def)
    then show ?thesis using chan_act_fifo [of act x y ret out x1 y1] ih True acc by (simp add: fa rs(1))
  next
    case False
    then have "chan_act act y x = ((ret, out), y1, x1)" using s by (auto simp: chan_step_def split: prod.splits)
    then show ?thesis using chan_act_fifo [of act y x ret out y1 x1] ih False acc by (simp add: fa rs(1))
  qed
qed simp

section \<open>Results\<close>

text \<open>The allocations of \<open>BIO_new_bio_pair\<close> all succeed.\<close>

definition pair_memory :: "malloc \<Rightarrow> malloc \<Rightarrow> malloc \<Rightarrow> nat \<Rightarrow> nat \<Rightarrow> bool" where
  "pair_memory m1 m2 m3 w1 w2 \<longleftrightarrow>
     OPENSSL_zalloc m1 72 \<noteq> None \<and> OPENSSL_zalloc m1 56 \<noteq> None \<and> OPENSSL_zalloc m2 72 \<noteq> None \<and>
     OPENSSL_zalloc m2 56 \<noteq> None \<and> OPENSSL_malloc m3 (half_size w1) \<noteq> None \<and> OPENSSL_malloc m3 (half_size w2) \<noteq> None"

text \<open>Two unused addresses, and sizes that fit an \<open>int\<close>.\<close>

definition fresh_pair :: "malloc \<Rightarrow> bios \<Rightarrow> nat \<Rightarrow> nat \<Rightarrow> nat \<Rightarrow> nat \<Rightarrow> bool" where
  "fresh_pair m h a1 a2 w1 w2 \<longleftrightarrow> malloc_ok m \<and> a1 \<noteq> a2 \<and> h a1 = None \<and> h a2 = None \<and> w1 < 2 ^ 31 \<and> w2 < 2 ^ 31"

lemma half_size_bounds: "w < 2 ^ 31 \<Longrightarrow> 0 < half_size w \<and> half_size w < 2 ^ 31"
  by (simp add: half_size_def)

lemma joined_pair_ok:
  assumes "fresh_pair m h a1 a2 w1 w2" "OPENSSL_malloc m (half_size w1) = Some buf1" "OPENSSL_malloc m (half_size w2) = Some buf2"
    "h' = h(a1 \<mapsto> joined_half (half_size w1) a2 buf1, a2 \<mapsto> joined_half (half_size w2) a1 buf2)"
  shows "pair_goes a1 a2 h (empty_channel (half_size w1)) (empty_channel (half_size w2)) h'"
proof -
  have "half_ok a2 (joined_half (half_size w1) a2 buf1) (new_b (half_size w1) (Some a2) buf1) buf1"
    "half_ok a1 (joined_half (half_size w2) a1 buf2) (new_b (half_size w2) (Some a1) buf2) buf2"
    using assms(1) half_size_bounds joined_half_ok [OF _ assms(2)] joined_half_ok [OF _ assms(3)]
    by (simp_all add: fresh_pair_def)
  then show ?thesis unfolding assms(4) using assms(1)
    by (intro pair_goesI) (auto simp only: joined_chan fresh_pair_def)
qed

lemma new_pair_failed:
  assumes "fresh_pair m3 h a1 a2 w1 w2" "\<not> pair_memory m1 m2 m3 w1 w2"
  shows "BIO_new_bio_pair m1 m2 m3 h a1 a2 w1 w2 = Some (None, h)"
proof -
  have f: "a1 \<noteq> a2" "h a1 = None" "h a2 = None" using assms(1) by (simp_all add: fresh_pair_def)
  have one: "BIO_free (h(a \<mapsto> new_half)) (Some a) = Some (1, h)" if "h a = None" for a
    using free_alone [of "h(a \<mapsto> new_half)" a] that by (simp add: fun_upd_idem)
  show ?thesis
  proof (cases "OPENSSL_zalloc m1 72 = None \<or> OPENSSL_zalloc m1 56 = None \<or> OPENSSL_zalloc m2 72 = None \<or> OPENSSL_zalloc m2 56 = None")
    case True
    then show ?thesis using one f by (auto simp: BIO_new_bio_pair_def BIO_new_pair_half)
  next
    case False
    define h2 where "h2 = h(a1 \<mapsto> new_half, a2 \<mapsto> new_half)"
    have ne: "OPENSSL_malloc m3 (half_size w1) = None \<or> OPENSSL_malloc m3 (half_size w2) = None"
      using False assms(2) by (simp add: pair_memory_def)
    have "\<exists>b1 b2. bio_make_pair m3 m3 h2 a1 a2 w1 w2 = Some (False, h(a1 \<mapsto> b1, a2 \<mapsto> b2)) \<and> alone b1 \<and> alone b2"
      using ne make_pair_new [of a1 a2 h2 m3 w1 w2] f(1)
      by (auto simp: h2_def put_ptr_two new_b_def split: option.splits intro!: exI)
    then obtain b1 b2 where b: "bio_make_pair m3 m3 h2 a1 a2 w1 w2 = Some (False, h(a1 \<mapsto> b1, a2 \<mapsto> b2))" "alone b1" "alone b2"
      by blast
    have "BIO_new_bio_pair m1 m2 m3 h a1 a2 w1 w2 = Option.bind (BIO_free (h(a1 \<mapsto> b1, a2 \<mapsto> b2)) (Some a1)) (\<lambda>(_, h).
        Option.bind (BIO_free h (Some a2)) (\<lambda>(_, h). Some (None, h)))"
      using False b(1) by (auto simp: BIO_new_bio_pair_def BIO_new_pair_half h2_def)
    then show ?thesis using free_two_alone [OF f b(2,3)] by simp
  qed
qed

lemma new_pair_made:
  assumes "fresh_pair m3 h a1 a2 w1 w2" "pair_memory m1 m2 m3 w1 w2"
  shows "\<exists>h'. BIO_new_bio_pair m1 m2 m3 h a1 a2 w1 w2 = Some (Some (a1, a2), h') \<and>
    pair_goes a1 a2 h (empty_channel (half_size w1)) (empty_channel (half_size w2)) h'"
proof -
  obtain buf1 buf2 where b: "OPENSSL_malloc m3 (half_size w1) = Some buf1" "OPENSSL_malloc m3 (half_size w2) = Some buf2"
    using assms(2) by (auto simp: pair_memory_def)
  define h2 where "h2 = h(a1 \<mapsto> new_half, a2 \<mapsto> new_half)"
  define h' where "h' = h2(a1 \<mapsto> joined_half (half_size w1) a2 buf1, a2 \<mapsto> joined_half (half_size w2) a1 buf2)"
  have f: "a1 \<noteq> a2" using assms(1) by (simp add: fresh_pair_def)
  then have "bio_make_pair m3 m3 h2 a1 a2 w1 w2 = Some (True, h')"
    using make_pair_new [of a1 a2 h2 m3 w1 w2] b by (simp add: h2_def h'_def)
  then have "BIO_new_bio_pair m1 m2 m3 h a1 a2 w1 w2 = Some (Some (a1, a2), h')"
    using assms(2) by (auto simp: BIO_new_bio_pair_def BIO_new_pair_half pair_memory_def h2_def)
  moreover have "h' = h(a1 \<mapsto> joined_half (half_size w1) a2 buf1, a2 \<mapsto> joined_half (half_size w2) a1 buf2)"
    using f by (simp add: h'_def h2_def fun_upd_twist)
  ultimately show ?thesis using joined_pair_ok [OF assms(1) b] by blast
qed

lemma new_pair_goes:
  assumes "fresh_pair m3 h a1 a2 w1 w2" "BIO_new_bio_pair m1 m2 m3 h a1 a2 w1 w2 = Some (Some p, h0)"
  shows "pair_goes a1 a2 h (empty_channel (half_size w1)) (empty_channel (half_size w2)) h0"
proof (cases "pair_memory m1 m2 m3 w1 w2")
  case True
  then show ?thesis using new_pair_made [OF assms(1) True] assms(2) by auto
next
  case False
  then show ?thesis using new_pair_failed [OF assms(1) False] assms(2) by simp
qed

text \<open>\<open>BIO_new_bio_pair\<close> makes a pair of two empty channels of the sizes asked for (17 KiB for a size
  of zero) when every allocation succeeds; otherwise it frees what it has made and leaves all as it was.\<close>

theorem new_pair_all_or_nothing:
  assumes "fresh_pair m3 h a1 a2 w1 w2"
  shows "\<exists>h'. BIO_new_bio_pair m1 m2 m3 h a1 a2 w1 w2 =
      Some (if pair_memory m1 m2 m3 w1 w2 then Some (a1, a2) else None, h') \<and>
    (if pair_memory m1 m2 m3 w1 w2
     then pair_goes a1 a2 h (empty_channel (half_size w1)) (empty_channel (half_size w2)) h'
     else h' = h)"
  using new_pair_made [OF assms] new_pair_failed [OF assms] by (cases "pair_memory m1 m2 m3 w1 w2") auto

definition nothing :: bios where "nothing = (\<lambda>_. None)"

lemma small_pair [simp]: "fresh_pair zero_malloc nothing 0 1 4 4" "pair_memory zero_malloc zero_malloc zero_malloc 4 4"
  by (simp_all add: fresh_pair_def pair_memory_def nothing_def OPENSSL_zalloc_def half_size_def)

theorem new_pair_all_or_nothing_witness:
  "\<exists>h'. BIO_new_bio_pair zero_malloc zero_malloc zero_malloc nothing 0 1 4 4 = Some (Some (0, 1), h') \<and>
    pair_goes 0 1 nothing (empty_channel 4) (empty_channel 4) h'"
  using new_pair_all_or_nothing [OF small_pair(1), of zero_malloc zero_malloc] by (simp add: half_size_def)

lemma small_pair_made:
  obtains h0 where "BIO_new_bio_pair zero_malloc zero_malloc zero_malloc nothing 0 1 4 4 = Some (Some (0, 1), h0)"
    "pair_goes 0 1 nothing (empty_channel 4) (empty_channel 4) h0"
  using new_pair_made [OF small_pair] by (auto simp: half_size_def)

text \<open>Six bytes are offered and four accepted, two are read, and two more fit then, around the end.\<close>

definition small_acts :: "(bool \<times> pair_act) list" where
  "small_acts = [(True, Act_write [1, 2, 3, 4, 5, 6]), (True, Act_write [5, 6]), (False, Act_read 2),
     (True, Act_write [5, 6, 7]), (False, Act_pending), (False, Act_read 9), (False, Act_read 1)]"

lemma small_chan_run:
  "chan_run small_acts (empty_channel 4, empty_channel 4) =
    ([(4, []), (- 1, []), (2, [1, 2]), (2, []), (4, []), (4, [3, 4, 5, 6]), (- 1, [])],
     (empty_channel 4)\<lparr>ch_request := 1\<rparr>, empty_channel 4)"
  by (simp add: small_acts_def chan_step_def chan_act_def chan_write_def chan_read_def empty_channel_def)

text \<open>C4. Any sequence of reads, writes, shutdowns and queries on the two halves of a new pair, in any
  order, returns what two bounded FIFO channels return, and ends in a pair that holds these channels. In
  particular no assertion fails and every copying loop ends.\<close>

theorem bio_pair_refines_channels:
  assumes "fresh_pair m3 h a1 a2 w1 w2" "BIO_new_bio_pair m1 m2 m3 h a1 a2 w1 w2 = Some (Some p, h0)"
    "chan_run acts (empty_channel (half_size w1), empty_channel (half_size w2)) = (rs, x, y)"
  shows "\<exists>h'. pair_run m a1 a2 acts h0 = Some (rs, h') \<and> pair_goes a1 a2 h0 x y h'"
  using new_pair_goes [OF assms(1,2)] pair_run_refines [of h0 a1 a2] assms(3) by (simp add: pair_goes_def)

theorem bio_pair_refines_channels_witness:
  "\<exists>h0 h'. BIO_new_bio_pair zero_malloc zero_malloc zero_malloc nothing 0 1 4 4 = Some (Some (0, 1), h0) \<and>
    pair_run zero_malloc 0 1 small_acts h0 =
      Some ([(4, []), (- 1, []), (2, [1, 2]), (2, []), (4, []), (4, [3, 4, 5, 6]), (- 1, [])], h')"
proof -
  obtain h0 where h0: "BIO_new_bio_pair zero_malloc zero_malloc zero_malloc nothing 0 1 4 4 = Some (Some (0, 1), h0)"
    by (rule small_pair_made)
  show ?thesis
    using bio_pair_refines_channels [OF small_pair(1) h0, of small_acts _ _ _ zero_malloc] small_chan_run h0
    by (auto simp: half_size_def)
qed

lemma small_pair_run:
  obtains h0 h' where "BIO_new_bio_pair zero_malloc zero_malloc zero_malloc nothing 0 1 4 4 = Some (Some (0, 1), h0)"
    "pair_run zero_malloc 0 1 small_acts h0 =
      Some ([(4, []), (- 1, []), (2, [1, 2]), (2, []), (4, []), (4, [3, 4, 5, 6]), (- 1, [])], h')"
proof -
  obtain h0 where h0: "BIO_new_bio_pair zero_malloc zero_malloc zero_malloc nothing 0 1 4 4 = Some (Some (0, 1), h0)"
    "pair_goes 0 1 nothing (empty_channel 4) (empty_channel 4) h0"
    by (rule small_pair_made)
  have "pair_ok h0 0 1" "chan h0 0 = Some (empty_channel 4)" "chan h0 1 = Some (empty_channel 4)"
    using h0(2) by (simp_all add: pair_goes_def)
  from pair_run_refines [OF this small_chan_run] show ?thesis using that h0(1) by blast
qed

text \<open>C12. Whatever the order of the operations, the bytes that the reads of one half have returned are,
  in order, the bytes that the writes of the other half have accepted, but for those still on the way.\<close>

theorem bio_pair_fifo:
  assumes "fresh_pair m3 h a1 a2 w1 w2" "BIO_new_bio_pair m1 m2 m3 h a1 a2 w1 w2 = Some (Some p, h0)"
    "pair_run m a1 a2 acts h0 = Some (rs, h')"
  shows "\<exists>x y. chan h' a1 = Some x \<and> chan h' a2 = Some y \<and>
    accepted True acts rs = delivered False acts rs @ ch_data x \<and>
    accepted False acts rs = delivered True acts rs @ ch_data y"
proof -
  obtain x y where r: "chan_run acts (empty_channel (half_size w1), empty_channel (half_size w2)) = (rs, x, y)"
    and "pair_goes a1 a2 h0 x y h'"
    using pair_run_goes [OF new_pair_goes [OF assms(1,2)] assms(3)] .
  then show ?thesis using chan_run_fifo [OF r] by (auto simp: pair_goes_def empty_channel_def)
qed

theorem bio_pair_fifo_witness:
  "\<exists>h0 h' rs x y. BIO_new_bio_pair zero_malloc zero_malloc zero_malloc nothing 0 1 4 4 = Some (Some (0, 1), h0) \<and>
    pair_run zero_malloc 0 1 small_acts h0 = Some (rs, h') \<and> chan h' 0 = Some x \<and> chan h' 1 = Some y \<and>
    accepted True small_acts rs = [1, 2, 3, 4, 5, 6] \<and>
    accepted True small_acts rs = delivered False small_acts rs @ ch_data x \<and>
    accepted False small_acts rs = delivered True small_acts rs @ ch_data y"
proof -
  obtain h0 h' where h: "BIO_new_bio_pair zero_malloc zero_malloc zero_malloc nothing 0 1 4 4 = Some (Some (0, 1), h0)"
    "pair_run zero_malloc 0 1 small_acts h0 =
      Some ([(4, []), (- 1, []), (2, [1, 2]), (2, []), (4, []), (4, [3, 4, 5, 6]), (- 1, [])], h')"
    by (rule small_pair_run)
  have "accepted True small_acts [(4, []), (- 1, []), (2, [1, 2]), (2, []), (4, []), (4, [3, 4, 5, 6]), (- 1, [])] = [1, 2, 3, 4, 5, 6]"
    by (simp add: small_acts_def)
  then show ?thesis using bio_pair_fifo [OF small_pair(1) h(1) h(2)] h by blast
qed

text \<open>What the comments of the struct promise for half \<open>a\<close> with peer \<open>p\<close>.\<close>

definition struct_ok :: "bios \<Rightarrow> nat \<Rightarrow> nat \<Rightarrow> bool" where
  "struct_ok h a p \<longleftrightarrow>
    (\<exists>bio b buf peer_bio peer_b. h a = Some bio \<and> io_init bio \<and> pair_of bio = Some b \<and> peer b = Some p \<and>
       h p = Some peer_bio \<and> pair_of peer_bio = Some peer_b \<and> peer peer_b = Some a \<and>
       b_buf b = Some buf \<and> length buf = b_size b \<and> b_len b \<le> b_size b \<and> b_offset b < b_size b \<and>
       (b_len b = 0 \<longrightarrow> b_offset b = 0) \<and> (b_len b \<noteq> 0 \<longrightarrow> b_request b = 0) \<and> b_request b \<le> b_size b - b_len b)"

lemma half_ok_struct:
  assumes "h a = Some bio" "half_ok p bio b buf" "h p = Some pbio" "half_ok a pbio pb pbuf"
  shows "struct_ok h a p"
proof -
  have "io_init bio" "pair_of bio = Some b" "peer b = Some p" "b_buf b = Some buf" "pair_of pbio = Some pb" "peer pb = Some a"
    using half_okD [OF assms(2)] half_okD [OF assms(4)] by simp_all
  moreover have "length buf = b_size b" "b_len b \<le> b_size b" "b_offset b < b_size b"
    using ring_wfD [OF half_okD(7) [OF assms(2)]] by simp_all
  moreover have "b_len b = 0 \<longrightarrow> b_offset b = 0" "b_len b \<noteq> 0 \<longrightarrow> b_request b = 0" "b_request b \<le> b_size b - b_len b"
    using assms(2) by (auto simp: half_ok_def)
  ultimately show ?thesis using assms(1,3) unfolding struct_ok_def
    by - (rule exI [of _ bio], rule exI [of _ b], rule exI [of _ buf], rule exI [of _ pbio], rule exI [of _ pb], simp)
qed

lemma pair_ok_struct: "pair_ok h a1 a2 \<Longrightarrow> struct_ok h a1 a2 \<and> struct_ok h a2 a1"
  unfolding pair_ok_def using half_ok_struct by blast

text \<open>C32. After any operations on a new pair both halves satisfy what the comments of \<open>struct bio_bio_st\<close>
  say: the peers point to each other, the buffer has \<open>size\<close> bytes, \<open>offset\<close> is 0 when \<open>len\<close> is, and
  \<open>request\<close> is 0 when \<open>len\<close> is not and never more than the room left.\<close>

theorem bio_pair_struct:
  assumes "fresh_pair m3 h a1 a2 w1 w2" "BIO_new_bio_pair m1 m2 m3 h a1 a2 w1 w2 = Some (Some p, h0)"
    "pair_run m a1 a2 acts h0 = Some (rs, h')"
  shows "struct_ok h' a1 a2 \<and> struct_ok h' a2 a1"
  using pair_run_goes [OF new_pair_goes [OF assms(1,2)] assms(3)] pair_ok_struct
  unfolding pair_goes_def by metis

theorem bio_pair_struct_witness:
  "\<exists>h0 rs h'. pair_run zero_malloc 0 1 small_acts h0 = Some (rs, h') \<and> struct_ok h' 0 1 \<and> struct_ok h' 1 0"
proof -
  obtain h0 h' where h: "BIO_new_bio_pair zero_malloc zero_malloc zero_malloc nothing 0 1 4 4 = Some (Some (0, 1), h0)"
    "pair_run zero_malloc 0 1 small_acts h0 =
      Some ([(4, []), (- 1, []), (2, [1, 2]), (2, []), (4, []), (4, [3, 4, 5, 6]), (- 1, [])], h')"
    by (rule small_pair_run)
  show ?thesis using bio_pair_struct [OF small_pair(1) h(1) h(2)] h(2) by blast
qed

text \<open>Freeing one half of a pair returns one and frees it; the other half stays as an object on which
  every read and write returns -2, and which can be freed in turn.\<close>

theorem bio_pair_free_half:
  assumes "pair_ok h a1 a2" "\<forall>bio. h a1 = Some bio \<or> h a2 = Some bio \<longrightarrow> io_references bio = 1 \<and> io_next bio = None"
  shows "\<exists>h'. BIO_free h (Some a1) = Some (1, h') \<and> h' a1 = None \<and> (\<forall>c. c \<noteq> a1 \<and> c \<noteq> a2 \<longrightarrow> h' c = h c) \<and>
    BIO_read h' (Some a2) len = Some (- 2, [], h') \<and> BIO_write m h' (Some a2) inp inl = Some (- 2, h') \<and>
    BIO_free h' (Some a2) = Some (1, h'(a2 := None))"
proof -
  from assms(1) obtain bio b buf pbio pb pbuf where e: "a1 \<noteq> a2" "h a1 = Some bio" "half_ok a2 bio b buf"
    "h a2 = Some pbio" "half_ok a1 pbio pb pbuf" by (rule pair_okE)
  note d = half_okD [OF e(3)] half_okD [OF e(5)]
  have io: "io_method bio = methods_biop" "pair_of bio = Some b" "peer b = Some a2" "b_buf b = Some buf" "io_ptr bio = PairPtr b"
    "io_method pbio = methods_biop" "pair_of pbio = Some pb" "peer pb = Some a1" "b_buf pb = Some pbuf" "io_ptr pbio = PairPtr pb"
    using d by simp_all
  have refs: "io_references bio = 1" "io_next bio = None" "io_references pbio = 1" "io_next pbio = None"
    using assms(2) e by auto
  define pbio' where "pbio' = pbio\<lparr>io_init := False, io_ptr := PairPtr (pb\<lparr>peer := None, b_len := 0, b_offset := 0\<rparr>)\<rparr>"
  define h' where "h' = h(a1 := None, a2 \<mapsto> pbio')"
  have "BIO_free h (Some a1) = Some (1, h')"
    using e(1,2,4) io refs
    by (subst BIO_free.simps)
      (auto simp: BIO_pop_def bio_destroy_def bio_free_def bio_destroy_pair_def bind_simps on_bio_def put_ptr_def
        h'_def pbio'_def pair_of_def fun_eq_iff)
  moreover have al: "alone pbio'" "\<not> io_init pbio'" using io refs by (simp_all add: alone_def pbio'_def)
  moreover have "BIO_free h' (Some a2) = Some (1, h'(a2 := None))" using free_alone [OF _ al(1), of h' a2] by (simp add: h'_def)
  ultimately show ?thesis using e(1) by (intro exI [of _ h']) (auto simp: h'_def BIO_read_def BIO_write_def)
qed

theorem bio_pair_free_half_witness:
  "\<exists>h h'. pair_ok h 0 1 \<and> BIO_free h (Some 0) = Some (1, h') \<and> h' 0 = None \<and>
    BIO_read h' (Some 1) 5 = Some (- 2, [], h') \<and> BIO_free h' (Some 1) = Some (1, h'(1 := None))"
proof -
  define h where "h = nothing(0 \<mapsto> joined_half 4 1 (replicate 4 0), 1 \<mapsto> joined_half 4 0 (replicate 4 0))"
  have "pair_goes 0 1 nothing (empty_channel (half_size 4)) (empty_channel (half_size 4)) h"
    using joined_pair_ok [OF small_pair(1), of "replicate 4 0" "replicate 4 0" h] by (simp add: half_size_def h_def)
  then have ok: "pair_ok h 0 1" by (simp add: pair_goes_def)
  have refs: "\<forall>bio. h 0 = Some bio \<or> h 1 = Some bio \<longrightarrow> io_references bio = 1 \<and> io_next bio = None"
    by (auto simp: h_def joined_half_def new_half_def)
  show ?thesis using bio_pair_free_half [OF ok refs, of 5 zero_malloc "[]" 0] ok by blast
qed

section \<open>Reading objects from a pair\<close>

text \<open>The half \<open>a\<close> as a source: the bytes that its peer \<open>o'\<close> has written and \<open>a\<close> has not read.\<close>

definition pair_content :: "nat \<Rightarrow> bios \<Rightarrow> bytes" where
  "pair_content o' h = (case chan h o' of None \<Rightarrow> [] | Some y \<Rightarrow> ch_data y)"

lemma pair_ok_chans:
  assumes "pair_ok h a o'"
  obtains x y where "chan h a = Some x" "chan h o' = Some y" "pair_content o' h = ch_data y"
proof -
  from assms obtain bio b buf pbio pb pbuf where e: "h a = Some bio" "half_ok o' bio b buf"
    "h o' = Some pbio" "half_ok a pbio pb pbuf" by (rule pair_okE)
  then show ?thesis using that chan_half [OF e(2), of h a] chan_half [OF e(4), of h o'] by (simp add: pair_content_def)
qed

lemma pair_source_read:
  assumes "pair_ok h a o'" "0 < n" "chan h o' = Some y" "chan_read (nat n) y = ((ret, out), y')"
  shows "\<exists>h'. BIO_reader (Some a) h n = Some (ret, out, h') \<and> pair_ok h' a o' \<and> pair_content o' h' = ch_data y'"
proof -
  obtain x where x: "chan h a = Some x" using assms(1) by (rule pair_ok_chans)
  have "chan_act (Act_read (nat n)) x y = ((ret, out), x, y')" using assms(2,4) by (simp add: chan_act_def)
  from act_read [OF assms(1) x assms(3) this, of zero_malloc] obtain h' where
    "pair_act zero_malloc h a (Act_read (nat n)) = Some ((ret, out), h')" "pair_goes a o' h x y' h'" by blast
  then show ?thesis using assms(2)
    by (auto simp: pair_act_def BIO_reader_def pair_goes_def pair_content_def)
qed

interpretation pair_source: byte_source "BIO_reader (Some a)" "\<lambda>h. pair_ok h a o'" "pair_content o'" for a o'
proof
  fix h :: bios and n :: int
  assume a: "pair_ok h a o'" "0 < n" "n < 2 ^ 31" "pair_content o' h \<noteq> []"
  obtain x y where y: "chan h o' = Some y" "pair_content o' h = ch_data y" using a(1) by (rule pair_ok_chans)
  define k where "k = min (nat n) (length (ch_data y))"
  have k: "0 < k" "int k \<le> n" "k \<le> length (ch_data y)" using a(2,4) y(2) by (auto simp: k_def)
  have "chan_read (nat n) y = ((int k, take k (ch_data y)), y\<lparr>ch_data := drop k (ch_data y), ch_request := 0\<rparr>)"
    using a(4) y(2) by (simp add: chan_read_def Let_def flip: k_def)
  from pair_source_read [OF a(1,2) y(1) this] show "\<exists>k s'. BIO_reader (Some a) h n = Some (int k, take k (pair_content o' h), s') \<and>
      0 < k \<and> int k \<le> n \<and> k \<le> length (pair_content o' h) \<and> pair_ok s' a o' \<and> pair_content o' s' = drop k (pair_content o' h)"
    using k y(2) by auto
next
  fix h :: bios and n :: int
  assume a: "pair_ok h a o'" "0 < n" "n < 2 ^ 31" "pair_content o' h = []"
  obtain x y where y: "chan h o' = Some y" "pair_content o' h = ch_data y" using a(1) by (rule pair_ok_chans)
  obtain ret y' where r: "chan_read (nat n) y = ((ret, []), y')" "ret \<le> 0" "ch_data y' = []"
    using a(4) y(2) by (cases "ch_closed y") (auto simp: chan_read_def)
  from pair_source_read [OF a(1,2) y(1) r(1)] show "\<exists>e s'. BIO_reader (Some a) h n = Some (e, [], s') \<and> e \<le> 0 \<and> pair_ok s' a o' \<and> pair_content o' s' = []"
    using r(2,3) by auto
qed

text \<open>\<open>BIO_read_asn1\<close> on one half of a pair takes from the bytes on the way exactly the element that
  \<open>CBS_get_any_asn1_element\<close> finds at their front, however the ring buffer cuts the reads, and leaves the rest
  on the way.\<close>

theorem pair_read_asn1_agrees:
  assumes "pair_ok h a o'" "pair_content o' h = tag # c" "malloc_ok m" "malloc_total m" "short_tag tag" "tag AND 0xdf \<noteq> 0"
    "\<not> indefinite_start (tag # c)"
  shows "(\<exists>h'. BIO_read_asn1 m (BIO_reader (Some a)) h max_len = Some (Inr (out, n), h') \<and> pair_content o' h' = rest) \<longleftrightarrow>
    (\<exists>e. CBS_get_any_asn1_element (tag # c) = (Some e, rest) \<and> contents e = out \<and> n = length out \<and> n \<le> max_len \<and>
      n - header_len e \<le> INT_MAX)"
  using pair_source.read_asn1_agrees [of h a o' m tag c max_len out n rest] assms by simp

theorem pair_read_asn1_agrees_witness:
  "\<exists>h h'. pair_content 0 h = [4, 2, 7, 8, 9] \<and>
    BIO_read_asn1 zero_malloc (BIO_reader (Some 1)) h 100 = Some (Inr ([4, 2, 7, 8], 4), h') \<and> pair_content 0 h' = [9]"
proof -
  have "fresh_pair zero_malloc nothing 0 1 6 6" "pair_memory zero_malloc zero_malloc zero_malloc 6 6"
    by (simp_all add: fresh_pair_def pair_memory_def nothing_def OPENSSL_zalloc_def half_size_def)
  from new_pair_made [OF this] obtain h0 where h0: "pair_goes 0 1 nothing (empty_channel 6) (empty_channel 6) h0"
    by (auto simp: half_size_def)
  then have ok: "pair_ok h0 0 1" "chan h0 0 = Some (empty_channel 6)" "chan h0 1 = Some (empty_channel 6)"
    by (simp_all add: pair_goes_def)
  have "chan_act (Act_write [4, 2, 7, 8, 9]) (empty_channel 6) (empty_channel 6) =
      ((5, []), (empty_channel 6)\<lparr>ch_data := [4, 2, 7, 8, 9]\<rparr>, empty_channel 6)"
    by (simp add: chan_act_def chan_write_def empty_channel_def)
  from act_refines [OF ok this, of zero_malloc] obtain h where
    "pair_goes 0 1 h0 ((empty_channel 6)\<lparr>ch_data := [4, 2, 7, 8, 9]\<rparr>) (empty_channel 6) h" by blast
  then have h: "pair_ok h 1 0" "pair_content 0 h = [4, 2, 7, 8, 9]"
    using pair_ok_sym by (auto simp: pair_goes_def pair_content_def)
  have "\<exists>e. CBS_get_any_asn1_element [4, 2, 7, 8, 9] = (Some e, [9]) \<and> contents e = [4, 2, 7, 8]"
    using element_short [of 4 "[7, 8]" "[9]"] by (auto simp: short_object_def der_len_def short_tag_def)
  then show ?thesis
    using pair_read_asn1_agrees [OF h zero_malloc_ok, of 100 "[4, 2, 7, 8]" 4 "[9]"] h(2)
    by (auto simp: malloc_total_def zero_malloc_def short_tag_def indefinite_start_def INT_MAX_def)
qed

end
