(* ===== verification/BIO_Mem_Props.thy ===== *)
theory BIO_Mem_Props
  imports BIO_Source BIO_Pair_Props
begin

text \<open>
  Properties of memory BIOs: the bytes one holds, and reading, writing and resetting as operations on
  them. A memory BIO is a \<open>byte_source\<close>, so \<open>BIO_read_asn1\<close> on it finds what \<open>CBS_get_any_asn1_element\<close> finds
  in the bytes.
\<close>

section \<open>The bytes held\<close>

definition mem_ok :: "bio \<Rightarrow> buf_mem \<Rightarrow> bytes \<Rightarrow> bool" where
  "mem_ok bio b pre \<longleftrightarrow> io_method bio = mem_method \<and> io_init bio \<and> io_ptr bio = MemPtr b pre \<and>
     (case bm_data b of None \<Rightarrow> bm_length b = 0 \<and> pre = [] | Some d \<Rightarrow> bm_length b \<le> length d) \<and>
     (if rdonly bio then bm_max b = length pre + bm_length b
      else bm_wf b \<and> pre = [])"

lemma mem_okD:
  assumes "mem_ok bio b pre"
  shows "io_method bio = mem_method" "io_init bio" "mem_of bio = Some (b, pre)" "io_ptr bio = MemPtr b pre"
    "length (bm_contents b) = bm_length b"
    "bm_contents b \<noteq> [] \<Longrightarrow> \<exists>d. bm_data b = Some d \<and> bm_length b \<le> length d \<and> bm_contents b = take (bm_length b) d"
    "bm_contents b \<noteq> [] \<Longrightarrow> 0 < bm_length b"
  using assms by (auto simp: mem_ok_def mem_of_def bm_contents_def split: option.splits)

lemma clear_fields [simp]:
  "rdonly (BIO_clear_retry_flags bio) = rdonly bio" "mem_of (BIO_clear_retry_flags bio) = mem_of bio"
  "io_num (BIO_clear_retry_flags bio) = io_num bio" "io_method (BIO_clear_retry_flags bio) = io_method bio"
  "io_init (BIO_clear_retry_flags bio) = io_init bio" "io_ptr (BIO_clear_retry_flags bio) = io_ptr bio"
proof -
  have "(x AND NOT 15) AND 512 = x AND (512 :: u32)" for x by (simp add: and.assoc)
  then show "rdonly (BIO_clear_retry_flags bio) = rdonly bio"
    by (simp add: rdonly_def BIO_clear_retry_flags_def flag_defs BIO_FLAGS_MEM_RDONLY_def)
qed (simp_all add: BIO_clear_retry_flags_def mem_of_def)

lemma retry_read_fields [simp]:
  "rdonly (BIO_set_retry_read bio) = rdonly bio" "io_num (BIO_set_retry_read bio) = io_num bio"
  "io_method (BIO_set_retry_read bio) = io_method bio" "io_init (BIO_set_retry_read bio) = io_init bio"
  "io_ptr (BIO_set_retry_read bio) = io_ptr bio"
proof -
  have "(x OR 9) AND 512 = x AND (512 :: u32)" for x by (simp add: bit.conj_disj_distrib2)
  then show "rdonly (BIO_set_retry_read bio) = rdonly bio"
    by (simp add: rdonly_def BIO_set_retry_read_def flag_defs BIO_FLAGS_MEM_RDONLY_def)
qed (simp_all add: BIO_set_retry_read_def)

lemma rdonly_ptr [simp]: "rdonly (bio\<lparr>io_ptr := p\<rparr>) = rdonly bio" "rdonly (bio\<lparr>io_num_read := x\<rparr>) = rdonly bio"
  "rdonly (bio\<lparr>io_num_write := x\<rparr>) = rdonly bio" "rdonly (bio\<lparr>io_num := i\<rparr>) = rdonly bio"
  by (simp_all add: rdonly_def)

lemma mem_ok_same [simp]:
  "mem_ok (BIO_clear_retry_flags bio) b pre = mem_ok bio b pre" "mem_ok (BIO_set_retry_read bio) b pre = mem_ok bio b pre"
  "mem_ok (bio\<lparr>io_num_read := x\<rparr>) b pre = mem_ok bio b pre" "mem_ok (bio\<lparr>io_num_write := x\<rparr>) b pre = mem_ok bio b pre"
  by (simp_all add: mem_ok_def)

section \<open>Reading\<close>

lemma mem_read_some:
  assumes "mem_ok bio b pre" "bm_contents b \<noteq> []" "0 < n" "k = min (nat n) (bm_length b)"
  shows "\<exists>bio' b' pre'. mem_read bio n = Some (int k, take k (bm_contents b), bio') \<and> mem_ok bio' b' pre' \<and>
    bm_contents b' = drop k (bm_contents b) \<and> pre' = (if rdonly bio then pre @ take k (bm_contents b) else pre) \<and>
    bm_max b' = bm_max b \<and> rdonly bio' = rdonly bio \<and> io_num bio' = io_num bio \<and> \<not> retry bio'"
proof -
  obtain d where d: "bm_data b = Some d" "bm_length b \<le> length d" "bm_contents b = take (bm_length b) d"
    using mem_okD(6) [OF assms(1,2)] by blast
  have k: "0 < k" "k \<le> bm_length b" using assms(2-4) mem_okD(7) [OF assms(1)] by auto
  have ret: "(if nat n > bm_length b then int (bm_length b) else n) = int k" using assms(3,4) by auto
  define c where "c = bm_contents b"
  have c: "take k d = take k c" "take (bm_length b - k) (drop k d) = drop k c" using k d by (simp_all add: c_def drop_take)
  show ?thesis
  proof (cases "rdonly bio")
    case True
    define b' where "b' = b\<lparr>bm_length := bm_length b - k, bm_data := Some (drop k d)\<rparr>"
    define bio' where "bio' = (BIO_clear_retry_flags bio)\<lparr>io_ptr := MemPtr b' (pre @ take k c)\<rparr>"
    have "mem_read bio n = Some (int k, take k c, bio')"
      using True assms(3) mem_okD(3) [OF assms(1)] d k c
      by (simp add: mem_read_def ret bind_simps b'_def bio'_def)
    moreover have cont: "bm_contents b' = drop k c" using c(2) by (simp add: b'_def bm_contents_def)
    moreover have "mem_ok bio' b' (pre @ take k c)"
      using assms(1) True d k by (simp add: mem_ok_def bio'_def cont) (simp add: b'_def c_def)
    ultimately show ?thesis using True by (intro exI [of _ bio'] exI [of _ b']) (simp add: c_def bio'_def b'_def)
  next
    case False
    define moved where "moved = write_at 0 (take (bm_length b - k) (drop k d)) d"
    define b' where "b' = b\<lparr>bm_length := bm_length b - k, bm_data := Some moved\<rparr>"
    define bio' where "bio' = (BIO_clear_retry_flags bio)\<lparr>io_ptr := MemPtr b' pre\<rparr>"
    have "mem_read bio n = Some (int k, take k c, bio')"
      using False assms(3) mem_okD(3) [OF assms(1)] d k c
      by (simp add: mem_read_def ret bind_simps b'_def bio'_def moved_def)
    moreover have cont: "bm_contents b' = drop k c"
      using c(2) d k mem_okD(5) [OF assms(1), folded c_def] take_write_at [of 0 "take (bm_length b - k) (drop k d)" d]
      by (simp add: b'_def bm_contents_def moved_def)
    moreover have "length moved = length d" using d k by (simp add: moved_def)
    moreover have "mem_ok bio' b' pre"
      using assms(1) False d k \<open>length moved = length d\<close> by (auto simp: mem_ok_def bio'_def bm_wf_def b'_def)
    ultimately show ?thesis using False by (intro exI [of _ bio'] exI [of _ b']) (simp add: c_def bio'_def b'_def)
  qed
qed

lemma mem_read_empty:
  assumes "mem_ok bio b pre" "bm_contents b = []" "0 < n"
  shows "mem_read bio n = Some (io_num bio, [], if io_num bio \<noteq> 0 then BIO_set_retry_read (BIO_clear_retry_flags bio) else BIO_clear_retry_flags bio)"
  using assms mem_okD(3,5) [OF assms(1)] by (simp add: mem_read_def bind_simps)

text \<open>The memory BIO at address \<open>a\<close>, with a property of the value that reading returns when it is empty.\<close>

definition mem_inv :: "(int \<Rightarrow> bool) \<Rightarrow> nat \<Rightarrow> bios \<Rightarrow> bool" where
  "mem_inv P a h \<longleftrightarrow> (\<exists>bio b pre. h a = Some bio \<and> mem_ok bio b pre \<and> P (io_num bio))"

definition mem_content :: "nat \<Rightarrow> bios \<Rightarrow> bytes" where
  "mem_content a h =
    (case h a of None \<Rightarrow> [] | Some bio \<Rightarrow> (case mem_of bio of None \<Rightarrow> [] | Some (b, pre) \<Rightarrow> bm_contents b))"

lemma mem_content: "h a = Some bio \<Longrightarrow> mem_ok bio b pre \<Longrightarrow> mem_content a h = bm_contents b"
  by (simp add: mem_content_def mem_okD)

lemma mem_read_step:
  assumes "h a = Some bio" "mem_ok bio b pre" "0 < n" "mem_read bio n = Some (ret, out, bio')" "mem_ok bio' b' pre'"
  shows "\<exists>bio''. BIO_read h (Some a) n = Some (ret, out, h(a \<mapsto> bio'')) \<and> mem_ok bio'' b' pre' \<and>
    rdonly bio'' = rdonly bio' \<and> io_num bio'' = io_num bio' \<and> retry bio'' = retry bio'"
proof (cases "ret > 0")
  case True
  then show ?thesis using assms mem_okD(1,2) [OF assms(2)]
    by (intro exI [of _ "bio'\<lparr>io_num_read := io_num_read bio' + of_int ret\<rparr>"])
      (simp add: BIO_read_def bread_def count_read_def on_bio_def)
next
  case False
  then show ?thesis using assms mem_okD(1,2) [OF assms(2)]
    by (intro exI [of _ bio']) (simp add: BIO_read_def bread_def count_read_def)
qed

lemma mem_eof_read:
  assumes "h a = Some bio" "mem_ok bio b pre" "bm_contents b = []" "0 < n"
  shows "\<exists>bio'. BIO_read h (Some a) n = Some (io_num bio, [], h(a \<mapsto> bio')) \<and> mem_ok bio' b pre \<and> io_num bio' = io_num bio \<and>
    rdonly bio' = rdonly bio"
proof -
  define bio' where "bio' = (if io_num bio \<noteq> 0 then BIO_set_retry_read (BIO_clear_retry_flags bio) else BIO_clear_retry_flags bio)"
  have ok: "mem_ok bio' b pre" "io_num bio' = io_num bio" "rdonly bio' = rdonly bio" using assms(2) by (auto simp: bio'_def)
  have r: "mem_read bio n = Some (io_num bio, [], bio')"
    using mem_read_empty [OF assms(2-4)] unfolding bio'_def .
  show ?thesis using mem_read_step [of h a, OF assms(1,2,4) r ok(1)] ok by metis
qed

lemma mem_some_read:
  assumes "h a = Some bio" "mem_ok bio b pre" "bm_contents b \<noteq> []" "0 < n" "k = min (nat n) (bm_length b)"
  shows "\<exists>bio' b' pre'. BIO_read h (Some a) n = Some (int k, take k (bm_contents b), h(a \<mapsto> bio')) \<and> mem_ok bio' b' pre' \<and>
    bm_contents b' = drop k (bm_contents b) \<and> pre' = (if rdonly bio then pre @ take k (bm_contents b) else pre) \<and>
    bm_max b' = bm_max b \<and> rdonly bio' = rdonly bio \<and> io_num bio' = io_num bio \<and> \<not> retry bio'"
proof -
  obtain bio' b' pre' where r: "mem_read bio n = Some (int k, take k (bm_contents b), bio')" "mem_ok bio' b' pre'"
    "bm_contents b' = drop k (bm_contents b)" "pre' = (if rdonly bio then pre @ take k (bm_contents b) else pre)"
    "bm_max b' = bm_max b" "rdonly bio' = rdonly bio" "io_num bio' = io_num bio" "\<not> retry bio'"
    using mem_read_some [OF assms(2-5)] by blast
  show ?thesis using mem_read_step [of h a, OF assms(1,2,4) r(1,2)] r(3-8) by metis
qed

lemma mem_source_some:
  assumes "mem_inv P a h" "0 < n" "mem_content a h \<noteq> []"
  shows "\<exists>k h'. BIO_reader (Some a) h n = Some (int k, take k (mem_content a h), h') \<and>
    0 < k \<and> int k \<le> n \<and> k \<le> length (mem_content a h) \<and> mem_inv P a h' \<and> mem_content a h' = drop k (mem_content a h)"
proof -
  obtain bio b pre where m: "h a = Some bio" "mem_ok bio b pre" "P (io_num bio)" using assms(1) by (auto simp: mem_inv_def)
  have c: "mem_content a h = bm_contents b" using mem_content m(1,2) by blast
  define k where "k = min (nat n) (bm_length b)"
  obtain bio' b' pre' where r: "BIO_read h (Some a) n = Some (int k, take k (bm_contents b), h(a \<mapsto> bio'))" "mem_ok bio' b' pre'"
    "bm_contents b' = drop k (bm_contents b)" "io_num bio' = io_num bio"
    using mem_some_read [of h a, OF m(1,2) _ assms(2) k_def] assms(3) c by auto
  have "0 < k" "int k \<le> n" "k \<le> length (mem_content a h)"
    using assms(2,3) c mem_okD(5,7) [OF m(2)] by (auto simp: k_def)
  moreover have "mem_content a (h(a \<mapsto> bio')) = drop k (mem_content a h)"
    using r(2,3) c mem_content [of "h(a \<mapsto> bio')" a bio' b' pre'] by simp
  moreover have "mem_inv P a (h(a \<mapsto> bio'))" using r(2,4) m(3) by (auto simp: mem_inv_def)
  ultimately show ?thesis using r(1) c by (auto simp: BIO_reader_def)
qed

lemma mem_source_empty:
  assumes "mem_inv P a h" "0 < n" "mem_content a h = []"
  shows "\<exists>e h'. BIO_reader (Some a) h n = Some (e, [], h') \<and> P e \<and> mem_inv P a h' \<and> mem_content a h' = []"
proof -
  obtain bio b pre where m: "h a = Some bio" "mem_ok bio b pre" "P (io_num bio)" using assms(1) by (auto simp: mem_inv_def)
  have c: "bm_contents b = []" using mem_content [of h a, OF m(1,2)] assms(3) by simp
  obtain bio' where r: "BIO_read h (Some a) n = Some (io_num bio, [], h(a \<mapsto> bio'))" "mem_ok bio' b pre" "io_num bio' = io_num bio"
    using mem_eof_read [of h a, OF m(1,2) c assms(2)] by blast
  have "mem_content a (h(a \<mapsto> bio')) = []" using r(2) c mem_content [of "h(a \<mapsto> bio')" a bio' b pre] by simp
  moreover have "mem_inv P a (h(a \<mapsto> bio'))" using r(2,3) m(3) by (auto simp: mem_inv_def)
  ultimately show ?thesis using r(1) m(3) by (auto simp: BIO_reader_def)
qed

interpretation mem_source: byte_source "BIO_reader (Some a)" "mem_inv (\<lambda>e. e \<le> 0) a" "mem_content a" for a
  by unfold_locales ((rule mem_source_some; assumption), (rule mem_source_empty; assumption))

text \<open>Over a caller's buffer the end is an end of file.\<close>

lemma mem_source_eof:
  assumes "mem_inv (\<lambda>e. e = 0) a h" "0 < n" "mem_content a h = []"
  shows "\<exists>h'. BIO_reader (Some a) h n = Some (0, [], h') \<and> mem_inv (\<lambda>e. e = 0) a h' \<and> mem_content a h' = []"
  using mem_source_empty [OF assms] by simp

interpretation mem_eof_source: eof_source "BIO_reader (Some a)" "mem_inv (\<lambda>e. e = 0) a" "mem_content a" for a
proof
  fix h :: bios and n :: int
  assume a: "mem_inv (\<lambda>e. e = 0) a h" "0 < n" "mem_content a h = []"
  show "\<exists>e h'. BIO_reader (Some a) h n = Some (e, [], h') \<and> e \<le> 0 \<and> mem_inv (\<lambda>e. e = 0) a h' \<and> mem_content a h' = []"
    using mem_source_eof [OF a] by auto
qed ((rule mem_source_some; assumption), (rule mem_source_eof; assumption))

section \<open>Writing, and sequences of reads and writes\<close>

lemma mem_write_spec:
  assumes "mem_ok bio b pre" "inp \<noteq> []" "length inp < 2 ^ 64" "malloc_ok m"
  shows "\<exists>ret bio' b'. mem_write m bio inp = Some (ret, bio') \<and> mem_ok bio' b' pre \<and> rdonly bio' = rdonly bio \<and>
    bm_contents b' = bm_contents b @ take (nat ret) inp \<and> (rdonly bio \<longrightarrow> ret = - 1) \<and> (ret = - 1 \<or> ret = int (length inp))"
proof (cases "rdonly bio")
  case True
  then show ?thesis using assms by (intro exI [of _ "- 1"] exI [of _ "BIO_clear_retry_flags bio"] exI [of _ b]) (simp add: mem_write_def)
next
  case False
  obtain ok b' where r: "BUF_MEM_append m b inp = (ok, b')" by fastforce
  have wf: "bm_wf b" using assms(1) False by (simp add: mem_ok_def)
  note s = append_spec [OF assms(4) wf assms(3) r]
  define bio' where "bio' = (BIO_clear_retry_flags bio)\<lparr>io_ptr := MemPtr b' pre\<rparr>"
  have "mem_ok bio' b' pre"
    using assms(1) s False by (auto simp: mem_ok_def bio'_def bm_wf_def split: option.splits)
  moreover have "mem_write m bio inp = Some (if ok then int (length inp) else - 1, bio')"
    using False assms(2) mem_okD(3) [OF assms(1)] r by (simp add: mem_write_def bio'_def bind_simps split: bool.splits)
  ultimately show ?thesis using s False
    by (intro exI [of _ "if ok then int (length inp) else - 1"] exI [of _ bio'] exI [of _ b']) (auto simp: bio'_def)
qed

text \<open>The BIO at \<open>a\<close> holds \<open>c\<close>; \<open>ro\<close> says whether it is over a caller's buffer, \<open>whole\<close>.\<close>

definition mem_holds :: "nat \<Rightarrow> bool \<Rightarrow> bytes \<Rightarrow> bytes \<Rightarrow> bios \<Rightarrow> bool" where
  "mem_holds a ro whole c h \<longleftrightarrow>
    (\<exists>bio b pre. h a = Some bio \<and> mem_ok bio b pre \<and> rdonly bio = ro \<and> bm_contents b = c \<and> (ro \<longrightarrow> pre @ c = whole))"

lemma mem_holdsI:
  "h a = Some bio \<Longrightarrow> mem_ok bio b pre \<Longrightarrow> rdonly bio = ro \<Longrightarrow> bm_contents b = c \<Longrightarrow> (ro \<Longrightarrow> pre @ c = whole) \<Longrightarrow>
   mem_holds a ro whole c h"
  unfolding mem_holds_def by blast

lemma mem_holds_content: "mem_holds a ro whole c h \<Longrightarrow> mem_content a h = c"
  unfolding mem_holds_def using mem_content by metis

fun stream_act :: "pair_act \<Rightarrow> bool" where
  "stream_act (Act_read n) = True"
| "stream_act (Act_write inp) = (length inp < 2 ^ 31)"
| "stream_act _ = False"

fun_cases stream_actE: "stream_act act"

lemma mem_step:
  assumes "mem_holds a ro whole c h" "stream_act act" "malloc_ok m"
  shows "\<exists>ret out h' c'. pair_act m h a act = Some ((ret, out), h') \<and> mem_holds a ro whole c' h' \<and>
    c @ (case act of Act_write inp \<Rightarrow> take (nat ret) inp | _ \<Rightarrow> []) = out @ c' \<and>
    (ro \<longrightarrow> (case act of Act_write inp \<Rightarrow> take (nat ret) inp | _ \<Rightarrow> []) = [])"
proof -
  obtain bio b pre where m: "h a = Some bio" "mem_ok bio b pre" "rdonly bio = ro" "bm_contents b = c" "ro \<longrightarrow> pre @ c = whole"
    using assms(1) by (auto simp: mem_holds_def)
  have i: "io_init bio" "io_method bio = mem_method" using mem_okD(1,2) [OF m(2)] by simp_all
  consider (rd) n where "act = Act_read n" | (wr) inp where "act = Act_write inp" "length inp < 2 ^ 31"
    using assms(2) by (elim stream_actE) auto
  then show ?thesis
  proof cases
    case 1: (rd n)
    show ?thesis
    proof (cases "n = 0")
      case True
      then show ?thesis using 1 m(1) i assms(1) by (auto simp: pair_act_def BIO_read_def)
    next
      case n: False
      show ?thesis
      proof (cases "c = []")
        case True
        obtain bio' where "BIO_read h (Some a) (int n) = Some (io_num bio, [], h(a \<mapsto> bio'))" "mem_ok bio' b pre" "rdonly bio' = rdonly bio"
          using mem_eof_read [of h a, OF m(1,2), of "int n"] True m(4) n by auto
        then show ?thesis using 1 m(3-5) True
          by (intro exI [of _ "io_num bio"] exI [of _ "[]"] exI [of _ "h(a \<mapsto> bio')"] exI [of _ "[]"])
            (auto simp: pair_act_def mem_holds_def)
      next
        case False
        define k where "k = min (nat (int n)) (bm_length b)"
        obtain bio' b' pre' where r: "BIO_read h (Some a) (int n) = Some (int k, take k c, h(a \<mapsto> bio'))" "mem_ok bio' b' pre'"
          "bm_contents b' = drop k c" "pre' = (if ro then pre @ take k c else pre)" "rdonly bio' = ro"
          using mem_some_read [of h a, OF m(1,2) _ _ k_def] m(3,4) n False by auto
        then have "ro \<longrightarrow> pre' @ drop k c = whole" using m(5) by simp
        then have "mem_holds a ro whole (drop k c) (h(a \<mapsto> bio'))" using r(2,3,5) by (intro mem_holdsI [of _ _ bio' b' pre']) auto
        then show ?thesis using 1 r(1)
          by (intro exI [of _ "int k"] exI [of _ "take k c"] exI [of _ "h(a \<mapsto> bio')"] exI [of _ "drop k c"])
            (auto simp: pair_act_def)
      qed
    qed
  next
    case 2: (wr inp)
    show ?thesis
    proof (cases "inp = []")
      case True
      then show ?thesis using 2 m(1) i assms(1) by (auto simp: pair_act_def BIO_write_def)
    next
      case False
      obtain ret bio' b' where w: "mem_write m bio inp = Some (ret, bio')" "mem_ok bio' b' pre" "rdonly bio' = ro"
        "bm_contents b' = c @ take (nat ret) inp" "ro \<longrightarrow> ret = - 1"
        using mem_write_spec [OF m(2) False _ assms(3)] 2(2) m(3,4) by auto
      define bio'' where "bio'' = (if ret > 0 then bio'\<lparr>io_num_write := io_num_write bio' + of_int ret\<rparr> else bio')"
      have "BIO_write m h (Some a) inp (int (length inp)) = Some (ret, h(a \<mapsto> bio''))"
        using m(1) i w(1) False by (simp add: BIO_write_def bwrite_def bind_simps on_bio_def bio''_def)
      moreover have "mem_holds a ro whole (c @ take (nat ret) inp) (h(a \<mapsto> bio''))"
        using w m(5) by (intro mem_holdsI [of _ _ bio'' b' pre]) (auto simp: bio''_def)
      ultimately show ?thesis using 2 w(5) by (auto simp: pair_act_def)
    qed
  qed
qed

lemma mem_run:
  "mem_holds a ro whole c h \<Longrightarrow> \<forall>act \<in> set acts. stream_act act \<Longrightarrow> malloc_ok m \<Longrightarrow>
   \<exists>rs h' c'. pair_run m a a (map (Pair True) acts) h = Some (rs, h') \<and> mem_holds a ro whole c' h' \<and>
     c @ accepted True (map (Pair True) acts) rs = delivered True (map (Pair True) acts) rs @ c' \<and>
     (ro \<longrightarrow> accepted True (map (Pair True) acts) rs = [])"
proof (induction acts arbitrary: c h)
  case (Cons act acts)
  obtain ret out h1 c1 where s: "pair_act m h a act = Some ((ret, out), h1)" "mem_holds a ro whole c1 h1"
    "c @ (case act of Act_write inp \<Rightarrow> take (nat ret) inp | _ \<Rightarrow> []) = out @ c1"
    "ro \<longrightarrow> (case act of Act_write inp \<Rightarrow> take (nat ret) inp | _ \<Rightarrow> []) = []"
    using mem_step [OF Cons.prems(1) _ Cons.prems(3), of act] Cons.prems(2) by (metis list.set_intros(1))
  obtain rs h' c' where r: "pair_run m a a (map (Pair True) acts) h1 = Some (rs, h')" "mem_holds a ro whole c' h'"
    "c1 @ accepted True (map (Pair True) acts) rs = delivered True (map (Pair True) acts) rs @ c'"
    "ro \<longrightarrow> accepted True (map (Pair True) acts) rs = []"
    using Cons.IH [OF s(2) _ Cons.prems(3)] Cons.prems(2) by auto
  have acc: "accepted True (map (Pair True) (act # acts)) ((ret, out) # rs) =
      (case act of Act_write inp \<Rightarrow> take (nat ret) inp | _ \<Rightarrow> []) @ accepted True (map (Pair True) acts) rs"
    by (cases act) simp_all
  have "c @ accepted True (map (Pair True) (act # acts)) ((ret, out) # rs) =
      out @ c1 @ accepted True (map (Pair True) acts) rs"
    unfolding acc by (simp add: s(3) flip: append_assoc)
  then have "c @ accepted True (map (Pair True) (act # acts)) ((ret, out) # rs) =
      delivered True (map (Pair True) (act # acts)) ((ret, out) # rs) @ c'"
    using r(3) by simp
  moreover have "ro \<longrightarrow> accepted True (map (Pair True) (act # acts)) ((ret, out) # rs) = []"
    using acc s(4) r(4) by simp
  moreover have "pair_run m a a (map (Pair True) (act # acts)) h = Some ((ret, out) # rs, h')" using s(1) r(1) by simp
  ultimately show ?case using r(2) by blast
qed auto

section \<open>Lines\<close>

lemma memchr_None: "memchr xs c = None \<longleftrightarrow> c \<notin> set xs"
  by (induction xs) auto

lemma memchr_Some: "memchr xs c = Some i \<Longrightarrow> i < length xs \<and> xs ! i = c \<and> c \<notin> set (take i xs)"
  by (induction xs arbitrary: i) (auto split: if_splits simp: nth_Cons')

text \<open>The length of the line at the front, of at most \<open>lim\<close> bytes.\<close>

definition is_line :: "bytes \<Rightarrow> nat \<Rightarrow> nat \<Rightarrow> bool" where
  "is_line c lim k \<longleftrightarrow> k \<le> lim \<and> k \<le> length c \<and> 10 \<notin> set (take (k - 1) c) \<and>
     (k = lim \<or> k = length c \<or> k > 0 \<and> c ! (k - 1) = 10)"

lemma line_found:
  "is_line c lim (case memchr (take lim c) 10 of None \<Rightarrow> min lim (length c) | Some i \<Rightarrow> i + 1)"
proof (cases "memchr (take lim c) 10")
  case None
  moreover have "set (take (min lim (length c) - 1) c) \<subseteq> set (take lim c)" by (rule set_take_subset_set_take) simp
  ultimately have "10 \<notin> set (take (min lim (length c) - 1) c)" unfolding memchr_None by blast
  then show ?thesis using None by (auto simp: is_line_def)
next
  case (Some i)
  then show ?thesis using memchr_Some [OF Some] by (auto simp: is_line_def)
qed

lemma mem_gets_spec:
  assumes "h a = Some bio" "mem_ok bio b pre" "0 < n" "bm_contents b = c"
  shows "\<exists>k bio' b' pre'. BIO_gets h (Some a) n = Some (int k, take k c @ [0], h(a \<mapsto> bio')) \<and> is_line c (nat (n - 1)) k \<and>
    mem_ok bio' b' pre' \<and> bm_contents b' = drop k c"
proof -
  define bio0 where "bio0 = BIO_clear_retry_flags bio"
  have ok: "mem_ok bio0 b pre" using assms(2) by (simp add: bio0_def)
  have len: "length c = bm_length b" using mem_okD(5) [OF ok] assms(4) by simp
  define lim where "lim = nat (n - 1)"
  define ret where "ret = min lim (length c)"
  define data where "data = (case bm_data b of None \<Rightarrow> [] | Some d \<Rightarrow> d)"
  have data: "ret \<le> length data" "take ret data = take lim c"
    using ok assms(4) len by (auto simp: data_def ret_def mem_ok_def bm_contents_def min_def split: option.splits)
  define k where "k = (case memchr (take lim c) 10 of None \<Rightarrow> ret | Some i \<Rightarrow> i + 1)"
  have line: "is_line c lim k" unfolding k_def ret_def by (rule line_found)
  then have kl: "k \<le> length c" by (simp add: is_line_def)
  have r: "(if nat (n - 1) > bm_length b then int (bm_length b) else n - 1) = int ret"
    using assms(3) len by (auto simp: ret_def lim_def)
  have k: "(case memchr (take (nat (int ret)) data) 10 of None \<Rightarrow> int ret | Some i \<Rightarrow> int i + 1) = int k"
    using data by (auto simp: k_def split: option.splits)
  have "\<exists>bio' b' pre'. mem_read bio0 (int k) = Some (int k, take k c, bio') \<and> mem_ok bio' b' pre' \<and> bm_contents b' = drop k c"
  proof (cases "k = 0")
    case True
    then show ?thesis using ok assms(4)
      by (intro exI [of _ "BIO_clear_retry_flags bio0"] exI [of _ b] exI [of _ pre]) (simp add: mem_read_def)
  next
    case False
    then have "bm_contents b \<noteq> []" "0 < int k" "k = min (nat (int k)) (bm_length b)" using kl assms(4) len by auto
    from mem_read_some [OF ok this] show ?thesis using assms(4) by auto
  qed
  then obtain bio' b' pre' where m: "mem_read bio0 (int k) = Some (int k, take k c, bio')" "mem_ok bio' b' pre'" "bm_contents b' = drop k c"
    by blast
  have g: "mem_gets bio n = Some (int k, take k c @ [0], bio')"
    unfolding mem_gets_def Let_def bio0_def [symmetric] mem_okD(3) [OF ok] Option.bind.simps prod.case r data_def [symmetric] k
    using assms(3) data(1) m(1) by (simp add: assert_def)
  define bio'' where "bio'' = (if int k > 0 then bio'\<lparr>io_num_read := io_num_read bio' + of_int (int k)\<rparr> else bio')"
  have "BIO_gets h (Some a) n = Some (int k, take k c @ [0], h(a \<mapsto> bio''))"
    using assms(1,3) mem_okD(1,2) [OF assms(2)] g by (auto simp: BIO_gets_def count_read_def on_bio_def bio''_def)
  then show ?thesis using line m(2,3)
    by (intro exI [of _ k] exI [of _ bio''] exI [of _ b'] exI [of _ pre']) (auto simp: lim_def bio''_def)
qed

section \<open>New memory BIOs, and reset\<close>

definition new_mem_bio :: bio where
  "new_mem_bio = \<lparr>io_method = mem_method, io_init = True, io_shutdown = 1, io_flags = 0, io_retry_reason = 0,
     io_num = - 1, io_references = 1, io_ptr = MemPtr \<lparr>bm_length = 0, bm_data = None, bm_max = 0\<rparr> [],
     io_next = None, io_num_read = 0, io_num_write = 0\<rparr>"

lemma BIO_new_mem:
  "BIO_new m h mem_method a =
    (if OPENSSL_zalloc m 72 = None \<or> OPENSSL_zalloc m sizeof_BUF_MEM = None then (None, h) else (Some a, h(a \<mapsto> new_mem_bio)))"
  by (auto simp: BIO_new_def bio_create_def mem_new_def BUF_MEM_new_def new_mem_bio_def Let_def split: option.splits)

lemma new_mem_bio_ok: "mem_ok new_mem_bio \<lparr>bm_length = 0, bm_data = None, bm_max = 0\<rparr> []" "\<not> rdonly new_mem_bio"
  by (simp_all add: mem_ok_def new_mem_bio_def rdonly_def bm_wf_def)

lemma new_mem: "BIO_new m h mem_method a = (Some p, h0) \<Longrightarrow> p = a \<and> h0 = h(a \<mapsto> new_mem_bio)"
  by (auto simp: BIO_new_mem split: if_splits)

lemma new_mem_holds:
  "BIO_new m h mem_method a = (Some p, h0) \<Longrightarrow> mem_holds a False [] [] h0"
  using new_mem new_mem_bio_ok by (fastforce intro: mem_holdsI simp: bm_contents_def)

lemma new_mem_buf:
  assumes "BIO_new_mem_buf m h a (Some buf) (int (length buf)) = Some (Some p, h0)"
  shows "p = a \<and> mem_holds a True buf buf h0 \<and> mem_inv (\<lambda>e. e = 0) a h0"
proof -
  have ok: "mem_of new_mem_bio = Some (\<lparr>bm_length = 0, bm_data = None, bm_max = 0\<rparr>, [])"
    by (simp add: mem_of_def new_mem_bio_def)
  define b where "b = \<lparr>bm_length = length buf, bm_data = Some buf, bm_max = length buf\<rparr>"
  define bio' where "bio' = new_mem_bio\<lparr>io_ptr := MemPtr b [], io_flags := io_flags new_mem_bio OR BIO_FLAGS_MEM_RDONLY, io_num := 0\<rparr>"
  have h0: "h0 = h(a \<mapsto> bio')" "p = a"
    using assms ok by (auto simp: BIO_new_mem_buf_def BIO_new_mem bio'_def b_def bind_simps split: if_splits)
  have "bit ((x OR 512) AND 512 :: u32) 9" for x by (simp add: bit_simps bit_numeral_rec)
  then have "(x OR 512) AND 512 \<noteq> (0 :: u32)" for x by (metis bit_0_eq bot_apply bot_bool_def)
  then have ro: "rdonly bio'" by (simp add: rdonly_def bio'_def BIO_FLAGS_MEM_RDONLY_def)
  have ok: "mem_ok bio' b []"
    using ro by (simp add: mem_ok_def) (simp add: bio'_def b_def new_mem_bio_def)
  have "bm_contents b = buf" by (simp add: b_def bm_contents_def)
  then have "mem_holds a True buf buf h0" using ok ro h0(1) by (intro mem_holdsI [of _ _ bio' b "[]"]) simp_all
  moreover have "mem_inv (\<lambda>e. e = 0) a h0" using ok h0(1) by (auto simp: mem_inv_def bio'_def)
  ultimately show ?thesis using h0(2) by simp
qed

lemma mem_reset:
  assumes "mem_holds a True whole c h"
  shows "\<exists>h'. BIO_reset h (Some a) = Some (1, h') \<and> mem_holds a True whole whole h'"
proof -
  obtain bio b pre where m: "h a = Some bio" "mem_ok bio b pre" "rdonly bio" "bm_contents b = c" "pre @ c = whole"
    using assms by (auto simp: mem_holds_def)
  note d = mem_okD [OF m(2)]
  have mx: "bm_max b = length pre + bm_length b" using m(2,3) by (simp add: mem_ok_def)
  show ?thesis
  proof (cases "bm_data b")
    case None
    then have "c = []" "pre = []" using m(2,4) by (simp_all add: bm_contents_def mem_ok_def)
    moreover have "BIO_reset h (Some a) = Some (1, h(a \<mapsto> bio))"
      using None m(1) d(1,3) by (simp add: BIO_reset_def int_ctrl_def BIO_ctrl_def mem_ctrl_def bind_simps)
    ultimately show ?thesis using assms m(1,5) by (intro exI [of _ h]) (simp add: fun_upd_idem)
  next
    case (Some data)
    define b' where "b' = b\<lparr>bm_data := Some (pre @ data), bm_length := bm_max b\<rparr>"
    define bio' where "bio' = bio\<lparr>io_ptr := MemPtr b' []\<rparr>"
    have l: "bm_length b \<le> length data" "c = take (bm_length b) data"
      using m(2,4) Some by (auto simp: mem_ok_def bm_contents_def)
    have "BIO_reset h (Some a) = Some (1, h(a \<mapsto> bio'))"
      using m(1,3) d(1,3) Some mx
      by (simp add: BIO_reset_def int_ctrl_def BIO_ctrl_def mem_ctrl_def bind_simps b'_def bio'_def)
    moreover have "bm_contents b' = whole" using l mx m(5) by (simp add: b'_def bm_contents_def)
    moreover have "mem_ok bio' b' []" using d(1,2) m(3) l mx by (simp add: mem_ok_def bio'_def) (simp add: b'_def)
    ultimately show ?thesis using m(3)
      by (intro exI [of _ "h(a \<mapsto> bio')"] conjI mem_holdsI [of _ _ bio' b' "[]"]) (simp_all add: bio'_def)
  qed
qed

section \<open>Results\<close>

text \<open>C26. On a new memory BIO, whatever reads and writes follow and whichever allocations fail, the bytes
  read are the bytes accepted, in order, but for those still held.\<close>

theorem mem_bio_fifo:
  assumes "malloc_ok m" "BIO_new m0 h mem_method a = (Some p, h0)" "\<forall>act \<in> set acts. stream_act act"
  shows "\<exists>rs h'. pair_run m a a (map (Pair True) acts) h0 = Some (rs, h') \<and>
    accepted True (map (Pair True) acts) rs = delivered True (map (Pair True) acts) rs @ mem_content a h'"
  using mem_run [OF new_mem_holds [OF assms(2)] assms(3,1)] mem_holds_content by fastforce

theorem mem_bio_fifo_witness:
  "\<exists>h0 rs h'. BIO_new zero_malloc nothing mem_method 0 = (Some 0, h0) \<and>
    pair_run zero_malloc 0 0 (map (Pair True) [Act_write [1, 2, 3], Act_read 2]) h0 = Some (rs, h') \<and>
    accepted True (map (Pair True) [Act_write [1, 2, 3], Act_read 2]) rs =
      delivered True (map (Pair True) [Act_write [1, 2, 3], Act_read 2]) rs @ mem_content 0 h'"
proof -
  have "BIO_new zero_malloc nothing mem_method 0 = (Some 0, nothing(0 \<mapsto> new_mem_bio))"
    by (simp add: BIO_new_mem OPENSSL_zalloc_def sizeof_BUF_MEM_def)
  from mem_bio_fifo [OF zero_malloc_ok this, of "[Act_write [1, 2, 3], Act_read 2]"] this show ?thesis by simp
qed

text \<open>A BIO over a caller's buffer takes no writes; reads return the buffer from the front; and a reset
  after any reads makes the whole buffer readable again.\<close>

theorem mem_buf_reset:
  assumes "malloc_ok m" "BIO_new_mem_buf m0 h a (Some buf) (int (length buf)) = Some (Some p, h0)"
    "\<forall>act \<in> set acts. stream_act act"
  shows "\<exists>rs h1 h2. pair_run m a a (map (Pair True) acts) h0 = Some (rs, h1) \<and>
    accepted True (map (Pair True) acts) rs = [] \<and>
    buf = delivered True (map (Pair True) acts) rs @ mem_content a h1 \<and>
    BIO_reset h1 (Some a) = Some (1, h2) \<and> mem_content a h2 = buf"
proof -
  have "mem_holds a True buf buf h0" using new_mem_buf [OF assms(2)] by blast
  from mem_run [OF this assms(3,1)] obtain rs h1 c where r: "pair_run m a a (map (Pair True) acts) h0 = Some (rs, h1)"
    "mem_holds a True buf c h1" "accepted True (map (Pair True) acts) rs = []"
    "buf @ accepted True (map (Pair True) acts) rs = delivered True (map (Pair True) acts) rs @ c"
    by blast
  obtain h2 where "BIO_reset h1 (Some a) = Some (1, h2)" "mem_holds a True buf buf h2" using mem_reset [OF r(2)] by blast
  then show ?thesis using r mem_holds_content [OF r(2)] mem_holds_content by auto
qed

lemma buf_example:
  "BIO_new_mem_buf zero_malloc nothing 0 (Some buf) (int (length buf)) =
    Some (Some 0, nothing(0 \<mapsto> new_mem_bio\<lparr>io_ptr := MemPtr \<lparr>bm_length = length buf, bm_data = Some buf, bm_max = length buf\<rparr> [],
      io_flags := io_flags new_mem_bio OR BIO_FLAGS_MEM_RDONLY, io_num := 0\<rparr>))"
  by (simp add: BIO_new_mem_buf_def BIO_new_mem OPENSSL_zalloc_def sizeof_BUF_MEM_def bind_simps)
    (simp add: mem_of_def new_mem_bio_def)

theorem mem_buf_reset_witness:
  "\<exists>h0 rs h1 h2. BIO_new_mem_buf zero_malloc nothing 0 (Some [1, 2, 3]) 3 = Some (Some 0, h0) \<and>
    pair_run zero_malloc 0 0 (map (Pair True) [Act_read 2, Act_write [4]]) h0 = Some (rs, h1) \<and>
    BIO_reset h1 (Some 0) = Some (1, h2) \<and> mem_content 0 h2 = [1, 2, 3]"
  using mem_buf_reset [OF zero_malloc_ok buf_example, of "[Act_read 2, Act_write [4]]" "[1, 2, 3]"] buf_example [of "[1, 2, 3]"] by auto

text \<open>\<open>BIO_gets\<close> on a memory BIO returns the line at the front with its newline, or as many bytes as fit,
  and a NUL, and removes what it returns.\<close>

theorem mem_gets_line:
  assumes "mem_holds a ro whole c h" "0 < n"
  shows "\<exists>k h'. BIO_gets h (Some a) n = Some (int k, take k c @ [0], h') \<and> is_line c (nat (n - 1)) k \<and>
    mem_content a h' = drop k c"
proof -
  obtain bio b pre where "h a = Some bio" "mem_ok bio b pre" "bm_contents b = c" using assms(1) by (auto simp: mem_holds_def)
  from mem_gets_spec [of h a, OF this(1,2) assms(2) this(3)] obtain k bio' b' pre' where
    "BIO_gets h (Some a) n = Some (int k, take k c @ [0], h(a \<mapsto> bio'))" "is_line c (nat (n - 1)) k"
    "mem_ok bio' b' pre'" "bm_contents b' = drop k c" by blast
  then show ?thesis using mem_content [of "h(a \<mapsto> bio')" a bio' b' pre'] by auto
qed

theorem mem_gets_line_witness:
  "\<exists>h k h'. mem_holds 0 True [97, 10, 98] [97, 10, 98] h \<and> BIO_gets h (Some 0) 80 = Some (int k, take k [97, 10, 98] @ [0], h') \<and>
    is_line [97, 10, 98] 79 k \<and> mem_content 0 h' = drop k [97, 10, 98]"
proof -
  obtain h where "BIO_new_mem_buf zero_malloc nothing 0 (Some [97, 10, 98]) (int (length [97, 10, 98 :: u8])) = Some (Some 0, h)"
    using buf_example by blast
  then have h: "mem_holds 0 True [97, 10, 98] [97, 10, 98] h" using new_mem_buf by blast
  show ?thesis using mem_gets_line [OF h, of 80] h by auto
qed

text \<open>C11. What \<open>BIO_read_asn1\<close> reads from a BIO over a buffer that does not start with an element of
  indefinite length, when memory can be allocated: for a tag of one byte exactly the element that
  \<open>CBS_get_any_asn1_element\<close> finds at the front, if it is within \<open>max_len\<close> and its body within \<open>INT_MAX\<close>.
  The two differ on tags: one of more bytes is refused, and the universal tag 0, which \<open>CBS\<close> refuses, is
  taken like the others.\<close>

theorem mem_read_asn1_agrees:
  assumes "BIO_new_mem_buf m0 h a (Some buf) (int (length buf)) = Some (Some p, h0)"
    "malloc_ok m" "malloc_total m" "\<not> indefinite_start buf"
  shows "(\<exists>h'. BIO_read_asn1 m (BIO_reader (Some a)) h0 max_len = Some (Inr (out, n), h') \<and> mem_content a h' = rest) \<longleftrightarrow>
    n = length out \<and> n \<le> max_len \<and>
    (if buf = [] \<or> hd buf AND 0x1f = 0x1f then False
     else if hd buf AND 0xdf = 0
     then \<exists>body. out = hd buf # der_len (length body) @ body \<and> buf = out @ rest \<and> length body \<le> INT_MAX
     else \<exists>e. CBS_get_any_asn1_element buf = (Some e, rest) \<and> contents e = out \<and> n - header_len e \<le> INT_MAX)"
    (is "?L \<longleftrightarrow> ?R")
proof -
  have mem: "mem_inv (\<lambda>e. e = 0) a h0" "mem_content a h0 = buf"
    using new_mem_buf [OF assms(1)] mem_holds_content by blast+
  note iff = mem_eof_source.read_asn1_iff [of a h0 m max_len out n rest, unfolded mem(2), OF mem(1) assms(2-4)]
  show ?thesis
  proof (cases buf)
    case Nil
    then show ?thesis unfolding iff by (auto simp: short_object_def)
  next
    case (Cons t c)
    note agrees = mem_eof_source.read_asn1_agrees [of a h0 m t c max_len out n rest, unfolded mem(2), OF mem(1) assms(2,3) Cons _ _ assms(4)]
    consider (long) "\<not> short_tag t" | (zero) "short_tag t" "t AND 0xdf = 0" | (other) "short_tag t" "t AND 0xdf \<noteq> 0" by blast
    then show ?thesis
    proof cases
      case long
      then show ?thesis unfolding iff by (auto simp: Cons short_object_def short_tag_def)
    next
      case zero
      then show ?thesis unfolding iff by (auto simp: Cons short_object_def short_tag_def)
    next
      case other
      then show ?thesis using agrees by (auto simp: Cons short_tag_def)
    qed
  qed
qed

theorem mem_read_asn1_agrees_witness:
  "\<exists>h0 h'. BIO_new_mem_buf zero_malloc nothing 0 (Some [4, 2, 7, 8, 9]) 5 = Some (Some 0, h0) \<and>
    BIO_read_asn1 zero_malloc (BIO_reader (Some 0)) h0 100 = Some (Inr ([4, 2, 7, 8], 4), h') \<and> mem_content 0 h' = [9]"
proof -
  obtain h0 where h0: "BIO_new_mem_buf zero_malloc nothing 0 (Some [4, 2, 7, 8, 9]) (int (length [4, 2, 7, 8, 9 :: u8])) = Some (Some 0, h0)"
    using buf_example by blast
  have "\<exists>e. CBS_get_any_asn1_element [4, 2, 7, 8, 9] = (Some e, [9]) \<and> contents e = [4, 2, 7, 8]"
    using element_short [of 4 "[7, 8]" "[9]"] by (auto simp: short_object_def der_len_def short_tag_def)
  then show ?thesis
    using mem_read_asn1_agrees [OF h0 zero_malloc_ok, of 100 "[4, 2, 7, 8]" 4 "[9]"] h0
    by (auto simp: malloc_total_def zero_malloc_def indefinite_start_def short_tag_def INT_MAX_def)
qed

text \<open>From a buffer that starts with a constructed element of indefinite length, \<open>BIO_read_asn1\<close> reads
  everything when it is shorter than \<open>max_len\<close>, and otherwise fails; its loop ends in both cases.\<close>

theorem mem_read_asn1_indefinite:
  assumes "BIO_new_mem_buf m0 h a (Some buf) (int (length buf)) = Some (Some p, h0)"
    "malloc_ok m" "malloc_total m" "max_len \<le> 2 ^ 62" "indefinite_start buf"
  shows "if length buf < max_len
    then \<exists>out h'. BIO_read_asn1 m (BIO_reader (Some a)) h0 max_len = Some (Inr (out, length buf), h') \<and> take (length buf) out = buf
    else \<exists>h'. BIO_read_asn1 m (BIO_reader (Some a)) h0 max_len = Some (Inl ASN1_R_NOT_ENOUGH_DATA, h')"
proof -
  have "mem_inv (\<lambda>e. e = 0) a h0" "mem_content a h0 = buf"
    using new_mem_buf [OF assms(1)] mem_holds_content by blast+
  then show ?thesis
    using mem_eof_source.read_asn1_indefinite [of a h0 m max_len, unfolded \<open>mem_content a h0 = buf\<close>] assms(2-5) by blast
qed

theorem mem_read_asn1_indefinite_witness:
  "\<exists>h0 out h'. BIO_new_mem_buf zero_malloc nothing 0 (Some [0x30, 0x80, 0, 0]) 4 = Some (Some 0, h0) \<and>
    BIO_read_asn1 zero_malloc (BIO_reader (Some 0)) h0 100 = Some (Inr (out, 4), h') \<and> take 4 out = [0x30, 0x80, 0, 0]"
proof -
  obtain h0 where h0: "BIO_new_mem_buf zero_malloc nothing 0 (Some [0x30, 0x80, 0, 0]) (int (length [0x30, 0x80, 0, 0 :: u8])) = Some (Some 0, h0)"
    using buf_example by blast
  have len: "length [0x30, 0x80, 0, 0 :: u8] = 4" by simp
  have "malloc_total zero_malloc" "indefinite_start [0x30, 0x80, 0, 0]"
    by (simp_all add: malloc_total_def zero_malloc_def short_tag_def indefinite_start_def)
  from mem_read_asn1_indefinite [OF h0 zero_malloc_ok this(1) _ this(2), of 100, unfolded len] h0 [unfolded len]
  show ?thesis by auto
qed

section \<open>The loop that does not end\<close>

text \<open>The state of the loop of \<open>bio_read_all\<close> after \<open>k\<close> iterations, or \<open>None\<close> when it has returned before.\<close>

fun read_all_after :: "malloc \<Rightarrow> 's bio_reader \<Rightarrow> nat \<Rightarrow> nat \<Rightarrow> 's read_all_state \<Rightarrow> 's read_all_state option" where
  "read_all_after m rd max_len 0 st = Some st"
| "read_all_after m rd max_len (Suc k) st =
    (case read_all_after m rd max_len k st of
       None \<Rightarrow> None
     | Some st \<Rightarrow> (case bio_read_all_step m rd max_len st of Some (Inl st) \<Rightarrow> Some st | _ \<Rightarrow> None))"

text \<open>An empty memory BIO that returns \<open>v\<close>.\<close>

definition mem_returns :: "nat \<Rightarrow> int \<Rightarrow> bios \<Rightarrow> bool" where
  "mem_returns a v h \<longleftrightarrow> (\<exists>bio b pre. h a = Some bio \<and> mem_ok bio b pre \<and> bm_contents b = [] \<and> io_num bio = v)"

lemma mem_returns_read:
  assumes "mem_returns a v h" "0 < n"
  shows "\<exists>h'. BIO_reader (Some a) h n = Some (v, [], h') \<and> mem_returns a v h'"
proof -
  obtain bio b pre where m: "h a = Some bio" "mem_ok bio b pre" "bm_contents b = []" "io_num bio = v"
    using assms(1) by (auto simp: mem_returns_def)
  show ?thesis using mem_eof_read [of h a, OF m(1-3) assms(2)] m(3,4) by (fastforce simp: BIO_reader_def mem_returns_def)
qed

definition drift :: "int \<Rightarrow> nat \<Rightarrow> nat" where
  "drift v k = nat ((2 + int k * v) mod 2 ^ 64)"

lemma drift_0: "drift v 0 = 2"
  by (simp add: drift_def)

lemma drift_Suc: "nat ((int (drift v k) + v) mod 2 ^ 64) = drift v (Suc k)"
proof -
  have "(2 + int (Suc k) * v) = (2 + int k * v) + v" by (simp add: algebra_simps)
  then show ?thesis unfolding drift_def by (simp add: mod_add_left_eq add.assoc)
qed

text \<open>As long as it has moved back by less than \<open>2 ^ 63\<close>, the position is not near the end of the buffer.\<close>

lemma drift_far:
  assumes "v \<le> - 2" "int k * (- v) < 2 ^ 63"
  shows "drift v k \<noteq> 4098" "\<not> size_sub 4098 (drift v k) < 2048" "0 < size_sub 4098 (drift v k)"
proof -
  define d where "d = int k * (- v)"
  have d: "0 \<le> d" "d < 2 ^ 63" using assms by (auto simp only: d_def intro!: mult_nonneg_nonneg)
  have "int (drift v k) = (2 - d) mod 2 ^ 64" by (simp add: drift_def d_def)
  then have "(4098 - int (drift v k)) mod 2 ^ 64 = (4098 - (2 - d)) mod 2 ^ 64" by (simp add: mod_diff_right_eq)
  also have "\<dots> = 4096 + d" using d by simp
  finally have s: "(4098 - int (drift v k)) mod 2 ^ 64 = 4096 + d" .
  then show "\<not> size_sub 4098 (drift v k) < 2048" "0 < size_sub 4098 (drift v k)" using d(1) by (simp_all add: size_sub_def)
  show "drift v k \<noteq> 4098" using s d(1) by auto
qed

lemma write_nothing [simp]: "write_at n [] out = out"
  by (simp add: write_at_def)

lemma runaway_step:
  assumes "mem_returns a v h" "v \<le> - 2" "int (Suc k) * (- v) < 2 ^ 63"
  shows "\<exists>h'. bio_read_all_step m (BIO_reader (Some a)) max_len (h, out, drift v k, 4098) =
      Some (Inl (h', out, drift v (Suc k), 4098)) \<and> mem_returns a v h'"
proof -
  have k: "int k * (- v) < 2 ^ 63" using assms(2,3) by (simp add: algebra_simps)
  note f = drift_far [OF assms(2) k] drift_far [OF assms(2,3)]
  define todo where "todo = (if size_sub 4098 (drift v k) > INT_MAX then INT_MAX else size_sub 4098 (drift v k))"
  have "0 < int todo" using f(3) by (simp add: todo_def INT_MAX_def)
  then obtain h' where h': "BIO_reader (Some a) h (int todo) = Some (v, [], h')" "mem_returns a v h'"
    using mem_returns_read [OF assms(1)] by blast
  have "v \<noteq> 0" "v \<noteq> - 1" using assms(2) by auto
  then have "bio_read_all_step m (BIO_reader (Some a)) max_len (h, out, drift v k, 4098) =
      Some (Inl (h', out, drift v (Suc k), 4098))"
    using f(1,5) h'(1)
    by (simp add: bio_read_all_step_def Let_def assert_def drift_Suc [simplified] kChunkSize_def size_add_small flip: todo_def)
  then show ?thesis using h'(2) by blast
qed

lemma runaway_after:
  assumes "v \<le> - 2"
  shows "mem_returns a v h \<Longrightarrow> int k * (- v) < 2 ^ 63 \<Longrightarrow>
    \<exists>h'. read_all_after m (BIO_reader (Some a)) max_len k (h, out, 2, 4098) = Some (h', out, drift v k, 4098) \<and> mem_returns a v h'"
proof (induction k)
  case 0
  then show ?case by (auto simp: drift_0)
next
  case (Suc k)
  have "int k * (- v) < 2 ^ 63" using Suc.prems(2) assms by (simp add: algebra_simps)
  then obtain h1 where h1: "read_all_after m (BIO_reader (Some a)) max_len k (h, out, 2, 4098) = Some (h1, out, drift v k, 4098)"
    "mem_returns a v h1"
    using Suc.IH [OF Suc.prems(1)] by blast
  from runaway_step [OF h1(2) assms Suc.prems(2), of m max_len out] h1(1) show ?case
    by auto
qed

text \<open>C39. \<open>bio_read_all\<close> takes only -1 for an error. On a memory BIO for which \<open>BIO_set_mem_eof_return\<close> has set
  a value below -1, it adds that value to the number of bytes read and goes on: after any number \<open>k\<close> of
  iterations with \<open>k * (- v) < 2 ^ 63\<close>, the loop is still running, at a position that has wrapped around.\<close>

theorem bio_read_all_runaway:
  assumes "mem_returns a v h" "v \<le> - 2" "int k * (- v) < 2 ^ 63" "malloc_total m" "4098 \<le> max_len"
  shows "\<exists>out h'. bio_read_all m (BIO_reader (Some a)) h [0x30, 0x80] max_len =
      bio_read_all_loop m (BIO_reader (Some a)) max_len (h, out, 2, 4098) \<and>
    read_all_after m (BIO_reader (Some a)) max_len k (h, out, 2, 4098) = Some (h', out, nat ((2 + int k * v) mod 2 ^ 64), 4098)"
proof -
  obtain y where "m 4106 = Some y" using assms(4) unfolding malloc_total_def by fastforce
  then obtain blk where "OPENSSL_malloc m 4098 = Some blk"
    by (simp add: OPENSSL_malloc_def OPENSSL_MALLOC_PREFIX_def size_add_small)
  then have "bio_read_all m (BIO_reader (Some a)) h [0x30, 0x80] max_len =
      bio_read_all_loop m (BIO_reader (Some a)) max_len (h, write_at 0 [0x30, 0x80] blk, 2, 4098)"
    using assms(5) by (simp add: bio_read_all_def kChunkSize_def size_add_small flip: numeral_2_eq_2)
  then show ?thesis using runaway_after [OF assms(2,1,3), of m max_len "write_at 0 [0x30, 0x80] blk"]
    unfolding drift_def by blast
qed

theorem bio_read_all_runaway_witness:
  "\<exists>h out h'. mem_returns 0 (- 2) h \<and>
    read_all_after zero_malloc (BIO_reader (Some 0)) 5000 (2 ^ 61) (h, out, 2, 4098) =
      Some (h', out, nat ((2 + int (2 ^ 61) * - 2) mod 2 ^ 64), 4098)"
proof -
  define h where "h = nothing(0 \<mapsto> new_mem_bio\<lparr>io_num := - 2\<rparr>)"
  have "mem_ok (new_mem_bio\<lparr>io_num := - 2\<rparr>) \<lparr>bm_length = 0, bm_data = None, bm_max = 0\<rparr> []"
    using new_mem_bio_ok(1) by (simp add: mem_ok_def)
  then have "mem_returns 0 (- 2) h" by (auto simp: mem_returns_def h_def bm_contents_def)
  moreover have "malloc_total zero_malloc" by (simp add: malloc_total_def zero_malloc_def)
  ultimately show ?thesis using bio_read_all_runaway [of 0 "- 2" h "2 ^ 61" zero_malloc 5000] by auto
qed

end
