(* ===== verification/BER.thy ===== *)
theory BER
  imports CBB_DER "HOL-Library.Monad_Syntax"
begin

text \<open>
  \<open>bytestring/ber.c\<close>: looking for BER encodings that are not DER, and converting them. A forest of
  \<open>ber\<close> trees is what the bytes say; \<open>ber_out\<close> is the DER they convert to.
\<close>

section \<open>The code\<close>

definition CBS_ASN1_UTF8STRING :: tag where "CBS_ASN1_UTF8STRING = 0xc"
definition CBS_ASN1_NUMERICSTRING :: tag where "CBS_ASN1_NUMERICSTRING = 0x12"
definition CBS_ASN1_PRINTABLESTRING :: tag where "CBS_ASN1_PRINTABLESTRING = 0x13"
definition CBS_ASN1_T61STRING :: tag where "CBS_ASN1_T61STRING = 0x14"
definition CBS_ASN1_VIDEOTEXSTRING :: tag where "CBS_ASN1_VIDEOTEXSTRING = 0x15"
definition CBS_ASN1_IA5STRING :: tag where "CBS_ASN1_IA5STRING = 0x16"
definition CBS_ASN1_GRAPHICSTRING :: tag where "CBS_ASN1_GRAPHICSTRING = 0x19"
definition CBS_ASN1_VISIBLESTRING :: tag where "CBS_ASN1_VISIBLESTRING = 0x1a"
definition CBS_ASN1_GENERALSTRING :: tag where "CBS_ASN1_GENERALSTRING = 0x1b"
definition CBS_ASN1_UNIVERSALSTRING :: tag where "CBS_ASN1_UNIVERSALSTRING = 0x1c"
definition CBS_ASN1_BMPSTRING :: tag where "CBS_ASN1_BMPSTRING = 0x1e"

lemmas string_tags = CBS_ASN1_OCTETSTRING_def CBS_ASN1_UTF8STRING_def CBS_ASN1_NUMERICSTRING_def
  CBS_ASN1_PRINTABLESTRING_def CBS_ASN1_T61STRING_def CBS_ASN1_VIDEOTEXSTRING_def CBS_ASN1_IA5STRING_def
  CBS_ASN1_GRAPHICSTRING_def CBS_ASN1_VISIBLESTRING_def CBS_ASN1_GENERALSTRING_def
  CBS_ASN1_UNIVERSALSTRING_def CBS_ASN1_BMPSTRING_def

definition kMaxDepth :: nat where "kMaxDepth = 128"

definition is_string_type :: "tag \<Rightarrow> bool" where
  "is_string_type tag \<longleftrightarrow> tag AND NOT CBS_ASN1_CONSTRUCTED \<in>
     {CBS_ASN1_OCTETSTRING, CBS_ASN1_UTF8STRING, CBS_ASN1_NUMERICSTRING, CBS_ASN1_PRINTABLESTRING,
      CBS_ASN1_T61STRING, CBS_ASN1_VIDEOTEXSTRING, CBS_ASN1_IA5STRING, CBS_ASN1_GRAPHICSTRING,
      CBS_ASN1_VISIBLESTRING, CBS_ASN1_GENERALSTRING, CBS_ASN1_UNIVERSALSTRING, CBS_ASN1_BMPSTRING}"

lemma element_shorter:
  assumes "cbs_get_any_asn1_element c ber = (Some e, c')"
  shows "c = contents e @ c'" "0 < header_len e" "header_len e \<le> length (contents e)"
  using get_element_sound [OF assms] by (auto simp: element_at_def)

lemma element_rest_shorter:
  "(Some e, c') = cbs_get_any_asn1_element c ber \<Longrightarrow> length c' < length c"
  using element_shorter [of c ber e c'] by (metis append_Nil length_append length_greater_0_conv less_add_same_cancel2 less_le_trans)

lemma body_shorter:
  assumes "(Some e, c') = cbs_get_any_asn1_element c ber" "(True, body) = CBS_skip (contents e) (header_len e)"
  shows "length body < length c"
proof -
  have "length body < length (contents e)"
    using element_shorter(2,3) [OF assms(1) [symmetric]] assms(2) CBS_skip_iff [of "contents e" "header_len e" body] by simp
  then show ?thesis using arg_cong [where f = length, OF element_shorter(1) [OF assms(1) [symmetric]]] by simp
qed

text \<open>
  One call is one round of the loop of \<open>cbs_find_ber\<close>, with the test of the depth, which is the same in
  every round. \<open>None\<close> is the return value 0, otherwise the result is \<open>*ber_found\<close>.
\<close>

function cbs_find_ber :: "cbs \<Rightarrow> nat \<Rightarrow> bool option" where
  "cbs_find_ber inp depth =
    (if depth > kMaxDepth then None
     else if inp = [] then Some False
     else case CBS_get_any_ber_asn1_element inp of
            (None, _) \<Rightarrow> None
          | (Some e, inp) \<Rightarrow>
              if ber_found e then Some True
              else if elt_tag e AND CBS_ASN1_CONSTRUCTED \<noteq> 0 then
                (if is_string_type (elt_tag e) then Some True
                 else case CBS_skip (contents e) (header_len e) of
                        (False, _) \<Rightarrow> None
                      | (True, body) \<Rightarrow>
                          (case cbs_find_ber body (depth + 1) of
                             None \<Rightarrow> None
                           | Some True \<Rightarrow> Some True
                           | Some False \<Rightarrow> cbs_find_ber inp depth))
              else cbs_find_ber inp depth)"
  by pat_completeness auto

termination
  by (relation "measure (\<lambda>(inp, depth). length inp)")
    (auto simp: CBS_get_any_ber_asn1_element_def intro: element_rest_shorter body_shorter)

declare cbs_find_ber.simps [simp del]

definition cbs_get_eoc :: "cbs \<Rightarrow> bool \<times> cbs" where
  "cbs_get_eoc cbs =
    (if length cbs \<ge> 2 \<and> cbs ! 0 = 0 \<and> cbs ! 1 = 0 then CBS_skip cbs 2 else (False, cbs))"

text \<open>
  One call is one round of the loop of \<open>cbs_convert_ber\<close>, again with the tests that do not change. The
  result is the return value, the rest of the input and the builder; \<open>d\<close> is the handle \<open>out\<close>.
\<close>

partial_function (option) cbs_convert_ber ::
    "malloc \<Rightarrow> cbs \<Rightarrow> nat \<Rightarrow> tag \<Rightarrow> bool \<Rightarrow> nat \<Rightarrow> cbb \<Rightarrow> (bool \<times> cbs \<times> cbb) option" where
  "cbs_convert_ber m inp d string_tag looking_for_eoc depth c =
    (if string_tag AND CBS_ASN1_CONSTRUCTED \<noteq> 0 then None
     else if depth > kMaxDepth then Some (False, inp, c)
     else if inp = [] then Some (\<not> looking_for_eoc, inp, c)
     else case (if looking_for_eoc then cbs_get_eoc inp else (False, inp)) of (eoc, inp) \<Rightarrow>
     if eoc then Some (True, inp, c)
     else case CBS_get_any_ber_asn1_element inp of
       (None, inp) \<Rightarrow> Some (False, inp, c)
     | (Some e, inp) \<Rightarrow>
        if string_tag \<noteq> 0 \<and> elt_tag e AND NOT CBS_ASN1_CONSTRUCTED \<noteq> string_tag then Some (False, inp, c)
        else
          let to_primitive = string_tag = 0 \<and> elt_tag e AND CBS_ASN1_CONSTRUCTED \<noteq> 0 \<and> is_string_type (elt_tag e);
              out_tag = (if to_primitive then elt_tag e AND NOT CBS_ASN1_CONSTRUCTED else elt_tag e);
              child_string_tag = (if to_primitive then out_tag else string_tag);
              out_contents = (if string_tag \<noteq> 0 then d else d + 1)
          in case (if string_tag \<noteq> 0 then (True, c) else CBB_add_asn1 m out_tag d c) of (ok, c) \<Rightarrow>
             if \<not> ok then Some (False, inp, c)
             else if indefinite e then do {
               (ok, inp, c) \<leftarrow> cbs_convert_ber m inp out_contents child_string_tag True (depth + 1) c;
               if \<not> ok then Some (False, inp, c)
               else case CBB_flush m c d of (ok, c) \<Rightarrow>
                 if \<not> ok then Some (False, inp, c)
                 else cbs_convert_ber m inp d string_tag looking_for_eoc depth c }
             else case CBS_skip (contents e) (header_len e) of (ok, body) \<Rightarrow>
               if \<not> ok then Some (False, inp, c)
               else do {
                 (ok, c) \<leftarrow>
                   (if elt_tag e AND CBS_ASN1_CONSTRUCTED \<noteq> 0
                    then do {
                      (ok, _, c) \<leftarrow> cbs_convert_ber m body out_contents child_string_tag False (depth + 1) c;
                      Some (ok, c) }
                    else Some (CBB_add_bytes m body out_contents c));
                 if \<not> ok then Some (False, inp, c)
                 else case CBB_flush m c d of (ok, c) \<Rightarrow>
                   if \<not> ok then Some (False, inp, c)
                   else cbs_convert_ber m inp d string_tag looking_for_eoc depth c })"

text \<open>The result is \<open>out\<close>, with whether \<open>*out_storage\<close> is set to its buffer, and the rest of the input.\<close>

definition CBS_asn1_ber_to_der :: "malloc \<Rightarrow> cbs \<Rightarrow> ((bytes \<times> bool) option \<times> cbs) option" where
  "CBS_asn1_ber_to_der m inp =
    (case cbs_find_ber inp 0 of
       None \<Rightarrow> Some (None, inp)
     | Some False \<Rightarrow>
         (case CBS_get_any_asn1_element inp of
            (None, inp) \<Rightarrow> Some (None, inp)
          | (Some e, inp) \<Rightarrow> Some (Some (contents e, False), inp))
     | Some True \<Rightarrow>
         (case CBB_init m (length inp) of
            None \<Rightarrow> Some (None, inp)
          | Some c \<Rightarrow> do {
              (ok, inp, c) \<leftarrow> cbs_convert_ber m inp 0 0 False 0 c;
              if \<not> ok then Some (None, inp)
              else case CBB_finish m True 0 c of
                     (None, _) \<Rightarrow> Some (None, inp)
                   | (Some (buf, len), _) \<Rightarrow> Some (Some (take len buf, True), inp) }))"

lemma get_asn1_shorter: "CBS_get_asn1 c t = (Some body, c') \<Longrightarrow> length c' < length c"
  by (auto simp: get_asn1_iff der_element_def)

function implicit_string_loop :: "malloc \<Rightarrow> cbs \<Rightarrow> tag \<Rightarrow> cbb_op" where
  "implicit_string_loop m child inner_tag result =
    (if child = [] then (True, result)
     else case CBS_get_asn1 child inner_tag of
            (None, _) \<Rightarrow> (False, result)
          | (Some chunk, child) \<Rightarrow>
              (case CBB_add_bytes m chunk 0 result of
                 (False, result) \<Rightarrow> (False, result)
               | (True, result) \<Rightarrow> implicit_string_loop m child inner_tag result))"
  by pat_completeness auto

termination
  by (relation "measure (\<lambda>(m, child, inner_tag, result). length child)")
    (auto dest!: sym [of "(Some _, _)"] get_asn1_shorter)

declare implicit_string_loop.simps [simp del]

definition CBS_get_asn1_implicit_string ::
    "malloc \<Rightarrow> cbs \<Rightarrow> tag \<Rightarrow> tag \<Rightarrow> ((bytes \<times> bool) option \<times> cbs) option" where
  "CBS_get_asn1_implicit_string m inp outer_tag inner_tag =
    (if outer_tag AND CBS_ASN1_CONSTRUCTED \<noteq> 0 \<or> inner_tag AND CBS_ASN1_CONSTRUCTED \<noteq> 0 \<or>
        \<not> is_string_type inner_tag then None
     else if CBS_peek_asn1_tag inp outer_tag then
       (case CBS_get_asn1 inp outer_tag of
          (None, inp) \<Rightarrow> Some (None, inp)
        | (Some out, inp) \<Rightarrow> Some (Some (out, False), inp))
     else case CBB_init m (length inp) of
       None \<Rightarrow> Some (None, inp)
     | Some result \<Rightarrow>
        (case CBS_get_asn1 inp (outer_tag OR CBS_ASN1_CONSTRUCTED) of
           (None, inp) \<Rightarrow> Some (None, inp)
         | (Some child, inp) \<Rightarrow>
            (case implicit_string_loop m child inner_tag result of
               (False, _) \<Rightarrow> Some (None, inp)
             | (True, result) \<Rightarrow>
                (case CBB_finish m True 0 result of
                   (None, _) \<Rightarrow> Some (None, inp)
                 | (Some (buf, len), _) \<Rightarrow> Some (Some (take len buf, True), inp)))))"

section \<open>What the bytes mean\<close>

text \<open>
  A primitive element has its tag, the octets of its length field and its contents; a constructed one
  its tag, the length field (\<open>None\<close> for the indefinite form) and its children.
\<close>

datatype ber = Prim tag bytes bytes | Cons tag "bytes option" "ber list"

definition string_of :: "tag \<Rightarrow> tag" where
  "string_of t = (if is_string_type t then t AND NOT CBS_ASN1_CONSTRUCTED else 0)"

fun ber_bytes :: "ber list \<Rightarrow> bytes" where
  "ber_bytes [] = []"
| "ber_bytes (Prim t lb body # ks) = tag_bytes t @ lb @ body @ ber_bytes ks"
| "ber_bytes (Cons t None kids # ks) = tag_bytes t @ [0x80] @ ber_bytes kids @ [0, 0] @ ber_bytes ks"
| "ber_bytes (Cons t (Some lb) kids # ks) = tag_bytes t @ lb @ ber_bytes kids @ ber_bytes ks"

text \<open>
  The conversion. In a string (\<open>st\<close> is its tag) only the contents of the primitive elements count;
  elsewhere (\<open>st = 0\<close>) an element keeps its tag, but a constructed string becomes a primitive one.
\<close>

fun ber_out :: "tag \<Rightarrow> ber list \<Rightarrow> bytes" where
  "ber_out st [] = []"
| "ber_out st (Prim t lb body # ks) = (if st = 0 then der_element t body else body) @ ber_out st ks"
| "ber_out st (Cons t lb kids # ks) =
    (if st \<noteq> 0 then ber_out st kids
     else if string_of t = 0 then der_element t (ber_out 0 kids)
     else der_element (string_of t) (ber_out (string_of t) kids)) @ ber_out st ks"

definition definite :: "tag \<Rightarrow> bytes \<Rightarrow> nat \<Rightarrow> bool" where
  "definite t lb n \<longleftrightarrow> ber_len True t lb n True False \<or> ber_len True t lb n False False"

text \<open>
  Well-formed forests: tags and length fields are right, there are at most \<open>n\<close> levels below, the
  elements of a string have its tag, and the contents of every element have a DER length.
\<close>

fun ber_ok :: "tag \<Rightarrow> nat \<Rightarrow> ber list \<Rightarrow> bool" where
  "ber_ok st n [] \<longleftrightarrow> True"
| "ber_ok st n (Prim t lb body # ks) \<longleftrightarrow>
     valid_tag t \<and> \<not> constructed t \<and> definite t lb (length body) \<and>
     (if st = 0 then length body \<le> 0xfffffffe else t = st) \<and> ber_ok st n ks"
| "ber_ok st n (Cons t lb kids # ks) \<longleftrightarrow>
     valid_tag t \<and> constructed t \<and> 0 < n \<and>
     (case lb of None \<Rightarrow> True | Some lb \<Rightarrow> definite t lb (length (ber_bytes kids))) \<and>
     (if st \<noteq> 0 then t AND NOT CBS_ASN1_CONSTRUCTED = st \<and> ber_ok st (n - 1) kids
      else ber_ok (string_of t) (n - 1) kids \<and> length (ber_out (string_of t) kids) \<le> 0xfffffffe) \<and>
     ber_ok st n ks"

end
