(* ===== verification/BER_Convert.thy ===== *)
theory BER_Convert
  imports BER
begin

text \<open>
  The converter of \<open>ber.c\<close> against the trees of theory \<open>BER\<close>: it ends on every input, and it succeeds
  exactly on the bytes of well-formed forests, with their DER as the result.
\<close>

section \<open>Elements and trees\<close>

lemma ber_element_definite:
  assumes "valid_tag t" "definite t lb (length body)"
  obtains e where "CBS_get_any_ber_asn1_element (tag_bytes t @ lb @ body @ r) = (Some e, r)" "elt_tag e = t"
    "\<not> indefinite e" "CBS_skip (contents e) (header_len e) = (True, body)"
    "ber_found e \<longleftrightarrow> lb \<noteq> der_len (length body)"
proof -
  obtain bf where bf: "ber_len True t lb (length body) bf False" using assms(2) by (auto simp: definite_def)
  define e where "e = \<lparr>contents = tag_bytes t @ lb @ body, elt_tag = t, header_len = length (tag_bytes t @ lb),
    ber_found = bf, indefinite = False\<rparr>"
  have "element_at True (tag_bytes t @ lb @ body @ r) e r"
    unfolding element_at_def e_def using assms(1) bf by auto
  then have g: "CBS_get_any_ber_asn1_element (tag_bytes t @ lb @ body @ r) = (Some e, r)"
    by (simp add: CBS_get_any_ber_asn1_element_def get_element_iff)
  have "\<not> bf \<longleftrightarrow> ber_len False t lb (length body) bf False"
    using bf unfolding ber_len_def by blast
  moreover have "length body < 2 ^ 32"
  proof -
    have "(256 :: nat) ^ k \<le> 256 ^ 4" if "k \<in> {1..4}" for k using that by (intro power_increasing) auto
    then show ?thesis using bf unfolding ber_len_def by force
  qed
  moreover have "\<not> bf" if "lb = der_len (length body)"
  proof -
    have "ber_len False t lb (length body) False False"
      unfolding ber_len_strict using that calculation(2) by simp
    then have "ber_len True t lb (length body) False False" unfolding ber_len_def by blast
    then have "element_at True (tag_bytes t @ lb @ body @ r) (e\<lparr>ber_found := False\<rparr>) r"
      unfolding element_at_def e_def using assms(1) by auto
    then have "e\<lparr>ber_found := False\<rparr> = e" using g by (simp add: CBS_get_any_ber_asn1_element_def get_element_iff [symmetric])
    then show ?thesis by (simp add: e_def)
  qed
  ultimately have "bf \<longleftrightarrow> lb \<noteq> der_len (length body)" unfolding ber_len_strict by blast
  with g show ?thesis by (intro that [of e]) (simp_all add: e_def CBS_skip_iff)
qed

lemma ber_element_indefinite:
  assumes "valid_tag t" "constructed t"
  obtains e where "CBS_get_any_ber_asn1_element (tag_bytes t @ 0x80 # r) = (Some e, r)" "elt_tag e = t"
    "indefinite e" "ber_found e"
proof -
  define e where "e = \<lparr>contents = tag_bytes t @ [0x80], elt_tag = t, header_len = length (tag_bytes t @ [0x80]),
    ber_found = True, indefinite = True\<rparr>"
  have "element_at True (tag_bytes t @ 0x80 # r) e r"
    unfolding element_at_def e_def using assms by (auto simp: ber_len_def)
  then have g: "CBS_get_any_ber_asn1_element (tag_bytes t @ 0x80 # r) = (Some e, r)"
    by (simp add: CBS_get_any_ber_asn1_element_def get_element_iff)
  then show ?thesis by (rule that) (simp_all add: e_def)
qed

lemma ber_elementE:
  assumes "CBS_get_any_ber_asn1_element inp = (Some e, r)"
  obtains (indefinite) "valid_tag (elt_tag e)" "constructed (elt_tag e)" "indefinite e" "inp = tag_bytes (elt_tag e) @ 0x80 # r"
  | (definite) lb body where "valid_tag (elt_tag e)" "\<not> indefinite e" "definite (elt_tag e) lb (length body)"
      "inp = tag_bytes (elt_tag e) @ lb @ body @ r" "CBS_skip (contents e) (header_len e) = (True, body)"
proof -
  from assms have "element_at True inp e r" by (simp add: CBS_get_any_ber_asn1_element_def get_element_iff)
  then obtain lb body where v: "valid_tag (elt_tag e)"
    and l: "ber_len True (elt_tag e) lb (length body) (ber_found e) (indefinite e)"
    and e: "contents e = tag_bytes (elt_tag e) @ lb @ body" "header_len e = length (tag_bytes (elt_tag e) @ lb)"
      "inp = contents e @ r" by (auto simp: element_at_def)
  show thesis
  proof (cases "indefinite e")
    case True
    then show ?thesis using v l e unfolding ber_len_def by (intro indefinite) auto
  next
    case False
    then have "definite (elt_tag e) lb (length body)" using l unfolding definite_def by (cases "ber_found e") auto
    then show ?thesis using v e False by (intro definite [of lb body]) (auto simp: CBS_skip_iff)
  qed
qed

lemma eoc_iff [simp]: "cbs_get_eoc inp = (True, r) \<longleftrightarrow> inp = 0 # 0 # r"
proof -
  have "length inp \<ge> 2 \<Longrightarrow> inp = inp ! 0 # inp ! 1 # drop 2 inp"
    by (cases inp; cases "tl inp") auto
  then show ?thesis by (auto simp: cbs_get_eoc_def CBS_skip_iff)
qed

lemma no_eoc: "cbs_get_eoc inp = (False, inp) \<longleftrightarrow> (\<nexists>r. inp = 0 # 0 # r)"
proof -
  have "length inp \<ge> 2 \<Longrightarrow> inp ! 0 = 0 \<and> inp ! 1 = 0 \<Longrightarrow> inp = 0 # 0 # drop 2 inp"
    by (cases inp; cases "tl inp") auto
  moreover have "length inp \<ge> 2 \<Longrightarrow> CBS_skip inp 2 = (True, drop 2 inp)" by (simp add: CBS_skip_iff)
  ultimately show ?thesis by (auto simp: cbs_get_eoc_def)
qed

lemma tag_no_eoc:
  assumes "valid_tag t"
  shows "tag_bytes t @ y \<noteq> 0 # 0 # r"
proof
  assume "tag_bytes t @ y = 0 # 0 # r"
  with assms have "parse_asn1_tag (0 # 0 # r) = (Some t, y)" by (simp add: parse_asn1_tag_iff)
  then show False by (simp add: parse_asn1_tag_def CBS_get_u8_iff)
qed

lemma string_of_zero: "string_of t = 0 \<longleftrightarrow> \<not> is_string_type t"
  unfolding string_of_def is_string_type_def by (auto simp: string_tags)

lemma string_of_primitive: "string_of t AND CBS_ASN1_CONSTRUCTED = 0"
proof -
  have "(t AND NOT CBS_ASN1_CONSTRUCTED) AND CBS_ASN1_CONSTRUCTED = 0"
    by (simp add: and.assoc)
  then show ?thesis by (simp add: string_of_def)
qed

section \<open>Termination\<close>

lemma element_shrinks: "CBS_get_any_ber_asn1_element inp = (Some e, r) \<Longrightarrow> length r < length inp"
  by (auto elim!: ber_elementE)

lemma eoc_shrinks: "cbs_get_eoc inp = (b, r) \<Longrightarrow> length r \<le> length inp"
  by (auto simp: cbs_get_eoc_def CBS_skip_def cbs_get_def split: if_splits option.splits prod.splits)

text \<open>
  The calls of \<open>cbs_convert_ber\<close> as a relation between arguments and results, one rule for each way a
  round of the loop ends. In a string the output goes to the builder itself, otherwise to a new child.
\<close>

definition convert_open :: "malloc \<Rightarrow> nat \<Rightarrow> tag \<Rightarrow> tag \<Rightarrow> cbb_op" where
  "convert_open m d st t c =
    (if st \<noteq> 0 then (True, c)
     else CBB_add_asn1 m (if constructed t \<and> is_string_type t then t AND NOT CBS_ASN1_CONSTRUCTED else t) d c)"

definition convert_string :: "tag \<Rightarrow> tag \<Rightarrow> tag" where
  "convert_string st t = (if st = 0 \<and> constructed t then string_of t else st)"

abbreviation convert_depth :: "nat \<Rightarrow> tag \<Rightarrow> nat" where
  "convert_depth d st \<equiv> (if st \<noteq> 0 then d else d + 1)"

inductive converts :: "malloc \<Rightarrow> cbs \<Rightarrow> nat \<Rightarrow> tag \<Rightarrow> bool \<Rightarrow> nat \<Rightarrow> cbb \<Rightarrow> bool \<Rightarrow> cbs \<Rightarrow> cbb \<Rightarrow> bool"
  for m :: malloc where
  fails: "length r \<le> length inp \<Longrightarrow> converts m inp d st eoc depth c False r c'"
| ends: "depth \<le> kMaxDepth \<Longrightarrow> converts m [] d st False depth c True [] c"
| eoc: "depth \<le> kMaxDepth \<Longrightarrow> converts m (0 # 0 # r) d st True depth c True r c"
| indefinite: "depth \<le> kMaxDepth \<Longrightarrow> valid_tag t \<Longrightarrow> constructed t \<Longrightarrow>
    (st \<noteq> 0 \<Longrightarrow> t AND NOT CBS_ASN1_CONSTRUCTED = st) \<Longrightarrow>
    convert_open m d st t c = (True, c1) \<Longrightarrow>
    converts m r (convert_depth d st) (convert_string st t) True (depth + 1) c1 True r2 c2 \<Longrightarrow>
    CBB_flush m c2 d = (True, c3) \<Longrightarrow> converts m r2 d st eoc depth c3 ok rest c' \<Longrightarrow>
    converts m (tag_bytes t @ 0x80 # r) d st eoc depth c ok rest c'"
| constructed: "depth \<le> kMaxDepth \<Longrightarrow> valid_tag t \<Longrightarrow> constructed t \<Longrightarrow> definite t lb (length body) \<Longrightarrow>
    (st \<noteq> 0 \<Longrightarrow> t AND NOT CBS_ASN1_CONSTRUCTED = st) \<Longrightarrow>
    convert_open m d st t c = (True, c1) \<Longrightarrow>
    converts m body (convert_depth d st) (convert_string st t) False (depth + 1) c1 True r2 c2 \<Longrightarrow>
    CBB_flush m c2 d = (True, c3) \<Longrightarrow> converts m r d st eoc depth c3 ok rest c' \<Longrightarrow>
    converts m (tag_bytes t @ lb @ body @ r) d st eoc depth c ok rest c'"
| primitive: "depth \<le> kMaxDepth \<Longrightarrow> valid_tag t \<Longrightarrow> \<not> constructed t \<Longrightarrow> definite t lb (length body) \<Longrightarrow>
    (st \<noteq> 0 \<Longrightarrow> t AND NOT CBS_ASN1_CONSTRUCTED = st) \<Longrightarrow>
    convert_open m d st t c = (True, c1) \<Longrightarrow>
    CBB_add_bytes m body (convert_depth d st) c1 = (True, c2) \<Longrightarrow>
    CBB_flush m c2 d = (True, c3) \<Longrightarrow> converts m r d st eoc depth c3 ok rest c' \<Longrightarrow>
    converts m (tag_bytes t @ lb @ body @ r) d st eoc depth c ok rest c'"

lemma converts_shorter: "converts m inp d st eoc depth c ok r c' \<Longrightarrow> length r \<le> length inp"
  by (induction rule: converts.induct) auto

lemma convert_string_code:
  "convert_string st t = (if st = 0 \<and> constructed t \<and> is_string_type t then t AND NOT CBS_ASN1_CONSTRUCTED else st)"
  by (simp add: convert_string_def string_of_def)

lemma eoc_False: "cbs_get_eoc inp = (False, r) \<Longrightarrow> r = inp"
  by (auto simp: cbs_get_eoc_def CBS_skip_def cbs_get_def split: if_splits option.splits prod.splits)

lemma eoc_here: "cbs_get_eoc (0 # 0 # r) = (True, r)"
  by simp

lemma get_element_None: "CBS_get_any_ber_asn1_element inp = (None, r) \<Longrightarrow> length r \<le> length inp"
  by (auto simp: CBS_get_any_ber_asn1_element_def cbs_get_any_asn1_element_def CBS_get_bytes_def cbs_get_def Let_def
      split: if_splits option.splits prod.splits)

lemma converts_if_returns:
  assumes "cbs_convert_ber m inp d st eoc depth c = Some res"
  shows "converts m inp d st eoc depth c (fst res) (fst (snd res)) (snd (snd res))"
  using assms
proof (rule cbs_convert_ber.raw_induct [where
    P = "\<lambda>m inp d st eoc depth c res. converts m inp d st eoc depth c (fst res) (fst (snd res)) (snd (snd res))", rotated],
    goal_cases)
  case (1 conv m inp d st eoc depth c res)
  note step = "1"(2)
  have IH: "converts m inp d st eoc depth c ok r c'" if "conv m inp d st eoc depth c = Some (ok, r, c')"
    for m inp d st eoc depth c ok r c' using "1"(1) [OF that] by simp
  obtain ok r c' where res: "res = (ok, r, c')" by (cases res)
  from step have st: "st AND CBS_ASN1_CONSTRUCTED = 0" by (simp split: if_splits)
  consider "depth > kMaxDepth" | "inp = []" "depth \<le> kMaxDepth" | "inp \<noteq> []" "\<not> kMaxDepth < depth" by linarith
  then have "converts m inp d st eoc depth c ok r c'"
  proof cases
    case 1
    then show ?thesis using step st by (auto simp: res intro: fails)
  next
    case 2
    then show ?thesis using step st by (cases eoc) (auto simp: res intro: fails ends)
  next
    case ne: 3
    obtain b inp1 where b: "(if eoc then cbs_get_eoc inp else (False, inp)) = (b, inp1)" by force
    note step = step [unfolded res b if_not_P [OF ne(1)] if_not_P [OF ne(2)], simplified st, simplified]
    show ?thesis
    proof (cases b)
      case True
      then show ?thesis using step b ne by (auto split: if_splits intro: eoc)
    next
      case False
      have inp1: "inp1 = inp" using b False by (auto dest: eoc_False split: if_splits)
      obtain g r1 where g: "CBS_get_any_ber_asn1_element inp = (g, r1)" by force
      note step = step [unfolded inp1 g, simplified False, simplified]
      show ?thesis
      proof (cases g)
        case None
        then have "length r \<le> length inp"
          using step g by (simp add: CBS_get_any_ber_asn1_element_def get_element_None)
        then show ?thesis using step None by (auto intro: fails)
      next
        case (Some e)
        define t where "t = elt_tag e"
        have con: "t AND CBS_ASN1_CONSTRUCTED \<noteq> 0 \<longleftrightarrow> constructed t" by (simp add: constructed_def)
        have ge: "CBS_get_any_ber_asn1_element inp = (Some e, r1)" using g Some by simp
        have r1: "length r1 < length inp" by (rule element_shrinks [OF ge])
        obtain ok1 c1 where op: "convert_open m d st t c = (ok1, c1)" by force
        have op': "(if st \<noteq> 0 then (True, c)
            else CBB_add_asn1 m (if st = 0 \<and> t AND CBS_ASN1_CONSTRUCTED \<noteq> 0 \<and> is_string_type t
              then t AND NOT CBS_ASN1_CONSTRUCTED else t) d c) = (ok1, c1)"
          using op unfolding convert_open_def constructed_def by (cases "st = 0") simp_all
        have sub: "(if st = 0 \<and> t AND CBS_ASN1_CONSTRUCTED \<noteq> 0 \<and> is_string_type t
            then if st = 0 \<and> t AND CBS_ASN1_CONSTRUCTED \<noteq> 0 \<and> is_string_type t
              then t AND NOT CBS_ASN1_CONSTRUCTED else t else st) = convert_string st t"
          unfolding convert_string_code constructed_def by simp
        note step = step [unfolded Some option.case prod.case t_def [symmetric] Let_def, unfolded sub, unfolded op', unfolded con prod.case]
        show ?thesis
        proof (cases "\<not> (st \<noteq> 0 \<and> t AND NOT CBS_ASN1_CONSTRUCTED \<noteq> st) \<and> ok1")
          case False
          then show ?thesis using step r1 by (auto intro: fails split: if_splits)
        next
          case True
          then have opT: "convert_open m d st t c = (True, c1)" using op by simp
          from True have same: "st \<noteq> 0 \<Longrightarrow> t AND NOT CBS_ASN1_CONSTRUCTED = st" by blast
          note step = step [simplified True, simplified]
          from ne(2) have dep: "depth \<le> kMaxDepth" by simp
          from ge show ?thesis
          proof (cases rule: ber_elementE)
            case indefinite
            from step indefinite(3) obtain ok2 r2 c2 where rec: "conv m r1 (convert_depth d st) (convert_string st t)
                True (depth + 1) c1 = Some (ok2, r2, c2)" by (auto simp: bind_eq_Some_conv)
            obtain ok3 c3 where fl: "CBB_flush m c2 d = (ok3, c3)" by force
            note rel = IH [OF rec]
            from step indefinite(3) rec fl
            have "(if ok2 \<and> ok3 then conv m r2 d st eoc depth c3
                else Some (False, r2, if ok2 then c3 else c2)) = Some (ok, r, c')" by (auto split: if_splits)
            with converts_shorter [OF rel] r1 rel fl IH [of m r2 d st eoc depth c3 ok r c'] indefinite opT same dep
            show ?thesis
              by (auto split: if_splits simp: t_def intro: fails converts.indefinite)
          next
            case (definite lb body)
            define dc where "dc = convert_depth d st"
            define st1 where "st1 = convert_string st t"
            note step = step [folded dc_def st1_def, unfolded definite(5) prod.case if_not_P [OF definite(2)],
              simplified]
            from step obtain ok2 c2 where sub: "if constructed t
                then \<exists>x. conv m body dc st1 False (depth + 1) c1 = Some (ok2, x, c2)
                else CBB_add_bytes m body dc c1 = (ok2, c2)"
              by (cases "constructed t"; cases "CBB_add_bytes m body dc c1") (auto simp: bind_eq_Some_conv)
            obtain ok3 c3 where fl: "CBB_flush m c2 d = (ok3, c3)" by force
            from step sub fl
            have last: "(if ok2 \<and> ok3 then conv m r1 d st eoc depth c3
                else Some (False, r1, if ok2 then c3 else c2)) = Some (ok, r, c')"
              by (cases "constructed t") (auto split: if_splits)
            show ?thesis
            proof (cases "ok2 \<and> ok3")
              case False
              with last r1 show ?thesis by (auto intro: fails)
            next
              case True
              with last have rel: "converts m r1 d st eoc depth c3 ok r c'" by (intro IH) simp
              show ?thesis
              proof (cases "constructed t")
                case con: True
                with sub True obtain x where "converts m body dc st1 False (depth + 1) c1 True x c2"
                  using IH by fastforce
                with True con definite opT same dep fl rel show ?thesis
                  by (auto simp: t_def dc_def st1_def intro: converts.constructed)
              next
                case False
                with sub True definite opT same dep fl rel show ?thesis
                  by (auto simp: t_def dc_def st1_def intro: converts.primitive)
              qed
            qed
          qed
        qed
      qed
    qed
  qed
  then show ?case by (simp add: res)
qed

lemma convert_string_primitive:
  "st AND CBS_ASN1_CONSTRUCTED = 0 \<Longrightarrow> convert_string st t AND CBS_ASN1_CONSTRUCTED = 0"
  by (simp add: convert_string_def string_of_primitive)

text \<open>One round of the loop on an element.\<close>

lemma convert_unfold:
  assumes "st AND CBS_ASN1_CONSTRUCTED = 0" "depth \<le> kMaxDepth" "CBS_get_any_ber_asn1_element inp = (Some e, r)"
    "elt_tag e = t" "st \<noteq> 0 \<Longrightarrow> t AND NOT CBS_ASN1_CONSTRUCTED = st" "convert_open m d st t c = (True, c1)"
    "valid_tag t" "inp = tag_bytes t @ y"
  shows "cbs_convert_ber m inp d st eoc depth c =
    (if indefinite e then do {
       (ok, inp, c) \<leftarrow> cbs_convert_ber m r (convert_depth d st) (convert_string st t) True (depth + 1) c1;
       if \<not> ok then Some (False, inp, c)
       else case CBB_flush m c d of (ok, c) \<Rightarrow>
         if \<not> ok then Some (False, inp, c) else cbs_convert_ber m inp d st eoc depth c }
     else case CBS_skip (contents e) (header_len e) of (ok, body) \<Rightarrow>
       if \<not> ok then Some (False, r, c1)
       else do {
         (ok, c) \<leftarrow>
           (if constructed t
            then do {
              (ok, _, c) \<leftarrow> cbs_convert_ber m body (convert_depth d st) (convert_string st t) False (depth + 1) c1;
              Some (ok, c) }
            else Some (CBB_add_bytes m body (convert_depth d st) c1));
         if \<not> ok then Some (False, r, c)
         else case CBB_flush m c d of (ok, c) \<Rightarrow>
           if \<not> ok then Some (False, r, c) else cbs_convert_ber m r d st eoc depth c })"
proof -
  have b: "(if eoc then cbs_get_eoc inp else (False, inp)) = (False, inp)"
    using tag_no_eoc [OF assms(7)] assms(8) by (simp add: no_eoc)
  have ne: "inp \<noteq> []" using assms(8) by simp
  have op': "(if st \<noteq> 0 then (True, c)
      else CBB_add_asn1 m (if st = 0 \<and> t AND CBS_ASN1_CONSTRUCTED \<noteq> 0 \<and> is_string_type t
        then t AND NOT CBS_ASN1_CONSTRUCTED else t) d c) = (True, c1)"
    using assms(6) unfolding convert_open_def constructed_def by (cases "st = 0") simp_all
  have sub: "(if st = 0 \<and> t AND CBS_ASN1_CONSTRUCTED \<noteq> 0 \<and> is_string_type t
      then if st = 0 \<and> t AND CBS_ASN1_CONSTRUCTED \<noteq> 0 \<and> is_string_type t
        then t AND NOT CBS_ASN1_CONSTRUCTED else t else st) = convert_string st t"
    unfolding convert_string_code constructed_def by simp
  have con: "t AND CBS_ASN1_CONSTRUCTED \<noteq> 0 \<longleftrightarrow> constructed t" by (simp add: constructed_def)
  have np: "\<not> st AND CBS_ASN1_CONSTRUCTED \<noteq> 0" "\<not> depth > kMaxDepth"
    "\<not> (st \<noteq> 0 \<and> t AND NOT CBS_ASN1_CONSTRUCTED \<noteq> st)" using assms(1,2,5) by auto
  show ?thesis
    apply (subst cbs_convert_ber.simps)
    apply (unfold if_not_P [OF np(1)] if_not_P [OF np(2)] if_not_P [OF ne] b prod.case if_False assms(3) option.case
      assms(4) if_not_P [OF np(3)] Let_def)
    apply (unfold sub, unfold op', unfold con prod.case not_True_eq_False if_False)
    apply (rule refl)
    done
qed

lemma returns_if_converts:
  "converts m inp d st eoc depth c ok r c' \<Longrightarrow> ok \<Longrightarrow> st AND CBS_ASN1_CONSTRUCTED = 0 \<Longrightarrow>
   cbs_convert_ber m inp d st eoc depth c = Some (True, r, c')"
proof (induction rule: converts.induct)
  case (ends depth d st c)
  then show ?case by (subst cbs_convert_ber.simps) simp
next
  case (eoc depth r d st c)
  then show ?case by (subst cbs_convert_ber.simps) (simp add: eoc_here)
next
  case (indefinite depth t st d c c1 r r2 c2 c3 eoc ok rest c')
  obtain e where e: "CBS_get_any_ber_asn1_element (tag_bytes t @ 0x80 # r) = (Some e, r)" "elt_tag e = t" "indefinite e"
    using ber_element_indefinite [OF indefinite.hyps(2,3)] by metis
  show ?case
    using convert_unfold [OF indefinite.prems(2) indefinite.hyps(1) e(1,2) indefinite.hyps(4,5,2) refl, of eoc]
      e(3) indefinite.IH indefinite.prems indefinite.hyps convert_string_primitive by simp
next
  case (constructed depth t lb body st d c c1 r2 c2 c3 r eoc ok rest c')
  obtain e where e: "CBS_get_any_ber_asn1_element (tag_bytes t @ lb @ body @ r) = (Some e, r)" "elt_tag e = t"
    "\<not> indefinite e" "CBS_skip (contents e) (header_len e) = (True, body)"
    using ber_element_definite [OF constructed.hyps(2,4)] by metis
  show ?case
    using convert_unfold [OF constructed.prems(2) constructed.hyps(1) e(1,2) constructed.hyps(5,6,2) refl, of eoc]
      e(3,4) constructed.IH constructed.prems constructed.hyps convert_string_primitive by simp
next
  case (primitive depth t lb body st d c c1 c2 c3 r eoc ok rest c')
  obtain e where e: "CBS_get_any_ber_asn1_element (tag_bytes t @ lb @ body @ r) = (Some e, r)" "elt_tag e = t"
    "\<not> indefinite e" "CBS_skip (contents e) (header_len e) = (True, body)"
    using ber_element_definite [OF primitive.hyps(2,4)] by metis
  show ?case
    using convert_unfold [OF primitive.prems(2) primitive.hyps(1) e(1,2) primitive.hyps(5,6,2) refl, of eoc]
      e(3,4) primitive.IH primitive.prems primitive.hyps by simp
qed simp

text \<open>The converter returns on every input.\<close>

lemma convert_returns:
  "st AND CBS_ASN1_CONSTRUCTED = 0 \<Longrightarrow> \<exists>res. cbs_convert_ber m inp d st eoc depth c = Some res"
proof (induction "kMaxDepth + 1 - depth" arbitrary: inp d st eoc depth c rule: less_induct)
  case outer: less
  from outer.prems show ?case
  proof (induction "length inp" arbitrary: inp d eoc c rule: less_induct)
    case inner: less
    note st = inner.prems
    have sub: "\<exists>res. cbs_convert_ber m inp' d' (convert_string st t) eoc' (depth + 1) c' = Some res" if "depth \<le> kMaxDepth"
      for inp' d' eoc' c' t
      using that outer.hyps [of "depth + 1" "convert_string st t" inp' d' eoc' c'] convert_string_primitive [OF st] by simp
    have short: "length r \<le> length i" if "cbs_convert_ber m i d' st' eoc' depth' c1 = Some (ok, r, c2)"
      for i d' st' eoc' depth' c1 ok r c2 using converts_shorter [OF converts_if_returns [OF that]] by simp
    consider "depth > kMaxDepth" | "inp = []" | r where "eoc" "inp = 0 # 0 # r"
      | "depth \<le> kMaxDepth" "inp \<noteq> []" "(if eoc then cbs_get_eoc inp else (False, inp)) = (False, inp)"
      using no_eoc [of inp] linorder_not_le [of depth kMaxDepth] by (cases eoc) (simp_all, metis+)
    then show ?case
    proof cases
      case 1
      with st show ?thesis by (subst cbs_convert_ber.simps) auto
    next
      case 2
      with st show ?thesis by (subst cbs_convert_ber.simps) auto
    next
      case 3
      with st show ?thesis by (subst cbs_convert_ber.simps) (auto simp: eoc_here)
    next
      case dep: 4
      obtain g r where g: "CBS_get_any_ber_asn1_element inp = (g, r)" by force
      show ?thesis
      proof (cases "\<exists>e c1. g = Some e \<and> (st \<noteq> 0 \<longrightarrow> elt_tag e AND NOT CBS_ASN1_CONSTRUCTED = st) \<and>
          convert_open m d st (elt_tag e) c = (True, c1)")
        case False
        have np: "\<not> st AND CBS_ASN1_CONSTRUCTED \<noteq> 0" "\<not> depth > kMaxDepth" using st dep(1) by auto
        note round = if_not_P [OF np(1)] if_not_P [OF np(2)] if_not_P [OF dep(2)] dep(3) prod.case if_False g
        show ?thesis
        proof (cases g)
          case None
          show ?thesis by (subst cbs_convert_ber.simps, unfold round None option.case) blast
        next
          case (Some e)
          show ?thesis
          proof (cases "st \<noteq> 0 \<and> elt_tag e AND NOT CBS_ASN1_CONSTRUCTED \<noteq> st")
            case True
            show ?thesis by (subst cbs_convert_ber.simps, unfold round Some option.case if_P [OF True]) blast
          next
            case same: False
            with Some False obtain c1 where c1: "convert_open m d st (elt_tag e) c = (False, c1)"
              by (cases "convert_open m d st (elt_tag e) c") auto
            have op: "(if st \<noteq> 0 then (True, c)
                else CBB_add_asn1 m (if st = 0 \<and> elt_tag e AND CBS_ASN1_CONSTRUCTED \<noteq> 0 \<and> is_string_type (elt_tag e)
                  then elt_tag e AND NOT CBS_ASN1_CONSTRUCTED else elt_tag e) d c) = (False, c1)"
              using c1 unfolding convert_open_def constructed_def by (cases "st = 0") simp_all
            show ?thesis
              by (subst cbs_convert_ber.simps, unfold round Some option.case if_not_P [OF same] Let_def,
                  unfold op, unfold prod.case not_False_eq_True if_True) blast
          qed
        qed
      next
        case True
        then obtain e c1 where e: "g = Some e" "st \<noteq> 0 \<Longrightarrow> elt_tag e AND NOT CBS_ASN1_CONSTRUCTED = st"
          "convert_open m d st (elt_tag e) c = (True, c1)" by blast
        have ge: "CBS_get_any_ber_asn1_element inp = (Some e, r)" using g e(1) by simp
        have v: "valid_tag (elt_tag e)" "\<exists>y. inp = tag_bytes (elt_tag e) @ y"
          using ge by (auto elim: ber_elementE)
        then obtain y where y: "inp = tag_bytes (elt_tag e) @ y" by blast
        note eq = convert_unfold [OF st dep(1) ge refl _ e(3) v(1) y]
        have next_: "\<exists>res. cbs_convert_ber m r2 d st eoc depth c2 = Some res" if "length r2 \<le> length r" for r2 c2
          using inner.hyps [of r2 d eoc c2] that element_shrinks [OF ge] st by simp
        obtain ok2 r2 c2 where rec: "cbs_convert_ber m r (convert_depth d st) (convert_string st (elt_tag e)) True (depth + 1) c1 =
            Some (ok2, r2, c2)" using sub [OF dep(1)] by fastforce
        show ?thesis
        proof (cases "indefinite e")
          case True
          show ?thesis
            by (subst eq, erule e(2), unfold if_P [OF True] rec Option.bind.bind_lunit prod.case)
              (use next_ [OF short [OF rec]] in \<open>auto split: prod.splits\<close>)
        next
          case False
          obtain b body where sk: "CBS_skip (contents e) (header_len e) = (b, body)" by force
          obtain ok3 r3 c3 where rec3: "cbs_convert_ber m body (convert_depth d st) (convert_string st (elt_tag e)) False
              (depth + 1) c1 = Some (ok3, r3, c3)" using sub [OF dep(1)] by fastforce
          show ?thesis
            by (subst eq, erule e(2), unfold if_not_P [OF False] sk rec3 Option.bind.bind_lunit prod.case)
              (use next_ [OF order_refl] in \<open>auto split: prod.splits\<close>)
        qed
      qed
    qed
  qed
qed

end
