(* ===== verification/BER_Forest.thy ===== *)
theory BER_Forest
  imports BER_Convert
begin

text \<open>
  The calls of the converter that succeed are those on well-formed forests, and they write the DER of
  the forest to the builder.
\<close>

section \<open>Opening and closing an output element\<close>

definition out_tag :: "tag \<Rightarrow> tag" where
  "out_tag t = (if constructed t \<and> string_of t \<noteq> 0 then string_of t else t)"

definition out_element :: "tag \<Rightarrow> tag \<Rightarrow> bytes \<Rightarrow> bytes" where
  "out_element st t e = (if st \<noteq> 0 then e else der_element (out_tag t) e)"

definition opened :: "tag \<Rightarrow> tag \<Rightarrow> builder \<Rightarrow> builder" where
  "opened st t s = (if st \<noteq> 0 then s else push Asn1 (put (tag_bytes (out_tag t)) s))"

lemma opened_depth [simp]: "length (snd (opened st t s)) = convert_depth (length (snd s)) st"
  by (simp add: opened_def)

lemma out_tag_code:
  "(if constructed t \<and> is_string_type t then t AND NOT CBS_ASN1_CONSTRUCTED else t) = out_tag t"
  unfolding out_tag_def string_of_zero by (simp add: string_of_def)

lemma open_refines:
  assumes "malloc_ok m" "repr c s" "length (snd s) = d"
  shows "refines m c (convert_open m d st t c) (Some (opened st t s))"
  using add_asn1_refines [OF assms(1,2), of d "out_tag t"] assms(2,3) refines_same
  by (simp add: convert_open_def opened_def out_tag_code)

lemma close_refines:
  assumes "malloc_ok m" "repr c (put e (opened st t s))" "length (snd s) = d"
  shows "refines m c (CBB_flush m c d)
    (if st \<noteq> 0 \<or> length e \<le> 0xfffffffe then Some (put (out_element st t e) s) else None)"
proof (cases "st = 0")
  case True
  have "bflush d (put e (push Asn1 (put (tag_bytes (out_tag t)) s))) =
      map_option (\<lambda>x. put x (put (tag_bytes (out_tag t)) s)) (seal Asn1 e)"
    using assms(3) by (intro bflush_push) simp
  then have "bflush d (put e (opened st t s)) =
      (if length e \<le> 0xfffffffe then Some (put (out_element st t e) s) else None)"
    using True by (simp add: opened_def out_element_def der_element_def)
  then show ?thesis using flush_refines [OF assms(1,2), of d] assms(3) True by simp
next
  case False
  then show ?thesis using flush_refines [OF assms(1,2), of d] assms(3) by (simp add: opened_def out_element_def)
qed

lemma bytes_refines:
  assumes "malloc_ok m" "repr c (opened st t s)" "length (snd s) = d" "length body < 2 ^ 64"
  shows "refines m c (CBB_add_bytes m body (convert_depth d st) c) (Some (put body (opened st t s)))"
  using add_bytes.op_here [OF assms(1,4,2) opened_depth] unfolding assms(3) id_def .

lemma length_out_element: "length e \<le> length (out_element st t e)"
  by (simp add: out_element_def der_element_def)

lemma length_opened:
  assumes "st \<noteq> 0 \<or> length e \<le> 0xfffffffe"
  shows "length (bimage (put e (opened st t s))) \<le> length (bimage (put (out_element st t e) s))"
proof (cases "st = 0")
  case True
  then show ?thesis
    using length_der_len(2) [of "length e"] by (simp add: opened_def out_element_def der_element_def Suc_le_eq)
qed (simp add: opened_def out_element_def)

lemma refines_True: "refines m c (True, c') (Some s) \<Longrightarrow> repr c' s"
  by (simp add: refines_def)

lemma refines_total:
  assumes "refines m c r (Some s)" "malloc_total m" "roomy K (base c)" "length (bimage s) \<le> K"
  obtains c' where "r = (True, c')" "repr c' s" "roomy K (base c')"
  using assms by (cases r) (auto simp: refines_def)

lemma close_True:
  assumes "malloc_ok m" "repr c (put e (opened st t s))" "length (snd s) = d" "CBB_flush m c d = (True, c')"
  shows "st \<noteq> 0 \<or> length e \<le> 0xfffffffe" "repr c' (put (out_element st t e) s)"
  using close_refines [OF assms(1-3)] assms(4) by (auto simp: refines_def split: if_splits)

text \<open>With enough memory an element is opened and closed.\<close>

lemma open_total:
  assumes "malloc_ok m" "malloc_total m" "repr c s" "length (snd s) = d" "roomy K (base c)"
    "st \<noteq> 0 \<or> length e \<le> 0xfffffffe" "length (bimage (put (out_element st t e) s)) \<le> K"
  obtains c' where "convert_open m d st t c = (True, c')" "repr c' (opened st t s)" "roomy K (base c')"
    "length (bimage (put e (opened st t s))) \<le> K"
proof -
  have le: "length (bimage (put e (opened st t s))) \<le> K" using length_opened [OF assms(6)] assms(7) by (rule le_trans)
  then have "length (bimage (opened st t s)) \<le> K" by simp
  from refines_total [OF open_refines [OF assms(1,3,4)] assms(2,5) this] show ?thesis using that le by blast
qed

lemma close_total:
  assumes "malloc_ok m" "malloc_total m" "repr c (put e (opened st t s))" "length (snd s) = d" "roomy K (base c)"
    "st \<noteq> 0 \<or> length e \<le> 0xfffffffe" "length (bimage (put (out_element st t e) s)) \<le> K"
  obtains c' where "CBB_flush m c d = (True, c')" "repr c' (put (out_element st t e) s)" "roomy K (base c')"
proof -
  have "refines m c (CBB_flush m c d) (Some (put (out_element st t e) s))"
    using close_refines [OF assms(1,3,4)] unfolding if_P [OF assms(6)] .
  from refines_total [OF this assms(2,5,7)] show ?thesis using that .
qed

section \<open>Forests, with the string tag of the code\<close>

lemma definite_bound: "definite t lb n \<Longrightarrow> n < 2 ^ 32"
proof -
  have "(256 :: nat) ^ k \<le> 256 ^ 4" if "k \<in> {1..4}" for k using that by (intro power_increasing) auto
  then show "definite t lb n \<Longrightarrow> n < 2 ^ 32" unfolding definite_def ber_len_def by force
qed

lemma primitive_tag: "\<not> constructed t \<Longrightarrow> t AND NOT CBS_ASN1_CONSTRUCTED = t"
proof -
  assume "\<not> constructed t"
  then have z: "t AND CBS_ASN1_CONSTRUCTED = 0" by (simp add: constructed_def)
  have "bit t n \<and> bit CBS_ASN1_CONSTRUCTED n \<longleftrightarrow> False" for n
    unfolding bit_and_iff [symmetric] z by simp
  then show "t AND NOT CBS_ASN1_CONSTRUCTED = t"
    by (intro bit_word_eqI) (auto simp: bit_and_iff bit_not_iff)
qed

lemma ber_ok_Cons:
  "ber_ok st n (Cons t lb kids # ks) \<longleftrightarrow>
     valid_tag t \<and> constructed t \<and> 0 < n \<and>
     (case lb of None \<Rightarrow> True | Some lb \<Rightarrow> definite t lb (length (ber_bytes kids))) \<and>
     (st \<noteq> 0 \<longrightarrow> t AND NOT CBS_ASN1_CONSTRUCTED = st) \<and> ber_ok (convert_string st t) (n - 1) kids \<and>
     (st \<noteq> 0 \<or> length (ber_out (convert_string st t) kids) \<le> 0xfffffffe) \<and> ber_ok st n ks"
  by (auto simp: convert_string_def)

lemma ber_ok_Prim:
  "ber_ok st n (Prim t lb body # ks) \<longleftrightarrow>
     valid_tag t \<and> \<not> constructed t \<and> definite t lb (length body) \<and>
     (st \<noteq> 0 \<longrightarrow> t AND NOT CBS_ASN1_CONSTRUCTED = st) \<and> (st \<noteq> 0 \<or> length body \<le> 0xfffffffe) \<and> ber_ok st n ks"
  using primitive_tag by auto

lemma ber_out_Cons:
  "constructed t \<Longrightarrow> ber_out st (Cons t lb kids # ks) =
     out_element st t (ber_out (convert_string st t) kids) @ ber_out st ks"
  by (auto simp: out_element_def out_tag_def convert_string_def)

lemma ber_out_Prim:
  "\<not> constructed t \<Longrightarrow> ber_out st (Prim t lb body # ks) = out_element st t body @ ber_out st ks"
  by (simp add: out_element_def out_tag_def)

section \<open>Success means a forest\<close>

lemma converts_sound:
  "converts m inp d st eoc depth c ok r c' \<Longrightarrow> ok \<Longrightarrow> malloc_ok m \<Longrightarrow> repr c s \<Longrightarrow> length (snd s) = d \<Longrightarrow>
   \<exists>ks. depth \<le> kMaxDepth \<and> ber_ok st (kMaxDepth - depth) ks \<and> (\<not> eoc \<longrightarrow> r = []) \<and>
     inp = ber_bytes ks @ (if eoc then 0 # 0 # r else []) \<and> repr c' (put (ber_out st ks) s)"
proof (induction arbitrary: s rule: converts.induct)
  case (ends depth d st c)
  then show ?case by (intro exI [of _ "[]"]) simp
next
  case (eoc depth r d st c)
  then show ?case by (intro exI [of _ "[]"]) simp
next
  case (indefinite depth t st d c c1 r r2 c2 c3 eoc ok rest c')
  note hyps = indefinite.hyps and prems = indefinite.prems
  have c1: "repr c1 (opened st t s)" using open_refines [OF prems(2-4), of st t] hyps(5) by (simp add: refines_True)
  from indefinite.IH(1) [OF TrueI prems(2) c1] prems(4) obtain kids where
    kids: "depth + 1 \<le> kMaxDepth" "ber_ok (convert_string st t) (kMaxDepth - (depth + 1)) kids"
      "r = ber_bytes kids @ 0 # 0 # r2" "repr c2 (put (ber_out (convert_string st t) kids) (opened st t s))"
    by auto
  have c3: "st \<noteq> 0 \<or> length (ber_out (convert_string st t) kids) \<le> 0xfffffffe"
    "repr c3 (put (out_element st t (ber_out (convert_string st t) kids)) s)"
    using close_True [OF prems(2) kids(4) prems(4) hyps(7)] .
  from indefinite.IH(2) [OF prems(1,2) c3(2)] prems(4) obtain ks where
    ks: "ber_ok st (kMaxDepth - depth) ks" "\<not> eoc \<longrightarrow> rest = []" "r2 = ber_bytes ks @ (if eoc then 0 # 0 # rest else [])"
      "repr c' (put (ber_out st ks) (put (out_element st t (ber_out (convert_string st t) kids)) s))" by auto
  show ?case
    using kids ks c3 hyps
    by (intro exI [of _ "Cons t None kids # ks"]) (simp add: ber_ok_Cons ber_out_Cons del: ber_ok.simps(3) ber_out.simps(3))
next
  case (constructed depth t lb body st d c c1 r2 c2 c3 r eoc ok rest c')
  note hyps = constructed.hyps and prems = constructed.prems
  have c1: "repr c1 (opened st t s)" using open_refines [OF prems(2-4), of st t] hyps(6) by (simp add: refines_True)
  from constructed.IH(1) [OF TrueI prems(2) c1] prems(4) obtain kids where
    kids: "depth + 1 \<le> kMaxDepth" "ber_ok (convert_string st t) (kMaxDepth - (depth + 1)) kids"
      "body = ber_bytes kids" "repr c2 (put (ber_out (convert_string st t) kids) (opened st t s))"
    by auto
  have c3: "st \<noteq> 0 \<or> length (ber_out (convert_string st t) kids) \<le> 0xfffffffe"
    "repr c3 (put (out_element st t (ber_out (convert_string st t) kids)) s)"
    using close_True [OF prems(2) kids(4) prems(4) hyps(8)] .
  from constructed.IH(2) [OF prems(1,2) c3(2)] prems(4) obtain ks where
    ks: "ber_ok st (kMaxDepth - depth) ks" "\<not> eoc \<longrightarrow> rest = []" "r = ber_bytes ks @ (if eoc then 0 # 0 # rest else [])"
      "repr c' (put (ber_out st ks) (put (out_element st t (ber_out (convert_string st t) kids)) s))" by auto
  show ?case
    using kids ks c3 hyps
    by (intro exI [of _ "Cons t (Some lb) kids # ks"])
      (simp add: ber_ok_Cons ber_out_Cons del: ber_ok.simps(3) ber_out.simps(3))
next
  case (primitive depth t lb body st d c c1 c2 c3 r eoc ok rest c')
  note hyps = primitive.hyps and prems = primitive.prems
  have c1: "repr c1 (opened st t s)" using open_refines [OF prems(2-4), of st t] hyps(6) by (simp add: refines_True)
  have "length body < 2 ^ 64" using definite_bound [OF hyps(4)] by simp
  then have c2: "repr c2 (put body (opened st t s))"
    using bytes_refines [OF prems(2) c1 prems(4), of body] unfolding hyps(7) by (intro refines_True)
  have c3: "st \<noteq> 0 \<or> length body \<le> 0xfffffffe" "repr c3 (put (out_element st t body) s)"
    using close_True [OF prems(2) c2 prems(4) hyps(8)] .
  from primitive.IH [OF prems(1,2) c3(2)] prems(4) obtain ks where
    ks: "ber_ok st (kMaxDepth - depth) ks" "\<not> eoc \<longrightarrow> rest = []" "r = ber_bytes ks @ (if eoc then 0 # 0 # rest else [])"
      "repr c' (put (ber_out st ks) (put (out_element st t body) s))" by auto
  show ?case
    using ks c3 hyps
    by (intro exI [of _ "Prim t lb body # ks"])
      (simp add: ber_ok_Prim ber_out_Prim del: ber_ok.simps(2) ber_out.simps(2))
qed simp

section \<open>Every forest is converted\<close>

lemma converts_complete:
  assumes m: "malloc_ok m" "malloc_total m"
  shows "ber_ok st (kMaxDepth - depth) ks \<Longrightarrow> depth \<le> kMaxDepth \<Longrightarrow> repr c s \<Longrightarrow> length (snd s) = d \<Longrightarrow>
   roomy K (base c) \<Longrightarrow> length (bimage (put (ber_out st ks) s)) \<le> K \<Longrightarrow>
   \<exists>c'. converts m (ber_bytes ks @ (if eoc then 0 # 0 # r else [])) d st eoc depth c True (if eoc then r else []) c' \<and>
     repr c' (put (ber_out st ks) s) \<and> roomy K (base c')"
proof (induction ks arbitrary: st depth c s d eoc r rule: ber_bytes.induct)
  case 1
  then show ?case using converts.ends [of depth m d st c] converts.eoc [of depth m r d st c] by (cases eoc) auto
next
  case (2 t lb body ks)
  note prems = "2.prems"(2-5)
  from "2.prems"(1) have ok: "valid_tag t" "\<not> constructed t" "definite t lb (length body)"
    "st \<noteq> 0 \<Longrightarrow> t AND NOT CBS_ASN1_CONSTRUCTED = st" "st \<noteq> 0 \<or> length body \<le> 0xfffffffe" "ber_ok st (kMaxDepth - depth) ks"
    unfolding ber_ok_Prim by auto
  from "2.prems"(6) have K: "length (bimage (put (ber_out st ks) (put (out_element st t body) s))) \<le> K"
    by (simp add: ber_out_Prim [OF ok(2)] del: ber_out.simps(2))
  then have K1: "length (bimage (put (out_element st t body) s)) \<le> K" by simp
  obtain c1 where c1: "convert_open m d st t c = (True, c1)" "repr c1 (opened st t s)" "roomy K (base c1)"
    "length (bimage (put body (opened st t s))) \<le> K" using open_total [OF m prems(2-4) ok(5) K1] .
  have b: "length body < 2 ^ 64" using definite_bound [OF ok(3)] by simp
  obtain c2 where c2: "CBB_add_bytes m body (convert_depth d st) c1 = (True, c2)" "repr c2 (put body (opened st t s))"
    "roomy K (base c2)" using refines_total [OF bytes_refines [OF m(1) c1(2) prems(3) b] m(2) c1(3,4)] .
  obtain c3 where c3: "CBB_flush m c2 d = (True, c3)" "repr c3 (put (out_element st t body) s)" "roomy K (base c3)"
    using close_total [OF m c2(2) prems(3) c2(3) ok(5) K1] .
  from "2.IH" [OF ok(6) prems(1) c3(2) _ c3(3) K, of d eoc r] prems(3) obtain c' where
    c': "converts m (ber_bytes ks @ (if eoc then 0 # 0 # r else [])) d st eoc depth c3 True (if eoc then r else []) c'"
      "repr c' (put (ber_out st ks) (put (out_element st t body) s))" "roomy K (base c')" by auto
  show ?case
    using converts.primitive [OF prems(1) ok(1-4) c1(1) c2(1) c3(1) c'(1)] c'(2,3)
    by (intro exI [of _ c']) (auto simp: ber_out_Prim [OF ok(2)] simp del: ber_out.simps(2))
next
  case (3 t kids ks)
  note prems = "3.prems"(2-5)
  let ?e = "ber_out (convert_string st t) kids"
  from "3.prems"(1) have ok: "valid_tag t" "constructed t" "0 < kMaxDepth - depth"
    "st \<noteq> 0 \<Longrightarrow> t AND NOT CBS_ASN1_CONSTRUCTED = st" "st \<noteq> 0 \<or> length ?e \<le> 0xfffffffe"
    "ber_ok st (kMaxDepth - depth) ks" "ber_ok (convert_string st t) (kMaxDepth - (depth + 1)) kids"
    unfolding ber_ok_Cons by auto
  from ok(3) have dep: "depth + 1 \<le> kMaxDepth" by simp
  from "3.prems"(6) have K: "length (bimage (put (ber_out st ks) (put (out_element st t ?e) s))) \<le> K"
    by (simp add: ber_out_Cons [OF ok(2)] del: ber_out.simps(3))
  then have K1: "length (bimage (put (out_element st t ?e) s)) \<le> K" by simp
  obtain c1 where c1: "convert_open m d st t c = (True, c1)" "repr c1 (opened st t s)" "roomy K (base c1)"
    "length (bimage (put ?e (opened st t s))) \<le> K" using open_total [OF m prems(2-4) ok(5) K1] .
  let ?r = "ber_bytes ks @ (if eoc then 0 # 0 # r else [])"
  from "3.IH"(1) [OF ok(7) dep c1(2) opened_depth c1(3,4), of True ?r] prems(3) obtain c2 where
    c2: "converts m (ber_bytes kids @ 0 # 0 # ?r) (convert_depth d st) (convert_string st t) True (depth + 1) c1 True ?r c2"
      "repr c2 (put ?e (opened st t s))" "roomy K (base c2)" by auto
  obtain c3 where c3: "CBB_flush m c2 d = (True, c3)" "repr c3 (put (out_element st t ?e) s)" "roomy K (base c3)"
    using close_total [OF m c2(2) prems(3) c2(3) ok(5) K1] .
  from "3.IH"(2) [OF ok(6) prems(1) c3(2) _ c3(3) K, of d eoc r] prems(3) obtain c' where
    c': "converts m ?r d st eoc depth c3 True (if eoc then r else []) c'"
      "repr c' (put (ber_out st ks) (put (out_element st t ?e) s))" "roomy K (base c')" by auto
  show ?case
    using converts.indefinite [OF prems(1) ok(1,2,4) c1(1) c2(1) c3(1) c'(1)] c'(2,3)
    by (intro exI [of _ c']) (auto simp: ber_out_Cons [OF ok(2)] simp del: ber_out.simps(3))
next
  case (4 t lb kids ks)
  note prems = "4.prems"(2-5)
  let ?e = "ber_out (convert_string st t) kids"
  from "4.prems"(1) have ok: "valid_tag t" "constructed t" "0 < kMaxDepth - depth"
    "st \<noteq> 0 \<Longrightarrow> t AND NOT CBS_ASN1_CONSTRUCTED = st" "st \<noteq> 0 \<or> length ?e \<le> 0xfffffffe"
    "ber_ok st (kMaxDepth - depth) ks" "ber_ok (convert_string st t) (kMaxDepth - (depth + 1)) kids"
    "definite t lb (length (ber_bytes kids))"
    unfolding ber_ok_Cons by auto
  from ok(3) have dep: "depth + 1 \<le> kMaxDepth" by simp
  from "4.prems"(6) have K: "length (bimage (put (ber_out st ks) (put (out_element st t ?e) s))) \<le> K"
    by (simp add: ber_out_Cons [OF ok(2)] del: ber_out.simps(3))
  then have K1: "length (bimage (put (out_element st t ?e) s)) \<le> K" by simp
  obtain c1 where c1: "convert_open m d st t c = (True, c1)" "repr c1 (opened st t s)" "roomy K (base c1)"
    "length (bimage (put ?e (opened st t s))) \<le> K" using open_total [OF m prems(2-4) ok(5) K1] .
  let ?r = "ber_bytes ks @ (if eoc then 0 # 0 # r else [])"
  from "4.IH"(1) [OF ok(7) dep c1(2) opened_depth c1(3,4), of False r] prems(3) obtain c2 where
    c2: "converts m (ber_bytes kids) (convert_depth d st) (convert_string st t) False (depth + 1) c1 True [] c2"
      "repr c2 (put ?e (opened st t s))" "roomy K (base c2)" by auto
  obtain c3 where c3: "CBB_flush m c2 d = (True, c3)" "repr c3 (put (out_element st t ?e) s)" "roomy K (base c3)"
    using close_total [OF m c2(2) prems(3) c2(3) ok(5) K1] .
  from "4.IH"(2) [OF ok(6) prems(1) c3(2) _ c3(3) K, of d eoc r] prems(3) obtain c' where
    c': "converts m ?r d st eoc depth c3 True (if eoc then r else []) c'"
      "repr c' (put (ber_out st ks) (put (out_element st t ?e) s))" "roomy K (base c')" by auto
  show ?case
    using converts.constructed [OF prems(1) ok(1,2,8,4) c1(1) c2(1) c3(1) c'(1)] c'(2,3)
    by (intro exI [of _ c']) (auto simp: ber_out_Cons [OF ok(2)] simp del: ber_out.simps(3))
qed

end
