(* ===== verification/BER_Props.thy ===== *)
theory BER_Props
  imports BER_Forest
begin

text \<open>
  Properties of \<open>ber.c\<close>: looking for BER, the conversion as a function on forests, its output, and
  implicitly tagged strings.
\<close>

section \<open>Looking for BER\<close>

text \<open>The forest is DER: shortest length fields, no indefinite forms and no constructed strings.\<close>

fun der_only :: "ber list \<Rightarrow> bool" where
  "der_only [] \<longleftrightarrow> True"
| "der_only (Prim t lb body # ks) \<longleftrightarrow> lb = der_len (length body) \<and> der_only ks"
| "der_only (Cons t None kids # ks) \<longleftrightarrow> False"
| "der_only (Cons t (Some lb) kids # ks) \<longleftrightarrow>
     lb = der_len (length (ber_bytes kids)) \<and> string_of t = 0 \<and> der_only kids \<and> der_only ks"

lemma find_ber_step:
  assumes "depth \<le> kMaxDepth" "inp \<noteq> []" "CBS_get_any_ber_asn1_element inp = (Some e, r)"
  shows "cbs_find_ber inp depth =
    (if ber_found e then Some True
     else if constructed (elt_tag e) then
       (if string_of (elt_tag e) \<noteq> 0 then Some True
        else case CBS_skip (contents e) (header_len e) of
               (False, _) \<Rightarrow> None
             | (True, body) \<Rightarrow>
                 (case cbs_find_ber body (depth + 1) of
                    None \<Rightarrow> None | Some True \<Rightarrow> Some True | Some False \<Rightarrow> cbs_find_ber r depth))
     else cbs_find_ber r depth)"
  using assms by (subst cbs_find_ber.simps) (simp add: constructed_def string_of_zero)

lemma find_ber_forest:
  "ber_ok 0 (kMaxDepth - depth) ks \<Longrightarrow> depth \<le> kMaxDepth \<Longrightarrow> cbs_find_ber (ber_bytes ks) depth = Some (\<not> der_only ks)"
proof (induction ks arbitrary: depth rule: ber_bytes.induct)
  case 1
  then show ?case by (subst cbs_find_ber.simps) simp
next
  case (2 t lb body ks)
  then obtain e where e: "CBS_get_any_ber_asn1_element (tag_bytes t @ lb @ body @ ber_bytes ks) = (Some e, ber_bytes ks)"
    "elt_tag e = t" "ber_found e \<longleftrightarrow> lb \<noteq> der_len (length body)"
    using ber_element_definite [of t lb body "ber_bytes ks"] by (metis ber_ok.simps(2))
  show ?case using 2 e find_ber_step [OF "2.prems"(2) _ e(1)] by simp
next
  case (3 t kids ks)
  then obtain e where e: "CBS_get_any_ber_asn1_element (tag_bytes t @ 0x80 # ber_bytes kids @ [0, 0] @ ber_bytes ks) =
      (Some e, ber_bytes kids @ [0, 0] @ ber_bytes ks)" "ber_found e"
    using ber_element_indefinite [of t "ber_bytes kids @ [0, 0] @ ber_bytes ks"] by (metis ber_ok.simps(3))
  show ?case using e find_ber_step [OF "3.prems"(2) _ e(1)] by simp
next
  case (4 t lb kids ks)
  then have ok: "valid_tag t" "constructed t" "definite t lb (length (ber_bytes kids))" "0 < kMaxDepth - depth"
    "ber_ok (string_of t) (kMaxDepth - (depth + 1)) kids" "ber_ok 0 (kMaxDepth - depth) ks" by auto
  obtain e where e: "CBS_get_any_ber_asn1_element (tag_bytes t @ lb @ ber_bytes kids @ ber_bytes ks) = (Some e, ber_bytes ks)"
    "elt_tag e = t" "CBS_skip (contents e) (header_len e) = (True, ber_bytes kids)"
    "ber_found e \<longleftrightarrow> lb \<noteq> der_len (length (ber_bytes kids))"
    using ber_element_definite [OF ok(1,3), of "ber_bytes ks"] by metis
  from ok(4) have dep: "depth + 1 \<le> kMaxDepth" by simp
  have kids: "cbs_find_ber (ber_bytes kids) (depth + 1) = Some (\<not> der_only kids)" if "string_of t = 0"
    using "4.IH"(1) [OF _ dep] ok(5) that by simp
  show ?case
    using find_ber_step [OF "4.prems"(2) _ e(1)] e kids ok(2) "4.IH"(2) [OF ok(6) "4.prems"(2)]
    by (cases "der_only kids") simp_all
qed

section \<open>The conversion\<close>

text \<open>C29. \<open>CBS_asn1_ber_to_der\<close> returns on every input.\<close>

theorem ber_to_der_returns: "\<exists>res. CBS_asn1_ber_to_der m inp = Some res"
proof (cases "cbs_find_ber inp 0 = Some True")
  case True
  show ?thesis
  proof (cases "CBB_init m (length inp)")
    case (Some c)
    obtain ok r c' where "cbs_convert_ber m inp 0 0 False 0 c = Some (ok, r, c')"
      using convert_returns [of 0 m inp 0 False 0 c] by auto
    with True Some show ?thesis by (auto simp: CBS_asn1_ber_to_der_def split: prod.splits option.splits)
  qed (simp add: CBS_asn1_ber_to_der_def True)
next
  case False
  then show ?thesis
    by (auto simp: CBS_asn1_ber_to_der_def split: option.splits prod.splits bool.splits)
qed

lemma ber_to_der_sound:
  assumes "malloc_ok m" "length inp < 2 ^ 64" "CBS_asn1_ber_to_der m inp = Some (Some (out, True), rest)"
  shows "rest = [] \<and> (\<exists>ks. ber_ok 0 kMaxDepth ks \<and> \<not> der_only ks \<and> inp = ber_bytes ks \<and> out = ber_out 0 ks)"
proof -
  from assms(3) have find: "cbs_find_ber inp 0 = Some True"
    by (auto simp: CBS_asn1_ber_to_der_def split: option.splits prod.splits bool.splits)
  with assms(3) obtain c where init: "CBB_init m (length inp) = Some c"
    by (auto simp: CBS_asn1_ber_to_der_def split: option.splits)
  obtain ok r c' where conv: "cbs_convert_ber m inp 0 0 False 0 c = Some (ok, r, c')"
    using convert_returns [of 0 m inp 0 False 0 c] by auto
  obtain res c2 where fin: "CBB_finish m True 0 c' = (res, c2)" by force
  from assms(3) have "ok \<and> r = rest \<and> (\<exists>buf n. res = Some (buf, n) \<and> out = take n buf)"
    by (cases res) (auto simp: CBS_asn1_ber_to_der_def find init conv fin split: if_splits)
  with find init conv fin obtain buf n where f: "cbs_find_ber inp 0 = Some True" "CBB_init m (length inp) = Some c"
    "cbs_convert_ber m inp 0 0 False 0 c = Some (True, rest, c')" "CBB_finish m True 0 c' = (Some (buf, n), c2)"
    "out = take n buf" by auto
  from converts_sound [OF converts_if_returns [OF f(3), simplified] TrueI assms(1) init_repr(1) [OF assms(1,2) f(2)]]
  obtain ks where ks: "ber_ok 0 kMaxDepth ks" "rest = []" "inp = ber_bytes ks" "repr c' (ber_out 0 ks, [])" by auto
  have "out = ber_out 0 ks" using finish_Some [OF assms(1) ks(4) f(4)] f(5) by simp
  moreover have "\<not> der_only ks" using find_ber_forest [of 0 ks] ks(1,3) f(1) by simp
  ultimately show ?thesis using ks by blast
qed

lemma ber_to_der_complete:
  assumes "malloc_ok m" "malloc_total m" "length (ber_bytes ks) \<le> 2 ^ 62" "length (ber_out 0 ks) \<le> 2 ^ 62"
    "ber_ok 0 kMaxDepth ks" "\<not> der_only ks"
  shows "CBS_asn1_ber_to_der m (ber_bytes ks) = Some (Some (ber_out 0 ks, True), [])"
proof -
  have find: "cbs_find_ber (ber_bytes ks) 0 = Some True" using find_ber_forest [of 0 ks] assms(5,6) by simp
  obtain c where c: "CBB_init m (length (ber_bytes ks)) = Some c" using init_total [OF assms(2,3)] by blast
  have len: "length (ber_bytes ks) < 2 ^ 64" "length (ber_bytes ks) \<le> 2 ^ 63" using assms(3) by simp_all
  note r = init_repr(1) [OF assms(1) len(1) c] init_repr(2) [OF assms(1) len(1) c len(2), of "2 ^ 62"]
  from converts_complete [OF assms(1,2) _ _ r(1), of 0 0 ks 0 "2 ^ 62" False] assms(4,5) r(2)
  obtain c' where c': "converts m (ber_bytes ks) 0 0 False 0 c True [] c'" "repr c' (ber_out 0 ks, [])"
    "roomy (2 ^ 62) (base c')" by auto
  have conv: "cbs_convert_ber m (ber_bytes ks) 0 0 False 0 c = Some (True, [], c')"
    using returns_if_converts [OF c'(1)] by simp
  obtain buf n c2 where f: "CBB_finish m True 0 c' = (Some (buf, n), c2)"
    using finish_total [OF assms(1) c'(2) _ assms(2) c'(3) assms(4)] by auto
  have "take n buf = ber_out 0 ks" using finish_Some [OF assms(1) c'(2) f] by simp
  then show ?thesis by (simp add: CBS_asn1_ber_to_der_def find c conv f)
qed

text \<open>C6. The inputs that \<open>CBS_asn1_ber_to_der\<close> converts are those of well-formed BER forests that are not
  DER, and the result is the DER of the whole forest.\<close>

theorem ber_to_der_converts:
  assumes "malloc_ok m" "malloc_total m" "length inp \<le> 2 ^ 62" "length out \<le> 2 ^ 62"
  shows "CBS_asn1_ber_to_der m inp = Some (Some (out, True), rest) \<longleftrightarrow>
    rest = [] \<and> (\<exists>ks. ber_ok 0 kMaxDepth ks \<and> \<not> der_only ks \<and> inp = ber_bytes ks \<and> out = ber_out 0 ks)"
  using ber_to_der_sound [OF assms(1), of inp out rest] ber_to_der_complete [OF assms(1,2)] assms(3,4) by auto

lemma malloc_total_zero [simp]: "malloc_total zero_malloc"
  by (simp add: malloc_total_def zero_malloc_def)

text \<open>An OCTET STRING in two parts, of indefinite length.\<close>

definition split_string :: "ber list" where
  "split_string = [Cons 0x20000004 None [Prim 4 [1] [7], Prim 4 [2] [8, 9]]]"

lemma split_string_tags:
  "tag_bytes 4 = [4]" "tag_bytes 0x20000004 = [0x24]" "string_of 0x20000004 = 4"
  "valid_tag 4" "valid_tag 0x20000004" "\<not> constructed 4" "constructed 0x20000004"
  by (simp_all add: tag_bytes_def string_of_def is_string_type_def string_tags valid_tag_def constructed_def tag_consts)

lemma split_string:
  "ber_bytes split_string = [0x24, 0x80, 4, 1, 7, 4, 2, 8, 9, 0, 0]" "ber_out 0 split_string = [4, 3, 7, 8, 9]"
  "ber_ok 0 kMaxDepth split_string" "\<not> der_only split_string"
  by (simp_all add: split_string_def split_string_tags der_element_def der_len_def definite_def ber_len_def kMaxDepth_def)

theorem ber_to_der_converts_witness:
  "CBS_asn1_ber_to_der zero_malloc [0x24, 0x80, 4, 1, 7, 4, 2, 8, 9, 0, 0] = Some (Some ([4, 3, 7, 8, 9], True), [])"
proof -
  have "CBS_asn1_ber_to_der zero_malloc [0x24, 0x80, 4, 1, 7, 4, 2, 8, 9, 0, 0] = Some (Some ([4, 3, 7, 8, 9], True), []) \<longleftrightarrow>
    [] = ([] :: bytes) \<and> (\<exists>ks. ber_ok 0 kMaxDepth ks \<and> \<not> der_only ks \<and>
      [0x24, 0x80, 4, 1, 7, 4, 2, 8, 9, 0, 0] = ber_bytes ks \<and> [4, 3, 7, 8, 9] = ber_out 0 ks)"
    by (rule ber_to_der_converts) simp_all
  then show ?thesis using split_string by metis
qed

section \<open>The output\<close>

text \<open>The DER forest of the converted bytes.\<close>

fun der_forest :: "ber list \<Rightarrow> ber list" where
  "der_forest [] = []"
| "der_forest (Prim t lb body # ks) = Prim t (der_len (length body)) body # der_forest ks"
| "der_forest (Cons t lb kids # ks) =
    (if string_of t = 0
     then Cons t (Some (der_len (length (ber_out 0 kids)))) (der_forest kids)
     else Prim (string_of t) (der_len (length (ber_out (string_of t) kids))) (ber_out (string_of t) kids)) # der_forest ks"

lemma der_forest_bytes: "ber_bytes (der_forest ks) = ber_out 0 ks"
  by (induction ks rule: der_forest.induct) (auto simp: der_element_def)

lemma der_forest_out: "ber_out 0 (der_forest ks) = ber_out 0 ks"
proof (induction ks rule: der_forest.induct)
  case (3 t lb kids ks)
  have "string_of t = t AND NOT CBS_ASN1_CONSTRUCTED" if "string_of t \<noteq> 0" using that by (auto simp: string_of_def split: if_splits)
  then show ?case using 3 by auto
qed auto

lemma definite_der: "n \<le> 0xfffffffe \<Longrightarrow> definite t (der_len n) n"
proof -
  assume "n \<le> 0xfffffffe"
  then have "ber_len False t (der_len n) n False False" by (simp add: ber_len_strict)
  then show ?thesis unfolding definite_def ber_len_def by blast
qed

lemma string_of_tag:
  assumes "string_of t \<noteq> 0"
  shows "valid_tag (string_of t)" "\<not> constructed (string_of t)"
proof -
  show "\<not> constructed (string_of t)" by (simp add: constructed_def string_of_primitive)
  then show "valid_tag (string_of t)" using assms by (simp add: valid_tag_def primitive_tag)
qed

lemma der_forest_ok: "ber_ok 0 n ks \<Longrightarrow> ber_ok 0 n (der_forest ks) \<and> der_only (der_forest ks)"
proof (induction ks arbitrary: n rule: der_forest.induct)
  case (3 t lb kids ks)
  then show ?case
    using string_of_tag [of t] by (auto simp: definite_der der_forest_bytes der_forest_out)
qed (auto simp: definite_der)

text \<open>C28. The output of the conversion is DER and stays as it is when it is converted again.\<close>

theorem ber_to_der_output:
  assumes "malloc_ok m" "length inp \<le> 2 ^ 62" "CBS_asn1_ber_to_der m inp = Some (Some (out, True), rest)"
  shows "cbs_find_ber out 0 = Some False"
proof -
  have "length inp < 2 ^ 64" using assms(2) by simp
  from ber_to_der_sound [OF assms(1) this assms(3)] obtain ks where ks: "ber_ok 0 kMaxDepth ks" "out = ber_out 0 ks"
    by blast
  from der_forest_ok [OF ks(1)] find_ber_forest [of 0 "der_forest ks"] show ?thesis
    by (simp add: der_forest_bytes ks(2))
qed

theorem ber_to_der_output_witness: "cbs_find_ber [4, 3, 7, 8, 9] 0 = Some False"
proof -
  have "CBS_asn1_ber_to_der zero_malloc (ber_bytes split_string) = Some (Some (ber_out 0 split_string, True), [])"
    using split_string by (intro ber_to_der_complete) simp_all
  then have "CBS_asn1_ber_to_der zero_malloc (ber_bytes split_string) = Some (Some ([4, 3, 7, 8, 9], True), [])"
    by (simp add: split_string)
  from ber_to_der_output [OF _ _ this] show ?thesis by (simp add: split_string)
qed

section \<open>Implicitly tagged strings\<close>

lemma implicit_loop_sound:
  "implicit_string_loop m child inner c = (True, c') \<Longrightarrow> malloc_ok m \<Longrightarrow> repr c (b, []) \<Longrightarrow> length child < 2 ^ 64 \<Longrightarrow>
   \<exists>chunks. list_all (\<lambda>x. valid_element (x, inner)) chunks \<and> child = concat (map (der_element inner) chunks) \<and>
     repr c' (b @ concat chunks, [])"
proof (induction m child inner c arbitrary: b rule: implicit_string_loop.induct)
  case (1 m child inner c)
  show ?case
  proof (cases "child = []")
    case True
    with "1.prems" show ?thesis by (intro exI [of _ "[]"]) (simp add: implicit_string_loop.simps)
  next
    case False
    with "1.prems"(1) obtain chunk r where g: "CBS_get_asn1 child inner = (Some chunk, r)"
      by (subst (asm) implicit_string_loop.simps) (auto split: option.splits prod.splits)
    obtain ok c1 where a: "CBB_add_bytes m chunk 0 c = (ok, c1)" by force
    from "1.prems"(1) False g a have ok: "ok" "implicit_string_loop m r inner c1 = (True, c')"
      by (subst (asm) implicit_string_loop.simps, cases ok, auto)+
    from g have e: "valid_element (chunk, inner)" "child = der_element inner chunk @ r" by (simp_all add: get_asn1_iff)
    then have "length chunk < 2 ^ 64" using "1.prems"(4) by (simp add: der_element_def)
    from add_bytes.op_here [OF "1.prems"(2) this "1.prems"(3), of 0] a ok(1) have c1: "repr c1 (b @ chunk, [])"
      by (simp add: refines_def)
    have "length r < 2 ^ 64" using "1.prems"(4) e(2) by simp
    have aT: "(True, c1) = CBB_add_bytes m chunk 0 c" using a ok(1) by simp
    from "1.IH" [OF False g [symmetric] refl aT refl ok(2) "1.prems"(2) c1 \<open>length r < 2 ^ 64\<close>] obtain chunks where
      "list_all (\<lambda>x. valid_element (x, inner)) chunks" "r = concat (map (der_element inner) chunks)"
      "repr c' ((b @ chunk) @ concat chunks, [])" by auto
    then show ?thesis using e by (intro exI [of _ "chunk # chunks"]) simp
  qed
qed

lemma implicit_loop_complete:
  assumes "malloc_ok m" "malloc_total m"
  shows "list_all (\<lambda>x. valid_element (x, inner)) chunks \<Longrightarrow> repr c (b, []) \<Longrightarrow> roomy K (base c) \<Longrightarrow>
    length (b @ concat chunks) \<le> K \<Longrightarrow>
   \<exists>c'. implicit_string_loop m (concat (map (der_element inner) chunks)) inner c = (True, c') \<and>
     repr c' (b @ concat chunks, []) \<and> roomy K (base c')"
proof (induction chunks arbitrary: b c)
  case Nil
  then show ?case by (subst implicit_string_loop.simps) simp
next
  case (Cons chunk chunks)
  have "length chunk < 2 ^ 64" using Cons.prems(1) by (simp add: valid_element_def)
  note w = add_bytes.op_here [OF assms(1) this Cons.prems(2), of 0, simplified]
  obtain c1 where c1: "CBB_add_bytes m chunk 0 c = (True, c1)" "repr c1 (b @ chunk, [])" "roomy K (base c1)"
    using refines_total [OF w assms(2) Cons.prems(3)] Cons.prems(4) by auto
  from Cons.IH [OF _ c1(2,3)] Cons.prems(1,4) obtain c' where
    "implicit_string_loop m (concat (map (der_element inner) chunks)) inner c1 = (True, c')"
    "repr c' (b @ chunk @ concat chunks, [])" "roomy K (base c')" by auto
  moreover have "CBS_get_asn1 (der_element inner chunk @ concat (map (der_element inner) chunks)) inner =
      (Some chunk, concat (map (der_element inner) chunks))" using Cons.prems(1) by (simp add: get_asn1_iff)
  ultimately show ?case using c1(1)
    by (subst implicit_string_loop.simps) (simp add: der_element_def)
qed

lemma constructed_or: "constructed (t OR CBS_ASN1_CONSTRUCTED)"
proof -
  have "bit ((t OR CBS_ASN1_CONSTRUCTED) AND CBS_ASN1_CONSTRUCTED) 29"
    by (simp add: bit_simps tag_consts bit_numeral_rec)
  then show ?thesis unfolding constructed_def by force
qed

lemma implicit_not_peeked:
  assumes "\<not> constructed outer" "CBS_get_asn1 inp (outer OR CBS_ASN1_CONSTRUCTED) = (Some child, r)"
  shows "\<not> CBS_peek_asn1_tag inp outer"
proof
  assume "CBS_peek_asn1_tag inp outer"
  then have "\<exists>y. parse_asn1_tag inp = (Some outer, y)"
    by (auto simp: peek_iff parse_asn1_tag_iff prefix_def)
  moreover have "\<exists>y. parse_asn1_tag inp = (Some (outer OR CBS_ASN1_CONSTRUCTED), y)"
    using assms(2) by (auto simp: get_asn1_iff parse_asn1_tag_iff valid_element_def der_element_def)
  ultimately have "outer = outer OR CBS_ASN1_CONSTRUCTED" by auto
  then show False using constructed_or [of outer] assms(1) by simp
qed

interpretation der_of: canonical_code "der_element t" "\<lambda>c. CBS_get_asn1 c t" "\<lambda>x. valid_element (x, t)" for t
  by unfold_locales (auto simp: get_asn1_iff der_element_def)

text \<open>The loop and \<open>CBB_finish\<close> together.\<close>

definition implicit_result :: "malloc \<Rightarrow> cbs \<Rightarrow> tag \<Rightarrow> cbb \<Rightarrow> bytes option" where
  "implicit_result m child inner c =
    (case implicit_string_loop m child inner c of
       (False, _) \<Rightarrow> None
     | (True, result) \<Rightarrow>
        (case CBB_finish m True 0 result of (None, _) \<Rightarrow> None | (Some (buf, len), _) \<Rightarrow> Some (take len buf)))"

lemma implicit_result:
  assumes "malloc_ok m" "malloc_total m" "CBB_init m n = Some c" "n \<le> 2 ^ 62" "length child \<le> n"
  shows "implicit_result m child inner c = map_option concat (read_all (\<lambda>c. CBS_get_asn1 c inner) child)"
proof -
  have len: "n < 2 ^ 64" "n \<le> 2 ^ 63" using assms(4) by simp_all
  note r = init_repr(1) [OF assms(1) len(1) assms(3)] init_repr(2) [OF assms(1) len(1) assms(3) len(2), of "2 ^ 62"]
  obtain ok c' where loop: "implicit_string_loop m child inner c = (ok, c')" by force
  show ?thesis
  proof (cases "read_all (\<lambda>c. CBS_get_asn1 c inner) child")
    case None
    have "length child < 2 ^ 64" using assms(4,5) by simp
    then have "\<not> ok" using implicit_loop_sound [of m child inner c c' "[]"] loop assms(1) r(1) None der_of.read_all_enc by auto
    then show ?thesis by (simp add: implicit_result_def loop None)
  next
    case (Some chunks)
    then have ch: "list_all (\<lambda>x. valid_element (x, inner)) chunks" "child = concat (map (der_element inner) chunks)"
      by (simp_all add: der_of.read_all_iff)
    have "length (concat chunks) \<le> length child"
      unfolding ch(2) by (induction chunks) (simp_all add: der_element_def)
    then have le: "length ([] @ concat chunks) \<le> 2 ^ 62" using assms(4,5) by simp
    from implicit_loop_complete [OF assms(1,2) ch(1) r(1) _ le] r(2) loop ch(2)
    have ok: "ok" "repr c' (concat chunks, [])" "roomy (2 ^ 62) (base c')" by auto
    obtain buf n c2 where f: "CBB_finish m True 0 c' = (Some (buf, n), c2)"
      using finish_total [OF assms(1) ok(2) _ assms(2) ok(3)] le by auto
    have "take n buf = concat chunks" using finish_Some [OF assms(1) ok(2) f] by simp
    then show ?thesis by (simp add: implicit_result_def loop ok(1) f Some)
  qed
qed

text \<open>\<open>CBS_get_asn1_implicit_string\<close> accepts the primitive form with its contents, and the constructed form
  of DER strings one level deep with the concatenation of their contents.\<close>

theorem implicit_string_agrees:
  assumes "malloc_ok m" "malloc_total m" "length inp \<le> 2 ^ 62" "\<not> constructed outer" "\<not> constructed inner"
    "string_of inner \<noteq> 0"
  shows "CBS_get_asn1_implicit_string m inp outer inner = Some (Some (out, concatenated), rest) \<longleftrightarrow>
    (if concatenated
     then \<exists>chunks. list_all (\<lambda>x. valid_element (x, inner)) chunks \<and> out = concat chunks \<and>
       CBS_get_asn1 inp (outer OR CBS_ASN1_CONSTRUCTED) = (Some (concat (map (der_element inner) chunks)), rest)
     else CBS_get_asn1 inp outer = (Some out, rest))"
proof (cases "CBS_peek_asn1_tag inp outer")
  case True
  then show ?thesis
    using assms(4-6) implicit_not_peeked [OF assms(4)]
    by (auto simp: CBS_get_asn1_implicit_string_def constructed_def string_of_zero split: option.splits prod.splits)
next
  case False
  have not_outer: "CBS_get_asn1 inp outer \<noteq> (Some x, r)" for x r
    using False by (auto simp: get_asn1_iff peek_iff valid_element_def der_element_def prefix_def)
  obtain c where c: "CBB_init m (length inp) = Some c" using init_total [OF assms(2,3)] by blast
  have unf: "CBS_get_asn1_implicit_string m inp outer inner =
    (case CBS_get_asn1 inp (outer OR CBS_ASN1_CONSTRUCTED) of
       (None, inp) \<Rightarrow> Some (None, inp)
     | (Some child, inp) \<Rightarrow> Some (map_option (\<lambda>out. (out, True)) (implicit_result m child inner c), inp))"
    using assms(4-6) False
    by (auto simp: CBS_get_asn1_implicit_string_def implicit_result_def constructed_def string_of_zero c
        split: option.splits prod.splits bool.splits)
  obtain g r where g: "CBS_get_asn1 inp (outer OR CBS_ASN1_CONSTRUCTED) = (g, r)" by force
  show ?thesis
  proof (cases g)
    case None
    with g not_outer show ?thesis by (simp add: unf)
  next
    case (Some child)
    have "length child \<le> length inp" using g Some by (auto simp: get_asn1_iff der_element_def)
    from implicit_result [OF assms(1,2) c assms(3) this, of inner] g Some not_outer show ?thesis
      by (auto simp: unf der_of.read_all_iff)
  qed
qed

theorem implicit_string_agrees_witness:
  "CBS_get_asn1_implicit_string zero_malloc [0xa0, 6, 4, 1, 7, 4, 1, 8, 5] 0x80000000 4 = Some (Some ([7, 8], True), [5])"
proof -
  have t: "0x80000000 OR CBS_ASN1_CONSTRUCTED = (0xa0000000 :: tag)" "tag_bytes 0xa0000000 = [0xa0]"
    "valid_tag 0xa0000000" "\<not> constructed 0x80000000" "string_of 4 \<noteq> 0"
    by (simp_all add: tag_bytes_def string_of_def is_string_type_def string_tags valid_tag_def constructed_def tag_consts)
  have "CBS_get_asn1 [0xa0, 6, 4, 1, 7, 4, 1, 8, 5] (0x80000000 OR CBS_ASN1_CONSTRUCTED) =
      (Some (concat (map (der_element 4) [[7], [8]])), [5])"
    by (simp add: get_asn1_iff t valid_element_def der_element_def der_len_def split_string_tags)
  moreover have "list_all (\<lambda>x. valid_element (x, 4)) [[7], [8]]"
    by (simp add: valid_element_def split_string_tags)
  ultimately show ?thesis
    using implicit_string_agrees [of zero_malloc "[0xa0, 6, 4, 1, 7, 4, 1, 8, 5]" "0x80000000" 4 "[7, 8]" True "[5]"]
      t split_string_tags by (auto intro!: exI [of _ "[[7], [8]]"])
qed

end
