(* ===== verification/PB_Stream.thy ===== *)
theory PB_Stream
  imports Prelude "HOL-Library.Monad_Syntax"
begin

text \<open>
  The streams of nanopb (\<open>ios/Pods/nanopb/pb_decode.c\<close>, \<open>pb_encode.c\<close>) and the contracts that decoders and
  encoders rely on. An operation on a stream returns \<open>None\<close> where C leaves the behaviour undefined, and
  otherwise the value it delivers, with \<open>None\<close> for the return value \<open>false\<close>, and the stream.
\<close>

section \<open>Input streams\<close>

text \<open>
  The callback of a stream with its state: \<open>buf_read\<close> with the memory it points to, or a function of
  the user, which fills the buffer with the number of bytes asked for or fails.
\<close>

datatype 's pb_source = Buffer bytes | Reader "'s \<Rightarrow> nat \<Rightarrow> bytes option \<times> 's" 's

record 's pb_istream =
  in_source :: "'s pb_source"
  bytes_left :: nat
  in_errmsg :: "string option"

type_synonym ('a, 's) pb_reader = "'s pb_istream \<Rightarrow> ('a option \<times> 's pb_istream) option"

text \<open>\<open>if (!f(stream)) return false;\<close> and what follows.\<close>

definition pb_then :: "('a, 's) pb_reader \<Rightarrow> ('a \<Rightarrow> ('b, 's) pb_reader) \<Rightarrow> ('b, 's) pb_reader" where
  "pb_then f g s =
    (case f s of
       None \<Rightarrow> None
     | Some (None, s) \<Rightarrow> Some (None, s)
     | Some (Some x, s) \<Rightarrow> g x s)"

definition pb_return :: "'a \<Rightarrow> ('a, 's) pb_reader" where
  "pb_return x s = Some (Some x, s)"

definition pb_return_error :: "string \<Rightarrow> ('a, 's) pb_reader" where
  "pb_return_error msg s =
    Some (None, s\<lparr>in_errmsg := (case in_errmsg s of None \<Rightarrow> Some msg | Some m \<Rightarrow> Some m)\<rparr>)"

definition buf_read :: "bytes \<Rightarrow> nat \<Rightarrow> (bytes \<times> bytes) option" where
  "buf_read source count = (if count \<le> length source then Some (take count source, drop count source) else None)"

definition pb_callback :: "nat \<Rightarrow> (bytes, 's) pb_reader" where
  "pb_callback count s =
    (case in_source s of
       Buffer source \<Rightarrow>
         (case buf_read source count of
            None \<Rightarrow> None
          | Some (bs, source) \<Rightarrow> Some (Some bs, s\<lparr>in_source := Buffer source\<rparr>))
     | Reader f st \<Rightarrow>
         (case f st count of
            (None, st) \<Rightarrow> Some (None, s\<lparr>in_source := Reader f st\<rparr>)
          | (Some bs, st) \<Rightarrow>
              if length bs = count then Some (Some bs, s\<lparr>in_source := Reader f st\<rparr>) else None))"

definition pb_istream_from_buffer :: "bytes \<Rightarrow> nat \<Rightarrow> 's pb_istream" where
  "pb_istream_from_buffer buf bufsize = \<lparr>in_source = Buffer buf, bytes_left = bufsize, in_errmsg = None\<rparr>"

text \<open>\<open>pb_read\<close> into a buffer, or from a stream over memory.\<close>

definition pb_read_bytes :: "nat \<Rightarrow> (bytes, 's) pb_reader" where
  "pb_read_bytes count s =
    (if count = 0 then Some (Some [], s)
     else if bytes_left s < count then pb_return_error ''end-of-stream'' s
     else case pb_callback count s of
            None \<Rightarrow> None
          | Some (None, s) \<Rightarrow> pb_return_error ''io error'' s
          | Some (Some bs, s) \<Rightarrow> Some (Some bs, s\<lparr>bytes_left := bytes_left s - count\<rparr>))"

text \<open>Skipping input of a user's stream, by way of a buffer of 16 bytes.\<close>

fun pb_skip_input :: "nat \<Rightarrow> (bytes, 's) pb_reader" where
  "pb_skip_input count =
    (if count > 16 then pb_then (pb_read_bytes 16) (\<lambda>_. pb_skip_input (count - 16)) else pb_read_bytes count)"

declare pb_skip_input.simps [simp del]

definition pb_read :: "bool \<Rightarrow> nat \<Rightarrow> (bytes, 's) pb_reader" where
  "pb_read buf_null count s =
    (if count = 0 then Some (Some [], s)
     else if buf_null \<and> (case in_source s of Buffer _ \<Rightarrow> False | Reader _ _ \<Rightarrow> True)
     then pb_skip_input count s
     else pb_read_bytes count s)"

definition pb_readbyte :: "(u8, 's) pb_reader" where
  "pb_readbyte s =
    (if bytes_left s = 0 then pb_return_error ''end-of-stream'' s
     else case pb_callback 1 s of
            None \<Rightarrow> None
          | Some (None, s) \<Rightarrow> pb_return_error ''io error'' s
          | Some (Some bs, s) \<Rightarrow> Some (Some (bs ! 0), s\<lparr>bytes_left := bytes_left s - 1\<rparr>))"

lemma pb_then_simps [simp]:
  "f s = None \<Longrightarrow> pb_then f g s = None"
  "f s = Some (None, s') \<Longrightarrow> pb_then f g s = Some (None, s')"
  "f s = Some (Some x, s') \<Longrightarrow> pb_then f g s = g x s'"
  by (simp_all add: pb_then_def)

lemma pb_then_cong [fundef_cong]:
  "s = s' \<Longrightarrow> f s' = f' s' \<Longrightarrow> (\<And>x t. f' s' = Some (Some x, t) \<Longrightarrow> g x t = g' x t) \<Longrightarrow> pb_then f g s = pb_then f' g' s'"
  by (auto simp: pb_then_def split: option.splits)

lemma readbyte_left: "pb_readbyte s = Some (Some b, s') \<Longrightarrow> bytes_left s' < bytes_left s"
  by (auto simp: pb_readbyte_def pb_return_error_def pb_callback_def split: if_splits option.splits pb_source.splits prod.splits)

lemma read_bytes_left: "pb_read_bytes n s = Some (Some b, s') \<Longrightarrow> bytes_left s' = bytes_left s - n \<and> n \<le> bytes_left s"
  by (auto simp: pb_read_bytes_def pb_return_error_def pb_callback_def split: if_splits option.splits pb_source.splits prod.splits)

section \<open>The contract of a source\<close>

text \<open>
  What the decoders use: a stream stands for the bytes it can still deliver, and reading, with or
  without a destination, takes them from the front.
\<close>

locale pb_bytes =
  fixes inv :: "'s pb_istream \<Rightarrow> bool" and content :: "'s pb_istream \<Rightarrow> bytes"
  assumes left: "inv s \<Longrightarrow> bytes_left s = length (content s)"
    and read: "inv s \<Longrightarrow> n \<le> length (content s) \<Longrightarrow>
      \<exists>s'. pb_read_bytes n s = Some (Some (take n (content s)), s') \<and> inv s' \<and> content s' = drop n (content s)"
    and readbyte: "inv s \<Longrightarrow> content s = b # c \<Longrightarrow>
      \<exists>s'. pb_readbyte s = Some (Some b, s') \<and> inv s' \<and> content s' = c"
begin

text \<open>A reader accepts the content \<open>c\<close> with the value \<open>x\<close> and leaves \<open>c'\<close>, or rejects it.\<close>

definition accepts :: "('a, 's) pb_reader \<Rightarrow> bytes \<Rightarrow> 'a \<Rightarrow> bytes \<Rightarrow> bool" where
  "accepts r c x c' \<longleftrightarrow> (\<forall>s. inv s \<and> content s = c \<longrightarrow> (\<exists>s'. r s = Some (Some x, s') \<and> inv s' \<and> content s' = c'))"

definition rejects :: "('a, 's) pb_reader \<Rightarrow> bytes \<Rightarrow> bool" where
  "rejects r c \<longleftrightarrow> (\<forall>s. inv s \<and> content s = c \<longrightarrow> (\<exists>s'. r s = Some (None, s')))"

lemma accepts_return: "accepts (pb_return x) c x c"
  by (auto simp: accepts_def pb_return_def)

lemma rejects_error: "rejects (pb_return_error msg) c"
  by (auto simp: rejects_def pb_return_error_def)

lemma accepts_then: "accepts f c x c1 \<Longrightarrow> accepts (g x) c1 y c2 \<Longrightarrow> accepts (pb_then f g) c y c2"
  unfolding accepts_def by (metis pb_then_simps(3))

lemma rejects_then1: "rejects f c \<Longrightarrow> rejects (pb_then f g) c"
  unfolding rejects_def by (metis pb_then_simps(2))

lemma rejects_then2: "accepts f c x c1 \<Longrightarrow> rejects (g x) c1 \<Longrightarrow> rejects (pb_then f g) c"
  unfolding accepts_def rejects_def by (metis pb_then_simps(3))

lemma accepts_readbyte: "accepts pb_readbyte (b # c) b c"
  using readbyte by (auto simp: accepts_def)

lemma rejects_readbyte: "rejects pb_readbyte []"
  using left by (auto simp: rejects_def pb_readbyte_def pb_return_error_def)

lemma accepts_read_bytes: "n \<le> length c \<Longrightarrow> accepts (pb_read_bytes n) c (take n c) (drop n c)"
  using read by (auto simp: accepts_def)

lemma rejects_read_bytes: "length c < n \<Longrightarrow> rejects (pb_read_bytes n) c"
  using left by (auto simp: rejects_def pb_read_bytes_def pb_return_error_def)

lemma accepts_skip: "n \<le> length c \<Longrightarrow> \<exists>x. accepts (pb_skip_input n) c x (drop n c)"
proof (induction n arbitrary: c rule: pb_skip_input.induct)
  case (1 n)
  show ?case
  proof (cases "n > 16")
    case True
    have "n - 16 \<le> length (drop 16 c)" using "1.prems" by (simp add: diff_le_mono)
    from "1.IH" [OF True this] obtain x where
      "accepts (pb_skip_input (n - 16)) (drop 16 c) x (drop (n - 16) (drop 16 c))" by blast
    moreover have "accepts (pb_read_bytes 16) c (take 16 c) (drop 16 c)"
      using True "1.prems" by (intro accepts_read_bytes) simp
    ultimately have "accepts (pb_then (pb_read_bytes 16) (\<lambda>_. pb_skip_input (n - 16))) c x (drop n c)"
      using True by (intro accepts_then) auto
    then show ?thesis using True by (subst pb_skip_input.simps) auto
  next
    case False
    then show ?thesis using accepts_read_bytes [OF "1.prems"] by (subst pb_skip_input.simps) auto
  qed
qed

lemma rejects_skip: "length c < n \<Longrightarrow> rejects (pb_skip_input n) c"
proof (induction n arbitrary: c rule: pb_skip_input.induct)
  case (1 n)
  show ?case
  proof (cases "n > 16")
    case True
    have "rejects (pb_then (pb_read_bytes 16) (\<lambda>_. pb_skip_input (n - 16))) c"
    proof (cases "16 \<le> length c")
      case le: True
      have "rejects (pb_skip_input (n - 16)) (drop 16 c)" using "1.IH" [OF True, of "drop 16 c"] "1.prems" le by simp
      with le show ?thesis by (intro rejects_then2 [OF accepts_read_bytes])
    next
      case False
      then show ?thesis by (intro rejects_then1 rejects_read_bytes) simp
    qed
    then show ?thesis using True by (subst pb_skip_input.simps) simp
  next
    case False
    then show ?thesis using rejects_read_bytes [OF "1.prems"] by (subst pb_skip_input.simps) simp
  qed
qed

text \<open>\<open>pb_read\<close> with a destination, and without: the same bytes are taken.\<close>

lemma accepts_read: "n \<le> length c \<Longrightarrow> accepts (pb_read False n) c (take n c) (drop n c)"
  using accepts_read_bytes [of n c] by (simp add: pb_read_def [abs_def] accepts_def)

lemma read_null:
  assumes "inv s" "n \<le> length (content s)"
  obtains x s' where "pb_read True n s = Some (Some x, s')" "inv s'" "content s' = drop n (content s)"
  using assms accepts_read_bytes [of n "content s"] accepts_skip [of n "content s"]
  by (cases "in_source s"; cases "n = 0") (auto simp: pb_read_def accepts_def)

lemma rejects_read: "length c < n \<Longrightarrow> rejects (pb_read b n) c"
  using rejects_read_bytes [of c n] rejects_skip [of c n] by (auto simp: pb_read_def rejects_def)

end

section \<open>Streams over memory\<close>

definition buffer_ok :: "'s pb_istream \<Rightarrow> bool" where
  "buffer_ok s \<longleftrightarrow> (\<exists>source. in_source s = Buffer source \<and> bytes_left s \<le> length source)"

definition buffer_content :: "'s pb_istream \<Rightarrow> bytes" where
  "buffer_content s = (case in_source s of Buffer source \<Rightarrow> take (bytes_left s) source | Reader _ _ \<Rightarrow> [])"

lemma from_buffer:
  "buffer_ok (pb_istream_from_buffer buf (length buf))" "buffer_content (pb_istream_from_buffer buf (length buf)) = buf"
  by (simp_all add: buffer_ok_def buffer_content_def pb_istream_from_buffer_def)

interpretation buffer: pb_bytes buffer_ok buffer_content
proof
  fix s :: "'s pb_istream"
  assume s: "buffer_ok s"
  then show "bytes_left s = length (buffer_content s)" by (auto simp: buffer_ok_def buffer_content_def)
  from s obtain source where src: "in_source s = Buffer source" "bytes_left s \<le> length source"
    by (auto simp: buffer_ok_def)
  show "\<exists>s'. pb_read_bytes n s = Some (Some (take n (buffer_content s)), s') \<and> buffer_ok s' \<and>
      buffer_content s' = drop n (buffer_content s)" if n: "n \<le> length (buffer_content s)" for n
  proof -
    have "n \<le> bytes_left s" using n src by (simp add: buffer_content_def)
    then show ?thesis using src
      by (auto simp: pb_read_bytes_def pb_callback_def buf_read_def buffer_ok_def buffer_content_def min_def drop_take)
  qed
  show "\<exists>s'. pb_readbyte s = Some (Some b, s') \<and> buffer_ok s' \<and> buffer_content s' = c"
    if "buffer_content s = b # c" for b c
    using that src
    by (cases source; cases "bytes_left s")
      (auto simp: pb_readbyte_def pb_callback_def buf_read_def buffer_ok_def buffer_content_def)
qed

end
