(* ===== verification/PB_Decode.thy ===== *)
theory PB_Decode
  imports PB_Stream
begin

text \<open>
  The decoders of the wire format in \<open>pb_decode.c\<close>: varints, tags, skipping, raw values, substreams and
  fixed-width numbers.
\<close>

section \<open>Varints\<close>

text \<open>The loop of \<open>pb_decode_varint32_eof\<close> after the first byte; \<open>bitpos\<close> is an \<open>uint_fast8_t\<close> of eight bits.\<close>

function varint32_loop :: "u8 \<Rightarrow> u32 \<Rightarrow> (u32, 's) pb_reader" where
  "varint32_loop bitpos result s =
    pb_then pb_readbyte (\<lambda>byte s.
      if bitpos \<ge> 32 \<and> byte AND 0x7f \<noteq> 0 \<and>
         (drop_bit 31 result = 0 \<or> byte \<noteq> (if bitpos < 63 then 0xff else 0x01))
      then pb_return_error ''varint overflow'' s
      else
        let result = (if bitpos \<ge> 32 then result
                      else result OR push_bit (unat bitpos) (ucast (byte AND 0x7f)));
            bitpos = bitpos + 7
        in if byte AND 0x80 \<noteq> 0 then varint32_loop bitpos result s
           else if bitpos = 35 \<and> byte AND 0x70 \<noteq> 0 then pb_return_error ''varint overflow'' s
           else pb_return result s) s"
  by pat_completeness auto

termination
  by (relation "measure (\<lambda>(bitpos, result, s). bytes_left s)") (auto dest: readbyte_left)

declare varint32_loop.simps [simp del]

text \<open>The second component is whether \<open>*eof\<close> is set.\<close>

definition pb_decode_varint32_eof :: "'s pb_istream \<Rightarrow> ((u32 option \<times> 's pb_istream) \<times> bool) option" where
  "pb_decode_varint32_eof s =
    (case pb_readbyte s of
       None \<Rightarrow> None
     | Some (None, s) \<Rightarrow> Some ((None, s), bytes_left s = 0)
     | Some (Some byte, s) \<Rightarrow>
         map_option (\<lambda>r. (r, False))
           (if byte AND 0x80 = 0 then Some (Some (ucast byte), s)
            else varint32_loop 7 (ucast (byte AND 0x7f)) s))"

definition pb_decode_varint32 :: "(u32, 's) pb_reader" where
  "pb_decode_varint32 s = map_option fst (pb_decode_varint32_eof s)"

function varint_loop :: "u8 \<Rightarrow> u64 \<Rightarrow> (u64, 's) pb_reader" where
  "varint_loop bitpos result s =
    (if bitpos \<ge> 64 then pb_return_error ''varint overflow'' s
     else pb_then pb_readbyte (\<lambda>byte s.
       let result = result OR push_bit (unat bitpos) (ucast (byte AND 0x7f));
           bitpos = bitpos + 7
       in if byte AND 0x80 \<noteq> 0 then varint_loop bitpos result s else pb_return result s) s)"
  by pat_completeness auto

termination
  by (relation "measure (\<lambda>(bitpos, result, s). bytes_left s)") (auto dest: readbyte_left)

declare varint_loop.simps [simp del]

definition pb_decode_varint :: "(u64, 's) pb_reader" where
  "pb_decode_varint = varint_loop 0 0"

lemma read_bytes_shorter: "pb_read_bytes 1 s = Some (Some bs, s') \<Longrightarrow> bytes_left s' < bytes_left s"
  using read_bytes_left [of 1 s bs s'] by linarith

function pb_skip_varint :: "(unit, 's) pb_reader" where
  "pb_skip_varint s =
    pb_then (pb_read_bytes 1) (\<lambda>bs s. if bs ! 0 AND 0x80 \<noteq> 0 then pb_skip_varint s else pb_return () s) s"
  by pat_completeness auto

termination
  by (relation "measure bytes_left") (auto dest: read_bytes_shorter [simplified])

declare pb_skip_varint.simps [simp del]

section \<open>Strings, tags and fields\<close>

definition pb_skip_string :: "(unit, 's) pb_reader" where
  "pb_skip_string = pb_then pb_decode_varint32 (\<lambda>len. pb_then (pb_read True (unat len)) (\<lambda>_. pb_return ()))"

type_synonym pb_wire_type_t = u32

definition PB_WT_VARINT :: pb_wire_type_t where "PB_WT_VARINT = 0"
definition PB_WT_64BIT :: pb_wire_type_t where "PB_WT_64BIT = 1"
definition PB_WT_STRING :: pb_wire_type_t where "PB_WT_STRING = 2"
definition PB_WT_32BIT :: pb_wire_type_t where "PB_WT_32BIT = 5"

lemmas wire_types = PB_WT_VARINT_def PB_WT_64BIT_def PB_WT_STRING_def PB_WT_32BIT_def

text \<open>The wire type and the tag; the last component is \<open>*eof\<close>.\<close>

definition pb_decode_tag :: "'s pb_istream \<Rightarrow> (((pb_wire_type_t \<times> u32) option \<times> 's pb_istream) \<times> bool) option" where
  "pb_decode_tag s =
    (case pb_decode_varint32_eof s of
       None \<Rightarrow> None
     | Some ((None, s), eof) \<Rightarrow> Some ((None, s), eof)
     | Some ((Some temp, s), eof) \<Rightarrow>
         Some (if temp = 0 then ((None, s), True) else ((Some (temp AND 7, drop_bit 3 temp), s), eof)))"

definition pb_skip_field :: "pb_wire_type_t \<Rightarrow> (unit, 's) pb_reader" where
  "pb_skip_field wire_type =
    (if wire_type = PB_WT_VARINT then pb_skip_varint
     else if wire_type = PB_WT_64BIT then pb_then (pb_read True 8) (\<lambda>_. pb_return ())
     else if wire_type = PB_WT_STRING then pb_skip_string
     else if wire_type = PB_WT_32BIT then pb_then (pb_read True 4) (\<lambda>_. pb_return ())
     else pb_return_error ''invalid wire_type'')"

text \<open>The bytes written to \<open>buf\<close>; their number is \<open>*size\<close>.\<close>

fun read_raw_varint :: "nat \<Rightarrow> (bytes, 's) pb_reader" where
  "read_raw_varint 0 = (\<lambda>s. Some (None, s))"
| "read_raw_varint (Suc n) =
    pb_then (pb_read_bytes 1) (\<lambda>bs.
      if bs ! 0 AND 0x80 \<noteq> 0 then pb_then (read_raw_varint n) (\<lambda>rest. pb_return (bs @ rest)) else pb_return bs)"

definition read_raw_value :: "pb_wire_type_t \<Rightarrow> nat \<Rightarrow> (bytes, 's) pb_reader" where
  "read_raw_value wire_type max_size =
    (if wire_type = PB_WT_VARINT then read_raw_varint max_size
     else if wire_type = PB_WT_64BIT then pb_read_bytes 8
     else if wire_type = PB_WT_32BIT then pb_read_bytes 4
     else pb_return_error ''invalid wire_type'')"

definition pb_make_string_substream :: "('s pb_istream, 's) pb_reader" where
  "pb_make_string_substream = pb_then pb_decode_varint32 (\<lambda>size s.
     let substream = s
     in if bytes_left substream < unat size then pb_return_error ''parent stream too short'' s
        else Some (Some (substream\<lparr>bytes_left := unat size\<rparr>), s\<lparr>bytes_left := bytes_left s - unat size\<rparr>))"

text \<open>
  When the rest cannot be skipped the stream keeps its \<open>state\<close>: its place in a buffer, or the pointer to the
  state of the user's function, which has changed behind it.
\<close>

definition pb_close_string_substream :: "'s pb_istream \<Rightarrow> (unit, 's) pb_reader" where
  "pb_close_string_substream substream s =
    (case (if bytes_left substream \<noteq> 0 then pb_read True (bytes_left substream) substream else Some (Some [], substream)) of
       None \<Rightarrow> None
     | Some (None, substream) \<Rightarrow>
         Some (None, (case in_source substream of
                        Buffer _ \<Rightarrow> s
                      | Reader f st \<Rightarrow> s\<lparr>in_source := Reader f st\<rparr>))
     | Some (Some _, substream) \<Rightarrow>
         Some (Some (), s\<lparr>in_source := in_source substream, in_errmsg := in_errmsg substream\<rparr>))"

section \<open>Numbers\<close>

text \<open>The result is the bit pattern of the \<open>int64_t\<close>.\<close>

definition pb_decode_svarint :: "(u64, 's) pb_reader" where
  "pb_decode_svarint = pb_then pb_decode_varint (\<lambda>value.
     pb_return (if value AND 1 \<noteq> 0 then NOT (drop_bit 1 value) else drop_bit 1 value))"

definition pb_decode_fixed32 :: "(u32, 's) pb_reader" where
  "pb_decode_fixed32 = pb_then (pb_read_bytes 4) (\<lambda>bytes.
     pb_return (push_bit 0 (ucast (bytes ! 0)) OR push_bit 8 (ucast (bytes ! 1)) OR
       push_bit 16 (ucast (bytes ! 2)) OR push_bit 24 (ucast (bytes ! 3))))"

definition pb_decode_fixed64 :: "(u64, 's) pb_reader" where
  "pb_decode_fixed64 = pb_then (pb_read_bytes 8) (\<lambda>bytes.
     pb_return (push_bit 0 (ucast (bytes ! 0)) OR push_bit 8 (ucast (bytes ! 1)) OR
       push_bit 16 (ucast (bytes ! 2)) OR push_bit 24 (ucast (bytes ! 3)) OR
       push_bit 32 (ucast (bytes ! 4)) OR push_bit 40 (ucast (bytes ! 5)) OR
       push_bit 48 (ucast (bytes ! 6)) OR push_bit 56 (ucast (bytes ! 7))))"

section \<open>Varints as numbers\<close>

text \<open>The bytes up to the first without the high bit, and the number they stand for.\<close>

fun leb_split :: "bytes \<Rightarrow> (bytes \<times> bytes) option" where
  "leb_split [] = None"
| "leb_split (b # bs) =
    (if b AND 0x80 = 0 then Some ([b], bs) else map_option (\<lambda>(v, rest). (b # v, rest)) (leb_split bs))"

fun leb_val :: "bytes \<Rightarrow> nat" where
  "leb_val [] = 0"
| "leb_val (b # bs) = unat b mod 128 + 128 * leb_val bs"

fun leb_word :: "bytes \<Rightarrow> 'a::len word" where
  "leb_word [] = 0"
| "leb_word (b # bs) = ucast (b AND 0x7f) OR push_bit 7 (leb_word bs)"

lemma leb_split_append: "leb_split c = Some (v, rest) \<Longrightarrow> c = v @ rest"
  by (induction c arbitrary: v) (auto split: if_splits)

lemma leb_split_length: "leb_split c = Some (v, rest) \<Longrightarrow> 0 < length v"
  by (cases c) (auto split: if_splits)

lemma push_or: "push_bit n (x OR y) = push_bit n x OR push_bit n (y :: 'a::len word)"
  by (rule bit_word_eqI) (auto simp: bit_simps)

lemma ucast_seven: "(ucast (b AND 0x7f) :: 'a::len word) = of_nat (unat (b :: u8) mod 128)"
  by (metis byte_masks(2) of_nat_unat)

lemma leb_word_val: "8 \<le> LENGTH('a) \<Longrightarrow> (leb_word v :: 'a::len word) = of_nat (leb_val v)"
proof (induction v)
  case (Cons b v)
  have "unat (ucast (b AND 0x7f) :: 'a word) < 2 ^ 7"
    using Cons.prems by (simp add: byte_masks)
  then have "ucast (b AND 0x7f) AND push_bit 7 (leb_word v) = (0 :: 'a word)"
    by (metis push_and_small and.commute)
  then have "leb_word (b # v) = ucast (b AND 0x7f) + (push_bit 7 (leb_word v) :: 'a word)"
    by (simp add: disjunctive_add_eq_or)
  then show ?case using Cons by (simp add: push_bit_eq_mult ucast_seven)
qed simp

lemma varint_loop_step:
  "unat bitpos < 64 \<Longrightarrow> varint_loop bitpos result =
    pb_then pb_readbyte (\<lambda>byte.
      if byte AND 0x80 \<noteq> 0 then varint_loop (bitpos + 7) (result OR push_bit (unat bitpos) (ucast (byte AND 0x7f)))
      else pb_return (result OR push_bit (unat bitpos) (ucast (byte AND 0x7f))))"
  by (rule ext, subst varint_loop.simps) (simp add: pb_then_def word_le_nat_alt Let_def split: option.splits)

lemma varint_loop_overflow: "64 \<le> unat bitpos \<Longrightarrow> varint_loop bitpos result = pb_return_error ''varint overflow''"
  by (rule ext, subst varint_loop.simps) (simp add: word_le_nat_alt)

lemma unat_plus_7: "unat (bitpos :: u8) < 249 \<Longrightarrow> unat (bitpos + 7) = unat bitpos + 7"
  by (simp add: unat_word_ariths)

context pb_bytes
begin

lemma varint_loop_accepts:
  "leb_split c = Some (v, rest) \<Longrightarrow> unat bitpos + 7 * length v \<le> 70 \<Longrightarrow>
   accepts (varint_loop bitpos result) c (result OR push_bit (unat bitpos) (leb_word v)) rest"
proof (induction c arbitrary: bitpos result v)
  case (Cons b c)
  have bound: "unat bitpos \<le> 63" using Cons.prems(2) leb_split_length [OF Cons.prems(1)] by linarith
  show ?case
  proof (cases "b AND 0x80 = 0")
    case True
    then have v: "v = [b]" "rest = c" using Cons.prems(1) by auto
    have "accepts (varint_loop bitpos result) (b # c) (result OR push_bit (unat bitpos) (ucast (b AND 0x7f))) c"
      using bound True by (subst varint_loop_step) (auto intro!: accepts_then accepts_readbyte accepts_return)
    then show ?thesis by (simp add: v)
  next
    case False
    then obtain v' where v': "leb_split c = Some (v', rest)" "v = b # v'" using Cons.prems(1) by auto
    let ?result = "result OR push_bit (unat bitpos) (ucast (b AND 0x7f))"
    have "accepts (varint_loop (bitpos + 7) ?result) c (?result OR push_bit (unat bitpos + 7) (leb_word v')) rest"
      using Cons.IH [OF v'(1), of "bitpos + 7" ?result] Cons.prems(2) unat_plus_7 [of bitpos] bound v'(2) by simp
    then have "accepts (varint_loop bitpos result) (b # c) (?result OR push_bit (unat bitpos + 7) (leb_word v')) rest"
      using bound False by (subst varint_loop_step) (auto intro!: accepts_then accepts_readbyte)
    then show ?thesis by (simp add: v'(2) push_or or.assoc)
  qed
qed simp

text \<open>More than ten bytes, or no last byte.\<close>

lemma varint_loop_rejects:
  "(case leb_split c of None \<Rightarrow> True | Some (v, rest) \<Rightarrow> unat bitpos + 7 * length v > 70) \<Longrightarrow> 7 dvd unat bitpos \<Longrightarrow>
   unat bitpos \<le> 70 \<Longrightarrow> rejects (varint_loop bitpos result) c"
proof (induction c arbitrary: bitpos result)
  case Nil
  then show ?case
    by (cases "unat bitpos < 64") (auto simp: varint_loop_step varint_loop_overflow intro: rejects_then1 rejects_readbyte rejects_error)
next
  case (Cons b c)
  show ?case
  proof (cases "unat bitpos < 64")
    case True
    let ?result = "result OR push_bit (unat bitpos) (ucast (b AND 0x7f))"
    have b: "b AND 0x80 \<noteq> 0"
    proof
      assume "b AND 0x80 = 0"
      with Cons.prems(1) have "63 < unat bitpos" by simp
      with True Cons.prems(2) show False by (auto elim!: dvdE)
    qed
    have "rejects (varint_loop (bitpos + 7) ?result) c"
      using Cons.prems True b unat_plus_7 [of bitpos]
      by (intro Cons.IH) (auto split: option.splits)
    then show ?thesis using True b by (subst varint_loop_step) (auto intro!: rejects_then2 accepts_readbyte)
  next
    case False
    then show ?thesis by (simp add: varint_loop_overflow rejects_error)
  qed
qed

lemma decode_varint_accepts:
  "leb_split c = Some (v, rest) \<Longrightarrow> length v \<le> 10 \<Longrightarrow> accepts pb_decode_varint c (of_nat (leb_val v)) rest"
  using varint_loop_accepts [of c v rest 0 0] by (simp add: pb_decode_varint_def leb_word_val)

lemma decode_varint_rejects:
  "(case leb_split c of None \<Rightarrow> True | Some (v, rest) \<Rightarrow> length v > 10) \<Longrightarrow> rejects pb_decode_varint c"
  using varint_loop_rejects [where c = c and bitpos = 0 and result = 0] by (auto simp: pb_decode_varint_def split: option.splits)

end

end
