(* ===== verification/PB_Varint.thy ===== *)
theory PB_Varint
  imports PB_Decode
begin

text \<open>
  What the varint decoders of nanopb accept: \<open>pb_decode_varint\<close> up to ten bytes, \<open>pb_decode_varint32\<close> 32-bit
  numbers and the sign-extended ones, and what tags, skipping and fixed-width numbers take from a stream.
\<close>

section \<open>The shortest varint of a number\<close>

fun leb_bytes :: "nat \<Rightarrow> bytes" where
  "leb_bytes n = (if n < 128 then [of_nat n] else of_nat (n mod 128 + 128) # leb_bytes (n div 128))"

declare leb_bytes.simps [simp del]

lemma leb_bytes_small: "n < 128 \<Longrightarrow> leb_bytes n = [of_nat n]"
  by (subst leb_bytes.simps) simp

lemma leb_bytes_big: "128 \<le> n \<Longrightarrow> leb_bytes n = of_nat (n mod 128 + 128) # leb_bytes (n div 128)"
  by (subst leb_bytes.simps) simp

lemma last_byte: "n < 128 \<Longrightarrow> (of_nat n :: u8) AND 0x80 = 0"
  by (simp add: high_bit_clear)

lemma more_byte: "(of_nat (n mod 128 + 128) :: u8) AND 0x80 \<noteq> 0"
proof -
  have "unat (of_nat (n mod 128 + 128) :: u8) = n mod 128 + 128" by (rule u8_of_nat_unat) simp
  then show ?thesis by (simp only: high_bit_clear)
qed

lemma leb_split_bytes: "leb_split (leb_bytes n @ rest) = Some (leb_bytes n, rest)"
proof (induction n rule: leb_bytes.induct)
  case (1 n)
  show ?case
  proof (cases "n < 128")
    case True
    then show ?thesis by (simp add: leb_bytes_small last_byte)
  next
    case False
    then show ?thesis using 1 more_byte [of n] by (simp add: leb_bytes_big del: of_nat_add)
  qed
qed

lemma leb_val_bytes: "leb_val (leb_bytes n) = n"
proof (induction n rule: leb_bytes.induct)
  case (1 n)
  show ?case
  proof (cases "n < 128")
    case True
    then show ?thesis by (simp add: leb_bytes_small)
  next
    case False
    have "unat (of_nat (n mod 128 + 128) :: u8) = n mod 128 + 128" by (rule u8_of_nat_unat) simp
    then show ?thesis using 1 False by (simp add: leb_bytes_big del: of_nat_add)
  qed
qed

lemma leb_bytes_length: "n < 128 ^ k \<Longrightarrow> 0 < k \<Longrightarrow> length (leb_bytes n) \<le> k"
proof (induction k arbitrary: n)
  case (Suc k)
  show ?case
  proof (cases "n < 128")
    case False
    then have "n div 128 < 128 ^ k" "0 < k" using Suc.prems by (auto simp: less_mult_imp_div_less mult.commute intro: gr0I)
    then show ?thesis using Suc.IH [of "n div 128"] False by (simp add: leb_bytes_big)
  qed (simp add: leb_bytes_small)
qed simp

lemma leb_bytes_length_64: "length (leb_bytes (unat (x :: u64))) \<le> 10"
  using less_trans [OF unat_u64_less [of x], of "128 ^ 10"] by (intro leb_bytes_length) simp_all

lemma leb_bytes_not_Nil [simp]: "leb_bytes n \<noteq> []"
  by (subst leb_bytes.simps) simp

lemma drop_leb_bytes: "128 ^ k \<le> n \<Longrightarrow> drop k (leb_bytes n) = leb_bytes (n div 128 ^ k)"
proof (induction k arbitrary: n)
  case (Suc k)
  have "128 * 1 \<le> (128 :: nat) * 128 ^ k" by (intro mult_le_mono2) simp
  then have n: "128 \<le> n" using Suc.prems by (metis le_trans mult.right_neutral power_Suc)
  have "128 ^ k \<le> n div 128" using div_le_mono [OF Suc.prems, of 128] by simp
  then show ?case using n Suc.IH by (simp add: leb_bytes_big div_mult2_eq)
qed simp

lemma leb_val_take: "leb_val (take k v) = leb_val v mod 128 ^ k"
proof (induction v arbitrary: k)
  case (Cons b v)
  show ?case
  proof (cases k)
    case (Suc j)
    have "(unat b mod 128 + 128 * leb_val v) mod (128 * 128 ^ j) = 128 * (leb_val v mod 128 ^ j) + unat b mod 128"
      by (simp add: mod_mult2_eq)
    then show ?thesis using Cons Suc by simp
  qed simp
qed simp

section \<open>32-bit varints\<close>

text \<open>The bytes at bit 35 and above: zeros, or the sign.\<close>

fun sign_bytes_ok :: "bool \<Rightarrow> nat \<Rightarrow> bytes \<Rightarrow> bool" where
  "sign_bytes_ok neg bitpos [] = True"
| "sign_bytes_ok neg bitpos (b # v) =
    ((b AND 0x7f = 0 \<or> neg \<and> b = (if bitpos < 63 then 0xff else 0x01)) \<and> sign_bytes_ok neg (bitpos + 7) v)"

definition varint32_val :: "bytes \<Rightarrow> u32" where
  "varint32_val v = of_nat (leb_val (take 5 v))"

lemma varint32_val_word: "varint32_val v = leb_word (take 5 v)"
  by (simp add: varint32_val_def leb_word_val)

definition varint32_ok :: "bytes \<Rightarrow> bool" where
  "varint32_ok v =
    ((length v = 5 \<longrightarrow> v ! 4 AND 0x70 = 0) \<and> sign_bytes_ok (bit (varint32_val v) 31) 35 (drop 5 v))"

definition varint32_next :: "u8 \<Rightarrow> u32 \<Rightarrow> u8 \<Rightarrow> u32" where
  "varint32_next bitpos result byte =
    (if bitpos \<ge> 32 then result else result OR push_bit (unat bitpos) (ucast (byte AND 0x7f)))"

lemma drop_bit_31: "drop_bit 31 result = 0 \<longleftrightarrow> \<not> bit (result :: u32) 31"
proof -
  have "unat result div 2 ^ 31 < 2" using unat_u32_less [of result] by (simp add: less_mult_imp_div_less)
  then have "unat result div 2 ^ 31 = 0 \<longleftrightarrow> even (unat result div 2 ^ 31)" by (auto simp: less_2_cases_iff)
  moreover have "bit result 31 \<longleftrightarrow> odd (unat result div 2 ^ 31)"
    using bit_iff_odd [of "unat result" 31] by (simp add: bit_unsigned_iff)
  ultimately show ?thesis by (simp add: unat_drop_bit flip: unat_eq_0)
qed

lemma if_app: "(if b then f else g) x = (if b then f x else g x)"
  by simp

lemma varint32_loop_step:
  "varint32_loop bitpos result =
    pb_then pb_readbyte (\<lambda>byte.
      if bitpos \<ge> 32 \<and> byte AND 0x7f \<noteq> 0 \<and> (\<not> bit result 31 \<or> byte \<noteq> (if bitpos < 63 then 0xff else 0x01))
      then pb_return_error ''varint overflow''
      else if byte AND 0x80 \<noteq> 0 then varint32_loop (bitpos + 7) (varint32_next bitpos result byte)
      else if bitpos = 28 \<and> byte AND 0x70 \<noteq> 0 then pb_return_error ''varint overflow''
      else pb_return (varint32_next bitpos result byte))"
proof
  have "bitpos + 7 = 35 \<longleftrightarrow> bitpos = 28"
    using add_right_cancel [of bitpos 7 28] by simp
  then show "varint32_loop bitpos result s = pb_then pb_readbyte (\<lambda>byte.
      if bitpos \<ge> 32 \<and> byte AND 0x7f \<noteq> 0 \<and> (\<not> bit result 31 \<or> byte \<noteq> (if bitpos < 63 then 0xff else 0x01))
      then pb_return_error ''varint overflow''
      else if byte AND 0x80 \<noteq> 0 then varint32_loop (bitpos + 7) (varint32_next bitpos result byte)
      else if bitpos = 28 \<and> byte AND 0x70 \<noteq> 0 then pb_return_error ''varint overflow''
      else pb_return (varint32_next bitpos result byte)) s" for s
    by (subst varint32_loop.simps, intro pb_then_cong)
      (simp_all only: Let_def if_app drop_bit_31 varint32_next_def refl)
qed

lemma decode_varint32_step:
  "pb_decode_varint32 = pb_then pb_readbyte (\<lambda>b.
     if b AND 0x80 = 0 then pb_return (ucast b) else varint32_loop 7 (ucast (b AND 0x7f)))"
  by (rule ext) (simp add: pb_decode_varint32_def pb_decode_varint32_eof_def pb_then_def pb_return_def option.map_comp
      comp_def option.map_id [unfolded id_def] split: option.splits)

context pb_bytes
begin

lemma varint32_high:
  "leb_split c = Some (v, rest) \<Longrightarrow> 32 \<le> unat bitpos \<Longrightarrow> unat bitpos + 7 * length v \<le> 255 \<Longrightarrow>
   (if sign_bytes_ok (bit result 31) (unat bitpos) v then accepts (varint32_loop bitpos result) c result rest
    else rejects (varint32_loop bitpos result) c)"
proof (induction c arbitrary: bitpos v)
  case (Cons b c)
  have pos: "bitpos \<ge> 32" "bitpos < 63 \<longleftrightarrow> unat bitpos < 63" "bitpos \<noteq> 28"
    using Cons.prems(2) by (auto simp: word_le_nat_alt word_less_nat_alt)
  have bound: "unat bitpos \<le> 248" using Cons.prems(3) leb_split_length [OF Cons.prems(1)] by linarith
  have next': "varint32_next bitpos result b = result" using pos by (simp add: varint32_next_def)
  let ?bad = "b AND 0x7f \<noteq> 0 \<and> (\<not> bit result 31 \<or> b \<noteq> (if unat bitpos < 63 then 0xff else 0x01))"
  consider (bad) ?bad | (last) "\<not> ?bad" "b AND 0x80 = 0" | (more) "\<not> ?bad" "b AND 0x80 \<noteq> 0" by blast
  then show ?case
  proof cases
    case bad
    then have "rejects (varint32_loop bitpos result) (b # c)"
      using pos by (subst varint32_loop_step) (auto intro!: rejects_then2 accepts_readbyte rejects_error)
    moreover have "\<not> sign_bytes_ok (bit result 31) (unat bitpos) v"
      using bad Cons.prems(1) by (auto split: if_splits)
    ultimately show ?thesis by simp
  next
    case last
    then have v: "v = [b]" "rest = c" using Cons.prems(1) by auto
    have "accepts (varint32_loop bitpos result) (b # c) result c"
      using pos last next' by (subst varint32_loop_step) (auto intro!: accepts_then accepts_readbyte accepts_return)
    with last v show ?thesis by auto
  next
    case more
    then obtain v' where v': "leb_split c = Some (v', rest)" "v = b # v'" using Cons.prems(1) by auto
    have up: "unat (bitpos + 7) = unat bitpos + 7" using bound by (intro unat_plus_7) simp
    have ok: "sign_bytes_ok (bit result 31) (unat bitpos) v = sign_bytes_ok (bit result 31) (unat bitpos + 7) v'"
      using more(1) by (auto simp: v'(2))
    have IH: "if sign_bytes_ok (bit result 31) (unat bitpos + 7) v' then accepts (varint32_loop (bitpos + 7) result) c result rest
        else rejects (varint32_loop (bitpos + 7) result) c"
      using Cons.IH [OF v'(1), of "bitpos + 7"] Cons.prems(2,3) up v'(2) by simp
    show ?thesis
    proof (cases "sign_bytes_ok (bit result 31) (unat bitpos) v")
      case True
      with IH ok have "accepts (varint32_loop (bitpos + 7) result) c result rest" by simp
      then have "accepts (varint32_loop bitpos result) (b # c) result rest"
        using more pos by (subst varint32_loop_step) (intro accepts_then [OF accepts_readbyte], auto simp: next')
      with True show ?thesis by simp
    next
      case False
      with IH ok have "rejects (varint32_loop (bitpos + 7) result) c" by simp
      then have "rejects (varint32_loop bitpos result) (b # c)"
        using more pos by (subst varint32_loop_step) (intro rejects_then2 [OF accepts_readbyte], auto simp: next')
      with False show ?thesis by simp
    qed
  qed
qed simp

lemma varint32_loop_spec:
  assumes "leb_split c = Some (v, rest)" "unat bitpos = 7 * k" "k \<le> 5" "length v + k \<le> 36"
    "r = result OR push_bit (7 * k) (leb_word (take (5 - k) v))"
  shows "if (length v + k = 5 \<longrightarrow> last v AND 0x70 = 0) \<and> sign_bytes_ok (bit r 31) 35 (drop (5 - k) v)
    then accepts (varint32_loop bitpos result) c r rest else rejects (varint32_loop bitpos result) c"
  using assms
proof (induction c arbitrary: bitpos v k result)
  case (Cons b c)
  show ?case
  proof (cases "k = 5")
    case True
    with Cons.prems leb_split_length [OF Cons.prems(1)] varint32_high [OF Cons.prems(1), of bitpos result]
    show ?thesis by simp
  next
    case False
    then have k: "k \<le> 4" using Cons.prems(3) by simp
    have pos: "\<not> bitpos \<ge> 32" "bitpos = 28 \<longleftrightarrow> k = 4"
      using k Cons.prems(2) by (auto simp: word_le_nat_alt word_unat_eq_iff)
    have next': "varint32_next bitpos result b = result OR push_bit (7 * k) (ucast (b AND 0x7f))"
      using pos Cons.prems(2) by (simp add: varint32_next_def)
    consider (bad) "b AND 0x80 = 0" "k = 4" "b AND 0x70 \<noteq> 0"
      | (last) "b AND 0x80 = 0" "k = 4 \<longrightarrow> b AND 0x70 = 0" | (more) "b AND 0x80 \<noteq> 0" by blast
    then show ?thesis
    proof cases
      case bad
      then have "rejects (varint32_loop bitpos result) (b # c)"
        using pos by (subst varint32_loop_step) (intro rejects_then2 [OF accepts_readbyte], auto simp: rejects_error)
      with bad Cons.prems(1) show ?thesis by auto
    next
      case last
      then have v: "v = [b]" "rest = c" using Cons.prems(1) by auto
      have "accepts (varint32_loop bitpos result) (b # c) (result OR push_bit (7 * k) (ucast (b AND 0x7f))) c"
        using pos last
        by (subst varint32_loop_step) (intro accepts_then [OF accepts_readbyte], auto simp: next' accepts_return)
      with last v k Cons.prems(5) show ?thesis by (simp add: take_Cons' drop_Cons')
    next
      case more
      then obtain v' where v': "leb_split c = Some (v', rest)" "v = b # v'" using Cons.prems(1) by auto
      have up: "unat (bitpos + 7) = 7 * Suc k" using unat_plus_7 [of bitpos] k Cons.prems(2) by simp
      have r: "r = (result OR push_bit (7 * k) (ucast (b AND 0x7f))) OR push_bit (7 * Suc k) (leb_word (take (5 - Suc k) v'))"
        using Cons.prems(5) k by (simp add: v'(2) take_Cons' push_or or.assoc add.commute)
      have IH: "if (length v' + Suc k = 5 \<longrightarrow> last v' AND 0x70 = 0) \<and> sign_bytes_ok (bit r 31) 35 (drop (5 - Suc k) v')
        then accepts (varint32_loop (bitpos + 7) (varint32_next bitpos result b)) c r rest
        else rejects (varint32_loop (bitpos + 7) (varint32_next bitpos result b)) c"
        using Cons.prems(4) k v'(2) by (intro Cons.IH v'(1) up) (simp_all add: next' r)
      have ok: "(length v + k = 5 \<longrightarrow> last v AND 0x70 = 0) \<and> sign_bytes_ok (bit r 31) 35 (drop (5 - k) v) \<longleftrightarrow>
        (length v' + Suc k = 5 \<longrightarrow> last v' AND 0x70 = 0) \<and> sign_bytes_ok (bit r 31) 35 (drop (5 - Suc k) v')"
        using k leb_split_length [OF v'(1)] by (auto simp: v'(2) drop_Cons')
      show ?thesis
      proof (cases "(length v + k = 5 \<longrightarrow> last v AND 0x70 = 0) \<and> sign_bytes_ok (bit r 31) 35 (drop (5 - k) v)")
        case True
        with IH ok have "accepts (varint32_loop (bitpos + 7) (varint32_next bitpos result b)) c r rest" by simp
        then have "accepts (varint32_loop bitpos result) (b # c) r rest"
          using more pos by (subst varint32_loop_step) (intro accepts_then [OF accepts_readbyte], auto)
        with True show ?thesis by simp
      next
        case False
        with IH ok have "rejects (varint32_loop (bitpos + 7) (varint32_next bitpos result b)) c" by (simp split: if_splits)
        then have "rejects (varint32_loop bitpos result) (b # c)"
          using more pos by (subst varint32_loop_step) (intro rejects_then2 [OF accepts_readbyte], auto)
        then show ?thesis unfolding if_not_P [OF False] .
      qed
    qed
  qed
qed simp

lemma varint32_loop_ends: "leb_split c = None \<Longrightarrow> rejects (varint32_loop bitpos result) c"
proof (induction c arbitrary: bitpos result)
  case Nil
  then show ?case by (subst varint32_loop_step) (rule rejects_then1 [OF rejects_readbyte])
next
  case (Cons b c)
  then have "b AND 0x80 \<noteq> 0" "leb_split c = None" by (auto split: if_splits)
  then show ?case using Cons.IH
    by (subst varint32_loop_step) (intro rejects_then2 [OF accepts_readbyte], auto simp: rejects_error)
qed

lemma varint32_ok_Cons:
  "varint32_ok (b # v) \<longleftrightarrow>
    (length v + 1 = 5 \<longrightarrow> last v AND 0x70 = 0) \<and> sign_bytes_ok (bit (varint32_val (b # v)) 31) 35 (drop (5 - 1) v)"
proof -
  have "length v = 4 \<Longrightarrow> last v = v ! 3" by (subst last_conv_nth) auto
  then show ?thesis by (auto simp: varint32_ok_def)
qed

text \<open>The four outcomes of a 32-bit varint; \<open>*eof\<close> is set only when there is no byte at all.\<close>

lemma decode_varint32_accepts:
  assumes c: "leb_split c = Some (v, rest)" and v: "length v \<le> 36" "varint32_ok v"
  shows "accepts pb_decode_varint32 c (varint32_val v) rest"
proof -
  obtain b c' where c': "c = b # c'" using c by (cases c) auto
  have "accepts (if b AND 0x80 = 0 then pb_return (ucast b) else varint32_loop 7 (ucast (b AND 0x7f)))
    c' (varint32_val v) rest"
  proof (cases "b AND 0x80 = 0")
    case True
    then have "v = [b]" "rest = c'" using c by (auto simp: c')
    moreover have "b AND 0x7f = b" using True by (intro word_eqI_unat) (simp add: byte_masks high_bit_clear)
    ultimately show ?thesis using True accepts_return by (simp add: varint32_val_word)
  next
    case False
    then obtain v' where v': "leb_split c' = Some (v', rest)" "v = b # v'" using c by (auto simp: c')
    have r: "varint32_val v = ucast (b AND 0x7f) OR push_bit (7 * 1) (leb_word (take (5 - 1) v'))"
      by (simp add: varint32_val_word v'(2))
    have "accepts (varint32_loop 7 (ucast (b AND 0x7f))) c' (varint32_val v) rest"
      using varint32_loop_spec [OF v'(1) _ _ _ r, of 7] v(1) v(2) [unfolded v'(2) varint32_ok_Cons] by (simp add: v'(2))
    with False show ?thesis by simp
  qed
  then show ?thesis unfolding c' decode_varint32_step by (rule accepts_then [OF accepts_readbyte])
qed

lemma decode_varint32_rejects:
  assumes "case leb_split c of None \<Rightarrow> True | Some (v, rest) \<Rightarrow> length v \<le> 36 \<and> \<not> varint32_ok v"
  shows "rejects pb_decode_varint32 c"
proof (cases c)
  case Nil
  then show ?thesis unfolding decode_varint32_step by (auto intro: rejects_then1 rejects_readbyte)
next
  case (Cons b c')
  have "b AND 0x80 \<noteq> 0 \<and> rejects (varint32_loop 7 (ucast (b AND 0x7f))) c'"
  proof (cases "leb_split c")
    case None
    then show ?thesis using varint32_loop_ends by (auto simp: Cons split: if_splits)
  next
    case (Some p)
    then obtain v rest where p: "p = (v, rest)" "leb_split c = Some (v, rest)" by (cases p) auto
    have bad: "length v \<le> 36" "\<not> varint32_ok v" using assms p by auto
    have more: "b AND 0x80 \<noteq> 0"
    proof
      assume "b AND 0x80 = 0"
      then have "v = [b]" using p by (simp add: Cons)
      with bad show False by (simp add: varint32_ok_def)
    qed
    then obtain v' where v': "leb_split c' = Some (v', rest)" "v = b # v'" using p by (auto simp: Cons)
    have r: "varint32_val v = ucast (b AND 0x7f) OR push_bit (7 * 1) (leb_word (take (5 - 1) v'))"
      by (simp add: varint32_val_word v'(2))
    have ends: "if (length v' + 1 = 5 \<longrightarrow> last v' AND 0x70 = 0) \<and> sign_bytes_ok (bit (varint32_val v) 31) 35 (drop (5 - 1) v')
      then accepts (varint32_loop 7 (ucast (b AND 0x7f))) c' (varint32_val v) rest
      else rejects (varint32_loop 7 (ucast (b AND 0x7f))) c'"
      using bad(1) v'(2) by (intro varint32_loop_spec v'(1) r) simp_all
    have "rejects (varint32_loop 7 (ucast (b AND 0x7f))) c'"
      using ends unfolding if_not_P [OF bad(2) [unfolded v'(2) varint32_ok_Cons], folded v'(2)] .
    with more show ?thesis by simp
  qed
  then show ?thesis
    unfolding Cons decode_varint32_step by (intro rejects_then2 [OF accepts_readbyte]) simp
qed

end

section \<open>Canonical varints\<close>

lemma canonical_small: "n < 2 ^ 32 \<Longrightarrow> varint32_ok (leb_bytes n) \<and> varint32_val (leb_bytes n) = of_nat n"
proof -
  assume n: "n < 2 ^ 32"
  have len: "length (leb_bytes n) \<le> 5" using n by (intro leb_bytes_length) simp_all
  have "leb_bytes n ! 4 AND 0x70 = 0" if five: "length (leb_bytes n) = 5"
  proof -
    have "128 ^ 4 \<le> n" using five leb_bytes_length [of n 4] by (rule_tac ccontr) simp
    from drop_leb_bytes [OF this] have "leb_bytes n ! 4 = hd (leb_bytes (n div 128 ^ 4))"
      using five by (metis hd_drop_conv_nth lessI numeral_eq_Suc pred_numeral_simps(3) BitM.simps(2))
    moreover have small: "n div 128 ^ 4 < 16" using n by (simp add: less_mult_imp_div_less)
    ultimately have "leb_bytes n ! 4 = of_nat (n div 128 ^ 4)" by (simp add: leb_bytes_small)
    moreover have "(of_nat m :: u8) AND 0x70 = 0" if "m < 16" for m
    proof -
      have "m \<in> {0..<16}" using that by simp
      then show ?thesis by (auto simp: atLeastLessThan_nat_numeral)
    qed
    ultimately show ?thesis using small by simp
  qed
  moreover have "leb_val (take 5 (leb_bytes n)) = n" using len by (simp add: leb_val_bytes)
  ultimately show ?thesis using len by (simp add: varint32_ok_def varint32_val_def)
qed

text \<open>The sign extension to 64 bits of a negative number.\<close>

lemma canonical_negative:
  assumes "2 ^ 64 - 2 ^ 31 \<le> n" "n < 2 ^ 64"
  shows "varint32_ok (leb_bytes n) \<and> varint32_val (leb_bytes n) = of_nat n"
proof -
  have big: "128 ^ 5 \<le> n" using assms(1) by simp
  have div: "n div 128 ^ 5 = 536870911" using assms by (simp add: div_nat_eqI)
  have drop: "drop 5 (leb_bytes n) = [0xff, 0xff, 0xff, 0xff, 0x01]"
    using drop_leb_bytes [OF big] unfolding div by (simp add: leb_bytes_big leb_bytes_small)
  have val: "varint32_val (leb_bytes n) = of_nat n"
  proof -
    have "(of_nat (n mod 128 ^ 5) :: u32) = of_nat n"
      by (rule word_eqI_unat) (simp add: unat_of_nat mod_mod_cancel)
    then show ?thesis by (simp add: varint32_val_def leb_val_take leb_val_bytes)
  qed
  have "bit (of_nat n :: u32) 31"
  proof -
    have "n div 2 ^ 32 = 4294967295" using assms by (simp add: div_nat_eqI)
    then have "2 ^ 31 \<le> n mod 2 ^ 32" using assms(1) by (simp add: modulo_nat_def)
    then have "unat (of_nat n :: u32) div 2 ^ 31 \<noteq> 0" by (simp add: unat_of_nat div_eq_0_iff)
    then show ?thesis by (metis drop_bit_31 unat_0 unat_drop_bit)
  qed
  moreover have "length (leb_bytes n) \<noteq> 5" using drop by auto
  ultimately show ?thesis using val by (simp add: varint32_ok_def drop)
qed

section \<open>Tags, skipping and fixed-width numbers\<close>

definition le_val :: "bytes \<Rightarrow> nat" where
  "le_val bs = be_val (rev bs)"

definition le_bytes :: "nat \<Rightarrow> nat \<Rightarrow> bytes" where
  "le_bytes n v = rev (be_bytes n v)"

lemma le_val_simps [simp]: "le_val [] = 0" "le_val (b # bs) = unat b + 256 * le_val bs"
  by (simp_all add: le_val_def)

lemma le_val_bytes: "v < 256 ^ n \<Longrightarrow> le_val (le_bytes n v) = v"
  by (simp add: le_val_def le_bytes_def be_val_be_bytes)

lemma length_le_bytes [simp]: "length (le_bytes n v) = n"
  by (simp add: le_bytes_def)

fun le_word :: "bytes \<Rightarrow> 'a::len word" where
  "le_word [] = 0"
| "le_word (b # bs) = ucast b OR push_bit 8 (le_word bs)"

lemma le_word_val: "8 \<le> LENGTH('a) \<Longrightarrow> (le_word bs :: 'a::len word) = of_nat (le_val bs)"
proof (induction bs)
  case (Cons b bs)
  have "unat (ucast b :: 'a word) < 2 ^ 8" using Cons.prems by simp
  then have "ucast b AND push_bit 8 (le_word bs) = (0 :: 'a word)"
    by (metis push_and_small and.commute)
  then have "le_word (b # bs) = ucast b + (push_bit 8 (le_word bs) :: 'a word)"
    by (simp add: disjunctive_add_eq_or)
  then show ?case using Cons by (simp add: push_bit_eq_mult)
qed simp

lemma le_word_val_32: "(le_word bs :: u32) = of_nat (le_val bs)"
  by (simp add: le_word_val)

lemma le_word_val_64: "(le_word bs :: u64) = of_nat (le_val bs)"
  by (simp add: le_word_val)

lemma list4: "length bs = 4 \<Longrightarrow> bs = [bs ! 0, bs ! 1, bs ! 2, bs ! 3]"
  by (auto simp: numeral_eq_Suc length_Suc_conv)

lemma list8: "length bs = 8 \<Longrightarrow> bs = [bs ! 0, bs ! 1, bs ! 2, bs ! 3, bs ! 4, bs ! 5, bs ! 6, bs ! 7]"
  by (auto simp: numeral_eq_Suc length_Suc_conv)

lemma le_word4: "length bs = 4 \<Longrightarrow> (le_word bs :: u32) =
    push_bit 0 (ucast (bs ! 0)) OR push_bit 8 (ucast (bs ! 1)) OR
    push_bit 16 (ucast (bs ! 2)) OR push_bit 24 (ucast (bs ! 3))"
  by (subst list4, assumption) (simp add: push_or or.assoc)

lemma le_word8: "length bs = 8 \<Longrightarrow> (le_word bs :: u64) =
    push_bit 0 (ucast (bs ! 0)) OR push_bit 8 (ucast (bs ! 1)) OR
    push_bit 16 (ucast (bs ! 2)) OR push_bit 24 (ucast (bs ! 3)) OR
    push_bit 32 (ucast (bs ! 4)) OR push_bit 40 (ucast (bs ! 5)) OR
    push_bit 48 (ucast (bs ! 6)) OR push_bit 56 (ucast (bs ! 7))"
  by (subst list8, assumption) (simp add: push_or or.assoc)

text \<open>The decoder of a tag without \<open>*eof\<close>.\<close>

definition decode_tag :: "(pb_wire_type_t \<times> u32, 's) pb_reader" where
  "decode_tag s = map_option fst (pb_decode_tag s)"

lemma varint32_eof_False: "pb_decode_varint32_eof s = Some ((Some x, s'), e) \<Longrightarrow> \<not> e"
  by (auto simp: pb_decode_varint32_eof_def split: option.splits)

lemma decode_tag_eof: "pb_decode_tag s = Some ((Some x, s'), e) \<Longrightarrow> \<not> e"
  by (auto simp: pb_decode_tag_def split: option.splits if_splits dest: varint32_eof_False)

lemma decode_tag_step:
  "decode_tag = pb_then pb_decode_varint32 (\<lambda>temp s. Some (if temp = 0 then None else Some (temp AND 7, drop_bit 3 temp), s))"
  by (rule ext) (auto simp: decode_tag_def pb_decode_tag_def pb_decode_varint32_def pb_then_def split: option.splits)

context pb_bytes
begin

lemma decode_varint_canonical: "accepts pb_decode_varint (leb_bytes (unat x) @ rest) x rest"
  using decode_varint_accepts [OF leb_split_bytes leb_bytes_length_64] by (simp add: leb_val_bytes)

lemma decode_varint32_canonical:
  assumes "n < 2 ^ 32 \<or> 2 ^ 64 - 2 ^ 31 \<le> n \<and> n < 2 ^ 64"
  shows "accepts pb_decode_varint32 (leb_bytes n @ rest) (of_nat n) rest"
proof -
  have "n < 128 ^ 10" using assms by auto
  then have "length (leb_bytes n) \<le> 36" using leb_bytes_length [of n 10] by simp
  moreover have "varint32_ok (leb_bytes n) \<and> varint32_val (leb_bytes n) = of_nat n"
    using assms canonical_small canonical_negative by blast
  ultimately show ?thesis using decode_varint32_accepts [OF leb_split_bytes, of n rest] by simp
qed

lemma skip_varint_accepts: "leb_split c = Some (v, rest) \<Longrightarrow> accepts pb_skip_varint c () rest"
proof (induction c arbitrary: v)
  case (Cons b c)
  have step: "pb_skip_varint = pb_then (pb_read_bytes 1) (\<lambda>bs. if bs ! 0 AND 0x80 \<noteq> 0 then pb_skip_varint else pb_return ())"
    by (rule ext, subst pb_skip_varint.simps) (simp add: pb_then_def split: option.splits)
  have read: "accepts (pb_read_bytes 1) (b # c) [b] c" using accepts_read_bytes [of 1 "b # c"] by simp
  have "accepts (if [b] ! 0 AND 0x80 \<noteq> 0 then pb_skip_varint else pb_return ()) c () rest"
    using Cons accepts_return by (auto split: if_splits)
  then show ?case by (subst step) (rule accepts_then [OF read])
qed simp

lemma skip_varint_rejects: "leb_split c = None \<Longrightarrow> rejects pb_skip_varint c"
proof (induction c)
  case Nil
  show ?case
    by (simp add: rejects_def, subst pb_skip_varint.simps)
      (use rejects_read_bytes [of "[]" 1] in \<open>fastforce simp: rejects_def pb_then_def\<close>)
next
  case (Cons b c)
  have step: "pb_skip_varint = pb_then (pb_read_bytes 1) (\<lambda>bs. if bs ! 0 AND 0x80 \<noteq> 0 then pb_skip_varint else pb_return ())"
    by (rule ext, subst pb_skip_varint.simps) (simp add: pb_then_def split: option.splits)
  have read: "accepts (pb_read_bytes 1) (b # c) [b] c" using accepts_read_bytes [of 1 "b # c"] by simp
  have "rejects (if [b] ! 0 AND 0x80 \<noteq> 0 then pb_skip_varint else pb_return ()) c"
    using Cons by (auto split: if_splits)
  then show ?case by (subst step) (rule rejects_then2 [OF read])
qed

lemma skip_read_accepts: "n \<le> length c \<Longrightarrow> accepts (pb_then (pb_read True n) (\<lambda>_. pb_return ())) c () (drop n c)"
proof -
  assume n: "n \<le> length c"
  show ?thesis unfolding accepts_def
  proof (intro allI impI, elim conjE)
    fix s assume "inv s" "content s = c"
    with n obtain x s' where "pb_read True n s = Some (Some x, s')" "inv s'" "content s' = drop n c"
      by (metis read_null)
    then show "\<exists>s'. pb_then (pb_read True n) (\<lambda>_. pb_return ()) s = Some (Some (), s') \<and> inv s' \<and> content s' = drop n c"
      by (simp add: pb_return_def)
  qed
qed

lemma skip_string_canonical:
  "length p < 2 ^ 32 \<Longrightarrow> accepts pb_skip_string (leb_bytes (length p) @ p @ rest) () rest"
  unfolding pb_skip_string_def
  using skip_read_accepts [of "length p" "p @ rest"]
  by (intro accepts_then [OF decode_varint32_canonical]) (simp_all add: unat_of_nat)

lemma decode_tag_canonical:
  assumes "n < 2 ^ 32" "n \<noteq> 0"
  shows "accepts decode_tag (leb_bytes n @ rest) (of_nat (n mod 8), of_nat (n div 8)) rest"
proof -
  have n: "unat (of_nat n :: u32) = n" using assms by (simp add: unat_of_nat)
  have "(of_nat n :: u32) AND 7 = of_nat (n mod 8)"
    using n by (intro word_eqI_unat) (simp add: unat_and_mask [where n = 3] mask_eq_exp_minus_1 unat_of_nat)
  moreover have "drop_bit 3 (of_nat n :: u32) = of_nat (n div 8)"
    using assms n by (intro word_eqI_unat) (simp add: unat_drop_bit unat_of_nat)
  moreover have "(of_nat n :: u32) \<noteq> 0" using n assms(2) by (metis unat_0)
  ultimately have "accepts (\<lambda>s. Some (if of_nat n = (0 :: u32) then None else Some ((of_nat n :: u32) AND 7, drop_bit 3 (of_nat n :: u32)), s))
      rest (of_nat (n mod 8), of_nat (n div 8)) rest"
    by (simp add: accepts_def)
  then show ?thesis unfolding decode_tag_step using assms(1)
    by (intro accepts_then [OF decode_varint32_canonical]) simp_all
qed

lemma decode_fixed32_accepts: "length p = 4 \<Longrightarrow> accepts pb_decode_fixed32 (p @ rest) (of_nat (le_val p)) rest"
  unfolding pb_decode_fixed32_def
  using accepts_read_bytes [of 4 "p @ rest"] accepts_return [of "of_nat (le_val p) :: u32" rest]
  by (intro accepts_then [of "pb_read_bytes 4" _ p rest])
    (simp_all only: le_word4 [symmetric] length_append le_add1 take_append drop_append order_refl
      take_all drop_all append_Nil2 append_Nil diff_self_eq_0 take_0 drop_0 le_word_val_32)

lemma decode_fixed64_accepts: "length p = 8 \<Longrightarrow> accepts pb_decode_fixed64 (p @ rest) (of_nat (le_val p)) rest"
  unfolding pb_decode_fixed64_def
  using accepts_read_bytes [of 8 "p @ rest"] accepts_return [of "of_nat (le_val p) :: u64" rest]
  by (intro accepts_then [of "pb_read_bytes 8" _ p rest])
    (simp_all only: le_word8 [symmetric] length_append le_add1 take_append drop_append order_refl
      take_all drop_all append_Nil2 append_Nil diff_self_eq_0 take_0 drop_0 le_word_val_64)

end

end
