(* ===== verification/PB_Output.thy ===== *)
theory PB_Output
  imports PB_Varint
begin

text \<open>
  The output streams and the primitive encoders of \<open>pb_encode.c\<close>. A stream without a callback only
  counts; the contract of a sink says what an encoder does on such a stream and on one that writes.
\<close>

section \<open>Output streams\<close>

text \<open>
  No callback; \<open>buf_write\<close> with the memory it fills and the position in it; or a function of the user.
\<close>

datatype 's pb_sink = Sizing | Memory bytes nat | Writer "'s \<Rightarrow> bytes \<Rightarrow> bool \<times> 's" 's

record 's pb_ostream =
  out_sink :: "'s pb_sink"
  max_size :: nat
  bytes_written :: nat
  out_errmsg :: "string option"

type_synonym 's pb_writer = "'s pb_ostream \<Rightarrow> (bool \<times> 's pb_ostream) option"

text \<open>\<open>if (!f(stream)) return false;\<close> and what follows.\<close>

definition then_write :: "'s pb_writer \<Rightarrow> 's pb_writer \<Rightarrow> 's pb_writer" where
  "then_write f g s =
    (case f s of None \<Rightarrow> None | Some (ok, s) \<Rightarrow> if \<not> ok then Some (False, s) else g s)"

definition pb_out_error :: "string \<Rightarrow> 's pb_writer" where
  "pb_out_error msg s =
    Some (False, s\<lparr>out_errmsg := (case out_errmsg s of None \<Rightarrow> Some msg | Some m \<Rightarrow> Some m)\<rparr>)"

definition buf_write :: "bytes \<Rightarrow> bytes \<Rightarrow> nat \<Rightarrow> (bytes \<times> nat) option" where
  "buf_write buf mem dest =
    (if dest + length buf \<le> length mem then Some (write_at dest buf mem, dest + length buf) else None)"

definition pb_ostream_from_buffer :: "bytes \<Rightarrow> nat \<Rightarrow> 's pb_ostream" where
  "pb_ostream_from_buffer buf bufsize =
    \<lparr>out_sink = Memory buf 0, max_size = bufsize, bytes_written = 0, out_errmsg = None\<rparr>"

definition PB_OSTREAM_SIZING :: "'s pb_ostream" where
  "PB_OSTREAM_SIZING = \<lparr>out_sink = Sizing, max_size = 0, bytes_written = 0, out_errmsg = None\<rparr>"

definition out_callback :: "bytes \<Rightarrow> 's pb_sink \<Rightarrow> (bool \<times> 's pb_sink) option" where
  "out_callback buf sink =
    (case sink of
       Sizing \<Rightarrow> None
     | Memory mem dest \<Rightarrow> map_option (\<lambda>(mem, dest). (True, Memory mem dest)) (buf_write buf mem dest)
     | Writer f st \<Rightarrow> (case f st buf of (ok, st) \<Rightarrow> Some (ok, Writer f st)))"

text \<open>\<open>None\<close> for \<open>buf\<close> is the null pointer, which only a stream without a callback may be given.\<close>

definition pb_write :: "bytes option \<Rightarrow> nat \<Rightarrow> 's pb_writer" where
  "pb_write buf count s =
    (let written = size_add (bytes_written s) count
     in if count > 0 \<and> out_sink s \<noteq> Sizing
        then if written < bytes_written s \<or> written > max_size s then pb_out_error ''stream full'' s
             else case buf of
                    None \<Rightarrow> None
                  | Some buf \<Rightarrow>
                      (case out_callback (take count buf) (out_sink s) of
                         None \<Rightarrow> None
                       | Some (ok, sink) \<Rightarrow>
                           let s = s\<lparr>out_sink := sink\<rparr>
                           in if \<not> ok then pb_out_error ''io error'' s
                              else Some (True, s\<lparr>bytes_written := written\<rparr>))
        else Some (True, s\<lparr>bytes_written := written\<rparr>))"

abbreviation write_bytes :: "bytes \<Rightarrow> 's pb_writer" where
  "write_bytes buf \<equiv> pb_write (Some buf) (length buf)"

section \<open>Primitive encoders\<close>

lemma drop_7_less: "value \<noteq> 0 \<Longrightarrow> unat (drop_bit 7 (value :: u64)) < unat value"
  by (simp add: unat_drop_bit unat_gt_0 div_less_dividend)

text \<open>The bytes put into \<open>buffer\<close>, which has ten.\<close>

function encode_varint_loop :: "u64 \<Rightarrow> bytes" where
  "encode_varint_loop value =
    (if value \<noteq> 0 then ucast (value AND 0x7F OR 0x80) # encode_varint_loop (drop_bit 7 value) else [])"
  by pat_completeness auto

termination
  by (relation "measure unat") (auto simp: drop_7_less)

declare encode_varint_loop.simps [simp del]

text \<open>\<open>buffer[i-1] &= 0x7F\<close>.\<close>

definition clear_last :: "bytes \<Rightarrow> bytes" where
  "clear_last buffer = buffer[length buffer - 1 := buffer ! (length buffer - 1) AND 0x7F]"

definition pb_encode_varint :: "u64 \<Rightarrow> 's pb_writer" where
  "pb_encode_varint value =
    (if value \<le> 0x7F then write_bytes [ucast value]
     else
       let buffer = encode_varint_loop value;
           i = length buffer;
           buffer = clear_last buffer
       in if i > 10 then (\<lambda>s. None) else pb_write (Some buffer) i)"

text \<open>The argument is the bit pattern of the \<open>int64_t\<close>.\<close>

definition pb_encode_svarint :: "u64 \<Rightarrow> 's pb_writer" where
  "pb_encode_svarint value =
    (let zigzagged = (if sint value < 0 then NOT (push_bit 1 value) else push_bit 1 value)
     in pb_encode_varint zigzagged)"

definition pb_encode_fixed32 :: "u32 \<Rightarrow> 's pb_writer" where
  "pb_encode_fixed32 val =
    write_bytes [ucast (val AND 0xFF), ucast (drop_bit 8 val AND 0xFF), ucast (drop_bit 16 val AND 0xFF),
      ucast (drop_bit 24 val AND 0xFF)]"

definition pb_encode_fixed64 :: "u64 \<Rightarrow> 's pb_writer" where
  "pb_encode_fixed64 val =
    write_bytes [ucast (val AND 0xFF), ucast (drop_bit 8 val AND 0xFF), ucast (drop_bit 16 val AND 0xFF),
      ucast (drop_bit 24 val AND 0xFF), ucast (drop_bit 32 val AND 0xFF), ucast (drop_bit 40 val AND 0xFF),
      ucast (drop_bit 48 val AND 0xFF), ucast (drop_bit 56 val AND 0xFF)]"

definition pb_encode_tag :: "pb_wire_type_t \<Rightarrow> u32 \<Rightarrow> 's pb_writer" where
  "pb_encode_tag wiretype field_number =
    (let tag = push_bit 3 (ucast field_number) OR ucast wiretype in pb_encode_varint tag)"

definition pb_encode_string :: "bytes option \<Rightarrow> nat \<Rightarrow> 's pb_writer" where
  "pb_encode_string buffer n = then_write (pb_encode_varint (of_nat n)) (pb_write buffer n)"

lemma then_write_simps [simp]:
  "f s = None \<Longrightarrow> then_write f g s = None"
  "f s = Some (False, s') \<Longrightarrow> then_write f g s = Some (False, s')"
  "f s = Some (True, s') \<Longrightarrow> then_write f g s = g s'"
  by (simp_all add: then_write_def)

section \<open>What the loops produce\<close>

lemma low_or_high: "unat (ucast (x AND 0x7F OR 0x80 :: u64) :: u8) = unat x mod 128 + 128"
proof -
  have low: "unat (x AND 0x7F) = unat x mod 128"
    by (simp add: unat_and_mask [where n = 7] mask_eq_exp_minus_1)
  have "push_bit 7 1 AND (x AND 0x7F) = 0" by (rule push_and_small) (simp add: low)
  then have "(x AND 0x7F) AND 0x80 = 0" by (simp add: push_bit_eq_mult and.commute [of "0x80"])
  then have "unat (x AND 0x7F OR 0x80) = unat x mod 128 + 128"
    by (simp add: unat_or_disjoint low)
  then show ?thesis by (simp add: unat_ucast)
qed

lemma low_only: "unat (ucast (x AND 0x7F OR 0x80 :: u64) AND 0x7F :: u8) = unat x mod 128"
  by (simp add: byte_masks low_or_high)

lemma clear_last_simps [simp]: "clear_last [b] = [b AND 0x7F]" "clear_last (b # b' # bs) = b # clear_last (b' # bs)"
  by (simp_all add: clear_last_def)

lemma length_clear_last [simp]: "length (clear_last buffer) = length buffer"
  by (simp add: clear_last_def)

lemma encode_varint_loop_leb:
  "x \<noteq> 0 \<Longrightarrow> encode_varint_loop x \<noteq> [] \<and> clear_last (encode_varint_loop x) = leb_bytes (unat x)"
proof (induction x rule: encode_varint_loop.induct)
  case (1 x)
  let ?b = "encode_varint_loop (drop_bit 7 x)" and ?y = "ucast (x AND 0x7F OR 0x80) :: u8"
  have loop: "encode_varint_loop x = ?y # ?b" using "1.prems" by (subst encode_varint_loop.simps) simp
  show ?case
  proof (cases "drop_bit 7 x = 0")
    case True
    then have "unat x div 2 ^ 7 = 0" by (metis unat_0 unat_drop_bit)
    then have small: "unat x < 128" by (simp add: div_eq_0_iff)
    have "?b = []" using True by (subst encode_varint_loop.simps) simp
    moreover have "?y AND 0x7F = of_nat (unat x)"
      using low_only [of x] small by (intro word_eq_of_nat) simp
    ultimately show ?thesis using small by (simp only: loop leb_bytes_small clear_last_simps) simp
  next
    case False
    then have "unat x div 2 ^ 7 \<noteq> 0" by (metis unat_0 unat_drop_bit unat_eq_0)
    then have big: "128 \<le> unat x" by (simp add: div_eq_0_iff)
    have y: "?y = of_nat (unat x mod 128 + 128)" using low_or_high [of x] by (rule word_eq_of_nat)
    have "?b \<noteq> []" and rest: "clear_last ?b = leb_bytes (unat x div 2 ^ 7)"
      using "1.IH" [OF "1.prems" False] by (simp_all add: unat_drop_bit)
    then obtain b' bs where b': "?b = b' # bs" by (cases ?b) auto
    have "clear_last (?y # ?b) = ?y # clear_last ?b" unfolding b' by (rule clear_last_simps)
    then have "clear_last (encode_varint_loop x) = of_nat (unat x mod 128 + 128) # leb_bytes (unat x div 2 ^ 7)"
      unfolding loop rest y .
    then show ?thesis using big loop by (simp add: leb_bytes_big del: of_nat_add)
  qed
qed

lemma pb_encode_varint_leb: "pb_encode_varint x = write_bytes (leb_bytes (unat x))"
proof (cases "x \<le> 0x7F")
  case True
  then have "unat x < 128" by (simp add: word_le_nat_alt)
  moreover have "ucast x = (of_nat (unat x) :: u8)" by simp
  ultimately show ?thesis using True by (simp add: pb_encode_varint_def leb_bytes_small)
next
  case False
  then have "x \<noteq> 0" by auto
  from encode_varint_loop_leb [OF this] have
    eq: "clear_last (encode_varint_loop x) = leb_bytes (unat x)" by simp
  have len: "length (encode_varint_loop x) = length (leb_bytes (unat x))"
    using arg_cong [OF eq, of length] by simp
  show ?thesis using False leb_bytes_length_64 [of x] by (simp add: pb_encode_varint_def Let_def eq len)
qed

lemma byte_of_word: "ucast (drop_bit k (val :: 'a::len word) AND 0xFF) = (of_nat (unat val div 2 ^ k mod 256) :: u8)"
proof -
  have "unat (ucast (drop_bit k val AND 0xFF) :: u8) = unat val div 2 ^ k mod 256"
    using unat_and_mask [of "0xFF" 8 "drop_bit k val"] by (simp add: unat_ucast unat_drop_bit mask_eq_exp_minus_1)
  then show ?thesis by (rule word_eq_of_nat)
qed

lemma le_bytes_numeral: "le_bytes (numeral k) n = of_nat (n mod 256) # le_bytes (pred_numeral k) (n div 256)"
  by (simp only: le_bytes_def numeral_eq_Suc be_bytes.simps rev_append rev.simps append_Nil append_Cons)

lemma le_bytes_0: "le_bytes 0 n = []"
  by (simp add: le_bytes_def)

lemma le_bytes_1: "le_bytes (Suc 0) n = [of_nat (n mod 256)]"
  by (simp add: le_bytes_def)

lemma div_div: "n div numeral k div m = n div (numeral k * m)" for n :: nat
  by (simp add: div_mult2_eq)

lemma pb_encode_fixed32_le: "pb_encode_fixed32 x = write_bytes (le_bytes 4 (unat x))"
  using byte_of_word [of 0 x] byte_of_word [of 8 x] byte_of_word [of 16 x] byte_of_word [of 24 x]
  by (simp add: pb_encode_fixed32_def le_bytes_numeral le_bytes_1 div_div)

lemma pb_encode_fixed64_le: "pb_encode_fixed64 x = write_bytes (le_bytes 8 (unat x))"
  using byte_of_word [of 0 x] byte_of_word [of 8 x] byte_of_word [of 16 x] byte_of_word [of 24 x]
    byte_of_word [of 32 x] byte_of_word [of 40 x] byte_of_word [of 48 x] byte_of_word [of 56 x]
  by (simp add: pb_encode_fixed64_def le_bytes_numeral le_bytes_1 div_div)

lemma zigzag_inverse:
  fixes x z :: u64
  assumes "z = (if sint x < 0 then NOT (push_bit 1 x) else push_bit 1 x)"
  shows "(if z AND 1 \<noteq> 0 then NOT (drop_bit 1 z) else drop_bit 1 z) = x"
proof -
  obtain y where y: "y = push_bit 1 x" by blast
  have bits: "bit y n \<longleftrightarrow> 0 < n \<and> n < 64 \<and> bit x (n - 1)" for n
    unfolding y bit_push_bit_iff by (auto dest: bit_imp_le_length)
  have neg: "sint x < 0 \<longleftrightarrow> bit x 63" by (simp add: sint_uint bit_uint_iff)
  have z: "z = (if bit x 63 then NOT y else y)" using assms unfolding neg y .
  have "z AND 1 = of_bool (bit z 0)" by (simp add: and_one_eq mod_2_eq_odd bit_0)
  then have odd: "z AND 1 \<noteq> 0 \<longleftrightarrow> bit x 63" by (simp add: z bits bit_not_iff)
  show ?thesis
  proof (rule bit_word_eqI)
    fix n assume "n < LENGTH(64)"
    then show "bit (if z AND 1 \<noteq> 0 then NOT (drop_bit 1 z) else drop_bit 1 z) n = bit x n"
      unfolding odd
      by (cases "n = 63") (auto simp: z bits bit_not_iff bit_drop_bit_eq dest: bit_imp_le_length)
  qed
qed

section \<open>The contract of a sink\<close>

text \<open>
  A sink that writes has room for a number of bytes and keeps what it is given in order.
\<close>

locale pb_sink =
  fixes sinv :: "'s pb_sink \<Rightarrow> bool" and room :: "'s pb_sink \<Rightarrow> nat" and delivered :: "'s pb_sink \<Rightarrow> bytes"
  assumes writing: "sinv k \<Longrightarrow> k \<noteq> Sizing"
    and write_ok: "sinv k \<Longrightarrow> length bs \<le> room k \<Longrightarrow>
      \<exists>k'. out_callback bs k = Some (True, k') \<and> sinv k' \<and> room k' = room k - length bs \<and> delivered k' = delivered k @ bs"
begin

definition ok :: "'s pb_ostream \<Rightarrow> bool" where
  "ok s \<longleftrightarrow> sinv (out_sink s) \<and> bytes_written s \<le> max_size s \<and> max_size s < 2 ^ 63 \<and>
    max_size s - bytes_written s \<le> room (out_sink s)"

definition wrote :: "'s pb_ostream \<Rightarrow> bytes \<Rightarrow> 's pb_ostream \<Rightarrow> bool" where
  "wrote s e s' \<longleftrightarrow> ok s' \<and> bytes_written s' = bytes_written s + length e \<and> max_size s' = max_size s \<and>
    delivered (out_sink s') = delivered (out_sink s) @ e \<and> room (out_sink s') + length e = room (out_sink s)"

text \<open>
  An encoder emits \<open>e\<close>: without a callback it adds the length of \<open>e\<close>; otherwise it writes \<open>e\<close> if there
  is room for it and else fails after a prefix. Or it fails on every stream.
\<close>

definition emits :: "'s pb_writer \<Rightarrow> bytes \<Rightarrow> bool" where
  "emits op e \<longleftrightarrow>
    (\<forall>s. out_sink s = Sizing \<and> bytes_written s < 2 ^ 64 \<longrightarrow>
      op s = Some (True, s\<lparr>bytes_written := size_add (bytes_written s) (length e)\<rparr>)) \<and>
    (\<forall>s. ok s \<longrightarrow>
      (if bytes_written s + length e \<le> max_size s then \<exists>s'. op s = Some (True, s') \<and> wrote s e s'
       else \<exists>s' p. op s = Some (False, s') \<and> prefix p e \<and> wrote s p s'))"

definition fails :: "'s pb_writer \<Rightarrow> bool" where
  "fails op \<longleftrightarrow>
    (\<forall>s. out_sink s = Sizing \<and> bytes_written s < 2 ^ 64 \<longrightarrow> (\<exists>s'. op s = Some (False, s') \<and> out_sink s' = Sizing)) \<and>
    (\<forall>s. ok s \<longrightarrow> (\<exists>s' p. op s = Some (False, s') \<and> wrote s p s'))"

lemma wrote_Nil: "ok s \<Longrightarrow> wrote s [] s"
  by (simp add: wrote_def)

lemma wrote_trans: "wrote s e s' \<Longrightarrow> wrote s' e' s'' \<Longrightarrow> wrote s (e @ e') s''"
  by (simp add: wrote_def)

lemma ok_errmsg: "ok (s\<lparr>out_errmsg := m\<rparr>) = ok s"
  by (simp add: ok_def)

lemma wrote_errmsg: "wrote s e s' \<Longrightarrow> wrote s e (s'\<lparr>out_errmsg := m\<rparr>)"
  by (simp add: wrote_def ok_errmsg)

lemma emits_sizing: "emits op e \<Longrightarrow> out_sink s = Sizing \<Longrightarrow> bytes_written s < 2 ^ 64 \<Longrightarrow>
    op s = Some (True, s\<lparr>bytes_written := size_add (bytes_written s) (length e)\<rparr>)"
  by (simp add: emits_def)

lemma emits_fit: "emits op e \<Longrightarrow> ok s \<Longrightarrow> bytes_written s + length e \<le> max_size s \<Longrightarrow>
    \<exists>s'. op s = Some (True, s') \<and> wrote s e s'"
  by (simp add: emits_def)

lemma emits_full: "emits op e \<Longrightarrow> ok s \<Longrightarrow> max_size s < bytes_written s + length e \<Longrightarrow>
    \<exists>s' p. op s = Some (False, s') \<and> prefix p e \<and> wrote s p s'"
  unfolding emits_def by (metis linorder_not_less)

lemma fails_sizing: "fails op \<Longrightarrow> out_sink s = Sizing \<Longrightarrow> bytes_written s < 2 ^ 64 \<Longrightarrow> \<exists>s'. op s = Some (False, s')"
  by (auto simp: fails_def)

lemma emits_return: "emits (\<lambda>s. Some (True, s)) []"
  by (auto simp: emits_def size_add_def ok_def wrote_def)

lemma fails_error: "fails (pb_out_error msg)"
proof -
  have "ok s \<Longrightarrow> wrote s [] (s\<lparr>out_errmsg := m\<rparr>)" for s m by (rule wrote_errmsg) (rule wrote_Nil)
  then show ?thesis by (auto simp: fails_def pb_out_error_def)
qed

lemma emits_write:
  assumes len: "length e < 2 ^ 64"
  shows "emits (write_bytes e) e"
proof (cases "e = []")
  case True
  have "write_bytes [] s = Some (True, s)" if "bytes_written s < 2 ^ 64" for s
    using that by (simp add: pb_write_def size_add_def)
  moreover have "ok s \<Longrightarrow> bytes_written s < 2 ^ 64 \<and> bytes_written s \<le> max_size s" for s by (simp add: ok_def)
  ultimately show ?thesis by (auto simp: True emits_def wrote_Nil size_add_def dest: wrote_Nil)
next
  case False
  have "\<exists>s'. write_bytes e s = Some (True, s') \<and> wrote s e s'"
    if s: "ok s" "bytes_written s + length e \<le> max_size s" for s
  proof -
    have sum: "size_add (bytes_written s) (length e) = bytes_written s + length e"
      using s by (intro size_add_small) (simp add: ok_def)
    have "sinv (out_sink s)" "length e \<le> room (out_sink s)" using s by (auto simp: ok_def)
    from write_ok [OF this] obtain k' where "out_callback e (out_sink s) = Some (True, k')" "sinv k'"
      "room k' = room (out_sink s) - length e" "delivered k' = delivered (out_sink s) @ e" by blast
    then show ?thesis using s False writing [OF \<open>sinv (out_sink s)\<close>]
      by (auto simp: pb_write_def Let_def sum wrote_def ok_def)
  qed
  moreover have "\<exists>s' p. write_bytes e s = Some (False, s') \<and> prefix p e \<and> wrote s p s'"
    if s: "ok s" "\<not> bytes_written s + length e \<le> max_size s" for s
  proof -
    have "bytes_written s < 2 ^ 64" "sinv (out_sink s)" using s by (auto simp: ok_def)
    with s len have full: "size_add (bytes_written s) (length e) < bytes_written s \<or>
        size_add (bytes_written s) (length e) > max_size s"
      by (cases "bytes_written s + length e < 2 ^ 64") (simp_all add: size_add_small size_add_overflow_iff)
    have "wrote s [] (s\<lparr>out_errmsg := m\<rparr>)" for m by (rule wrote_errmsg) (rule wrote_Nil [OF s(1)])
    with full False writing [OF \<open>sinv (out_sink s)\<close>] show ?thesis
      by (auto simp: pb_write_def Let_def pb_out_error_def intro!: exI [of _ "[]"])
  qed
  moreover have "write_bytes e s = Some (True, s\<lparr>bytes_written := size_add (bytes_written s) (length e)\<rparr>)"
    if "out_sink s = Sizing" for s using that by (simp add: pb_write_def)
  ultimately show ?thesis by (auto simp: emits_def)
qed

lemma emits_then:
  assumes f: "emits f e1" and g: "emits g e2"
  shows "emits (then_write f g) (e1 @ e2)"
  unfolding emits_def
proof (intro conjI allI impI)
  fix s :: "'s pb_ostream"
  assume "out_sink s = Sizing \<and> bytes_written s < 2 ^ 64"
  then have "f s = Some (True, s\<lparr>bytes_written := size_add (bytes_written s) (length e1)\<rparr>)"
    "g (s\<lparr>bytes_written := size_add (bytes_written s) (length e1)\<rparr>) =
      Some (True, s\<lparr>bytes_written := size_add (size_add (bytes_written s) (length e1)) (length e2)\<rparr>)"
    using emits_sizing [OF f] emits_sizing [OF g] by (simp_all add: size_add_def)
  then show "then_write f g s = Some (True, s\<lparr>bytes_written := size_add (bytes_written s) (length (e1 @ e2))\<rparr>)"
    by (simp add: size_add_def mod_add_left_eq add.assoc)
next
  fix s :: "'s pb_ostream"
  assume s: "ok s"
  show "if bytes_written s + length (e1 @ e2) \<le> max_size s
    then \<exists>s'. then_write f g s = Some (True, s') \<and> wrote s (e1 @ e2) s'
    else \<exists>s' p. then_write f g s = Some (False, s') \<and> prefix p (e1 @ e2) \<and> wrote s p s'"
  proof (cases "bytes_written s + length e1 \<le> max_size s")
    case True
    with emits_fit [OF f s] obtain s1 where s1: "f s = Some (True, s1)" "wrote s e1 s1" by blast
    then have ok1: "ok s1" and w1: "bytes_written s1 = bytes_written s + length e1" "max_size s1 = max_size s"
      by (simp_all add: wrote_def)
    show ?thesis
    proof (cases "bytes_written s1 + length e2 \<le> max_size s1")
      case True
      from emits_fit [OF g ok1 this] s1 w1 True show ?thesis by (auto intro: wrote_trans)
    next
      case False
      with emits_full [OF g ok1] obtain s2 p where "g s1 = Some (False, s2)" "prefix p e2" "wrote s1 p s2" by auto
      with s1 w1 False have "then_write f g s = Some (False, s2)" "prefix (e1 @ p) (e1 @ e2)" "wrote s (e1 @ p) s2"
        by (auto intro: wrote_trans)
      with w1 False show ?thesis by (auto intro!: exI [of _ "e1 @ p"])
    qed
  next
    case False
    with emits_full [OF f s] obtain s1 p where "f s = Some (False, s1)" "prefix p e1" "wrote s p s1" by auto
    with False show ?thesis by (auto intro: prefix_prefix)
  qed
qed

lemma fails_then1: "fails f \<Longrightarrow> fails (then_write f g)"
  unfolding fails_def by (metis then_write_simps(2))

lemma fails_then2:
  assumes f: "emits f e1" and g: "fails g"
  shows "fails (then_write f g)"
  unfolding fails_def
proof (intro conjI allI impI)
  fix s :: "'s pb_ostream"
  assume "out_sink s = Sizing \<and> bytes_written s < 2 ^ 64"
  moreover then have "f s = Some (True, s\<lparr>bytes_written := size_add (bytes_written s) (length e1)\<rparr>)"
    using emits_sizing [OF f] by simp
  moreover have "size_add (bytes_written s) (length e1) < 2 ^ 64" by (simp add: size_add_def)
  ultimately show "\<exists>s'. then_write f g s = Some (False, s') \<and> out_sink s' = Sizing"
    using g by (auto simp: fails_def)
next
  fix s :: "'s pb_ostream"
  assume s: "ok s"
  show "\<exists>s' p. then_write f g s = Some (False, s') \<and> wrote s p s'"
  proof (cases "bytes_written s + length e1 \<le> max_size s")
    case True
    with emits_fit [OF f s] obtain s1 where s1: "f s = Some (True, s1)" "wrote s e1 s1" by blast
    then have "ok s1" by (simp add: wrote_def)
    with g obtain s2 p where "g s1 = Some (False, s2)" "wrote s1 p s2" by (auto simp: fails_def)
    with s1 show ?thesis by (auto intro: wrote_trans)
  next
    case False
    with emits_full [OF f s] show ?thesis by (metis linorder_not_less then_write_simps(2))
  qed
qed

lemma length_leb_64: "length (leb_bytes (unat (x :: u64))) < 2 ^ 64"
  using leb_bytes_length_64 [of x] by simp

lemma emits_varint: "emits (pb_encode_varint x) (leb_bytes (unat x))"
  unfolding pb_encode_varint_leb by (rule emits_write) (rule length_leb_64)

lemma emits_fixed32: "emits (pb_encode_fixed32 x) (le_bytes 4 (unat x))"
  unfolding pb_encode_fixed32_le by (rule emits_write) simp

lemma emits_fixed64: "emits (pb_encode_fixed64 x) (le_bytes 8 (unat x))"
  unfolding pb_encode_fixed64_le by (rule emits_write) simp

end

section \<open>Memory\<close>

definition memory_ok :: "'s pb_sink \<Rightarrow> bool" where
  "memory_ok k \<longleftrightarrow> (\<exists>mem dest. k = Memory mem dest \<and> dest \<le> length mem)"

definition memory_room :: "'s pb_sink \<Rightarrow> nat" where
  "memory_room k = (case k of Memory mem dest \<Rightarrow> length mem - dest | _ \<Rightarrow> 0)"

definition memory_output :: "'s pb_sink \<Rightarrow> bytes" where
  "memory_output k = (case k of Memory mem dest \<Rightarrow> take dest mem | _ \<Rightarrow> [])"

interpretation memory: pb_sink memory_ok memory_room memory_output
proof
  show "memory_ok k \<Longrightarrow> k \<noteq> Sizing" for k :: "'s pb_sink" by (auto simp: memory_ok_def)
  show "\<exists>k'. out_callback bs k = Some (True, k') \<and> memory_ok k' \<and> memory_room k' = memory_room k - length bs \<and>
      memory_output k' = memory_output k @ bs"
    if "memory_ok k" "length bs \<le> memory_room k" for k :: "'s pb_sink" and bs
    using that
    by (auto simp: memory_ok_def memory_room_def memory_output_def out_callback_def buf_write_def take_write_at)
qed

end
