(* ===== verification/PB_Fields.thy ===== *)
theory PB_Fields
  imports PB_Output
begin

text \<open>
  The generated descriptions of messages (\<open>pb_field_t\<close>, \<open>pb.h\<close>) and the iterator over the fields of a
  struct (\<open>pb_common.c\<close>). An address is a 64-bit word; a description is the array of \<open>pb_field_t\<close> up to
  and with its terminator, and a position in it an index.
\<close>

section \<open>Field descriptions\<close>

type_synonym addr = u64

record pb_field =
  tag :: u32
  ftype :: u8
  data_offset :: u32
  size_offset :: u32
  data_size :: u32
  array_size :: u32
  ptr :: addr

definition PB_LTYPE_BOOL :: u8 where "PB_LTYPE_BOOL = 0x00"
definition PB_LTYPE_VARINT :: u8 where "PB_LTYPE_VARINT = 0x01"
definition PB_LTYPE_UVARINT :: u8 where "PB_LTYPE_UVARINT = 0x02"
definition PB_LTYPE_SVARINT :: u8 where "PB_LTYPE_SVARINT = 0x03"
definition PB_LTYPE_FIXED32 :: u8 where "PB_LTYPE_FIXED32 = 0x04"
definition PB_LTYPE_FIXED64 :: u8 where "PB_LTYPE_FIXED64 = 0x05"
definition PB_LTYPE_LAST_PACKABLE :: u8 where "PB_LTYPE_LAST_PACKABLE = 0x05"
definition PB_LTYPE_BYTES :: u8 where "PB_LTYPE_BYTES = 0x06"
definition PB_LTYPE_STRING :: u8 where "PB_LTYPE_STRING = 0x07"
definition PB_LTYPE_SUBMESSAGE :: u8 where "PB_LTYPE_SUBMESSAGE = 0x08"
definition PB_LTYPE_EXTENSION :: u8 where "PB_LTYPE_EXTENSION = 0x09"
definition PB_LTYPE_FIXED_LENGTH_BYTES :: u8 where "PB_LTYPE_FIXED_LENGTH_BYTES = 0x0A"
definition PB_LTYPES_COUNT :: u8 where "PB_LTYPES_COUNT = 0x0B"

definition PB_HTYPE_REQUIRED :: u8 where "PB_HTYPE_REQUIRED = 0x00"
definition PB_HTYPE_OPTIONAL :: u8 where "PB_HTYPE_OPTIONAL = 0x10"
definition PB_HTYPE_REPEATED :: u8 where "PB_HTYPE_REPEATED = 0x20"
definition PB_HTYPE_ONEOF :: u8 where "PB_HTYPE_ONEOF = 0x30"

definition PB_ATYPE_STATIC :: u8 where "PB_ATYPE_STATIC = 0x00"
definition PB_ATYPE_POINTER :: u8 where "PB_ATYPE_POINTER = 0x80"
definition PB_ATYPE_CALLBACK :: u8 where "PB_ATYPE_CALLBACK = 0x40"

definition PB_ATYPE :: "u8 \<Rightarrow> u8" where "PB_ATYPE x = x AND 0xC0"
definition PB_HTYPE :: "u8 \<Rightarrow> u8" where "PB_HTYPE x = x AND 0x30"
definition PB_LTYPE :: "u8 \<Rightarrow> u8" where "PB_LTYPE x = x AND 0x0F"

definition PB_SIZE_MAX :: u32 where "PB_SIZE_MAX = - 1"

lemmas pb_ltypes =
  PB_LTYPE_BOOL_def PB_LTYPE_VARINT_def PB_LTYPE_UVARINT_def PB_LTYPE_SVARINT_def PB_LTYPE_FIXED32_def
  PB_LTYPE_FIXED64_def PB_LTYPE_LAST_PACKABLE_def PB_LTYPE_BYTES_def PB_LTYPE_STRING_def
  PB_LTYPE_SUBMESSAGE_def PB_LTYPE_EXTENSION_def PB_LTYPE_FIXED_LENGTH_BYTES_def PB_LTYPES_COUNT_def

lemmas pb_htypes = PB_HTYPE_REQUIRED_def PB_HTYPE_OPTIONAL_def PB_HTYPE_REPEATED_def PB_HTYPE_ONEOF_def

lemmas pb_atypes = PB_ATYPE_STATIC_def PB_ATYPE_POINTER_def PB_ATYPE_CALLBACK_def

section \<open>The iterator\<close>

record pb_field_iter =
  start :: "pb_field list"
  pos :: nat
  required_field_index :: nat
  dest_struct :: addr
  pData :: addr
  pSize :: addr

definition iter_field :: "pb_field_iter \<Rightarrow> pb_field" where
  "iter_field iter = start iter ! pos iter"

text \<open>\<open>None\<close>: a description without a terminator is read past its end.\<close>

definition pb_field_iter_begin :: "pb_field list \<Rightarrow> addr \<Rightarrow> (pb_field_iter \<times> bool) option" where
  "pb_field_iter_begin descr dest =
    (if descr = [] then None
     else
       let f = descr ! 0;
           data = (if dest = 0 then 0 else dest + ucast (data_offset f));
           count = (if dest = 0 then 0 else data + scast (size_offset f))
       in Some (\<lparr>start = descr, pos = 0, required_field_index = 0, dest_struct = dest, pData = data, pSize = count\<rparr>,
            tag f \<noteq> 0))"

definition pb_field_iter_next :: "pb_field_iter \<Rightarrow> (pb_field_iter \<times> bool) option" where
  "pb_field_iter_next iter =
    (let prev_field = iter_field iter
     in if pos iter \<ge> length (start iter) then None
        else if tag prev_field = 0 then Some (iter, False)
        else if pos iter + 1 \<ge> length (start iter) then None
        else
          let iter = iter\<lparr>pos := pos iter + 1\<rparr>;
              f = iter_field iter
          in if tag f = 0
             then map_option (\<lambda>(iter, _). (iter, False)) (pb_field_iter_begin (start iter) (dest_struct iter))
             else if PB_HTYPE (ftype prev_field) = PB_HTYPE_ONEOF \<and> PB_HTYPE (ftype f) = PB_HTYPE_ONEOF \<and>
                data_offset f = PB_SIZE_MAX
             then Some (iter, True)
             else
               let prev_size =
                     (if PB_ATYPE (ftype prev_field) = PB_ATYPE_STATIC \<and> PB_HTYPE (ftype prev_field) = PB_HTYPE_REPEATED
                      then ucast (data_size prev_field) * ucast (array_size prev_field)
                      else if PB_ATYPE (ftype prev_field) = PB_ATYPE_POINTER then 8
                      else ucast (data_size prev_field));
                   iter = (if PB_HTYPE (ftype prev_field) = PB_HTYPE_REQUIRED
                           then iter\<lparr>required_field_index := required_field_index iter + 1\<rparr> else iter);
                   data = pData iter + prev_size + ucast (data_offset f)
               in Some (iter\<lparr>pData := data, pSize := data + scast (size_offset f)\<rparr>, True))"

partial_function (option) pb_field_iter_find_loop ::
  "nat \<Rightarrow> u32 \<Rightarrow> pb_field_iter \<Rightarrow> (pb_field_iter \<times> bool) option" where
  "pb_field_iter_find_loop first iter_tag iter =
    (if pos iter \<ge> length (start iter) then None
     else if tag (iter_field iter) = iter_tag \<and> PB_LTYPE (ftype (iter_field iter)) \<noteq> PB_LTYPE_EXTENSION
     then Some (iter, True)
     else Option.bind (pb_field_iter_next iter) (\<lambda>r.
       if pos (fst r) \<noteq> first then pb_field_iter_find_loop first iter_tag (fst r) else Some (fst r, False)))"

definition pb_field_iter_find :: "u32 \<Rightarrow> pb_field_iter \<Rightarrow> (pb_field_iter \<times> bool) option" where
  "pb_field_iter_find iter_tag iter = pb_field_iter_find_loop (pos iter) iter_tag iter"

end
