(* ===== verification/PB_Encode.thy ===== *)
theory PB_Encode
  imports PB_Fields
begin

text \<open>
  The encoder of messages in \<open>pb_encode.c\<close>: it walks over a struct in memory by its description. The
  memory is a map from addresses to bytes, which the encoder only reads. The functions that call each
  other through \<open>pb_encode\<close> take it as the argument \<open>enc\<close>, and \<open>pb_encode\<close> itself a number that bounds the
  nesting of messages.
\<close>

section \<open>Reading the structs\<close>

text \<open>
  Besides the memory: the descriptions by their addresses, and the functions of the user, which
  callback fields and types of extensions point to.
\<close>

record 's pb_env =
  mem :: "addr \<Rightarrow> u8"
  descr_at :: "addr \<Rightarrow> pb_field list"
  callback_encode :: "addr \<Rightarrow> pb_field \<Rightarrow> addr \<Rightarrow> 's pb_writer"
  extension_encode :: "addr \<Rightarrow> addr \<Rightarrow> 's pb_writer"

definition load_bytes :: "'s pb_env \<Rightarrow> addr \<Rightarrow> nat \<Rightarrow> bytes" where
  "load_bytes env p n = map (\<lambda>i. mem env (p + of_nat i)) [0..<n]"

text \<open>Numbers are stored in little-endian order.\<close>

definition load8 :: "'s pb_env \<Rightarrow> addr \<Rightarrow> u8" where "load8 env p = mem env p"
definition load16 :: "'s pb_env \<Rightarrow> addr \<Rightarrow> u16" where "load16 env p = of_nat (le_val (load_bytes env p 2))"
definition load32 :: "'s pb_env \<Rightarrow> addr \<Rightarrow> u32" where "load32 env p = of_nat (le_val (load_bytes env p 4))"
definition load64 :: "'s pb_env \<Rightarrow> addr \<Rightarrow> u64" where "load64 env p = of_nat (le_val (load_bytes env p 8))"

definition buffer_at :: "'s pb_env \<Rightarrow> addr \<Rightarrow> nat \<Rightarrow> bytes option" where
  "buffer_at env p n = (if p = 0 then None else Some (load_bytes env p n))"

definition safe_read_bool :: "'s pb_env \<Rightarrow> addr \<Rightarrow> bool" where
  "safe_read_bool env p = (load8 env p \<noteq> 0)"

text \<open>\<open>while (size < max_size && *p != '\0')\<close>.\<close>

function strlen_loop :: "'s pb_env \<Rightarrow> addr \<Rightarrow> nat \<Rightarrow> nat \<Rightarrow> nat" where
  "strlen_loop env p n limit = (if n < limit \<and> load8 env p \<noteq> 0 then strlen_loop env (p + 1) (n + 1) limit else n)"
  by pat_completeness auto

termination
  by (relation "measure (\<lambda>(env, p, n, limit). limit - n)") auto

declare strlen_loop.simps [simp del]

section \<open>Encoders of values\<close>

type_synonym 's pb_encoder = "pb_field \<Rightarrow> addr \<Rightarrow> 's pb_writer"

definition pb_enc_bool :: "'s pb_env \<Rightarrow> 's pb_encoder" where
  "pb_enc_bool env field src = pb_encode_varint (if safe_read_bool env src then 1 else 0)"

definition pb_enc_varint :: "'s pb_env \<Rightarrow> 's pb_encoder" where
  "pb_enc_varint env field src =
    (if data_size field = 1 then pb_encode_varint (scast (load8 env src))
     else if data_size field = 2 then pb_encode_varint (scast (load16 env src))
     else if data_size field = 4 then pb_encode_varint (scast (load32 env src))
     else if data_size field = 8 then pb_encode_varint (load64 env src)
     else pb_out_error ''invalid data_size'')"

definition pb_enc_uvarint :: "'s pb_env \<Rightarrow> 's pb_encoder" where
  "pb_enc_uvarint env field src =
    (if data_size field = 1 then pb_encode_varint (ucast (load8 env src))
     else if data_size field = 2 then pb_encode_varint (ucast (load16 env src))
     else if data_size field = 4 then pb_encode_varint (ucast (load32 env src))
     else if data_size field = 8 then pb_encode_varint (load64 env src)
     else pb_out_error ''invalid data_size'')"

definition pb_enc_svarint :: "'s pb_env \<Rightarrow> 's pb_encoder" where
  "pb_enc_svarint env field src =
    (if data_size field = 1 then pb_encode_svarint (scast (load8 env src))
     else if data_size field = 2 then pb_encode_svarint (scast (load16 env src))
     else if data_size field = 4 then pb_encode_svarint (scast (load32 env src))
     else if data_size field = 8 then pb_encode_svarint (load64 env src)
     else pb_out_error ''invalid data_size'')"

definition pb_enc_fixed32 :: "'s pb_env \<Rightarrow> 's pb_encoder" where
  "pb_enc_fixed32 env field src = pb_encode_fixed32 (load32 env src)"

definition pb_enc_fixed64 :: "'s pb_env \<Rightarrow> 's pb_encoder" where
  "pb_enc_fixed64 env field src = pb_encode_fixed64 (load64 env src)"

text \<open>A \<open>pb_bytes_array_t\<close> has its size in the first four bytes.\<close>

definition pb_enc_bytes :: "'s pb_env \<Rightarrow> 's pb_encoder" where
  "pb_enc_bytes env field src =
    (if src = 0 then pb_encode_string None 0
     else
       let n = load32 env src
       in if PB_ATYPE (ftype field) = PB_ATYPE_STATIC \<and> ucast n > (ucast (data_size field) - 4 :: u64)
          then pb_out_error ''bytes size exceeded''
          else pb_encode_string (buffer_at env (src + 4) (unat n)) (unat n))"

definition pb_enc_string :: "'s pb_env \<Rightarrow> 's pb_encoder" where
  "pb_enc_string env field src =
    (let limit = (if PB_ATYPE (ftype field) = PB_ATYPE_POINTER then 2 ^ 64 - 1 else unat (data_size field));
         n = (if src = 0 then 0 else strlen_loop env src 0 limit)
     in pb_encode_string (buffer_at env src n) n)"

definition pb_enc_fixed_length_bytes :: "'s pb_env \<Rightarrow> 's pb_encoder" where
  "pb_enc_fixed_length_bytes env field src =
    pb_encode_string (buffer_at env src (unat (data_size field))) (unat (data_size field))"

section \<open>Submessages\<close>

text \<open>After the size: a substream verifies that the second pass writes as much as the first has counted.\<close>

definition write_submessage :: "(addr \<Rightarrow> addr \<Rightarrow> 's pb_writer) \<Rightarrow> addr \<Rightarrow> addr \<Rightarrow> nat \<Rightarrow> 's pb_writer" where
  "write_submessage enc descr src n s =
    (if out_sink s = Sizing then pb_write None n s
     else if size_add (bytes_written s) n > max_size s then pb_out_error ''stream full'' s
     else
       case enc descr src (s\<lparr>max_size := n, bytes_written := 0, out_errmsg := None\<rparr>) of
         None \<Rightarrow> None
       | Some (status, substream) \<Rightarrow>
           let s = s\<lparr>bytes_written := size_add (bytes_written s) (bytes_written substream),
                   out_sink := out_sink substream, out_errmsg := out_errmsg substream\<rparr>
           in if bytes_written substream \<noteq> n then pb_out_error ''submsg size changed'' s
              else Some (status, s))"

definition pb_encode_submessage :: "(addr \<Rightarrow> addr \<Rightarrow> 's pb_writer) \<Rightarrow> addr \<Rightarrow> addr \<Rightarrow> 's pb_writer" where
  "pb_encode_submessage enc descr src s =
    (case enc descr src PB_OSTREAM_SIZING of
       None \<Rightarrow> None
     | Some (ok, substream) \<Rightarrow>
         if \<not> ok then Some (False, s\<lparr>out_errmsg := out_errmsg substream\<rparr>)
         else
           let n = bytes_written substream
           in then_write (pb_encode_varint (of_nat n)) (write_submessage enc descr src n) s)"

definition pb_enc_submessage :: "(addr \<Rightarrow> addr \<Rightarrow> 's pb_writer) \<Rightarrow> 's pb_encoder" where
  "pb_enc_submessage enc field src =
    (if ptr field = 0 then pb_out_error ''invalid field descriptor''
     else pb_encode_submessage enc (ptr field) src)"

text \<open>The table of encoders: there is none for extensions, and none past its end.\<close>

definition PB_ENCODERS :: "'s pb_env \<Rightarrow> (addr \<Rightarrow> addr \<Rightarrow> 's pb_writer) \<Rightarrow> u8 \<Rightarrow> 's pb_encoder option" where
  "PB_ENCODERS env enc ltype =
    (if ltype = PB_LTYPE_BOOL then Some (pb_enc_bool env)
     else if ltype = PB_LTYPE_VARINT then Some (pb_enc_varint env)
     else if ltype = PB_LTYPE_UVARINT then Some (pb_enc_uvarint env)
     else if ltype = PB_LTYPE_SVARINT then Some (pb_enc_svarint env)
     else if ltype = PB_LTYPE_FIXED32 then Some (pb_enc_fixed32 env)
     else if ltype = PB_LTYPE_FIXED64 then Some (pb_enc_fixed64 env)
     else if ltype = PB_LTYPE_BYTES then Some (pb_enc_bytes env)
     else if ltype = PB_LTYPE_STRING then Some (pb_enc_string env)
     else if ltype = PB_LTYPE_SUBMESSAGE then Some (pb_enc_submessage enc)
     else if ltype = PB_LTYPE_EXTENSION then Some (\<lambda>field src s. None)
     else if ltype = PB_LTYPE_FIXED_LENGTH_BYTES then Some (pb_enc_fixed_length_bytes env)
     else None)"

definition pb_encode_tag_for_field :: "pb_field \<Rightarrow> 's pb_writer" where
  "pb_encode_tag_for_field field =
    (let ltype = PB_LTYPE (ftype field)
     in if ltype \<in> {PB_LTYPE_BOOL, PB_LTYPE_VARINT, PB_LTYPE_UVARINT, PB_LTYPE_SVARINT}
        then pb_encode_tag PB_WT_VARINT (tag field)
        else if ltype = PB_LTYPE_FIXED32 then pb_encode_tag PB_WT_32BIT (tag field)
        else if ltype = PB_LTYPE_FIXED64 then pb_encode_tag PB_WT_64BIT (tag field)
        else if ltype \<in> {PB_LTYPE_BYTES, PB_LTYPE_STRING, PB_LTYPE_SUBMESSAGE, PB_LTYPE_FIXED_LENGTH_BYTES}
        then pb_encode_tag PB_WT_STRING (tag field)
        else pb_out_error ''invalid field type'')"

section \<open>Arrays\<close>

text \<open>\<open>for (i = 0; i < count; i++)\<close>, with the pointer \<open>p\<close> to the item.\<close>

fun encode_items :: "(addr \<Rightarrow> 's pb_writer) \<Rightarrow> u32 \<Rightarrow> addr \<Rightarrow> nat \<Rightarrow> 's pb_writer" where
  "encode_items func item_size p 0 = (\<lambda>s. Some (True, s))"
| "encode_items func item_size p (Suc n) =
    then_write (func p) (encode_items func item_size (p + ucast item_size) n)"

text \<open>The total size of a packed array; \<open>Some None\<close> when an item cannot be encoded.\<close>

definition packed_size :: "'s pb_encoder \<Rightarrow> pb_field \<Rightarrow> addr \<Rightarrow> nat \<Rightarrow> nat option option" where
  "packed_size func field data count =
    (if PB_LTYPE (ftype field) = PB_LTYPE_FIXED32 then Some (Some (4 * count))
     else if PB_LTYPE (ftype field) = PB_LTYPE_FIXED64 then Some (Some (8 * count))
     else
       case encode_items (func field) (data_size field) data count PB_OSTREAM_SIZING of
         None \<Rightarrow> None
       | Some (status, sizestream) \<Rightarrow> Some (if status then Some (bytes_written sizestream) else None))"

definition write_packed :: "'s pb_encoder \<Rightarrow> pb_field \<Rightarrow> addr \<Rightarrow> nat \<Rightarrow> nat \<Rightarrow> 's pb_writer" where
  "write_packed func field data count n s =
    (if out_sink s = Sizing then pb_write None n s
     else encode_items (func field) (data_size field) data count s)"

definition encode_array :: "'s pb_env \<Rightarrow> 's pb_encoder \<Rightarrow> pb_field \<Rightarrow> addr \<Rightarrow> nat \<Rightarrow> 's pb_writer" where
  "encode_array env func field data count =
    (if count = 0 then (\<lambda>s. Some (True, s))
     else if PB_ATYPE (ftype field) \<noteq> PB_ATYPE_POINTER \<and> count > unat (array_size field)
     then pb_out_error ''array max size exceeded''
     else if PB_LTYPE (ftype field) \<le> PB_LTYPE_LAST_PACKABLE
     then then_write (pb_encode_tag PB_WT_STRING (tag field)) (\<lambda>s.
       case packed_size func field data count of
         None \<Rightarrow> None
       | Some None \<Rightarrow> Some (False, s)
       | Some (Some n) \<Rightarrow>
           then_write (pb_encode_varint (of_nat n)) (write_packed func field data count n) s)
     else
       encode_items (\<lambda>p. then_write (pb_encode_tag_for_field field)
         (if PB_ATYPE (ftype field) = PB_ATYPE_POINTER \<and>
             (PB_LTYPE (ftype field) = PB_LTYPE_STRING \<or> PB_LTYPE (ftype field) = PB_LTYPE_BYTES)
          then func field (load64 env p) else func field p)) (data_size field) data count)"

end
