(* ===== verification/PB_Message.thy ===== *)
theory PB_Message
  imports PB_Encode
begin

text \<open>
  The fields of a message in \<open>pb_encode.c\<close>: default values, presence, callbacks and extensions, and the
  loop over all fields.
\<close>

section \<open>Default values\<close>

text \<open>
  \<open>dflt\<close> stands for the check of all fields of a submessage. The two questions of the end: a null
  pointer, and bytes that are all zero.
\<close>

definition zero_bytes :: "'s pb_env \<Rightarrow> addr \<Rightarrow> nat \<Rightarrow> bool" where
  "zero_bytes env p n = list_all (\<lambda>b. b = 0) (load_bytes env p n)"

definition pb_check_proto3_default_value ::
  "'s pb_env \<Rightarrow> (addr \<Rightarrow> addr \<Rightarrow> bool option) \<Rightarrow> pb_field \<Rightarrow> addr \<Rightarrow> bool option" where
  "pb_check_proto3_default_value env dflt field data =
    (let htype = PB_HTYPE (ftype field);
         atype = PB_ATYPE (ftype field);
         ltype = PB_LTYPE (ftype field);
         count = data + scast (size_offset field)
     in if htype = PB_HTYPE_REQUIRED then Some False
        else if htype = PB_HTYPE_REPEATED \<and> size_offset field \<noteq> 0 then Some (load32 env count = 0)
        else if htype = PB_HTYPE_REPEATED \<and> atype = PB_ATYPE_STATIC then Some False
        else if htype = PB_HTYPE_ONEOF then Some (load32 env count = 0)
        else if htype = PB_HTYPE_OPTIONAL \<and> size_offset field \<noteq> 0 then Some (\<not> safe_read_bool env count)
        else if atype = PB_ATYPE_STATIC \<and> ltype = PB_LTYPE_BYTES then Some (load32 env data = 0)
        else if atype = PB_ATYPE_STATIC \<and> ltype = PB_LTYPE_STRING then Some (load8 env data = 0)
        else if atype = PB_ATYPE_STATIC \<and> ltype = PB_LTYPE_FIXED_LENGTH_BYTES then Some (data_size field = 0)
        else if atype = PB_ATYPE_STATIC \<and> ltype = PB_LTYPE_SUBMESSAGE then dflt (ptr field) data
        else if atype = PB_ATYPE_POINTER \<and> ltype > PB_LTYPE_LAST_PACKABLE then Some (load64 env data = 0)
        else Some (zero_bytes env data (unat (data_size field))))"

lemma next_more: "pb_field_iter_next iter = Some (iter', True) \<Longrightarrow>
    start iter' = start iter \<and> pos iter' = Suc (pos iter) \<and> pos iter' < length (start iter)"
  by (auto simp: pb_field_iter_next_def pb_field_iter_begin_def Let_def split: if_splits)

function check_fields_loop :: "'s pb_env \<Rightarrow> (addr \<Rightarrow> addr \<Rightarrow> bool option) \<Rightarrow> pb_field_iter \<Rightarrow> bool option" where
  "check_fields_loop env dflt iter =
    (case pb_check_proto3_default_value env dflt (iter_field iter) (pData iter) of
       None \<Rightarrow> None
     | Some zero \<Rightarrow>
         if \<not> zero then Some False
         else case pb_field_iter_next iter of
                None \<Rightarrow> None
              | Some (iter, again) \<Rightarrow> if again then check_fields_loop env dflt iter else Some True)"
  by pat_completeness auto

termination
  by (relation "measure (\<lambda>(env, dflt, iter). length (start iter) - pos iter)") (auto dest: next_more)

declare check_fields_loop.simps [simp del]

definition check_submessage :: "'s pb_env \<Rightarrow> (addr \<Rightarrow> addr \<Rightarrow> bool option) \<Rightarrow> addr \<Rightarrow> addr \<Rightarrow> bool option" where
  "check_submessage env dflt descr src =
    (case pb_field_iter_begin (descr_at env descr) src of
       None \<Rightarrow> None
     | Some (iter, nonempty) \<Rightarrow> if nonempty then check_fields_loop env dflt iter else Some True)"

text \<open>The number bounds the nesting of submessages.\<close>

fun submessage_is_default :: "'s pb_env \<Rightarrow> nat \<Rightarrow> addr \<Rightarrow> addr \<Rightarrow> bool option" where
  "submessage_is_default env 0 = (\<lambda>descr src. None)"
| "submessage_is_default env (Suc n) = check_submessage env (submessage_is_default env n)"

section \<open>Fields\<close>

text \<open>
  The flag that \<open>pSize\<close> points to is \<open>implicit_has\<close> or in the struct. \<open>None\<close>: the size of a oneof is read
  from \<open>implicit_has\<close>, or the table of encoders past its end.
\<close>

definition encode_basic_field ::
  "'s pb_env \<Rightarrow> (addr \<Rightarrow> addr \<Rightarrow> 's pb_writer) \<Rightarrow> (addr \<Rightarrow> addr \<Rightarrow> bool option) \<Rightarrow> 's pb_encoder" where
  "encode_basic_field env enc dflt field data s =
    (case PB_ENCODERS env enc (PB_LTYPE (ftype field)) of
       None \<Rightarrow> None
     | Some func \<Rightarrow>
         let explicit = size_offset field \<noteq> 0;
             count = data + scast (size_offset field);
             htype = PB_HTYPE (ftype field);
             pointer = PB_ATYPE (ftype field) = PB_ATYPE_POINTER;
             data' = (if pointer then load64 env data else data)
         in case (if \<not> explicit \<and> htype = PB_HTYPE_OPTIONAL
                  then map_option Not (pb_check_proto3_default_value env dflt field data) else Some True) of
              None \<Rightarrow> None
            | Some implicit_has \<Rightarrow>
                let implicit_has = (if pointer then data' \<noteq> 0 else implicit_has)
                in if htype = PB_HTYPE_REQUIRED
                   then if data' = 0 then pb_out_error ''missing required field'' s
                        else then_write (pb_encode_tag_for_field field) (func field data') s
                   else if htype = PB_HTYPE_OPTIONAL
                   then if (if explicit then safe_read_bool env count else implicit_has)
                        then then_write (pb_encode_tag_for_field field) (func field data') s
                        else Some (True, s)
                   else if htype = PB_HTYPE_REPEATED
                   then encode_array env func field data'
                          (unat (if explicit then load32 env count else array_size field)) s
                   else if \<not> explicit then None
                   else if load32 env count = tag field
                   then then_write (pb_encode_tag_for_field field) (func field data') s
                   else Some (True, s))"

text \<open>A \<open>pb_callback_t\<close> is a pointer to a function and its argument.\<close>

definition encode_callback_field :: "'s pb_env \<Rightarrow> 's pb_encoder" where
  "encode_callback_field env field data s =
    (let func = load64 env data
     in if func \<noteq> 0
        then case callback_encode env func field (data + 8) s of
               None \<Rightarrow> None
             | Some (ok, s) \<Rightarrow> if \<not> ok then pb_out_error ''callback error'' s else Some (True, s)
        else Some (True, s))"

definition encode_field ::
  "'s pb_env \<Rightarrow> (addr \<Rightarrow> addr \<Rightarrow> 's pb_writer) \<Rightarrow> (addr \<Rightarrow> addr \<Rightarrow> bool option) \<Rightarrow> 's pb_encoder" where
  "encode_field env enc dflt field data =
    (let atype = PB_ATYPE (ftype field)
     in if atype = PB_ATYPE_STATIC \<or> atype = PB_ATYPE_POINTER then encode_basic_field env enc dflt field data
        else if atype = PB_ATYPE_CALLBACK then encode_callback_field env field data
        else pb_out_error ''invalid field type'')"

section \<open>Extensions\<close>

text \<open>
  A \<open>pb_extension_t\<close> holds its type, the address of the data and the next extension; its type the two
  functions and their argument, here the description of the field.
\<close>

definition default_extension_encoder ::
  "'s pb_env \<Rightarrow> (addr \<Rightarrow> addr \<Rightarrow> 's pb_writer) \<Rightarrow> (addr \<Rightarrow> addr \<Rightarrow> bool option) \<Rightarrow> addr \<Rightarrow> 's pb_writer" where
  "default_extension_encoder env enc dflt extension =
    (case descr_at env (load64 env (load64 env extension + 16)) of
       [] \<Rightarrow> (\<lambda>s. None)
     | field # _ \<Rightarrow>
         if PB_ATYPE (ftype field) = PB_ATYPE_POINTER
         then encode_field env enc dflt field (extension + 8)
         else encode_field env enc dflt field (load64 env (extension + 8)))"

text \<open>The number bounds the length of the list of extensions.\<close>

fun encode_extension_loop ::
  "'s pb_env \<Rightarrow> (addr \<Rightarrow> addr \<Rightarrow> 's pb_writer) \<Rightarrow> (addr \<Rightarrow> addr \<Rightarrow> bool option) \<Rightarrow> nat \<Rightarrow> addr \<Rightarrow> 's pb_writer" where
  "encode_extension_loop env enc dflt n extension =
    (if extension = 0 then (\<lambda>s. Some (True, s))
     else case n of
            0 \<Rightarrow> (\<lambda>s. None)
          | Suc n \<Rightarrow>
              let encode = load64 env (load64 env extension + 8)
              in then_write
                   (if encode \<noteq> 0 then extension_encode env encode extension
                    else default_extension_encoder env enc dflt extension)
                   (encode_extension_loop env enc dflt n (load64 env (extension + 16))))"

declare encode_extension_loop.simps [simp del]

definition encode_extension_field ::
  "'s pb_env \<Rightarrow> (addr \<Rightarrow> addr \<Rightarrow> 's pb_writer) \<Rightarrow> (addr \<Rightarrow> addr \<Rightarrow> bool option) \<Rightarrow> nat \<Rightarrow> 's pb_encoder" where
  "encode_extension_field env enc dflt n field data = encode_extension_loop env enc dflt n (load64 env data)"

section \<open>Messages\<close>

lemma then_write_cong [fundef_cong]:
  "s = s' \<Longrightarrow> f s' = f' s' \<Longrightarrow> (\<And>t. f' s' = Some (True, t) \<Longrightarrow> g t = g' t) \<Longrightarrow> then_write f g s = then_write f' g' s'"
  by (auto simp: then_write_def split: option.splits)

function encode_fields_loop ::
  "'s pb_env \<Rightarrow> (addr \<Rightarrow> addr \<Rightarrow> 's pb_writer) \<Rightarrow> (addr \<Rightarrow> addr \<Rightarrow> bool option) \<Rightarrow> nat \<Rightarrow> pb_field_iter \<Rightarrow> 's pb_writer"
where
  "encode_fields_loop env enc dflt n iter s =
    then_write
      (if PB_LTYPE (ftype (iter_field iter)) = PB_LTYPE_EXTENSION
       then encode_extension_field env enc dflt n (iter_field iter) (pData iter)
       else encode_field env enc dflt (iter_field iter) (pData iter))
      (\<lambda>s. case pb_field_iter_next iter of
             None \<Rightarrow> None
           | Some (iter, again) \<Rightarrow> if again then encode_fields_loop env enc dflt n iter s else Some (True, s)) s"
  by pat_completeness auto

termination
  by (relation "measure (\<lambda>(env, enc, dflt, n, iter, s). length (start iter) - pos iter)") (auto dest: next_more)

declare encode_fields_loop.simps [simp del]

definition encode_message ::
  "'s pb_env \<Rightarrow> (addr \<Rightarrow> addr \<Rightarrow> 's pb_writer) \<Rightarrow> (addr \<Rightarrow> addr \<Rightarrow> bool option) \<Rightarrow> nat \<Rightarrow> addr \<Rightarrow> addr \<Rightarrow> 's pb_writer" where
  "encode_message env enc dflt n descr src s =
    (case pb_field_iter_begin (descr_at env descr) src of
       None \<Rightarrow> None
     | Some (iter, nonempty) \<Rightarrow> if nonempty then encode_fields_loop env enc dflt n iter s else Some (True, s))"

fun pb_encode :: "'s pb_env \<Rightarrow> nat \<Rightarrow> addr \<Rightarrow> addr \<Rightarrow> 's pb_writer" where
  "pb_encode env 0 = (\<lambda>descr src s. None)"
| "pb_encode env (Suc n) = encode_message env (pb_encode env n) (submessage_is_default env n) n"

definition pb_encode_delimited :: "'s pb_env \<Rightarrow> nat \<Rightarrow> addr \<Rightarrow> addr \<Rightarrow> 's pb_writer" where
  "pb_encode_delimited env n = pb_encode_submessage (pb_encode env n)"

definition pb_encode_nullterminated :: "'s pb_env \<Rightarrow> nat \<Rightarrow> addr \<Rightarrow> addr \<Rightarrow> 's pb_writer" where
  "pb_encode_nullterminated env n descr src = then_write (pb_encode env n descr src) (write_bytes [0])"

text \<open>The size, or \<open>None\<close> for the return value \<open>false\<close>.\<close>

definition pb_get_encoded_size :: "'s pb_env \<Rightarrow> nat \<Rightarrow> addr \<Rightarrow> addr \<Rightarrow> nat option option" where
  "pb_get_encoded_size env n descr src =
    (case pb_encode env n descr src PB_OSTREAM_SIZING of
       None \<Rightarrow> None
     | Some (ok, stream) \<Rightarrow> Some (if ok then Some (bytes_written stream) else None))"

end
