(* ===== verification/PB_Wire.thy ===== *)
theory PB_Wire
  imports PB_Message
begin

text \<open>
  The wire format as data: a message is a list of tagged values, and its bytes those of the values one
  after the other. Reading a struct by its description gives the list, or tells that encoding fails. What
  functions of the user do is left open.
\<close>

section \<open>Outcomes\<close>

datatype 'a outcome = Emits 'a | Fails | Open

fun out_bind :: "'a outcome \<Rightarrow> ('a \<Rightarrow> 'b outcome) \<Rightarrow> 'b outcome" where
  "out_bind (Emits x) f = f x"
| "out_bind Fails f = Fails"
| "out_bind Open f = Open"

fun out_list :: "'a outcome list \<Rightarrow> 'a list outcome" where
  "out_list [] = Emits []"
| "out_list (r # rs) = out_bind r (\<lambda>x. out_bind (out_list rs) (\<lambda>xs. Emits (x # xs)))"

section \<open>The wire format\<close>

datatype pb_wire = Varint u64 | Fixed64 u64 | Fixed32 u32 | Str bytes

fun wire_type :: "pb_wire \<Rightarrow> pb_wire_type_t" where
  "wire_type (Varint x) = PB_WT_VARINT"
| "wire_type (Fixed64 x) = PB_WT_64BIT"
| "wire_type (Fixed32 x) = PB_WT_32BIT"
| "wire_type (Str b) = PB_WT_STRING"

lemma small_wire_type: "unat (wire_type w) < 8"
  by (cases w) (simp_all add: wire_types)

fun payload :: "pb_wire \<Rightarrow> bytes" where
  "payload (Varint x) = leb_bytes (unat x)"
| "payload (Fixed64 x) = le_bytes 8 (unat x)"
| "payload (Fixed32 x) = le_bytes 4 (unat x)"
| "payload (Str b) = leb_bytes (length b) @ b"

fun wire_bytes :: "u32 \<times> pb_wire \<Rightarrow> bytes" where
  "wire_bytes (t, w) = leb_bytes (8 * unat t + unat (wire_type w)) @ payload w"

definition message_bytes :: "(u32 \<times> pb_wire) list \<Rightarrow> bytes" where
  "message_bytes ws = concat (map wire_bytes ws)"

definition zigzag :: "u64 \<Rightarrow> u64" where
  "zigzag x = (if sint x < 0 then - 2 * x - 1 else 2 * x)"

text \<open>Sizes stay far below what a 64-bit machine can hold.\<close>

definition str_wire :: "bytes \<Rightarrow> pb_wire outcome" where
  "str_wire b = (if length b < 2 ^ 63 then Emits (Str b) else Open)"

section \<open>Values in a struct\<close>

definition unsigned_at :: "'s pb_env \<Rightarrow> u32 \<Rightarrow> addr \<Rightarrow> u64 outcome" where
  "unsigned_at env n p =
    (if n \<in> {1, 2, 4, 8} then Emits (of_nat (le_val (load_bytes env p (unat n)))) else Fails)"

definition signed_at :: "'s pb_env \<Rightarrow> u32 \<Rightarrow> addr \<Rightarrow> u64 outcome" where
  "signed_at env n p =
    (if n \<in> {1, 2, 4, 8}
     then Emits (word_of_int (signed_take_bit (8 * unat n - 1) (int (le_val (load_bytes env p (unat n))))))
     else Fails)"

definition value_at ::
  "'s pb_env \<Rightarrow> (addr \<Rightarrow> addr \<Rightarrow> (u32 \<times> pb_wire) list outcome) \<Rightarrow> pb_field \<Rightarrow> addr \<Rightarrow> pb_wire outcome" where
  "value_at env msg field p =
    (let ltype = PB_LTYPE (ftype field);
         limit = (if PB_ATYPE (ftype field) = PB_ATYPE_POINTER then 2 ^ 64 - 1 else unat (data_size field))
     in if ltype = PB_LTYPE_BOOL then Emits (Varint (if load8 env p = 0 then 0 else 1))
        else if ltype = PB_LTYPE_VARINT then out_bind (signed_at env (data_size field) p) (\<lambda>x. Emits (Varint x))
        else if ltype = PB_LTYPE_UVARINT then out_bind (unsigned_at env (data_size field) p) (\<lambda>x. Emits (Varint x))
        else if ltype = PB_LTYPE_SVARINT then out_bind (signed_at env (data_size field) p) (\<lambda>x. Emits (Varint (zigzag x)))
        else if ltype = PB_LTYPE_FIXED32 then Emits (Fixed32 (load32 env p))
        else if ltype = PB_LTYPE_FIXED64 then Emits (Fixed64 (load64 env p))
        else if ltype = PB_LTYPE_BYTES
        then if p = 0 then Emits (Str [])
             else if PB_ATYPE (ftype field) = PB_ATYPE_STATIC \<and> 4 \<le> data_size field \<and> load32 env p > data_size field - 4
             then Fails
             else if p + 4 = 0 then Open
             else Emits (Str (load_bytes env (p + 4) (unat (load32 env p))))
        else if ltype = PB_LTYPE_STRING
        then if p = 0 then Emits (Str []) else str_wire (load_bytes env p (strlen_loop env p 0 limit))
        else if ltype = PB_LTYPE_SUBMESSAGE
        then if ptr field = 0 then Fails
             else out_bind (msg (ptr field) p) (\<lambda>ws. str_wire (message_bytes ws))
        else if ltype = PB_LTYPE_FIXED_LENGTH_BYTES
        then if p = 0 then Open else Emits (Str (load_bytes env p (unat (data_size field))))
        else Open)"

section \<open>Fields\<close>

fun item_addrs :: "addr \<Rightarrow> addr \<Rightarrow> nat \<Rightarrow> addr list" where
  "item_addrs p sz 0 = []"
| "item_addrs p sz (Suc n) = p # item_addrs (p + sz) sz n"

text \<open>Packed arrays are one value; items that are strings or bytes may be behind pointers.\<close>

definition array_wires ::
  "'s pb_env \<Rightarrow> (addr \<Rightarrow> addr \<Rightarrow> (u32 \<times> pb_wire) list outcome) \<Rightarrow> pb_field \<Rightarrow> addr \<Rightarrow> nat \<Rightarrow>
    (u32 \<times> pb_wire) list outcome" where
  "array_wires env msg field data count =
    (let ltype = PB_LTYPE (ftype field);
         pointer = PB_ATYPE (ftype field) = PB_ATYPE_POINTER;
         items = item_addrs data (ucast (data_size field)) count
     in if count = 0 then Emits []
        else if \<not> pointer \<and> count > unat (array_size field) then Fails
        else if ltype \<le> PB_LTYPE_LAST_PACKABLE
        then out_bind (out_list (map (value_at env msg field) items)) (\<lambda>ws.
             out_bind (str_wire (concat (map payload ws))) (\<lambda>w. Emits [(tag field, w)]))
        else out_bind (out_list (map (\<lambda>p. value_at env msg field
               (if pointer \<and> (ltype = PB_LTYPE_STRING \<or> ltype = PB_LTYPE_BYTES) then load64 env p else p)) items)) (\<lambda>ws.
             Emits (map (\<lambda>w. (tag field, w)) ws)))"

definition single_wire ::
  "'s pb_env \<Rightarrow> (addr \<Rightarrow> addr \<Rightarrow> (u32 \<times> pb_wire) list outcome) \<Rightarrow> pb_field \<Rightarrow> addr \<Rightarrow> (u32 \<times> pb_wire) list outcome" where
  "single_wire env msg field p = out_bind (value_at env msg field p) (\<lambda>w. Emits [(tag field, w)])"

definition field_wires ::
  "'s pb_env \<Rightarrow> (addr \<Rightarrow> addr \<Rightarrow> (u32 \<times> pb_wire) list outcome) \<Rightarrow> (addr \<Rightarrow> addr \<Rightarrow> bool option) \<Rightarrow> pb_field \<Rightarrow> addr \<Rightarrow>
    (u32 \<times> pb_wire) list outcome" where
  "field_wires env msg dflt field data =
    (let htype = PB_HTYPE (ftype field);
         atype = PB_ATYPE (ftype field);
         pointer = atype = PB_ATYPE_POINTER;
         explicit = size_offset field \<noteq> 0;
         count = load32 env (data + scast (size_offset field));
         target = (if pointer then load64 env data else data)
     in if PB_LTYPE (ftype field) \<ge> PB_LTYPES_COUNT \<or> PB_LTYPE (ftype field) = PB_LTYPE_EXTENSION then Open
        else if atype = PB_ATYPE_CALLBACK then if load64 env data = 0 then Emits [] else Open
        else if \<not> (atype = PB_ATYPE_STATIC \<or> pointer) then Fails
        else if htype = PB_HTYPE_REQUIRED then if target = 0 then Fails else single_wire env msg field target
        else if htype = PB_HTYPE_OPTIONAL \<and> explicit
        then if load8 env (data + scast (size_offset field)) = 0 then Emits [] else single_wire env msg field target
        else if htype = PB_HTYPE_OPTIONAL
        then case pb_check_proto3_default_value env dflt field data of
               None \<Rightarrow> Open
             | Some zero \<Rightarrow>
                 if (if pointer then target = 0 else zero) then Emits [] else single_wire env msg field target
        else if htype = PB_HTYPE_REPEATED
        then array_wires env msg field target (unat (if explicit then count else array_size field))
        else if \<not> explicit then Open
        else if count = tag field then single_wire env msg field target
        else Emits [])"

section \<open>Messages\<close>

text \<open>Where the fields of a struct are: the offset of each is relative to the end of the one before.\<close>

definition next_data :: "pb_field \<Rightarrow> addr \<Rightarrow> pb_field \<Rightarrow> addr" where
  "next_data prev data f =
    (if PB_HTYPE (ftype prev) = PB_HTYPE_ONEOF \<and> PB_HTYPE (ftype f) = PB_HTYPE_ONEOF \<and> data_offset f = PB_SIZE_MAX
     then data
     else data +
       (if PB_ATYPE (ftype prev) = PB_ATYPE_STATIC \<and> PB_HTYPE (ftype prev) = PB_HTYPE_REPEATED
        then ucast (data_size prev) * ucast (array_size prev)
        else if PB_ATYPE (ftype prev) = PB_ATYPE_POINTER then 8 else ucast (data_size prev)) +
       ucast (data_offset f))"

fun layout_after :: "pb_field \<Rightarrow> addr \<Rightarrow> pb_field list \<Rightarrow> (pb_field \<times> addr) list option" where
  "layout_after prev data [] = None"
| "layout_after prev data (f # fs) =
    (if tag f = 0 then Some []
     else map_option (\<lambda>l. (f, next_data prev data f) # l) (layout_after f (next_data prev data f) fs))"

fun struct_layout :: "pb_field list \<Rightarrow> addr \<Rightarrow> (pb_field \<times> addr) list option" where
  "struct_layout [] src = None"
| "struct_layout (f # fs) src =
    (if tag f = 0 then Some []
     else
       let data = (if src = 0 then 0 else src + ucast (data_offset f))
       in map_option (\<lambda>l. (f, data) # l) (layout_after f data fs))"

fun message_wires :: "'s pb_env \<Rightarrow> nat \<Rightarrow> addr \<Rightarrow> addr \<Rightarrow> (u32 \<times> pb_wire) list outcome" where
  "message_wires env 0 descr src = Open"
| "message_wires env (Suc n) descr src =
    (case struct_layout (descr_at env descr) src of
       None \<Rightarrow> Open
     | Some l \<Rightarrow>
         out_bind (out_list (map (\<lambda>(f, data). field_wires env (message_wires env n) (submessage_is_default env n) f data) l))
           (\<lambda>ws. Emits (concat ws)))"

end
