(* ===== verification/PB_Emit.thy ===== *)
theory PB_Emit
  imports PB_Wire
begin

text \<open>
  The encoders emit what the structs hold: each function of \<open>pb_encode.c\<close> meets the outcome that
  \<open>PB_Wire\<close> assigns to it, on counting streams and on every sink that keeps its contract.
\<close>

section \<open>Values\<close>

lemma sint_of_nat: "sint (of_nat m :: 'a::len word) = signed_take_bit (LENGTH('a) - Suc 0) (int m)"
  by (simp add: sint_uint unsigned_of_nat take_bit_of_nat [symmetric] signed_take_bit_take_bit)

lemma scast_of_nat: "(scast (of_nat m :: 'a::len word) :: 'b::len word) =
    word_of_int (signed_take_bit (LENGTH('a) - Suc 0) (int m))"
  by (simp add: scast_eq sint_of_nat)

lemma signed_64: "(word_of_int (signed_take_bit 63 (int m)) :: u64) = of_nat m"
  using scast_of_nat [where 'a = 64 and 'b = 64, of m] by simp

lemma le_val_less: "le_val bs < 256 ^ length bs"
  using be_val_less [of "rev bs"] by (simp add: le_val_def)

lemma length_load_bytes [simp]: "length (load_bytes env p n) = n"
  by (simp add: load_bytes_def)

lemma load8_val: "load8 env p = of_nat (le_val (load_bytes env p 1))"
  by (simp add: load8_def load_bytes_def)

lemma ucast_of_nat: "m < 2 ^ LENGTH('a::len) \<Longrightarrow> LENGTH('a) \<le> LENGTH('b::len) \<Longrightarrow>
    (ucast (of_nat m :: 'a word) :: 'b word) = of_nat m"
  by (rule word_eq_of_nat) (simp add: unat_of_nat)

lemma zigzag_word: "(if sint x < 0 then NOT (push_bit 1 x) else push_bit 1 x) = zigzag x"
proof -
  have "push_bit 1 x = 2 * x" by (simp add: push_bit_eq_mult mult.commute)
  then show ?thesis by (simp add: zigzag_def not_eq_complement)
qed

lemma tag_word: "unat (push_bit 3 (ucast (t :: u32)) OR ucast w :: u64) = 8 * unat t + unat w" if "unat (w :: u32) < 8"
proof -
  have "unat (push_bit 3 (ucast t) OR ucast w :: u64) = unat (ucast t :: u64) * 2 ^ 3 + unat (ucast w :: u64)"
    using that less_trans [OF unat_u32_less [of t], of "2305843009213693952"] by (intro unat_shift_or) simp_all
  then show ?thesis by simp
qed

lemma strlen_loop_le: "n \<le> limit \<Longrightarrow> strlen_loop env p n limit \<le> limit"
  by (induction env p n limit rule: strlen_loop.induct) (subst strlen_loop.simps, simp)

lemma size_add_0 [simp]: "n < 18446744073709551616 \<Longrightarrow> size_add 0 n = n"
  by (simp add: size_add_def)

fun out_map :: "('a \<Rightarrow> 'b) \<Rightarrow> 'a outcome \<Rightarrow> 'b outcome" where
  "out_map f (Emits x) = Emits (f x)"
| "out_map f Fails = Fails"
| "out_map f Open = Open"

lemma out_bind_Emits: "out_bind r f = Emits y \<longleftrightarrow> (\<exists>x. r = Emits x \<and> f x = Emits y)"
  by (cases r) simp_all

lemma out_map_bind: "out_map f (out_bind r g) = out_bind r (\<lambda>x. out_map f (g x))"
  by (cases r) simp_all

context pb_sink
begin

definition meets :: "'s pb_writer \<Rightarrow> bytes outcome \<Rightarrow> bool" where
  "meets op r \<longleftrightarrow> (case r of Emits e \<Rightarrow> emits op e | Fails \<Rightarrow> fails op | Open \<Rightarrow> True)"

lemma meets_simps [simp]: "meets op (Emits e) = emits op e" "meets op Fails = fails op" "meets op Open"
  by (simp_all add: meets_def)

lemma meets_then: "emits f e \<Longrightarrow> meets g r \<Longrightarrow> meets (then_write f g) (out_map (\<lambda>e'. e @ e') r)"
  by (cases r) (auto intro: emits_then fails_then2)

lemma meets_seq: "meets f r1 \<Longrightarrow> meets g r2 \<Longrightarrow> meets (then_write f g) (out_bind r1 (\<lambda>e. out_map (\<lambda>e'. e @ e') r2))"
  by (cases r1; cases r2) (auto intro: emits_then fails_then1 fails_then2)

lemma emits_string: "length b < 2 ^ 64 \<Longrightarrow> emits (pb_encode_string (Some b) (length b)) (payload (Str b))"
proof -
  assume b: "length b < 2 ^ 64"
  then have "unat (of_nat (length b) :: u64) = length b" by (simp add: unat_of_nat)
  then have "emits (pb_encode_varint (of_nat (length b))) (leb_bytes (length b))"
    using emits_varint [of "of_nat (length b)"] by simp
  from emits_then [OF this emits_write [OF b]] show ?thesis by (simp add: pb_encode_string_def)
qed

lemma emits_null_string: "emits (pb_encode_string None 0) (payload (Str []))"
proof -
  have "pb_write None 0 = (write_bytes [] :: 's pb_writer)" by (rule ext) (simp add: pb_write_def)
  then have "pb_encode_string None 0 = (pb_encode_string (Some []) 0 :: 's pb_writer)" by (simp add: pb_encode_string_def)
  then show ?thesis using emits_string [of "[]"] by simp
qed

lemma emits_tag: "unat w < 8 \<Longrightarrow> emits (pb_encode_tag w t) (leb_bytes (8 * unat t + unat w))"
  using emits_varint [of "push_bit 3 (ucast t) OR ucast w"] by (simp add: pb_encode_tag_def tag_word)

lemma emits_svarint: "emits (pb_encode_svarint x) (payload (Varint (zigzag x)))"
  using emits_varint [of "zigzag x"] by (simp add: pb_encode_svarint_def Let_def zigzag_word del: push_bit_of_1)

lemma buffer_at_length: "p \<noteq> 0 \<Longrightarrow> buffer_at env p n = Some (load_bytes env p n)"
  by (simp add: buffer_at_def)

text \<open>Numbers.\<close>

lemma meets_varint: "meets (pb_enc_varint env field p)
    (out_map payload (out_bind (signed_at env (data_size field) p) (\<lambda>x. Emits (Varint x))))"
  by (auto simp: pb_enc_varint_def signed_at_def load8_val load16_def load32_def load64_def scast_of_nat signed_64 fails_error
      intro: emits_varint simp del: of_nat_add)

lemma meets_uvarint: "meets (pb_enc_uvarint env field p)
    (out_map payload (out_bind (unsigned_at env (data_size field) p) (\<lambda>x. Emits (Varint x))))"
proof -
  have "ucast (load8 env p) = (of_nat (le_val (load_bytes env p 1)) :: u64)"
    unfolding load8_val using le_val_less [of "load_bytes env p 1"] by (intro ucast_of_nat) simp_all
  moreover have "ucast (load16 env p) = (of_nat (le_val (load_bytes env p 2)) :: u64)"
    unfolding load16_def using le_val_less [of "load_bytes env p 2"] by (intro ucast_of_nat) simp_all
  moreover have "ucast (load32 env p) = (of_nat (le_val (load_bytes env p 4)) :: u64)"
    unfolding load32_def using le_val_less [of "load_bytes env p 4"] by (intro ucast_of_nat) simp_all
  ultimately show ?thesis
    by (auto simp: pb_enc_uvarint_def unsigned_at_def load64_def fails_error intro: emits_varint)
qed

lemma meets_svarint: "meets (pb_enc_svarint env field p)
    (out_map payload (out_bind (signed_at env (data_size field) p) (\<lambda>x. Emits (Varint (zigzag x)))))"
  using emits_svarint
  by (auto simp: pb_enc_svarint_def signed_at_def load8_val load16_def load32_def load64_def scast_of_nat signed_64 fails_error
      simp del: of_nat_add)

lemma meets_bool: "meets (pb_enc_bool env field p) (Emits (payload (Varint (if load8 env p = 0 then 0 else 1))))"
  using emits_varint [of 0] emits_varint [of 1] by (simp add: pb_enc_bool_def safe_read_bool_def)

lemma meets_fixed32: "meets (pb_enc_fixed32 env field p) (Emits (payload (Fixed32 (load32 env p))))"
  using emits_fixed32 by (simp add: pb_enc_fixed32_def)

lemma meets_fixed64: "meets (pb_enc_fixed64 env field p) (Emits (payload (Fixed64 (load64 env p))))"
  using emits_fixed64 by (simp add: pb_enc_fixed64_def)

lemma bytes_exceed: "(ucast n > (ucast d - 4 :: u64)) = (4 \<le> d \<and> n > d - 4)" for n d :: u32
proof (cases "4 \<le> d")
  case True
  then have "unat (ucast d - 4 :: u64) = unat d - 4" "unat (d - 4) = unat d - 4"
    by (simp_all add: unat_sub word_le_nat_alt)
  with True show ?thesis by (simp add: word_less_nat_alt)
next
  case False
  then have "unat d < 4" by (simp add: word_le_nat_alt)
  then have "unat (ucast d - 4 :: u64) = 2 ^ 64 - 4 + unat d"
    by (simp add: unat_sub_if' )
  then have "4294967296 \<le> unat (ucast d - 4 :: u64)" by simp
  then have "\<not> unat n > unat (ucast d - 4 :: u64)" using unat_u32_less [of n] by linarith
  with False show ?thesis by (simp add: word_less_nat_alt)
qed

lemma meets_str_wire:
  "(length b < 2 ^ 63 \<Longrightarrow> emits op (payload (Str b))) \<Longrightarrow> meets op (out_map payload (str_wire b))"
  by (simp add: str_wire_def)

lemma emits_bytes_at: "p \<noteq> 0 \<Longrightarrow> n < 2 ^ 64 \<Longrightarrow>
    emits (pb_encode_string (buffer_at env p n) n) (payload (Str (load_bytes env p n)))"
  using emits_string [of "load_bytes env p n"] by (simp add: buffer_at_length)

text \<open>Submessages: the size is counted first, and the second pass has exactly that much room.\<close>

lemma emits_submessage:
  assumes enc: "emits (enc descr p) e" and e: "length e < 2 ^ 63"
  shows "emits (pb_encode_submessage enc descr p) (payload (Str e))"
proof -
  have count: "enc descr p PB_OSTREAM_SIZING = Some (True, PB_OSTREAM_SIZING\<lparr>bytes_written := length e\<rparr>)"
    using emits_sizing [OF enc, of PB_OSTREAM_SIZING] e by (simp add: PB_OSTREAM_SIZING_def)
  let ?body = "write_submessage enc descr p (length e)"
  have body: "emits ?body e"
    unfolding emits_def
  proof (intro conjI allI impI)
    fix s :: "'s pb_ostream"
    assume "out_sink s = Sizing \<and> bytes_written s < 2 ^ 64"
    then show "?body s = Some (True, s\<lparr>bytes_written := size_add (bytes_written s) (length e)\<rparr>)"
      by (simp add: write_submessage_def pb_write_def)
  next
    fix s :: "'s pb_ostream"
    assume s: "ok s"
    then have sink: "out_sink s \<noteq> Sizing" and sum: "size_add (bytes_written s) (length e) = bytes_written s + length e"
      using e writing by (auto simp: ok_def size_add_small)
    show "if bytes_written s + length e \<le> max_size s then \<exists>s'. ?body s = Some (True, s') \<and> wrote s e s'
      else \<exists>s' p. ?body s = Some (False, s') \<and> prefix p e \<and> wrote s p s'"
    proof (cases "bytes_written s + length e \<le> max_size s")
      case True
      let ?sub = "s\<lparr>max_size := length e, bytes_written := 0, out_errmsg := None\<rparr>"
      have "ok ?sub" using s True e by (auto simp: ok_def)
      from emits_fit [OF enc this] obtain sub where sub: "enc descr p ?sub = Some (True, sub)" "wrote ?sub e sub" by auto
      let ?s' = "s\<lparr>bytes_written := bytes_written s + length e, out_sink := out_sink sub, out_errmsg := out_errmsg sub\<rparr>"
      have "?body s = Some (True, ?s')" using sink sum True sub by (simp add: write_submessage_def wrote_def)
      moreover have "wrote s e ?s'" using sub(2) s True by (auto simp: wrote_def ok_def)
      ultimately show ?thesis using True by auto
    next
      case False
      have "wrote s [] (s\<lparr>out_errmsg := m\<rparr>)" for m by (rule wrote_errmsg) (rule wrote_Nil [OF s])
      with False sink sum show ?thesis
        by (auto simp: write_submessage_def pb_out_error_def intro!: exI [of _ "[]"])
    qed
  qed
  have "unat (of_nat (length e) :: u64) = length e" using e by (simp add: unat_of_nat)
  then have "emits (pb_encode_varint (of_nat (length e))) (leb_bytes (length e))"
    using emits_varint [of "of_nat (length e)"] by simp
  from emits_then [OF this body] show ?thesis
    by (simp add: pb_encode_submessage_def [abs_def] count Let_def)
qed

lemma fails_submessage:
  assumes enc: "fails (enc descr p)"
  shows "fails (pb_encode_submessage enc descr p)"
proof -
  from enc obtain sub where "enc descr p PB_OSTREAM_SIZING = Some (False, sub)"
    using fails_sizing [of "enc descr p" PB_OSTREAM_SIZING] by (auto simp: PB_OSTREAM_SIZING_def)
  then have "pb_encode_submessage enc descr p s = Some (False, s\<lparr>out_errmsg := out_errmsg sub\<rparr>)" for s
    by (simp add: pb_encode_submessage_def)
  moreover have "ok s \<Longrightarrow> wrote s [] (s\<lparr>out_errmsg := out_errmsg sub\<rparr>)" for s
    by (rule wrote_errmsg) (rule wrote_Nil)
  ultimately show ?thesis by (auto simp: fails_def)
qed

text \<open>Any value, and a value with its tag.\<close>

lemma out_map_payload_str: "out_map payload (if b then Emits (Str []) else r) = (if b then Emits (payload (Str [])) else out_map payload r)"
  by simp

lemma meets_bytes: "meets (pb_enc_bytes env field p) (out_map payload
    (if p = 0 then Emits (Str [])
     else if PB_ATYPE (ftype field) = PB_ATYPE_STATIC \<and> 4 \<le> data_size field \<and> load32 env p > data_size field - 4 then Fails
     else if p + 4 = 0 then Open
     else Emits (Str (load_bytes env (p + 4) (unat (load32 env p))))))"
proof -
  have "unat (load32 env p) < 2 ^ 64" using less_trans [OF unat_u32_less [of "load32 env p"], of "2 ^ 64"] by simp
  then show ?thesis
    using emits_null_string emits_bytes_at [of "p + 4" "unat (load32 env p)" env]
    by (simp add: pb_enc_bytes_def Let_def bytes_exceed fails_error del: payload.simps)
qed

lemma meets_string: "meets (pb_enc_string env field p) (out_map payload
    (if p = 0 then Emits (Str [])
     else str_wire (load_bytes env p (strlen_loop env p 0
       (if PB_ATYPE (ftype field) = PB_ATYPE_POINTER then 2 ^ 64 - 1 else unat (data_size field))))))"
proof (cases "p = 0")
  case True
  then show ?thesis using emits_null_string by (simp add: pb_enc_string_def Let_def buffer_at_def del: payload.simps)
next
  case False
  then show ?thesis
    using emits_bytes_at [OF False, of "strlen_loop env p 0
       (if PB_ATYPE (ftype field) = PB_ATYPE_POINTER then 2 ^ 64 - 1 else unat (data_size field))" env]
    by (simp add: pb_enc_string_def Let_def str_wire_def del: payload.simps)
qed

lemma meets_fixed_length: "meets (pb_enc_fixed_length_bytes env field p) (out_map payload
    (if p = 0 then Open else Emits (Str (load_bytes env p (unat (data_size field))))))"
proof -
  have "unat (data_size field) < 2 ^ 64" using less_trans [OF unat_u32_less [of "data_size field"], of "2 ^ 64"] by simp
  then show ?thesis using emits_bytes_at [of p "unat (data_size field)" env]
    by (simp add: pb_enc_fixed_length_bytes_def del: payload.simps)
qed

lemma meets_submessage:
  assumes "meets (enc (ptr field) p) (out_map message_bytes (msg (ptr field) p))"
  shows "meets (pb_enc_submessage enc field p) (out_map payload
    (if ptr field = 0 then Fails else out_bind (msg (ptr field) p) (\<lambda>ws. str_wire (message_bytes ws))))"
  using assms
  by (cases "msg (ptr field) p")
    (auto simp: pb_enc_submessage_def str_wire_def fails_error emits_submessage fails_submessage simp del: payload.simps)

lemma ltype_cases: "PB_ENCODERS env enc t = Some func \<Longrightarrow> t \<noteq> PB_LTYPE_EXTENSION \<Longrightarrow>
    t = PB_LTYPE_BOOL \<or> t = PB_LTYPE_VARINT \<or> t = PB_LTYPE_UVARINT \<or> t = PB_LTYPE_SVARINT \<or> t = PB_LTYPE_FIXED32 \<or>
    t = PB_LTYPE_FIXED64 \<or> t = PB_LTYPE_BYTES \<or> t = PB_LTYPE_STRING \<or> t = PB_LTYPE_SUBMESSAGE \<or>
    t = PB_LTYPE_FIXED_LENGTH_BYTES"
  by (auto simp: PB_ENCODERS_def split: if_splits)

lemma meets_value:
  assumes msg: "\<And>d q. meets (enc d q) (out_map message_bytes (msg d q))"
    and func: "PB_ENCODERS env enc (PB_LTYPE (ftype field)) = Some func"
  shows "meets (func field p) (out_map payload (value_at env msg field p))"
proof (cases "PB_LTYPE (ftype field) = PB_LTYPE_EXTENSION")
  case True
  then show ?thesis by (simp add: value_at_def pb_ltypes)
next
  case False
  from ltype_cases [OF func False] show ?thesis
    using func
      meets_bool [of env field p] meets_varint [of env field p] meets_uvarint [of env field p] meets_svarint [of env field p]
      meets_fixed32 [of env field p] meets_fixed64 [of env field p] meets_bytes [of env field p]
      meets_string [of env field p] meets_submessage [where field = field and enc = enc and msg = msg and p = p, OF msg] meets_fixed_length [of env field p]
    by (elim disjE)
      (simp_all add: value_at_def PB_ENCODERS_def pb_ltypes Let_def)
qed

lemma value_wire_type:
  "value_at env msg field p = Emits w \<Longrightarrow>
   emits (pb_encode_tag_for_field field) (leb_bytes (8 * unat (tag field) + unat (wire_type w)))"
proof -
  assume w: "value_at env msg field p = Emits w"
  then have "pb_encode_tag_for_field field = (pb_encode_tag (wire_type w) (tag field) :: 's pb_writer)"
    by (auto simp: value_at_def pb_encode_tag_for_field_def Let_def pb_ltypes str_wire_def split: if_splits
        elim!: out_bind.elims)
  then show ?thesis using emits_tag [OF small_wire_type] by simp
qed

lemma value_tag:
  assumes "PB_ENCODERS env enc (PB_LTYPE (ftype field)) = Some func" "PB_LTYPE (ftype field) \<noteq> PB_LTYPE_EXTENSION"
  shows "\<exists>e. emits (pb_encode_tag_for_field field) e"
  using ltype_cases [OF assms] emits_tag [of PB_WT_VARINT "tag field"] emits_tag [of PB_WT_32BIT "tag field"]
    emits_tag [of PB_WT_64BIT "tag field"] emits_tag [of PB_WT_STRING "tag field"]
  by (elim disjE) (auto simp: pb_encode_tag_for_field_def pb_ltypes wire_types)

lemma meets_tagged:
  assumes msg: "\<And>d q. meets (enc d q) (out_map message_bytes (msg d q))"
    and func: "PB_ENCODERS env enc (PB_LTYPE (ftype field)) = Some func" "PB_LTYPE (ftype field) \<noteq> PB_LTYPE_EXTENSION"
  shows "meets (then_write (pb_encode_tag_for_field field) (func field p))
    (out_map (\<lambda>w. wire_bytes (tag field, w)) (value_at env msg field p))"
proof (cases "value_at env msg field p")
  case (Emits w)
  then have "emits (func field p) (payload w)" using meets_value [OF msg func(1), of p] by simp
  from emits_then [OF value_wire_type [OF Emits] this] show ?thesis by (simp add: Emits)
next
  case Fails
  then have "fails (func field p)" using meets_value [OF msg func(1), of p] by simp
  with value_tag [OF func] show ?thesis by (auto simp: Fails intro: fails_then2)
qed simp

lemma meets_single:
  assumes "\<And>d q. meets (enc d q) (out_map message_bytes (msg d q))"
    and "PB_ENCODERS env enc (PB_LTYPE (ftype field)) = Some func" "PB_LTYPE (ftype field) \<noteq> PB_LTYPE_EXTENSION"
  shows "meets (then_write (pb_encode_tag_for_field field) (func field p))
    (out_map message_bytes (single_wire env msg field p))"
  using meets_tagged [OF assms, of p]
  by (cases "value_at env msg field p") (simp_all add: single_wire_def message_bytes_def)

text \<open>Arrays.\<close>

lemma meets_items:
  assumes "\<And>q. meets (func q) (out_map g (r q))"
  shows "meets (encode_items func sz p n) (out_map (\<lambda>xs. concat (map g xs)) (out_list (map r (item_addrs p (ucast sz) n))))"
proof (induction n arbitrary: p)
  case 0
  then show ?case using emits_return by simp
next
  case (Suc n)
  let ?rest = "out_list (map r (item_addrs (p + ucast sz) (ucast sz) n))"
  from meets_seq [OF assms Suc.IH, of p "p + ucast sz"] show ?case
    by (cases "r p"; cases ?rest) (simp_all del: encode_items.simps(1))
qed

lemma out_list_length: "out_list rs = Emits xs \<Longrightarrow> length xs = length rs"
  by (induction rs arbitrary: xs) (auto simp: out_bind_Emits)

lemma length_item_addrs [simp]: "length (item_addrs p sz n) = n"
  by (induction n arbitrary: p) simp_all

lemma out_list_all: "out_list rs = Emits xs \<Longrightarrow> x \<in> set xs \<Longrightarrow> Emits x \<in> set rs"
  by (induction rs arbitrary: xs) (auto simp: out_bind_Emits)

lemma concat_same_length: "(\<And>x. x \<in> set xs \<Longrightarrow> length (g x) = k) \<Longrightarrow> length (concat (map g xs)) = k * length xs"
  by (induction xs) auto

lemma packed_fixed:
  assumes "out_list (map (value_at env msg field) items) = Emits ws"
  shows "PB_LTYPE (ftype field) = PB_LTYPE_FIXED32 \<Longrightarrow> length (concat (map payload ws)) = 4 * length items"
    "PB_LTYPE (ftype field) = PB_LTYPE_FIXED64 \<Longrightarrow> length (concat (map payload ws)) = 8 * length items"
proof -
  have w: "w \<in> set ws \<Longrightarrow> \<exists>p. value_at env msg field p = Emits w" for w
    using out_list_all [OF assms] by fastforce
  have len: "length ws = length items" using out_list_length [OF assms] by simp
  show "length (concat (map payload ws)) = 4 * length items" if "PB_LTYPE (ftype field) = PB_LTYPE_FIXED32"
  proof -
    have "w \<in> set ws \<Longrightarrow> length (payload w) = 4" for w using w [of w] that by (auto simp: value_at_def pb_ltypes)
    then show ?thesis using concat_same_length [of ws payload 4] len by simp
  qed
  show "length (concat (map payload ws)) = 8 * length items" if "PB_LTYPE (ftype field) = PB_LTYPE_FIXED64"
  proof -
    have "w \<in> set ws \<Longrightarrow> length (payload w) = 8" for w using w [of w] that by (auto simp: value_at_def pb_ltypes)
    then show ?thesis using concat_same_length [of ws payload 8] len by simp
  qed
qed

lemma packed_size_emits:
  assumes items: "emits (encode_items (func field) (data_size field) data count) e" and e: "length e < 2 ^ 63"
    and fixed: "PB_LTYPE (ftype field) = PB_LTYPE_FIXED32 \<Longrightarrow> length e = 4 * count"
      "PB_LTYPE (ftype field) = PB_LTYPE_FIXED64 \<Longrightarrow> length e = 8 * count"
  shows "packed_size func field data count = Some (Some (length e))"
  using emits_sizing [OF items, of PB_OSTREAM_SIZING] e fixed by (simp add: packed_size_def PB_OSTREAM_SIZING_def)

lemma emits_write_packed:
  "emits (encode_items (func field) (data_size field) data count) e \<Longrightarrow> length e < 2 ^ 63 \<Longrightarrow>
   emits (then_write (pb_encode_varint (of_nat (length e))) (write_packed func field data count (length e))) (payload (Str e))"
proof -
  assume items: "emits (encode_items (func field) (data_size field) data count) e" and e: "length e < 2 ^ 63"
  have "emits (write_packed func field data count (length e)) e"
    using items writing by (auto simp: emits_def write_packed_def pb_write_def ok_def)
  moreover have "unat (of_nat (length e) :: u64) = length e" using e by (simp add: unat_of_nat)
  then have "emits (pb_encode_varint (of_nat (length e))) (leb_bytes (length e))"
    using emits_varint [of "of_nat (length e)"] by simp
  ultimately show ?thesis by (auto intro: emits_then)
qed

lemma fails_return: "fails (\<lambda>s. Some (False, s))"
  using wrote_Nil by (auto simp: fails_def)

lemma meets_array:
  assumes msg: "\<And>d q. meets (enc d q) (out_map message_bytes (msg d q))"
    and func: "PB_ENCODERS env enc (PB_LTYPE (ftype field)) = Some func" "PB_LTYPE (ftype field) \<noteq> PB_LTYPE_EXTENSION"
  shows "meets (encode_array env func field data count) (out_map message_bytes (array_wires env msg field data count))"
proof -
  let ?items = "item_addrs data (ucast (data_size field)) count"
  let ?packable = "PB_LTYPE (ftype field) \<le> PB_LTYPE_LAST_PACKABLE"
  consider (none) "count = 0" | (exceed) "count \<noteq> 0" "PB_ATYPE (ftype field) \<noteq> PB_ATYPE_POINTER" "count > unat (array_size field)"
    | (packed) "count \<noteq> 0" "\<not> (PB_ATYPE (ftype field) \<noteq> PB_ATYPE_POINTER \<and> count > unat (array_size field))" ?packable
    | (unpacked) "count \<noteq> 0" "\<not> (PB_ATYPE (ftype field) \<noteq> PB_ATYPE_POINTER \<and> count > unat (array_size field))" "\<not> ?packable"
    by blast
  then show ?thesis
  proof cases
    case none
    then show ?thesis using emits_return by (simp add: encode_array_def array_wires_def message_bytes_def)
  next
    case exceed
    then show ?thesis using fails_error by (simp add: encode_array_def array_wires_def)
  next
    case packed
    let ?wr = "\<lambda>s. case packed_size func field data count of
         None \<Rightarrow> None
       | Some None \<Rightarrow> Some (False, s)
       | Some (Some n) \<Rightarrow>
           then_write (pb_encode_varint (of_nat n)) (write_packed func field data count n) s"
    have array: "encode_array env func field data count = then_write (pb_encode_tag PB_WT_STRING (tag field)) ?wr"
      using packed by (auto simp: encode_array_def)
    have tag: "emits (pb_encode_tag PB_WT_STRING (tag field)) (leb_bytes (8 * unat (tag field) + unat PB_WT_STRING))"
      by (rule emits_tag) (simp add: wire_types)
    have items: "meets (encode_items (func field) (data_size field) data count)
        (out_map (\<lambda>xs. concat (map payload xs)) (out_list (map (value_at env msg field) ?items)))"
      by (rule meets_items) (rule meets_value [OF msg func(1)])
    have wires: "array_wires env msg field data count =
        out_bind (out_list (map (value_at env msg field) ?items)) (\<lambda>ws.
          out_bind (str_wire (concat (map payload ws))) (\<lambda>w. Emits [(tag field, w)]))"
      using packed by (auto simp: array_wires_def Let_def)
    show ?thesis
    proof (cases "out_list (map (value_at env msg field) ?items)")
      case (Emits ws)
      let ?e = "concat (map payload ws)"
      show ?thesis
      proof (cases "length ?e < 2 ^ 63")
        case True
        have all: "emits (encode_items (func field) (data_size field) data count) ?e" using items Emits by simp
        from packed_fixed [OF Emits] packed_size_emits [where func = func and field = field, OF all True]
        have "?wr = then_write (pb_encode_varint (of_nat (length ?e))) (write_packed func field data count (length ?e))"
          by simp
        then have "emits ?wr (payload (Str ?e))" using emits_write_packed [where func = func and field = field, OF all True] by simp
        from emits_then [OF tag this] True show ?thesis
          by (simp add: array wires Emits str_wire_def message_bytes_def)
      next
        case False
        then show ?thesis by (simp add: wires Emits str_wire_def)
      qed
    next
      case Fails
      have "fails (encode_items (func field) (data_size field) data count)" using items Fails by simp
      from fails_sizing [OF this, of PB_OSTREAM_SIZING]
      obtain s' where "encode_items (func field) (data_size field) data count PB_OSTREAM_SIZING = Some (False, s')"
        by (auto simp: PB_OSTREAM_SIZING_def)
      moreover have "\<not> (PB_LTYPE (ftype field) = PB_LTYPE_FIXED32 \<or> PB_LTYPE (ftype field) = PB_LTYPE_FIXED64)"
      proof
        assume "PB_LTYPE (ftype field) = PB_LTYPE_FIXED32 \<or> PB_LTYPE (ftype field) = PB_LTYPE_FIXED64"
        then have "value_at env msg field = (\<lambda>p. Emits (if PB_LTYPE (ftype field) = PB_LTYPE_FIXED32
            then Fixed32 (load32 env p) else Fixed64 (load64 env p)))"
          by (intro ext) (auto simp: value_at_def pb_ltypes)
        then have "out_list (map (value_at env msg field) ps) \<noteq> Fails" for ps
          by (induction ps) (auto elim: out_bind.elims)
        with Fails show False by blast
      qed
      ultimately have "?wr = (\<lambda>s. Some (False, s))" by (simp add: packed_size_def)
      then have "fails ?wr" by (simp add: fails_return)
      from fails_then2 [OF tag this] show ?thesis by (simp add: array wires Fails)
    qed (simp add: wires)
  next
    case unpacked
    let ?q = "\<lambda>p. if PB_ATYPE (ftype field) = PB_ATYPE_POINTER \<and>
             (PB_LTYPE (ftype field) = PB_LTYPE_STRING \<or> PB_LTYPE (ftype field) = PB_LTYPE_BYTES) then load64 env p else p"
    have "meets (encode_items (\<lambda>p. then_write (pb_encode_tag_for_field field) (func field (?q p))) (data_size field) data count)
        (out_map (\<lambda>xs. concat (map (\<lambda>w. wire_bytes (tag field, w)) xs)) (out_list (map (\<lambda>p. value_at env msg field (?q p)) ?items)))"
      by (rule meets_items) (rule meets_tagged [OF msg func])
    moreover have "encode_array env func field data count =
        encode_items (\<lambda>p. then_write (pb_encode_tag_for_field field) (func field (?q p))) (data_size field) data count"
      using unpacked by (auto simp: encode_array_def if_distrib [of "func field"])
    moreover have "array_wires env msg field data count =
        out_bind (out_list (map (\<lambda>p. value_at env msg field (?q p)) ?items)) (\<lambda>ws. Emits (map (\<lambda>w. (tag field, w)) ws))"
      using unpacked by (auto simp: array_wires_def Let_def)
    ultimately show ?thesis
      by (cases "out_list (map (\<lambda>p. value_at env msg field (?q p)) ?items)")
        (simp_all add: message_bytes_def comp_def)
  qed
qed

text \<open>Fields.\<close>

lemma out_list_singles: "out_map message_bytes (Emits []) = Emits []"
  by (simp add: message_bytes_def)

lemma encoders_defined: "\<not> PB_LTYPE t \<ge> PB_LTYPES_COUNT \<Longrightarrow> \<exists>func. PB_ENCODERS env enc (PB_LTYPE t) = Some func"
proof -
  assume t: "\<not> PB_LTYPE t \<ge> PB_LTYPES_COUNT"
  then have "unat (PB_LTYPE t) < 11" by (simp add: pb_ltypes word_le_nat_alt)
  then have "unat (PB_LTYPE t) \<in> {0..<11}" by simp
  then consider "PB_LTYPE t = 0" | "PB_LTYPE t = 1" | "PB_LTYPE t = 2" | "PB_LTYPE t = 3" | "PB_LTYPE t = 4" | "PB_LTYPE t = 5"
    | "PB_LTYPE t = 6" | "PB_LTYPE t = 7" | "PB_LTYPE t = 8" | "PB_LTYPE t = 9" | "PB_LTYPE t = 10"
    by (auto simp: atLeastLessThan_nat_numeral dest!: word_eq_of_nat)
  then show ?thesis by cases (simp_all add: PB_ENCODERS_def pb_ltypes)
qed

lemma emits_Nil_return: "emits (\<lambda>s. Some (True, s)) (message_bytes [])"
  using emits_return by (simp add: message_bytes_def)

lemma htype_cases: "PB_HTYPE t = PB_HTYPE_REQUIRED \<or> PB_HTYPE t = PB_HTYPE_OPTIONAL \<or> PB_HTYPE t = PB_HTYPE_REPEATED \<or>
    PB_HTYPE t = PB_HTYPE_ONEOF"
proof -
  have "t AND 0x30 = push_bit 4 (take_bit 2 (drop_bit 4 t))"
  proof (rule bit_word_eqI)
    fix n assume "n < LENGTH(8)"
    then have "n \<in> {0, 1, 2, 3, 4, 5, 6, 7}" by auto
    then show "bit (t AND 0x30) n = bit (push_bit 4 (take_bit 2 (drop_bit 4 t))) n" by (auto simp: bit_simps)
  qed
  moreover have "unat (take_bit 2 (drop_bit 4 t)) < 4" by (simp add: unat_take_bit)
  then have "take_bit 2 (drop_bit 4 t) \<in> of_nat ` {0..<4}" by (metis atLeastLessThan_iff image_eqI le0 word_eq_of_nat)
  ultimately show ?thesis by (auto simp: PB_HTYPE_def pb_htypes push_bit_eq_mult atLeastLessThan_nat_numeral)
qed

lemma meets_basic_field:
  assumes msg: "\<And>d q. meets (enc d q) (out_map message_bytes (msg d q))"
    and func: "PB_ENCODERS env enc (PB_LTYPE (ftype field)) = Some func" "PB_LTYPE (ftype field) \<noteq> PB_LTYPE_EXTENSION"
    and atype: "PB_ATYPE (ftype field) = PB_ATYPE_STATIC \<or> PB_ATYPE (ftype field) = PB_ATYPE_POINTER"
  shows "meets (encode_basic_field env enc dflt field data) (out_map message_bytes (field_wires env msg dflt field data))"
proof -
  note single = meets_single [OF msg func]
  let ?target = "if PB_ATYPE (ftype field) = PB_ATYPE_POINTER then load64 env data else data"
  have known: "\<not> (PB_LTYPE (ftype field) \<ge> PB_LTYPES_COUNT \<or> PB_LTYPE (ftype field) = PB_LTYPE_EXTENSION)"
    "PB_ATYPE (ftype field) \<noteq> PB_ATYPE_CALLBACK"
    using ltype_cases [OF func] atype by (auto simp: pb_ltypes pb_atypes word_le_nat_alt)
  consider (req) "PB_HTYPE (ftype field) = PB_HTYPE_REQUIRED" | (opt) "PB_HTYPE (ftype field) = PB_HTYPE_OPTIONAL"
    | (rep) "PB_HTYPE (ftype field) = PB_HTYPE_REPEATED" | (oneof) "PB_HTYPE (ftype field) = PB_HTYPE_ONEOF"
    using htype_cases by blast
  then show ?thesis
  proof cases
    case req
    have "encode_basic_field env enc dflt field data = (if ?target = 0 then pb_out_error ''missing required field''
        else then_write (pb_encode_tag_for_field field) (func field ?target))"
      by (rule ext) (simp add: encode_basic_field_def func(1) req pb_htypes Let_def)
    moreover have "field_wires env msg dflt field data = (if ?target = 0 then Fails else single_wire env msg field ?target)"
      using known atype by (simp add: field_wires_def req Let_def) 
    ultimately show ?thesis using single [of ?target] fails_error by simp
  next
    case opt
    let ?flag = "safe_read_bool env (data + scast (size_offset field))"
    show ?thesis
    proof (cases "size_offset field = 0")
      case False
      have "encode_basic_field env enc dflt field data =
          (if ?flag then then_write (pb_encode_tag_for_field field) (func field ?target) else (\<lambda>s. Some (True, s)))"
        by (rule ext) (simp add: encode_basic_field_def func(1) opt pb_htypes Let_def False)
      moreover have "field_wires env msg dflt field data = (if ?flag then single_wire env msg field ?target else Emits [])"
        using known atype False by (simp add: field_wires_def opt pb_htypes Let_def safe_read_bool_def)
      ultimately show ?thesis using single [of ?target] emits_Nil_return by simp
    next
      case True
      show ?thesis
      proof (cases "pb_check_proto3_default_value env dflt field data")
        case None
        then have "field_wires env msg dflt field data = Open"
          using known atype True by (simp add: field_wires_def opt pb_htypes Let_def)
        then show ?thesis by simp
      next
        case (Some zero)
        let ?absent = "if PB_ATYPE (ftype field) = PB_ATYPE_POINTER then ?target = 0 else zero"
        have "encode_basic_field env enc dflt field data =
            (if ?absent then (\<lambda>s. Some (True, s)) else then_write (pb_encode_tag_for_field field) (func field ?target))"
          by (rule ext) (simp add: encode_basic_field_def func(1) opt pb_htypes Let_def True Some)
        moreover have "field_wires env msg dflt field data = (if ?absent then Emits [] else single_wire env msg field ?target)"
          using known atype True by (simp add: field_wires_def opt pb_htypes Let_def Some)
        ultimately show ?thesis using single [of ?target] emits_Nil_return by simp
      qed
    qed
  next
    case rep
    let ?count = "unat (if size_offset field \<noteq> 0 then load32 env (data + scast (size_offset field)) else array_size field)"
    have "encode_basic_field env enc dflt field data = encode_array env func field ?target ?count"
      by (rule ext) (simp add: encode_basic_field_def func(1) rep pb_htypes Let_def)
    moreover have "field_wires env msg dflt field data = array_wires env msg field ?target ?count"
      using known atype by (simp add: field_wires_def rep pb_htypes Let_def)
    ultimately show ?thesis using meets_array [OF msg func, of ?target ?count] by simp
  next
    case oneof
    let ?chosen = "load32 env (data + scast (size_offset field)) = tag field"
    show ?thesis
    proof (cases "size_offset field = 0")
      case True
      then have "field_wires env msg dflt field data = Open"
        using known atype by (simp add: field_wires_def oneof pb_htypes Let_def)
      then show ?thesis by simp
    next
      case False
      have "encode_basic_field env enc dflt field data =
          (if ?chosen then then_write (pb_encode_tag_for_field field) (func field ?target) else (\<lambda>s. Some (True, s)))"
        by (rule ext) (simp add: encode_basic_field_def func(1) oneof pb_htypes Let_def False)
      moreover have "field_wires env msg dflt field data = (if ?chosen then single_wire env msg field ?target else Emits [])"
        using known atype False by (simp add: field_wires_def oneof pb_htypes Let_def)
      ultimately show ?thesis using single [of ?target] emits_Nil_return by simp
    qed
  qed
qed

lemma meets_field:
  assumes msg: "\<And>d q. meets (enc d q) (out_map message_bytes (msg d q))"
    and ext: "PB_LTYPE (ftype field) \<noteq> PB_LTYPE_EXTENSION"
  shows "meets (encode_field env enc dflt field data) (out_map message_bytes (field_wires env msg dflt field data))"
proof (cases "PB_LTYPE (ftype field) \<ge> PB_LTYPES_COUNT")
  case True
  then have "field_wires env msg dflt field data = Open" by (simp add: field_wires_def)
  then show ?thesis by simp
next
  case False
  consider (basic) "PB_ATYPE (ftype field) = PB_ATYPE_STATIC \<or> PB_ATYPE (ftype field) = PB_ATYPE_POINTER"
    | (callback) "PB_ATYPE (ftype field) = PB_ATYPE_CALLBACK"
    | (bad) "PB_ATYPE (ftype field) \<noteq> PB_ATYPE_STATIC" "PB_ATYPE (ftype field) \<noteq> PB_ATYPE_POINTER"
      "PB_ATYPE (ftype field) \<noteq> PB_ATYPE_CALLBACK" by blast
  then show ?thesis
  proof cases
    case basic
    from encoders_defined [OF False] obtain func where "PB_ENCODERS env enc (PB_LTYPE (ftype field)) = Some func" by blast
    from meets_basic_field [OF msg this ext basic] basic show ?thesis by (simp add: encode_field_def)
  next
    case callback
    then have "load64 env data = 0 \<Longrightarrow> encode_field env enc dflt field data = (\<lambda>s. Some (True, s))"
      by (simp add: encode_field_def encode_callback_field_def [abs_def] pb_atypes)
    moreover have "field_wires env msg dflt field data = (if load64 env data = 0 then Emits [] else Open)"
      using callback False ext by (simp add: field_wires_def Let_def)
    ultimately show ?thesis using emits_Nil_return by simp
  next
    case bad
    with False ext show ?thesis using fails_error by (simp add: encode_field_def field_wires_def Let_def)
  qed
qed

end

section \<open>The walk over the fields\<close>

text \<open>From a field on, the iterator visits the fields where the layout has them.\<close>

lemma next_iter:
  assumes "pos iter + 1 < length (start iter)" "tag (start iter ! pos iter) \<noteq> 0"
  shows "if tag (start iter ! (pos iter + 1)) = 0 then \<exists>it. pb_field_iter_next iter = Some (it, False)
    else \<exists>it. pb_field_iter_next iter = Some (it, True) \<and> start it = start iter \<and> pos it = pos iter + 1 \<and>
      pData it = next_data (start iter ! pos iter) (pData iter) (start iter ! (pos iter + 1))"
  using assms
  by (auto simp: pb_field_iter_next_def pb_field_iter_begin_def iter_field_def next_data_def Let_def)

lemma encode_fields_loop_step: "encode_fields_loop env enc dflt n iter =
    then_write
      (if PB_LTYPE (ftype (iter_field iter)) = PB_LTYPE_EXTENSION
       then encode_extension_field env enc dflt n (iter_field iter) (pData iter)
       else encode_field env enc dflt (iter_field iter) (pData iter))
      (\<lambda>s. case pb_field_iter_next iter of
             None \<Rightarrow> None
           | Some (iter, again) \<Rightarrow> if again then encode_fields_loop env enc dflt n iter s else Some (True, s))"
  by (rule ext) (rule encode_fields_loop.simps)

context pb_sink
begin

lemma meets_field_or_extension:
  assumes msg: "\<And>d q. meets (enc d q) (out_map message_bytes (msg d q))"
  shows "meets (if PB_LTYPE (ftype f) = PB_LTYPE_EXTENSION then encode_extension_field env enc dflt n f data
      else encode_field env enc dflt f data) (out_map message_bytes (field_wires env msg dflt f data))"
proof (cases "PB_LTYPE (ftype f) = PB_LTYPE_EXTENSION")
  case True
  then have "field_wires env msg dflt f data = Open" by (simp add: field_wires_def)
  then show ?thesis by simp
next
  case False
  then show ?thesis using meets_field [OF msg False] by simp
qed

lemma meets_fields_loop:
  assumes msg: "\<And>d q. meets (enc d q) (out_map message_bytes (msg d q))"
  shows "start iter = pre @ f # fs \<Longrightarrow> pos iter = length pre \<Longrightarrow> tag f \<noteq> 0 \<Longrightarrow> layout_after f (pData iter) fs = Some l \<Longrightarrow>
    meets (encode_fields_loop env enc dflt n iter)
      (out_map (\<lambda>ws. message_bytes (concat ws))
        (out_list (map (\<lambda>(f, data). field_wires env msg dflt f data) ((f, pData iter) # l))))"
proof (induction fs arbitrary: iter pre f l)
  case Nil
  then show ?case by simp
next
  case (Cons g fs)
  let ?r = "\<lambda>(f, data). field_wires env msg dflt f data"
  have f: "iter_field iter = f" "start iter ! pos iter = f" and g: "start iter ! (pos iter + 1) = g"
    using Cons.prems(1,2) by (simp_all add: iter_field_def nth_append)
  have next': "if tag g = 0 then \<exists>it. pb_field_iter_next iter = Some (it, False)
    else \<exists>it. pb_field_iter_next iter = Some (it, True) \<and> start it = start iter \<and> pos it = pos iter + 1 \<and>
      pData it = next_data f (pData iter) g"
    using next_iter [of iter] Cons.prems(1-3) unfolding f(2) g by simp
  let ?g = "\<lambda>s. case pb_field_iter_next iter of
             None \<Rightarrow> None
           | Some (iter, again) \<Rightarrow> if again then encode_fields_loop env enc dflt n iter s else Some (True, s)"
  have rest: "meets ?g (out_map (\<lambda>ws. message_bytes (concat ws)) (out_list (map ?r l)))"
  proof (cases "tag g = 0")
    case True
    then have "l = []" using Cons.prems(4) by simp
    moreover obtain it where "pb_field_iter_next iter = Some (it, False)" using next' True by auto
    ultimately show ?thesis using emits_Nil_return by simp
  next
    case False
    then obtain it where it: "pb_field_iter_next iter = Some (it, True)" "start it = start iter" "pos it = pos iter + 1"
      "pData it = next_data f (pData iter) g" using next' by auto
    from Cons.prems(4) False obtain l' where l': "l = (g, pData it) # l'" "layout_after g (pData it) fs = Some l'"
      by (auto simp: it(4))
    have "meets (encode_fields_loop env enc dflt n it) (out_map (\<lambda>ws. message_bytes (concat ws)) (out_list (map ?r l)))"
      using Cons.IH [of it "pre @ [f]" g l'] Cons.prems(1,2) it False l' by simp
    then show ?thesis by (simp add: it(1))
  qed
  have "meets (encode_fields_loop env enc dflt n iter)
      (out_bind (out_map message_bytes (field_wires env msg dflt f (pData iter)))
        (\<lambda>e. out_map (\<lambda>e'. e @ e') (out_map (\<lambda>ws. message_bytes (concat ws)) (out_list (map ?r l)))))"
    by (subst encode_fields_loop_step, unfold f(1), rule meets_seq [OF meets_field_or_extension rest]) (rule msg)
  then show ?case
    by (cases "field_wires env msg dflt f (pData iter)"; cases "out_list (map ?r l)")
      (simp_all add: message_bytes_def)
qed

text \<open>The whole message.\<close>

lemma meets_message: "meets (pb_encode env n descr src) (out_map message_bytes (message_wires env n descr src))"
proof (induction n arbitrary: descr src)
  case 0
  then show ?case by simp
next
  case (Suc n)
  let ?fs = "descr_at env descr"
  have encode: "pb_encode env (Suc n) descr src s =
    (case pb_field_iter_begin ?fs src of
       None \<Rightarrow> None
     | Some (iter, nonempty) \<Rightarrow>
         if nonempty then encode_fields_loop env (pb_encode env n) (submessage_is_default env n) n iter s else Some (True, s))" for s
    by (simp add: encode_message_def)
  show ?case
  proof (cases ?fs)
    case Nil
    then show ?thesis by simp
  next
    case (Cons f fs)
    show ?thesis
    proof (cases "tag f = 0")
      case True
      then have "pb_encode env (Suc n) descr src = (\<lambda>s. Some (True, s))"
        by (intro ext) (simp only: encode Cons, simp add: pb_field_iter_begin_def Let_def)
      with True show ?thesis using emits_Nil_return by (simp add: Cons del: pb_encode.simps)
    next
      case False
      let ?data = "if src = 0 then 0 else src + ucast (data_offset f)"
      obtain iter where iter: "pb_field_iter_begin ?fs src = Some (iter, True)" "start iter = f # fs" "pos iter = 0" "pData iter = ?data"
        using False by (auto simp: pb_field_iter_begin_def Cons Let_def)
      have loop: "pb_encode env (Suc n) descr src =
          encode_fields_loop env (pb_encode env n) (submessage_is_default env n) n iter"
        by (intro ext) (simp only: encode iter(1), simp)
      show ?thesis
      proof (cases "layout_after f ?data fs")
        case None
        with False show ?thesis by (simp add: Cons Let_def del: pb_encode.simps)
      next
        case (Some l)
        have "meets (encode_fields_loop env (pb_encode env n) (submessage_is_default env n) n iter)
          (out_map (\<lambda>ws. message_bytes (concat ws)) (out_list (map (\<lambda>(f, data).
            field_wires env (message_wires env n) (submessage_is_default env n) f data) ((f, pData iter) # l))))"
          using iter False Some by (intro meets_fields_loop [where pre = "[]"] Suc) simp_all
        moreover have "message_wires env (Suc n) descr src = out_bind (out_list (map (\<lambda>(f, data).
            field_wires env (message_wires env n) (submessage_is_default env n) f data) ((f, pData iter) # l)))
            (\<lambda>ws. Emits (concat ws))"
          using False Some iter(4) by (simp add: Cons Let_def)
        moreover have "out_map message_bytes (out_bind r (\<lambda>ws. Emits (concat ws))) = out_map (\<lambda>ws. message_bytes (concat ws)) r" for r
          by (cases r) simp_all
        ultimately show ?thesis unfolding loop by simp
      qed
    qed
  qed
qed

end

end
