(* ===== verification/PB_Walk.thy ===== *)
theory PB_Walk
  imports PB_Emit
begin

text \<open>
  Decoders on encoded messages: tags and fields as \<open>pb_encode\<close> writes them are read and skipped exactly,
  and substreams have the bytes of the submessage. Then, how the number that bounds the nesting matters.
\<close>

section \<open>Fields on the wire\<close>

text \<open>Tags have 29 bits, and lengths 32.\<close>

definition wire_ok :: "u32 \<times> pb_wire \<Rightarrow> bool" where
  "wire_ok tw \<longleftrightarrow> 0 < unat (fst tw) \<and> unat (fst tw) < 2 ^ 29 \<and> (case snd tw of Str b \<Rightarrow> length b < 2 ^ 32 | _ \<Rightarrow> True)"

context pb_bytes
begin

lemma decode_tag_wire:
  assumes "wire_ok (t, w)"
  shows "accepts decode_tag (wire_bytes (t, w) @ rest) (wire_type w, t) (payload w @ rest)"
proof -
  let ?n = "8 * unat t + unat (wire_type w)"
  have w: "unat (wire_type w) < 8" by (rule small_wire_type)
  have n: "?n < 2 ^ 32" "?n \<noteq> 0" using assms w by (auto simp: wire_ok_def)
  have "?n mod 8 = unat (wire_type w)" "?n div 8 = unat t" using w by simp_all
  with decode_tag_canonical [OF n, of "payload w @ rest"] show ?thesis by simp
qed

lemma skip_fixed: "length p = n \<Longrightarrow> accepts (pb_then (pb_read True n) (\<lambda>_. pb_return ())) (p @ rest) () rest"
  using skip_read_accepts [of n "p @ rest"] by simp

lemma skip_wire: "wire_ok (t, w) \<Longrightarrow> accepts (pb_skip_field (wire_type w)) (payload w @ rest) () rest"
  using skip_varint_accepts [OF leb_split_bytes] skip_string_canonical [of _ rest]
    skip_fixed [of "le_bytes 8 n" 8 rest for n] skip_fixed [of "le_bytes 4 n" 4 rest for n]
  by (cases w) (simp_all add: pb_skip_field_def wire_types wire_ok_def)

end

section \<open>Substreams\<close>

text \<open>
  A stream over memory in which \<open>rest\<close> follows the bytes it may still deliver. Readers do not touch
  \<open>rest\<close>, so the parent of a substream finds it when the substream is closed.
\<close>

definition window_ok :: "bytes \<Rightarrow> 's pb_istream \<Rightarrow> bool" where
  "window_ok rest s \<longleftrightarrow> in_source s = Buffer (buffer_content s @ rest) \<and> bytes_left s = length (buffer_content s)"

lemma window_okI: "in_source s = Buffer (c @ rest) \<Longrightarrow> bytes_left s = length c \<Longrightarrow> window_ok rest s \<and> buffer_content s = c"
  by (simp add: window_ok_def buffer_content_def)

lemma windowE:
  assumes "window_ok rest s"
  obtains c where "in_source s = Buffer (c @ rest)" "bytes_left s = length c" "buffer_content s = c"
  using assms by (auto simp: window_ok_def)

interpretation window: pb_bytes "window_ok rest" buffer_content for rest
proof
  fix s :: "'s pb_istream"
  assume s: "window_ok rest s"
  then show "bytes_left s = length (buffer_content s)" by (simp add: window_ok_def)
  from s obtain c where c: "in_source s = Buffer (c @ rest)" "bytes_left s = length c" "buffer_content s = c" by (rule windowE)
  show "\<exists>s'. pb_read_bytes n s = Some (Some (take n (buffer_content s)), s') \<and> window_ok rest s' \<and>
      buffer_content s' = drop n (buffer_content s)" if n: "n \<le> length (buffer_content s)" for n
  proof (cases "n = 0")
    case True
    with s show ?thesis by (simp add: pb_read_bytes_def)
  next
    case False
    let ?s' = "s\<lparr>in_source := Buffer (drop n c @ rest), bytes_left := length c - n\<rparr>"
    have "pb_read_bytes n s = Some (Some (take n c), ?s')"
      using n False c by (simp add: pb_read_bytes_def pb_callback_def buf_read_def)
    moreover have "window_ok rest ?s' \<and> buffer_content ?s' = drop n c" by (rule window_okI) simp_all
    ultimately show ?thesis using c(3) by blast
  qed
  show "\<exists>s'. pb_readbyte s = Some (Some b, s') \<and> window_ok rest s' \<and> buffer_content s' = d"
    if d: "buffer_content s = b # d" for b d
  proof -
    let ?s' = "s\<lparr>in_source := Buffer (d @ rest), bytes_left := length d\<rparr>"
    have "pb_readbyte s = Some (Some b, ?s')"
      using c(1,2) d unfolding c(3) by (simp add: pb_readbyte_def pb_callback_def buf_read_def)
    moreover have "window_ok rest ?s' \<and> buffer_content ?s' = d" by (rule window_okI) simp_all
    ultimately show ?thesis by blast
  qed
qed

lemma make_substream:
  assumes s: "window_ok extra s" "buffer_content s = leb_bytes (length p) @ p @ rest" and p: "length p < 2 ^ 32"
  obtains sub s' where "pb_make_string_substream s = Some (Some sub, s')" "window_ok (rest @ extra) sub" "buffer_content sub = p"
    "bytes_left s' = length rest"
proof -
  obtain s1 where s1: "pb_decode_varint32 s = Some (Some (of_nat (length p)), s1)" "window_ok extra s1"
    "buffer_content s1 = p @ rest"
    using window.decode_varint32_canonical [where n = "length p" and rest = "p @ rest" and resta = extra] s p
    unfolding window.accepts_def by blast
  then have src: "in_source s1 = Buffer (p @ rest @ extra)" "bytes_left s1 = length p + length rest"
    by (simp_all add: window_ok_def)
  let ?sub = "s1\<lparr>bytes_left := length p\<rparr>" and ?s' = "s1\<lparr>bytes_left := length rest\<rparr>"
  have "unat (of_nat (length p) :: u32) = length p" using p by (simp add: unat_of_nat)
  then have "pb_make_string_substream s = Some (Some ?sub, ?s')"
    using s1(1) src by (simp add: pb_make_string_substream_def)
  moreover have "window_ok (rest @ extra) ?sub \<and> buffer_content ?sub = p"
    using src by (intro window_okI) simp_all
  ultimately show ?thesis using that [of ?sub ?s'] by simp
qed

lemma close_substream:
  assumes sub: "window_ok (rest @ extra) sub" and s: "bytes_left s = length rest"
  shows "\<exists>s'. pb_close_string_substream sub s = Some (Some (), s') \<and> window_ok extra s' \<and> buffer_content s' = rest"
proof -
  have "\<exists>x sub'. (if bytes_left sub \<noteq> 0 then pb_read True (bytes_left sub) sub else Some (Some [], sub)) = Some (Some x, sub') \<and>
      window_ok (rest @ extra) sub' \<and> buffer_content sub' = []"
  proof (cases "bytes_left sub = 0")
    case True
    then show ?thesis using sub by (simp add: window_ok_def)
  next
    case False
    have "bytes_left sub = length (buffer_content sub)" using sub by (simp add: window_ok_def)
    then obtain x sub' where "pb_read True (bytes_left sub) sub = Some (Some x, sub')" "window_ok (rest @ extra) sub'"
      "buffer_content sub' = []"
      using window.read_null [OF sub, of "bytes_left sub"] by (metis drop_all order_refl)
    with False show ?thesis by auto
  qed
  then obtain x sub' where sub': "(if bytes_left sub \<noteq> 0 then pb_read True (bytes_left sub) sub else Some (Some [], sub)) =
      Some (Some x, sub')" "in_source sub' = Buffer (rest @ extra)" by (auto simp: window_ok_def)
  let ?s' = "s\<lparr>in_source := in_source sub', in_errmsg := in_errmsg sub'\<rparr>"
  have "pb_close_string_substream sub s = Some (Some (), ?s')" unfolding pb_close_string_substream_def sub'(1) by simp
  moreover have "window_ok extra ?s' \<and> buffer_content ?s' = rest"
    using sub'(2) s by (intro window_okI) simp_all
  ultimately show ?thesis by blast
qed

section \<open>The bound on the nesting\<close>

text \<open>A larger bound changes nothing once the outcome is known.\<close>

definition more_defined :: "'a outcome \<Rightarrow> 'a outcome \<Rightarrow> bool" where
  "more_defined r r' \<longleftrightarrow> r = Open \<or> r = r'"

definition opt_defined :: "'a option \<Rightarrow> 'a option \<Rightarrow> bool" where
  "opt_defined r r' \<longleftrightarrow> r = None \<or> r = r'"

lemma more_defined_refl [simp]: "more_defined r r"
  by (simp add: more_defined_def)

lemma more_defined_bind: "more_defined r r' \<Longrightarrow> (\<And>x. more_defined (f x) (f' x)) \<Longrightarrow>
    more_defined (out_bind r f) (out_bind r' f')"
  by (cases r; simp add: more_defined_def; metis out_bind.simps(1))

lemma more_defined_list: "(\<And>x. more_defined (f x) (g x)) \<Longrightarrow> more_defined (out_list (map f xs)) (out_list (map g xs))"
  by (induction xs) (auto intro!: more_defined_bind)

lemma value_defined: "(\<And>d q. more_defined (msg d q) (msg' d q)) \<Longrightarrow>
    more_defined (value_at env msg field p) (value_at env msg' field p)"
  by (auto simp: value_at_def Let_def intro!: more_defined_bind)

lemma single_defined: "(\<And>d q. more_defined (msg d q) (msg' d q)) \<Longrightarrow>
    more_defined (single_wire env msg field p) (single_wire env msg' field p)"
  by (auto simp: single_wire_def intro!: more_defined_bind value_defined)

lemma array_defined: "(\<And>d q. more_defined (msg d q) (msg' d q)) \<Longrightarrow>
    more_defined (array_wires env msg field data count) (array_wires env msg' field data count)"
  by (auto simp: array_wires_def Let_def intro!: more_defined_bind more_defined_list value_defined)

lemma check_defined: "(\<And>d q. opt_defined (dflt d q) (dflt' d q)) \<Longrightarrow>
    opt_defined (pb_check_proto3_default_value env dflt field data) (pb_check_proto3_default_value env dflt' field data)"
  by (simp add: pb_check_proto3_default_value_def Let_def opt_defined_def)

lemma field_defined:
  assumes "\<And>d q. more_defined (msg d q) (msg' d q)" "\<And>d q. opt_defined (dflt d q) (dflt' d q)"
  shows "more_defined (field_wires env msg dflt field data) (field_wires env msg' dflt' field data)"
proof -
  have "opt_defined (pb_check_proto3_default_value env dflt field data) (pb_check_proto3_default_value env dflt' field data)"
    using assms(2) by (rule check_defined)
  then have check: "pb_check_proto3_default_value env dflt field data = None \<or>
      pb_check_proto3_default_value env dflt' field data = pb_check_proto3_default_value env dflt field data"
    by (auto simp: opt_defined_def)
  have single: "more_defined (single_wire env msg field p) (single_wire env msg' field p)" for p
    using assms(1) by (rule single_defined)
  have array: "more_defined (array_wires env msg field p n) (array_wires env msg' field p n)" for p n
    using assms(1) by (rule array_defined)
  from check show ?thesis
  proof
    assume none: "pb_check_proto3_default_value env dflt field data = None"
    show ?thesis
      by (simp add: field_wires_def Let_def none single array) (simp add: more_defined_def)
  next
    assume eq: "pb_check_proto3_default_value env dflt' field data = pb_check_proto3_default_value env dflt field data"
    show ?thesis
      by (cases "pb_check_proto3_default_value env dflt field data") (simp_all add: field_wires_def Let_def eq single array)
  qed
qed

lemma loop_defined:
  assumes "\<And>d q. opt_defined (dflt d q) (dflt' d q)"
  shows "opt_defined (check_fields_loop env dflt iter) (check_fields_loop env dflt' iter)"
proof (induction "length (start iter) - pos iter" arbitrary: iter rule: less_induct)
  case less
  have check: "opt_defined (pb_check_proto3_default_value env dflt (iter_field iter) (pData iter))
      (pb_check_proto3_default_value env dflt' (iter_field iter) (pData iter))" using assms by (rule check_defined)
  have IH: "opt_defined (check_fields_loop env dflt iter') (check_fields_loop env dflt' iter')"
    if "pb_field_iter_next iter = Some (iter', True)" for iter'
    using next_more [OF that] by (intro less) auto
  show ?case
  proof (cases "pb_check_proto3_default_value env dflt (iter_field iter) (pData iter)")
    case None
    then show ?thesis by (simp add: opt_defined_def check_fields_loop.simps [of env dflt])
  next
    case (Some zero)
    with check have "pb_check_proto3_default_value env dflt' (iter_field iter) (pData iter) = Some zero"
      by (simp add: opt_defined_def)
    then show ?thesis using Some IH
      by (subst (1 2) check_fields_loop.simps) (auto simp: opt_defined_def split: option.splits)
  qed
qed

lemma default_defined: "opt_defined (submessage_is_default env n descr src) (submessage_is_default env (Suc n) descr src)"
proof (induction n arbitrary: descr src)
  case (Suc n)
  have "opt_defined (check_fields_loop env (submessage_is_default env n) iter)
      (check_fields_loop env (submessage_is_default env (Suc n)) iter)" for iter
    by (rule loop_defined) (rule Suc)
  then show ?case
    by (auto simp: check_submessage_def opt_defined_def split: option.splits prod.splits)
qed (simp add: opt_defined_def)

lemma message_defined: "more_defined (message_wires env n descr src) (message_wires env (Suc n) descr src)"
proof (induction n arbitrary: descr src)
  case 0
  then show ?case by (simp add: more_defined_def)
next
  case (Suc n)
  have field: "more_defined (case fd of (f, data) \<Rightarrow> field_wires env (message_wires env n) (submessage_is_default env n) f data)
      (case fd of (f, data) \<Rightarrow> field_wires env (message_wires env (Suc n)) (submessage_is_default env (Suc n)) f data)" for fd
    by (cases fd) (simp only: prod.case, rule field_defined [OF Suc default_defined])
  show ?case
  proof (cases "struct_layout (descr_at env descr) src")
    case (Some l)
    have step: "message_wires env (Suc m) descr src =
        out_bind (out_list (map (\<lambda>(f, data). field_wires env (message_wires env m) (submessage_is_default env m) f data) l))
          (\<lambda>ws. Emits (concat ws))" for m using Some by simp
    show ?thesis
      unfolding step
      by (intro more_defined_bind more_defined_list more_defined_refl) (rule field)
  qed simp
qed

lemma message_bound:
  assumes "message_wires env n descr src \<noteq> Open" "n \<le> m"
  shows "message_wires env m descr src = message_wires env n descr src"
  using assms(2)
proof (induction m rule: dec_induct)
  case (step m)
  then show ?case using message_defined [of env m descr src] assms(1) by (simp add: more_defined_def del: message_wires.simps)
qed simp

end
