(* ===== verification/PB_Struct.thy ===== *)
theory PB_Struct
  imports PB_Walk
begin

text \<open>
  The generated descriptions of \<open>google.protobuf.Struct\<close>, \<open>Value\<close> and \<open>ListValue\<close>, which contain each
  other (\<open>Protos/nanopb/google/protobuf/struct.nanopb.cc\<close>), with the offsets of the LP64 layout of the
  structs, and a struct in memory to encode.
\<close>

section \<open>The descriptions\<close>

definition PB_LAST_FIELD :: pb_field where
  "PB_LAST_FIELD = \<lparr>tag = 0, ftype = 0, data_offset = 0, size_offset = 0, data_size = 0, array_size = 0, ptr = 0\<rparr>"

definition google_protobuf_Struct_fields :: "addr \<Rightarrow> pb_field list" where
  "google_protobuf_Struct_fields entry_fields =
    [\<lparr>tag = 1, ftype = PB_ATYPE_POINTER OR PB_HTYPE_REPEATED OR PB_LTYPE_SUBMESSAGE, data_offset = 8, size_offset = - 8,
      data_size = 32, array_size = 0, ptr = entry_fields\<rparr>,
     PB_LAST_FIELD]"

definition google_protobuf_Struct_FieldsEntry_fields :: "addr \<Rightarrow> pb_field list" where
  "google_protobuf_Struct_FieldsEntry_fields value_fields =
    [\<lparr>tag = 1, ftype = PB_ATYPE_POINTER OR PB_HTYPE_OPTIONAL OR PB_LTYPE_BYTES, data_offset = 0, size_offset = 0,
      data_size = 8, array_size = 0, ptr = 0\<rparr>,
     \<lparr>tag = 2, ftype = PB_ATYPE_STATIC OR PB_HTYPE_OPTIONAL OR PB_LTYPE_SUBMESSAGE, data_offset = 0, size_offset = 0,
      data_size = 24, array_size = 0, ptr = value_fields\<rparr>,
     PB_LAST_FIELD]"

definition google_protobuf_Value_fields :: "addr \<Rightarrow> addr \<Rightarrow> pb_field list" where
  "google_protobuf_Value_fields struct_fields list_fields =
    [\<lparr>tag = 1, ftype = PB_ATYPE_STATIC OR PB_HTYPE_ONEOF OR PB_LTYPE_UVARINT, data_offset = 8, size_offset = - 8,
      data_size = 4, array_size = 0, ptr = 0\<rparr>,
     \<lparr>tag = 2, ftype = PB_ATYPE_STATIC OR PB_HTYPE_ONEOF OR PB_LTYPE_FIXED64, data_offset = PB_SIZE_MAX, size_offset = - 8,
      data_size = 8, array_size = 0, ptr = 0\<rparr>,
     \<lparr>tag = 3, ftype = PB_ATYPE_POINTER OR PB_HTYPE_ONEOF OR PB_LTYPE_BYTES, data_offset = PB_SIZE_MAX, size_offset = - 8,
      data_size = 8, array_size = 0, ptr = 0\<rparr>,
     \<lparr>tag = 4, ftype = PB_ATYPE_STATIC OR PB_HTYPE_ONEOF OR PB_LTYPE_BOOL, data_offset = PB_SIZE_MAX, size_offset = - 8,
      data_size = 1, array_size = 0, ptr = 0\<rparr>,
     \<lparr>tag = 5, ftype = PB_ATYPE_STATIC OR PB_HTYPE_ONEOF OR PB_LTYPE_SUBMESSAGE, data_offset = PB_SIZE_MAX, size_offset = - 8,
      data_size = 16, array_size = 0, ptr = struct_fields\<rparr>,
     \<lparr>tag = 6, ftype = PB_ATYPE_STATIC OR PB_HTYPE_ONEOF OR PB_LTYPE_SUBMESSAGE, data_offset = PB_SIZE_MAX, size_offset = - 8,
      data_size = 16, array_size = 0, ptr = list_fields\<rparr>,
     PB_LAST_FIELD]"

definition google_protobuf_ListValue_fields :: "addr \<Rightarrow> pb_field list" where
  "google_protobuf_ListValue_fields value_fields =
    [\<lparr>tag = 1, ftype = PB_ATYPE_POINTER OR PB_HTYPE_REPEATED OR PB_LTYPE_SUBMESSAGE, data_offset = 8, size_offset = - 8,
      data_size = 24, array_size = 0, ptr = value_fields\<rparr>,
     PB_LAST_FIELD]"

definition struct_descr :: "addr \<Rightarrow> pb_field list" where
  "struct_descr p =
    (if p = 1 then google_protobuf_Struct_fields 2
     else if p = 2 then google_protobuf_Struct_FieldsEntry_fields 3
     else if p = 3 then google_protobuf_Value_fields 1 4
     else if p = 4 then google_protobuf_ListValue_fields 3
     else [])"

section \<open>A struct in memory\<close>

text \<open>
  At 0x1000 a \<open>Struct\<close> with one entry, at 0x1010 the entry with the key at 0x1030 and the value \<open>true\<close>.
\<close>

text \<open>The bytes that are not zero.\<close>

definition struct_memory :: "(addr \<times> u8) list" where
  "struct_memory =
    [(0x1000, 1), (0x1008, 0x10), (0x1009, 0x10), (0x1010, 0x30), (0x1011, 0x10), (0x1018, 4), (0x1020, 1),
     (0x1030, 1), (0x1034, 0x61)]"

definition struct_env :: "unit pb_env" where
  "struct_env =
    \<lparr>mem = (\<lambda>p. case map_of struct_memory p of None \<Rightarrow> 0 | Some b \<Rightarrow> b),
     descr_at = struct_descr, callback_encode = (\<lambda>f field arg s. None), extension_encode = (\<lambda>f ext s. None)\<rparr>"

lemma load_bytes_Suc: "load_bytes env p (Suc n) = mem env p # load_bytes env (p + 1) n"
  by (simp add: load_bytes_def upt_conv_Cons map_Suc_upt [symmetric] comp_def add.assoc del: upt_Suc)

lemma load_bytes_numeral: "load_bytes env p (numeral k) = mem env p # load_bytes env (p + 1) (pred_numeral k)"
  by (simp add: numeral_eq_Suc load_bytes_Suc)

lemma load_bytes_0: "load_bytes env p 0 = []"
  by (simp add: load_bytes_def)

lemmas pb_types = pb_ltypes pb_htypes pb_atypes PB_ATYPE_def PB_HTYPE_def PB_LTYPE_def PB_SIZE_MAX_def

lemma struct_load:
  "load32 struct_env 0x1000 = 1" "load64 struct_env 0x1008 = 0x1010" "load64 struct_env 0x1010 = 0x1030"
  "load32 struct_env 0x1018 = 4" "load8 struct_env 0x1020 = 1" "load32 struct_env 0x1030 = 1"
  "load_bytes struct_env 0x1034 (Suc 0) = [0x61]"
  by (simp_all add: load32_def load64_def load8_def load_bytes_numeral load_bytes_Suc load_bytes_0 struct_env_def struct_memory_def)

lemma value_layout: "struct_layout (descr_at struct_env 3) 0x1018 =
    Some (map (\<lambda>f. (f, 0x1020)) (butlast (google_protobuf_Value_fields 1 4)))"
  by (simp add: struct_env_def struct_descr_def google_protobuf_Value_fields_def PB_LAST_FIELD_def next_data_def pb_types)

lemma value_wires: "message_wires struct_env (Suc 0) 3 0x1018 = Emits [(4, Varint 1)]"
  by (simp add: value_layout google_protobuf_Value_fields_def field_wires_def single_wire_def value_at_def pb_types struct_load)

lemma value_present: "submessage_is_default struct_env (Suc 0) 3 0x1018 = Some False"
  by (simp add: check_submessage_def pb_field_iter_begin_def struct_env_def struct_descr_def google_protobuf_Value_fields_def
      check_fields_loop.simps iter_field_def pb_check_proto3_default_value_def pb_types struct_load [unfolded struct_env_def] Let_def)

lemma entry_wires: "message_wires struct_env (Suc (Suc 0)) 2 0x1010 = Emits [(1, Str [0x61]), (2, Str [0x20, 1])]"
proof -
  have layout: "struct_layout (descr_at struct_env 2) 0x1010 =
      Some (zip (butlast (google_protobuf_Struct_FieldsEntry_fields 3)) [0x1010, 0x1018])"
    by (simp add: struct_env_def struct_descr_def google_protobuf_Struct_FieldsEntry_fields_def PB_LAST_FIELD_def next_data_def pb_types)
  show ?thesis
    using value_wires value_present
    by (simp add: layout google_protobuf_Struct_FieldsEntry_fields_def field_wires_def single_wire_def value_at_def
        pb_check_proto3_default_value_def pb_types struct_load str_wire_def message_bytes_def leb_bytes_small wire_types
        del: message_wires.simps submessage_is_default.simps add: message_wires.simps(2) [of struct_env "Suc 0" 2])
qed

lemma struct_wires: "message_wires struct_env 3 1 0x1000 = Emits [(1, Str [0x0A, 1, 0x61, 0x12, 2, 0x20, 1])]"
proof -
  have layout: "struct_layout (descr_at struct_env 1) 0x1000 = Some [(google_protobuf_Struct_fields 2 ! 0, 0x1008)]"
    by (simp add: struct_env_def struct_descr_def google_protobuf_Struct_fields_def PB_LAST_FIELD_def next_data_def pb_types)
  show ?thesis
    using entry_wires
    by (simp add: numeral_3_eq_3 layout google_protobuf_Struct_fields_def field_wires_def array_wires_def value_at_def
        pb_types struct_load str_wire_def message_bytes_def leb_bytes_small wire_types
        del: message_wires.simps submessage_is_default.simps add: message_wires.simps(2) [of struct_env "Suc (Suc 0)" 1])
qed

end
