(* ===== verification/PB_Values.thy ===== *)
theory PB_Values
  imports PB_Walk
begin

text \<open>
  The field decoders of \<open>pb_decode.c\<close> for values other than submessages. A decoder delivers the bytes that
  it stores at its destination, of a pointer field those at the allocated memory; what a failing decoder
  has stored is left out. Then: they restore what the encoders have read.
\<close>

section \<open>Numbers\<close>

text \<open>The \<open>n\<close> low bytes of a number as they are stored.\<close>

definition stored :: "nat \<Rightarrow> u64 \<Rightarrow> bytes" where
  "stored n x = le_bytes n (unat x mod 256 ^ n)"

definition pb_dec_bool :: "(bytes, 's) pb_reader" where
  "pb_dec_bool = pb_then pb_decode_varint32 (\<lambda>value. pb_return [if value \<noteq> 0 then 1 else 0])"

definition pb_decode_bool :: "(bytes, 's) pb_reader" where
  "pb_decode_bool = pb_dec_bool"

definition pb_dec_varint :: "pb_field \<Rightarrow> (bytes, 's) pb_reader" where
  "pb_dec_varint field = pb_then pb_decode_varint (\<lambda>value.
     let svalue = (if data_size field = 8 then value else scast (ucast value :: u32));
         clamped = (if data_size field = 8 then svalue
                    else if data_size field = 4 then scast (ucast svalue :: u32)
                    else if data_size field = 2 then scast (ucast svalue :: u16)
                    else scast (ucast svalue :: u8))
     in if data_size field \<notin> {1, 2, 4, 8} then pb_return_error ''invalid data_size''
        else if clamped \<noteq> svalue then pb_return_error ''integer too large''
        else pb_return (stored (unat (data_size field)) svalue))"

definition pb_dec_uvarint :: "pb_field \<Rightarrow> (bytes, 's) pb_reader" where
  "pb_dec_uvarint field = pb_then pb_decode_varint (\<lambda>value.
     let clamped = (if data_size field = 8 then value
                    else if data_size field = 4 then ucast (ucast value :: u32)
                    else if data_size field = 2 then ucast (ucast value :: u16)
                    else ucast (ucast value :: u8))
     in if data_size field \<notin> {1, 2, 4, 8} then pb_return_error ''invalid data_size''
        else if clamped \<noteq> value then pb_return_error ''integer too large''
        else pb_return (stored (unat (data_size field)) value))"

definition pb_dec_svarint :: "pb_field \<Rightarrow> (bytes, 's) pb_reader" where
  "pb_dec_svarint field = pb_then pb_decode_svarint (\<lambda>value.
     let clamped = (if data_size field = 8 then value
                    else if data_size field = 4 then scast (ucast value :: u32)
                    else if data_size field = 2 then scast (ucast value :: u16)
                    else scast (ucast value :: u8))
     in if data_size field \<notin> {1, 2, 4, 8} then pb_return_error ''invalid data_size''
        else if clamped \<noteq> value then pb_return_error ''integer too large''
        else pb_return (stored (unat (data_size field)) value))"

definition pb_dec_fixed32 :: "(bytes, 's) pb_reader" where
  "pb_dec_fixed32 = pb_then pb_decode_fixed32 (\<lambda>x. pb_return (le_bytes 4 (unat x)))"

definition pb_dec_fixed64 :: "(bytes, 's) pb_reader" where
  "pb_dec_fixed64 = pb_then pb_decode_fixed64 (\<lambda>x. pb_return (le_bytes 8 (unat x)))"

section \<open>Byte strings\<close>

text \<open>Memory for a pointer field: \<open>alloc\<close> tells whether \<open>realloc\<close> succeeds for a size.\<close>

definition allocate_field :: "(nat \<Rightarrow> bool) \<Rightarrow> nat \<Rightarrow> nat \<Rightarrow> (unit, 's) pb_reader" where
  "allocate_field alloc item_size items =
    (if item_size = 0 \<or> items = 0 then pb_return_error ''invalid size''
     else if (item_size \<ge> 2 ^ 32 \<or> items \<ge> 2 ^ 32) \<and> (2 ^ 64 - 1) div items < item_size
     then pb_return_error ''size too large''
     else if \<not> alloc (items * item_size) then pb_return_error ''realloc failed''
     else pb_return ())"

definition pb_dec_bytes :: "(nat \<Rightarrow> bool) \<Rightarrow> pb_field \<Rightarrow> (bytes, 's) pb_reader" where
  "pb_dec_bytes alloc field = pb_then pb_decode_varint32 (\<lambda>n.
     let alloc_size = unat n + 4
     in pb_then
          (if PB_ATYPE (ftype field) = PB_ATYPE_POINTER
           then (\<lambda>s. if bytes_left s < unat n then pb_return_error ''end-of-stream'' s else allocate_field alloc alloc_size 1 s)
           else if alloc_size > unat (data_size field) then pb_return_error ''bytes overflow'' else pb_return ())
          (\<lambda>_. pb_then (pb_read_bytes (unat n)) (\<lambda>bs. pb_return (le_bytes 4 (unat n) @ bs))))"

definition pb_dec_string :: "(nat \<Rightarrow> bool) \<Rightarrow> pb_field \<Rightarrow> (bytes, 's) pb_reader" where
  "pb_dec_string alloc field = pb_then pb_decode_varint32 (\<lambda>n.
     let alloc_size = unat (n + 1)
     in if alloc_size < unat n then pb_return_error ''size too large''
        else pb_then
          (if PB_ATYPE (ftype field) = PB_ATYPE_POINTER
           then (\<lambda>s. if bytes_left s < unat n then pb_return_error ''end-of-stream'' s else allocate_field alloc alloc_size 1 s)
           else if alloc_size > unat (data_size field) then pb_return_error ''string overflow'' else pb_return ())
          (\<lambda>_. pb_then (pb_read_bytes (unat n)) (\<lambda>bs. pb_return (bs @ [0]))))"

definition pb_dec_fixed_length_bytes :: "pb_field \<Rightarrow> (bytes, 's) pb_reader" where
  "pb_dec_fixed_length_bytes field = pb_then pb_decode_varint32 (\<lambda>n.
     if n = 0 then pb_return (replicate (unat (data_size field)) 0)
     else if n \<noteq> data_size field then pb_return_error ''incorrect fixed length bytes size''
     else pb_read_bytes (unat (data_size field)))"

text \<open>The table of decoders, without the entry for submessages.\<close>

definition PB_DECODERS :: "(nat \<Rightarrow> bool) \<Rightarrow> pb_field \<Rightarrow> (bytes, 's) pb_reader option" where
  "PB_DECODERS alloc field =
    (let ltype = PB_LTYPE (ftype field)
     in if ltype = PB_LTYPE_BOOL then Some pb_dec_bool
        else if ltype = PB_LTYPE_VARINT then Some (pb_dec_varint field)
        else if ltype = PB_LTYPE_UVARINT then Some (pb_dec_uvarint field)
        else if ltype = PB_LTYPE_SVARINT then Some (pb_dec_svarint field)
        else if ltype = PB_LTYPE_FIXED32 then Some pb_dec_fixed32
        else if ltype = PB_LTYPE_FIXED64 then Some pb_dec_fixed64
        else if ltype = PB_LTYPE_BYTES then Some (pb_dec_bytes alloc field)
        else if ltype = PB_LTYPE_STRING then Some (pb_dec_string alloc field)
        else if ltype = PB_LTYPE_FIXED_LENGTH_BYTES then Some (pb_dec_fixed_length_bytes field)
        else None)"

section \<open>What the encoders have read\<close>

text \<open>
  The bytes of a value in a struct, and whether a value fits where it is decoded: only byte arrays and
  strings bring their own length, which may also be 0.
\<close>

definition stored_at :: "'s pb_env \<Rightarrow> pb_field \<Rightarrow> addr \<Rightarrow> pb_wire \<Rightarrow> bytes" where
  "stored_at env field p w =
    (let ltype = PB_LTYPE (ftype field)
     in if ltype = PB_LTYPE_BOOL then [if load8 env p = 0 then 0 else 1]
        else if ltype = PB_LTYPE_FIXED32 then load_bytes env p 4
        else if ltype = PB_LTYPE_FIXED64 then load_bytes env p 8
        else case w of
               Str b \<Rightarrow> (if ltype = PB_LTYPE_BYTES then le_bytes 4 (length b) @ b
                         else if ltype = PB_LTYPE_STRING then b @ [0] else b)
             | _ \<Rightarrow> load_bytes env p (unat (data_size field)))"

definition has_room :: "(nat \<Rightarrow> bool) \<Rightarrow> pb_field \<Rightarrow> pb_wire \<Rightarrow> bool" where
  "has_room alloc field w =
    (case w of
       Str b \<Rightarrow>
         let extra = (if PB_LTYPE (ftype field) = PB_LTYPE_BYTES then 4 else 1)
         in PB_LTYPE (ftype field) \<in> {PB_LTYPE_BYTES, PB_LTYPE_STRING} \<longrightarrow>
            length b + extra < 2 ^ 32 \<and>
            (if PB_ATYPE (ftype field) = PB_ATYPE_POINTER then alloc (length b + extra)
             else length b + extra \<le> unat (data_size field))
     | _ \<Rightarrow> True)"

lemma le_bytes_val: "le_bytes (length bs) (le_val bs) = bs"
  by (simp add: le_bytes_def le_val_def) (metis be_bytes_be_val length_rev rev_rev_ident)

lemma stored_of_nat: "n \<le> 8 \<Longrightarrow> length bs = n \<Longrightarrow> stored n (of_nat (le_val bs)) = bs"
proof -
  assume n: "n \<le> 8" "length bs = n"
  have le: "(256 :: nat) ^ n \<le> 256 ^ 8" using n(1) by (intro power_increasing) simp_all
  then have "le_val bs < 256 ^ 8" using le_val_less [of bs] unfolding n(2) by (rule less_le_trans [rotated])
  then have "unat (of_nat (le_val bs) :: u64) = le_val bs" by (simp add: unat_of_nat)
  then show ?thesis using le_val_less [of bs] n le_bytes_val [of bs] by (simp add: stored_def)
qed

lemma signed_low: "(unat (scast (of_nat m :: 'a::len word) :: u64)) mod 2 ^ LENGTH('a) = m mod 2 ^ LENGTH('a)"
  if "LENGTH('a) \<le> 64"
proof -
  have "(ucast (scast (of_nat m :: 'a word) :: u64) :: 'a word) = of_nat m"
    using that by (intro bit_word_eqI) (auto simp: bit_simps)
  from arg_cong [OF this, of unat] show ?thesis by (simp add: unat_ucast unat_of_nat)
qed

lemma clamp_signed:
  "(scast (ucast (scast (x :: u8) :: u64) :: u8) :: u64) = scast x"
  "(scast (ucast (scast (y :: u16) :: u64) :: u16) :: u64) = scast y"
  "(scast (ucast (scast (z :: u32) :: u64) :: u32) :: u64) = scast z"
  "(scast (ucast (scast (x :: u8) :: u64) :: u32) :: u64) = scast x"
  "(scast (ucast (scast (y :: u16) :: u64) :: u32) :: u64) = scast y"
  by (rule bit_word_eqI; auto simp: bit_simps min_def)+

lemma stored_signed:
  "length bs = 1 \<Longrightarrow> stored 1 (scast (of_nat (le_val bs) :: u8)) = bs"
  "length bs = 2 \<Longrightarrow> stored 2 (scast (of_nat (le_val bs) :: u16)) = bs"
  "length bs = 4 \<Longrightarrow> stored 4 (scast (of_nat (le_val bs) :: u32)) = bs"
proof -
  note low = signed_low [where 'a = 8, of "le_val bs"] signed_low [where 'a = 16, of "le_val bs"]
    signed_low [where 'a = 32, of "le_val bs"]
  show "length bs = 1 \<Longrightarrow> stored 1 (scast (of_nat (le_val bs) :: u8)) = bs"
    "length bs = 2 \<Longrightarrow> stored 2 (scast (of_nat (le_val bs) :: u16)) = bs"
    "length bs = 4 \<Longrightarrow> stored 4 (scast (of_nat (le_val bs) :: u32)) = bs"
    using low le_val_less [of bs] le_bytes_val [of bs] by (simp_all add: stored_def)
qed

text \<open>A signed number as a 64-bit word.\<close>

lemma signed_at_cases:
  assumes "signed_at env n p = Emits x"
  obtains "n = 1" "x = scast (of_nat (le_val (load_bytes env p 1)) :: u8)"
    | "n = 2" "x = scast (of_nat (le_val (load_bytes env p 2)) :: u16)"
    | "n = 4" "x = scast (of_nat (le_val (load_bytes env p 4)) :: u32)"
    | "n = 8" "x = of_nat (le_val (load_bytes env p 8))"
  using assms by (auto simp: signed_at_def scast_of_nat signed_64 split: if_splits)

lemma unsigned_at_cases:
  assumes "unsigned_at env n p = Emits x"
  obtains "n \<in> {1, 2, 4, 8}" "x = of_nat (le_val (load_bytes env p (unat n)))"
  using assms by (auto simp: unsigned_at_def split: if_splits)

context pb_bytes
begin

lemma dec_varint_accepts:
  assumes x: "signed_at env (data_size field) p = Emits x"
  shows "accepts (pb_dec_varint field) (payload (Varint x) @ rest) (load_bytes env p (unat (data_size field))) rest"
  unfolding pb_dec_varint_def payload.simps
  using x by (intro accepts_then [OF decode_varint_canonical]; elim signed_at_cases)
    (simp_all add: Let_def clamp_signed stored_signed stored_signed(1) [unfolded One_nat_def] stored_of_nat accepts_return)

lemma dec_svarint_accepts:
  assumes x: "signed_at env (data_size field) p = Emits x"
  shows "accepts (pb_dec_svarint field) (payload (Varint (zigzag x)) @ rest) (load_bytes env p (unat (data_size field))) rest"
proof -
  have "(if zigzag x AND 1 \<noteq> 0 then NOT (drop_bit 1 (zigzag x)) else drop_bit 1 (zigzag x)) = x"
    by (rule zigzag_inverse) (simp add: zigzag_word)
  then have "accepts pb_decode_svarint (payload (Varint (zigzag x)) @ rest) x rest"
    unfolding pb_decode_svarint_def payload.simps
    using accepts_return [of x rest] by (intro accepts_then [OF decode_varint_canonical]) simp
  then show ?thesis
    unfolding pb_dec_svarint_def
  proof (rule accepts_then)
    from x show "accepts (let clamped = (if data_size field = 8 then x
                    else if data_size field = 4 then scast (ucast x :: u32)
                    else if data_size field = 2 then scast (ucast x :: u16)
                    else scast (ucast x :: u8))
        in if data_size field \<notin> {1, 2, 4, 8} then pb_return_error ''invalid data_size''
           else if clamped \<noteq> x then pb_return_error ''integer too large''
           else pb_return (stored (unat (data_size field)) x)) rest (load_bytes env p (unat (data_size field))) rest"
      by (elim signed_at_cases)
        (simp_all add: Let_def clamp_signed stored_signed stored_signed(1) [unfolded One_nat_def] stored_of_nat accepts_return)
  qed
qed

lemma dec_uvarint_accepts:
  assumes x: "unsigned_at env (data_size field) p = Emits x"
  shows "accepts (pb_dec_uvarint field) (payload (Varint x) @ rest) (load_bytes env p (unat (data_size field))) rest"
proof -
  let ?bs = "load_bytes env p (unat (data_size field))"
  from x have n: "data_size field \<in> {1, 2, 4, 8}" and eq: "x = of_nat (le_val ?bs)" by (auto elim: unsigned_at_cases)
  have less: "le_val ?bs < 256 ^ unat (data_size field)" using le_val_less [of ?bs] by simp
  have "stored (unat (data_size field)) x = ?bs" unfolding eq using n by (intro stored_of_nat) auto
  moreover have "(data_size field = 4 \<longrightarrow> ucast (ucast x :: u32) = x) \<and> (data_size field = 2 \<longrightarrow> ucast (ucast x :: u16) = x) \<and>
    (data_size field = 1 \<longrightarrow> ucast (ucast x :: u8) = x)"
    unfolding eq using less by (auto intro!: word_eqI_unat simp: unat_ucast unat_of_nat)
  ultimately show ?thesis
    unfolding pb_dec_uvarint_def payload.simps using n
    by (intro accepts_then [OF decode_varint_canonical]) (auto simp: Let_def accepts_return)
qed

lemma dec_bool_accepts:
  "accepts pb_dec_bool (payload (Varint (if b then 1 else 0)) @ rest) [if b then 1 else 0] rest"
  unfolding pb_dec_bool_def payload.simps
  by (intro accepts_then [OF decode_varint32_canonical]) (simp_all add: accepts_return)

lemma dec_fixed32_accepts: "accepts pb_dec_fixed32 (payload (Fixed32 (load32 env p)) @ rest) (load_bytes env p 4) rest"
proof -
  have "unat (load32 env p) = le_val (load_bytes env p 4)"
    using le_val_less [of "load_bytes env p 4"] by (simp add: load32_def unat_of_nat)
  then have eq: "le_bytes 4 (unat (load32 env p)) = load_bytes env p 4" using le_bytes_val [of "load_bytes env p 4"] by simp
  have "accepts pb_decode_fixed32 (le_bytes 4 (unat (load32 env p)) @ rest) (load32 env p) rest"
    using decode_fixed32_accepts [of "le_bytes 4 (unat (load32 env p))" rest] by (simp add: le_val_bytes)
  then show ?thesis
    unfolding pb_dec_fixed32_def payload.simps
    by (rule accepts_then) (simp add: eq accepts_return)
qed

lemma dec_fixed64_accepts: "accepts pb_dec_fixed64 (payload (Fixed64 (load64 env p)) @ rest) (load_bytes env p 8) rest"
proof -
  have "unat (load64 env p) = le_val (load_bytes env p 8)"
    using le_val_less [of "load_bytes env p 8"] by (simp add: load64_def unat_of_nat)
  then have eq: "le_bytes 8 (unat (load64 env p)) = load_bytes env p 8" using le_bytes_val [of "load_bytes env p 8"] by simp
  have "accepts pb_decode_fixed64 (le_bytes 8 (unat (load64 env p)) @ rest) (load64 env p) rest"
    using decode_fixed64_accepts [of "le_bytes 8 (unat (load64 env p))" rest] by (simp add: le_val_bytes)
  then show ?thesis
    unfolding pb_dec_fixed64_def payload.simps
    by (rule accepts_then) (simp add: eq accepts_return)
qed

text \<open>Byte strings in static fields, and in allocated memory.\<close>

lemma allocate_accepts: "0 < n \<Longrightarrow> n < 2 ^ 33 \<Longrightarrow> alloc n \<Longrightarrow> accepts (allocate_field alloc n 1) c () c"
  by (simp add: allocate_field_def accepts_return)

lemma enough_left: "n \<le> length c \<Longrightarrow> accepts r c x c' \<Longrightarrow>
    accepts (\<lambda>s. if bytes_left s < n then pb_return_error msg s else r s) c x c'"
  using left by (auto simp: accepts_def)

lemma take_payload: "accepts (pb_read_bytes (length b)) (b @ rest) b rest"
  using accepts_read_bytes [of "length b" "b @ rest"] by simp

lemma dec_bytes_accepts:
  assumes b: "length b < 2 ^ 32"
    and fits: "if PB_ATYPE (ftype field) = PB_ATYPE_POINTER then alloc (length b + 4) else length b + 4 \<le> unat (data_size field)"
  shows "accepts (pb_dec_bytes alloc field) (payload (Str b) @ rest) (le_bytes 4 (length b) @ b) rest"
proof -
  have n: "unat (of_nat (length b) :: u32) = length b" using b by (simp add: unat_of_nat)
  have tail: "accepts (pb_then (pb_read_bytes (length b)) (\<lambda>bs. pb_return (le_bytes 4 (length b) @ bs))) (b @ rest)
      (le_bytes 4 (length b) @ b) rest" by (rule accepts_then [OF take_payload accepts_return])
  have room: "accepts
      (if PB_ATYPE (ftype field) = PB_ATYPE_POINTER
       then (\<lambda>s. if bytes_left s < length b then pb_return_error ''end-of-stream'' s else allocate_field alloc (length b + 4) 1 s)
       else if length b + 4 > unat (data_size field) then pb_return_error ''bytes overflow'' else pb_return ())
      (b @ rest) () (b @ rest)"
    using fits b by (auto intro!: enough_left allocate_accepts accepts_return)
  show ?thesis
    unfolding pb_dec_bytes_def payload.simps append_assoc
    using b by (intro accepts_then [OF decode_varint32_canonical]) (simp_all only: n Let_def accepts_then [OF room tail] simp_thms)
qed

lemma dec_string_accepts:
  assumes b: "length b + 1 < 2 ^ 32"
    and fits: "if PB_ATYPE (ftype field) = PB_ATYPE_POINTER then alloc (length b + 1) else length b + 1 \<le> unat (data_size field)"
  shows "accepts (pb_dec_string alloc field) (payload (Str b) @ rest) (b @ [0]) rest"
proof -
  have n: "unat (of_nat (length b) :: u32) = length b" "unat (of_nat (length b) + 1 :: u32) = length b + 1"
    using b by (simp_all add: unat_of_nat unat_word_ariths)
  have tail: "accepts (pb_then (pb_read_bytes (length b)) (\<lambda>bs. pb_return (bs @ [0]))) (b @ rest) (b @ [0]) rest"
    by (rule accepts_then [OF take_payload accepts_return])
  have room: "accepts
      (if PB_ATYPE (ftype field) = PB_ATYPE_POINTER
       then (\<lambda>s. if bytes_left s < length b then pb_return_error ''end-of-stream'' s else allocate_field alloc (length b + 1) 1 s)
       else if length b + 1 > unat (data_size field) then pb_return_error ''string overflow'' else pb_return ())
      (b @ rest) () (b @ rest)"
    using fits b by (auto intro!: enough_left allocate_accepts accepts_return)
  have small: "\<not> length b + 1 < length b" and len: "length b < 2 ^ 32" using b by simp_all
  show ?thesis
    unfolding pb_dec_string_def payload.simps append_assoc
    by (rule accepts_then [OF decode_varint32_canonical [OF disjI1 [OF len]]])
      (simp only: n Let_def accepts_then [OF room tail] small if_False simp_thms)
qed

lemma dec_fixed_length_accepts:
  assumes b: "length b = unat (data_size field)"
  shows "accepts (pb_dec_fixed_length_bytes field) (payload (Str b) @ rest) b rest"
proof -
  have n: "of_nat (length b) = data_size field" by (simp add: b)
  have len: "length b < 2 ^ 32" unfolding b using unat_u32_less [of "data_size field"] by simp
  have read: "accepts (pb_read_bytes (unat (data_size field))) (b @ rest) b rest"
    using take_payload [of b rest] by (simp add: b)
  have "accepts (if data_size field = 0 then pb_return (replicate (unat (data_size field)) 0)
      else pb_read_bytes (unat (data_size field))) (b @ rest) b rest"
  proof (cases "data_size field = 0")
    case True
    then have "b = []" using b by simp
    then show ?thesis using True accepts_return [of "[]" rest] by simp
  next
    case False
    then show ?thesis using read by simp
  qed
  then show ?thesis
    unfolding pb_dec_fixed_length_bytes_def payload.simps append_assoc
    by (intro accepts_then [OF decode_varint32_canonical [OF disjI1 [OF len]]]) (simp only: n simp_thms if_False not_True_eq_False)
qed

text \<open>Any value.\<close>

lemma decoder_accepts:
  assumes dec: "PB_DECODERS alloc field = Some dec" and w: "value_at env msg field p = Emits w" and room: "has_room alloc field w"
  shows "accepts dec (payload w @ rest) (stored_at env field p w) rest"
proof -
  have "PB_LTYPE (ftype field) = PB_LTYPE_BOOL \<or> PB_LTYPE (ftype field) = PB_LTYPE_VARINT \<or>
    PB_LTYPE (ftype field) = PB_LTYPE_UVARINT \<or> PB_LTYPE (ftype field) = PB_LTYPE_SVARINT \<or>
    PB_LTYPE (ftype field) = PB_LTYPE_FIXED32 \<or> PB_LTYPE (ftype field) = PB_LTYPE_FIXED64 \<or>
    PB_LTYPE (ftype field) = PB_LTYPE_BYTES \<or> PB_LTYPE (ftype field) = PB_LTYPE_STRING \<or>
    PB_LTYPE (ftype field) = PB_LTYPE_FIXED_LENGTH_BYTES"
    using dec by (auto simp: PB_DECODERS_def Let_def split: if_splits)
  then show ?thesis
  proof (elim disjE)
    assume "PB_LTYPE (ftype field) = PB_LTYPE_BOOL"
    then show ?thesis using dec w dec_bool_accepts [of "load8 env p \<noteq> 0" rest]
      by (auto simp: PB_DECODERS_def value_at_def stored_at_def split: if_splits)
  next
    assume t: "PB_LTYPE (ftype field) = PB_LTYPE_VARINT"
    then obtain x where "signed_at env (data_size field) p = Emits x" "w = Varint x"
      using w by (auto simp: value_at_def pb_ltypes Let_def out_bind_Emits)
    then show ?thesis using dec t dec_varint_accepts by (auto simp: PB_DECODERS_def stored_at_def pb_ltypes)
  next
    assume t: "PB_LTYPE (ftype field) = PB_LTYPE_UVARINT"
    then obtain x where "unsigned_at env (data_size field) p = Emits x" "w = Varint x"
      using w by (auto simp: value_at_def pb_ltypes Let_def out_bind_Emits)
    then show ?thesis using dec t dec_uvarint_accepts by (auto simp: PB_DECODERS_def stored_at_def pb_ltypes)
  next
    assume t: "PB_LTYPE (ftype field) = PB_LTYPE_SVARINT"
    then obtain x where "signed_at env (data_size field) p = Emits x" "w = Varint (zigzag x)"
      using w by (auto simp: value_at_def pb_ltypes Let_def out_bind_Emits)
    then show ?thesis using dec t dec_svarint_accepts by (auto simp: PB_DECODERS_def stored_at_def pb_ltypes)
  next
    assume "PB_LTYPE (ftype field) = PB_LTYPE_FIXED32"
    then show ?thesis using dec w dec_fixed32_accepts [of env p rest]
      by (auto simp: PB_DECODERS_def value_at_def stored_at_def pb_ltypes)
  next
    assume "PB_LTYPE (ftype field) = PB_LTYPE_FIXED64"
    then show ?thesis using dec w dec_fixed64_accepts [of env p rest]
      by (auto simp: PB_DECODERS_def value_at_def stored_at_def pb_ltypes)
  next
    assume t: "PB_LTYPE (ftype field) = PB_LTYPE_BYTES"
    then obtain b where b: "w = Str b" using w by (auto simp: value_at_def pb_ltypes split: if_splits)
    have "accepts (pb_dec_bytes alloc field) (payload (Str b) @ rest) (le_bytes 4 (length b) @ b) rest"
      using room t by (intro dec_bytes_accepts) (auto simp: b has_room_def)
    then show ?thesis using dec t by (auto simp: PB_DECODERS_def stored_at_def pb_ltypes b)
  next
    assume t: "PB_LTYPE (ftype field) = PB_LTYPE_STRING"
    then obtain b where b: "w = Str b" using w by (auto simp: value_at_def pb_ltypes str_wire_def Let_def split: if_splits)
    have "accepts (pb_dec_string alloc field) (payload (Str b) @ rest) (b @ [0]) rest"
      using room t by (intro dec_string_accepts) (auto simp: b has_room_def pb_ltypes)
    then show ?thesis using dec t by (auto simp: PB_DECODERS_def stored_at_def pb_ltypes b)
  next
    assume t: "PB_LTYPE (ftype field) = PB_LTYPE_FIXED_LENGTH_BYTES"
    then have b: "w = Str (load_bytes env p (unat (data_size field)))"
      using w by (auto simp: value_at_def pb_ltypes split: if_splits)
    have "accepts (pb_dec_fixed_length_bytes field) (payload w @ rest) (load_bytes env p (unat (data_size field))) rest"
      unfolding b by (intro dec_fixed_length_accepts) simp
    then show ?thesis using dec t by (auto simp: PB_DECODERS_def stored_at_def pb_ltypes b)
  qed
qed

end

end
