(* ===== verification/PB_Props.thy ===== *)
theory PB_Props
  imports PB_Struct PB_Values
begin

text \<open>
  Properties of nanopb: what \<open>pb_encode\<close> writes, its errors and sizes, and what the decoders of the wire
  format read back.
\<close>

section \<open>Encoding into memory\<close>

lemma memory_start: "length buf < 2 ^ 63 \<Longrightarrow> memory.ok (pb_ostream_from_buffer buf (length buf))"
  by (simp add: memory.ok_def pb_ostream_from_buffer_def memory_ok_def memory_room_def)

lemma memory_wrote: "memory.wrote (pb_ostream_from_buffer buf (length buf)) e s \<Longrightarrow>
    memory_output (out_sink s) = e \<and> bytes_written s = length e \<and> length e \<le> length buf"
  by (simp add: memory.wrote_def memory.ok_def pb_ostream_from_buffer_def memory_output_def memory_room_def)

lemma emits_memory:
  assumes "memory.emits op e" "length buf < 2 ^ 63"
  shows "if length e \<le> length buf
    then \<exists>s. op (pb_ostream_from_buffer buf (length buf)) = Some (True, s) \<and> memory_output (out_sink s) = e \<and>
      bytes_written s = length e
    else \<exists>s p. op (pb_ostream_from_buffer buf (length buf)) = Some (False, s) \<and> prefix p e \<and>
      memory_output (out_sink s) = p \<and> bytes_written s = length p \<and> length p \<le> length buf"
proof -
  let ?s = "pb_ostream_from_buffer buf (length buf)"
  have ok: "memory.ok ?s" using assms(2) by (rule memory_start)
  have init: "bytes_written ?s = 0" "max_size ?s = length buf" by (simp_all add: pb_ostream_from_buffer_def)
  show ?thesis
  proof (cases "length e \<le> length buf")
    case True
    then have "bytes_written ?s + length e \<le> max_size ?s" by (simp add: init)
    from memory.emits_fit [OF assms(1) ok this] obtain s where "op ?s = Some (True, s)" "memory.wrote ?s e s" by blast
    with True memory_wrote show ?thesis by auto
  next
    case False
    then have "max_size ?s < bytes_written ?s + length e" by (simp add: init)
    from memory.emits_full [OF assms(1) ok this] obtain s p where
      "op ?s = Some (False, s)" "prefix p e" "memory.wrote ?s p s" by blast
    with False memory_wrote show ?thesis by (metis (no_types))
  qed
qed

text \<open>C1. \<open>pb_encode\<close> into a buffer writes the wire format of the fields that the struct holds, if it fits.
  Otherwise it returns \<open>false\<close> and has written a prefix inside the buffer.\<close>

theorem pb_encode_writes:
  assumes "message_wires env n descr src = Emits ws" "n \<le> m" "length buf < 2 ^ 63"
  shows "let e = message_bytes ws; r = pb_encode env m descr src (pb_ostream_from_buffer buf (length buf))
    in if length e \<le> length buf
       then \<exists>s. r = Some (True, s) \<and> memory_output (out_sink s) = e \<and> bytes_written s = length e
       else \<exists>s p. r = Some (False, s) \<and> prefix p e \<and> memory_output (out_sink s) = p \<and> bytes_written s = length p \<and>
         length p \<le> length buf"
proof -
  have "message_wires env m descr src = Emits ws" using assms(1,2) message_bound [of env n descr src m] by simp
  then have "memory.emits (pb_encode env m descr src) (message_bytes ws)"
    using memory.meets_message [of env m descr src] by simp
  then show ?thesis unfolding Let_def using assms(3) by (rule emits_memory)
qed

theorem pb_encode_writes_witness:
  "\<exists>s. pb_encode struct_env 3 1 0x1000 (pb_ostream_from_buffer (replicate 12 0) 12) = Some (True, s) \<and>
    memory_output (out_sink s) = [0x0A, 7, 0x0A, 1, 0x61, 0x12, 2, 0x20, 1] \<and> bytes_written s = 9"
proof -
  have e: "message_bytes [(1, Str [0x0A, 1, 0x61, 0x12, 2, 0x20, 1])] = [0x0A, 7, 0x0A, 1, 0x61, 0x12, 2, 0x20, 1]"
    by (simp add: message_bytes_def leb_bytes_small wire_types)
  have len: "length [0x0A, 7, 0x0A, 1, 0x61, 0x12, 2, 0x20, 1 :: u8] = 9" "length (replicate 12 (0 :: u8)) = 12" by simp_all
  show ?thesis
    using pb_encode_writes [OF struct_wires order_refl, of "replicate 12 0"] unfolding e Let_def len by simp
qed

text \<open>C20. The size that \<open>pb_get_encoded_size\<close> returns is that of the wire format, modulo the range of
  \<open>size_t\<close>; it fails when the struct cannot be encoded.\<close>

theorem pb_get_encoded_size_exact:
  assumes "message_wires env n descr src \<noteq> Open"
  shows "pb_get_encoded_size env n descr src =
    Some (case message_wires env n descr src of Emits ws \<Rightarrow> Some (length (message_bytes ws) mod 2 ^ 64) | _ \<Rightarrow> None)"
proof (cases "message_wires env n descr src")
  case (Emits ws)
  then have "memory.emits (pb_encode env n descr src) (message_bytes ws)"
    using memory.meets_message [of env n descr src] by simp
  from memory.emits_sizing [OF this, of PB_OSTREAM_SIZING] show ?thesis
    by (simp add: Emits pb_get_encoded_size_def PB_OSTREAM_SIZING_def size_add_def)
next
  case Fails
  then have "memory.fails (pb_encode env n descr src)" using memory.meets_message [of env n descr src] by simp
  from memory.fails_sizing [OF this, of PB_OSTREAM_SIZING] show ?thesis
    by (auto simp: Fails pb_get_encoded_size_def PB_OSTREAM_SIZING_def)
qed (use assms in simp)

theorem pb_get_encoded_size_exact_witness: "pb_get_encoded_size struct_env 3 1 0x1000 = Some (Some 9)"
proof -
  have "length (message_bytes [(1, Str [0x0A, 1, 0x61, 0x12, 2, 0x20, 1])]) = 9"
    by (simp add: message_bytes_def leb_bytes_small wire_types)
  then show ?thesis using pb_get_encoded_size_exact [where env = struct_env and n = 3 and descr = 1 and src = "0x1000"]
    unfolding struct_wires by simp
qed

text \<open>C22. When the struct cannot be encoded, \<open>pb_encode\<close> returns \<open>false\<close> and has not left the buffer.\<close>

theorem pb_encode_rejects:
  assumes "message_wires env n descr src = Fails" "n \<le> m" "length buf < 2 ^ 63"
  shows "\<exists>s. pb_encode env m descr src (pb_ostream_from_buffer buf (length buf)) = Some (False, s) \<and>
    bytes_written s \<le> length buf \<and> bytes_written s = length (memory_output (out_sink s))"
proof -
  have "message_wires env m descr src = Fails" using assms(1,2) message_bound [of env n descr src m] by simp
  then have "memory.fails (pb_encode env m descr src)" using memory.meets_message [of env m descr src] by simp
  with memory_start [OF assms(3)] obtain s p where
    "pb_encode env m descr src (pb_ostream_from_buffer buf (length buf)) = Some (False, s)"
    "memory.wrote (pb_ostream_from_buffer buf (length buf)) p s"
    unfolding memory.fails_def by blast
  then show ?thesis using memory_wrote by fastforce
qed

text \<open>A required field that is a null pointer, after a number.\<close>

definition missing_env :: "unit pb_env" where
  "missing_env =
    \<lparr>mem = (\<lambda>p. if p = 0x1000 then 5 else 0),
     descr_at = (\<lambda>p. [\<lparr>tag = 1, ftype = 0x01, data_offset = 0, size_offset = 0, data_size = 4, array_size = 0, ptr = 0\<rparr>,
       \<lparr>tag = 2, ftype = 0x87, data_offset = 4, size_offset = 0, data_size = 1, array_size = 0, ptr = 0\<rparr>, PB_LAST_FIELD]),
     callback_encode = (\<lambda>f field arg s. None), extension_encode = (\<lambda>f ext s. None)\<rparr>"

theorem pb_encode_rejects_witness:
  "\<exists>s. pb_encode missing_env 1 1 0x1000 (pb_ostream_from_buffer [0, 0, 0, 0] 4) = Some (False, s) \<and> bytes_written s \<le> 4"
proof -
  have "load64 missing_env 0x1008 = 0" "le_val (load_bytes missing_env 0x1000 4) = 5"
    by (simp_all add: load64_def missing_env_def load_bytes_numeral load_bytes_Suc load_bytes_0)
  then have fails: "message_wires missing_env 1 1 0x1000 = Fails"
    by (simp add: missing_env_def PB_LAST_FIELD_def next_data_def field_wires_def single_wire_def value_at_def signed_at_def
        pb_types word_le_nat_alt Let_def)
  have small: "length [0, 0, 0, 0 :: u8] < 2 ^ 63" and len: "length [0, 0, 0, 0 :: u8] = 4" by simp_all
  show ?thesis using pb_encode_rejects [OF fails order_refl small] unfolding len by blast
qed

section \<open>Reading back\<close>

text \<open>Decoding what an encoder has written into \<open>buf\<close>, with \<open>rest\<close> behind it.\<close>

definition reads_back :: "unit pb_writer \<Rightarrow> ('a, unit) pb_reader \<Rightarrow> bytes \<Rightarrow> bytes \<Rightarrow> 'a \<Rightarrow> bool" where
  "reads_back enc dec buf rest x \<longleftrightarrow>
    (\<exists>s s'. enc (pb_ostream_from_buffer buf (length buf)) = Some (True, s) \<and>
      dec (pb_istream_from_buffer (memory_output (out_sink s) @ rest) (bytes_written s + length rest)) = Some (Some x, s') \<and>
      buffer_content s' = rest)"

lemma reads_backI:
  assumes "memory.emits enc e" "buffer.accepts dec (e @ rest) x rest" "length e \<le> length buf" "length buf < 2 ^ 63"
  shows "reads_back enc dec buf rest x"
proof -
  from emits_memory [OF assms(1,4)] assms(3) obtain s where s: "enc (pb_ostream_from_buffer buf (length buf)) = Some (True, s)"
    "memory_output (out_sink s) = e" "bytes_written s = length e" by auto
  from assms(2) from_buffer [of "e @ rest"] obtain s' where
    "dec (pb_istream_from_buffer (e @ rest) (length (e @ rest))) = Some (Some x, s')" "buffer_content s' = rest"
    unfolding buffer.accepts_def by blast
  then show ?thesis using s by (auto simp: reads_back_def)
qed

text \<open>C2. Varints, zigzag numbers and fixed-width numbers are read back, and the bytes behind them are left.\<close>

theorem numbers_read_back:
  assumes "10 \<le> length buf" "length buf < 2 ^ 63"
  shows "reads_back (pb_encode_varint x) pb_decode_varint buf rest x \<and>
    reads_back (pb_encode_svarint x) pb_decode_svarint buf rest x \<and>
    reads_back (pb_encode_fixed32 y) pb_decode_fixed32 buf rest y \<and>
    reads_back (pb_encode_fixed64 x) pb_decode_fixed64 buf rest x"
proof (intro conjI)
  have fits: "length (leb_bytes (unat z)) \<le> length buf" for z :: u64 using leb_bytes_length_64 [of z] assms(1) by linarith
  show "reads_back (pb_encode_varint x) pb_decode_varint buf rest x"
    by (rule reads_backI [OF memory.emits_varint buffer.decode_varint_canonical fits assms(2)])
  have "(if zigzag x AND 1 \<noteq> 0 then NOT (drop_bit 1 (zigzag x)) else drop_bit 1 (zigzag x)) = x"
    by (rule zigzag_inverse) (simp add: zigzag_word)
  then have "buffer.accepts pb_decode_svarint (payload (Varint (zigzag x)) @ rest) x rest"
    unfolding pb_decode_svarint_def payload.simps
    using buffer.accepts_return [of x rest] by (intro buffer.accepts_then [OF buffer.decode_varint_canonical]) simp
  then show "reads_back (pb_encode_svarint x) pb_decode_svarint buf rest x"
    using fits by (intro reads_backI [OF memory.emits_svarint _ _ assms(2)]) simp_all
  have "buffer.accepts pb_decode_fixed32 (le_bytes 4 (unat y) @ rest) y rest"
    using buffer.decode_fixed32_accepts [of "le_bytes 4 (unat y)" rest] by (simp add: le_val_bytes)
  then show "reads_back (pb_encode_fixed32 y) pb_decode_fixed32 buf rest y"
    using assms by (intro reads_backI [OF memory.emits_fixed32]) simp_all
  have "buffer.accepts pb_decode_fixed64 (le_bytes 8 (unat x) @ rest) x rest"
    using buffer.decode_fixed64_accepts [of "le_bytes 8 (unat x)" rest] by (simp add: le_val_bytes)
  then show "reads_back (pb_encode_fixed64 x) pb_decode_fixed64 buf rest x"
    using assms by (intro reads_backI [OF memory.emits_fixed64]) simp_all
qed

theorem numbers_read_back_witness: "reads_back (pb_encode_svarint (- 3)) pb_decode_svarint (replicate 10 0) [7] (- 3)"
  using numbers_read_back [of "replicate 10 0" "- 3" "[7]" 0] by simp

text \<open>C18. What the encoder of a field value has read from the struct, the decoder of the field stores again,
  empty values included, if there is room at its destination (\<open>has_room\<close>): a byte array or a string, with its
  length or its terminator, must fit the size of a static field, or have a size of 32 bits for which memory is
  available. \<open>PB_DECODERS\<close> has no entry for submessages here.\<close>

theorem values_read_back:
  assumes "PB_ENCODERS env enc (PB_LTYPE (ftype field)) = Some func" "PB_DECODERS alloc field = Some dec"
    "value_at env msg field p = Emits w" "has_room alloc field w" "length (payload w) \<le> length buf" "length buf < 2 ^ 63"
  shows "reads_back (func field p) dec buf rest (stored_at env field p w)"
proof -
  have "PB_LTYPE (ftype field) \<noteq> PB_LTYPE_SUBMESSAGE"
  proof
    assume t: "PB_LTYPE (ftype field) = PB_LTYPE_SUBMESSAGE"
    have "PB_DECODERS alloc field \<noteq> Some dec" unfolding PB_DECODERS_def Let_def t by (simp add: pb_ltypes)
    with assms(2) show False by simp
  qed
  then have "value_at env (\<lambda>d q. Open) field p = Emits w" using assms(3) unfolding value_at_def Let_def by (simp only: if_False)
  moreover have "memory.meets (func field p) (out_map payload (value_at env (\<lambda>d q. Open) field p))"
    by (rule memory.meets_value [OF _ assms(1)]) simp
  ultimately have "memory.emits (func field p) (payload w)" by simp
  then show ?thesis using buffer.decoder_accepts [OF assms(2-4)] assms(5,6) by (rule reads_backI)
qed

theorem values_read_back_witness:
  "reads_back (pb_enc_bytes struct_env (google_protobuf_Struct_FieldsEntry_fields 3 ! 0) 0x1030)
    (pb_dec_bytes (\<lambda>n. True) (google_protobuf_Struct_FieldsEntry_fields 3 ! 0)) [0, 0, 0] [9] [1, 0, 0, 0, 0x61] \<and>
   reads_back (pb_enc_bytes struct_env (google_protobuf_Struct_FieldsEntry_fields 3 ! 0) 0x2000)
    (pb_dec_bytes (\<lambda>n. True) (google_protobuf_Struct_FieldsEntry_fields 3 ! 0)) [0] [9] [0, 0, 0, 0]"
proof
  let ?f = "google_protobuf_Struct_FieldsEntry_fields 3 ! 0"
  have e: "load32 struct_env 0x2000 = 0" "load_bytes struct_env 0x2004 0 = []"
    by (simp_all add: load32_def load_bytes_numeral load_bytes_Suc load_bytes_0 struct_env_def struct_memory_def)
  have f: "PB_ENCODERS struct_env enc (PB_LTYPE (ftype ?f)) = Some (pb_enc_bytes struct_env)"
    "PB_DECODERS (\<lambda>n. True) ?f = Some (pb_dec_bytes (\<lambda>n. True) ?f)"
    "value_at struct_env msg ?f 0x1030 = Emits (Str [0x61])" "has_room (\<lambda>n. True) ?f (Str [0x61])"
    "stored_at struct_env ?f 0x1030 (Str [0x61]) = [1, 0, 0, 0, 0x61]"
    "value_at struct_env msg ?f 0x2000 = Emits (Str [])" "has_room (\<lambda>n. True) ?f (Str [])"
    "stored_at struct_env ?f 0x2000 (Str []) = [0, 0, 0, 0]" for enc msg
    by (simp_all add: google_protobuf_Struct_FieldsEntry_fields_def PB_ENCODERS_def PB_DECODERS_def value_at_def has_room_def
        stored_at_def pb_types struct_load e le_bytes_numeral le_bytes_1)
  show "reads_back (pb_enc_bytes struct_env ?f 0x1030) (pb_dec_bytes (\<lambda>n. True) ?f) [0, 0, 0] [9] [1, 0, 0, 0, 0x61]"
    using values_read_back [OF f(1-4), of "[0, 0, 0]" "[9]"] unfolding f(5) by (simp add: leb_bytes_small)
  show "reads_back (pb_enc_bytes struct_env ?f 0x2000) (pb_dec_bytes (\<lambda>n. True) ?f) [0] [9] [0, 0, 0, 0]"
    using values_read_back [OF f(1,2,6,7), of "[0]" "[9]"] unfolding f(8) by (simp add: leb_bytes_small)
qed

text \<open>C23. \<open>pb_decode_varint32\<close> reads back 32-bit numbers, unsigned or, as \<open>pb_enc_varint\<close> writes them,
  sign-extended to 64 bits.\<close>

theorem varint32_reads_back:
  assumes "x = ucast y \<or> x = scast (y :: u32)" "10 \<le> length buf" "length buf < 2 ^ 63"
  shows "reads_back (pb_encode_varint x) pb_decode_varint32 buf rest y"
proof -
  have "unat x < 2 ^ 32 \<or> 2 ^ 64 - 2 ^ 31 \<le> unat x \<and> unat x < 2 ^ 64"
    using assms(1)
  proof
    assume x: "x = scast y"
    have range: "- (2 ^ 31) \<le> sint y" "sint y < 2 ^ 31" using sint_greater_eq [of y] sint_less [of y] by simp_all
    have "uint x = sint y mod 2 ^ 64" unfolding x scast_eq unsigned_of_int by (simp add: take_bit_eq_mod)
    moreover have "sint y mod 2 ^ 64 = (if sint y < 0 then sint y + 2 ^ 64 else sint y)"
    proof (cases "sint y < 0")
      case True
      have "sint y mod 2 ^ 64 = (sint y + 2 ^ 64) mod 2 ^ 64" by simp
      also have "\<dots> = sint y + 2 ^ 64" using True range by (intro mod_pos_pos_trivial) simp_all
      finally show ?thesis using True by simp
    next
      case False
      then show ?thesis using range by (simp add: mod_pos_pos_trivial)
    qed
    ultimately have "uint x = (if sint y < 0 then sint y + 2 ^ 64 else sint y)" by (rule trans)
    then have unat: "unat x = nat (if sint y < 0 then sint y + 2 ^ 64 else sint y)"
      using nat_uint_eq [of x] by (simp only:)
    show ?thesis
    proof (cases "sint y < 0")
      case True
      with range have "2 ^ 64 - 2 ^ 31 \<le> nat (sint y + 2 ^ 64)" "nat (sint y + 2 ^ 64) < 2 ^ 64" by (auto simp: le_nat_iff)
      with True show ?thesis unfolding unat by simp
    next
      case False
      with range have "nat (sint y) < 2 ^ 32" by auto
      with False show ?thesis unfolding unat by simp
    qed
  qed simp
  moreover have "of_nat (unat x) = y"
    using assms(1) by (auto simp: of_nat_unat intro!: bit_word_eqI simp: bit_simps)
  ultimately have "buffer.accepts pb_decode_varint32 (leb_bytes (unat x) @ rest) y rest"
    using buffer.decode_varint32_canonical [of "unat x" rest] by simp
  then show ?thesis
    using leb_bytes_length_64 [of x] assms(2,3) by (intro reads_backI [OF memory.emits_varint]) simp_all
qed

theorem varint32_reads_back_witness:
  "reads_back (pb_encode_varint 0xFFFFFFFFFFFFFFFB) pb_decode_varint32 (replicate 10 0) [] 0xFFFFFFFB"
  using varint32_reads_back [of "0xFFFFFFFFFFFFFFFB" "0xFFFFFFFB" "replicate 10 0" "[]"] by simp

text \<open>C21. \<open>pb_decode_varint\<close> accepts exactly the varints of at most ten bytes, with the number they stand for
  modulo 2 to the 64.\<close>

theorem pb_decode_varint_exact:
  assumes "buffer_ok s"
  shows "case leb_split (buffer_content s) of
      Some (v, rest) \<Rightarrow>
        if length v \<le> 10
        then \<exists>s'. pb_decode_varint s = Some (Some (of_nat (leb_val v)), s') \<and> buffer_ok s' \<and> buffer_content s' = rest
        else \<exists>s'. pb_decode_varint s = Some (None, s')
    | None \<Rightarrow> \<exists>s'. pb_decode_varint s = Some (None, s')"
proof (cases "case leb_split (buffer_content s) of None \<Rightarrow> True | Some (v, rest) \<Rightarrow> length v > 10")
  case True
  from buffer.decode_varint_rejects [OF this] assms have "\<exists>s'. pb_decode_varint s = Some (None, s')"
    unfolding buffer.rejects_def by blast
  with True show ?thesis by (auto split: option.splits)
next
  case False
  then obtain v rest where v: "leb_split (buffer_content s) = Some (v, rest)" "length v \<le> 10"
    by (auto split: option.splits)
  from buffer.decode_varint_accepts [OF v] assms
  have "\<exists>s'. pb_decode_varint s = Some (Some (of_nat (leb_val v)), s') \<and> buffer_ok s' \<and> buffer_content s' = rest"
    unfolding buffer.accepts_def by blast
  then show ?thesis using v by simp
qed

theorem pb_decode_varint_exact_witness:
  "\<exists>s'. pb_decode_varint (pb_istream_from_buffer [0xAC, 0x02, 9] 3) = Some (Some 300, s') \<and> buffer_content s' = [9]"
proof -
  have len: "length [0xAC, 0x02, 9 :: u8] = 3" by simp
  have split: "leb_split [0xAC, 0x02, 9] = Some ([0xAC, 0x02], [9])" by simp
  show ?thesis
    using pb_decode_varint_exact [OF from_buffer(1), of "[0xAC, 0x02, 9]"] unfolding from_buffer(2) split unfolding len by auto
qed

context pb_bytes
begin

text \<open>Bytes 0x80 only move the position.\<close>

lemma varint32_zeros: "accepts (varint32_loop (bitpos + 7 * of_nat n) 0) c x rest \<Longrightarrow>
    accepts (varint32_loop bitpos 0) (replicate n 0x80 @ c) x rest"
proof (induction n arbitrary: bitpos)
  case (Suc n)
  have "varint32_next bitpos 0 0x80 = 0" by (simp add: varint32_next_def)
  moreover have "bitpos + 7 * of_nat (Suc n) = (bitpos + 7) + 7 * of_nat n" by (simp add: algebra_simps)
  then have "accepts (varint32_loop (bitpos + 7) 0) (replicate n 0x80 @ c) x rest" using Suc by metis
  ultimately have "accepts (varint32_loop bitpos 0) (0x80 # replicate n 0x80 @ c) x rest"
    by (subst varint32_loop_step) (intro accepts_then [OF accepts_readbyte], simp)
  then show ?case by simp
qed simp

lemma varint32_wraps: "accepts pb_decode_varint32 (0x80 # replicate 36 0x80 @ [1]) 8 []"
proof -
  have "accepts (varint32_loop 3 0) [1] 8 []"
    by (subst varint32_loop_step) (intro accepts_then [OF accepts_readbyte], simp add: varint32_next_def accepts_return)
  moreover have "7 + 7 * of_nat 36 = (3 :: u8)" by (rule word_eqI_unat) simp
  ultimately have "accepts (varint32_loop (7 + 7 * of_nat 36) 0) [1] 8 []" by metis
  then have "accepts (varint32_loop 7 0) (replicate 36 0x80 @ [1]) 8 []" by (rule varint32_zeros)
  then show ?thesis unfolding decode_varint32_step by (intro accepts_then [OF accepts_readbyte]) simp
qed

end

lemma leb_split_zeros: "leb_split (replicate n 0x80 @ [1]) = Some (replicate n 0x80 @ [1], [])"
  by (induction n) simp_all

text \<open>C24. The loop of \<open>pb_decode_varint32\<close> has two gaps: six bytes whose fifth has bits above the 32nd are
  accepted without them, and the 8-bit position wraps around in a varint of 38 bytes.\<close>

theorem varint32_gaps:
  "(\<exists>s. pb_decode_varint32 (pb_istream_from_buffer [0xFF, 0xFF, 0xFF, 0xFF, 0xFF, 0] 6) = Some (Some 0xFFFFFFFF, s)) \<and>
   (\<exists>s. pb_decode_varint (pb_istream_from_buffer [0xFF, 0xFF, 0xFF, 0xFF, 0xFF, 0] 6) = Some (Some 0x7FFFFFFFF, s)) \<and>
   (\<exists>s. pb_decode_varint32 (pb_istream_from_buffer (replicate 37 0x80 @ [1]) 38) = Some (Some 8, s)) \<and>
   (\<exists>s. pb_decode_varint (pb_istream_from_buffer (replicate 37 0x80 @ [1]) 38) = Some (None, s))"
proof (intro conjI)
  let ?c = "[0xFF, 0xFF, 0xFF, 0xFF, 0xFF, 0] :: bytes"
  have c: "leb_split ?c = Some (?c, [])" "length ?c = 6" by simp_all
  have val: "varint32_val ?c = 0xFFFFFFFF" "varint32_ok ?c"
    by (simp_all add: varint32_val_word varint32_ok_def)
  show "\<exists>s. pb_decode_varint32 (pb_istream_from_buffer ?c 6) = Some (Some 0xFFFFFFFF, s)"
    using buffer.decode_varint32_accepts [OF c(1)] from_buffer [of ?c] val unfolding c(2) buffer.accepts_def by fastforce
  show "\<exists>s. pb_decode_varint (pb_istream_from_buffer ?c 6) = Some (Some 0x7FFFFFFFF, s)"
    using buffer.decode_varint_accepts [OF c(1)] from_buffer [of ?c] unfolding c(2) buffer.accepts_def by fastforce
  let ?d = "replicate 37 0x80 @ [1] :: bytes"
  have "(37 :: nat) = Suc 36" by simp
  then have "replicate 37 (0x80 :: u8) = 0x80 # replicate 36 0x80" by (metis replicate_Suc)
  then have d: "?d = 0x80 # replicate 36 0x80 @ [1]" "length ?d = 38" by simp_all
  show "\<exists>s. pb_decode_varint32 (pb_istream_from_buffer ?d 38) = Some (Some 8, s)"
    using buffer.varint32_wraps from_buffer [of ?d] unfolding d(2) buffer.accepts_def d(1) [symmetric] by blast
  show "\<exists>s. pb_decode_varint (pb_istream_from_buffer ?d 38) = Some (None, s)"
    using buffer.decode_varint_rejects [of ?d] from_buffer [of ?d] leb_split_zeros [of 37]
    unfolding d(2) buffer.rejects_def by auto
qed

section \<open>Messages on the wire\<close>

text \<open>C19. A message that \<open>pb_encode_delimited\<close> has written is found again: the substream that
  \<open>pb_make_string_substream\<close> opens has exactly its bytes, and closing it leaves what is behind the message.\<close>

theorem pb_delimited_substream:
  assumes "message_wires env n descr src = Emits ws" "length (message_bytes ws) < 2 ^ 32"
    "5 + length (message_bytes ws) \<le> length buf" "length buf < 2 ^ 63"
  shows "\<exists>s sub s1 s2. pb_encode_delimited env n descr src (pb_ostream_from_buffer buf (length buf)) = Some (True, s) \<and>
    pb_make_string_substream (pb_istream_from_buffer (memory_output (out_sink s) @ rest) (bytes_written s + length rest)) =
      Some (Some sub, s1) \<and>
    buffer_content sub = message_bytes ws \<and>
    pb_close_string_substream sub s1 = Some (Some (), s2) \<and> buffer_content s2 = rest"
proof -
  let ?e = "message_bytes ws"
  have "memory.emits (pb_encode env n descr src) ?e" using memory.meets_message [of env n descr src] assms(1) by simp
  then have emits: "memory.emits (pb_encode_delimited env n descr src) (payload (Str ?e))"
    unfolding pb_encode_delimited_def using assms(2) by (intro memory.emits_submessage) simp_all
  have "length (leb_bytes (length ?e)) \<le> 5" using assms(2) by (intro leb_bytes_length) simp_all
  then have "length (payload (Str ?e)) \<le> length buf" using assms(3) by simp
  with emits_memory [OF emits assms(4)] obtain s where
    s: "pb_encode_delimited env n descr src (pb_ostream_from_buffer buf (length buf)) = Some (True, s)"
      "memory_output (out_sink s) = payload (Str ?e)" "bytes_written s = length (payload (Str ?e))" by auto
  let ?i = "pb_istream_from_buffer (memory_output (out_sink s) @ rest) (bytes_written s + length rest) :: 'b pb_istream"
  have "window_ok [] ?i \<and> buffer_content ?i = leb_bytes (length ?e) @ ?e @ rest"
    by (rule window_okI) (simp_all add: pb_istream_from_buffer_def s)
  then have i: "window_ok [] ?i" "buffer_content ?i = leb_bytes (length ?e) @ ?e @ rest" by simp_all
  obtain sub s1 where sub: "pb_make_string_substream ?i = Some (Some sub, s1)" "window_ok (rest @ []) sub" "buffer_content sub = ?e"
    "bytes_left s1 = length rest" by (rule make_substream [OF i assms(2)])
  from close_substream [OF sub(2,4)] sub(1,3) s(1) show ?thesis by blast
qed

theorem pb_delimited_substream_witness:
  "\<exists>s sub s1 s2. pb_encode_delimited struct_env 3 1 0x1000 (pb_ostream_from_buffer (replicate 20 0) 20) = Some (True, s) \<and>
    pb_make_string_substream (pb_istream_from_buffer (memory_output (out_sink s) @ [5]) (bytes_written s + 1)) =
      Some (Some sub, s1) \<and>
    buffer_content sub = [0x0A, 7, 0x0A, 1, 0x61, 0x12, 2, 0x20, 1] \<and>
    pb_close_string_substream sub s1 = Some (Some (), s2) \<and> buffer_content s2 = [5]"
proof -
  have e: "message_bytes [(1, Str [0x0A, 1, 0x61, 0x12, 2, 0x20, 1])] = [0x0A, 7, 0x0A, 1, 0x61, 0x12, 2, 0x20, 1]"
    by (simp add: message_bytes_def leb_bytes_small wire_types)
  have len: "length (replicate 20 (0 :: u8)) = 20" "length [5 :: u8] = 1"
    "length [0x0A, 7, 0x0A, 1, 0x61, 0x12, 2, 0x20, 1 :: u8] = 9" by simp_all
  show ?thesis
    using pb_delimited_substream [OF struct_wires, of "replicate 20 0" "[5]"] unfolding e len by simp
qed

text \<open>C3. From the front of an encoded message \<open>pb_decode_tag\<close> takes the tag and the wire type of its first
  field, and \<open>pb_skip_field\<close> the value, up to the first byte of the next field.\<close>

theorem pb_skip_first_field:
  assumes "wire_ok (t, w)" "buffer_ok s" "buffer_content s = message_bytes ((t, w) # ws) @ rest"
  shows "\<exists>s1 s2. pb_decode_tag s = Some ((Some (wire_type w, t), s1), False) \<and>
    pb_skip_field (wire_type w) s1 = Some (Some (), s2) \<and> buffer_ok s2 \<and> buffer_content s2 = message_bytes ws @ rest"
proof -
  have "buffer_content s = wire_bytes (t, w) @ message_bytes ws @ rest" using assms(3) by (simp add: message_bytes_def)
  then obtain s1 where s1: "decode_tag s = Some (Some (wire_type w, t), s1)" "buffer_ok s1"
    "buffer_content s1 = payload w @ message_bytes ws @ rest"
    using buffer.decode_tag_wire [OF assms(1), of "message_bytes ws @ rest"] assms(2) unfolding buffer.accepts_def by blast
  then obtain e where "pb_decode_tag s = Some ((Some (wire_type w, t), s1), e)" by (auto simp: decode_tag_def)
  moreover from decode_tag_eof [OF this] have "\<not> e" .
  moreover obtain s2 where "pb_skip_field (wire_type w) s1 = Some (Some (), s2)" "buffer_ok s2"
    "buffer_content s2 = message_bytes ws @ rest"
    using buffer.skip_wire [OF assms(1), of "message_bytes ws @ rest"] s1 unfolding buffer.accepts_def by blast
  ultimately show ?thesis by auto
qed

theorem pb_skip_first_field_witness:
  "\<exists>s1 s2. pb_decode_tag (pb_istream_from_buffer [0x0A, 2, 5, 6, 0x10, 1] 6) = Some ((Some (2, 1), s1), False) \<and>
    pb_skip_field 2 s1 = Some (Some (), s2) \<and> buffer_content s2 = [0x10, 1]"
proof -
  have ok: "wire_ok (1, Str [5, 6])" by (simp add: wire_ok_def)
  have e: "message_bytes ((1, Str [5, 6]) # [(2, Varint 1)]) @ [] = [0x0A, 2, 5, 6, 0x10, 1]"
    "message_bytes [(2, Varint 1)] @ [] = [0x10, 1]" "wire_type (Str [5, 6]) = 2"
    by (simp_all add: message_bytes_def leb_bytes_small wire_types)
  have len: "length [0x0A, 2, 5, 6, 0x10, 1 :: u8] = 6" by simp
  note stream = from_buffer [of "[0x0A, 2, 5, 6, 0x10, 1]", unfolded len]
  show ?thesis
    using pb_skip_first_field [OF ok stream(1), of "[(2, Varint 1)]" "[]", unfolded e, OF stream(2)] by blast
qed

end
