(* ===== verification/Spec2Isabelle.thy ===== *)
theory Spec2Isabelle
  imports Reader_Props Builder_Props Time_Props Set_Of Unicode Stack_Props Constant_Time Base64_Props LHash_Props BIO_Mem_Props BER_Props
    PB_Props
begin

text \<open>
  \<^bold>\<open>What is verified.\<close> The repository is a Flutter application; its C code is the set of pods under
  \<open>ios/Pods\<close>. The development models the data-format layer of BoringSSL
  (\<open>ios/Pods/BoringSSL-GRPC/src/crypto\<close>, the paths below are relative to it): the code that every
  certificate, key and message passes through before anything else looks at it, and the containers and
  byte channels below it; and nanopb (\<open>ios/Pods/nanopb\<close>), the protocol buffers runtime with which Firestore
  writes and reads every message.

  \<^bold>\<open>Parts and theories.\<close>
  \<^item> \<open>Prelude\<close>: the machine types, \<open>size_t\<close> arithmetic, big-endian numbers.
  \<^item> \<open>Interfaces\<close>: the contracts between readers and writers as locales (\<open>byte_reader\<close>,
    \<open>strict_reader\<close>, \<open>prefix_code\<close>, \<open>canonical_code\<close>) and the reading loop that is their client.
  \<^item> \<open>Mem\<close>: \<open>mem.c\<close>. The C library's \<open>malloc\<close> is a parameter, a function from a size to a block or
    \<open>None\<close>; \<open>malloc_ok\<close> says that a block has the size asked for.
  \<^item> \<open>CBS\<close>, \<open>CBS_ASN1\<close>, \<open>CBS_Time\<close>: \<open>bytestring/cbs.c\<close>. A \<open>CBS\<close> is the list of the bytes it points
    to; a reader returns the value, or \<open>None\<close> for the return value 0, and the remaining bytes.
    \<open>CBS_Decimal\<close>, \<open>DER\<close> and \<open>DER_Values\<close> hold the abstract syntax (\<open>decimal\<close>, \<open>der_element\<close>,
    \<open>der_int\<close>) and the lemmas that the readers accept exactly that syntax.
  \<^item> \<open>CBB\<close>, \<open>CBB_ASN1\<close>: \<open>bytestring/cbb.c\<close>. The state is the buffer and the chain of open children, a
    handle is a depth in the chain. \<open>CBB_Refine\<close> defines the abstract builder (nested frames of bytes)
    and proves that flushing refines the closing of frames; \<open>CBB_Write\<close>, \<open>CBB_DER\<close> and \<open>CBB_Int\<close> show
    that each \<open>CBB_add_*\<close> satisfies the contract \<open>cbb_writer\<close>, and with the reader the contract \<open>codec\<close>;
    \<open>CBB_Errors\<close> shows that a failing call locks the builder (the calls are the type \<open>cbb_call\<close>).
    \<open>Set_Of\<close>: \<open>CBB_flush_asn1_set_of\<close>; the C library's \<open>qsort\<close> is a parameter with the law \<open>qsort_ok\<close>.
  \<^item> \<open>OID\<close>: object identifiers, from DER to text (\<open>cbs.c\<close>) and from text to DER (\<open>cbb.c\<close>).
  \<^item> \<open>Unicode\<close>: \<open>bytestring/unicode.c\<close>.
  \<^item> \<open>Posix_Time\<close>: \<open>asn1/posix_time.c\<close>.
  \<^item> \<open>Constant_Time\<close>: the branch-free masks, conditional copies and rotations of \<open>internal.h\<close>.
  \<^item> \<open>Base64\<close>: \<open>base64/base64.c\<close>, the block functions and the streaming encoder and decoder.
  \<^item> \<open>Stack\<close>, \<open>Stack_Sort\<close>: \<open>stack/stack.c\<close>. A stack is the array of its elements with the capacity and
    the \<open>sorted\<close> flag; the comparison function is a parameter; the heap sort is proved in \<open>Stack_Sort\<close>.
  \<^item> \<open>LHash\<close>: \<open>lhash/lhash.c\<close>, buckets of chains with the cached hash values; \<open>LHash_Map\<close> proves that
    each operation refines one on a finite map. The instance of \<open>conf/conf.c\<close> is in \<open>LHash_Props\<close>.
  \<^item> \<open>Refcount\<close>: \<open>refcount.c\<close>. One iteration of a loop around the weak exchange is a step, and a step of
    the system is a step of any thread: the relation \<open>refcount_step\<close>.
  \<^item> \<open>Buf\<close>: \<open>buf/buf.c\<close>.
  \<^item> \<open>BIO\<close>, \<open>BIO_Mem\<close>, \<open>BIO_Generic\<close>, \<open>BIO_Asn1\<close>: \<open>bio/pair.c\<close>, \<open>bio/bio_mem.c\<close> and \<open>bio/bio.c\<close>. The objects
    are a map from addresses to records, since the halves of a pair point to each other; a choice of
    method is a value of \<open>bio_method\<close>. \<open>BIO_Ring\<close> and \<open>BIO_Pair\<close> show that a pair is two bounded FIFO
    channels. \<open>BIO_Source\<close> holds the locales \<open>byte_source\<close> and \<open>eof_source\<close>, what \<open>BIO_read_asn1\<close> relies
    on, and proves it against \<open>CBS_get_any_asn1_element\<close>; both kinds of BIO interpret them.
  \<^item> \<open>BER\<close>, \<open>BER_Convert\<close>: \<open>bytestring/ber.c\<close>. \<open>BER_Forest\<close> has the abstract syntax of BER (\<open>ber\<close>) and its
    conversion to DER (the relation \<open>converts\<close>); the recursion of \<open>cbs_convert_ber\<close> is proved to return on
    every input and to convert exactly the well-formed forests.
  \<^item> \<open>PB_Stream\<close>, \<open>PB_Decode\<close>, \<open>PB_Values\<close>: \<open>nanopb/pb_decode.c\<close>, the input streams, the decoders of the wire
    format and those of field values. The callback of a stream is \<open>buf_read\<close> or a function of the user. The
    locale \<open>pb_bytes\<close> says what the decoders need of a stream, and they are proved inside it; it is
    interpreted on streams from a buffer and, in \<open>PB_Walk\<close>, on substreams (\<open>window\<close>). \<open>PB_Varint\<close> says what
    the decoders of varints accept.
  \<^item> \<open>PB_Output\<close>, \<open>PB_Fields\<close>, \<open>PB_Encode\<close>, \<open>PB_Message\<close>: \<open>nanopb/pb_encode.c\<close> and \<open>nanopb/pb_common.c\<close>. The
    encoder walks over a struct by its description; memory is a total map from addresses to bytes, so that
    reading through a null or dangling pointer gives a byte and not \<open>None\<close>. The locale
    \<open>pb_sink\<close> says what the encoders need of an output stream, and is interpreted on buffers (\<open>memory\<close>).
    \<open>PB_Wire\<close> is the reference: \<open>message_wires\<close> gives the list of tags and values that a struct holds,
    \<open>Fails\<close> when it cannot be encoded, or \<open>Open\<close> when that depends on callbacks and extensions of the
    user, when reading it is undefined, or when the messages are nested deeper than the bound; \<open>PB_Emit\<close>
    proves the encoders against it, and \<open>PB_Walk\<close> the decoders on what was encoded.
    \<open>PB_Struct\<close> has the descriptions of \<open>google.protobuf.Struct\<close> (\<open>struct.nanopb.cc\<close> of Firestore), on
    which the witnesses run.
  \<^item> \<open>Reader_Props\<close>, \<open>Builder_Props\<close>, \<open>Time_Props\<close>, \<open>Stack_Props\<close>, \<open>Base64_Props\<close>, \<open>LHash_Props\<close>,
    \<open>BIO_Pair_Props\<close>, \<open>BIO_Mem_Props\<close>, \<open>BER_Props\<close>, \<open>PB_Props\<close>: the properties with their witnesses.

  \<^bold>\<open>Conventions.\<close> Fixed-width integers whose wrap-around matters are words; lengths and offsets
  (\<open>size_t\<close>) are natural numbers with the reduction modulo \<open>2 ^ 64\<close> written out where the code can
  overflow (\<open>size_add\<close>); \<open>int\<close> and \<open>int64_t\<close> values that the code keeps in range are integers, and
  that they stay in range is proved where it is not immediate. A read or write that C leaves
  undefined, a failed \<open>assert\<close> and \<open>abort\<close> are \<open>None\<close>. Most loops are structural or have a measure. The
  loops that may run on (\<open>ring_read\<close>, \<open>ring_write\<close>, \<open>read_full_loop\<close>, \<open>bio_read_all_loop\<close>) are
  \<open>partial_function (option)\<close>, where \<open>None\<close> also means that the loop does not end; that they end is part of
  what is proved, and \<open>bio_read_all_runaway\<close> shows one that goes on; \<open>ber_to_der_returns\<close> is about \<open>cbs_convert_ber\<close>. The
  only fuel is the number that \<open>pb_encode\<close> takes as a bound on the nesting of messages and on the length
  of lists of extensions, since a struct in memory may point back to itself: the code then recurses for
  ever and the reference is \<open>Open\<close> for every bound. The properties of \<open>pb_encode\<close> hold from any bound at
  which the reference is defined, and a larger one changes nothing (\<open>message_bound\<close>). They are about
  buffers below \<open>2 ^ 63\<close> bytes.

  \<^bold>\<open>Not modelled.\<close> Freeing of memory and the error queue, which have no effect on results; callbacks of
  \<open>OPENSSL_lh_doall_arg\<close> that reach back into the table; changes behind the pointers that
  \<open>BIO_get_mem_ptr\<close> and \<open>BIO_mem_contents\<close> hand out; of BIOs the \<open>ex_data\<close>, custom methods (except as
  readers of \<open>BIO_read_asn1\<close>), printing, and files, descriptors and sockets; weak memory ordering of
  the atomics; of nanopb the decoding of a whole message into a struct (\<open>pb_decode\<close> with the fields in
  static, pointer and callback form, extensions, default values and the check of required fields) and
  \<open>pb_release\<close>, which write to memory that they also allocate; the rest of BoringSSL (X.509, TLS, the
  ciphers), gRPC, zlib, upb, abseil, leveldb and Firebase.
\<close>

end
